(* ===== verification/Prelude.thy ===== *)
theory Prelude
  imports Main "HOL-Library.AList" "HOL-Library.Multiset" "HOL-Library.Monad_Syntax"
begin

text \<open>
  Shared vocabulary of the development: Go maps, the order of a \<open>range\<close> loop over a Go map,
  loops whose body may panic, and the generic lemmas the components use.

  \<^item> A Go map is an association list (\<open>gomap\<close>); reading is \<^const>\<open>map_of\<close>, writing is
    \<^const>\<open>AList.update\<close>, \<open>delete(m, k)\<close> is \<^const>\<open>AList.delete\<close>.
  \<^item> Go does not specify the order in which \<open>range\<close> visits a map. Every model of a function
    that ranges over a map takes a \<open>range_order\<close>, an arbitrary choice function: when \<open>k\<close> keys
    are left, \<open>\<rho> p k mod k\<close> is the position of the key visited next, \<open>p\<close> being the path of
    the loop in the call tree (\<open>sub\<close> goes one level down). Every permutation is the order of
    some choice (\<open>go_pick_surj\<close>), so a theorem about an arbitrary \<open>\<rho>\<close> covers every run.
  \<^item> A function that may panic, or end the process with \<open>log.Fatalf\<close>, returns an \<open>option\<close>;
    \<^const>\<open>None\<close> is the panic. \<open>foldM\<close> is a \<open>for\<close> loop over a slice whose body may panic.
\<close>

named_theorems go_map_simps \<open>lookups and updates of Go maps\<close>
named_theorems range_simps \<open>what a range loop visits\<close>

section \<open>Go maps\<close>

type_synonym ('k, 'v) gomap = "('k \<times> 'v) list"

definition keys :: "('k, 'v) gomap \<Rightarrow> 'k set" where
  "keys m = fst ` set m"

lemma image_fst_keys [simp]: "fst ` set m = keys m"
  by (simp add: keys_def)

lemma keys_Nil [simp]: "keys [] = {}"
  by (simp add: keys_def del: image_fst_keys)

lemma keys_Cons [simp]: "keys (kv # m) = insert (fst kv) (keys m)"
  by (simp add: keys_def del: image_fst_keys)

lemma finite_keys [simp]: "finite (keys m)"
  by (simp add: keys_def del: image_fst_keys)

lemma dom_map_of_keys: "dom (map_of m) = keys m"
  by (simp add: dom_map_of_conv_image_fst)

abbreviation wf_map :: "('k, 'v) gomap \<Rightarrow> bool" where
  "wf_map m \<equiv> distinct (map fst m)"

text \<open>Reading a missing key yields the zero value of the element type.\<close>

definition get_or :: "'v \<Rightarrow> ('k, 'v) gomap \<Rightarrow> 'k \<Rightarrow> 'v" where
  "get_or d m k = (case map_of m k of None \<Rightarrow> d | Some v \<Rightarrow> v)"

lemma map_of_update [simp, go_map_simps]:
  "map_of (AList.update k v m) k' = (if k' = k then Some v else map_of m k')"
  by (simp add: update_conv')

lemma map_of_delete [simp, go_map_simps]:
  "map_of (AList.delete k m) k' = (if k' = k then None else map_of m k')"
  by (simp add: delete_conv')

lemma keys_update [simp, go_map_simps]: "keys (AList.update k v m) = insert k (keys m)"
  by (simp add: update_conv' flip: dom_map_of_keys)

lemma keys_delete [simp, go_map_simps]: "keys (AList.delete k m) = keys m - {k}"
  by (simp add: delete_conv' flip: dom_map_of_keys)

lemma wf_map_update [simp]: "wf_map m \<Longrightarrow> wf_map (AList.update k v m)"
  by (rule distinct_update)

lemma wf_map_delete [simp]: "wf_map m \<Longrightarrow> wf_map (AList.delete k m)"
  by (rule distinct_delete)

lemma get_or_update [simp, go_map_simps]:
  "get_or d (AList.update k v m) k' = (if k' = k then v else get_or d m k')"
  by (simp add: get_or_def)

lemma get_or_delete [simp, go_map_simps]:
  "get_or d (AList.delete k m) k' = (if k' = k then d else get_or d m k')"
  by (simp add: get_or_def)

lemma get_or_Nil [simp]: "get_or d [] k = d"
  by (simp add: get_or_def)

lemma get_or_Cons [simp]: "get_or d ((k, v) # m) k' = (if k' = k then v else get_or d m k')"
  by (simp add: get_or_def)

lemma get_or_no_key: "k \<notin> keys m \<Longrightarrow> get_or d m k = d"
  by (simp add: get_or_def dom_map_of_keys [symmetric] domIff)

lemma get_or_range: "get_or d m k = d \<or> get_or d m k \<in> snd ` set m"
proof (cases "map_of m k")
  case (Some v)
  then have "(k, v) \<in> set m" by (rule map_of_SomeD)
  with Some show ?thesis by (force simp: get_or_def)
qed (simp add: get_or_def)

lemma map_of_in_keys: "map_of m k = Some v \<Longrightarrow> k \<in> keys m"
  by (simp add: domI flip: dom_map_of_keys)

lemma map_of_None_keys: "map_of m k = None \<longleftrightarrow> k \<notin> keys m"
  by (auto simp flip: dom_map_of_keys)

lemma in_keys_map_of: "k \<in> keys m \<longleftrightarrow> (\<exists>v. map_of m k = Some v)"
  by (auto simp flip: dom_map_of_keys)

section \<open>The order of a range loop\<close>

type_synonym range_order = "nat list \<Rightarrow> nat \<Rightarrow> nat"

definition sub :: "range_order \<Rightarrow> nat \<Rightarrow> range_order" where
  "sub \<rho> i = (\<lambda>p. \<rho> (i # p))"

function go_pick :: "(nat \<Rightarrow> nat) \<Rightarrow> 'a list \<Rightarrow> 'a list" where
  "go_pick c [] = []"
| "go_pick c (x # xs) =
     (let ys = x # xs; i = c (length ys) mod length ys
      in ys ! i # go_pick c (take i ys @ drop (Suc i) ys))"
  by pat_completeness auto
termination
  by (relation "measure (length \<circ> snd)") (auto simp: Let_def min_def)

definition go_range :: "range_order \<Rightarrow> 'a list \<Rightarrow> 'a list" where
  "go_range \<rho> xs = go_pick (\<rho> []) xs"

text \<open>The order that visits the keys as they were inserted.\<close>

definition fifo :: range_order where
  "fifo = (\<lambda>p k. 0)"

lemma sub_fifo [simp]: "sub fifo i = fifo"
  by (simp add: sub_def fifo_def)

lemma go_pick_zero [simp]: "go_pick (\<lambda>_. 0) xs = xs"
  by (induction "\<lambda>_::nat. 0::nat" xs rule: go_pick.induct) auto

lemma go_range_fifo [simp]: "go_range fifo xs = xs"
  by (simp add: go_range_def fifo_def)

lemma mset_take_nth_drop:
  "i < length xs \<Longrightarrow> mset xs = add_mset (xs ! i) (mset (take i xs @ drop (Suc i) xs))"
  by (metis id_take_nth_drop mset.simps(2) mset_append union_mset_add_mset_right)

lemma mset_go_pick: "mset (go_pick c xs) = mset xs"
proof (induction c xs rule: go_pick.induct)
  case (2 c x xs)
  let ?ys = "x # xs" let ?i = "c (length ?ys) mod length ?ys"
  have "?i < length ?ys" by (rule mod_less_divisor) simp
  from mset_take_nth_drop [OF this] 2 show ?case by (simp add: Let_def)
qed simp

lemma mset_go_range [simp, range_simps]: "mset (go_range \<rho> xs) = mset xs"
  by (simp add: go_range_def mset_go_pick)

lemma set_go_range [simp, range_simps]: "set (go_range \<rho> xs) = set xs"
  by (metis mset_go_range set_mset_mset)

lemma length_go_range [simp, range_simps]: "length (go_range \<rho> xs) = length xs"
  by (metis mset_go_range size_mset)

lemma distinct_go_range [simp, range_simps]: "distinct (go_range \<rho> xs) = distinct xs"
  by (metis mset_go_range mset_eq_imp_distinct_iff)

lemma go_range_Nil [simp]: "go_range \<rho> [] = []"
  by (simp add: go_range_def)

lemma go_pick_cong:
  "(\<And>n. n \<le> length xs \<Longrightarrow> c n = c' n) \<Longrightarrow> go_pick c xs = go_pick c' xs"
proof (induction c xs rule: go_pick.induct)
  case (2 c x xs)
  let ?i = "c (length (x # xs)) mod length (x # xs)"
  have i: "c' (length (x # xs)) = c (length (x # xs))" using 2(2) by simp
  have "length (take ?i (x # xs) @ drop (Suc ?i) (x # xs)) \<le> length (x # xs)" by simp
  then have "go_pick c (take ?i (x # xs) @ drop (Suc ?i) (x # xs))
      = go_pick c' (take ?i (x # xs) @ drop (Suc ?i) (x # xs))"
    using 2(2) by (intro 2(1)) (auto simp: Let_def)
  then show ?case by (simp only: go_pick.simps Let_def i)
qed simp

text \<open>Nothing is lost: every permutation of the keys is the order of some choice.\<close>

lemma go_pick_surj: "mset ys = mset xs \<Longrightarrow> \<exists>c. go_pick c xs = ys"
proof (induction ys arbitrary: xs)
  case (Cons y ys)
  then have "y \<in> set xs" by (metis list.set_intros(1) mset_eq_setD)
  then obtain i where i: "i < length xs" "xs ! i = y" by (auto simp: in_set_conv_nth)
  let ?zs = "take i xs @ drop (Suc i) xs"
  from Cons.prems mset_take_nth_drop [OF i(1)] i(2) have "mset ys = mset ?zs" by simp
  then obtain c where c: "go_pick c ?zs = ys" using Cons.IH by blast
  let ?c = "c(length xs := i)"
  from i(1) have ne: "xs = hd xs # tl xs" by (cases xs) auto
  have "go_pick ?c ?zs = go_pick c ?zs"
    using i(1) by (intro go_pick_cong) auto
  with c i ne have "go_pick ?c xs = y # ys"
    by (subst ne, subst go_pick.simps) (simp add: Let_def del: go_pick.simps)
  then show ?case by blast
qed simp

section \<open>Loops that may panic\<close>

fun foldM :: "('a \<Rightarrow> 's \<Rightarrow> 's option) \<Rightarrow> 'a list \<Rightarrow> 's \<Rightarrow> 's option" where
  "foldM f [] s = Some s"
| "foldM f (x # xs) s = do { s' \<leftarrow> f x s; foldM f xs s' }"

fun mapM :: "('a \<Rightarrow> 'b option) \<Rightarrow> 'a list \<Rightarrow> 'b list option" where
  "mapM f [] = Some []"
| "mapM f (x # xs) = do { y \<leftarrow> f x; ys \<leftarrow> mapM f xs; Some (y # ys) }"

text \<open>A loop that returns at the first element whose body yields a result.\<close>

fun findM :: "('a \<Rightarrow> 'b option option) \<Rightarrow> 'a list \<Rightarrow> 'b option option" where
  "findM f [] = Some None"
| "findM f (x # xs) = do { r \<leftarrow> f x; case r of Some y \<Rightarrow> Some (Some y) | None \<Rightarrow> findM f xs }"

lemma foldM_append: "foldM f (xs @ ys) s = do { s' \<leftarrow> foldM f xs s; foldM f ys s' }"
  by (induction xs arbitrary: s) (auto split: Option.bind_splits)

text \<open>A loop whose body does not panic on the elements it sees is a plain fold.\<close>

lemma foldM_total:
  "(\<And>x s. x \<in> set xs \<Longrightarrow> f x s = Some (g x s)) \<Longrightarrow> foldM f xs s = Some (fold g xs s)"
  by (induction xs arbitrary: s) auto

lemma foldM_cong [fundef_cong]:
  "\<lbrakk>xs = ys; s = t; \<And>x u. x \<in> set ys \<Longrightarrow> f x u = g x u\<rbrakk> \<Longrightarrow> foldM f xs s = foldM g ys t"
  by (induction xs arbitrary: ys s t) (auto split: Option.bind_splits)

lemma foldM_invariant:
  "\<lbrakk>foldM f xs s = Some t; I s; \<And>x u v. \<lbrakk>x \<in> set xs; I u; f x u = Some v\<rbrakk> \<Longrightarrow> I v\<rbrakk> \<Longrightarrow> I t"
proof (induction xs arbitrary: s)
  case (Cons x xs)
  from Cons.prems(1) obtain u where u: "f x s = Some u" "foldM f xs u = Some t"
    by (auto split: Option.bind_splits)
  have "I u" by (rule Cons.prems(3) [OF _ Cons.prems(2) u(1)]) simp
  with u(2) show ?case by (rule Cons.IH) (rule Cons.prems(3), auto)
qed simp

text \<open>
  A loop that keeps \<open>I\<close>, moves along \<open>R\<close> and establishes \<open>Q x\<close> at the element \<open>x\<close> returns,
  and every \<open>Q x\<close> holds at its end.
\<close>

lemma foldM_progress:
  assumes "\<And>x u. \<lbrakk>x \<in> set xs; I u\<rbrakk> \<Longrightarrow> \<exists>v. f x u = Some v \<and> I v \<and> R u v \<and> Q x v"
    and "I s" "\<And>u. R u u" "\<And>u v w. \<lbrakk>R u v; R v w\<rbrakk> \<Longrightarrow> R u w" "\<And>x u v. \<lbrakk>Q x u; R u v\<rbrakk> \<Longrightarrow> Q x v"
  shows "\<exists>t. foldM f xs s = Some t \<and> I t \<and> R s t \<and> (\<forall>x \<in> set xs. Q x t)"
  using assms(1,2)
proof (induction xs arbitrary: s)
  case Nil
  then show ?case using assms(3) by simp
next
  case (Cons x xs)
  from Cons.prems obtain v where v: "f x s = Some v" "I v" "R s v" "Q x v" by (metis list.set_intros(1))
  from Cons.IH [OF _ v(2)] Cons.prems(1)
  obtain t where "foldM f xs v = Some t" "I t" "R v t" "\<forall>y \<in> set xs. Q y t" by auto
  with v show ?case using assms(4,5) by auto
qed

lemma foldM_inv:
  assumes "\<And>x u. \<lbrakk>x \<in> set xs; I u\<rbrakk> \<Longrightarrow> \<exists>v. f x u = Some v \<and> I v" "I s"
  shows "\<exists>t. foldM f xs s = Some t \<and> I t"
  using foldM_progress [of xs I f "\<lambda>_ _. True" "\<lambda>_ _. True" s] assms by auto

text \<open>What one step establishes and every step keeps holds at the end.\<close>

lemma foldM_reaches:
  assumes "foldM f xs s = Some t" "x \<in> set xs" "\<And>u v. f x u = Some v \<Longrightarrow> P v"
    "\<And>y u v. \<lbrakk>y \<in> set xs; P u; f y u = Some v\<rbrakk> \<Longrightarrow> P v"
  shows "P t"
proof -
  obtain ys zs where xs: "xs = ys @ x # zs" using assms(2) by (meson split_list)
  with assms(1) obtain u v where "f x u = Some v" "foldM f zs v = Some t" by (auto simp: foldM_append split: Option.bind_splits)
  moreover have "P w" if "y \<in> set zs" "P u" "f y u = Some w" for y u w by (rule assms(4) [OF _ that(2,3)]) (simp add: xs that(1))
  ultimately show ?thesis using assms(3) [of u v] foldM_invariant [of f zs v t P] by blast
qed

lemma foldM_collect:
  assumes "\<And>x acc. x \<in> set xs \<Longrightarrow> \<exists>ys. f x acc = Some (acc @ ys) \<and> set ys = F x"
  shows "\<exists>zs. foldM f xs acc = Some zs \<and> set zs = set acc \<union> (\<Union>x \<in> set xs. F x)"
  using assms
proof (induction xs arbitrary: acc)
  case (Cons x xs)
  from Cons.prems obtain ys where ys: "f x acc = Some (acc @ ys)" "set ys = F x" by (metis list.set_intros(1))
  from Cons.IH [of "acc @ ys"] Cons.prems
  obtain zs where "foldM f xs (acc @ ys) = Some zs" "set zs = set (acc @ ys) \<union> (\<Union>x \<in> set xs. F x)" by auto
  with ys show ?case by auto
qed simp

lemma mapM_total: "(\<And>x. x \<in> set xs \<Longrightarrow> f x = Some (g x)) \<Longrightarrow> mapM f xs = Some (map g xs)"
  by (induction xs) auto

lemma findM_total:
  assumes "\<And>x. x \<in> set xs \<Longrightarrow> \<exists>r. f x = Some r"
  shows "\<exists>r. findM f xs = Some r \<and> (r = None \<longleftrightarrow> (\<forall>x \<in> set xs. f x = Some None)) \<and>
    (\<forall>y. r = Some y \<longrightarrow> (\<exists>x \<in> set xs. f x = Some (Some y)))"
  using assms
proof (induction xs)
  case (Cons x xs)
  from Cons.prems obtain r where "f x = Some r" by auto
  with Cons show ?case by (cases r) auto
qed simp

lemma findM_cong [fundef_cong]:
  "\<lbrakk>xs = ys; \<And>x. x \<in> set ys \<Longrightarrow> f x = g x\<rbrakk> \<Longrightarrow> findM f xs = findM g ys"
  by (induction xs arbitrary: ys) (auto split: Option.bind_splits option.splits)

lemma mapM_exists:
  assumes "\<And>x. x \<in> set xs \<Longrightarrow> \<exists>y. f x = Some y \<and> P y"
  shows "\<exists>ys. mapM f xs = Some ys \<and> (\<forall>y \<in> set ys. P y)"
  using assms by (induction xs) fastforce+

lemma mapM_Some_D: "mapM f xs = Some ys \<Longrightarrow> list_all2 (\<lambda>x y. f x = Some y) xs ys"
  by (induction xs arbitrary: ys) (auto split: Option.bind_splits)

section \<open>Folds that collect\<close>

lemma fold_invariant:
  "\<lbrakk>I s; \<And>x u. \<lbrakk>x \<in> set xs; I u\<rbrakk> \<Longrightarrow> I (f x u)\<rbrakk> \<Longrightarrow> I (fold f xs s)"
  by (induction xs arbitrary: s) auto

text \<open>A loop whose body at \<open>p\<close> changes only the component \<open>p\<close> of the state, over distinct \<open>p\<close>s.\<close>

lemma fold_pointwise:
  assumes "\<And>p s q. val (f p s) q = (if q = p then F p (val s p) else val s q)" "distinct ps"
  shows "val (fold f ps s) q = (if q \<in> set ps then F q (val s q) else val s q)"
  using assms(2) by (induction ps arbitrary: s) (auto simp: assms(1))

lemma set_enumerate_snd: "snd ` set (enumerate n xs) = set xs"
  by (metis list.set_map map_snd_enumerate)

lemma ex_enumerate [simp]: "(\<exists>i. (i, x) \<in> set (enumerate n xs)) \<longleftrightarrow> x \<in> set xs"
  by (metis (no_types) imageE image_eqI prod.collapse set_enumerate_snd snd_conv)

text \<open>What a comprehension over a numbered loop collects, when the number only selects an order.\<close>

lemma set_concat_enumerate:
  "(\<And>i x. set (f i x) = F x) \<Longrightarrow>
     set (concat (map (\<lambda>(i, x). f i x) (enumerate n xs))) = (\<Union>x \<in> set xs. F x)"
  by (induction xs arbitrary: n) auto

lemma distinct_concat_enumerate:
  assumes "distinct xs" "\<And>i x. distinct (f i x)"
    and "\<And>i x j y. x \<noteq> y \<Longrightarrow> set (f i x) \<inter> set (f j y) = {}"
  shows "distinct (concat (map (\<lambda>(i, x). f i x) (enumerate n xs)))"
  using assms(1)
proof (induction xs arbitrary: n)
  case (Cons x xs)
  have "set (f n x) \<inter> set (f j y) = {}" if "(j, y) \<in> set (enumerate (Suc n) xs)" for j y
    using that Cons.prems assms(3) [of x y n j] by (metis distinct.simps(2) ex_enumerate)
  with Cons assms(2) show ?case by fastforce
qed simp

lemma count_list_pos: "0 < count_list xs x \<longleftrightarrow> x \<in> set xs"
  by (simp add: count_list_0_iff zero_less_iff_neq_zero)

lemma count_list_remove1: "count_list (remove1 a xs) b = count_list xs b - (if a = b then 1 else 0)"
  by (induction xs) (auto simp: count_list_0_iff Suc_leI count_list_pos)

section \<open>White space\<close>

text \<open>\<open>unicode.IsSpace\<close> and \<open>strings.TrimSpace\<close> on ASCII.\<close>

definition is_space :: "char \<Rightarrow> bool" where
  "is_space x \<longleftrightarrow> x \<in> {CHR '' '', CHR 0x09, CHR 0x0A, CHR 0x0B, CHR 0x0C, CHR 0x0D}"

definition TrimSpace :: "string \<Rightarrow> string" where
  "TrimSpace s = rev (dropWhile is_space (rev (dropWhile is_space s)))"

end
