(* ===== verification/Elle_History.thy ===== *)
theory Elle_History
  imports Prelude
begin

text \<open>
  The data of an Elle history (\<open>pkg/elle/core/history.go\<close>, \<open>optional.go\<close>, \<open>util.go\<close>, the value
  type \<open>Int\<close> of \<open>pkg/elle/rw_register/op.go\<close>) and the operations that select and number its
  events.

  A micro-operation \<open>Mop\<close> of the source carries a map \<open>M\<close>; every constructor of the program
  (\<open>Append\<close>, \<open>Read\<close>, \<open>MustParseOp\<close>) stores exactly the keys \<open>key\<close> and \<open>value\<close> in it, so the
  record has these two fields. \<open>op.Value\<close> is a pointer to a slice of micro-operations, and Go
  compares operations by that pointer: the field holds the address together with the slice it
  points to, and \<^const>\<open>None\<close> is the nil pointer, whose dereference panics.
\<close>

section \<open>Optional integers\<close>

datatype IntOptional = OptNil | OptInt int

definition NewOptInt :: "int \<Rightarrow> IntOptional" where
  "NewOptInt v = OptInt v"

fun Present :: "IntOptional \<Rightarrow> bool" where
  "Present OptNil = False"
| "Present (OptInt _) = True"

fun MustGet :: "IntOptional \<Rightarrow> int option" where
  "MustGet OptNil = None"
| "MustGet (OptInt v) = Some v"

definition GetOr :: "IntOptional \<Rightarrow> int \<Rightarrow> int" where
  "GetOr i defv = (case i of OptInt v \<Rightarrow> v | OptNil \<Rightarrow> defv)"

lemma Present_MustGet: "Present i \<longleftrightarrow> (\<exists>v. MustGet i = Some v)"
  by (cases i) auto

lemma MustGet_Some [simp]: "MustGet i = Some v \<longleftrightarrow> i = OptInt v"
  by (cases i) auto

section \<open>Micro-operations\<close>

text \<open>\<open>OpTypeEmpty\<close> is the empty string, the type of a zero \<open>Op\<close>.\<close>

datatype OpType = OpTypeInvoke | OpTypeOk | OpTypeFail | OpTypeInfo | OpTypeUnknown | OpTypeEmpty

datatype MopType = MopTypeAll | MopTypeAppend | MopTypeRead | MopTypeWrite | MopTypeUnknown

text \<open>\<open>rwregister.Int\<close>: an int or nil; \<open>NewNil\<close> stores 0.\<close>

record RegInt =
  int_IsNil :: bool
  int_Val :: int

definition NewInt :: "int \<Rightarrow> RegInt" where
  "NewInt v = \<lparr>int_IsNil = False, int_Val = v\<rparr>"

definition NewNil :: RegInt where
  "NewNil = \<lparr>int_IsNil = True, int_Val = 0\<rparr>"

definition Int_Eq :: "RegInt \<Rightarrow> RegInt \<Rightarrow> bool" where
  "Int_Eq i another \<longleftrightarrow> int_IsNil i = int_IsNil another \<and> int_Val i = int_Val another"

definition Int_EqNotNil :: "RegInt \<Rightarrow> RegInt \<Rightarrow> bool" where
  "Int_EqNotNil i another =
     (if int_IsNil i \<or> int_IsNil another then False else int_Val i = int_Val another)"

definition MustGetVal :: "RegInt \<Rightarrow> int option" where
  "MustGetVal i = (if int_IsNil i then None else Some (int_Val i))"

lemma Int_Eq_iff [simp]: "Int_Eq i j \<longleftrightarrow> i = j"
  by (auto simp: Int_Eq_def)

text \<open>The dynamic values an interface of type \<open>MopValueType\<close> holds.\<close>

datatype MopValueType = MV_nil | MV_int int | MV_ints "int list" | MV_Int RegInt

record Mop =
  mop_T :: MopType
  mop_key :: string
  mop_value :: MopValueType

definition IsAppend :: "Mop \<Rightarrow> bool" where
  "IsAppend m \<longleftrightarrow> mop_T m = MopTypeAppend"

definition IsRead :: "Mop \<Rightarrow> bool" where
  "IsRead m \<longleftrightarrow> mop_T m = MopTypeRead"

definition IsWrite :: "Mop \<Rightarrow> bool" where
  "IsWrite m \<longleftrightarrow> mop_T m = MopTypeWrite"

definition GetMopType :: "Mop \<Rightarrow> MopType" where
  "GetMopType m = mop_T m"

definition GetKey :: "Mop \<Rightarrow> string" where
  "GetKey m = mop_key m"

definition GetValue :: "Mop \<Rightarrow> MopValueType" where
  "GetValue m = mop_value m"

definition IsEqual :: "Mop \<Rightarrow> Mop \<Rightarrow> bool" where
  "IsEqual m n \<longleftrightarrow> m = n"

definition Append :: "string \<Rightarrow> int \<Rightarrow> Mop" where
  "Append key value = \<lparr>mop_T = MopTypeAppend, mop_key = key, mop_value = MV_int value\<rparr>"

text \<open>\<open>Read(key, nil)\<close> stores an untyped nil; \<^const>\<open>None\<close> is the nil slice.\<close>

definition Read :: "string \<Rightarrow> int list option \<Rightarrow> Mop" where
  "Read key values =
     (case values of
        None \<Rightarrow> \<lparr>mop_T = MopTypeRead, mop_key = key, mop_value = MV_nil\<rparr>
      | Some vs \<Rightarrow> \<lparr>mop_T = MopTypeRead, mop_key = key, mop_value = MV_ints vs\<rparr>)"

definition Write :: "string \<Rightarrow> RegInt \<Rightarrow> Mop" where
  "Write key value = \<lparr>mop_T = MopTypeWrite, mop_key = key, mop_value = MV_Int value\<rparr>"

definition ReadReg :: "string \<Rightarrow> RegInt \<Rightarrow> Mop" where
  "ReadReg key value = \<lparr>mop_T = MopTypeRead, mop_key = key, mop_value = MV_Int value\<rparr>"

lemmas mop_defs = IsAppend_def IsRead_def IsWrite_def GetKey_def GetValue_def GetMopType_def

text \<open>The type assertions the analyses apply to a value; a wrong dynamic type panics.\<close>

fun as_int :: "MopValueType \<Rightarrow> int option" where
  "as_int (MV_int i) = Some i"
| "as_int _ = None"

fun as_ints :: "MopValueType \<Rightarrow> int list option" where
  "as_ints (MV_ints vs) = Some vs"
| "as_ints _ = None"

fun as_Int :: "MopValueType \<Rightarrow> RegInt option" where
  "as_Int (MV_Int i) = Some i"
| "as_Int _ = None"

text \<open>A slice is not hashable: using it as a key of a map panics.\<close>

fun hash_key :: "MopValueType \<Rightarrow> MopValueType option" where
  "hash_key (MV_ints _) = None"
| "hash_key v = Some v"

text \<open>
  The reads of the list-append workload: \<open>var v []int; if mop.GetValue() != nil
  { v = mop.GetValue().([]int) }\<close>.
\<close>

definition read_values :: "Mop \<Rightarrow> int list option" where
  "read_values mop = (if GetValue mop \<noteq> MV_nil then as_ints (GetValue mop) else Some [])"

section \<open>Operations and histories\<close>

record Op =
  op_Index :: IntOptional
  op_Process :: IntOptional
  op_Time :: "int option"
  op_Type :: OpType
  op_Value :: "(nat \<times> Mop list) option"
  op_Error :: string

type_synonym History = "Op list"

text \<open>\<open>Op{}\<close>, which reading a missing key of a map of operations yields.\<close>

definition zero_Op :: Op where
  "zero_Op = \<lparr>op_Index = OptNil, op_Process = OptNil, op_Time = None, op_Type = OpTypeEmpty,
     op_Value = None, op_Error = []\<rparr>"

text \<open>\<open>*op.Value\<close>\<close>

definition deref :: "Op \<Rightarrow> Mop list option" where
  "deref op = map_option snd (op_Value op)"

text \<open>\<open>Op.Copy\<close> allocates a new slice at the address \<open>p\<close>.\<close>

definition Op_Copy :: "nat \<Rightarrow> Op \<Rightarrow> Op option" where
  "Op_Copy p op = do { mops \<leftarrow> deref op; Some (op\<lparr>op_Value := Some (p, mops)\<rparr>) }"

definition ValueLength :: "Op \<Rightarrow> nat" where
  "ValueLength op = (case op_Value op of None \<Rightarrow> 0 | Some (_, mops) \<Rightarrow> length mops)"

definition WithType :: "Op \<Rightarrow> OpType \<Rightarrow> Op" where
  "WithType op tp = op\<lparr>op_Type := tp\<rparr>"

definition WithProcess :: "Op \<Rightarrow> IntOptional \<Rightarrow> Op" where
  "WithProcess op p = op\<lparr>op_Process := p\<rparr>"

definition WithIndex :: "Op \<Rightarrow> IntOptional \<Rightarrow> Op" where
  "WithIndex op i = op\<lparr>op_Index := i\<rparr>"

definition HasMopType :: "Op \<Rightarrow> MopType \<Rightarrow> bool option" where
  "HasMopType op tp = do { mops \<leftarrow> deref op; Some (\<exists>mop \<in> set mops. mop_T mop = tp) }"

fun index_of :: "('a \<Rightarrow> bool) \<Rightarrow> 'a list \<Rightarrow> nat option" where
  "index_of p [] = None"
| "index_of p (x # xs) = (if p x then Some 0 else map_option Suc (index_of p xs))"

definition IndexOfMop :: "Op \<Rightarrow> Mop \<Rightarrow> int option" where
  "IndexOfMop op mop = do {
     mops \<leftarrow> deref op;
     Some (case index_of (\<lambda>m. IsEqual m mop) mops of Some idx \<Rightarrow> int idx | None \<Rightarrow> -1) }"

definition NemesisProcessMagicNumber :: int where
  "NemesisProcessMagicNumber = -1"

definition AnonymousMagicNumber :: int where
  "AnonymousMagicNumber = -2"

definition FilterType :: "History \<Rightarrow> OpType \<Rightarrow> History" where
  "FilterType h t = filter (\<lambda>op. op_Type op = t) h"

definition on_process :: "int \<Rightarrow> Op \<Rightarrow> bool" where
  "on_process p op \<longleftrightarrow> Present (op_Process op) \<and> MustGet (op_Process op) = Some p"

definition FilterProcess :: "History \<Rightarrow> int \<Rightarrow> History" where
  "FilterProcess h p = filter (on_process p) h"

definition GetKeys :: "History \<Rightarrow> MopType \<Rightarrow> string list option" where
  "GetKeys h t = foldM (\<lambda>op ks. do {
       mops \<leftarrow> deref op;
       Some (ks @ map GetKey (filter (\<lambda>mop. t = MopTypeAll \<or> GetMopType mop = t) mops)) }) h []"

definition FilterOkOrInfoHistory :: "History \<Rightarrow> History" where
  "FilterOkOrInfoHistory h = filter (\<lambda>op. op_Type op = OpTypeOk \<or> op_Type op = OpTypeInfo) h"

definition FilterOutNemesisHistory :: "History \<Rightarrow> History" where
  "FilterOutNemesisHistory h = filter (\<lambda>op. \<not> on_process NemesisProcessMagicNumber op) h"

definition FilterOkHistory :: "History \<Rightarrow> History" where
  "FilterOkHistory h = filter (\<lambda>op. op_Type op = OpTypeOk) h"

definition FilterFailedHistory :: "History \<Rightarrow> History" where
  "FilterFailedHistory h = filter (\<lambda>op. op_Type op = OpTypeFail) h"

definition AttachIndexIfNoExists :: "History \<Rightarrow> History" where
  "AttachIndexIfNoExists h =
     (if h \<noteq> [] \<and> Present (op_Index (hd h)) then h
      else map (\<lambda>(i, op). op\<lparr>op_Index := OptInt (int i)\<rparr>) (enumerate 0 h))"

text \<open>\<open>preProcessHistory\<close> of \<open>list_append/utils.go\<close> and of \<open>rw_register/utils.go\<close>.\<close>

definition preProcessHistory :: "History \<Rightarrow> History" where
  "preProcessHistory h = AttachIndexIfNoExists (FilterOutNemesisHistory h)"

section \<open>Numbering a history\<close>

text \<open>
  The analyses use operations as vertices of a graph, so two events of a history have to differ.
  A history is numbered when every event has an index and the indices increase.
\<close>

definition op_idx :: "Op \<Rightarrow> int" where
  "op_idx op = GetOr (op_Index op) 0"

definition numbered :: "History \<Rightarrow> bool" where
  "numbered h \<longleftrightarrow> list_all (\<lambda>op. Present (op_Index op)) h \<and> sorted_wrt (\<lambda>a b. op_idx a < op_idx b) h"

lemma numbered_filter: "numbered h \<Longrightarrow> numbered (filter P h)"
  by (auto simp: numbered_def list_all_iff sorted_wrt_filter)

lemma numbered_distinct: "numbered h \<Longrightarrow> distinct h"
  by (induction h) (auto simp: numbered_def)

lemma numbered_eq_iff:
  "\<lbrakk>numbered h; a \<in> set h; b \<in> set h\<rbrakk> \<Longrightarrow> op_idx a = op_idx b \<longleftrightarrow> a = b"
  by (induction h) (auto simp: numbered_def)

lemma AttachIndex_numbers:
  assumes "h = [] \<or> \<not> Present (op_Index (hd h))"
  shows "numbered (AttachIndexIfNoExists h)"
proof -
  have "sorted_wrt (\<lambda>a b. op_idx a < op_idx b)
          (map (\<lambda>(i, op). op\<lparr>op_Index := OptInt (int i)\<rparr>) (enumerate n h))" for n
    by (auto simp: sorted_wrt_iff_nth_less nth_enumerate_eq op_idx_def GetOr_def)
  with assms show ?thesis
    by (auto simp: AttachIndexIfNoExists_def numbered_def list_all_iff)
qed

lemma AttachIndex_length [simp]: "length (AttachIndexIfNoExists h) = length h"
  by (simp add: AttachIndexIfNoExists_def)

lemma AttachIndex_nth:
  "i < length h \<Longrightarrow> \<exists>n. AttachIndexIfNoExists h ! i = (h ! i)\<lparr>op_Index := n\<rparr>"
  by (auto simp: AttachIndexIfNoExists_def nth_enumerate_eq intro: exI [of _ "op_Index (h ! i)"])

end
