(* ===== verification/Digraph.thy ===== *)
theory Digraph
  imports Elle_History "HOL-Library.List_Lexorder" "HOL-Library.Char_ord"
begin

text \<open>
  The directed multigraph of \<open>pkg/elle/core/graph.go\<close>: the forward map \<open>Outs\<close>, the backward
  lists \<open>Ins\<close>, and the operations that build, copy, filter, rename and join graphs.

  The abstraction of a graph is its set of labelled edges \<open>edges\<close>, read from \<open>Outs\<close>.
  \<open>wf_core\<close> is kept by every update: the keys of both maps agree and no edge lacks a label.
  \<open>wf_graph\<close>, the invariant of the graphs that are only built by \<open>Link\<close>, adds that \<open>Ins\<close> lists
  exactly the sources of the edges. The locale
  \<open>edge_sink\<close> states what the analyses rely on when they insert edges; \<open>Link\<close> provides it.
\<close>

section \<open>Labels and vertices\<close>

datatype Rel = Rel (rel_string: string)

abbreviation Empty :: Rel where "Empty \<equiv> Rel ''''"
abbreviation WW :: Rel where "WW \<equiv> Rel ''ww''"
abbreviation WR :: Rel where "WR \<equiv> Rel ''wr''"
abbreviation RW :: Rel where "RW \<equiv> Rel ''rw''"
abbreviation Process :: Rel where "Process \<equiv> Rel ''process''"
abbreviation Realtime :: Rel where "Realtime \<equiv> Rel ''realtime''"
abbreviation ExtKey :: Rel where "ExtKey \<equiv> Rel ''ext-key''"
abbreviation Version :: Rel where "Version \<equiv> Rel ''version''"
abbreviation InitialState :: Rel where "InitialState \<equiv> Rel ''initial-state''"
abbreviation WFR :: Rel where "WFR \<equiv> Rel ''write-follow-read''"
abbreviation MonotonicKey :: Rel where "MonotonicKey \<equiv> Rel ''monotonic-key''"

text \<open>Labels are ordered as Go orders strings, byte by byte (\<open>RelSet.Less\<close>).\<close>

instantiation Rel :: linorder
begin

definition less_eq_Rel :: "Rel \<Rightarrow> Rel \<Rightarrow> bool" where
  "less_eq_Rel r s \<longleftrightarrow> rel_string r \<le> rel_string s"

definition less_Rel :: "Rel \<Rightarrow> Rel \<Rightarrow> bool" where
  "less_Rel r s \<longleftrightarrow> rel_string r < rel_string s"

instance
  by standard (auto simp: less_eq_Rel_def less_Rel_def Rel.expand)

end

text \<open>
  The dynamic types a \<open>Vertex\<close> holds in the program: an operation, a string (the graphs of
  models and anomalies), an int (renumbered graphs), a register version, or nil.
\<close>

datatype Vertex = VOp Op | VStr string | VNum int | VReg RegInt | VNil

record Edge =
  edge_From :: Vertex
  edge_To :: Vertex
  edge_Value :: Rel

record DirectedGraph =
  Outs :: "(Vertex, (Vertex, Rel list) gomap) gomap"
  Ins :: "(Vertex, Vertex list) gomap"

definition NewDirectedGraph :: DirectedGraph where
  "NewDirectedGraph = \<lparr>Outs = [], Ins = []\<rparr>"

text \<open>\<open>g.Outs[v]\<close> and \<open>g.Outs[a][b]\<close>; a missing entry reads as an empty map or slice.\<close>

definition outs :: "DirectedGraph \<Rightarrow> Vertex \<Rightarrow> (Vertex, Rel list) gomap" where
  "outs g v = get_or [] (Outs g) v"

definition rels :: "DirectedGraph \<Rightarrow> Vertex \<Rightarrow> Vertex \<Rightarrow> Rel list" where
  "rels g a b = get_or [] (outs g a) b"

section \<open>Queries\<close>

text \<open>
  \<open>Vertices\<close> sorts the keys of \<open>Outs\<close>. For operations that carry an index the order is that of the
  indices; ties, and all other vertices (where \<open>Less\<close> compares positions), come in an order that
  neither the range loop nor \<open>sort.Sort\<close> fixes, so it is the arbitrary order \<open>\<rho>\<close>. \<open>Less\<close> asserts that an operation is
  compared with an operation. The assertion does not fail in the graphs of the program, whose vertices are all operations
  (the transaction graphs) or all values of one key (the version graphs); a mixed graph is not distinguished here.
\<close>

definition vertex_index :: "Vertex \<Rightarrow> int option" where
  "vertex_index v = (case v of VOp op \<Rightarrow> MustGet (op_Index op) | _ \<Rightarrow> None)"

definition Vertices :: "range_order \<Rightarrow> DirectedGraph \<Rightarrow> Vertex list" where
  "Vertices \<rho> g =
     (let ks = go_range \<rho> (map fst (Outs g))
      in if list_all (\<lambda>v. vertex_index v \<noteq> None) ks then sort_key (the \<circ> vertex_index) ks else ks)"

definition NewVerticesFromOp :: "Op list \<Rightarrow> Vertex list" where
  "NewVerticesFromOp items = map VOp items"

fun rels_exist :: "Rel list \<Rightarrow> Rel \<Rightarrow> bool" where
  "rels_exist [] rel = False"
| "rels_exist (r # rs) rel = (if r = rel then True else rels_exist rs rel)"

definition IsEmpty :: "range_order \<Rightarrow> DirectedGraph \<Rightarrow> bool" where
  "IsEmpty \<rho> g \<longleftrightarrow> length (Vertices \<rho> g) = 0"

definition In :: "DirectedGraph \<Rightarrow> Vertex \<Rightarrow> Vertex list" where
  "In g v = get_or [] (Ins g) v"

definition Out :: "range_order \<Rightarrow> DirectedGraph \<Rightarrow> Vertex \<Rightarrow> Vertex list" where
  "Out \<rho> g v = (case map_of (Outs g) v of None \<Rightarrow> [] | Some m \<Rightarrow> go_range \<rho> (map fst m))"

definition Edges :: "DirectedGraph \<Rightarrow> Vertex \<Rightarrow> Vertex \<Rightarrow> Edge list" where
  "Edges g a b =
     (case map_of (Outs g) a of
        None \<Rightarrow> []
      | Some m \<Rightarrow>
          (case map_of m b of
             None \<Rightarrow> []
           | Some rs \<Rightarrow> map (\<lambda>rel. \<lparr>edge_From = a, edge_To = b, edge_Value = rel\<rparr>) rs))"

section \<open>Updates\<close>

text \<open>\<open>if _, ok := m[k]; !ok { m[k] = d }\<close>\<close>

definition ensure :: "'k \<Rightarrow> 'v \<Rightarrow> ('k, 'v) gomap \<Rightarrow> ('k, 'v) gomap" where
  "ensure k d m = (case map_of m k of None \<Rightarrow> AList.update k d m | Some _ \<Rightarrow> m)"

definition Link :: "Vertex \<Rightarrow> Vertex \<Rightarrow> Rel \<Rightarrow> DirectedGraph \<Rightarrow> DirectedGraph" where
  "Link v succ rel g =
     (let os = ensure succ [] (ensure v [] (Outs g));
          is = ensure succ [] (ensure v [] (Ins g));
          vs = get_or [] os v;
          rs = get_or [] vs succ;
          haveRel = (rel \<in> set rs)
      in \<lparr>Outs = (if \<not> haveRel then AList.update v (AList.update succ (rs @ [rel]) vs) os else os),
          Ins = AList.update succ (get_or [] is succ @ [v]) is\<rparr>)"

definition LinkToAll :: "Vertex \<Rightarrow> Vertex list \<Rightarrow> Rel \<Rightarrow> DirectedGraph \<Rightarrow> DirectedGraph" where
  "LinkToAll x ys rel g = fold (\<lambda>y. Link x y rel) ys g"

definition LinkAllTo :: "Vertex list \<Rightarrow> Vertex \<Rightarrow> Rel \<Rightarrow> DirectedGraph \<Rightarrow> DirectedGraph" where
  "LinkAllTo xs y rel g = fold (\<lambda>x. Link x y rel) xs g"

definition LinkAllToAll :: "Vertex list \<Rightarrow> Vertex list \<Rightarrow> Rel \<Rightarrow> DirectedGraph \<Rightarrow> DirectedGraph" where
  "LinkAllToAll xs ys rel g = fold (\<lambda>x. fold (\<lambda>y. Link x y rel) ys) xs g"

text \<open>\<open>UnLink\<close> removes the first entry for \<open>a\<close> from \<open>Ins[b]\<close> and stops.\<close>

definition UnLink :: "Vertex \<Rightarrow> Vertex \<Rightarrow> DirectedGraph \<Rightarrow> DirectedGraph" where
  "UnLink a b g =
     \<lparr>Outs = (case map_of (Outs g) a of
               None \<Rightarrow> Outs g
             | Some m \<Rightarrow> AList.update a (AList.delete b m) (Outs g)),
      Ins = (case map_of (Ins g) b of
               None \<Rightarrow> Ins g
             | Some vs \<Rightarrow> if a \<in> set vs then AList.update b (remove1 a vs) (Ins g) else Ins g)\<rparr>"

definition UnLinkSelfEdges :: "Vertex list \<Rightarrow> DirectedGraph \<Rightarrow> DirectedGraph" where
  "UnLinkSelfEdges xs g = fold (\<lambda>x. UnLink x x) xs g"

text \<open>A sequence of \<open>Link\<close> calls; the nested loops below produce the labelled edges in order.\<close>

definition link_edges :: "(Vertex \<times> Vertex \<times> Rel) list \<Rightarrow> DirectedGraph \<Rightarrow> DirectedGraph" where
  "link_edges es g = fold (\<lambda>(a, b, r). Link a b r) es g"

definition Fork :: "range_order \<Rightarrow> DirectedGraph \<Rightarrow> DirectedGraph" where
  "Fork \<rho> g = link_edges
     [(a, b, edge_Value e). (i, a) \<leftarrow> enumerate 1 (Vertices (sub \<rho> 0) g),
                            b \<leftarrow> Out (sub \<rho> i) g a, e \<leftarrow> Edges g a b] NewDirectedGraph"

definition IntersectionRel :: "Rel list \<Rightarrow> Rel list \<Rightarrow> Rel list" where
  "IntersectionRel rels1 rels2 = [rel1. rel1 \<leftarrow> rels1, rel2 \<leftarrow> rels2, rel1 = rel2]"

text \<open>The body of the inner loop of \<open>FilterRelationships\<close>.\<close>

definition refilter :: "DirectedGraph \<Rightarrow> Rel list \<Rightarrow> Vertex \<times> Vertex \<Rightarrow> DirectedGraph \<Rightarrow> DirectedGraph" where
  "refilter g rs = (\<lambda>(x, y) fg.
     fold (\<lambda>item. Link x y item) (IntersectionRel (rels g x y) rs) (UnLink x y fg))"

definition FilterRelationships :: "range_order \<Rightarrow> DirectedGraph \<Rightarrow> Rel list \<Rightarrow> DirectedGraph" where
  "FilterRelationships \<rho> g rs =
     (let fg = Fork (sub \<rho> 0) g
      in fold (refilter g rs)
           [(x, y). (i, x) \<leftarrow> enumerate 2 (Vertices (sub \<rho> 1) fg), x \<in> keys (Outs g),
                    y \<leftarrow> go_range (sub \<rho> i) (map fst (outs g x))] fg)"

definition ProjectRelationship :: "range_order \<Rightarrow> DirectedGraph \<Rightarrow> Rel \<Rightarrow> DirectedGraph" where
  "ProjectRelationship \<rho> g rel = FilterRelationships \<rho> g [rel]"

text \<open>The labelled edges of \<open>g\<close> in the order of a double range loop over \<open>Outs\<close>.\<close>

definition all_edges :: "range_order \<Rightarrow> DirectedGraph \<Rightarrow> (Vertex \<times> Vertex \<times> Rel) list" where
  "all_edges \<rho> g = [(x, y, rel). (i, x) \<leftarrow> enumerate 1 (Vertices (sub \<rho> 0) g),
                                 y \<leftarrow> go_range (sub \<rho> i) (map fst (outs g x)), rel \<leftarrow> rels g x y]"

definition MapVertices ::
  "range_order \<Rightarrow> (Vertex \<Rightarrow> Vertex option) \<Rightarrow> DirectedGraph \<Rightarrow> DirectedGraph option" where
  "MapVertices \<rho> f g = foldM (\<lambda>(x, y, item) fg. do {
       fx \<leftarrow> f x; fy \<leftarrow> f y; Some (Link fx fy item fg) }) (all_edges \<rho> g) NewDirectedGraph"

definition RenumberGraph :: "range_order \<Rightarrow> DirectedGraph \<Rightarrow> DirectedGraph \<times> (Vertex \<Rightarrow> Vertex)" where
  "RenumberGraph \<rho> g =
     (let vertices = Vertices (sub \<rho> 0) g;
          ref = map (\<lambda>(i, v). (v, int i)) (enumerate 0 vertices);
          numberToVertices = map (\<lambda>(i, v). (VNum (int i), v)) (enumerate 0 vertices)
      in (link_edges
            [(VNum (get_or 0 ref x), VNum (get_or 0 ref y), rel).
               (i, x) \<leftarrow> enumerate 1 vertices,
               y \<leftarrow> go_range (sub \<rho> i) (map fst (outs g x)), rel \<leftarrow> rels g x y] NewDirectedGraph,
          \<lambda>number. get_or VNil numberToVertices number))"

definition MapToDirectedGraph :: "range_order \<Rightarrow> (Vertex, Vertex list) gomap \<Rightarrow> DirectedGraph" where
  "MapToDirectedGraph \<rho> m = link_edges
     [(x, y, Empty). x \<leftarrow> go_range \<rho> (map fst m), y \<leftarrow> get_or [] m x] NewDirectedGraph"

definition DigraphUnion :: "range_order \<Rightarrow> DirectedGraph list \<Rightarrow> DirectedGraph" where
  "DigraphUnion \<rho> graphs = link_edges
     [e. (i, g) \<leftarrow> enumerate 0 graphs, e \<leftarrow> all_edges (sub \<rho> i) g] NewDirectedGraph"

section \<open>The edges of a graph\<close>

definition arc :: "DirectedGraph \<Rightarrow> Vertex \<Rightarrow> Vertex \<Rightarrow> bool" where
  "arc g a b \<longleftrightarrow> b \<in> keys (outs g a)"

definition edges :: "DirectedGraph \<Rightarrow> (Vertex \<times> Vertex \<times> Rel) set" where
  "edges g = {(a, b, r). r \<in> set (rels g a b)}"

definition wf_core :: "DirectedGraph \<Rightarrow> bool" where
  "wf_core g \<longleftrightarrow>
     wf_map (Outs g) \<and> wf_map (Ins g) \<and> keys (Ins g) = keys (Outs g) \<and>
     (\<forall>a. wf_map (outs g a)) \<and>
     (\<forall>a b. arc g a b \<longrightarrow> a \<in> keys (Outs g) \<and> b \<in> keys (Outs g) \<and> rels g a b \<noteq> []) \<and>
     (\<forall>a b. distinct (rels g a b))"

definition wf_graph :: "DirectedGraph \<Rightarrow> bool" where
  "wf_graph g \<longleftrightarrow> wf_core g \<and> (\<forall>a b. a \<in> set (In g b) \<longleftrightarrow> arc g a b)"

lemma wf_coreI:
  assumes "wf_map (Outs g)" "wf_map (Ins g)" "keys (Ins g) = keys (Outs g)"
    and "\<And>a. wf_map (outs g a)"
    and "\<And>a b. arc g a b \<Longrightarrow> a \<in> keys (Outs g)" "\<And>a b. arc g a b \<Longrightarrow> b \<in> keys (Outs g)"
    and "\<And>a b. arc g a b \<Longrightarrow> rels g a b \<noteq> []" "\<And>a b. distinct (rels g a b)"
  shows "wf_core g"
  using assms by (simp add: wf_core_def)

lemma wf_coreD:
  assumes "wf_core g"
  shows "wf_map (Outs g)" "wf_map (Ins g)" "keys (Ins g) = keys (Outs g)" "wf_map (outs g a)"
    "arc g a b \<Longrightarrow> a \<in> keys (Outs g)" "arc g a b \<Longrightarrow> b \<in> keys (Outs g)"
    "arc g a b \<Longrightarrow> rels g a b \<noteq> []" "distinct (rels g a b)"
  using assms by (auto simp: wf_core_def)

lemma wf_graphD:
  assumes "wf_graph g"
  shows "wf_core g" "a \<in> set (In g b) \<longleftrightarrow> arc g a b"
  using assms by (auto simp: wf_graph_def)

lemma in_edges [simp]: "(a, b, r) \<in> edges g \<longleftrightarrow> r \<in> set (rels g a b)"
  by (simp add: edges_def)

lemma rels_not_arc: "\<not> arc g a b \<Longrightarrow> rels g a b = []"
  by (simp add: rels_def arc_def get_or_no_key)

lemma rels_arc: "r \<in> set (rels g a b) \<Longrightarrow> arc g a b"
  by (rule ccontr) (simp add: rels_not_arc)

lemma wf_arc_iff: "wf_graph g \<Longrightarrow> arc g a b \<longleftrightarrow> (\<exists>r. (a, b, r) \<in> edges g)"
  using rels_arc [of _ g a b] by (fastforce simp: wf_graph_def wf_core_def neq_Nil_conv)

lemma rels_eqI: "\<lbrakk>wf_graph g; wf_graph h; edges g = edges h\<rbrakk> \<Longrightarrow> set (rels g a b) = set (rels h a b)"
  by (auto simp: set_eq_iff simp flip: in_edges)

lemma arc_in_Outs: "arc g a b \<Longrightarrow> a \<in> keys (Outs g)"
  by (rule ccontr) (simp add: arc_def outs_def get_or_no_key)

lemma Edges_rels: "map edge_Value (Edges g a b) = rels g a b"
  by (simp add: Edges_def rels_def outs_def get_or_def comp_def split: option.splits)

lemma Edges_conv: "Edges g a b = map (\<lambda>r. \<lparr>edge_From = a, edge_To = b, edge_Value = r\<rparr>) (rels g a b)"
  by (simp add: Edges_def rels_def outs_def get_or_def split: option.splits)

lemma Out_conv: "Out \<rho> g v = go_range \<rho> (map fst (outs g v))"
  by (simp add: Out_def outs_def get_or_def split: option.splits)

lemma set_Out [simp]: "set (Out \<rho> g v) = {w. arc g v w}"
  by (auto simp: Out_conv arc_def)

lemma mset_Vertices: "mset (Vertices \<rho> g) = mset (map fst (Outs g))"
  by (simp add: Vertices_def Let_def del: mset_map)

lemma set_Vertices [simp]: "set (Vertices \<rho> g) = keys (Outs g)"
  by (metis image_fst_keys mset_Vertices set_map set_mset_mset)

lemma distinct_Vertices: "wf_map (Outs g) \<Longrightarrow> distinct (Vertices \<rho> g)"
  by (metis mset_Vertices mset_eq_imp_distinct_iff)

lemma IsEmpty_iff: "IsEmpty \<rho> g \<longleftrightarrow> Outs g = []"
  by (metis IsEmpty_def length_map list.size(3) length_0_conv mset_Vertices size_mset)

lemma Vertices_sorted:
  assumes "\<forall>v \<in> keys (Outs g). \<exists>i. vertex_index v = Some i"
  shows "sorted (map (the \<circ> vertex_index) (Vertices \<rho> g))"
proof -
  have "list_all (\<lambda>v. vertex_index v \<noteq> None) (go_range \<rho> (map fst (Outs g)))"
    using assms by (fastforce simp: list_all_iff)
  then show ?thesis by (simp add: Vertices_def Let_def)
qed

lemma rels_exist_iff [simp]: "rels_exist rs r \<longleftrightarrow> r \<in> set rs"
  by (induction rs) auto

lemma set_IntersectionRel [simp]: "set (IntersectionRel rs1 rs2) = set rs1 \<inter> set rs2"
  by (auto simp: IntersectionRel_def)

section \<open>Linking\<close>

lemma map_of_ensure [simp]:
  "map_of (ensure k d m) k' = (if k' = k \<and> k \<notin> keys m then Some d else map_of m k')"
  by (auto simp: ensure_def map_of_None_keys split: option.splits dest: map_of_in_keys)

lemma get_or_ensure [simp]: "get_or d (ensure k d m) k' = get_or d m k'"
  by (auto simp: get_or_def map_of_None_keys [THEN iffD2])

lemma keys_ensure [simp]: "keys (ensure k d m) = insert k (keys m)"
  by (auto simp: ensure_def split: option.splits dest: map_of_in_keys)

lemma wf_map_ensure [simp]: "wf_map m \<Longrightarrow> wf_map (ensure k d m)"
  by (simp add: ensure_def split: option.splits)

lemma outs_Link: "outs (Link v w r g) a =
    (if a = v \<and> r \<notin> set (rels g v w)
     then AList.update w (rels g v w @ [r]) (outs g v) else outs g a)"
  by (simp add: Link_def Let_def outs_def rels_def)

lemma rels_Link [simp]: "rels (Link v w r g) a b =
    (if a = v \<and> b = w \<and> r \<notin> set (rels g v w) then rels g v w @ [r] else rels g a b)"
  by (auto simp: rels_def [of "Link v w r g"] outs_Link) (auto simp: rels_def)

lemma In_Link [simp]: "In (Link v w r g) b = (if b = w then In g w @ [v] else In g b)"
  by (simp add: Link_def Let_def In_def)

lemma keys_Outs_Link [simp]: "keys (Outs (Link v w r g)) = insert v (insert w (keys (Outs g)))"
  by (auto simp: Link_def Let_def)

lemma keys_Ins_Link [simp]: "keys (Ins (Link v w r g)) = insert v (insert w (keys (Ins g)))"
  by (auto simp: Link_def Let_def)

lemma arc_Link [simp]: "arc (Link v w r g) a b \<longleftrightarrow> a = v \<and> b = w \<or> arc g a b"
  by (auto simp: arc_def outs_Link) (metis arc_def rels_arc)+

lemma edges_Link: "edges (Link v w r g) = insert (v, w, r) (edges g)"
  by (auto simp: edges_def split: if_splits)

lemma wf_core_Link:
  assumes "wf_core g" shows "wf_core (Link v w r g)"
proof (rule wf_coreI)
  show "wf_map (Outs (Link v w r g))" and "wf_map (Ins (Link v w r g))"
    using assms by (simp_all add: Link_def Let_def wf_core_def)
  show "wf_map (outs (Link v w r g) a)" for a
    using assms by (simp add: outs_Link wf_core_def)
  show "rels (Link v w r g) a b \<noteq> []" if "arc (Link v w r g) a b" for a b
    using that wf_coreD(7) [OF assms, of a b] by auto
  show "distinct (rels (Link v w r g) a b)" for a b
    using wf_coreD(8) [OF assms] by simp
qed (use wf_coreD [OF assms] in auto)

lemma wf_Link: "wf_graph g \<Longrightarrow> wf_graph (Link v w r g)"
  by (auto simp: wf_graph_def wf_core_Link)

lemma New_simps [simp]:
  "outs NewDirectedGraph a = []" "rels NewDirectedGraph a b = []" "In NewDirectedGraph b = []"
  "Outs NewDirectedGraph = []" "Ins NewDirectedGraph = []" "\<not> arc NewDirectedGraph a b"
  "edges NewDirectedGraph = {}"
  by (simp_all add: NewDirectedGraph_def outs_def rels_def In_def arc_def edges_def)

lemma wf_New [simp]: "wf_graph NewDirectedGraph"
  by (simp add: wf_graph_def wf_core_def)

text \<open>
  What an analysis relies on when it inserts edges one by one: an insertion adds exactly its
  edge and keeps the invariant.
\<close>

locale edge_sink =
  fixes link :: "'v \<Rightarrow> 'v \<Rightarrow> 'r \<Rightarrow> 'g \<Rightarrow> 'g"
    and edge_set :: "'g \<Rightarrow> ('v \<times> 'v \<times> 'r) set"
    and inv :: "'g \<Rightarrow> bool"
    and empty_graph :: 'g
  assumes link_edge: "edge_set (link a b r g) = insert (a, b, r) (edge_set g)"
    and link_inv: "inv g \<Longrightarrow> inv (link a b r g)"
    and empty_edges: "edge_set empty_graph = {}"
    and empty_inv: "inv empty_graph"
begin

lemma fold_link_edges: "edge_set (fold (\<lambda>(a, b, r). link a b r) es g) = set es \<union> edge_set g"
  by (induction es arbitrary: g) (auto simp: link_edge)

lemma fold_link_inv: "inv g \<Longrightarrow> inv (fold (\<lambda>(a, b, r). link a b r) es g)"
  by (induction es arbitrary: g) (auto simp: link_inv)

lemma to_all_edges: "edge_set (fold (\<lambda>y. link x y r) ys g) = {(x, y, r) |y. y \<in> set ys} \<union> edge_set g"
  by (induction ys arbitrary: g) (auto simp: link_edge)

lemma to_all_inv: "inv g \<Longrightarrow> inv (fold (\<lambda>y. link x y r) ys g)"
  by (induction ys arbitrary: g) (auto simp: link_inv)

lemma all_to_edges: "edge_set (fold (\<lambda>x. link x y r) xs g) = {(x, y, r) |x. x \<in> set xs} \<union> edge_set g"
  by (induction xs arbitrary: g) (auto simp: link_edge)

lemma all_to_inv: "inv g \<Longrightarrow> inv (fold (\<lambda>x. link x y r) xs g)"
  by (induction xs arbitrary: g) (auto simp: link_inv)

lemma all_to_all_edges:
  "edge_set (fold (\<lambda>x. fold (\<lambda>y. link x y r) ys) xs g) =
     {(x, y, r) |x y. x \<in> set xs \<and> y \<in> set ys} \<union> edge_set g"
  by (induction xs arbitrary: g) (auto simp: to_all_edges)

lemma all_to_all_inv: "inv g \<Longrightarrow> inv (fold (\<lambda>x. fold (\<lambda>y. link x y r) ys) xs g)"
  by (induction xs arbitrary: g) (auto simp: to_all_inv)

end

interpretation lk: edge_sink Link edges wf_graph NewDirectedGraph
  by unfold_locales (simp_all add: edges_Link wf_Link)

lemma link_edges_edges [simp]: "edges (link_edges es g) = set es \<union> edges g"
  by (simp add: link_edges_def lk.fold_link_edges)

lemma wf_link_edges: "wf_graph g \<Longrightarrow> wf_graph (link_edges es g)"
  by (simp add: link_edges_def lk.fold_link_inv)

lemma keys_link_edges:
  "keys (Outs (link_edges es g)) =
     (\<lambda>(a, b, r). a) ` set es \<union> (\<lambda>(a, b, r). b) ` set es \<union> keys (Outs g)"
  unfolding link_edges_def by (induction es arbitrary: g) auto

lemma edges_LinkToAll: "edges (LinkToAll x ys r g) = {(x, y, r) |y. y \<in> set ys} \<union> edges g"
  unfolding LinkToAll_def by (rule lk.to_all_edges)

lemma edges_LinkAllTo: "edges (LinkAllTo xs y r g) = {(x, y, r) |x. x \<in> set xs} \<union> edges g"
  unfolding LinkAllTo_def by (rule lk.all_to_edges)

lemma edges_LinkAllToAll:
  "edges (LinkAllToAll xs ys r g) = {(x, y, r) |x y. x \<in> set xs \<and> y \<in> set ys} \<union> edges g"
  unfolding LinkAllToAll_def by (rule lk.all_to_all_edges)

lemma wf_LinkToAll: "wf_graph g \<Longrightarrow> wf_graph (LinkToAll x ys r g)"
  unfolding LinkToAll_def by (rule lk.to_all_inv)

lemma wf_LinkAllTo: "wf_graph g \<Longrightarrow> wf_graph (LinkAllTo xs y r g)"
  unfolding LinkAllTo_def by (rule lk.all_to_inv)

lemma wf_LinkAllToAll: "wf_graph g \<Longrightarrow> wf_graph (LinkAllToAll xs ys r g)"
  unfolding LinkAllToAll_def by (rule lk.all_to_all_inv)

end
