(* ===== verification/Digraph_Laws.thy ===== *)
theory Digraph_Laws
  imports Digraph
begin

text \<open>
  What the graph operations of \<open>pkg/elle/core/graph.go\<close> do to the set of labelled edges, and what
  \<open>UnLink\<close> and \<open>FilterRelationships\<close> leave in \<open>Ins\<close>.
\<close>

section \<open>Copies and unions\<close>

lemma edges_Outs:
  "edges g = (\<Union>x \<in> keys (Outs g). {(x, y, r) |y r. y \<in> keys (outs g x) \<and> r \<in> set (rels g x y)})"
proof -
  have "r \<in> set (rels g x y) \<longleftrightarrow> x \<in> keys (Outs g) \<and> y \<in> keys (outs g x) \<and> r \<in> set (rels g x y)"
    for x y r by (metis arc_def arc_in_Outs rels_arc)
  then show ?thesis unfolding edges_def by blast
qed

lemma set_all_edges [simp]: "set (all_edges \<rho> g) = edges g"
  unfolding all_edges_def edges_Outs by (subst set_concat_enumerate) auto

lemma Fork_conv: "Fork \<rho> g = link_edges (all_edges \<rho> g) NewDirectedGraph"
  by (simp add: Fork_def all_edges_def Out_conv Edges_conv comp_def)

lemma edges_Fork: "edges (Fork \<rho> g) = edges g"
  by (simp add: Fork_conv)

lemma wf_Fork: "wf_graph (Fork \<rho> g)"
  unfolding Fork_def by (simp add: wf_link_edges)

lemma edges_DigraphUnion: "edges (DigraphUnion \<rho> gs) = (\<Union>g \<in> set gs. edges g)"
  unfolding DigraphUnion_def link_edges_edges by (subst set_concat_enumerate) auto

lemma wf_DigraphUnion: "wf_graph (DigraphUnion \<rho> gs)"
  unfolding DigraphUnion_def by (simp add: wf_link_edges)

section \<open>Renaming\<close>

lemma MapVertices_total:
  assumes "\<And>v. v \<in> keys (Outs g) \<Longrightarrow> f v = Some (h v)"
    and "\<And>a b. arc g a b \<Longrightarrow> b \<in> keys (Outs g)"
  shows "MapVertices \<rho> f g =
    Some (link_edges (map (\<lambda>(x, y, r). (h x, h y, r)) (all_edges \<rho> g)) NewDirectedGraph)"
proof -
  have "f x = Some (h x) \<and> f y = Some (h y)" if "(x, y, r) \<in> set (all_edges \<rho> g)" for x y r
    using that assms rels_arc [of r g x y] arc_in_Outs by simp
  then have "MapVertices \<rho> f g =
      Some (fold (\<lambda>(x, y, item). Link (h x) (h y) item) (all_edges \<rho> g) NewDirectedGraph)"
    unfolding MapVertices_def by (intro foldM_total) fastforce
  then show ?thesis by (simp add: link_edges_def fold_map comp_def case_prod_unfold)
qed

lemma edges_MapVertices:
  assumes "wf_core g" "\<And>v. v \<in> keys (Outs g) \<Longrightarrow> f v = Some (h v)"
  shows "\<exists>fg. MapVertices \<rho> f g = Some fg \<and> wf_graph fg \<and>
    edges fg = (\<lambda>(x, y, r). (h x, h y, r)) ` edges g"
  using MapVertices_total [of g f h \<rho>] assms wf_coreD(6) [OF assms(1)] by (simp add: wf_link_edges)

lemma map_of_enumerate:
  "distinct xs \<Longrightarrow> i < length xs \<Longrightarrow> map_of (map (\<lambda>(i, v). (v, f i)) (enumerate n xs)) (xs ! i) = Some (f (n + i))"
  by (induction xs arbitrary: n i) (auto simp: nth_Cons split: nat.splits)

lemma map_of_enumerate_num:
  "i < length xs \<Longrightarrow> map_of (map (\<lambda>(i, v). (VNum (int i), v)) (enumerate n xs)) (VNum (int (n + i))) = Some (xs ! i)"
proof (induction xs arbitrary: n i)
  case (Cons x xs)
  show ?case
  proof (cases i)
    case (Suc k)
    with Cons.prems Cons.IH [of k "Suc n"] show ?thesis by (simp add: add.commute)
  qed simp
qed simp

lemma Renumber_edges:
  assumes "wf_core g"
  obtains num where "edges (fst (RenumberGraph \<rho> g)) = (\<lambda>(x, y, r). (VNum (num x), VNum (num y), r)) ` edges g"
    and "\<And>v. v \<in> keys (Outs g) \<Longrightarrow> snd (RenumberGraph \<rho> g) (VNum (num v)) = v"
    and "\<And>v. v \<in> keys (Outs g) \<Longrightarrow> 0 \<le> num v \<and> num v < int (length (Outs g))"
proof
  let ?vs = "Vertices (sub \<rho> 0) g"
  let ?num = "\<lambda>v. get_or 0 (map (\<lambda>(i, v). (v, int i)) (enumerate 0 ?vs)) v"
  have len: "length ?vs = length (Outs g)" by (metis length_map mset_Vertices size_mset)
  show "edges (fst (RenumberGraph \<rho> g)) = (\<lambda>(x, y, r). (VNum (?num x), VNum (?num y), r)) ` edges g"
    unfolding RenumberGraph_def Let_def fst_conv link_edges_edges edges_Outs [of g]
    by (subst set_concat_enumerate) (auto simp: image_iff, blast)
  fix v assume v: "v \<in> keys (Outs g)"
  then obtain i where i: "i < length ?vs" "?vs ! i = v" by (metis in_set_conv_nth set_Vertices)
  have num: "?num v = int i"
    using map_of_enumerate [of ?vs i int 0] i distinct_Vertices [OF wf_coreD(1) [OF assms]]
    by (simp add: get_or_def)
  show "snd (RenumberGraph \<rho> g) (VNum (?num v)) = v"
    using map_of_enumerate_num [of i ?vs 0] i
    by (simp add: num) (simp add: RenumberGraph_def Let_def get_or_def)
  show "0 \<le> ?num v \<and> ?num v < int (length (Outs g))" using i len by (simp add: num)
qed

text \<open>Renaming a renumbered graph back gives the edges of the original graph.\<close>

lemma Renumber_roundtrip:
  assumes "wf_core g" "RenumberGraph \<rho> g = (dg, remap)"
  shows "\<exists>fg. MapVertices \<rho>' (Some \<circ> remap) dg = Some fg \<and> edges fg = edges g"
proof -
  obtain num where num: "edges dg = (\<lambda>(x, y, r). (VNum (num x), VNum (num y), r)) ` edges g"
    "\<And>v. v \<in> keys (Outs g) \<Longrightarrow> remap (VNum (num v)) = v"
    by (rule Renumber_edges [OF assms(1), of \<rho>, unfolded assms(2) fst_conv snd_conv]) blast
  have wf: "wf_core dg"
    using assms(2) by (auto simp: RenumberGraph_def Let_def wf_link_edges intro: wf_graphD(1))
  have "(\<lambda>(x, y, r). (remap x, remap y, r)) ` edges dg = edges g"
  proof -
    have "remap (VNum (num a)) = a \<and> remap (VNum (num b)) = b" if "(a, b, r) \<in> edges g" for a b r
      using that num(2) wf_coreD(5,6) [OF assms(1), of a b] rels_arc [of r g a b] by simp
    then show ?thesis by (force simp: num(1) image_image case_prod_unfold)
  qed
  then show ?thesis using edges_MapVertices [OF wf, of "Some \<circ> remap" remap \<rho>'] by auto
qed

lemma edges_MapToDirectedGraph:
  "edges (MapToDirectedGraph \<rho> m) = {(x, y, Empty) |x y. y \<in> set (get_or [] m x)}"
  using get_or_no_key [of _ m "[]"] by (fastforce simp: MapToDirectedGraph_def)

lemma wf_MapToDirectedGraph: "wf_graph (MapToDirectedGraph \<rho> m)"
  unfolding MapToDirectedGraph_def by (simp add: wf_link_edges)

section \<open>Unlinking and filtering\<close>

lemma outs_UnLink: "outs (UnLink a b g) x = (if x = a then AList.delete b (outs g a) else outs g x)"
  by (simp add: UnLink_def outs_def get_or_def split: option.splits)

lemma rels_UnLink [simp]: "rels (UnLink a b g) x y = (if x = a \<and> y = b then [] else rels g x y)"
  by (simp add: rels_def outs_UnLink)

lemma arc_UnLink [simp]: "arc (UnLink a b g) x y \<longleftrightarrow> arc g x y \<and> \<not> (x = a \<and> y = b)"
  by (auto simp: arc_def outs_UnLink)

lemma In_UnLink [simp]: "In (UnLink a b g) y = (if y = b then remove1 a (In g b) else In g y)"
  by (auto simp: UnLink_def In_def get_or_def remove1_idem split: option.splits)

lemma keys_UnLink [simp]:
  "keys (Outs (UnLink a b g)) = keys (Outs g)" "keys (Ins (UnLink a b g)) = keys (Ins g)"
  by (auto simp: UnLink_def split: option.splits dest: map_of_in_keys)

lemma edges_UnLink: "edges (UnLink a b g) = edges g - {(a, b, r) |r. True}"
  by (auto simp: edges_def split: if_splits)

lemma wf_core_UnLink:
  assumes "wf_core g" shows "wf_core (UnLink a b g)"
proof (rule wf_coreI)
  show "wf_map (Outs (UnLink a b g))" and "wf_map (Ins (UnLink a b g))"
    using assms by (auto simp: UnLink_def wf_core_def split: option.splits)
  show "wf_map (outs (UnLink a b g) x)" for x
    using assms by (simp add: outs_UnLink wf_core_def)
  show "rels (UnLink a b g) x y \<noteq> []" if "arc (UnLink a b g) x y" for x y
    using that wf_coreD(7) [OF assms, of x y] by auto
qed (use wf_coreD [OF assms] in auto)

text \<open>
  \<open>UnLink\<close> keeps \<open>Ins\<close> exact where \<open>Ins[b]\<close> lists \<open>a\<close> at most once. \<open>Link\<close> lists the source
  of an edge once per call, so an edge with several labels is listed several times.
\<close>

lemma wf_UnLink: "\<lbrakk>wf_graph g; count_list (In g b) a \<le> 1\<rbrakk> \<Longrightarrow> wf_graph (UnLink a b g)"
  by (auto simp: wf_graph_def wf_core_UnLink count_list_remove1 simp flip: count_list_pos)

definition multiplicity :: "DirectedGraph \<Rightarrow> Vertex \<times> Vertex \<Rightarrow> nat" where
  "multiplicity g = (\<lambda>(a, b). count_list (In g b) a)"

lemma multiplicity_simps [simp]:
  "multiplicity NewDirectedGraph q = 0"
  "multiplicity (Link v w r g) q = multiplicity g q + (if q = (v, w) then 1 else 0)"
  "multiplicity (UnLink v w g) q = multiplicity g q - (if q = (v, w) then 1 else 0)"
  by (auto simp: multiplicity_def count_list_remove1 split: prod.splits)

lemma multiplicity_link_edges:
  "multiplicity (link_edges es g) (a, b) =
     multiplicity g (a, b) + length (filter (\<lambda>(x, y, r). x = a \<and> y = b) es)"
  unfolding link_edges_def by (induction es arbitrary: g) (auto split: if_splits)

lemma distinct_all_edges:
  assumes "wf_core g" shows "distinct (all_edges \<rho> g)"
  unfolding all_edges_def
proof (rule distinct_concat_enumerate)
  have "distinct [(a, b, r). b \<leftarrow> bs, r \<leftarrow> rels g a b]" if "distinct bs" for a bs
    using that wf_coreD(8) [OF assms] by (induction bs) (auto simp: distinct_map inj_on_def)
  then show "distinct [(a, b, r). b \<leftarrow> go_range (sub \<rho> i) (map fst (outs g a)), r \<leftarrow> rels g a b]" for i a
    using wf_coreD(4) [OF assms] by simp
qed (use distinct_Vertices [OF wf_coreD(1) [OF assms]] in auto)

lemma multiplicity_Fork:
  assumes "wf_core g"
  shows "multiplicity (Fork \<rho> g) (a, b) = length (rels g a b)"
proof -
  let ?P = "\<lambda>(x, y, r). x = a \<and> y = b"
  have "length (filter ?P (all_edges \<rho> g)) = card (set (filter ?P (all_edges \<rho> g)))"
    using distinct_all_edges [OF assms, of \<rho>] by (metis distinct_card distinct_filter)
  also have "set (filter ?P (all_edges \<rho> g)) = (\<lambda>r. (a, b, r)) ` set (rels g a b)"
    by (auto simp: edges_def)
  also have "card \<dots> = length (rels g a b)"
    using wf_coreD(8) [OF assms] by (simp add: card_image inj_on_def distinct_card)
  finally show ?thesis by (simp add: Fork_conv multiplicity_link_edges)
qed

lemma relink_rels: "set (rels (fold (\<lambda>item. Link x y item) items g) a b) =
    (if a = x \<and> b = y then set items else {}) \<union> set (rels g a b)"
  by (induction items arbitrary: g) auto

lemma relink_multiplicity: "multiplicity (fold (\<lambda>item. Link x y item) items g) q =
    multiplicity g q + (if q = (x, y) then length items else 0)"
  by (induction items arbitrary: g) auto

lemma relink_wf_core: "wf_core g \<Longrightarrow> wf_core (fold (\<lambda>item. Link x y item) items g)"
  by (induction items arbitrary: g) (auto simp: wf_core_Link)

lemma refilter_rels:
  "set (rels (refilter g rs p fg) (fst q) (snd q)) =
     (if q = p then set (rels g (fst p) (snd p)) \<inter> set rs else set (rels fg (fst q) (snd q)))"
  by (cases p; cases q) (auto simp: refilter_def relink_rels)

lemma refilter_multiplicity:
  "multiplicity (refilter g rs p fg) q =
     (if q = p then multiplicity fg p - 1 + length (IntersectionRel (rels g (fst p) (snd p)) rs)
      else multiplicity fg q)"
  by (cases p) (auto simp: refilter_def relink_multiplicity)

lemma refilter_wf_core: "wf_core fg \<Longrightarrow> wf_core (refilter g rs p fg)"
  by (cases p) (simp add: refilter_def wf_core_UnLink relink_wf_core)

text \<open>The pairs of vertices \<open>FilterRelationships\<close> visits: each pair with an edge, once.\<close>

definition filter_pairs :: "range_order \<Rightarrow> DirectedGraph \<Rightarrow> (Vertex \<times> Vertex) list" where
  "filter_pairs \<rho> g = [(x, y). (i, x) \<leftarrow> enumerate 2 (Vertices (sub \<rho> 1) (Fork (sub \<rho> 0) g)),
     x \<in> keys (Outs g), y \<leftarrow> go_range (sub \<rho> i) (map fst (outs g x))]"

lemma FilterRelationships_fold:
  "FilterRelationships \<rho> g rs = fold (refilter g rs) (filter_pairs \<rho> g) (Fork (sub \<rho> 0) g)"
  by (simp add: FilterRelationships_def filter_pairs_def Let_def)

lemma set_filter_pairs:
  assumes "wf_core g" shows "p \<in> set (filter_pairs \<rho> g) \<longleftrightarrow> arc g (fst p) (snd p)"
proof -
  let ?fg = "Fork (sub \<rho> 0) g"
  have "x \<in> keys (Outs ?fg)" if xy: "arc g x y" for x y
  proof -
    obtain r where "r \<in> set (rels g x y)" using wf_coreD(7) [OF assms xy] by (fastforce simp: neq_Nil_conv)
    then have "(x, y, r) \<in> edges ?fg" by (simp add: edges_Fork)
    then show ?thesis using arc_in_Outs [OF rels_arc, of r ?fg x y] by simp
  qed
  moreover have "set (filter_pairs \<rho> g) = (\<Union>x \<in> keys (Outs ?fg).
      if x \<in> keys (Outs g) then {(x, y) |y. y \<in> keys (outs g x)} else {})"
    unfolding filter_pairs_def by (subst set_concat_enumerate) auto
  ultimately show ?thesis
    by (cases p) (auto simp flip: arc_def dest: arc_in_Outs split: if_splits)
qed

lemma distinct_filter_pairs:
  assumes "wf_core g" shows "distinct (filter_pairs \<rho> g)"
  unfolding filter_pairs_def
  using distinct_Vertices [OF wf_coreD(1) [OF wf_graphD(1) [OF wf_Fork]]] wf_coreD(4) [OF assms]
  by (intro distinct_concat_enumerate)
    (auto simp: concat_map_singleton distinct_map inj_on_def comp_def split: if_splits)

lemma Filter_rels:
  assumes "wf_core g"
  shows "set (rels (FilterRelationships \<rho> g rs) a b) = set (rels g a b) \<inter> set rs"
proof -
  have "set (rels (FilterRelationships \<rho> g rs) (fst (a, b)) (snd (a, b))) =
      (if (a, b) \<in> set (filter_pairs \<rho> g) then set (rels g (fst (a, b)) (snd (a, b))) \<inter> set rs
       else set (rels (Fork (sub \<rho> 0) g) (fst (a, b)) (snd (a, b))))"
    unfolding FilterRelationships_fold
    by (rule fold_pointwise [where val = "\<lambda>fg q. set (rels fg (fst q) (snd q))"
        and F = "\<lambda>p _. set (rels g (fst p) (snd p)) \<inter> set rs"])
      (simp_all add: refilter_rels distinct_filter_pairs [OF assms])
  moreover have "set (rels (Fork (sub \<rho> 0) g) a b) = set (rels g a b)"
    using edges_Fork [of "sub \<rho> 0" g] by (auto simp: set_eq_iff simp flip: in_edges)
  ultimately show ?thesis
    using rels_not_arc [of g a b] by (simp add: set_filter_pairs [OF assms])
qed

lemma Filter_multiplicity:
  assumes "wf_core g"
  shows "multiplicity (FilterRelationships \<rho> g rs) (a, b) =
    length (rels g a b) - 1 + length (IntersectionRel (rels g a b) rs)"
proof -
  have "multiplicity (FilterRelationships \<rho> g rs) (a, b) =
      (if (a, b) \<in> set (filter_pairs \<rho> g)
       then multiplicity (Fork (sub \<rho> 0) g) (a, b) - 1 + length (IntersectionRel (rels g a b) rs)
       else multiplicity (Fork (sub \<rho> 0) g) (a, b))"
    unfolding FilterRelationships_fold
    using fold_pointwise [where val = multiplicity and f = "refilter g rs" and q = "(a, b)"
        and F = "\<lambda>p n. n - 1 + length (IntersectionRel (rels g (fst p) (snd p)) rs)",
        OF refilter_multiplicity distinct_filter_pairs [OF assms]]
    by simp
  then show ?thesis
    using rels_not_arc [of g a b]
    by (simp add: set_filter_pairs [OF assms] multiplicity_Fork [OF assms] IntersectionRel_def)
qed

lemma edges_Filter:
  "wf_core g \<Longrightarrow> edges (FilterRelationships \<rho> g rs) = {(a, b, r) \<in> edges g. r \<in> set rs}"
  by (auto simp: edges_def Filter_rels)

lemma wf_core_Filter: "wf_core (FilterRelationships \<rho> g rs)"
  unfolding FilterRelationships_fold
  by (rule Prelude.fold_invariant [where I = wf_core]) (simp_all add: wf_graphD(1) [OF wf_Fork] refilter_wf_core)

lemma arc_Filter:
  "wf_core g \<Longrightarrow> arc (FilterRelationships \<rho> g rs) a b \<longleftrightarrow> set (rels g a b) \<inter> set rs \<noteq> {}"
  using wf_coreD(7) [OF wf_core_Filter, of \<rho> g rs a b] rels_not_arc [of "FilterRelationships \<rho> g rs" a b]
  by (metis Filter_rels empty_set set_empty)

text \<open>What \<open>Ins\<close> of a filtered graph lists: too much when an edge has two labels or more.\<close>

lemma In_Filter:
  assumes "wf_core g"
  shows "a \<in> set (In (FilterRelationships \<rho> g rs) b) \<longleftrightarrow>
    set (rels g a b) \<inter> set rs \<noteq> {} \<or> 2 \<le> length (rels g a b)"
proof -
  have "a \<in> set (In (FilterRelationships \<rho> g rs) b) \<longleftrightarrow> 0 < multiplicity (FilterRelationships \<rho> g rs) (a, b)"
    by (simp add: multiplicity_def count_list_pos)
  also have "\<dots> \<longleftrightarrow> 1 < length (rels g a b) \<or> IntersectionRel (rels g a b) rs \<noteq> []"
    by (auto simp: Filter_multiplicity [OF assms])
  also have "IntersectionRel (rels g a b) rs \<noteq> [] \<longleftrightarrow> set (rels g a b) \<inter> set rs \<noteq> {}"
    by (metis set_IntersectionRel set_empty)
  finally show ?thesis by auto
qed

lemma wf_Filter_iff:
  assumes "wf_core g"
  shows "wf_graph (FilterRelationships \<rho> g rs) \<longleftrightarrow>
    (\<forall>a b. 2 \<le> length (rels g a b) \<longrightarrow> set (rels g a b) \<inter> set rs \<noteq> {})"
  unfolding wf_graph_def In_Filter [OF assms] arc_Filter [OF assms] using wf_core_Filter by blast

section \<open>What the graph operations promise\<close>

text \<open>\<open>FilterRelationships\<close> keeps exactly the labelled edges with a requested label. Its \<open>Ins\<close> map
  still lists the source of an edge that is gone precisely when the edge had two labels or more
  and none of them was requested.\<close>

theorem filter_phantom_edges:
  assumes "wf_graph g"
  shows "edges (FilterRelationships \<rho> g rs) = {(a, b, r) \<in> edges g. r \<in> set rs} \<and>
    (a \<in> set (In (FilterRelationships \<rho> g rs) b) \<and> \<not> arc (FilterRelationships \<rho> g rs) a b \<longleftrightarrow>
     2 \<le> length (rels g a b) \<and> set (rels g a b) \<inter> set rs = {})"
  using wf_graphD(1) [OF assms] by (auto simp: edges_Filter In_Filter arc_Filter)

theorem filter_phantom_edges_witness:
  "let g = link_edges [(VStr ''a'', VStr ''b'', WW), (VStr ''a'', VStr ''b'', WR)] NewDirectedGraph in
   VStr ''a'' \<in> set (In (FilterRelationships fifo g [RW]) (VStr ''b'')) \<and>
   \<not> arc (FilterRelationships fifo g [RW]) (VStr ''a'') (VStr ''b'')"
  using filter_phantom_edges [of "link_edges [(VStr ''a'', VStr ''b'', WW), (VStr ''a'', VStr ''b'', WR)] NewDirectedGraph"
      fifo "[RW]" "VStr ''a''" "VStr ''b''"]
  by (simp add: wf_Link Let_def link_edges_def)

text \<open>Renaming the vertices of a renumbered graph with the returned function gives a graph with
  the edges of the original.\<close>

theorem renumber_rename_back:
  assumes "wf_core g"
  shows "\<exists>fg. MapVertices \<rho>' (Some \<circ> snd (RenumberGraph \<rho> g)) (fst (RenumberGraph \<rho> g)) = Some fg \<and> edges fg = edges g"
  using Renumber_roundtrip [OF assms, of \<rho>] by (metis prod.collapse)

theorem renumber_rename_back_witness:
  "let g = link_edges [(VStr ''a'', VStr ''b'', WW), (VStr ''b'', VStr ''a'', RW)] NewDirectedGraph in
   \<exists>fg. MapVertices fifo (Some \<circ> snd (RenumberGraph fifo g)) (fst (RenumberGraph fifo g)) = Some fg \<and>
     edges fg = {(VStr ''a'', VStr ''b'', WW), (VStr ''b'', VStr ''a'', RW)}"
  using renumber_rename_back [of "link_edges [(VStr ''a'', VStr ''b'', WW), (VStr ''b'', VStr ''a'', RW)] NewDirectedGraph" fifo fifo]
  by (simp add: wf_graphD(1) wf_link_edges Let_def)

end
