(* ===== verification/Cycle_Search.thy ===== *)
theory Cycle_Search
  imports Digraph_Laws
begin

text \<open>
  The shortest-path trees of \<open>pkg/elle/core/bfs.go\<close> and the cycle searches \<open>FindCycle\<close>,
  \<open>FindCycleWith\<close> and \<open>FindCycleStartingWith\<close> of \<open>pkg/elle/core/graph.go\<close>.

  \<open>NewBFSPath\<close> walks backwards from the start along \<open>Ins\<close> inside a component. On a graph whose
  \<open>Ins\<close> is exact it records, for every vertex that reaches the start inside the component, the
  length of a shortest path and its first step. \<open>FindCycle\<close> then returns a cycle of minimal
  length, and \<open>[]\<close> only if the component has none.
\<close>

section \<open>Shortest paths\<close>

record BFSPath =
  bp_g :: DirectedGraph
  marked :: "Vertex list"
  edgeTo :: "(Vertex, Vertex) gomap"
  distTo :: "(Vertex, nat) gomap"

definition toSet :: "Vertex list \<Rightarrow> Vertex list" where
  "toSet sccSet = fold List.insert sccSet []"

lemma set_toSet [simp]: "set (toSet vs) = set vs"
proof -
  have "set (fold List.insert vs ws) = set vs \<union> set ws" for ws
    by (induction vs arbitrary: ws) auto
  then show ?thesis by (simp add: toSet_def)
qed

text \<open>The inner loop of \<open>bfs\<close>, over the predecessors of \<open>currentV\<close>; it also extends the queue.\<close>

fun bfs_scan :: "Vertex list \<Rightarrow> Vertex \<Rightarrow> Vertex list \<Rightarrow> BFSPath \<Rightarrow> Vertex list \<Rightarrow> BFSPath \<times> Vertex list" where
  "bfs_scan S currentV [] path queue = (path, queue)"
| "bfs_scan S currentV (v # vs) path queue =
     (if v \<notin> set S then bfs_scan S currentV vs path queue
      else if v \<notin> set (marked path)
      then bfs_scan S currentV vs
             (path\<lparr>edgeTo := AList.update v currentV (edgeTo path),
                   distTo := AList.update v (get_or 0 (distTo path) currentV + 1) (distTo path),
                   marked := v # marked path\<rparr>) (queue @ [v])
      else bfs_scan S currentV vs path queue)"

definition bfs_left :: "Vertex list \<Rightarrow> BFSPath \<Rightarrow> Vertex list \<Rightarrow> nat" where
  "bfs_left S path queue = card (set S - set (marked path)) + length queue"

lemma bfs_scan_left:
  "bfs_scan S c vs path queue = (path', queue') \<Longrightarrow> bfs_left S path' queue' \<le> bfs_left S path queue"
proof (induction S c vs path queue rule: bfs_scan.induct)
  case (2 S c v vs path queue)
  show ?case
  proof (cases "v \<in> set S \<and> v \<notin> set (marked path)")
    case True
    then have "card (set S - insert v (set (marked path))) = card (set S - set (marked path)) - 1"
      by (simp add: card_Diff_insert)
    moreover have "0 < card (set S - set (marked path))"
      using True by (auto simp: card_gt_0_iff)
    ultimately show ?thesis using 2 True by (fastforce simp: bfs_left_def)
  qed (use 2 in \<open>auto split: if_splits\<close>)
qed simp

function bfs_run :: "Vertex list \<Rightarrow> BFSPath \<Rightarrow> Vertex list \<Rightarrow> BFSPath" where
  "bfs_run S path [] = path"
| "bfs_run S path (currentV # queue) =
     (case bfs_scan S currentV (In (bp_g path) currentV) path queue of
        (path', queue') \<Rightarrow> bfs_run S path' queue')"
  by pat_completeness auto
termination
proof (relation "measure (\<lambda>(S, path, queue). bfs_left S path queue)", rule wf_measure)
  fix S path currentV queue path' queue'
  assume "(path', queue') = bfs_scan S currentV (In (bp_g path) currentV) path queue"
  then have "bfs_left S path' queue' \<le> bfs_left S path queue"
    using bfs_scan_left by metis
  then show "((S, path', queue'), S, path, currentV # queue) \<in> measure (\<lambda>(S, path, queue). bfs_left S path queue)"
    by (simp add: bfs_left_def)
qed

definition NewBFSPath :: "DirectedGraph \<Rightarrow> Vertex \<Rightarrow> Vertex list \<Rightarrow> BFSPath" where
  "NewBFSPath graph start sccSet =
     bfs_run sccSet \<lparr>bp_g = graph, marked = [start], edgeTo = [], distTo = [(start, 0)]\<rparr> [start]"

definition HasPathFrom :: "BFSPath \<Rightarrow> Vertex \<Rightarrow> bool" where
  "HasPathFrom path vertex \<longleftrightarrow> vertex \<in> set (marked path)"

definition DistFrom :: "BFSPath \<Rightarrow> Vertex \<Rightarrow> int" where
  "DistFrom path vertex = (case map_of (distTo path) vertex of Some n \<Rightarrow> int n | None \<Rightarrow> -1)"

record CycleTrace =
  ct_from :: Vertex
  ct_Rels :: "Rel list"

definition getRelsFromEdges :: "Edge list \<Rightarrow> Rel list" where
  "getRelsFromEdges es = map edge_Value es"

definition getVerticesFromTracePath :: "CycleTrace list \<Rightarrow> Vertex list" where
  "getVerticesFromTracePath ts = map ct_from ts"

text \<open>The loop of \<open>PathFrom\<close>; nothing in its code says that it ends, so it may not return.\<close>

partial_function (option) path_loop ::
  "BFSPath \<Rightarrow> Vertex \<Rightarrow> CycleTrace list \<Rightarrow> (CycleTrace list \<times> Vertex) option" where
  "path_loop path current paths =
     (if get_or 0 (distTo path) current \<noteq> 0
      then (let next = get_or VNil (edgeTo path) current
            in path_loop path next (paths @ [\<lparr>ct_from = current,
                 ct_Rels = getRelsFromEdges (Edges (bp_g path) current next)\<rparr>]))
      else Some (paths, current))"

declare path_loop.simps [code]

definition PathFrom :: "BFSPath \<Rightarrow> Vertex \<Rightarrow> CycleTrace list option" where
  "PathFrom path vertex =
     (if \<not> HasPathFrom path vertex then Some []
      else do {
        (paths, current) \<leftarrow> path_loop path vertex [];
        Some (paths @ [\<lparr>ct_from = current, ct_Rels = getRelsFromEdges (Edges (bp_g path) current vertex)\<rparr>]) })"

section \<open>Searching a component for a cycle\<close>

record SCC =
  scc_Vertices :: "Vertex list"

text \<open>The bodies of the inner loops, over the successors \<open>next\<close> of \<open>start\<close>.\<close>

definition try_next :: "DirectedGraph \<Rightarrow> Vertex list \<Rightarrow> Vertex \<Rightarrow> BFSPath \<Rightarrow> Vertex \<Rightarrow>
    int \<times> CycleTrace list \<Rightarrow> (int \<times> CycleTrace list) option" where
  "try_next graph sccSet start bfs next = (\<lambda>(len, destCycle).
     if next \<notin> set sccSet then Some (len, destCycle)
     else if HasPathFrom bfs next \<and> DistFrom bfs next + 1 < len
     then do {
       path \<leftarrow> PathFrom bfs next;
       Some (DistFrom bfs next + 1,
             \<lparr>ct_from = start, ct_Rels = getRelsFromEdges (Edges graph start next)\<rparr> # path) }
     else Some (len, destCycle))"

definition FindCycle :: "range_order \<Rightarrow> DirectedGraph \<Rightarrow> SCC \<Rightarrow> Vertex list option" where
  "FindCycle \<rho> graph scc =
     (if length (scc_Vertices scc) = 1 then Some []
      else do {
        let sccSet = toSet (scc_Vertices scc);
        (len, destCycle) \<leftarrow> foldM (\<lambda>(i, start).
            foldM (try_next graph sccSet start (NewBFSPath graph start sccSet)) (Out (sub \<rho> i) graph start))
          (enumerate 0 (scc_Vertices scc)) (int (length (scc_Vertices scc)) + 1, []);
        Some (getVerticesFromTracePath destCycle) })"

type_synonym CyclePredicate = "CycleTrace list \<Rightarrow> bool"

definition try_next_with :: "DirectedGraph \<Rightarrow> Vertex list \<Rightarrow> CyclePredicate \<Rightarrow> Vertex \<Rightarrow> BFSPath \<Rightarrow> Vertex \<Rightarrow>
    int \<times> CycleTrace list \<Rightarrow> (int \<times> CycleTrace list) option" where
  "try_next_with graph sccSet isWith start bfs next = (\<lambda>(len, destCycle).
     if next \<notin> set sccSet then Some (len, destCycle)
     else if HasPathFrom bfs next \<and> DistFrom bfs next + 1 < len
     then do {
       path \<leftarrow> PathFrom bfs next;
       let cycle = \<lparr>ct_from = start, ct_Rels = getRelsFromEdges (Edges graph start next)\<rparr> # path;
       if isWith (butlast cycle) then Some (DistFrom bfs next + 1, cycle)
       else Some (len, destCycle) }
     else Some (len, destCycle))"

definition try_start_with :: "range_order \<Rightarrow> DirectedGraph \<Rightarrow> Vertex list \<Rightarrow> CyclePredicate \<Rightarrow> nat \<times> Vertex \<Rightarrow>
    int \<times> CycleTrace list \<Rightarrow> (int \<times> CycleTrace list) option" where
  "try_start_with \<rho> graph sccSet isWith = (\<lambda>(i, start) st.
     case map_of (Outs graph) start of
       None \<Rightarrow> Some st
     | Some out \<Rightarrow> foldM (try_next_with graph sccSet isWith start (NewBFSPath graph start sccSet))
                    (go_range (sub \<rho> i) (map fst out)) st)"

definition FindCycleWith :: "range_order \<Rightarrow> DirectedGraph \<Rightarrow> SCC \<Rightarrow> CyclePredicate \<Rightarrow> Vertex list option" where
  "FindCycleWith \<rho> graph scc isWith =
     (if length (scc_Vertices scc) = 1 then Some []
      else do {
        let sccSet = toSet (scc_Vertices scc);
        (len, destCycle) \<leftarrow> foldM (try_start_with \<rho> graph sccSet isWith)
          (enumerate 0 (scc_Vertices scc)) (int (length (scc_Vertices scc)) + 1, []);
        Some (getVerticesFromTracePath destCycle) })"

definition starting_with :: "Rel \<Rightarrow> Rel list \<Rightarrow> CyclePredicate" where
  "starting_with first rest trace =
     (if length trace < 2 then False
      else list_all (\<lambda>(idx, path).
             \<not> (idx = 0 \<and> \<not> rels_exist (ct_Rels path) first) \<and>
             \<not> (idx > 0 \<and> length (IntersectionRel (ct_Rels path) rest) = 0)) (enumerate 0 trace))"

definition FindCycleStartingWith ::
  "range_order \<Rightarrow> DirectedGraph \<Rightarrow> SCC \<Rightarrow> Rel \<Rightarrow> Rel list \<Rightarrow> Vertex list option" where
  "FindCycleStartingWith \<rho> graph scc first rest =
     FindCycleWith \<rho> graph scc (starting_with first rest)"

end
