(* ===== verification/Cycle_Laws.thy ===== *)
theory Cycle_Laws
  imports Cycle_Search
begin

text \<open>
  Correctness of the searches of \<open>Cycle_Search\<close>: the breadth-first tree is a tree of shortest
  paths, \<open>PathFrom\<close> returns and follows it, and the cycle searches return closed walks of the
  graph, of minimal length in the case of \<open>FindCycle\<close>.
\<close>

section \<open>The breadth-first tree\<close>

abbreviation bdist :: "BFSPath \<Rightarrow> Vertex \<Rightarrow> nat" where
  "bdist path v \<equiv> get_or 0 (distTo path) v"

text \<open>
  The search goes backwards along \<open>Ins\<close>. On a graph whose two maps agree, \<open>Ins\<close> lists exactly the
  arcs; on a filtered graph it may list more, so the invariants speak of what it lists.
\<close>

definition listed :: "DirectedGraph \<Rightarrow> Vertex \<Rightarrow> Vertex \<Rightarrow> bool" where
  "listed g a b \<longleftrightarrow> a \<in> set (In g b)"

definition linked :: "DirectedGraph \<Rightarrow> Vertex \<Rightarrow> Vertex \<Rightarrow> bool" where
  "linked g a b \<longleftrightarrow> arc g a b \<or> listed g a b"

lemma wf_linked: "wf_graph g \<Longrightarrow> listed g = arc g" "wf_graph g \<Longrightarrow> linked g = arc g"
  by (auto simp: linked_def listed_def wf_graphD(2) fun_eq_iff)

definition tree_ok :: "DirectedGraph \<Rightarrow> Vertex \<Rightarrow> Vertex set \<Rightarrow> BFSPath \<Rightarrow> bool" where
  "tree_ok g start S path \<longleftrightarrow>
     bp_g path = g \<and> start \<in> set (marked path) \<and> bdist path start = 0 \<and>
     keys (distTo path) = set (marked path) \<and>
     (\<forall>v \<in> set (marked path). v \<noteq> start \<longrightarrow> v \<in> S \<and>
        (\<exists>u \<in> set (marked path). map_of (edgeTo path) v = Some u \<and> listed g v u \<and>
           bdist path v = Suc (bdist path u)))"

definition expanded :: "DirectedGraph \<Rightarrow> Vertex set \<Rightarrow> BFSPath \<Rightarrow> Vertex \<Rightarrow> bool" where
  "expanded g S path u \<longleftrightarrow>
     (\<forall>v \<in> S. listed g v u \<longrightarrow> v \<in> set (marked path) \<and> bdist path v \<le> Suc (bdist path u))"

text \<open>The invariant of the outer loop, and of the scan of the predecessors of \<open>c\<close>.\<close>

definition run_inv :: "DirectedGraph \<Rightarrow> Vertex \<Rightarrow> Vertex set \<Rightarrow> BFSPath \<Rightarrow> Vertex list \<Rightarrow> bool" where
  "run_inv g start S path queue \<longleftrightarrow>
     tree_ok g start S path \<and> set queue \<subseteq> set (marked path) \<and> sorted (map (bdist path) queue) \<and>
     (queue \<noteq> [] \<longrightarrow> (\<forall>v \<in> set (marked path). bdist path v \<le> Suc (bdist path (hd queue)))) \<and>
     (\<forall>u \<in> set (marked path) - set queue. expanded g S path u)"

definition scan_inv ::
  "DirectedGraph \<Rightarrow> Vertex \<Rightarrow> Vertex set \<Rightarrow> Vertex \<Rightarrow> BFSPath \<Rightarrow> Vertex list \<Rightarrow> bool" where
  "scan_inv g start S c path queue \<longleftrightarrow>
     tree_ok g start S path \<and> c \<in> set (marked path) \<and> set queue \<subseteq> set (marked path) \<and>
     sorted (map (bdist path) queue) \<and>
     (\<forall>v \<in> set (marked path). bdist path v \<le> Suc (bdist path c)) \<and>
     (\<forall>v \<in> set queue. bdist path c \<le> bdist path v) \<and>
     (\<forall>u \<in> set (marked path) - set queue - {c}. expanded g S path u)"

definition mark :: "Vertex \<Rightarrow> Vertex \<Rightarrow> BFSPath \<Rightarrow> BFSPath" where
  "mark v c path = path\<lparr>edgeTo := AList.update v c (edgeTo path),
     distTo := AList.update v (bdist path c + 1) (distTo path), marked := v # marked path\<rparr>"

lemma mark_simps [simp]:
  "bp_g (mark v c path) = bp_g path" "marked (mark v c path) = v # marked path"
  "bdist (mark v c path) u = (if u = v then Suc (bdist path c) else bdist path u)"
  "map_of (edgeTo (mark v c path)) u = (if u = v then Some c else map_of (edgeTo path) u)"
  "keys (distTo (mark v c path)) = insert v (keys (distTo path))"
  by (simp_all add: mark_def)

lemma tree_ok_mark:
  "\<lbrakk>tree_ok g start S path; c \<in> set (marked path); v \<in> S; v \<notin> set (marked path); listed g v c\<rbrakk>
    \<Longrightarrow> tree_ok g start S (mark v c path)"
  unfolding tree_ok_def by (auto simp: mark_simps)

lemma scan_inv_mark:
  assumes inv: "scan_inv g start S c path queue"
    and v: "v \<in> S" "v \<notin> set (marked path)" "listed g v c"
  shows "scan_inv g start S c (mark v c path) (queue @ [v])"
proof -
  let ?p = "mark v c path"
  from inv have c: "c \<in> set (marked path)" "c \<noteq> v" and q: "set queue \<subseteq> set (marked path)" "v \<notin> set queue"
    using v(2) by (auto simp: scan_inv_def)
  have eq: "map (bdist ?p) queue = map (bdist path) queue" using q(2) by auto
  have "sorted (map (bdist ?p) (queue @ [v]))"
    unfolding map_append sorted_append eq using inv q by (auto simp: scan_inv_def)
  moreover have "expanded g S ?p u" if "u \<in> set (marked ?p) - set (queue @ [v]) - {c}" for u
  proof -
    from that inv have "expanded g S path u" "u \<noteq> v" by (simp_all add: scan_inv_def)
    with v(2) show ?thesis by (auto simp: expanded_def)
  qed
  moreover have "tree_ok g start S ?p" using inv v c by (simp add: scan_inv_def tree_ok_mark)
  ultimately show ?thesis using inv c q by (auto simp: scan_inv_def)
qed

lemma bfs_scan_inv:
  "\<lbrakk>bfs_scan Sl c vs path queue = (path', queue'); scan_inv g start (set Sl) c path queue;
    \<And>v. v \<in> set vs \<Longrightarrow> listed g v c\<rbrakk>
    \<Longrightarrow> scan_inv g start (set Sl) c path' queue' \<and> set (marked path) \<subseteq> set (marked path') \<and>
        (\<forall>v \<in> set vs \<inter> set Sl. v \<in> set (marked path'))"
proof (induction Sl c vs path queue rule: bfs_scan.induct)
  case (2 Sl c v vs path queue)
  show ?case
  proof (cases "v \<in> set Sl \<and> v \<notin> set (marked path)")
    case True
    then have "scan_inv g start (set Sl) c (mark v c path) (queue @ [v])"
      using 2 by (intro scan_inv_mark) auto
    with 2 True show ?thesis by (auto simp: mark_def)
  next
    case False
    with 2 show ?thesis by (auto split: if_splits)
  qed
qed simp

lemma scan_to_run:
  assumes inv: "scan_inv g start S c path queue"
    and preds: "\<forall>v \<in> set (In g c) \<inter> S. v \<in> set (marked path)"
  shows "run_inv g start S path queue"
proof -
  have "expanded g S path c"
    using inv preds by (auto simp: scan_inv_def expanded_def listed_def)
  then show ?thesis
    using inv by (cases queue) (fastforce simp: scan_inv_def run_inv_def)+
qed

lemma run_to_scan: "run_inv g start S path (c # queue) \<Longrightarrow> scan_inv g start S c path queue"
  by (auto simp: scan_inv_def run_inv_def)

lemma bfs_run_inv:
  "run_inv g start (set Sl) path queue \<Longrightarrow> run_inv g start (set Sl) (bfs_run Sl path queue) []"
proof (induction Sl path queue rule: bfs_run.induct)
  case (2 Sl path c queue)
  obtain path' queue' where sc: "bfs_scan Sl c (In (bp_g path) c) path queue = (path', queue')"
    by fastforce
  have g: "bp_g path = g" using 2(2) by (simp add: run_inv_def tree_ok_def)
  have s: "scan_inv g start (set Sl) c path' queue' \<and> (\<forall>v \<in> set (In g c) \<inter> set Sl. v \<in> set (marked path'))"
    using bfs_scan_inv [OF sc run_to_scan [OF 2(2)]] g by (simp add: listed_def)
  then have "run_inv g start (set Sl) path' queue'" using scan_to_run by blast
  then show ?case using 2(1) [OF sc [symmetric]] by (simp add: sc)
qed simp

lemma NewBFSPath_inv: "run_inv g start (set Sl) (NewBFSPath g start Sl) []"
  unfolding NewBFSPath_def
  by (rule bfs_run_inv) (simp add: run_inv_def tree_ok_def get_or_def)

lemmas NewBFSPath_tree = NewBFSPath_inv [unfolded run_inv_def, THEN conjunct1]

lemma NewBFSPath_expanded:
  "u \<in> set (marked (NewBFSPath g start Sl)) \<Longrightarrow> expanded g (set Sl) (NewBFSPath g start Sl) u"
  using NewBFSPath_inv [of g start Sl] by (simp add: run_inv_def)

section \<open>Walks\<close>

definition walk :: "(Vertex \<Rightarrow> Vertex \<Rightarrow> bool) \<Rightarrow> Vertex set \<Rightarrow> Vertex list \<Rightarrow> bool" where
  "walk E S vs \<longleftrightarrow> vs \<noteq> [] \<and> successively E vs \<and> set vs \<subseteq> S"

lemma walk_Cons: "walk E S (v # vs) \<longleftrightarrow> v \<in> S \<and> (vs = [] \<or> walk E S vs \<and> E v (hd vs))"
  by (cases vs) (auto simp: walk_def)

lemma walk_mono: "\<lbrakk>walk E S vs; \<And>a b. E a b \<Longrightarrow> F a b\<rbrakk> \<Longrightarrow> walk F S vs"
  by (auto simp: walk_def elim: successively_mono)

text \<open>The tree is complete, and its distances are minimal.\<close>

lemma bfs_shortest:
  assumes "walk (listed g) (set Sl) vs" "last vs = start"
  shows "hd vs \<in> set (marked (NewBFSPath g start Sl)) \<and>
    Suc (bdist (NewBFSPath g start Sl) (hd vs)) \<le> length vs"
  using assms
proof (induction vs)
  case (Cons v vs)
  let ?p = "NewBFSPath g start Sl"
  show ?case
  proof (cases "vs = []")
    case True
    with Cons.prems NewBFSPath_tree [of g start Sl] show ?thesis by (simp add: tree_ok_def)
  next
    case False
    with Cons have vs: "v \<in> set Sl" "listed g v (hd vs)" "hd vs \<in> set (marked ?p)" "Suc (bdist ?p (hd vs)) \<le> length vs"
      by (auto simp: walk_Cons)
    from NewBFSPath_expanded [OF vs(3)] vs show ?thesis by (auto simp: expanded_def)
  qed
qed (simp add: walk_def)

section \<open>Reading a path out of the tree\<close>

fun trace_of :: "DirectedGraph \<Rightarrow> Vertex list \<Rightarrow> CycleTrace list" where
  "trace_of g (v # w # vs) = \<lparr>ct_from = v, ct_Rels = rels g v w\<rparr> # trace_of g (w # vs)"
| "trace_of g _ = []"

lemma ct_from_trace_of [simp]: "map ct_from (trace_of g vs) = butlast vs"
  by (induction g vs rule: trace_of.induct) auto

lemma trace_of_Cons: "vs \<noteq> [] \<Longrightarrow> trace_of g (v # vs) = \<lparr>ct_from = v, ct_Rels = rels g v (hd vs)\<rparr> # trace_of g vs"
  by (cases vs) auto

lemma getRels_Edges [simp]: "getRelsFromEdges (Edges g a b) = rels g a b"
  by (simp add: getRelsFromEdges_def Edges_rels)

lemma path_loop_tree:
  assumes "tree_ok g start S path" "v \<in> set (marked path)" "start \<in> S"
  shows "\<exists>vs. path_loop path v acc = Some (acc @ trace_of g vs, start) \<and> walk (listed g) S vs \<and>
    hd vs = v \<and> last vs = start \<and> length vs = Suc (bdist path v)"
  using assms(2)
proof (induction "bdist path v" arbitrary: v acc)
  case 0
  with assms(1) have "v = start" by (auto simp: tree_ok_def)
  with 0 assms(3) show ?case by (intro exI [of _ "[v]"]) (simp add: path_loop.simps walk_def)
next
  case (Suc n)
  then have "v \<noteq> start" using assms(1) by (auto simp: tree_ok_def)
  with assms(1) Suc.prems obtain u where u: "v \<in> S" "u \<in> set (marked path)"
      "map_of (edgeTo path) v = Some u" "listed g v u" "bdist path v = Suc (bdist path u)"
    by (auto simp: tree_ok_def)
  from assms(1) have g: "bp_g path = g" by (simp add: tree_ok_def)
  let ?acc = "acc @ [\<lparr>ct_from = v, ct_Rels = rels g v u\<rparr>]"
  obtain vs where vs: "path_loop path u ?acc = Some (?acc @ trace_of g vs, start)" "walk (listed g) S vs"
      "hd vs = u" "last vs = start" "length vs = Suc (bdist path u)"
    using Suc.hyps(1) [of u ?acc] Suc.hyps(2) u(2,5) by auto
  have "vs \<noteq> []" using vs(2) by (auto simp: walk_def)
  have "get_or VNil (edgeTo path) v = u" using u(3) by (simp add: get_or_def)
  then have "path_loop path v acc = path_loop path u ?acc"
    by (subst path_loop.simps) (simp add: u(5) g)
  with vs u \<open>vs \<noteq> []\<close> show ?case
    by (intro exI [of _ "v # vs"]) (simp add: trace_of_Cons walk_Cons)
qed

lemma DistFrom_tree:
  "\<lbrakk>tree_ok g start S path; v \<in> set (marked path)\<rbrakk> \<Longrightarrow> DistFrom path v = int (bdist path v)"
  by (auto simp: DistFrom_def get_or_def tree_ok_def map_of_None_keys split: option.splits)

lemma PathFrom_tree:
  assumes "tree_ok g start S path" "v \<in> set (marked path)" "start \<in> S"
  obtains vs where "PathFrom path v = Some (trace_of g vs @ [\<lparr>ct_from = start, ct_Rels = rels g start v\<rparr>])"
    and "walk (listed g) S vs" "hd vs = v" "last vs = start" "length vs = Suc (bdist path v)"
proof -
  from path_loop_tree [OF assms, of "[]"] obtain vs where
    "path_loop path v [] = Some (trace_of g vs, start)" "walk (listed g) S vs" "hd vs = v" "last vs = start"
    "length vs = Suc (bdist path v)" by auto
  with assms that show ?thesis by (auto simp: PathFrom_def HasPathFrom_def tree_ok_def)
qed

section \<open>Cycles\<close>

definition is_cycle :: "(Vertex \<Rightarrow> Vertex \<Rightarrow> bool) \<Rightarrow> Vertex set \<Rightarrow> Vertex list \<Rightarrow> bool" where
  "is_cycle E S vs \<longleftrightarrow> 2 \<le> length vs \<and> hd vs = last vs \<and> walk E S vs"

text \<open>What the state of the search says: a cycle that satisfies the predicate, and its length.\<close>

definition search_ok :: "DirectedGraph \<Rightarrow> Vertex set \<Rightarrow> CyclePredicate \<Rightarrow> int \<Rightarrow> int \<times> CycleTrace list \<Rightarrow> bool" where
  "search_ok g S P N st \<longleftrightarrow>
     (snd st = [] \<and> fst st = N \<or>
      (\<exists>vs. map ct_from (snd st) = vs \<and> is_cycle (linked g) S vs \<and> P (trace_of g vs) \<and> fst st = int (length vs) - 1))
     \<and> fst st \<le> N"

lemma try_next_with_step:
  assumes start: "start \<in> set Sl" and arc: "arc g start nx"
    and ok: "search_ok g (set Sl) P N st"
  shows "\<exists>st'. try_next_with g Sl P start (NewBFSPath g start Sl) nx st = Some st' \<and>
    search_ok g (set Sl) P N st' \<and> fst st' \<le> fst st \<and>
    ((\<forall>tr. P tr) \<longrightarrow> nx \<in> set Sl \<longrightarrow> nx \<in> set (marked (NewBFSPath g start Sl)) \<longrightarrow>
       fst st' \<le> int (Suc (bdist (NewBFSPath g start Sl) nx)))"
proof -
  let ?p = "NewBFSPath g start Sl"
  obtain len dest where st: "st = (len, dest)" by fastforce
  note tree = NewBFSPath_tree [of g start Sl]
  show ?thesis
  proof (cases "nx \<in> set Sl \<and> nx \<in> set (marked ?p) \<and> int (Suc (bdist ?p nx)) < len")
    case True
    then obtain vs where vs: "PathFrom ?p nx = Some (trace_of g vs @ [\<lparr>ct_from = start, ct_Rels = rels g start nx\<rparr>])"
      "walk (listed g) (set Sl) vs" "hd vs = nx" "last vs = start" "length vs = Suc (bdist ?p nx)"
      using PathFrom_tree [OF tree _ start] by blast
    have ne: "vs \<noteq> []" using vs(2) by (auto simp: walk_def)
    let ?c = "trace_of g (start # vs) @ [\<lparr>ct_from = start, ct_Rels = rels g start nx\<rparr>]"
    have c: "\<lparr>ct_from = start, ct_Rels = getRelsFromEdges (Edges g start nx)\<rparr> #
        trace_of g vs @ [\<lparr>ct_from = start, ct_Rels = rels g start nx\<rparr>] = ?c"
      using vs(3) ne by (simp add: trace_of_Cons)
    have from_c: "map ct_from ?c = start # vs" using vs(4) ne by (metis append_butlast_last_id butlast.simps(2)
          ct_from_trace_of last.simps list.simps(8,9) map_append CycleTrace.select_convs(1) list.distinct(1))
    have cyc: "is_cycle (linked g) (set Sl) (start # vs)"
      using walk_mono [OF vs(2), of "linked g"] vs(3,4) ne start arc
      by (simp add: is_cycle_def walk_Cons Suc_le_eq linked_def)
    have d: "DistFrom ?p nx = int (bdist ?p nx)" using DistFrom_tree [OF tree] True by blast
    have "try_next_with g Sl P start ?p nx st =
        Some (if P (trace_of g (start # vs)) then (int (Suc (bdist ?p nx)), ?c) else (len, dest))"
      unfolding st try_next_with_def using True d vs(1) c by (simp add: HasPathFrom_def Let_def)
    moreover have "search_ok g (set Sl) P N (int (Suc (bdist ?p nx)), ?c)" if "P (trace_of g (start # vs))"
      using that from_c cyc vs(5) True ok st by (auto simp: search_ok_def simp del: map_append)
    ultimately show ?thesis using ok st True by auto
  next
    case False
    then have "try_next_with g Sl P start ?p nx st = Some st"
      using DistFrom_tree [OF tree, of nx] by (auto simp: st try_next_with_def HasPathFrom_def)
    with False ok st show ?thesis by auto
  qed
qed

lemma FindCycle_eq_With: "FindCycle \<rho> g scc = FindCycleWith \<rho> g scc (\<lambda>_. True)"
proof -
  have eq: "try_next g Sl start bfs = try_next_with g Sl (\<lambda>_. True) start bfs" for Sl start bfs
    by (auto simp: try_next_def try_next_with_def Let_def fun_eq_iff)
  have "(\<lambda>(i, start). foldM (try_next g Sl start (NewBFSPath g start Sl)) (Out (sub \<rho> i) g start))
      = try_start_with \<rho> g Sl (\<lambda>_. True)" for Sl
    by (auto simp: eq try_start_with_def Out_def fun_eq_iff split: option.splits)
  then show ?thesis by (simp add: FindCycle_def FindCycleWith_def)
qed

text \<open>The outer loop: it returns, and it compares all pairs of a vertex and a successor.\<close>

lemma search_loop:
  assumes vs: "set vs \<subseteq> set Sl"
  shows "\<exists>st. foldM (try_start_with \<rho> g Sl P) (enumerate n vs) (N, []) = Some st \<and> search_ok g (set Sl) P N st \<and>
    ((\<forall>tr. P tr) \<longrightarrow> (\<forall>start \<in> set vs. \<forall>nx \<in> set Sl. arc g start nx \<longrightarrow>
       nx \<in> set (marked (NewBFSPath g start Sl)) \<longrightarrow> fst st \<le> int (Suc (bdist (NewBFSPath g start Sl) nx))))"
proof -
  let ?I = "search_ok g (set Sl) P N" and ?R = "\<lambda>u v. fst v \<le> fst (u :: int \<times> CycleTrace list)"
  let ?q = "\<lambda>start nx (st :: int \<times> CycleTrace list). (\<forall>tr. P tr) \<longrightarrow> nx \<in> set Sl \<longrightarrow> nx \<in> set (marked (NewBFSPath g start Sl)) \<longrightarrow>
       fst st \<le> int (Suc (bdist (NewBFSPath g start Sl) nx))"
  let ?Q = "\<lambda>x st. \<forall>nx. arc g (snd x) nx \<longrightarrow> ?q (snd x) nx st"
  have step: "\<exists>v. try_start_with \<rho> g Sl P x u = Some v \<and> ?I v \<and> ?R u v \<and> ?Q x v" if "x \<in> set (enumerate n vs)" "?I u" for x u
  proof -
    obtain i start where x: "x = (i, start)" by fastforce
    with that(1) vs have start: "start \<in> set Sl" by (metis ex_enumerate subsetD)
    show ?thesis
    proof (cases "map_of (Outs g) start")
      case None
      then have "\<not> arc g start nx" for nx using arc_in_Outs [of g start nx] by (auto simp: map_of_None_keys)
      with None that(2) show ?thesis by (simp add: try_start_with_def x)
    next
      case (Some out)
      then have out: "arc g start nx" if "nx \<in> set (go_range (sub \<rho> i) (map fst out))" for nx
        using that by (simp add: arc_def outs_def get_or_def)
      have "\<exists>t. foldM (try_next_with g Sl P start (NewBFSPath g start Sl)) (go_range (sub \<rho> i) (map fst out)) u
          = Some t \<and> ?I t \<and> ?R u t \<and> (\<forall>nx \<in> set (go_range (sub \<rho> i) (map fst out)). ?q start nx t)"
        by (rule foldM_progress [where I = ?I and R = ?R and Q = "?q start", OF try_next_with_step [OF start out] that(2)])
          auto
      moreover have "nx \<in> set (go_range (sub \<rho> i) (map fst out))" if "arc g start nx" for nx
        using that Some by (simp add: arc_def outs_def get_or_def)
      ultimately show ?thesis using Some by (auto simp: try_start_with_def x)
    qed
  qed
  have "\<exists>st. foldM (try_start_with \<rho> g Sl P) (enumerate n vs) (N, []) = Some st \<and> ?I st \<and>
      ?R (N, []) st \<and> (\<forall>x \<in> set (enumerate n vs). ?Q x st)"
    by (rule foldM_progress [where I = ?I and R = ?R and Q = ?Q, OF step])
      (assumption, assumption, simp add: search_ok_def, simp, simp, blast intro: order_trans)
  then obtain st where st: "foldM (try_start_with \<rho> g Sl P) (enumerate n vs) (N, []) = Some st" "?I st"
      "\<forall>x \<in> set (enumerate n vs). ?Q x st" by blast
  have "?q start nx st" if "start \<in> set vs" "arc g start nx" for start nx
  proof -
    from that(1) obtain i where "(i, start) \<in> set (enumerate n vs)" by (metis ex_enumerate)
    then show ?thesis using st(3) that(2) by fastforce
  qed
  with st(1,2) show ?thesis by blast
qed

lemma FindCycleWith_linked:
  "\<exists>vs. FindCycleWith \<rho> g scc P = Some vs \<and>
    (vs = [] \<or> is_cycle (linked g) (set (scc_Vertices scc)) vs \<and> P (trace_of g vs))"
proof (cases "length (scc_Vertices scc) = 1")
  case False
  let ?Sl = "toSet (scc_Vertices scc)"
  obtain st where st: "foldM (try_start_with \<rho> g ?Sl P) (enumerate 0 (scc_Vertices scc)) (int (length (scc_Vertices scc)) + 1, []) = Some st"
    "search_ok g (set ?Sl) P (int (length (scc_Vertices scc)) + 1) st"
    using search_loop [of "scc_Vertices scc" ?Sl \<rho> g P 0 "int (length (scc_Vertices scc)) + 1"] by auto
  obtain len dest where "st = (len, dest)" by fastforce
  with st False show ?thesis
    by (auto simp: FindCycleWith_def Let_def getVerticesFromTracePath_def search_ok_def)
qed (simp add: FindCycleWith_def)

lemma FindCycleWith_sound:
  assumes wf: "wf_graph g"
  shows "\<exists>vs. FindCycleWith \<rho> g scc P = Some vs \<and>
    (vs = [] \<or> is_cycle (arc g) (set (scc_Vertices scc)) vs \<and> P (trace_of g vs))"
  using FindCycleWith_linked [of \<rho> g scc P] unfolding wf_linked(2) [OF wf] .

text \<open>A closed walk with more edges than vertices contains a shorter one.\<close>

lemma walk_sub: "\<lbrakk>walk E S vs; i \<le> j; j < length vs\<rbrakk> \<Longrightarrow> walk E S (take (Suc (j - i)) (drop i vs))"
  by (auto simp: walk_def successively_conv_nth dest!: in_set_takeD in_set_dropD)

lemma cycle_shrink: "is_cycle E S vs \<Longrightarrow> finite S \<Longrightarrow> \<exists>ws. is_cycle E S ws \<and> length ws \<le> Suc (card S)"
proof (induction "length vs" arbitrary: vs rule: less_induct)
  case less
  show ?case
  proof (cases "length vs \<le> Suc (card S)")
    case False
    have "card (set (tl vs)) \<le> card S" using less.prems
      by (intro card_mono) (auto simp: is_cycle_def walk_def dest: list.set_sel(2) [rotated])
    then have "\<not> distinct (tl vs)" using False by (auto simp: distinct_card)
    then obtain k l where "k \<noteq> l" "k < length (tl vs)" "l < length (tl vs)" "tl vs ! k = tl vs ! l"
      by (auto simp: distinct_conv_nth)
    then obtain i j where "i < j" "j < length (tl vs)" "tl vs ! i = tl vs ! j"
      by (metis nat_neq_iff)
    then have ij: "i < j" "Suc j < length vs" "vs ! Suc i = vs ! Suc j" by (simp_all add: nth_tl)
    let ?ws = "take (Suc (j - i)) (drop (Suc i) vs)"
    have len: "length ?ws = Suc (j - i)" using ij by simp
    have "hd ?ws = vs ! Suc i" "last ?ws = vs ! Suc j"
      using ij len by (auto simp: hd_drop_conv_nth last_conv_nth)
    moreover have "walk E S ?ws"
      using walk_sub [of E S vs "Suc i" "Suc j"] less.prems(1) ij by (simp add: is_cycle_def)
    ultimately have "is_cycle E S ?ws" using len ij by (simp add: is_cycle_def)
    moreover have "length ?ws < length vs" using len ij by simp
    ultimately show ?thesis using less.hyps less.prems(2) by blast
  qed (use less.prems in auto)
qed

lemma FindCycle_minimal:
  assumes wf: "wf_graph g" and n: "length (scc_Vertices scc) \<noteq> 1"
    and cyc: "is_cycle (arc g) (set (scc_Vertices scc)) ws"
  shows "\<exists>vs. FindCycle \<rho> g scc = Some vs \<and> is_cycle (arc g) (set (scc_Vertices scc)) vs \<and> length vs \<le> length ws"
proof -
  let ?Vs = "scc_Vertices scc" let ?Sl = "toSet ?Vs" let ?P = "\<lambda>_. True" let ?N = "int (length ?Vs) + 1"
  obtain st where st: "foldM (try_start_with \<rho> g ?Sl ?P) (enumerate 0 ?Vs) (?N, []) = Some st"
    "search_ok g (set ?Sl) ?P ?N st"
    "\<forall>start \<in> set ?Vs. \<forall>nx \<in> set ?Sl. arc g start nx \<longrightarrow>
       nx \<in> set (marked (NewBFSPath g start ?Sl)) \<longrightarrow> fst st \<le> int (Suc (bdist (NewBFSPath g start ?Sl) nx))"
    using search_loop [of ?Vs ?Sl \<rho> g ?P 0 ?N] by auto
  obtain len dest where lendest: "st = (len, dest)" by fastforce
  have bound: "len \<le> int (length us) - 1" if us: "is_cycle (arc g) (set ?Vs) us" for us
  proof -
    obtain a b us' where us': "us = a # b # us'" using us
      by (cases us rule: remdups_adj.cases) (auto simp: is_cycle_def)
    with us have "walk (arc g) (set ?Sl) (b # us')" "last (b # us') = a" "a \<in> set ?Vs" "arc g a b"
      by (auto simp: is_cycle_def walk_Cons)
    with bfs_shortest [of g ?Sl "b # us'" a] st(3) lendest wf_linked(1) [OF wf]
    have "len \<le> int (Suc (bdist (NewBFSPath g a ?Sl) b))" "Suc (bdist (NewBFSPath g a ?Sl) b) \<le> length (b # us')"
      by (auto simp: walk_def)
    then show ?thesis using us' by simp
  qed
  obtain us where "is_cycle (arc g) (set ?Vs) us" "length us \<le> Suc (card (set ?Vs))"
    using cycle_shrink [OF cyc] by auto
  then have "len < ?N" using bound card_length [of ?Vs] by fastforce
  moreover have "FindCycle \<rho> g scc = Some (map ct_from dest)"
    using st(1) n lendest by (simp add: FindCycle_eq_With FindCycleWith_def Let_def getVerticesFromTracePath_def)
  ultimately show ?thesis using st(2) bound [OF cyc] lendest
    by (auto simp: search_ok_def wf_linked(2) [OF wf])
qed

section \<open>What the searches promise\<close>

text \<open>C35. \<open>FindCycle\<close> on a set of vertices of a graph whose two adjacency maps agree never panics. For one vertex
  alone it returns no vertices, even if the vertex has an edge to itself. For any other number of vertices it
  returns a closed walk within them whenever there is one, and the walk it returns is a shortest one; it
  returns no vertices exactly when there is no closed walk.\<close>

theorem FindCycle_shortest:
  assumes "wf_graph g"
  shows "\<exists>vs. FindCycle \<rho> g scc = Some vs \<and>
    (if length (scc_Vertices scc) = 1 then vs = []
     else if \<exists>ws. is_cycle (arc g) (set (scc_Vertices scc)) ws
     then is_cycle (arc g) (set (scc_Vertices scc)) vs \<and>
       (\<forall>ws. is_cycle (arc g) (set (scc_Vertices scc)) ws \<longrightarrow> length vs \<le> length ws)
     else vs = [])"
proof -
  consider "length (scc_Vertices scc) = 1" | (cycle) "length (scc_Vertices scc) \<noteq> 1" "\<exists>ws. is_cycle (arc g) (set (scc_Vertices scc)) ws"
    | (none) "length (scc_Vertices scc) \<noteq> 1" "\<nexists>ws. is_cycle (arc g) (set (scc_Vertices scc)) ws" by blast
  then show ?thesis
  proof cases
    case 1
    then show ?thesis by (simp add: FindCycle_def)
  next
    case cycle
    then show ?thesis using FindCycle_minimal [OF assms] by (metis option.inject)
  next
    case none
    then show ?thesis using FindCycleWith_sound [OF assms(1), of \<rho> scc "\<lambda>_. True"]
      by (auto simp: FindCycle_eq_With)
  qed
qed

theorem FindCycle_shortest_witness:
  "let g = link_edges [(VStr ''a'', VStr ''b'', WW), (VStr ''b'', VStr ''a'', RW)] NewDirectedGraph in
   \<exists>vs. FindCycle fifo g \<lparr>scc_Vertices = [VStr ''a'', VStr ''b'']\<rparr> = Some vs \<and>
    is_cycle (arc g) {VStr ''a'', VStr ''b''} vs \<and>
       (\<forall>ws. is_cycle (arc g) {VStr ''a'', VStr ''b''} ws \<longrightarrow> length vs \<le> length ws)"
proof -
  let ?g = "link_edges [(VStr ''a'', VStr ''b'', WW), (VStr ''b'', VStr ''a'', RW)] NewDirectedGraph"
  have "is_cycle (arc ?g) {VStr ''a'', VStr ''b''} [VStr ''a'', VStr ''b'', VStr ''a'']"
    by (simp add: is_cycle_def walk_def link_edges_def)
  then show ?thesis
    using FindCycle_shortest [of ?g fifo "\<lparr>scc_Vertices = [VStr ''a'', VStr ''b'']\<rparr>"]
    by (auto simp: wf_link_edges Let_def split: if_splits)
qed

text \<open>\<open>FindCycleWith\<close> never panics, and what it returns is empty or a closed walk of the component
  whose trace of labels satisfies the predicate.\<close>

theorem FindCycleWith_closed_walk:
  assumes "wf_graph g"
  shows "\<exists>vs. FindCycleWith \<rho> g scc P = Some vs \<and>
    (vs = [] \<or> is_cycle (arc g) (set (scc_Vertices scc)) vs \<and> P (trace_of g vs))"
  using assms by (rule FindCycleWith_sound)

theorem FindCycleWith_closed_walk_witness:
  "let g = link_edges [(VStr ''a'', VStr ''b'', WW), (VStr ''b'', VStr ''a'', RW)] NewDirectedGraph;
     P = (\<lambda>tr. \<exists>t \<in> set tr. RW \<in> set (ct_Rels t)) in
   \<exists>vs. FindCycleWith fifo g \<lparr>scc_Vertices = [VStr ''a'', VStr ''b'']\<rparr> P = Some vs \<and>
    is_cycle (arc g) {VStr ''a'', VStr ''b''} vs \<and> P (trace_of g vs)"
proof -
  let ?g = "link_edges [(VStr ''a'', VStr ''b'', WW), (VStr ''b'', VStr ''a'', RW)] NewDirectedGraph"
  let ?P = "\<lambda>tr. \<exists>t \<in> set tr. RW \<in> set (ct_Rels t)" let ?s = "\<lparr>scc_Vertices = [VStr ''a'', VStr ''b'']\<rparr>"
  have "FindCycleWith fifo ?g ?s ?P \<noteq> Some []" by code_simp
  then show ?thesis using FindCycleWith_closed_walk [of ?g fifo ?s ?P] by (auto simp: wf_link_edges Let_def)
qed

end
