(* ===== verification/Components.thy ===== *)
theory Components
  imports Cycle_Search
begin

text \<open>
  \<open>StronglyConnectedComponents\<close> of \<open>pkg/elle/core/graph.go\<close>: Tarjan's algorithm with explicit
  stacks.

  The variables of the source are the fields of \<open>Tarjan\<close>; a stack is a list whose head is its
  top. One round of the loop \<open>for len(s1) > 0\<close> is \<open>tarjan_step\<close>, its three inner loops are
  \<open>scan_outs\<close>, \<open>fold_tags\<close> and \<open>pop_until\<close>. Reading below the bottom of \<open>s2\<close> panics.
\<close>

section \<open>The algorithm\<close>

record Tarjan =
  t_dfn :: "(Vertex, nat) gomap"
  t_low :: "(Vertex, nat) gomap"
  t_cnt :: nat
  t_belong :: "(Vertex, nat) gomap"
  t_in :: "(Vertex, bool) gomap"
  t_tag :: "(Vertex, (Vertex, bool) gomap) gomap"
  t_s2 :: "Vertex list"
  t_index :: nat

definition tarjan_init :: Tarjan where
  "tarjan_init = \<lparr>t_dfn = [], t_low = [], t_cnt = 0, t_belong = [], t_in = [], t_tag = [],
     t_s2 = [], t_index = 0\<rparr>"

abbreviation dfn :: "Tarjan \<Rightarrow> Vertex \<Rightarrow> nat" where "dfn st v \<equiv> get_or 0 (t_dfn st) v"
abbreviation low :: "Tarjan \<Rightarrow> Vertex \<Rightarrow> nat" where "low st v \<equiv> get_or 0 (t_low st) v"
abbreviation onstack :: "Tarjan \<Rightarrow> Vertex \<Rightarrow> bool" where "onstack st v \<equiv> get_or False (t_in st) v"
abbreviation belong :: "Tarjan \<Rightarrow> Vertex \<Rightarrow> nat" where "belong st v \<equiv> get_or 0 (t_belong st) v"
abbreviation tagged :: "Tarjan \<Rightarrow> Vertex \<Rightarrow> Vertex \<Rightarrow> bool" where
  "tagged st x v \<equiv> get_or False (get_or [] (t_tag st) x) v"

definition lower :: "Vertex \<Rightarrow> nat \<Rightarrow> Tarjan \<Rightarrow> Tarjan" where
  "lower x n st = (if low st x > n then st\<lparr>t_low := AList.update x n (t_low st)\<rparr> else st)"

definition visit :: "Vertex \<Rightarrow> Tarjan \<Rightarrow> Tarjan" where
  "visit x st =
     (if dfn st x = 0
      then st\<lparr>t_index := t_index st + 1, t_dfn := AList.update x (t_index st + 1) (t_dfn st),
           t_low := AList.update x (t_index st + 1) (t_low st), t_s2 := x # t_s2 st,
           t_in := AList.update x True (t_in st)\<rparr>
      else st)"

definition add_tag :: "Vertex \<Rightarrow> Vertex \<Rightarrow> Tarjan \<Rightarrow> Tarjan" where
  "add_tag x next st = st\<lparr>t_tag :=
     AList.update x (AList.update next True (get_or [] (ensure x [] (t_tag st)) x)) (ensure x [] (t_tag st))\<rparr>"

text \<open>The first loop over the successors: the vertex it breaks at, if any, is pushed.\<close>

fun scan_outs :: "Vertex \<Rightarrow> Vertex list \<Rightarrow> Tarjan \<Rightarrow> Tarjan \<times> Vertex option" where
  "scan_outs x [] st = (st, None)"
| "scan_outs x (next # nexts) st =
     (if dfn st next = 0 then (add_tag x next st, Some next)
      else scan_outs x nexts (if onstack st next then lower x (dfn st next) st else st))"

definition fold_tags :: "Vertex \<Rightarrow> Vertex list \<Rightarrow> Tarjan \<Rightarrow> Tarjan" where
  "fold_tags x nexts st = fold (\<lambda>next st.
     let st' = st\<lparr>t_tag := ensure x [] (t_tag st)\<rparr>
     in if tagged st' x next then lower x (low st' next) st' else st') nexts st"

fun pop_until :: "Vertex \<Rightarrow> Vertex list \<Rightarrow> Tarjan \<Rightarrow> Tarjan option" where
  "pop_until x [] st = None"
| "pop_until x (t # s2) st =
     (let st' = st\<lparr>t_s2 := s2, t_in := AList.update t False (t_in st),
                   t_belong := AList.update t (t_cnt st) (t_belong st)\<rparr>
      in if t = x then Some st' else pop_until x s2 st')"

definition tarjan_step ::
  "range_order \<Rightarrow> DirectedGraph \<Rightarrow> nat \<Rightarrow> Vertex \<Rightarrow> Vertex list \<Rightarrow> Tarjan \<Rightarrow> (Vertex list \<times> Tarjan) option" where
  "tarjan_step \<rho> g t x s1 st =
     (case scan_outs x (go_range (sub (sub \<rho> t) 0) (map fst (outs g x))) (visit x st) of
        (st', Some next) \<Rightarrow> Some (next # x # s1, st')
      | (st', None) \<Rightarrow>
          (let st'' = fold_tags x (go_range (sub (sub \<rho> t) 1) (map fst (outs g x))) st'
           in if low st'' x = dfn st'' x
              then do {
                st3 \<leftarrow> pop_until x (t_s2 st'') (st''\<lparr>t_cnt := t_cnt st'' + 1\<rparr>);
                Some (s1, st3) }
              else Some (s1, st'')))"

section \<open>Termination\<close>

definition targets :: "DirectedGraph \<Rightarrow> Vertex set" where
  "targets g = (\<Union>m \<in> snd ` set (Outs g). keys m)"

lemma finite_targets [simp]: "finite (targets g)"
  by (simp add: targets_def)

lemma arc_targets: "arc g x v \<Longrightarrow> v \<in> targets g"
  using get_or_range [of "[]" "Outs g" x] by (force simp: targets_def arc_def outs_def)

definition tarjan_left :: "DirectedGraph \<Rightarrow> Vertex list \<Rightarrow> Tarjan \<Rightarrow> Vertex set" where
  "tarjan_left g s1 st =
     {v \<in> set s1 \<union> targets g. dfn st v = 0}"

definition tarjan_measure :: "DirectedGraph \<Rightarrow> Vertex list \<Rightarrow> Tarjan \<Rightarrow> nat" where
  "tarjan_measure g s1 st =
     3 * card (tarjan_left g s1 st) + length s1 -
       (if s1 \<noteq> [] \<and> dfn st (hd s1) = 0 then 2 else 0)"

lemma dfn_lower [simp]: "dfn (lower x n st) v = dfn st v"
  by (simp add: lower_def)

lemma dfn_add_tag [simp]: "dfn (add_tag x n st) v = dfn st v"
  by (simp add: add_tag_def)

lemma dfn_scan: "scan_outs x ns st = (st', r) \<Longrightarrow> dfn st' v = dfn st v"
  by (induction x ns st rule: scan_outs.induct) (auto split: if_splits)

lemma scan_found: "scan_outs x ns st = (st', Some n) \<Longrightarrow> n \<in> set ns \<and> dfn st n = 0"
  by (induction x ns st rule: scan_outs.induct) (auto split: if_splits)

lemma dfn_fold_tags [simp]: "dfn (fold_tags x ns st) v = dfn st v"
  unfolding fold_tags_def by (induction ns arbitrary: st) (auto simp: Let_def)

lemma dfn_pop: "pop_until x s2 st = Some st' \<Longrightarrow> dfn st' v = dfn st v"
  by (induction x s2 st rule: pop_until.induct) (auto simp: Let_def split: if_splits)

lemma dfn_visit: "dfn (visit x st) v = (if v = x \<and> dfn st x = 0 then t_index st + 1 else dfn st v)"
  by (simp add: visit_def)

lemma tarjan_step_decreases:
  assumes "tarjan_step \<rho> g t x s1 st = Some (s1', st')"
  shows "tarjan_measure g s1' st' < tarjan_measure g (x # s1) st"
proof -
  obtain st1 r where scan: "scan_outs x (go_range (sub (sub \<rho> t) 0) (map fst (outs g x))) (visit x st) = (st1, r)"
    by fastforce
  have dfn': "dfn st' v = dfn (visit x st) v" for v
    using assms dfn_scan [OF scan, of v]
    by (auto simp: tarjan_step_def scan Let_def dfn_pop split: option.splits if_splits Option.bind_splits)
  have s1': "s1' = s1 \<or> (\<exists>n. s1' = n # x # s1 \<and> n \<in> targets g \<and> dfn st' n = 0)"
  proof (cases r)
    case None
    with assms show ?thesis by (auto simp: tarjan_step_def scan Let_def split: if_splits Option.bind_splits)
  next
    case (Some n)
    with assms have "s1' = n # x # s1" by (auto simp: tarjan_step_def scan)
    moreover have "n \<in> targets g"
      using scan_found [OF scan [unfolded Some]] by (intro arc_targets [of g x]) (simp add: arc_def)
    ultimately show ?thesis using scan_found [OF scan [unfolded Some]] dfn' by auto
  qed
  have fin: "finite (tarjan_left g xs st2)" for xs st2 by (simp add: tarjan_left_def)
  have sub: "tarjan_left g s1' st' \<subseteq> tarjan_left g (x # s1) st"
    using s1' by (auto simp: tarjan_left_def dfn' dfn_visit split: if_splits)
  then have le: "card (tarjan_left g s1' st') \<le> card (tarjan_left g (x # s1) st)" by (rule card_mono [OF fin])
  have less: "card (tarjan_left g s1' st') < card (tarjan_left g (x # s1) st)" if "dfn st x = 0"
  proof -
    have "x \<in> tarjan_left g (x # s1) st" "x \<notin> tarjan_left g s1' st'"
      using that by (auto simp: tarjan_left_def dfn' dfn_visit)
    with sub show ?thesis by (intro psubset_card_mono [OF fin]) blast
  qed
  have pos: "0 < card (tarjan_left g s1' st')" if "s1' \<noteq> []" "dfn st' (hd s1') = 0"
    using that fin [of s1' st'] by (auto simp: card_gt_0_iff tarjan_left_def intro!: exI [of _ "hd s1'"])
  show ?thesis
  proof (cases "dfn st x = 0")
    case True
    with less s1' pos show ?thesis by (auto simp: tarjan_measure_def)
  next
    case False
    with le s1' pos show ?thesis by (auto simp: tarjan_measure_def)
  qed
qed

function tarjan_run ::
  "range_order \<Rightarrow> DirectedGraph \<Rightarrow> nat \<Rightarrow> Vertex list \<Rightarrow> Tarjan \<Rightarrow> Tarjan option" where
  "tarjan_run \<rho> g t [] st = Some st"
| "tarjan_run \<rho> g t (x # s1) st =
     (case tarjan_step \<rho> g t x s1 st of
        None \<Rightarrow> None
      | Some (s1', st') \<Rightarrow> tarjan_run \<rho> g (Suc t) s1' st')"
  by pat_completeness auto
termination
  by (relation "measure (\<lambda>(\<rho>, g, t, s1, st). tarjan_measure g s1 st)") (auto simp: tarjan_step_decreases)

text \<open>
  The loop over the vertices, and the grouping by component number; \<open>scc[id-1]\<close> panics for a
  number that was never assigned.
\<close>

definition tarjan_all :: "range_order \<Rightarrow> DirectedGraph \<Rightarrow> Vertex list \<Rightarrow> Tarjan option" where
  "tarjan_all \<rho> g vertices = foldM (\<lambda>(i, v) st.
       if dfn st v = 0 then tarjan_run (sub \<rho> i) g 0 [v] st else Some st)
     (enumerate 1 vertices) tarjan_init"

definition group_by_belong :: "Tarjan \<Rightarrow> Vertex list \<Rightarrow> Vertex list list option" where
  "group_by_belong st vertices = foldM (\<lambda>v scc.
       let id = belong st v
       in if 1 \<le> id \<and> id \<le> length scc then Some (scc[id - 1 := scc ! (id - 1) @ [v]]) else None)
     vertices (replicate (t_cnt st) [])"

definition StronglyConnectedComponents :: "range_order \<Rightarrow> DirectedGraph \<Rightarrow> SCC list option" where
  "StronglyConnectedComponents \<rho> g = do {
     let vertices = Vertices (sub \<rho> 0) g;
     st \<leftarrow> tarjan_all \<rho> g vertices;
     scc \<leftarrow> group_by_belong st vertices;
     Some (map (\<lambda>vs. \<lparr>scc_Vertices = vs\<rparr>) (filter (\<lambda>vs. length vs \<ge> 2) scc)) }"

end
