(* ===== verification/Components_Laws.thy ===== *)
theory Components_Laws
  imports Components
begin

text \<open>
  Correctness of \<open>StronglyConnectedComponents\<close>. A vertex is \<^emph>\<open>done\<close> when it was visited and left
  \<open>s2\<close>, \<^emph>\<open>gray\<close> when it was visited and is still on \<open>s1\<close>, and \<^emph>\<open>black\<close> otherwise. The parts of the
  invariant \<open>tinv\<close> speak of one aspect each; every step of the loop keeps them.
\<close>

section \<open>The invariant\<close>

abbreviation reach :: "DirectedGraph \<Rightarrow> Vertex \<Rightarrow> Vertex \<Rightarrow> bool" where
  "reach g a b \<equiv> (arc g)\<^sup>*\<^sup>* a b"

abbreviation visited :: "Tarjan \<Rightarrow> Vertex \<Rightarrow> bool" where "visited st v \<equiv> dfn st v \<noteq> 0"

abbreviation finished :: "Tarjan \<Rightarrow> Vertex \<Rightarrow> bool" where
  "finished st v \<equiv> visited st v \<and> \<not> onstack st v"

definition num_ok :: "Tarjan \<Rightarrow> bool" where
  "num_ok st \<longleftrightarrow> (\<forall>v. dfn st v \<le> t_index st) \<and>
     (\<forall>u v. dfn st u = dfn st v \<longrightarrow> visited st u \<longrightarrow> u = v)"

definition stack_ok :: "Tarjan \<Rightarrow> bool" where
  "stack_ok st \<longleftrightarrow> sorted_wrt (\<lambda>a b. dfn st b < dfn st a) (t_s2 st) \<and>
     (\<forall>v. onstack st v \<longleftrightarrow> v \<in> set (t_s2 st)) \<and> (\<forall>v \<in> set (t_s2 st). visited st v)"

definition done_ok :: "DirectedGraph \<Rightarrow> Tarjan \<Rightarrow> bool" where
  "done_ok g st \<longleftrightarrow> (\<forall>u v. finished st u \<longrightarrow> arc g u v \<longrightarrow> finished st v) \<and>
     (\<forall>u v. finished st u \<longrightarrow> finished st v \<longrightarrow> (belong st u = belong st v \<longleftrightarrow> reach g u v \<and> reach g v u)) \<and>
     (\<forall>u. finished st u \<longrightarrow> 1 \<le> belong st u \<and> belong st u \<le> t_cnt st)"

definition gray_ok :: "DirectedGraph \<Rightarrow> Vertex list \<Rightarrow> Tarjan \<Rightarrow> bool" where
  "gray_ok g s1 st \<longleftrightarrow> (\<forall>v \<in> set (tl s1). visited st v) \<and> (\<forall>v \<in> set s1. visited st v \<longrightarrow> onstack st v) \<and>
     successively (\<lambda>y x. arc g x y \<and> tagged st x y) s1 \<and>
     sorted_wrt (\<lambda>a b. dfn st b < dfn st a) (filter (visited st) s1)"

definition black_ok :: "DirectedGraph \<Rightarrow> Vertex list \<Rightarrow> Tarjan \<Rightarrow> bool" where
  "black_ok g s1 st \<longleftrightarrow> (\<forall>u v. visited st u \<longrightarrow> u \<notin> set s1 \<longrightarrow> arc g u v \<longrightarrow> visited st v)"

definition reach_ok :: "DirectedGraph \<Rightarrow> Vertex list \<Rightarrow> Tarjan \<Rightarrow> bool" where
  "reach_ok g s1 st \<longleftrightarrow>
     (\<forall>z \<in> set s1. \<forall>y \<in> set (t_s2 st). visited st z \<longrightarrow> dfn st z \<le> dfn st y \<longrightarrow> reach g z y)"

definition low_ok :: "DirectedGraph \<Rightarrow> Tarjan \<Rightarrow> bool" where
  "low_ok g st \<longleftrightarrow> (\<forall>y \<in> set (t_s2 st). \<exists>w \<in> set (t_s2 st). low st y = dfn st w \<and> reach g y w \<and> dfn st w \<le> dfn st y)"

text \<open>\<open>p\<close> is the last gray vertex that was visited before \<open>y\<close>.\<close>

definition owner :: "Vertex list \<Rightarrow> Tarjan \<Rightarrow> Vertex \<Rightarrow> Vertex \<Rightarrow> bool" where
  "owner s1 st p y \<longleftrightarrow> p \<in> set s1 \<and> visited st p \<and> dfn st p < dfn st y \<and>
     (\<forall>z \<in> set s1. dfn st p < dfn st z \<longrightarrow> dfn st y < dfn st z)"

definition child :: "Vertex list \<Rightarrow> Tarjan \<Rightarrow> Vertex \<Rightarrow> Vertex \<Rightarrow> bool" where
  "child s1 st p c \<longleftrightarrow> tagged st p c \<and> visited st c \<and> c \<notin> set s1"

definition own_ok :: "DirectedGraph \<Rightarrow> Vertex list \<Rightarrow> Tarjan \<Rightarrow> bool" where
  "own_ok g s1 st \<longleftrightarrow> (\<forall>y \<in> set (t_s2 st) - set s1. low st y < dfn st y \<and>
     (\<forall>w \<in> set (t_s2 st). arc g y w \<longrightarrow> low st y \<le> dfn st w) \<and>
     (\<exists>p c. owner s1 st p y \<and> child s1 st p c \<and> low st c \<le> low st y))"

definition tag_ok :: "DirectedGraph \<Rightarrow> Vertex list \<Rightarrow> Tarjan \<Rightarrow> bool" where
  "tag_ok g s1 st \<longleftrightarrow> (\<forall>p c. tagged st p c \<longrightarrow> visited st p) \<and>
     (\<forall>p \<in> set s1. \<forall>c. tagged st p c \<longrightarrow> arc g p c \<and>
        (if visited st c
         then dfn st p < dfn st c \<and> (\<forall>z \<in> set s1. dfn st p < dfn st z \<longrightarrow> dfn st c \<le> dfn st z) \<and>
           (\<not> onstack st c \<longrightarrow> low st c = dfn st c)
         else \<exists>r. s1 = c # p # r))"

definition tinv :: "DirectedGraph \<Rightarrow> Vertex list \<Rightarrow> Tarjan \<Rightarrow> bool" where
  "tinv g s1 st \<longleftrightarrow> num_ok st \<and> stack_ok st \<and> done_ok g st \<and> gray_ok g s1 st \<and> black_ok g s1 st \<and>
     reach_ok g s1 st \<and> low_ok g st \<and> own_ok g s1 st \<and> tag_ok g s1 st"

lemma tinvI:
  "\<lbrakk>num_ok st; stack_ok st; done_ok g st; gray_ok g s1 st; black_ok g s1 st; reach_ok g s1 st;
    low_ok g st; own_ok g s1 st; tag_ok g s1 st\<rbrakk> \<Longrightarrow> tinv g s1 st"
  by (simp add: tinv_def)

lemma tinvD:
  assumes "tinv g s1 st"
  shows "num_ok st" "stack_ok st" "done_ok g st" "gray_ok g s1 st" "black_ok g s1 st"
    "reach_ok g s1 st" "low_ok g st" "own_ok g s1 st" "tag_ok g s1 st"
  using assms by (simp_all add: tinv_def)

lemma same_num: "\<lbrakk>num_ok st; dfn st u = dfn st v; visited st u\<rbrakk> \<Longrightarrow> u = v"
  by (auto simp: num_ok_def)

lemma onstack_iff: "stack_ok st \<Longrightarrow> onstack st v \<longleftrightarrow> v \<in> set (t_s2 st)"
  by (simp add: stack_ok_def)

lemma stack_visited: "\<lbrakk>stack_ok st; v \<in> set (t_s2 st)\<rbrakk> \<Longrightarrow> visited st v"
  by (simp add: stack_ok_def)

lemma done_okD:
  assumes "done_ok g st" "finished st u"
  shows "arc g u v \<Longrightarrow> finished st v"
    "finished st v \<Longrightarrow> belong st u = belong st v \<longleftrightarrow> reach g u v \<and> reach g v u"
    "1 \<le> belong st u" "belong st u \<le> t_cnt st"
  using assms unfolding done_ok_def by blast+

lemma own_okD:
  assumes "own_ok g s1 st" "y \<in> set (t_s2 st)" "y \<notin> set s1"
  shows "low st y < dfn st y" "\<lbrakk>w \<in> set (t_s2 st); arc g y w\<rbrakk> \<Longrightarrow> low st y \<le> dfn st w"
    "\<exists>p c. owner s1 st p y \<and> child s1 st p c \<and> low st c \<le> low st y"
  using assms unfolding own_ok_def by blast+

lemma own_okI:
  assumes "\<And>y. \<lbrakk>y \<in> set (t_s2 st); y \<notin> set s1\<rbrakk> \<Longrightarrow> low st y < dfn st y"
    "\<And>y w. \<lbrakk>y \<in> set (t_s2 st); y \<notin> set s1; w \<in> set (t_s2 st); arc g y w\<rbrakk> \<Longrightarrow> low st y \<le> dfn st w"
    "\<And>y. \<lbrakk>y \<in> set (t_s2 st); y \<notin> set s1\<rbrakk> \<Longrightarrow> \<exists>p c. owner s1 st p y \<and> child s1 st p c \<and> low st c \<le> low st y"
  shows "own_ok g s1 st"
  using assms unfolding own_ok_def by blast

lemma tag_okD:
  assumes "tag_ok g s1 st" "tagged st p c"
  shows "visited st p" "p \<in> set s1 \<Longrightarrow> arc g p c" "\<lbrakk>p \<in> set s1; visited st c\<rbrakk> \<Longrightarrow> dfn st p < dfn st c"
    "\<lbrakk>p \<in> set s1; visited st c; z \<in> set s1; dfn st p < dfn st z\<rbrakk> \<Longrightarrow> dfn st c \<le> dfn st z"
    "\<lbrakk>p \<in> set s1; visited st c; \<not> onstack st c\<rbrakk> \<Longrightarrow> low st c = dfn st c"
    "\<lbrakk>p \<in> set s1; \<not> visited st c\<rbrakk> \<Longrightarrow> \<exists>r. s1 = c # p # r"
  using assms unfolding tag_ok_def by metis+

lemma tag_okI:
  assumes "\<And>p c. tagged st p c \<Longrightarrow> visited st p"
    "\<And>p c. \<lbrakk>tagged st p c; p \<in> set s1\<rbrakk> \<Longrightarrow> arc g p c"
    "\<And>p c. \<lbrakk>tagged st p c; p \<in> set s1; visited st c\<rbrakk> \<Longrightarrow> dfn st p < dfn st c"
    "\<And>p c z. \<lbrakk>tagged st p c; p \<in> set s1; visited st c; z \<in> set s1; dfn st p < dfn st z\<rbrakk> \<Longrightarrow> dfn st c \<le> dfn st z"
    "\<And>p c. \<lbrakk>tagged st p c; p \<in> set s1; visited st c; \<not> onstack st c\<rbrakk> \<Longrightarrow> low st c = dfn st c"
    "\<And>p c. \<lbrakk>tagged st p c; p \<in> set s1; \<not> visited st c\<rbrakk> \<Longrightarrow> \<exists>r. s1 = c # p # r"
  shows "tag_ok g s1 st"
  using assms unfolding tag_ok_def by auto

text \<open>The visited part of \<open>s1\<close> is ordered: its top was visited last.\<close>

lemma gray_max: "\<lbrakk>gray_ok g (x # s1) st; z \<in> set s1; visited st x\<rbrakk> \<Longrightarrow> dfn st z < dfn st x"
  by (auto simp: gray_ok_def)

lemma gray_reach: "gray_ok g (x # s1) st \<Longrightarrow> z \<in> set (x # s1) \<Longrightarrow> reach g z x"
proof (induction s1 arbitrary: x)
  case (Cons y s1)
  show ?case
  proof (cases "z = x")
    case False
    have "gray_ok g (y # s1) st" "arc g y x"
      using Cons.prems(1) by (auto simp: gray_ok_def split: if_splits)
    with Cons False show ?thesis by (metis rtranclp.rtrancl_into_rtrancl set_ConsD)
  qed simp
qed simp

section \<open>Visiting a vertex\<close>

lemma visit_simps:
  assumes "dfn st x = 0"
  shows "dfn (visit x st) v = (if v = x then t_index st + 1 else dfn st v)"
    "low (visit x st) v = (if v = x then t_index st + 1 else low st v)"
    "t_s2 (visit x st) = x # t_s2 st" "onstack (visit x st) v \<longleftrightarrow> v = x \<or> onstack st v"
    "t_index (visit x st) = t_index st + 1" "belong (visit x st) = belong st"
    "t_tag (visit x st) = t_tag st" "t_cnt (visit x st) = t_cnt st"
  using assms by (auto simp: visit_def)

lemma visit_visited: "visited st x \<Longrightarrow> visit x st = st"
  by (simp add: visit_def)

lemma tinv_visit:
  assumes inv: "tinv g (x # s1) st" and x: "dfn st x = 0"
  shows "tinv g (x # s1) (visit x st)"
proof (rule tinvI)
  note I = tinvD [OF inv]
  note V = visit_simps [OF x]
  have le: "dfn st v \<le> t_index st" for v using I(1) by (simp add: num_ok_def)
  have new: "x \<notin> set (t_s2 st)" using stack_visited [OF I(2)] x by blast
  show "num_ok (visit x st)" using I(1) le by (auto simp: num_ok_def V le_SucI) (metis Suc_n_not_le_n le)+
  have "sorted_wrt (\<lambda>a b. dfn (visit x st) b < dfn (visit x st) a) (t_s2 st)"
    by (rule sorted_wrt_mono_rel [of _ "\<lambda>a b. dfn st b < dfn st a"])
      (use I(2) new in \<open>auto simp: stack_ok_def V\<close>)
  then show "stack_ok (visit x st)" using I(2) new le by (auto simp: stack_ok_def V less_Suc_eq_le)
  have "finished (visit x st) v \<longleftrightarrow> finished st v" for v using x onstack_iff [OF I(2), of x] new by (auto simp: V)
  note fin = this
  show "done_ok g (visit x st)" using I(3) unfolding done_ok_def fin V(6,8) .
  show "black_ok g (x # s1) (visit x st)" using I(5) by (auto simp: black_ok_def V)
  have gray: "visited st z" "dfn st z \<le> t_index st" "z \<noteq> x" if "z \<in> set s1" for z
    using that I(4) x le by (auto simp: gray_ok_def)
  have "sorted_wrt (\<lambda>a b. dfn (visit x st) b < dfn (visit x st) a) s1"
    by (rule sorted_wrt_mono_rel [of _ "\<lambda>a b. dfn st b < dfn st a"])
      (use I(4) gray x in \<open>auto simp: gray_ok_def V cong: filter_cong\<close>)
  then show "gray_ok g (x # s1) (visit x st)"
    using I(4) gray by (auto simp: gray_ok_def V less_Suc_eq_le)
  show "reach_ok g (x # s1) (visit x st)"
    using I(6) gray_reach [OF I(4)] le gray by (auto simp: reach_ok_def V) (meson Suc_n_not_le_n le order_trans)+
  show "low_ok g (visit x st)"
    using I(7) new by (fastforce simp: low_ok_def V)
  have own: "\<exists>p c. owner (x # s1) (visit x st) p y \<and> child (x # s1) (visit x st) p c \<and>
      low (visit x st) c \<le> low (visit x st) y" if "y \<in> set (t_s2 st) - set (x # s1)" for y
  proof -
    from that own_okD(3) [OF I(8), of y]
    obtain p c where "owner (x # s1) st p y" "child (x # s1) st p c" "low st c \<le> low st y" by blast
    with x le that show ?thesis
      by (intro exI [of _ p] exI [of _ c]) (auto simp: owner_def child_def V less_Suc_eq_le)
  qed
  moreover have "\<not> arc g y x" if "y \<in> set (t_s2 st) - set (x # s1)" for y
    using that I(5) stack_visited [OF I(2), of y] x unfolding black_ok_def by (metis DiffE)
  ultimately show "own_ok g (x # s1) (visit x st)"
    using I(8) by (auto simp: own_ok_def V)
  have old: "dfn st p \<noteq> 0" "p \<noteq> x" if "tagged st p c" for p c using tag_okD(1) [OF I(9) that] x by auto
  have last: "dfn st z \<le> dfn st p" if "tagged st p x" "p \<in> set s1" "z \<in> set s1" for p z
  proof -
    note t = that
    obtain r where r: "s1 = p # r" using tag_okD(6) [OF I(9) t(1)] t(2) x by auto
    show ?thesis using I(4) t r gray by (auto simp: gray_ok_def x dest: less_imp_le)
  qed
  show "tag_ok g (x # s1) (visit x st)"
  proof (rule tag_okI)
    fix p c assume t: "tagged (visit x st) p c"
    then have t': "tagged st p c" by (simp add: V)
    note D = tag_okD [OF I(9) t'] and p = old [OF t']
    show "visited (visit x st) p" using D(1) by (simp add: V)
    assume ps: "p \<in> set (x # s1)"
    then show "arc g p c" by (rule D(2))
    show "dfn (visit x st) p < dfn (visit x st) c" if "visited (visit x st) c"
      using that D(3) ps p le by (auto simp: V less_Suc_eq_le)
    show "low (visit x st) c = dfn (visit x st) c" if "visited (visit x st) c" "\<not> onstack (visit x st) c"
      using that D(5) ps p by (auto simp: V split: if_splits)
    show "\<exists>r. x # s1 = c # p # r" if "\<not> visited (visit x st) c"
      using that D(6) ps p by (auto simp: V split: if_splits)
    show "dfn (visit x st) c \<le> dfn (visit x st) z"
      if "visited (visit x st) c" "z \<in> set (x # s1)" "dfn (visit x st) p < dfn (visit x st) z" for z
    proof (cases "z = x \<or> c \<noteq> x")
      case True
      then show ?thesis using that D(4) [of z] ps p le [of c] by (auto simp: V le_SucI split: if_splits)
    next
      case False
      then have "dfn st z \<le> dfn st p" using last [of p z] t' ps p that(2) by auto
      with that(3) False p show ?thesis by (simp add: V)
    qed
  qed
qed

section \<open>Lowering\<close>

text \<open>\<open>low x\<close> of the top of \<open>s1\<close> may be lowered to the number of a vertex on \<open>s2\<close> that \<open>x\<close> reaches.\<close>

lemma lower_simps [simp]:
  "low (lower x n st) v = (if v = x then min (low st x) n else low st v)"
  "t_s2 (lower x n st) = t_s2 st" "t_in (lower x n st) = t_in st"
  "t_index (lower x n st) = t_index st" "t_belong (lower x n st) = t_belong st"
  "t_tag (lower x n st) = t_tag st" "t_cnt (lower x n st) = t_cnt st"
  by (auto simp: lower_def)

lemma tinv_lower:
  assumes inv: "tinv g (x # s1) st" and x: "visited st x"
    and w: "n < low st x \<Longrightarrow> \<exists>w \<in> set (t_s2 st). n = dfn st w \<and> reach g x w"
  shows "tinv g (x # s1) (lower x n st)"
proof (rule tinvI)
  note I = tinvD [OF inv]
  have xs: "x \<in> set (t_s2 st)" using I(2,4) x by (auto simp: gray_ok_def stack_ok_def)
  show "num_ok (lower x n st)" "stack_ok (lower x n st)" "done_ok g (lower x n st)"
    "gray_ok g (x # s1) (lower x n st)" "black_ok g (x # s1) (lower x n st)" "reach_ok g (x # s1) (lower x n st)"
    using I(1-6)
    unfolding num_ok_def stack_ok_def done_ok_def gray_ok_def black_ok_def reach_ok_def dfn_lower lower_simps
    by blast+
  show "low_ok g (lower x n st)"
    unfolding low_ok_def
  proof
    fix y assume y: "y \<in> set (t_s2 (lower x n st))"
    from y I(7) obtain v where v: "v \<in> set (t_s2 st)" "low st y = dfn st v" "reach g y v" "dfn st v \<le> dfn st y"
      by (auto simp: low_ok_def)
    show "\<exists>v \<in> set (t_s2 (lower x n st)). low (lower x n st) y = dfn (lower x n st) v \<and> reach g y v \<and>
        dfn (lower x n st) v \<le> dfn (lower x n st) y"
    proof (cases "y = x \<and> n < low st x")
      case True
      with w obtain u where "u \<in> set (t_s2 st)" "n = dfn st u" "reach g x u" by blast
      with True v show ?thesis by (intro bexI [of _ u]) auto
    next
      case False
      with v show ?thesis by (intro bexI [of _ v]) auto
    qed
  qed
  show "own_ok g (x # s1) (lower x n st)"
  proof (rule own_okI)
    fix y assume y: "y \<in> set (t_s2 (lower x n st))" "y \<notin> set (x # s1)"
    then have y': "y \<in> set (t_s2 st)" "y \<noteq> x" by auto
    obtain p c where "owner (x # s1) st p y" "child (x # s1) st p c" "low st c \<le> low st y"
      using own_okD(3) [OF I(8) y'(1) y(2)] by blast
    then show "\<exists>p c. owner (x # s1) (lower x n st) p y \<and> child (x # s1) (lower x n st) p c \<and>
        low (lower x n st) c \<le> low (lower x n st) y"
      using y' by (intro exI [of _ p] exI [of _ c]) (auto simp: owner_def child_def)
    show "low (lower x n st) y < dfn (lower x n st) y" using own_okD(1) [OF I(8) y'(1) y(2)] y' by simp
    show "low (lower x n st) y \<le> dfn (lower x n st) w" if "w \<in> set (t_s2 (lower x n st))" "arc g y w" for w
      using own_okD(2) [OF I(8) y'(1) y(2)] that y' by simp
  qed
  show "tag_ok g (x # s1) (lower x n st)"
    by (rule tag_okI)
      (use tag_okD [OF I(9)] xs onstack_iff [OF I(2)] in \<open>auto simp: lower_simps\<close>)
qed

lemma tinv_lower_stack:
  assumes inv: "tinv g (x # s1) st" and x: "visited st x" and n: "arc g x n" "onstack st n"
  shows "tinv g (x # s1) (lower x (dfn st n) st)"
proof (rule tinv_lower [OF inv x])
  show "\<exists>w \<in> set (t_s2 st). dfn st n = dfn st w \<and> reach g x w"
    using n onstack_iff [OF tinvD(2) [OF inv]] by blast
qed

section \<open>Pushing a successor\<close>

lemma add_tag_simps [simp]:
  "tagged (add_tag x n st) p c \<longleftrightarrow> p = x \<and> c = n \<or> tagged st p c"
  "t_low (add_tag x n st) = t_low st" "t_s2 (add_tag x n st) = t_s2 st" "t_in (add_tag x n st) = t_in st"
  "t_index (add_tag x n st) = t_index st" "t_belong (add_tag x n st) = t_belong st"
  "t_cnt (add_tag x n st) = t_cnt st"
  by (auto simp: add_tag_def)

lemma tinv_push:
  assumes inv: "tinv g (x # s1) st" and x: "visited st x" and n: "arc g x n" "dfn st n = 0"
  shows "tinv g (n # x # s1) (add_tag x n st)"
proof (rule tinvI)
  note I = tinvD [OF inv]
  let ?st = "add_tag x n st"
  have new: "n \<notin> set (t_s2 st)" using stack_visited [OF I(2)] n by blast
  show "num_ok ?st" "stack_ok ?st" "done_ok g ?st"
    using I(1-3) unfolding num_ok_def stack_ok_def done_ok_def dfn_add_tag add_tag_simps by blast+
  show "gray_ok g (n # x # s1) ?st"
    using I(4) x n by (auto simp: gray_ok_def elim: successively_mono)
  show "black_ok g (n # x # s1) ?st" "reach_ok g (n # x # s1) ?st" "low_ok g ?st"
    using I(5-7) n unfolding black_ok_def reach_ok_def low_ok_def by auto
  show "own_ok g (n # x # s1) ?st"
  proof (rule own_okI)
    fix y assume y: "y \<in> set (t_s2 ?st)" "y \<notin> set (n # x # s1)"
    then have y': "y \<in> set (t_s2 st)" "y \<notin> set (x # s1)" by auto
    show "low ?st y < dfn ?st y" using own_okD(1) [OF I(8) y'] by simp
    show "low ?st y \<le> dfn ?st w" if "w \<in> set (t_s2 ?st)" "arc g y w" for w
      using own_okD(2) [OF I(8) y'] that by simp
    from own_okD(3) [OF I(8) y']
    obtain p c where "owner (x # s1) st p y" "child (x # s1) st p c" "low st c \<le> low st y" by blast
    then show "\<exists>p c. owner (n # x # s1) ?st p y \<and> child (n # x # s1) ?st p c \<and> low ?st c \<le> low ?st y"
      using n by (intro exI [of _ p] exI [of _ c]) (auto simp: owner_def child_def)
  qed
  have hd: "visited st c" if "tagged st p c" "p \<in> set (x # s1)" for p c
    using tag_okD(6) [OF I(9) that] x by auto
  have np: "p \<noteq> n" if "tagged st p c" for p c using tag_okD(1) [OF I(9) that] n by auto
  show "tag_ok g (n # x # s1) ?st"
  proof (rule tag_okI)
    fix p c assume t: "tagged ?st p c"
    then have "p = x \<and> c = n \<or> tagged st p c" by simp
    then show "visited ?st p" using x tag_okD(1) [OF I(9)] by auto
    assume ps: "p \<in> set (n # x # s1)"
    consider "p = x" "c = n" | "tagged st p c" "p \<in> set (x # s1)" "visited st c"
      using t ps hd np by (metis add_tag_simps(1) set_ConsD)
    note cs = this
    from cs show "arc g p c" using n tag_okD(2) [OF I(9)] by cases auto
    from cs show "dfn ?st p < dfn ?st c" if "visited ?st c"
      using that n tag_okD(3) [OF I(9)] by cases auto
    from cs show "dfn ?st c \<le> dfn ?st z" if "visited ?st c" "z \<in> set (n # x # s1)" "dfn ?st p < dfn ?st z" for z
      using that n tag_okD(4) [OF I(9), of p c z] by cases auto
    from cs show "low ?st c = dfn ?st c" if "visited ?st c" "\<not> onstack ?st c"
      using that n tag_okD(5) [OF I(9), of p c] by cases auto
    from cs show "\<exists>r. n # x # s1 = c # p # r" if "\<not> visited ?st c"
      using that by cases auto
  qed
qed

section \<open>The scans of the successors\<close>

lemma tinv_scan:
  assumes "tinv g (x # s1) st" "visited st x" "\<And>n. n \<in> set ns \<Longrightarrow> arc g x n"
    "scan_outs x ns st = (st', r)"
  shows "case r of Some n \<Rightarrow> tinv g (n # x # s1) st'
    | None \<Rightarrow> tinv g (x # s1) st' \<and> (\<forall>n \<in> set ns. visited st' n \<and> (onstack st' n \<longrightarrow> low st' x \<le> dfn st' n)) \<and>
        low st' x \<le> low st x \<and> (\<forall>v. dfn st' v = dfn st v \<and> onstack st' v = onstack st v)"
  using assms
proof (induction x ns st rule: scan_outs.induct)
  case (2 x nx nexts st)
  show ?case
  proof (cases "dfn st nx = 0")
    case True
    with 2(2-5) show ?thesis by (auto simp: tinv_push)
  next
    case False
    let ?st = "if onstack st nx then lower x (dfn st nx) st else st"
    have "tinv g (x # s1) ?st" "visited ?st x"
      using 2(2-4) tinv_lower_stack [of g x s1 st nx] by auto
    with 2(1) [OF False] 2(4,5) False
    have "case r of Some n \<Rightarrow> tinv g (n # x # s1) st'
      | None \<Rightarrow> tinv g (x # s1) st' \<and> (\<forall>n \<in> set nexts. visited st' n \<and> (onstack st' n \<longrightarrow> low st' x \<le> dfn st' n)) \<and>
        low st' x \<le> low ?st x \<and> (\<forall>v. dfn st' v = dfn ?st v \<and> onstack st' v = onstack ?st v)"
      by auto
    then show ?thesis using False by (auto split: option.splits if_splits)
  qed
qed simp

lemma tinv_ensure: "tinv g s1 (st\<lparr>t_tag := ensure x [] (t_tag st)\<rparr>) \<longleftrightarrow> tinv g s1 st"
  by (simp add: tinv_def num_ok_def stack_ok_def done_ok_def gray_ok_def black_ok_def reach_ok_def
      low_ok_def own_ok_def owner_def child_def tag_ok_def)

lemma low_le_dfn: "\<lbrakk>tinv g s1 st; v \<in> set (t_s2 st)\<rbrakk> \<Longrightarrow> low st v \<le> dfn st v"
  using tinvD(7) [of g s1 st] by (auto simp: low_ok_def)

lemma top_on_stack: "\<lbrakk>tinv g (x # s1) st; visited st x\<rbrakk> \<Longrightarrow> x \<in> set (t_s2 st)"
  using tinvD(2,4) [of g "x # s1" st] by (auto simp: gray_ok_def stack_ok_def)

lemma tinv_lower_tagged:
  assumes inv: "tinv g (x # s1) st" and x: "visited st x" and n: "tagged st x n"
  shows "tinv g (x # s1) (lower x (low st n) st)" "n \<noteq> x"
proof -
  note I = tinvD [OF inv] and D = tag_okD [OF tinvD(9) [OF inv] n]
  have vis: "visited st n" using D(6) x by auto
  then show "n \<noteq> x" using D(3) by auto
  show "tinv g (x # s1) (lower x (low st n) st)"
  proof (rule tinv_lower [OF inv x])
    assume less: "low st n < low st x"
    have "onstack st n"
    proof (rule ccontr)
      assume "\<not> onstack st n"
      with D(3,5) vis have "dfn st x < low st n" by simp
      with low_le_dfn [OF inv top_on_stack [OF inv x]] less show False by simp
    qed
    then have "n \<in> set (t_s2 st)" using onstack_iff [OF I(2)] by blast
    then obtain w where "w \<in> set (t_s2 st)" "low st n = dfn st w" "reach g n w"
      using I(7) by (auto simp: low_ok_def)
    moreover have "arc g x n" using D(2) by simp
    ultimately show "\<exists>w \<in> set (t_s2 st). low st n = dfn st w \<and> reach g x w"
      by (meson converse_rtranclp_into_rtranclp)
  qed
qed

text \<open>What a scan may change: \<open>low x\<close>, downwards.\<close>

definition only_lowers :: "Vertex \<Rightarrow> Tarjan \<Rightarrow> Tarjan \<Rightarrow> bool" where
  "only_lowers x st st' \<longleftrightarrow> (\<forall>v. dfn st' v = dfn st v \<and> onstack st' v = onstack st v \<and>
     (v \<noteq> x \<longrightarrow> low st' v = low st v) \<and> (\<forall>c. tagged st' v c \<longleftrightarrow> tagged st v c)) \<and> low st' x \<le> low st x"

lemma tinv_fold_tags:
  assumes "tinv g (x # s1) st" "visited st x"
  shows "tinv g (x # s1) (fold_tags x ns st) \<and> only_lowers x st (fold_tags x ns st) \<and>
    (\<forall>n \<in> set ns. tagged st x n \<longrightarrow> low (fold_tags x ns st) x \<le> low st n)"
  using assms
proof (induction ns arbitrary: st)
  case (Cons n ns)
  let ?en = "st\<lparr>t_tag := ensure x [] (t_tag st)\<rparr>"
  let ?st = "if tagged ?en x n then lower x (low ?en n) ?en else ?en"
  have inv0: "tinv g (x # s1) ?en" "visited ?en x" using Cons.prems by (simp_all add: tinv_ensure)
  have inv: "tinv g (x # s1) ?st" using tinv_lower_tagged(1) [OF inv0, of n] inv0(1) by (simp split: if_split)
  have x': "visited ?st x" and nx: "tagged st x n \<Longrightarrow> n \<noteq> x"
    using tinv_lower_tagged(2) [OF Cons.prems] inv0(2) by auto
  have low: "only_lowers x st ?st" "tagged st x n \<Longrightarrow> low ?st x \<le> low st n"
    using nx by (auto simp: only_lowers_def)
  have eq: "fold_tags x (n # ns) st = fold_tags x ns ?st" by (simp add: fold_tags_def Let_def)
  have "m \<noteq> x" if "tagged st x m" for m
    using tinv_lower_tagged(2) [OF Cons.prems that] .
  then show ?case using Cons.IH [OF inv x'] low unfolding eq only_lowers_def by (auto intro: order_trans)
qed (simp add: fold_tags_def only_lowers_def)

section \<open>Leaving a vertex\<close>

text \<open>The state in which \<open>x\<close> is left: its successors are visited and \<open>low x\<close> is settled.\<close>

definition settled :: "DirectedGraph \<Rightarrow> Vertex \<Rightarrow> Vertex list \<Rightarrow> Tarjan \<Rightarrow> bool" where
  "settled g x s1 st \<longleftrightarrow> tinv g (x # s1) st \<and> visited st x \<and>
     (\<forall>n. arc g x n \<longrightarrow> visited st n \<and> (onstack st n \<longrightarrow> low st x \<le> dfn st n) \<and>
        (tagged st x n \<longrightarrow> low st x \<le> low st n))"

text \<open>Everything above \<open>x\<close> on \<open>s2\<close> was visited from \<open>x\<close>, and its \<open>low\<close> is not below that of \<open>x\<close>.\<close>

lemma segment_low:
  assumes s: "settled g x s1 st" and y: "y \<in> set (t_s2 st)" "dfn st x \<le> dfn st y"
  shows "low st x \<le> low st y"
proof (cases "y = x")
  case False
  have inv: "tinv g (x # s1) st" and x: "visited st x" using s by (auto simp: settled_def)
  note I = tinvD [OF inv]
  have yl: "dfn st x < dfn st y" using y(2) False same_num [OF I(1)] x by (metis le_neq_implies_less)
  have ys: "y \<notin> set (x # s1)" using yl gray_max [OF I(4) _ x, of y] False by fastforce
  then obtain p c where pc: "owner (x # s1) st p y" "child (x # s1) st p c" "low st c \<le> low st y"
    using own_okD(3) [OF I(8) y(1)] by blast
  have "p = x"
  proof (rule ccontr)
    assume "p \<noteq> x"
    then have "dfn st p < dfn st x" using pc(1) gray_max [OF I(4) _ x] by (auto simp: owner_def)
    then show False using pc(1) yl by (auto simp: owner_def)
  qed
  with pc(2) have "tagged st x c" by (simp add: child_def)
  moreover from this have "arc g x c" using tag_okD(2) [OF I(9)] by simp
  ultimately have "low st x \<le> low st c" using s by (auto simp: settled_def)
  with pc(3) show ?thesis by simp
qed simp

lemma settledD:
  assumes "settled g x s1 st"
  shows "tinv g (x # s1) st" "visited st x" "arc g x n \<Longrightarrow> visited st n"
    "\<lbrakk>arc g x n; onstack st n\<rbrakk> \<Longrightarrow> low st x \<le> dfn st n"
  using assms by (auto simp: settled_def)

lemma gray_tl: "\<lbrakk>gray_ok g (x # s1) st; visited st x\<rbrakk> \<Longrightarrow> gray_ok g s1 st \<and> x \<notin> set s1 \<and> (\<forall>v \<in> set s1. visited st v)"
  by (cases s1) (auto simp: gray_ok_def)

lemma leave_parent:
  assumes s: "settled g x s1 st" and low: "low st x < dfn st x"
  obtains p r where "s1 = p # r" "visited st p" "tagged st p x" "\<And>z. z \<in> set s1 \<Longrightarrow> dfn st z \<le> dfn st p"
proof -
  note I = tinvD [OF settledD(1) [OF s]] and x = settledD(2) [OF s]
  obtain w where w: "w \<in> set (t_s2 st)" "low st x = dfn st w"
    using I(7) top_on_stack [OF settledD(1) [OF s] x] by (auto simp: low_ok_def)
  have "s1 \<noteq> []"
  proof
    assume "s1 = []"
    with w low own_okD(3) [OF I(8) w(1)] obtain p where "owner [x] st p w" by fastforce
    with w low show False by (auto simp: owner_def)
  qed
  then obtain p r where s1: "s1 = p # r" by (cases s1) auto
  have "gray_ok g (p # r) st" "visited st p" using gray_tl [OF I(4) x] s1 by auto
  then have "dfn st z \<le> dfn st p" if "z \<in> set s1" for z
    using that gray_max [of g p r st z] s1 by (auto intro: less_imp_le)
  moreover have "tagged st p x" using I(4) s1 by (simp add: gray_ok_def)
  ultimately show ?thesis using \<open>visited st p\<close> s1 by (intro that) auto
qed

lemma tinv_leave:
  assumes s: "settled g x s1 st" and low: "low st x < dfn st x"
  shows "tinv g s1 st"
proof (rule tinvI)
  note I = tinvD [OF settledD(1) [OF s]] and x = settledD(2) [OF s]
  note gt = gray_tl [OF I(4) x]
  from leave_parent [OF s low]
  obtain p r where p: "s1 = p # r" "visited st p" "tagged st p x" "\<And>z. z \<in> set s1 \<Longrightarrow> dfn st z \<le> dfn st p"
    by blast
  show "num_ok st" "stack_ok st" "done_ok g st" "low_ok g st" by fact+
  show "gray_ok g s1 st" using gt by blast
  show "black_ok g s1 st" using I(5) settledD(3) [OF s] unfolding black_ok_def by (metis set_ConsD)
  show "reach_ok g s1 st" using I(6) unfolding reach_ok_def by auto
  show "own_ok g s1 st"
  proof (rule own_okI)
    fix y assume y: "y \<in> set (t_s2 st)" "y \<notin> set s1"
    show "low st y < dfn st y" using own_okD(1) [OF I(8) y(1)] y(2) low by fastforce
    show "low st y \<le> dfn st w" if "w \<in> set (t_s2 st)" "arc g y w" for w
      using own_okD(2) [OF I(8) y(1)] that y(2) settledD(4) [OF s, of w] onstack_iff [OF I(2)] by fastforce
    show "\<exists>p c. owner s1 st p y \<and> child s1 st p c \<and> low st c \<le> low st y"
    proof (cases "dfn st x \<le> dfn st y")
      case True
      have "dfn st p < dfn st x" using gray_max [OF I(4) _ x] p(1) by simp
      then have "owner s1 st p y" using p True by (auto simp: owner_def leD)
      moreover have "child s1 st p x" using p(3) x gt by (simp add: child_def)
      ultimately show ?thesis using segment_low [OF s y(1) True] by blast
    next
      case False
      then have "y \<notin> set (x # s1)" using y(2) by auto
      with own_okD(3) [OF I(8) y(1)] obtain q c where
        "owner (x # s1) st q y" "child (x # s1) st q c" "low st c \<le> low st y" by blast
      with False show ?thesis by (intro exI [of _ q] exI [of _ c]) (auto simp: owner_def child_def)
    qed
  qed
  show "tag_ok g s1 st"
  proof (rule tag_okI)
    fix q c assume t: "tagged st q c"
    note D = tag_okD [OF I(9) t]
    show "visited st q" by (rule D(1))
    assume "q \<in> set s1"
    then have q: "q \<in> set (x # s1)" by simp
    show "arc g q c" by (rule D(2) [OF q])
    show "dfn st q < dfn st c" if "visited st c" by (rule D(3) [OF q that])
    show "dfn st c \<le> dfn st z" if "visited st c" "z \<in> set s1" "dfn st q < dfn st z" for z
      using D(4) [OF q that(1) _ that(3)] that(2) by simp
    show "low st c = dfn st c" if "visited st c" "\<not> onstack st c" by (rule D(5) [OF q that])
    show "\<exists>r. s1 = c # q # r" if "\<not> visited st c" using D(6) [OF q that] x that by auto
  qed
qed

text \<open>Popping a component.\<close>

lemma pop_until_spec:
  "x \<notin> set ys \<Longrightarrow> \<exists>st'. pop_until x (ys @ x # zs) st = Some st' \<and> t_s2 st' = zs \<and>
     (\<forall>v. onstack st' v \<longleftrightarrow> onstack st v \<and> v \<notin> set (x # ys)) \<and>
     (\<forall>v. belong st' v = (if v \<in> set (x # ys) then t_cnt st else belong st v)) \<and>
     t_dfn st' = t_dfn st \<and> t_low st' = t_low st \<and> t_tag st' = t_tag st \<and> t_cnt st' = t_cnt st \<and> t_index st' = t_index st"
proof (induction ys arbitrary: st)
  case (Cons y ys)
  let ?st = "st\<lparr>t_s2 := ys @ x # zs, t_in := AList.update y False (t_in st),
                   t_belong := AList.update y (t_cnt st) (t_belong st)\<rparr>"
  from Cons.IH [of ?st] Cons.prems show ?case by (auto simp: Let_def)
qed (simp add: Let_def)

lemma reach_closed: "\<lbrakk>reach g u v; P u; \<And>a b. \<lbrakk>P a; arc g a b\<rbrakk> \<Longrightarrow> P b\<rbrakk> \<Longrightarrow> P v"
  by (induction rule: rtranclp_induct) auto

text \<open>The vertices from \<open>x\<close> upwards on \<open>s2\<close>, when \<open>low x = dfn x\<close>, form a component.\<close>

definition segment :: "Tarjan \<Rightarrow> Vertex \<Rightarrow> Vertex set" where
  "segment st x = {v \<in> set (t_s2 st). dfn st x \<le> dfn st v}"

lemma segment_reach:
  assumes s: "settled g x s1 st" and root: "low st x = dfn st x" and y: "y \<in> segment st x"
  shows "reach g x y" "reach g y x"
proof -
  note I = tinvD [OF settledD(1) [OF s]] and x = settledD(2) [OF s]
  show "reach g x y" using I(6) x y by (auto simp: reach_ok_def segment_def)
  show "reach g y x" using y
  proof (induction "dfn st y" arbitrary: y rule: less_induct)
    case less
    show ?case
    proof (cases "y = x")
      case False
      from less.prems have y: "y \<in> set (t_s2 st)" "dfn st x \<le> dfn st y" by (auto simp: segment_def)
      have "y \<notin> set (x # s1)" using y(2) gray_max [OF I(4) _ x, of y] False by fastforce
      then have "low st y < dfn st y" by (rule own_okD(1) [OF I(8) y(1)])
      moreover obtain w where w: "w \<in> set (t_s2 st)" "low st y = dfn st w" "reach g y w"
        using I(7) y(1) by (auto simp: low_ok_def)
      moreover have "w \<in> segment st x" using segment_low [OF s y] root w by (simp add: segment_def)
      ultimately show ?thesis using less.hyps [of w] by (metis rtranclp_trans)
    qed simp
  qed
qed

lemma segment_closed:
  assumes s: "settled g x s1 st" and root: "low st x = dfn st x" and y: "y \<in> segment st x" "arc g y v"
  shows "finished st v \<or> v \<in> segment st x"
proof -
  note I = tinvD [OF settledD(1) [OF s]] and x = settledD(2) [OF s]
  from y have ys: "y \<in> set (t_s2 st)" "dfn st x \<le> dfn st y" by (auto simp: segment_def)
  show ?thesis
  proof (cases "y = x")
    case True
    with y(2) root show ?thesis
      using settledD(3,4) [OF s, of v] onstack_iff [OF I(2), of v] by (auto simp: segment_def)
  next
    case False
    then have b: "y \<notin> set (x # s1)" using ys(2) gray_max [OF I(4) _ x, of y] by fastforce
    then have "visited st v" using I(5) stack_visited [OF I(2) ys(1)] y(2) unfolding black_ok_def by blast
    moreover have "dfn st x \<le> dfn st v" if "v \<in> set (t_s2 st)"
      using own_okD(2) [OF I(8) ys(1) b that y(2)] segment_low [OF s ys] root by simp
    ultimately show ?thesis using onstack_iff [OF I(2), of v] by (auto simp: segment_def)
  qed
qed

lemma done_pop:
  assumes s: "settled g x s1 st" and root: "low st x = dfn st x"
    and fin: "\<And>v. finished st' v \<longleftrightarrow> finished st v \<or> v \<in> segment st x"
    and bel: "\<And>v. belong st' v = (if v \<in> segment st x then t_cnt st + 1 else belong st v)"
    and cnt: "t_cnt st' = t_cnt st + 1"
  shows "done_ok g st'"
proof -
  have ok: "done_ok g st" using tinvD(3) [OF settledD(1) [OF s]] .
  have closed: "finished st v" if "finished st u" "reach g u v" for u v
    by (rule reach_closed [OF that(2), of "finished st"]) (rule that(1), rule done_okD(1) [OF ok])
  have le: "belong st v \<le> t_cnt st" "1 \<le> belong st v" if "finished st v" for v
    using done_okD(3,4) [OF ok that] by auto
  have sep: "v \<notin> segment st x" if "finished st v" for v
    using that onstack_iff [OF tinvD(2) [OF settledD(1) [OF s]], of v] by (auto simp: segment_def)
  have "belong st' u = belong st' v \<longleftrightarrow> reach g u v \<and> reach g v u"
    if "finished st' u" "finished st' v" for u v
  proof (cases "u \<in> segment st x"; cases "v \<in> segment st x")
    assume "u \<in> segment st x" "v \<in> segment st x"
    then show ?thesis using segment_reach [OF s root] bel by (metis rtranclp_trans)
  next
    assume uv: "u \<in> segment st x" "v \<notin> segment st x"
    then have "finished st v" using that fin by blast
    then show ?thesis using uv bel le(1) [of v] closed [of v u] sep [of u] by fastforce
  next
    assume uv: "u \<notin> segment st x" "v \<in> segment st x"
    then have "finished st u" using that fin by blast
    then show ?thesis using uv bel le(1) [of u] closed [of u v] sep [of v] by fastforce
  next
    assume uv: "u \<notin> segment st x" "v \<notin> segment st x"
    then have "finished st u" "finished st v" using that fin by blast+
    then show ?thesis using uv bel done_okD(2) [OF ok, of u v] by simp
  qed
  moreover have "finished st' v" if "finished st' u" "arc g u v" for u v
    using that segment_closed [OF s root _ that(2)] closed [of u v] fin by blast
  moreover have "1 \<le> belong st' u \<and> belong st' u \<le> t_cnt st'" if "finished st' u" for u
    using that fin bel cnt le [of u] by auto
  ultimately show ?thesis unfolding done_ok_def by blast
qed

lemma tinv_pop:
  assumes s: "settled g x s1 st" and root: "low st x = dfn st x"
  shows "\<exists>st'. pop_until x (t_s2 st) (st\<lparr>t_cnt := t_cnt st + 1\<rparr>) = Some st' \<and> tinv g s1 st'"
proof -
  have inv: "tinv g (x # s1) st" and x: "visited st x" using s by (auto simp: settled_def)
  note I = tinvD [OF inv] and gt = gray_tl [OF tinvD(4) [OF inv] x]
  obtain ys zs where s2: "t_s2 st = ys @ x # zs" "x \<notin> set ys"
    using top_on_stack [OF inv x] by (metis split_list_first)
  have sorted: "sorted_wrt (\<lambda>a b. dfn st b < dfn st a) (ys @ x # zs)" using I(2) s2 by (simp add: stack_ok_def)
  then have seg: "set (x # ys) = segment st x" and zs: "set zs = {v \<in> set (t_s2 st). dfn st v < dfn st x}"
    by (auto simp: segment_def s2 sorted_wrt_append leD less_imp_le dest: less_imp_le)
  obtain st' where st': "pop_until x (t_s2 st) (st\<lparr>t_cnt := t_cnt st + 1\<rparr>) = Some st'" "t_s2 st' = zs"
      "\<And>v. onstack st' v \<longleftrightarrow> onstack st v \<and> v \<notin> segment st x"
      "\<And>v. belong st' v = (if v \<in> segment st x then t_cnt st + 1 else belong st v)"
      "t_dfn st' = t_dfn st" "t_low st' = t_low st" "t_tag st' = t_tag st" "t_cnt st' = t_cnt st + 1"
      "t_index st' = t_index st"
    using pop_until_spec [OF s2(2), of zs "st\<lparr>t_cnt := t_cnt st + 1\<rparr>"] unfolding seg s2(1) by auto
  note eqs = st'(2,3,5,6,7,9)
  have below: "dfn st v < dfn st x" "v \<in> set zs" if "v \<in> set s1" for v
    using that gray_max [OF I(4) that x] gt onstack_iff [OF I(2), of v] I(4) by (auto simp: zs gray_ok_def)
  have "tinv g s1 st'"
  proof (rule tinvI)
    show "num_ok st'" using I(1) unfolding num_ok_def eqs .
    have "sorted_wrt (\<lambda>a b. dfn st b < dfn st a) zs" using sorted by (simp add: sorted_wrt_append)
    moreover have "onstack st v \<and> v \<notin> segment st x \<longleftrightarrow> v \<in> set zs" for v
      unfolding onstack_iff [OF I(2)] zs segment_def by auto
    moreover have "visited st v" if "v \<in> set zs" for v using that stack_visited [OF I(2)] s2(1) by simp
    ultimately show "stack_ok st'" unfolding stack_ok_def eqs by blast
    show "done_ok g st'"
    proof (rule done_pop [OF s root _ st'(4,8)])
      show "finished st' v \<longleftrightarrow> finished st v \<or> v \<in> segment st x" for v
        using stack_visited [OF I(2), of v] onstack_iff [OF I(2), of v] by (auto simp: eqs segment_def)
    qed
    show "gray_ok g s1 st'" using gt below unfolding gray_ok_def eqs
      by (auto simp: segment_def) (metis leD)
    show "black_ok g s1 st'"
      using I(5) settledD(3) [OF s] unfolding black_ok_def eqs by (metis set_ConsD)
    show "reach_ok g s1 st'" using I(6) unfolding reach_ok_def eqs by (auto simp: zs)
    show "low_ok g st'"
      using I(7) unfolding low_ok_def eqs zs by (auto 0 3)
    show "own_ok g s1 st'"
    proof (rule own_okI)
      fix y assume "y \<in> set (t_s2 st')" "y \<notin> set s1"
      then have y: "y \<in> set (t_s2 st)" "y \<notin> set (x # s1)" "dfn st y < dfn st x" by (auto simp: eqs zs)
      show "low st' y < dfn st' y" using own_okD(1) [OF I(8) y(1,2)] by (simp add: eqs)
      show "low st' y \<le> dfn st' w" if "w \<in> set (t_s2 st')" "arc g y w" for w
        using own_okD(2) [OF I(8) y(1,2)] that by (simp add: eqs zs)
      obtain p c where "owner (x # s1) st p y" "child (x # s1) st p c" "low st c \<le> low st y"
        using own_okD(3) [OF I(8) y(1,2)] by blast
      with y(3) show "\<exists>p c. owner s1 st' p y \<and> child s1 st' p c \<and> low st' c \<le> low st' y"
        by (intro exI [of _ p] exI [of _ c]) (auto simp: owner_def child_def eqs)
    qed
    show "tag_ok g s1 st'"
    proof (rule tag_okI, unfold eqs)
      fix q c assume t: "tagged st q c"
      note D = tag_okD [OF I(9) t]
      show "visited st q" by (rule D(1))
      assume qs: "q \<in> set s1"
      then have q: "q \<in> set (x # s1)" by simp
      show "arc g q c" by (rule D(2) [OF q])
      show "dfn st q < dfn st c" if "visited st c" by (rule D(3) [OF q that])
      show "dfn st c \<le> dfn st z" if "visited st c" "z \<in> set s1" "dfn st q < dfn st z" for z
        using D(4) [OF q that(1) _ that(3)] that(2) by simp
      show "low st c = dfn st c" if vis: "visited st c" and off: "\<not> (onstack st c \<and> c \<notin> segment st x)"
      proof (cases "onstack st c")
        case True
        with off have "dfn st x \<le> dfn st c" by (simp add: segment_def)
        moreover have "dfn st c \<le> dfn st x" using D(4) [OF q vis, of x] below(1) [OF qs] by simp
        ultimately have "c = x" using same_num [OF I(1) _ vis] by (metis le_antisym)
        with root show ?thesis by simp
      qed (use D(5) [OF q vis] in blast)
      show "\<exists>r. s1 = c # q # r" if "\<not> visited st c" using D(6) [OF q that] x that by auto
    qed
  qed
  with st'(1) show ?thesis by blast
qed

section \<open>The loops\<close>

lemma tinv_step:
  assumes inv: "tinv g (x # s1) st"
  shows "\<exists>s1' st'. tarjan_step \<rho> g t x s1 st = Some (s1', st') \<and> tinv g s1' st' \<and> visited st' x \<and>
    (\<forall>v. visited st v \<longrightarrow> visited st' v)"
proof -
  let ?ns = "go_range (sub (sub \<rho> t) 0) (map fst (outs g x))"
  let ?ms = "go_range (sub (sub \<rho> t) 1) (map fst (outs g x))"
  have ns: "set ?ns = {n. arc g x n}" "set ?ms = {n. arc g x n}" by (auto simp: arc_def)
  have vis: "tinv g (x # s1) (visit x st)" "visited (visit x st) x" "\<And>v. visited st v \<Longrightarrow> visited (visit x st) v"
    using tinv_visit [OF inv] inv visit_visited [of st x] by (cases "dfn st x = 0"; simp add: dfn_visit)+
  obtain st1 r where scan: "scan_outs x ?ns (visit x st) = (st1, r)" by fastforce
  have d: "dfn st1 v = dfn (visit x st) v" for v using dfn_scan [OF scan] .
  note sc = tinv_scan [OF vis(1,2) _ scan, unfolded ns]
  show ?thesis
  proof (cases r)
    case (Some n)
    with sc scan vis(2,3) d show ?thesis by (auto simp: tarjan_step_def)
  next
    case None
    with sc have sc': "tinv g (x # s1) st1" "\<And>n. arc g x n \<Longrightarrow> visited st1 n \<and> (onstack st1 n \<longrightarrow> low st1 x \<le> dfn st1 n)"
      by auto
    let ?st = "fold_tags x ?ms st1"
    have x1: "visited st1 x" using vis(2) d by simp
    note ft = tinv_fold_tags [OF sc'(1) x1, of ?ms, unfolded ns]
    have neq: "n \<noteq> x" if "tagged st1 x n" for n using tinv_lower_tagged(2) [OF sc'(1) x1 that] .
    have ol: "dfn ?st v = dfn st1 v" "onstack ?st v = onstack st1 v" "v \<noteq> x \<Longrightarrow> low ?st v = low st1 v"
      "tagged ?st v c = tagged st1 v c" "low ?st x \<le> low st1 x" for v c
      using ft by (auto simp: only_lowers_def)
    have set: "settled g x s1 ?st"
      unfolding settled_def ol(1,2,4)
    proof (intro conjI allI impI)
      show "tinv g (x # s1) ?st" using ft by blast
      fix n assume n: "arc g x n"
      show "visited st1 n" using sc'(2) [OF n] by blast
      show "low ?st x \<le> dfn st1 n" if "onstack st1 n" using sc'(2) [OF n] that ol(5) by auto
      show "low ?st x \<le> low ?st n" if "tagged st1 x n" using ft n that ol(3) [OF neq [OF that]] by auto
    qed (rule x1)
    have v: "visited ?st v" if "visited (visit x st) v" for v using that d ol(1) by simp
    show ?thesis
    proof (cases "low ?st x = dfn ?st x")
      case True
      from tinv_pop [OF set True] obtain st' where
        st': "pop_until x (t_s2 ?st) (?st\<lparr>t_cnt := t_cnt ?st + 1\<rparr>) = Some st'" "tinv g s1 st'" by blast
      have "dfn st' u = dfn ?st u" for u using dfn_pop [OF st'(1)] by simp
      with st' True v vis(2,3) show ?thesis by (simp add: tarjan_step_def scan None Let_def)
    next
      case False
      then have "low ?st x < dfn ?st x"
        using low_le_dfn [OF settledD(1) [OF set] top_on_stack [OF settledD(1,2) [OF set]]] by simp
      from tinv_leave [OF set this] False v vis(2,3) show ?thesis by (simp add: tarjan_step_def scan None Let_def)
    qed
  qed
qed

lemma tinv_run:
  "tinv g s1 st \<Longrightarrow> \<exists>st'. tarjan_run \<rho> g t s1 st = Some st' \<and> tinv g [] st' \<and>
     (\<forall>v. visited st v \<or> s1 \<noteq> [] \<and> v = hd s1 \<longrightarrow> visited st' v)"
proof (induction \<rho> g t s1 st rule: tarjan_run.induct)
  case (2 \<rho> g t x s1 st)
  from tinv_step [OF 2(2)] obtain s1' st1 where st1: "tarjan_step \<rho> g t x s1 st = Some (s1', st1)" "tinv g s1' st1"
    "visited st1 x" "\<forall>v. visited st v \<longrightarrow> visited st1 v" by blast
  from 2(1) [OF st1(1) refl st1(2)] obtain st' where
    "tarjan_run \<rho> g (Suc t) s1' st1 = Some st'" "tinv g [] st'" "\<forall>v. visited st1 v \<longrightarrow> visited st' v" by blast
  with st1 show ?case by auto
qed auto

lemma tinv_init: "tinv g [] tarjan_init"
  by (simp add: tarjan_init_def tinv_def num_ok_def stack_ok_def done_ok_def gray_ok_def black_ok_def
      reach_ok_def low_ok_def own_ok_def tag_ok_def)

lemma tinv_start:
  assumes inv: "tinv g [] st" and v: "dfn st v = 0"
  shows "tinv g [v] st" "finished st u \<longleftrightarrow> visited st u"
proof -
  note I = tinvD [OF inv]
  have s2: "t_s2 st = []"
    using own_okD(3) [OF I(8)] by (cases "t_s2 st") (fastforce simp: owner_def)+
  then show "finished st u \<longleftrightarrow> visited st u" using onstack_iff [OF I(2), of u] by simp
  have "\<not> tagged st v c" for c using tag_okD(1) [OF I(9), of v c] v by blast
  then show "tinv g [v] st"
    using I v s2 by (auto simp: tinv_def gray_ok_def black_ok_def reach_ok_def own_ok_def tag_ok_def)
qed

lemma tarjan_all_spec:
  "\<exists>st. tarjan_all \<rho> g vs = Some st \<and> done_ok g st \<and> (\<forall>v \<in> set vs. finished st v)"
proof -
  let ?f = "\<lambda>(i, v) st. if dfn st v = 0 then tarjan_run (sub \<rho> i) g 0 [v] st else Some st"
  let ?R = "\<lambda>st st'. \<forall>v. visited st v \<longrightarrow> visited st' v"
  have "\<exists>st'. ?f iv st = Some st' \<and> tinv g [] st' \<and> ?R st st' \<and> visited st' (snd iv)" if "tinv g [] st" for iv st
  proof (cases "dfn st (snd iv) = 0")
    case True
    from tinv_run [OF tinv_start(1) [OF that True], of "sub \<rho> (fst iv)" 0] True show ?thesis
      by (auto simp: case_prod_unfold)
  next
    case False
    with that show ?thesis by (auto simp: case_prod_unfold)
  qed
  then have "\<exists>t. foldM ?f (enumerate 1 vs) tarjan_init = Some t \<and> tinv g [] t \<and> ?R tarjan_init t \<and>
      (\<forall>x \<in> set (enumerate 1 vs). visited t (snd x))"
    by (intro foldM_progress [where Q = "\<lambda>iv st. visited st (snd iv)" and R = ?R and I = "tinv g []"])
      (auto simp: tinv_init)
  then obtain st where st: "foldM ?f (enumerate 1 vs) tarjan_init = Some st" "tinv g [] st"
      "\<forall>x \<in> set (enumerate 1 vs). visited st (snd x)" by blast
  have vis: "visited st v" if "v \<in> set vs" for v
  proof -
    from that obtain i where "(i, v) \<in> set (enumerate 1 vs)" by (metis ex_enumerate)
    with st(3) show ?thesis by fastforce
  qed
  have s2: "t_s2 st = []"
    using own_okD(3) [OF tinvD(8) [OF st(2)]] by (cases "t_s2 st") (fastforce simp: owner_def)+
  have "finished st v" if "v \<in> set vs" for v
    using vis [OF that] onstack_iff [OF tinvD(2) [OF st(2)], of v] s2 by simp
  with st tinvD(3) [OF st(2)] show ?thesis by (auto simp: tarjan_all_def)
qed

lemma group_by_belong_spec:
  assumes "\<And>v. v \<in> set vs \<Longrightarrow> 1 \<le> belong st v \<and> belong st v \<le> t_cnt st"
  shows "group_by_belong st vs = Some (map (\<lambda>k. filter (\<lambda>v. belong st v = Suc k) vs) [0..<t_cnt st])"
proof -
  let ?f = "\<lambda>v scc. let id = belong st v
       in if 1 \<le> id \<and> id \<le> length scc then Some (scc[id - 1 := scc ! (id - 1) @ [v]]) else None"
  have "foldM ?f vs scc = Some (map (\<lambda>k. scc ! k @ filter (\<lambda>v. belong st v = Suc k) vs) [0..<length scc])"
    if "\<And>v. v \<in> set vs \<Longrightarrow> 1 \<le> belong st v \<and> belong st v \<le> length scc" for scc
    using that
  proof (induction vs arbitrary: scc)
    case Nil
    then show ?case by (simp add: map_nth)
  next
    case (Cons v vs)
    let ?scc = "scc[belong st v - 1 := scc ! (belong st v - 1) @ [v]]"
    have v: "1 \<le> belong st v" "belong st v \<le> length scc" using Cons.prems [of v] by auto
    have "foldM ?f (v # vs) scc = foldM ?f vs ?scc" using v by (simp add: Let_def)
    also have "\<dots> = Some (map (\<lambda>k. ?scc ! k @ filter (\<lambda>v. belong st v = Suc k) vs) [0..<length ?scc])"
      using Cons.prems by (intro Cons.IH) simp
    also have "map (\<lambda>k. ?scc ! k @ filter (\<lambda>v. belong st v = Suc k) vs) [0..<length ?scc] =
        map (\<lambda>k. scc ! k @ filter (\<lambda>v. belong st v = Suc k) (v # vs)) [0..<length scc]"
      using v by (intro map_cong) (auto simp: nth_list_update)
    finally show ?case .
  qed
  from this [of "replicate (t_cnt st) []"] assms show ?thesis
    by (simp add: group_by_belong_def cong: map_cong)
qed

section \<open>The components\<close>

definition component :: "DirectedGraph \<Rightarrow> Vertex \<Rightarrow> Vertex set" where
  "component g v = {w. reach g v w \<and> reach g w v}"

lemma reach_vertices: "\<lbrakk>wf_core g; reach g v w; v \<in> keys (Outs g)\<rbrakk> \<Longrightarrow> w \<in> keys (Outs g)"
  by (rule reach_closed [where P = "\<lambda>v. v \<in> keys (Outs g)"]) (auto dest: wf_coreD)

lemma SCC_spec:
  assumes wf: "wf_core g"
  shows "\<exists>sccs. StronglyConnectedComponents \<rho> g = Some sccs \<and>
    (\<forall>scc \<in> set sccs. distinct (scc_Vertices scc)) \<and>
    (\<lambda>scc. set (scc_Vertices scc)) ` set sccs = {C \<in> component g ` keys (Outs g). 2 \<le> card C}"
proof -
  let ?vs = "Vertices (sub \<rho> 0) g"
  have dist: "distinct ?vs" and set: "set ?vs = keys (Outs g)"
    using distinct_Vertices [OF wf_coreD(1) [OF wf]] by auto
  obtain st where st: "tarjan_all \<rho> g ?vs = Some st" "done_ok g st" "\<And>v. v \<in> keys (Outs g) \<Longrightarrow> finished st v"
    using tarjan_all_spec [of \<rho> g ?vs] set by auto
  note D = done_okD [OF st(2) st(3)]
  let ?grp = "\<lambda>k. filter (\<lambda>v. belong st v = Suc k) ?vs"
  let ?gs = "map ?grp [0..<t_cnt st]"
  have run: "StronglyConnectedComponents \<rho> g =
      Some (map (\<lambda>vs. \<lparr>scc_Vertices = vs\<rparr>) (filter (\<lambda>vs. length vs \<ge> 2) ?gs))"
    using st(1) group_by_belong_spec [of ?vs st] D(3,4) set by (simp add: StronglyConnectedComponents_def Let_def)
  have comp: "set (?grp k) = component g v" if "v \<in> keys (Outs g)" "belong st v = Suc k" for k v
  proof -
    have "w \<in> keys (Outs g) \<and> belong st w = Suc k \<longleftrightarrow> w \<in> component g v" for w
    proof (cases "w \<in> keys (Outs g)")
      case True
      then show ?thesis using D(2) [OF that(1) st(3) [OF True]] that(2) by (auto simp: component_def)
    qed (use reach_vertices [OF wf _ that(1)] in \<open>auto simp: component_def\<close>)
    then show ?thesis using set by auto
  qed
  have "set ` {vs \<in> set ?gs. 2 \<le> length vs} = {C \<in> component g ` keys (Outs g). 2 \<le> card C}"
  proof (intro equalityI subsetI)
    fix C assume "C \<in> set ` {vs \<in> set ?gs. 2 \<le> length vs}"
    then obtain k where k: "C = set (?grp k)" "2 \<le> length (?grp k)" by auto
    then obtain v where "v \<in> set (?grp k)" by (metis list.set_intros(1) length_Cons list.exhaust list.size(3) not_numeral_le_zero)
    then have v: "v \<in> keys (Outs g)" "belong st v = Suc k" using set by auto
    have "card C = length (?grp k)" using k(1) dist by (metis distinct_card distinct_filter)
    with k comp [OF v] v(1) show "C \<in> {C \<in> component g ` keys (Outs g). 2 \<le> card C}" by auto
  next
    fix C assume "C \<in> {C \<in> component g ` keys (Outs g). 2 \<le> card C}"
    then obtain v where v: "v \<in> keys (Outs g)" "C = component g v" "2 \<le> card C" by auto
    obtain k where k: "belong st v = Suc k" "k < t_cnt st" using D(3,4) [OF v(1)] by (cases "belong st v") auto
    have "card C = length (?grp k)" using comp [OF v(1) k(1)] v(2) dist by (metis distinct_card distinct_filter)
    with v comp [OF v(1) k(1)] k(2) show "C \<in> set ` {vs \<in> set ?gs. 2 \<le> length vs}" by force
  qed
  with run dist show ?thesis by (auto simp: image_image)
qed

text \<open>C2. \<open>StronglyConnectedComponents\<close> returns, whatever the order of its range loops, and the
  components it lists are exactly the strongly connected components of the graph with at least
  two vertices, each without repetition.\<close>

theorem SCC_exact:
  assumes "wf_core g"
  shows "\<exists>sccs. StronglyConnectedComponents \<rho> g = Some sccs \<and>
    (\<forall>scc \<in> set sccs. distinct (scc_Vertices scc)) \<and>
    (\<lambda>scc. set (scc_Vertices scc)) ` set sccs = {C \<in> component g ` keys (Outs g). 2 \<le> card C}"
  using assms by (rule SCC_spec)

theorem SCC_exact_witness:
  "let g = link_edges [(VStr ''a'', VStr ''b'', WW), (VStr ''b'', VStr ''a'', RW), (VStr ''b'', VStr ''c'', WR)] NewDirectedGraph
   in wf_core g \<and> StronglyConnectedComponents fifo g = Some [\<lparr>scc_Vertices = [VStr ''a'', VStr ''b'']\<rparr>] \<and>
     {VStr ''a'', VStr ''b''} \<in> component g ` keys (Outs g)"
proof -
  let ?g = "link_edges [(VStr ''a'', VStr ''b'', WW), (VStr ''b'', VStr ''a'', RW), (VStr ''b'', VStr ''c'', WR)] NewDirectedGraph"
  have wf: "wf_core ?g" by (simp add: wf_graphD(1) wf_link_edges)
  have run: "StronglyConnectedComponents fifo ?g = Some [\<lparr>scc_Vertices = [VStr ''a'', VStr ''b'']\<rparr>]" by code_simp
  with SCC_exact [OF wf, of fifo] wf show ?thesis by (auto simp: Let_def)
qed

end
