(* ===== verification/Graph_Search.thy ===== *)
theory Graph_Search
  imports Digraph_Laws
begin

text \<open>
  The breadth-first closures \<open>BfsOut\<close>, \<open>BfsIn\<close> and \<open>Bfs\<close> of \<open>pkg/elle/core/graph.go\<close>.

  The two loops of the source differ only in the vertices they visit next, so they are one
  function with the direction as an argument. A popped vertex that was already visited is
  expanded again, so the queue may grow while nothing new is visited; the loop still stops, by
  a lexicographic measure: the vertices not yet visited, then the visited entries of the queue.
\<close>

section \<open>The loop\<close>

text \<open>\<open>t\<close> counts the iterations: every iteration ranges over a map in an order of its own.\<close>

definition bfs_nexts :: "range_order \<Rightarrow> DirectedGraph \<Rightarrow> bool \<Rightarrow> nat \<Rightarrow> Vertex \<Rightarrow> Vertex list" where
  "bfs_nexts \<rho> g out t cur =
     (if out then go_range (sub \<rho> t) (map fst (outs g cur)) else In g cur)"

definition bfs_universe :: "DirectedGraph \<Rightarrow> Vertex set" where
  "bfs_universe g = (\<Union>m \<in> snd ` set (Outs g). keys m) \<union> (\<Union>vs \<in> snd ` set (Ins g). set vs)"

lemma finite_bfs_universe [simp]: "finite (bfs_universe g)"
  by (simp add: bfs_universe_def)

lemma bfs_nexts_universe: "set (bfs_nexts \<rho> g out t cur) \<subseteq> bfs_universe g"
  using get_or_range [of "[]" "Outs g" cur] get_or_range [of "[]" "Ins g" cur]
  by (auto simp: bfs_nexts_def bfs_universe_def outs_def In_def)

definition bfs_todo :: "(range_order \<times> DirectedGraph \<times> bool \<times> nat \<times> Vertex list \<times>
    (Vertex, bool) gomap \<times> Vertex list) \<Rightarrow> nat" where
  "bfs_todo = (\<lambda>(\<rho>, g, out, t, queue, hv, vs).
     card ((set queue \<union> bfs_universe g) - {v. get_or False hv v}))"

definition bfs_again :: "(range_order \<times> DirectedGraph \<times> bool \<times> nat \<times> Vertex list \<times>
    (Vertex, bool) gomap \<times> Vertex list) \<Rightarrow> nat" where
  "bfs_again = (\<lambda>(\<rho>, g, out, t, queue, hv, vs). length (filter (get_or False hv) queue))"

function bfs_loop :: "range_order \<Rightarrow> DirectedGraph \<Rightarrow> bool \<Rightarrow> nat \<Rightarrow> Vertex list \<Rightarrow>
    (Vertex, bool) gomap \<Rightarrow> Vertex list \<Rightarrow> Vertex list" where
  "bfs_loop \<rho> g out t [] haveVisited vertices = vertices"
| "bfs_loop \<rho> g out t (cur # queue) haveVisited vertices =
     (let seen = get_or False haveVisited cur;
          haveVisited' = (if seen then haveVisited else AList.update cur True haveVisited);
          vertices' = (if seen then vertices else vertices @ [cur]);
          nexts = filter (\<lambda>next. \<not> get_or False haveVisited' next) (bfs_nexts \<rho> g out t cur)
      in bfs_loop \<rho> g out (Suc t) (queue @ nexts) haveVisited' vertices')"
  by pat_completeness auto
termination
proof (relation "measures [bfs_todo, bfs_again]", rule wf_measures)
  fix \<rho> g out t cur queue hv vs seen hv' vs' nexts
  assume s: "seen = get_or False hv cur"
    and hv': "hv' = (if seen then hv else AList.update cur True hv)"
    and nexts: "nexts = filter (\<lambda>next. \<not> get_or False hv' next) (bfs_nexts \<rho> g out t cur)"
  have ns: "set nexts \<subseteq> bfs_universe g" "\<forall>n \<in> set nexts. \<not> get_or False hv' n"
    using bfs_nexts_universe [of \<rho> g out t cur] by (auto simp: nexts)
  let ?A = "(set (cur # queue) \<union> bfs_universe g) - {v. get_or False hv v}"
  let ?B = "(set (queue @ nexts) \<union> bfs_universe g) - {v. get_or False hv' v}"
  show "((\<rho>, g, out, Suc t, queue @ nexts, hv', vs'), \<rho>, g, out, t, cur # queue, hv, vs)
      \<in> measures [bfs_todo, bfs_again]"
  proof (cases seen)
    case True
    with ns have "card ?B \<le> card ?A"
      by (intro card_mono) (auto simp: hv')
    moreover have "length (filter (get_or False hv') (queue @ nexts)) < length (filter (get_or False hv) (cur # queue))"
      using True ns(2) s hv' by simp
    ultimately show ?thesis
      by (intro measures_lesseq measures_less) (simp_all add: bfs_todo_def bfs_again_def)
  next
    case False
    with ns s have "?B \<subset> ?A" by (auto simp: hv' split: if_splits)
    then have "card ?B < card ?A" by (intro psubset_card_mono) simp_all
    then show ?thesis by (intro measures_less) (simp add: bfs_todo_def)
  qed
qed

definition BfsOut :: "range_order \<Rightarrow> DirectedGraph \<Rightarrow> Vertex list \<Rightarrow> Vertex list" where
  "BfsOut \<rho> g initV =
     bfs_loop \<rho> g True 0 initV (fold (\<lambda>v m. AList.update v True m) initV []) initV"

definition BfsIn :: "range_order \<Rightarrow> DirectedGraph \<Rightarrow> Vertex list \<Rightarrow> Vertex list" where
  "BfsIn \<rho> g initV =
     bfs_loop \<rho> g False 0 initV (fold (\<lambda>v m. AList.update v True m) initV []) initV"

definition Bfs :: "range_order \<Rightarrow> DirectedGraph \<Rightarrow> Vertex list \<Rightarrow> bool \<Rightarrow> Vertex list" where
  "Bfs \<rho> g initV out = (if out then BfsOut \<rho> g initV else BfsIn \<rho> g initV)"

section \<open>The loop computes the closure\<close>

definition next_rel :: "DirectedGraph \<Rightarrow> bool \<Rightarrow> (Vertex \<times> Vertex) set" where
  "next_rel g out = (if out then {(a, b). arc g a b} else {(b, a). a \<in> set (In g b)})"

lemma set_bfs_nexts [simp]: "set (bfs_nexts \<rho> g out t cur) = next_rel g out `` {cur}"
  by (auto simp: bfs_nexts_def next_rel_def arc_def)

lemma bfs_loop_closure:
  assumes "{v. get_or False hv v} = set vs"
    and "\<And>x. x \<in> set vs \<Longrightarrow> x \<notin> set queue \<Longrightarrow> next_rel g out `` {x} \<subseteq> set vs \<union> set queue"
  shows "set (bfs_loop \<rho> g out t queue hv vs) = (next_rel g out)\<^sup>* `` (set vs \<union> set queue)"
  using assms
proof (induction \<rho> g out t queue hv vs rule: bfs_loop.induct)
  case (1 \<rho> g out t hv vs)
  then have "next_rel g out `` set vs \<subseteq> set vs" by auto
  then show ?case by (simp add: Image_closed_trancl)
next
  case (2 \<rho> g out t cur queue hv vs)
  let ?R = "next_rel g out"
  define hv' where "hv' = (if get_or False hv cur then hv else AList.update cur True hv)"
  define vs' where "vs' = (if get_or False hv cur then vs else vs @ [cur])"
  define nexts where "nexts = filter (\<lambda>n. \<not> get_or False hv' n) (bfs_nexts \<rho> g out t cur)"
  have hv: "get_or False hv v \<longleftrightarrow> v \<in> set vs" for v using 2(2) by auto
  then have vs': "set vs' = insert cur (set vs)" and hv': "{v. get_or False hv' v} = set vs'"
    by (auto simp: vs'_def hv'_def)
  have nexts: "set nexts = ?R `` {cur} - set vs'"
    using hv' by (auto simp: nexts_def)
  have "set (bfs_loop \<rho> g out (Suc t) (queue @ nexts) hv' vs') = ?R\<^sup>* `` (set vs' \<union> set (queue @ nexts))"
  proof (rule 2(1) [OF refl hv'_def vs'_def nexts_def hv'])
    fix x assume "x \<in> set vs'" "x \<notin> set (queue @ nexts)"
    then show "?R `` {x} \<subseteq> set vs' \<union> set (queue @ nexts)"
      using 2(3) [of x] by (cases "x = cur") (auto simp: vs' nexts)
  qed
  also have "\<dots> = ?R\<^sup>* `` (set vs \<union> set (cur # queue))"
    by (auto simp: vs' nexts intro: converse_rtrancl_into_rtrancl)
  finally show ?case by (simp add: Let_def hv'_def vs'_def nexts_def)
qed

lemma init_visited: "{v. get_or False (fold (\<lambda>v m. AList.update v True m) xs []) v} = set xs"
proof -
  have "get_or False (fold (\<lambda>v m. AList.update v True m) xs m) v \<longleftrightarrow> v \<in> set xs \<or> get_or False m v" for m v
    by (induction xs arbitrary: m) auto
  then show ?thesis by auto
qed

lemma set_Bfs: "set (Bfs \<rho> g initV out) = (next_rel g out)\<^sup>* `` set initV"
  using bfs_loop_closure [OF init_visited, of initV initV g out \<rho> 0]
  by (cases out) (simp_all add: Bfs_def BfsOut_def BfsIn_def)

text \<open>No vertex is reported twice.\<close>

lemma bfs_loop_distinct:
  "\<lbrakk>distinct vs; {v. get_or False hv v} = set vs\<rbrakk> \<Longrightarrow> distinct (bfs_loop \<rho> g out t queue hv vs)"
proof (induction \<rho> g out t queue hv vs rule: bfs_loop.induct)
  case (2 \<rho> g out t cur queue hv vs)
  from 2(3) have hv: "get_or False hv v \<longleftrightarrow> v \<in> set vs" for v by auto
  let ?hv = "if get_or False hv cur then hv else AList.update cur True hv"
  let ?vs = "if get_or False hv cur then vs else vs @ [cur]"
  have "distinct ?vs" "{v. get_or False ?hv v} = set ?vs" using 2(2) by (auto simp: hv)
  then show ?case unfolding bfs_loop.simps Let_def by (rule 2(1) [OF refl refl refl refl])
qed simp

lemma distinct_Bfs: "distinct initV \<Longrightarrow> distinct (Bfs \<rho> g initV out)"
  by (simp add: Bfs_def BfsOut_def BfsIn_def bfs_loop_distinct init_visited)

text \<open>On a graph whose \<open>Ins\<close> is exact, the two directions are converse to each other.\<close>

lemma next_rel_converse: "wf_graph g \<Longrightarrow> next_rel g False = (next_rel g True)\<inverse>"
  by (auto simp: next_rel_def wf_graphD(2))

lemma Bfs_duality:
  "wf_graph g \<Longrightarrow> w \<in> set (Bfs \<rho> g [v] True) \<longleftrightarrow> v \<in> set (Bfs \<rho>' g [w] False)"
  by (simp add: set_Bfs next_rel_converse rtrancl_converse)

end
