(* ===== verification/Consistency_Models.thy ===== *)
theory Consistency_Models
  imports Graph_Search
begin

text \<open>
  The lattice of consistency models and anomalies of \<open>pkg/elle/core/consistency_model.go\<close>.

  The three tables of the source are graphs over strings. Their abstraction is a relation on
  names: \<open>implied_rel\<close> (an anomaly implies another), \<open>model_rel\<close> (a model implies another, under
  canonical names) and \<open>proscribed_rel\<close> (a model proscribes an anomaly). The queries are closures
  of these relations, whatever the order of the range loops that built the graphs.
\<close>

section \<open>Helpers on slices of names\<close>

fun exists_str :: "string \<Rightarrow> string list \<Rightarrow> bool" where
  "exists_str target [] = False"
| "exists_str target (s # ss) = (if s = target then True else exists_str target ss)"

fun hasCommon :: "string list \<Rightarrow> string list \<Rightarrow> bool" where
  "hasCommon [] s2 = False"
| "hasCommon (s # s1) s2 = (if exists_str s s2 then True else hasCommon s1 s2)"

definition slice :: "string list \<Rightarrow> string \<Rightarrow> string list" where
  "slice models model = filter (\<lambda>m. m \<noteq> model) models"

definition go_set :: "string list \<Rightarrow> string list" where
  "go_set ss = fold (\<lambda>s res. if \<not> exists_str s res then res @ [s] else res) ss []"

text \<open>\<open>v.Value.(string)\<close> panics on a vertex that is not a string.\<close>

fun as_string :: "Vertex \<Rightarrow> string option" where
  "as_string (VStr s) = Some s"
| "as_string _ = None"

definition stringSlice :: "Vertex list \<Rightarrow> string list option" where
  "stringSlice vs = mapM as_string vs"

definition mapFunc :: "string list \<Rightarrow> (string \<Rightarrow> string) \<Rightarrow> string list" where
  "mapFunc ss f = map f ss"

section \<open>Names and tables\<close>

text \<open>A map literal stores its entries one after the other: a repeated key keeps the last.\<close>

definition map_literal :: "('k \<times> 'v) list \<Rightarrow> ('k, 'v) gomap" where
  "map_literal kvs = fold (\<lambda>(k, v). AList.update k v) kvs []"

definition vertex_literal :: "(string \<times> string list) list \<Rightarrow> (Vertex, Vertex list) gomap" where
  "vertex_literal kvs = map_literal (map (\<lambda>(k, vs). (VStr k, map VStr vs)) kvs)"

definition canonicalModelNames :: "(string, string) gomap" where
  "canonicalModelNames = map_literal [
     (''consistent-view'', ''PL-2+''), (''conflict-serializable'', ''PL-3''),
     (''cursor-stability'', ''PL-CS''), (''forward-consistent-view'', ''PL-FCV''),
     (''monotonic-snapshot-read'', ''PL-MSR''), (''monotonic-view'', ''PL-2L''),
     (''read-committed'', ''PL-2''), (''read-uncommitted'', ''PL-1''),
     (''repeatable-read'', ''PL-2.99''), (''serializable'', ''PL-3''),
     (''snapshot-isolation'', ''PL-SI''), (''strict-serializable'', ''PL-SS''),
     (''update-serializable'', ''PL-3U'')]"

definition canonical :: "string \<Rightarrow> string" where
  "canonical name = get_or name canonicalModelNames name"

definition canonicalModelName :: "Vertex \<Rightarrow> Vertex option" where
  "canonicalModelName name = do { s \<leftarrow> as_string name; Some (VStr (canonical s)) }"

definition friendlyModelName :: "range_order \<Rightarrow> string \<Rightarrow> string" where
  "friendlyModelName \<rho> name =
     (if name = ''PL-3'' then ''serializable''
      else case List.find (\<lambda>f. get_or '''' canonicalModelNames f = name)
                  (go_range \<rho> (map fst canonicalModelNames)) of
             Some f \<Rightarrow> f
           | None \<Rightarrow> name)"

definition impliedAnomalies_table :: "(string \<times> string list) list" where
  "impliedAnomalies_table = [
     (''G0'', [''G1c'']),
     (''G0-process'', [''G1c-process'', ''G0-realtime'']),
     (''G0-realtime'', [''G1c-realtime'']),
     (''G1a'', [''G1'']),
     (''G1b'', [''G1'']),
     (''G1c'', [''G1'']),
     (''G1c-process'', [''G1-process'', ''G1c-realtime'']),
     (''G-single'', [''G-nonadjacent'', ''GSIb'']),
     (''G-single-process'', [''G-nonadjacent-process'', ''G-single-realtime'']),
     (''G-single-realtime'', [''G-nonadjacent-realtime'']),
     (''G-nonadjacent'', [''G2'']),
     (''G-nonadjacent-process'', [''G2-process'', ''G-nonadjacent-realtime'']),
     (''G-nonadjacent-realtime'', [''G2-realtime'']),
     (''G2-item'', [''G2'']),
     (''G2-item-process'', [''G2-process'', ''G2-item-realtime'']),
     (''G2-item-realtime'', [''G2-realtime'']),
     (''G2-process'', [''G2-realtime'']),
     (''GSIa'', [''GSI'']),
     (''GSIb'', [''GSI'']),
     (''incompatible-order'', [''G1a'']),
     (''dirty-update'', [''G1a''])]"

definition impliedAnomalies :: "range_order \<Rightarrow> DirectedGraph" where
  "impliedAnomalies \<rho> = MapToDirectedGraph \<rho> (vertex_literal impliedAnomalies_table)"

definition Models_table :: "(string \<times> string list) list" where
  "Models_table = [
     (''causal-cerone'', [''read-atomic'']),
     (''consistent-view'', [''cursor-stability'', ''monotonic-view'']),
     (''conflict-serializable'', [''view-serializable'']),
     (''cursor-stability'', [''read-committed'', ''PL-2'']),
     (''forward-consistent-view'', [''consistent-view'', ''PL-1'']),
     (''PL-3'', [''repeatable-read'', ''update-serializable'']),
     (''update-serializable'', [''forward-consistent-view'']),
     (''monotonic-atomic-view'', [''read-committed'']),
     (''monotonic-view'', [''PL-2'']),
     (''monotonic-snapshot-read'', [''PL-2'']),
     (''parallel-snapshot-isolation'', [''causal-cerone'']),
     (''prefix'', [''causal-cerone'']),
     (''read-committed'', [''read-uncommitted'']),
     (''repeatable-read'', [''cursor-stability'', ''monotonic-atomic-view'']),
     (''serializable'', [''repeatable-read'', ''snapshot-isolation'', ''view-serializable'']),
     (''session-serializable'', [''1SR'']),
     (''snapshot-isolation'', [''forward-consistent-view'', ''monotonic-atomic-view'',
        ''monotonic-snapshot-read'', ''parallel-snapshot-isolation'', ''prefix'']),
     (''strict-serializable'', [''PL-3'', ''serializable'', ''linearizable'', ''snapshot-isolation'',
        ''strong-session-serializable'']),
     (''strong-serializable'', [''session-serializable'']),
     (''strong-session-serializable'', [''serializable'']),
     (''strong-session-snapshot-isolation'', [''snapshot-isolation'']),
     (''strong-snapshot-isolation'', [''strong-session-snapshot-isolation'']),
     (''linearizable'', [''sequential'']),
     (''causal'', [''writes-follow-reads'']),
     (''causal'', [''writes-follow-reads'', ''PRAM'']),
     (''PRAM'', [''monotonic-reads'', ''monotonic-writes'', ''read-your-writes''])]"

definition Models :: "range_order \<Rightarrow> DirectedGraph option" where
  "Models \<rho> = MapVertices (sub \<rho> 1) canonicalModelName
     (MapToDirectedGraph (sub \<rho> 0) (vertex_literal Models_table))"

definition directProscribedAnomalies_table :: "(string \<times> string list) list" where
  "directProscribedAnomalies_table = [
     (''causal-cerone'', [''internal'', ''G1a'']),
     (''cursor-stability'', [''G1'', ''G-cursor'']),
     (''monotonic-view'', [''G1'', ''G-monotonic'']),
     (''monotonic-snapshot-read'', [''G1'', ''G-MSR'']),
     (''consistent-view'', [''G1'', ''G-single'']),
     (''forward-consistent-view'', [''G1'', ''G-SIb'']),
     (''parallel-snapshot-isolation'', [''internal'', ''G1a'']),
     (''PL-3'', [''G1'', ''G2'']),
     (''PL-2'', [''G1'']),
     (''PL-1'', [''G0'', ''duplicate-elements'', ''cyclic-versions'']),
     (''prefix'', [''internal'', ''G1a'']),
     (''serializable'', [''internal'']),
     (''snapshot-isolation'', [''internal'', ''G1'', ''G-SI'']),
     (''read-atomic'', [''internal'', ''G1a'']),
     (''repeatable-read'', [''G1'', ''G2-item'']),
     (''strict-serializable'', [''G1'', ''G1c-realtime'', ''G2-realtime'']),
     (''strong-session-snapshot-isolation'', [''G-nonadjacent'']),
     (''strong-session-serializable'', [''G1c-process'', ''G2-process'']),
     (''update-serializable'', [''G1'', ''G-update''])]"

definition directProscribedAnomalies :: "range_order \<Rightarrow> DirectedGraph option" where
  "directProscribedAnomalies \<rho> = MapVertices (sub \<rho> 1) canonicalModelName
     (MapToDirectedGraph (sub \<rho> 0) (vertex_literal directProscribedAnomalies_table))"

section \<open>Queries\<close>

definition AllAnomaliesImplying :: "range_order \<Rightarrow> string list \<Rightarrow> string list option" where
  "AllAnomaliesImplying \<rho> anomalies = do {
     let initV = map VStr anomalies;
     res \<leftarrow> stringSlice (Bfs (sub \<rho> 1) (impliedAnomalies (sub \<rho> 0)) initV False);
     Some (go_set res) }"

definition AllImpliedAnomalies :: "range_order \<Rightarrow> string list \<Rightarrow> string list option" where
  "AllImpliedAnomalies \<rho> anomalies = do {
     let initV = map VStr anomalies;
     res \<leftarrow> stringSlice (Bfs (sub \<rho> 1) (impliedAnomalies (sub \<rho> 0)) initV True);
     Some (go_set res) }"

definition allImpliedModels :: "range_order \<Rightarrow> string list \<Rightarrow> string list option" where
  "allImpliedModels \<rho> models = do {
     let initV = map VStr models;
     g \<leftarrow> Models (sub \<rho> 0);
     res \<leftarrow> stringSlice (Bfs (sub \<rho> 1) g initV True);
     Some (go_set res) }"

definition allImpossibleModels :: "range_order \<Rightarrow> string list \<Rightarrow> string list option" where
  "allImpossibleModels \<rho> models = do {
     let initV = map VStr models;
     g \<leftarrow> Models (sub \<rho> 0);
     res \<leftarrow> mapM as_string (Bfs (sub \<rho> 1) g initV False);
     Some (go_set res) }"

definition mostModel :: "range_order \<Rightarrow> string list \<Rightarrow> bool \<Rightarrow> string list option" where
  "mostModel \<rho> ms isOut = do {
     let cnames = go_set (map canonical ms);
     g \<leftarrow> Models (sub \<rho> 0);
     foldM (\<lambda>(i, model) res. do {
         reach \<leftarrow> stringSlice (Bfs (sub \<rho> i) g [VStr model] isOut);
         Some (if hasCommon (slice res model) reach then slice res model else res) })
       (enumerate 1 cnames) cnames }"

definition strongestModels :: "range_order \<Rightarrow> string list \<Rightarrow> string list option" where
  "strongestModels \<rho> ms = mostModel \<rho> ms False"

definition weakestModels :: "range_order \<Rightarrow> string list \<Rightarrow> string list option" where
  "weakestModels \<rho> ms = mostModel \<rho> ms True"

definition AnomaliesProhibitedBy :: "range_order \<Rightarrow> string list \<Rightarrow> string list option" where
  "AnomaliesProhibitedBy \<rho> models = do {
     cnames \<leftarrow> allImpliedModels (sub \<rho> 0) (map canonical models);
     g \<leftarrow> directProscribedAnomalies (sub \<rho> 1);
     anomalies \<leftarrow> foldM (\<lambda>(i, model) anomalies. do {
         as \<leftarrow> stringSlice (Out (sub \<rho> i) g (VStr model));
         Some (anomalies @ as) }) (enumerate 3 cnames) [];
     AllAnomaliesImplying (sub \<rho> 2) anomalies }"

definition anomaliesImpossibleModels :: "range_order \<Rightarrow> string list \<Rightarrow> string list option" where
  "anomaliesImpossibleModels \<rho> anomalies = do {
     as \<leftarrow> AllImpliedAnomalies (sub \<rho> 0) anomalies;
     g \<leftarrow> directProscribedAnomalies (sub \<rho> 1);
     allAnomalies \<leftarrow> foldM (\<lambda>anomaly allAnomalies. do {
         ms \<leftarrow> stringSlice (In g (VStr anomaly));
         Some (allAnomalies @ ms) }) as [];
     allImpossibleModels (sub \<rho> 2) allAnomalies }"

definition FriendlyBoundary :: "range_order \<Rightarrow> string list \<Rightarrow> (string list \<times> string list) option" where
  "FriendlyBoundary \<rho> anomalies = do {
     impossible \<leftarrow> anomaliesImpossibleModels (sub \<rho> 0) anomalies;
     not \<leftarrow> weakestModels (sub \<rho> 1) impossible;
     let alsoNot = fold (\<lambda>n also. slice also n) not (go_set impossible);
     Some (go_set (mapFunc not (friendlyModelName (sub \<rho> 2))),
           go_set (mapFunc alsoNot (friendlyModelName (sub \<rho> 3)))) }"

section \<open>The tables as relations\<close>

definition table_rel :: "(string \<times> string list) list \<Rightarrow> (string \<times> string) set" where
  "table_rel kvs = {(a, b). b \<in> set (get_or [] (map_literal kvs) a)}"

definition implied_rel :: "(string \<times> string) set" where
  "implied_rel = table_rel impliedAnomalies_table"

definition model_rel :: "(string \<times> string) set" where
  "model_rel = map_prod canonical canonical ` table_rel Models_table"

definition proscribed_rel :: "(string \<times> string) set" where
  "proscribed_rel = map_prod canonical canonical ` table_rel directProscribedAnomalies_table"

lemma exists_str_iff [simp]: "exists_str s ss \<longleftrightarrow> s \<in> set ss"
  by (induction ss) auto

lemma hasCommon_iff [simp]: "hasCommon s1 s2 \<longleftrightarrow> set s1 \<inter> set s2 \<noteq> {}"
  by (induction s1) auto

lemma set_slice [simp]: "set (slice ms m) = set ms - {m}"
  by (auto simp: slice_def)

lemma go_set_props: "set (go_set ss) = set ss" "distinct (go_set ss)"
proof -
  have "set (fold (\<lambda>s res. if \<not> exists_str s res then res @ [s] else res) ss acc) = set ss \<union> set acc"
    and "distinct acc \<Longrightarrow> distinct (fold (\<lambda>s res. if \<not> exists_str s res then res @ [s] else res) ss acc)" for acc
    by (induction ss arbitrary: acc) auto
  then show "set (go_set ss) = set ss" "distinct (go_set ss)" by (simp_all add: go_set_def)
qed

lemma stringSlice_VStr: "set vs \<subseteq> range VStr \<Longrightarrow> \<exists>ss. stringSlice vs = Some ss \<and> set vs = VStr ` set ss"
proof (induction vs)
  case (Cons v vs)
  then obtain s ss where "v = VStr s" "stringSlice vs = Some ss" "set vs = VStr ` set ss" by auto
  then show ?case by (intro exI [of _ "s # ss"]) (simp add: stringSlice_def)
qed (simp add: stringSlice_def)

lemma map_of_map_literal: "map_of (map_literal kvs) k = map_of (rev kvs) k"
  by (induction kvs rule: rev_induct) (auto simp: map_literal_def)

lemma get_or_vertex_literal:
  "get_or [] (vertex_literal kvs) v =
     (case v of VStr s \<Rightarrow> map VStr (get_or [] (map_literal kvs) s) | _ \<Rightarrow> [])"
proof -
  have "map_of (map (\<lambda>(k, vs). (VStr k, map VStr vs)) xs) v =
      (case v of VStr s \<Rightarrow> map_option (map VStr) (map_of xs s) | _ \<Rightarrow> None)"
    for xs :: "(string \<times> string list) list"
    by (induction xs) (auto split: Vertex.splits)
  then show ?thesis
    by (auto simp: get_or_def vertex_literal_def map_of_map_literal rev_map split: Vertex.splits option.splits)
qed

lemma edges_table:
  "edges (MapToDirectedGraph \<rho> (vertex_literal kvs)) = (\<lambda>(a, b). (VStr a, VStr b, Empty)) ` table_rel kvs"
  by (auto simp: edges_MapToDirectedGraph get_or_vertex_literal table_rel_def split: Vertex.splits)

text \<open>A graph over strings that represents a relation on names.\<close>

definition represents :: "DirectedGraph \<Rightarrow> (string \<times> string) set \<Rightarrow> bool" where
  "represents g R \<longleftrightarrow> wf_graph g \<and> edges g = (\<lambda>(a, b). (VStr a, VStr b, Empty)) ` R"

lemma represents_arc:
  "represents g R \<Longrightarrow> arc g x y \<longleftrightarrow> (\<exists>a b. x = VStr a \<and> y = VStr b \<and> (a, b) \<in> R)"
  by (auto simp: represents_def wf_arc_iff simp del: in_edges)

lemma represents_implied: "represents (impliedAnomalies \<rho>) implied_rel"
  by (simp add: represents_def impliedAnomalies_def wf_MapToDirectedGraph edges_table implied_rel_def)

lemma represents_canonical:
  "\<exists>g. MapVertices \<rho>' canonicalModelName (MapToDirectedGraph \<rho> (vertex_literal kvs)) = Some g \<and>
     represents g (map_prod canonical canonical ` table_rel kvs)"
proof -
  let ?g = "MapToDirectedGraph \<rho> (vertex_literal kvs)"
  let ?h = "\<lambda>v. case v of VStr s \<Rightarrow> VStr (canonical s) | _ \<Rightarrow> VNil"
  have keys: "v \<in> range VStr" if "v \<in> keys (Outs ?g)" for v
    using that
    by (auto simp: MapToDirectedGraph_def keys_link_edges get_or_vertex_literal split: Vertex.splits)
  have "canonicalModelName v = Some (?h v)" if "v \<in> keys (Outs ?g)" for v
    using keys [OF that] by (auto simp: canonicalModelName_def)
  from edges_MapVertices [OF wf_graphD(1) [OF wf_MapToDirectedGraph], of \<rho> "vertex_literal kvs" canonicalModelName ?h \<rho>', OF this]
  show ?thesis by (auto simp: represents_def edges_table image_image case_prod_unfold)
qed

section \<open>The queries are closures\<close>

lemma represents_next:
  assumes "represents g R"
  shows "next_rel g True = map_prod VStr VStr ` R" "next_rel g False = map_prod VStr VStr ` (R\<inverse>)"
proof -
  show *: "next_rel g True = map_prod VStr VStr ` R"
    by (auto simp: next_rel_def represents_arc [OF assms])
  show "next_rel g False = map_prod VStr VStr ` (R\<inverse>)"
    using assms by (subst next_rel_converse) (auto simp: represents_def *)
qed

lemma rtrancl_VStr: "(VStr a, w) \<in> (map_prod VStr VStr ` R)\<^sup>* \<longleftrightarrow> (\<exists>b. w = VStr b \<and> (a, b) \<in> R\<^sup>*)"
proof
  show "(VStr a, w) \<in> (map_prod VStr VStr ` R)\<^sup>* \<Longrightarrow> \<exists>b. w = VStr b \<and> (a, b) \<in> R\<^sup>*"
    by (induction rule: rtrancl_induct) (auto intro: rtrancl_into_rtrancl)
  have "(a, b) \<in> R\<^sup>* \<Longrightarrow> (VStr a, VStr b) \<in> (map_prod VStr VStr ` R)\<^sup>*" for b
    by (induction rule: rtrancl_induct) (auto intro: rtrancl_into_rtrancl)
  then show "\<exists>b. w = VStr b \<and> (a, b) \<in> R\<^sup>* \<Longrightarrow> (VStr a, w) \<in> (map_prod VStr VStr ` R)\<^sup>*" by auto
qed

lemma Bfs_strings:
  assumes "represents g R"
  shows "\<exists>ss. stringSlice (Bfs \<rho> g (map VStr xs) out) = Some ss \<and>
    set ss = (if out then R\<^sup>* else (R\<^sup>*)\<inverse>) `` set xs"
proof -
  have closure: "(map_prod VStr VStr ` Q)\<^sup>* `` set (map VStr xs) = VStr ` (Q\<^sup>* `` set xs)"
    for Q :: "(string \<times> string) set"
    by (rule set_eqI) (auto simp: Image_iff image_iff rtrancl_VStr)
  have bfs: "set (Bfs \<rho> g (map VStr xs) out) = VStr ` ((if out then R\<^sup>* else (R\<^sup>*)\<inverse>) `` set xs)"
    by (cases out) (simp_all only: set_Bfs represents_next [OF assms] closure rtrancl_converse if_True if_False)
  then obtain ss where ss: "stringSlice (Bfs \<rho> g (map VStr xs) out) = Some ss"
      "VStr ` set ss = VStr ` ((if out then R\<^sup>* else (R\<^sup>*)\<inverse>) `` set xs)"
    using stringSlice_VStr [of "Bfs \<rho> g (map VStr xs) out"] by (metis image_mono top_greatest)
  moreover have "inj VStr" by (simp add: inj_on_def)
  ultimately show ?thesis by (metis inj_image_eq_iff)
qed

lemma Models_represents: "\<exists>g. Models \<rho> = Some g \<and> represents g model_rel"
  unfolding Models_def model_rel_def by (rule represents_canonical)

lemma directProscribed_represents: "\<exists>g. directProscribedAnomalies \<rho> = Some g \<and> represents g proscribed_rel"
  unfolding directProscribedAnomalies_def proscribed_rel_def by (rule represents_canonical)

lemma AllAnomaliesImplying_spec:
  "\<exists>res. AllAnomaliesImplying \<rho> as = Some res \<and> distinct res \<and>
     set res = {a. \<exists>x \<in> set as. (a, x) \<in> implied_rel\<^sup>*}"
  using Bfs_strings [OF represents_implied, of "sub \<rho> 1" "sub \<rho> 0" as False]
  by (auto simp: AllAnomaliesImplying_def go_set_props)

lemma AllImpliedAnomalies_spec:
  "\<exists>res. AllImpliedAnomalies \<rho> as = Some res \<and> distinct res \<and> set res = implied_rel\<^sup>* `` set as"
  using Bfs_strings [OF represents_implied, of "sub \<rho> 1" "sub \<rho> 0" as True]
  by (auto simp: AllImpliedAnomalies_def go_set_props)

lemma allImpliedModels_spec:
  "\<exists>res. allImpliedModels \<rho> ms = Some res \<and> distinct res \<and> set res = model_rel\<^sup>* `` set ms"
proof -
  obtain g where g: "Models (sub \<rho> 0) = Some g" "represents g model_rel" using Models_represents by blast
  with Bfs_strings [OF g(2), of "sub \<rho> 1" ms True] show ?thesis
    by (auto simp: allImpliedModels_def go_set_props)
qed

lemma allImpossibleModels_spec:
  "\<exists>res. allImpossibleModels \<rho> ms = Some res \<and> distinct res \<and>
     set res = {m. \<exists>n \<in> set ms. (m, n) \<in> model_rel\<^sup>*}"
proof -
  obtain g where g: "Models (sub \<rho> 0) = Some g" "represents g model_rel" using Models_represents by blast
  with Bfs_strings [OF g(2), of "sub \<rho> 1" ms False] show ?thesis
    by (auto simp: allImpossibleModels_def go_set_props stringSlice_def)
qed

lemma Out_strings:
  "represents g R \<Longrightarrow> \<exists>ss. stringSlice (Out \<rho> g (VStr m)) = Some ss \<and> set ss = R `` {m}"
  using stringSlice_VStr [of "Out \<rho> g (VStr m)"]
  by (fastforce simp: represents_arc)

lemma In_strings:
  assumes "represents g R"
  shows "\<exists>ss. stringSlice (In g (VStr a)) = Some ss \<and> set ss = {m. (m, a) \<in> R}"
proof -
  have "wf_graph g" using assms by (simp add: represents_def)
  then have "set (In g (VStr a)) = VStr ` {m. (m, a) \<in> R}"
    by (auto simp: wf_graphD(2) represents_arc [OF assms])
  moreover from this obtain ss where "stringSlice (In g (VStr a)) = Some ss" "set (In g (VStr a)) = VStr ` set ss"
    using stringSlice_VStr [of "In g (VStr a)"] by blast
  moreover have "inj VStr" by (simp add: inj_on_def)
  ultimately show ?thesis by (metis inj_image_eq_iff)
qed

lemma AnomaliesProhibitedBy_spec:
  "\<exists>res. AnomaliesProhibitedBy \<rho> models = Some res \<and> distinct res \<and>
     set res = {a. \<exists>m \<in> set models. \<exists>n x. (canonical m, n) \<in> model_rel\<^sup>* \<and>
                     (n, x) \<in> proscribed_rel \<and> (a, x) \<in> implied_rel\<^sup>*}"
proof -
  obtain cnames where c: "allImpliedModels (sub \<rho> 0) (map canonical models) = Some cnames"
      "set cnames = model_rel\<^sup>* `` set (map canonical models)"
    using allImpliedModels_spec by blast
  obtain g where g: "directProscribedAnomalies (sub \<rho> 1) = Some g" "represents g proscribed_rel"
    using directProscribed_represents by blast
  let ?f = "\<lambda>(i, model) anomalies. do { as \<leftarrow> stringSlice (Out (sub \<rho> i) g (VStr model)); Some (anomalies @ as) }"
  have "\<exists>ys. ?f x acc = Some (acc @ ys) \<and> set ys = proscribed_rel `` {snd x}" for x acc
    using Out_strings [OF g(2), of "sub \<rho> (fst x)" "snd x"] by (cases x) auto
  then obtain as where as: "foldM ?f (enumerate 3 cnames) [] = Some as"
      "set as = (\<Union>x \<in> set (enumerate 3 cnames). proscribed_rel `` {snd x})"
    using foldM_collect [of "enumerate 3 cnames" ?f "\<lambda>x. proscribed_rel `` {snd x}" "[]"] by auto
  have "set as = proscribed_rel `` set cnames"
    using as(2) set_enumerate_snd [of 3 cnames] by auto (metis Image_singleton_iff UN_I image_eqI ex_enumerate snd_conv)
  moreover obtain res where "AllAnomaliesImplying (sub \<rho> 2) as = Some res" "distinct res"
      "set res = {a. \<exists>x \<in> set as. (a, x) \<in> implied_rel\<^sup>*}"
    using AllAnomaliesImplying_spec by blast
  ultimately show ?thesis using c g as(1) by (auto simp: AnomaliesProhibitedBy_def)
qed

lemma anomaliesImpossibleModels_spec:
  "\<exists>res. anomaliesImpossibleModels \<rho> anomalies = Some res \<and> distinct res \<and>
     set res = {m. \<exists>a \<in> set anomalies. \<exists>n x. (m, n) \<in> model_rel\<^sup>* \<and>
                     (n, x) \<in> proscribed_rel \<and> (a, x) \<in> implied_rel\<^sup>*}"
proof -
  obtain as where as: "AllImpliedAnomalies (sub \<rho> 0) anomalies = Some as"
      "set as = implied_rel\<^sup>* `` set anomalies"
    using AllImpliedAnomalies_spec by blast
  obtain g where g: "directProscribedAnomalies (sub \<rho> 1) = Some g" "represents g proscribed_rel"
    using directProscribed_represents by blast
  let ?f = "\<lambda>anomaly all. do { ms \<leftarrow> stringSlice (In g (VStr anomaly)); Some (all @ ms) }"
  have "\<exists>ys. ?f x acc = Some (acc @ ys) \<and> set ys = {m. (m, x) \<in> proscribed_rel}" for x acc
    using In_strings [OF g(2), of x] by auto
  then obtain ms where ms: "foldM ?f as [] = Some ms" "set ms = (\<Union>x \<in> set as. {m. (m, x) \<in> proscribed_rel})"
    using foldM_collect [of as ?f "\<lambda>x. {m. (m, x) \<in> proscribed_rel}" "[]"] by auto
  moreover obtain res where "allImpossibleModels (sub \<rho> 2) ms = Some res" "distinct res"
      "set res = {m. \<exists>n \<in> set ms. (m, n) \<in> model_rel\<^sup>*}"
    using allImpossibleModels_spec by blast
  ultimately show ?thesis using as g by (auto simp: anomaliesImpossibleModels_def)
qed

section \<open>Extremal models\<close>

text \<open>
  \<open>mostModel\<close> drops, one name after the other, every model that reaches another model still in
  the list. What is left is an antichain, and every name of the input reaches a name of it.
\<close>

definition drop_dominated :: "(string \<times> string) set \<Rightarrow> string \<Rightarrow> string list \<Rightarrow> string list" where
  "drop_dominated Q m res = (if set (slice res m) \<inter> Q `` {m} \<noteq> {} then slice res m else res)"

lemma drop_dominated_fold:
  assumes Q: "refl Q" "trans Q" and "set ms \<subseteq> S"
    and res: "\<forall>m \<in> S. \<exists>r \<in> set res. (m, r) \<in> Q" "set res \<subseteq> S"
    and fin: "\<forall>r \<in> set res - set ms. \<forall>r' \<in> set res. r' \<noteq> r \<longrightarrow> (r, r') \<notin> Q"
  shows "let out = fold (drop_dominated Q) ms res in
     set out \<subseteq> S \<and> (\<forall>m \<in> S. \<exists>r \<in> set out. (m, r) \<in> Q) \<and>
     (\<forall>r \<in> set out. \<forall>r' \<in> set out. r' \<noteq> r \<longrightarrow> (r, r') \<notin> Q)"
  using assms(3-)
proof (induction ms arbitrary: res)
  case (Cons m ms)
  let ?res = "drop_dominated Q m res"
  have sub: "set ?res \<subseteq> set res" by (auto simp: drop_dominated_def)
  have "\<forall>x \<in> S. \<exists>r \<in> set ?res. (x, r) \<in> Q"
  proof
    fix x assume "x \<in> S"
    with Cons.prems(2) obtain r where r: "r \<in> set res" "(x, r) \<in> Q" by blast
    show "\<exists>r \<in> set ?res. (x, r) \<in> Q"
    proof (cases "r \<in> set ?res")
      case False
      with r(1) have "r = m" and ex: "set (slice res m) \<inter> Q `` {m} \<noteq> {}"
        by (auto simp: drop_dominated_def split: if_splits)
      then obtain n where "n \<in> set (slice res m)" "(m, n) \<in> Q" by auto
      with r(2) \<open>r = m\<close> ex show ?thesis using transD [OF Q(2)] by (auto simp: drop_dominated_def)
    qed (use r in blast)
  qed
  moreover have "\<forall>r \<in> set ?res - set ms. \<forall>r' \<in> set ?res. r' \<noteq> r \<longrightarrow> (r, r') \<notin> Q"
  proof (intro ballI impI)
    fix r r' assume r: "r \<in> set ?res - set ms" "r' \<in> set ?res" "r' \<noteq> r"
    show "(r, r') \<notin> Q"
    proof (cases "r = m")
      case True
      with r show ?thesis by (auto simp: drop_dominated_def split: if_splits)
    qed (use Cons.prems(4) r sub in auto)
  qed
  moreover have "set ms \<subseteq> S" "set ?res \<subseteq> S" using Cons.prems(1,3) sub by auto
  ultimately show ?case unfolding fold.simps comp_apply using Cons.IH [of ?res] by blast
qed (simp add: Let_def)

lemma mostModel_spec:
  fixes isOut :: bool
  defines "Q \<equiv> if isOut then model_rel\<^sup>* else (model_rel\<^sup>*)\<inverse>"
  shows "\<exists>res. mostModel \<rho> ms isOut = Some res \<and> set res \<subseteq> canonical ` set ms \<and>
    (\<forall>m \<in> set ms. \<exists>r \<in> set res. (canonical m, r) \<in> Q) \<and>
    (\<forall>r \<in> set res. \<forall>r' \<in> set res. r' \<noteq> r \<longrightarrow> (r, r') \<notin> Q)"
proof -
  obtain g where g: "Models (sub \<rho> 0) = Some g" "represents g model_rel" using Models_represents by blast
  let ?cs = "go_set (map canonical ms)"
  let ?f = "\<lambda>(i, model) res. do { reach \<leftarrow> stringSlice (Bfs (sub \<rho> i) g [VStr model] isOut);
      Some (if hasCommon (slice res model) reach then slice res model else res) }"
  have "?f x res = Some (drop_dominated Q (snd x) res)" for x res
  proof -
    obtain ss where "stringSlice (Bfs (sub \<rho> (fst x)) g [VStr (snd x)] isOut) = Some ss" "set ss = Q `` {snd x}"
      using Bfs_strings [OF g(2), of "sub \<rho> (fst x)" "[snd x]" isOut] by (auto simp: Q_def)
    then show ?thesis by (simp add: drop_dominated_def case_prod_unfold del: set_slice)
  qed
  then have "foldM ?f (enumerate 1 ?cs) ?cs = Some (fold (drop_dominated Q \<circ> snd) (enumerate 1 ?cs) ?cs)"
    by (intro foldM_total) auto
  also have "fold (drop_dominated Q \<circ> snd) (enumerate 1 ?cs) ?cs = fold (drop_dominated Q) ?cs ?cs"
    by (metis fold_map map_snd_enumerate)
  finally have run: "mostModel \<rho> ms isOut = Some (fold (drop_dominated Q) ?cs ?cs)"
    using g(1) by (simp add: mostModel_def Let_def)
  have "refl Q" "trans Q" by (auto simp: Q_def refl_rtrancl trans_rtrancl)
  from drop_dominated_fold [OF this, of ?cs "set ?cs" ?cs] reflD [OF this(1)] run show ?thesis
    by (auto simp: Let_def go_set_props)
qed

lemma slice_fold: "set (fold (\<lambda>n also. slice also n) ns xs) = set xs - set ns"
  by (induction ns arbitrary: xs) auto

text \<open>
  The two halves of a boundary: the weakest models an anomaly rules out, and the others it rules
  out. They come from the same set of impossible models, which are all canonical.
\<close>

lemma FriendlyBoundary_spec:
  "\<exists>impossible not. anomaliesImpossibleModels (sub \<rho> 0) anomalies = Some impossible \<and>
     weakestModels (sub \<rho> 1) impossible = Some not \<and>
     (\<exists>ns an. FriendlyBoundary \<rho> anomalies = Some (ns, an) \<and> distinct ns \<and> distinct an \<and>
       set ns = friendlyModelName (sub \<rho> 2) ` set not \<and>
       set an = friendlyModelName (sub \<rho> 3) ` (set impossible - set not))"
proof -
  obtain imp where imp: "anomaliesImpossibleModels (sub \<rho> 0) anomalies = Some imp"
    using anomaliesImpossibleModels_spec by blast
  obtain nots where nots: "weakestModels (sub \<rho> 1) imp = Some nots"
    using mostModel_spec [of "sub \<rho> 1" imp True] by (auto simp: weakestModels_def)
  with imp show ?thesis
    by (simp add: FriendlyBoundary_def go_set_props slice_fold mapFunc_def)
qed

section \<open>The duality of the queries and the boundary\<close>

lemma table_rel_list: "table_rel kvs = {(a, b). \<exists>bs. map_of (rev kvs) a = Some bs \<and> b \<in> set bs}"
  by (auto simp: table_rel_def get_or_def map_of_map_literal split: option.splits) (metis option.inject)

lemma table_rel_sub: "table_rel kvs \<subseteq> {(a, b). \<exists>bs. (a, bs) \<in> set kvs \<and> b \<in> set bs}"
  by (auto simp: table_rel_list dest!: map_of_SomeD)

lemma proscribed_G_SI: "(''PL-SI'', ''G-SI'') \<in> proscribed_rel"
proof -
  have "(''snapshot-isolation'', ''G-SI'') \<in> table_rel directProscribedAnomalies_table"
    unfolding table_rel_list directProscribedAnomalies_table_def by simp
  moreover have "canonical ''snapshot-isolation'' = ''PL-SI''" "canonical ''G-SI'' = ''G-SI''"
    by (simp_all add: canonical_def canonicalModelNames_def map_literal_def)
  ultimately show ?thesis unfolding proscribed_rel_def by force
qed

lemma GSI_not_proscribed: "(n, x) \<in> proscribed_rel \<Longrightarrow> x \<notin> {''GSIb'', ''GSI''}"
proof -
  have "\<forall>(k, vs) \<in> set directProscribedAnomalies_table. \<forall>v \<in> set vs. canonical v \<notin> {''GSIb'', ''GSI''}"
    unfolding directProscribedAnomalies_table_def
    by (simp add: canonical_def canonicalModelNames_def map_literal_def)
  then show "(n, x) \<in> proscribed_rel \<Longrightarrow> x \<notin> {''GSIb'', ''GSI''}"
    using table_rel_sub [of directProscribedAnomalies_table] by (fastforce simp: proscribed_rel_def)
qed

lemma GSIb_implies: "(''GSIb'', x) \<in> implied_rel\<^sup>* \<Longrightarrow> x \<in> {''GSIb'', ''GSI''}"
proof (induction rule: rtrancl_induct)
  case (step y z)
  have "\<forall>(k, vs) \<in> set impliedAnomalies_table. k \<in> {''GSIb'', ''GSI''} \<longrightarrow> vs = [''GSI'']"
    by (simp add: impliedAnomalies_table_def)
  then show ?case using step table_rel_sub [of impliedAnomalies_table] by (fastforce simp: implied_rel_def)
qed simp

text \<open>In every order of the range loops, the anomalies prohibited by snapshot isolation contain
  \<open>G-SI\<close> but not \<open>GSIb\<close>: the table of implied anomalies spells the two families of names
  differently from the table of proscribed ones, so the implication never reaches them.\<close>

theorem snapshot_isolation_misses_GSIb:
  "\<exists>res. AnomaliesProhibitedBy \<rho> [''snapshot-isolation''] = Some res \<and> ''G-SI'' \<in> set res \<and> ''GSIb'' \<notin> set res"
proof -
  obtain res where res: "AnomaliesProhibitedBy \<rho> [''snapshot-isolation''] = Some res"
    "set res = {a. \<exists>m \<in> set [''snapshot-isolation'']. \<exists>n x. (canonical m, n) \<in> model_rel\<^sup>* \<and>
                     (n, x) \<in> proscribed_rel \<and> (a, x) \<in> implied_rel\<^sup>*}"
    using AnomaliesProhibitedBy_spec by blast
  have "canonical ''snapshot-isolation'' = ''PL-SI''"
    by (simp add: canonical_def canonicalModelNames_def map_literal_def)
  then have "''G-SI'' \<in> set res" using res(2) proscribed_G_SI by auto
  moreover have "''GSIb'' \<notin> set res" using res(2) GSIb_implies GSI_not_proscribed by blast
  ultimately show ?thesis using res(1) by blast
qed

text \<open>The two queries of the checker agree: an anomaly is prohibited by some of the requested
  models exactly when one of these models, under its canonical name, is among the models that the
  anomaly makes impossible. Neither query panics, whatever the order of the range loops.\<close>

theorem prohibited_impossible_duality:
  "\<exists>prohibited impossible.
     AnomaliesProhibitedBy \<rho> models = Some prohibited \<and>
     anomaliesImpossibleModels \<rho>' [a] = Some impossible \<and>
     (a \<in> set prohibited \<longleftrightarrow> (\<exists>m \<in> set models. canonical m \<in> set impossible))"
  using AnomaliesProhibitedBy_spec [of \<rho> models] anomaliesImpossibleModels_spec [of \<rho>' "[a]"] by auto

text \<open>\<open>weakestModels\<close> returns a boundary of its input: names of the input only, every model of the
  input implies one of them, and none of them implies another.\<close>

theorem weakest_models_boundary:
  "\<exists>res. weakestModels \<rho> ms = Some res \<and> set res \<subseteq> canonical ` set ms \<and>
    (\<forall>m \<in> set ms. \<exists>r \<in> set res. (canonical m, r) \<in> model_rel\<^sup>*) \<and>
    (\<forall>r \<in> set res. \<forall>r' \<in> set res. (r, r') \<in> model_rel\<^sup>* \<longrightarrow> r = r')"
  using mostModel_spec [of \<rho> ms True] unfolding weakestModels_def by (simp, metis)

theorem weakest_models_boundary_witness:
  "\<exists>res. weakestModels fifo [''serializable'', ''conflict-serializable''] = Some res \<and> set res = {''PL-3''}"
proof -
  have "canonical ''serializable'' = ''PL-3''" "canonical ''conflict-serializable'' = ''PL-3''"
    by (simp_all add: canonical_def canonicalModelNames_def map_literal_def)
  then show ?thesis
    using weakest_models_boundary [of fifo "[''serializable'', ''conflict-serializable'']"] by auto
qed

end
