(* ===== verification/Regexp.thy ===== *)
theory Regexp
  imports Prelude
begin

text \<open>
  The part of Go's \<open>regexp\<close> package that the parser of Elle histories uses. A match is the one a
  backtracking search finds first: \<open>run\<close> lists every way to match at the start of a text, in the order
  of preference, each with the text that is left and the submatches; \<open>FindStringSubmatch\<close> takes the first
  one at the leftmost position that has any. An iteration of a loop that consumes nothing is not
  repeated; none of the patterns of the program has one.
\<close>

section \<open>Patterns and matching\<close>

datatype Pat =
    Cls "char \<Rightarrow> bool"
  | Cat Pat Pat
  | Alt Pat Pat
  | Many bool Pat
  | Grp nat Pat

type_synonym Submatches = "nat \<Rightarrow> string option"

function run :: "Pat \<Rightarrow> string \<Rightarrow> Submatches \<Rightarrow> (string \<times> Submatches) list" where
  "run (Cls P) s c = (case s of x # t \<Rightarrow> if P x then [(t, c)] else [] | [] \<Rightarrow> [])"
| "run (Cat a b) s c = concat (map (\<lambda>(t, c). run b t c) (run a s c))"
| "run (Alt a b) s c = run a s c @ run b s c"
| "run (Many greedy a) s c =
     (let more = concat (map (\<lambda>(t, c). if length t < length s then run (Many greedy a) t c else []) (run a s c))
      in if greedy then more @ [(s, c)] else (s, c) # more)"
| "run (Grp i a) s c = map (\<lambda>(t, c). (t, c(i := Some (take (length s - length t) s)))) (run a s c)"
  by pat_completeness auto
termination
  by (relation "measures [\<lambda>(p, s, c). size p, \<lambda>(p, s, c). length s]") auto

lemmas run_Many = run.simps(4)

declare run.simps(4) [simp del]

text \<open>\<open>a+\<close> is one iteration followed by a loop.\<close>

definition Some_of :: "Pat \<Rightarrow> Pat" where
  "Some_of a = Cat a (Many True a)"

definition Chr :: "char \<Rightarrow> Pat" where
  "Chr x = Cls (\<lambda>y. y = x)"

fun Lit :: "string \<Rightarrow> Pat \<Rightarrow> Pat" where
  "Lit [] p = p"
| "Lit (x # xs) p = Cat (Chr x) (Lit xs p)"

text \<open>The classes \<open>.\<close>, \<open>\s\<close>, \<open>[0-9]\<close>, \<open>\w\<close> and \<open>[a-zA-Z]\<close>.\<close>

definition is_dot :: "char \<Rightarrow> bool" where
  "is_dot x \<longleftrightarrow> x \<noteq> CHR 0x0A"

definition is_blank :: "char \<Rightarrow> bool" where
  "is_blank x \<longleftrightarrow> x \<in> {CHR '' '', CHR 0x09, CHR 0x0A, CHR 0x0C, CHR 0x0D}"

definition is_digit :: "char \<Rightarrow> bool" where
  "is_digit x \<longleftrightarrow> 48 \<le> (of_char x :: nat) \<and> (of_char x :: nat) \<le> 57"

definition is_letter :: "char \<Rightarrow> bool" where
  "is_letter x \<longleftrightarrow> 65 \<le> (of_char x :: nat) \<and> (of_char x :: nat) \<le> 90 \<or> 97 \<le> (of_char x :: nat) \<and> (of_char x :: nat) \<le> 122"

definition is_word :: "char \<Rightarrow> bool" where
  "is_word x \<longleftrightarrow> is_digit x \<or> is_letter x \<or> x = CHR ''_''"

section \<open>Searching\<close>

text \<open>Submatch 0 is the whole match. The result carries the text after the match.\<close>

fun search :: "Pat \<Rightarrow> string \<Rightarrow> (Submatches \<times> string) option" where
  "search p s =
     (case run p s (\<lambda>_. None) of
        (t, c) # _ \<Rightarrow> Some (c(0 := Some (take (length s - length t) s)), t)
      | [] \<Rightarrow> (case s of [] \<Rightarrow> None | x # s' \<Rightarrow> search p s'))"

declare search.simps [simp del]

definition FindStringSubmatch :: "Pat \<Rightarrow> string \<Rightarrow> Submatches option" where
  "FindStringSubmatch p s = map_option fst (search p s)"

text \<open>A submatch that took no part in the match reads as the empty string.\<close>

definition submatch :: "Submatches \<Rightarrow> nat \<Rightarrow> string" where
  "submatch c i = (case c i of None \<Rightarrow> '''' | Some s \<Rightarrow> s)"

text \<open>The matches of a pattern that does not match the empty string, from left to right.\<close>

function FindAllStringSubmatch :: "Pat \<Rightarrow> string \<Rightarrow> Submatches list" where
  "FindAllStringSubmatch p s =
     (case search p s of
        None \<Rightarrow> []
      | Some (c, t) \<Rightarrow> if length t < length s then c # FindAllStringSubmatch p t else [c])"
  by pat_completeness auto
termination
  by (relation "measure (length \<circ> snd)") auto

declare FindAllStringSubmatch.simps [simp del]

section \<open>Which match is preferred\<close>

definition first_match :: "Pat \<Rightarrow> string \<Rightarrow> Submatches \<Rightarrow> string \<Rightarrow> Submatches \<Rightarrow> bool" where
  "first_match p s c t d \<longleftrightarrow> (\<exists>ms. run p s c = (t, d) # ms)"

lemma first_Chr: "first_match (Chr x) (x # t) c t c"
  by (simp add: first_match_def Chr_def)

lemma first_Cat: "first_match a s c t d \<Longrightarrow> first_match b t d u e \<Longrightarrow> first_match (Cat a b) s c u e"
  by (auto simp: first_match_def)

lemma first_Alt: "first_match a s c t d \<Longrightarrow> first_match (Alt a b) s c t d"
  by (auto simp: first_match_def)

lemma first_Alt2: "run a s c = [] \<Longrightarrow> first_match b s c t d \<Longrightarrow> first_match (Alt a b) s c t d"
  by (auto simp: first_match_def)

lemma first_Grp: "first_match a (u @ t) c t d \<Longrightarrow> first_match (Grp i a) (u @ t) c t (d(i := Some u))"
  by (auto simp: first_match_def)

lemma first_Lit: "first_match p t c u d \<Longrightarrow> first_match (Lit xs p) (xs @ t) c u d"
  by (induction xs) (auto intro: first_Cat first_Chr)

lemma first_Many_Nil: "run a s c = [] \<Longrightarrow> first_match (Many True a) s c s c"
  by (simp add: first_match_def run_Many)

lemma run_Lit_Nil: "take (length xs) s \<noteq> xs \<Longrightarrow> run (Lit xs p) s c = []"
  by (induction xs arbitrary: s c) (auto simp: Chr_def split: list.splits)

text \<open>A greedy loop over a class takes the longest prefix.\<close>

lemma first_Many_Cls:
  assumes "list_all P u" "t = [] \<or> \<not> P (hd t)"
  shows "first_match (Many True (Cls P)) (u @ t) c t c"
  using assms
proof (induction u)
  case Nil
  then show ?case by (cases t) (auto simp: first_match_def run_Many)
next
  case (Cons x u)
  then obtain ms where "run (Many True (Cls P)) (u @ t) c = (t, c) # ms" by (auto simp: first_match_def)
  with Cons.prems show ?case by (simp add: first_match_def run_Many [of _ _ "x # u @ t"])
qed

lemma first_Some_Cls:
  assumes "list_all P u" "u \<noteq> []" "t = [] \<or> \<not> P (hd t)"
  shows "first_match (Some_of (Cls P)) (u @ t) c t c"
proof -
  obtain x u' where u: "u = x # u'" using assms(2) by (cases u) auto
  with assms have "first_match (Cls P) (u @ t) c (u' @ t) c" by (simp add: first_match_def)
  moreover have "first_match (Many True (Cls P)) (u' @ t) c t c" using assms u by (intro first_Many_Cls) auto
  ultimately show ?thesis by (simp only: Some_of_def first_Cat)
qed

text \<open>A greedy loop before a character gives back up to its last occurrence; a lazy one stops at the
  first.\<close>

fun stops :: "(char \<Rightarrow> bool) \<Rightarrow> string \<Rightarrow> string list" where
  "stops P [] = [[]]"
| "stops P (x # s) = (x # s) # (if P x then stops P s else [])"

lemma run_Many_Cls: "run (Many g (Cls P)) s c = map (\<lambda>t. (t, c)) (if g then rev (stops P s) else stops P s)"
proof (induction s)
  case (Cons x s)
  then show ?case by (cases g) (simp_all add: run_Many [of _ _ "x # s"])
qed (simp add: run_Many)

lemma stops_append: "list_all P u \<Longrightarrow> \<exists>A. stops P (u @ t) = A @ stops P t \<and> (\<forall>a \<in> set A. \<exists>ys. a = hd a # ys \<and> hd a \<in> set u)"
proof (induction u)
  case (Cons y u)
  then obtain A where "stops P (u @ t) = A @ stops P t" "\<forall>a \<in> set A. \<exists>ys. a = hd a # ys \<and> hd a \<in> set u" by auto
  with Cons.prems show ?case by (intro exI [of _ "(y # u @ t) # A"]) auto
qed simp

lemma stops_avoid: "x \<notin> set s \<Longrightarrow> a \<in> set (stops P s) \<Longrightarrow> a \<noteq> x # ys"
  by (induction s) (auto split: if_splits)

lemma run_Chr: "run (Chr x) s c = (if s \<noteq> [] \<and> hd s = x then [(tl s, c)] else [])"
  by (cases s) (auto simp: Chr_def)

lemma run_Chr_Nil: "(\<And>ys. s \<noteq> x # ys) \<Longrightarrow> run (Chr x) s c = []"
  by (cases s) (auto simp: run_Chr)

lemma concat_map_first:
  "(\<And>b. b \<in> set xs \<Longrightarrow> f b = []) \<Longrightarrow> f a = m # ms \<Longrightarrow> \<exists>ms. concat (map f (xs @ a # ys)) = m # ms"
  by (induction xs) auto

text \<open>In the next two lemmas the loop is the body of a group \<open>i\<close>.\<close>

lemma run_Grp_Many:
  "run (Cat (Grp i (Many g (Cls P))) (Chr x)) s c =
    concat (map (\<lambda>a. run (Chr x) a (c(i := Some (take (length s - length a) s)))) (if g then rev (stops P s) else stops P s))"
  by (simp add: run_Many_Cls comp_def)

lemma first_greedy:
  assumes "list_all P u" "x \<notin> set t"
  shows "first_match (Cat (Grp i (Many True (Cls P))) (Chr x)) (u @ x # t) c t (c(i := Some u))"
proof -
  obtain A where A: "stops P (u @ x # t) = A @ stops P (x # t)" using stops_append [OF assms(1)] by blast
  obtain B where B: "stops P (x # t) = (x # t) # B" "set B \<subseteq> set (stops P t)" by auto
  have rev: "rev (stops P (u @ x # t)) = rev B @ (x # t) # rev A" by (simp only: A B(1) rev_append rev.simps(2) append_assoc append.simps)
  show ?thesis unfolding first_match_def run_Grp_Many if_True rev
  proof (rule concat_map_first)
    show "run (Chr x) b e = []" if "b \<in> set (rev B)" for b e
      using that B(2) stops_avoid [OF assms(2)] by (intro run_Chr_Nil) auto
  qed (simp add: run_Chr)
qed

lemma first_lazy:
  assumes "list_all P u" "x \<notin> set u"
  shows "first_match (Cat (Grp i (Many False (Cls P))) (Chr x)) (u @ x # t) c t (c(i := Some u))"
    and "first_match (Cat (Many False (Cls P)) (Chr x)) (u @ x # t) c t c"
proof -
  obtain A where A: "stops P (u @ x # t) = A @ stops P (x # t)" "\<forall>a \<in> set A. \<exists>ys. a = hd a # ys \<and> hd a \<in> set u"
    using stops_append [OF assms(1)] by blast
  obtain B where B: "stops P (x # t) = (x # t) # B" by simp
  have none: "run (Chr x) a e = []" if "a \<in> set A" for a e
    using that A(2) assms(2) by (auto simp: run_Chr)
  show "first_match (Cat (Grp i (Many False (Cls P))) (Chr x)) (u @ x # t) c t (c(i := Some u))"
    unfolding first_match_def run_Grp_Many if_False A(1) B
    by (rule concat_map_first, erule none) (simp add: run_Chr)
  have "run (Cat (Many False (Cls P)) (Chr x)) (u @ x # t) c = concat (map (\<lambda>a. run (Chr x) a c) (A @ (x # t) # B))"
    by (simp add: run_Many_Cls comp_def A(1) B del: stops.simps)
  then show "first_match (Cat (Many False (Cls P)) (Chr x)) (u @ x # t) c t c"
    unfolding first_match_def by (simp only:) (rule concat_map_first, erule none, simp add: run_Chr)
qed

lemma run_Some_Cls_Nil: "s = [] \<or> \<not> P (hd s) \<Longrightarrow> run (Some_of (Cls P)) s c = []"
  by (cases s) (auto simp: Some_of_def)

section \<open>Where a search ends\<close>

lemma search_here: "first_match p (u @ t) (\<lambda>_. None) t d \<Longrightarrow> search p (u @ t) = Some (d(0 := Some u), t)"
  by (auto simp: first_match_def search.simps [of p "u @ t"])

lemma search_skip: "run p (x # s) (\<lambda>_. None) = [] \<Longrightarrow> search p (x # s) = search p s"
  by (simp add: search.simps [of p "x # s"])

text \<open>A pattern that can only match where a literal stands: the search skips a text in which the
  literal does not occur.\<close>

definition needs :: "Pat \<Rightarrow> string \<Rightarrow> bool" where
  "needs p lit \<longleftrightarrow> (\<forall>s c. take (length lit) s \<noteq> lit \<longrightarrow> run p s c = [])"

lemma needs_Lit [intro]: "needs (Lit lit p) lit"
  by (simp add: needs_def run_Lit_Nil)

lemma needs_Cat [intro]: "needs a lit \<Longrightarrow> needs (Cat a b) lit"
  by (simp add: needs_def)

lemma needs_Grp [intro]: "needs a lit \<Longrightarrow> needs (Grp i a) lit"
  by (simp add: needs_def)

fun occurs_before :: "string \<Rightarrow> string \<Rightarrow> string \<Rightarrow> bool" where
  "occurs_before lit [] t = False"
| "occurs_before lit (x # u) t = (take (length lit) (x # u @ t) = lit \<or> occurs_before lit u t)"

lemma search_needs_skip: "needs p lit \<Longrightarrow> \<not> occurs_before lit u t \<Longrightarrow> search p (u @ t) = search p t"
  by (induction u) (auto simp: search_skip needs_def)

lemma search_needs_none: "needs p lit \<Longrightarrow> lit \<noteq> [] \<Longrightarrow> \<not> occurs_before lit u [] \<Longrightarrow> search p u = None"
  using search_needs_skip [of p lit u "[]"] by (simp add: search.simps [of _ "[]"] needs_def)

lemma occurs_before_append: "occurs_before lit (u @ v) t \<longleftrightarrow> occurs_before lit u (v @ t) \<or> occurs_before lit v t"
  by (induction u) auto

text \<open>A literal whose first character does not occur in the text does not occur either.\<close>

lemma occurs_before_fresh: "x \<notin> set u \<Longrightarrow> \<not> occurs_before (x # lit) u t"
  by (induction u) auto

lemma FindAll_none: "search p s = None \<Longrightarrow> FindAllStringSubmatch p s = []"
  by (simp add: FindAllStringSubmatch.simps)

lemma FindAll_Cons: "search p s = Some (c, t) \<Longrightarrow> length t < length s \<Longrightarrow> FindAllStringSubmatch p s = c # FindAllStringSubmatch p t"
  by (simp add: FindAllStringSubmatch.simps [of p s])

end
