(* ===== verification/Rendering.thy ===== *)
theory Rendering
  imports Elle_History
begin

text \<open>
  The \<open>String\<close> methods of micro-operations and operations (\<open>pkg/elle/core/history.go\<close>), used in
  the explanations of cycles.

  An explanation is a list of pieces: text, or a duration that the source prints with
  \<open>%v\<close> of \<open>Seconds()\<close>, kept here as a number of nanoseconds.
\<close>

section \<open>Decimal numerals\<close>

fun utoa :: "nat \<Rightarrow> string" where
  "utoa n = (if n < 10 then [char_of (48 + n)] else utoa (n div 10) @ [char_of (48 + n mod 10)])"

declare utoa.simps [simp del]

definition Itoa :: "int \<Rightarrow> string" where
  "Itoa i = (if i < 0 then ''-'' @ utoa (nat (- i)) else utoa (nat i))"

section \<open>Joining and splitting\<close>

fun Join :: "'a list list \<Rightarrow> 'a list \<Rightarrow> 'a list" where
  "Join [] sep = []"
| "Join [s] sep = s"
| "Join (s # t # ss) sep = s @ sep @ Join (t # ss) sep"

text \<open>\<open>strings.Split\<close> with a separator of one byte.\<close>

fun split_on :: "char \<Rightarrow> string \<Rightarrow> string list" where
  "split_on sep [] = [[]]"
| "split_on sep (c # cs) = (if c = sep then [] # split_on sep cs
     else (case split_on sep cs of [] \<Rightarrow> [[c]] | w # ws \<Rightarrow> (c # w) # ws))"

section \<open>Values, micro-operations, operations\<close>

definition Int_String :: "RegInt \<Rightarrow> string" where
  "Int_String i = (if int_IsNil i then ''nil'' else Itoa (int_Val i))"

text \<open>\<open>fmt.Sprintf("%v", value)\<close>\<close>

fun sprint_v :: "MopValueType \<Rightarrow> string" where
  "sprint_v MV_nil = ''<nil>''"
| "sprint_v (MV_int i) = Itoa i"
| "sprint_v (MV_ints vs) = ''['' @ Join (map Itoa vs) '' '' @ '']''"
| "sprint_v (MV_Int i) = Int_String i"

text \<open>\<open>v.(fmt.Stringer).String()\<close>: of the values in use, only \<open>Int\<close> has a \<open>String\<close> method.\<close>

fun Stringer :: "MopValueType \<Rightarrow> string option" where
  "Stringer (MV_Int i) = Some (Int_String i)"
| "Stringer _ = None"

text \<open>Every micro-operation of \<open>Elle_History\<close> has a key, as those of the constructors, the parser and the clients do; the branch of a read
  without the entry \<open>key\<close> is not reached.\<close>

definition Mop_String :: "Mop \<Rightarrow> string option" where
  "Mop_String m =
     (case mop_T m of
        MopTypeRead \<Rightarrow>
          Some (if mop_value m = MV_nil then ''[:r '' @ mop_key m @ '' nil]''
                else ''[:r '' @ mop_key m @ '' '' @ sprint_v (mop_value m) @ '']'')
      | MopTypeAppend \<Rightarrow> do {
          value \<leftarrow> (case mop_value m of MV_int v \<Rightarrow> Some (Itoa v) | v \<Rightarrow> Stringer v);
          Some (''[:append '' @ mop_key m @ '' '' @ value @ '']'') }
      | MopTypeWrite \<Rightarrow> do {
          value \<leftarrow> (case GetValue m of MV_int v \<Rightarrow> Some (Itoa v) | v \<Rightarrow> Stringer v);
          Some (''[:w'' @ '' '' @ GetKey m @ '' '' @ value @ '']'') }
      | _ \<Rightarrow> None)"

fun OpType_string :: "OpType \<Rightarrow> string" where
  "OpType_string OpTypeInvoke = ''invoke''"
| "OpType_string OpTypeOk = ''ok''"
| "OpType_string OpTypeFail = ''fail''"
| "OpType_string OpTypeInfo = ''info''"
| "OpType_string OpTypeUnknown = ''unknown''"
| "OpType_string OpTypeEmpty = ''''"

definition Op_String :: "Op \<Rightarrow> string option" where
  "Op_String op = do {
     mopParts \<leftarrow> (case op_Value op of None \<Rightarrow> Some [] | Some (_, mops) \<Rightarrow> mapM Mop_String mops);
     let parts = [''{:type :'' @ OpType_string (op_Type op), '':value ['' @ Join mopParts '' '' @ '']''];
     let parts = parts @ (case op_Process op of OptNil \<Rightarrow> [] | OptInt p \<Rightarrow> ['':process '' @ Itoa p]);
     let parts = parts @ (case op_Time op of None \<Rightarrow> [] | Some t \<Rightarrow> ['':time '' @ Itoa t]);
     let parts = parts @ (case op_Index op of OptNil \<Rightarrow> [] | OptInt i \<Rightarrow> ['':index '' @ Itoa i]);
     let parts = parts @ (if op_Error op \<noteq> '''' then ['':error [\"'' @ op_Error op @ ''\"]''] else []);
     Some (Join parts '', '' @ ''}'') }"

section \<open>Explanations\<close>

datatype Piece = Txt string | Seconds int

type_synonym Text = "Piece list"

section \<open>Numerals can be read back\<close>

text \<open>The value of a numeral, as \<open>strconv.Atoi\<close> reads the digits.\<close>

definition digits_value :: "string \<Rightarrow> nat" where
  "digits_value s = fold (\<lambda>c n. 10 * n + (of_char c - 48)) s 0"

lemma digits_value_snoc: "digits_value (s @ [c]) = 10 * digits_value s + (of_char c - 48)"
  by (simp add: digits_value_def)

lemma digits_value_utoa: "digits_value (utoa n) = n"
proof (induction n rule: utoa.induct)
  case (1 n)
  have "of_char (char_of (48 + k :: nat) :: char) = 48 + k" if "k < 10" for k
    using that by (simp add: of_char_of)
  with 1 show ?case
    by (subst utoa.simps) (auto simp: digits_value_snoc, simp add: digits_value_def)
qed

lemma utoa_inject: "utoa m = utoa n \<longleftrightarrow> m = n"
  by (metis digits_value_utoa)

lemma utoa_head: "utoa n \<noteq> [] \<and> hd (utoa n) \<noteq> CHR ''-''"
proof (induction n rule: utoa.induct)
  case (1 n)
  have c: "char_of (48 + k :: nat) \<noteq> CHR ''-''" if "k < 10" for k
  proof
    assume "char_of (48 + k) = CHR ''-''"
    then have "of_char (char_of (48 + k :: nat) :: char) = (of_char (CHR ''-'') :: nat)" by (rule arg_cong)
    then show False using that by (simp add: of_char_of)
  qed
  show ?case
  proof (cases "n < 10")
    case True
    with c show ?thesis by (simp only: utoa.simps [of n] if_True list.sel not_Cons_self2 simp_thms list.distinct)
  next
    case False
    then have "utoa n = utoa (n div 10) @ [char_of (48 + n mod 10)]" by (simp only: utoa.simps [of n] if_False)
    with 1 [OF False] show ?thesis by (simp only: hd_append2 append_is_Nil_conv simp_thms)
  qed
qed

lemma Itoa_inject: "Itoa i = Itoa j \<longleftrightarrow> i = j"
proof -
  have "utoa m \<noteq> CHR ''-'' # s" "CHR ''-'' # s \<noteq> utoa m" for m s using utoa_head [of m] by (metis list.sel(1))+
  then show ?thesis by (auto simp: Itoa_def utoa_inject)
qed

end
