(* ===== verification/History_Parser.thy ===== *)
theory History_Parser
  imports Regexp Rendering
begin

text \<open>
  Reading a history from its text: \<open>ParseHistory\<close> and \<open>ParseOp\<close> with their patterns
  (\<open>pkg/elle/core/history.go\<close>), and what they make of the text that \<open>Op.String\<close> prints.
\<close>

section \<open>Numbers and trimming\<close>

datatype ParseError = NoBraces | NoType | InvalidType string | InvalidSyntax string | OutOfRange string

text \<open>\<open>strconv.Atoi\<close>, on a machine of 64 bits.\<close>

definition int64 :: "int \<Rightarrow> bool" where
  "int64 i \<longleftrightarrow> - (2 ^ 63) \<le> i \<and> i < 2 ^ 63"

definition Atoi :: "string \<Rightarrow> ParseError + int" where
  "Atoi s =
     (let neg = (s \<noteq> [] \<and> hd s = CHR ''-'');
          ds = (if s \<noteq> [] \<and> (hd s = CHR ''-'' \<or> hd s = CHR ''+'') then tl s else s)
      in if ds = [] \<or> \<not> list_all is_digit ds then Inl (InvalidSyntax s)
         else let i = (if neg then - int (digits_value ds) else int (digits_value ds))
              in if int64 i then Inr i else Inl (OutOfRange s))"

text \<open>\<open>strings.Trim\<close> with a cutset of one character.\<close>

definition Trim :: "string \<Rightarrow> char \<Rightarrow> string" where
  "Trim s x = rev (dropWhile (\<lambda>y. y = x) (rev (dropWhile (\<lambda>y. y = x) s)))"

section \<open>The patterns\<close>

abbreviation dots :: "bool \<Rightarrow> Pat" where
  "dots greedy \<equiv> Many greedy (Cls is_dot)"

abbreviation blanks :: Pat where
  "blanks \<equiv> Some_of (Cls is_blank)"

definition operationPattern :: Pat where
  "operationPattern = Lit ''{'' (Cat (Grp 1 (dots True)) (Chr (CHR ''}'')))"

definition opIndexPattern :: Pat where
  "opIndexPattern = Lit '':index'' (Cat blanks (Grp 1 (Some_of (Cls is_digit))))"

definition opTimePattern :: Pat where
  "opTimePattern = Lit '':time'' (Cat blanks (Grp 1 (Some_of (Cls is_digit))))"

definition opProcessPattern :: Pat where
  "opProcessPattern = Lit '':process'' (Cat blanks (Grp 1 (Alt (Some_of (Cls is_digit)) (Lit '':nemesi'' (Chr (CHR ''s''))))))"

definition opTypePattern :: Pat where
  "opTypePattern = Lit '':type'' (Cat blanks (Grp 1 (Cat (Chr (CHR '':'')) (Some_of (Cls is_letter)))))"

definition opValuePattern :: Pat where
  "opValuePattern = Lit '':value'' (Cat blanks (Cat (Chr (CHR ''['')) (Cat (Grp 1 (dots True)) (Chr (CHR '']'')))))"

definition mopPattern :: Pat where
  "mopPattern = Some_of (Grp 1 (Lit ''[:'' (Cat (Grp 2 (Alt (Lit ''appen'' (Chr (CHR ''d''))) (Chr (CHR ''r''))))
     (Cat blanks (Cat (Grp 3 (Some_of (Cls is_word))) (Cat blanks
     (Cat (Grp 4 (Alt (Cat (Chr (CHR ''['')) (Cat (dots False) (Chr (CHR '']'')))) (dots False))) (Chr (CHR '']'')))))))))"

definition mopValuePattern :: Pat where
  "mopValuePattern = Lit ''['' (Cat (Grp 1 (dots True)) (Chr (CHR '']'')))"

section \<open>Parsing an operation\<close>

definition parse_field :: "Pat \<Rightarrow> string \<Rightarrow> ParseError + int option" where
  "parse_field p content =
     (case FindStringSubmatch p content of
        None \<Rightarrow> Inr None
      | Some m \<Rightarrow> (case Atoi (Trim (submatch m 1) (CHR '' '')) of Inl err \<Rightarrow> Inl err | Inr i \<Rightarrow> Inr (Some i)))"

definition parse_process :: "string \<Rightarrow> ParseError + IntOptional" where
  "parse_process content =
     (case FindStringSubmatch opProcessPattern content of
        None \<Rightarrow> Inr OptNil
      | Some m \<Rightarrow> if submatch m 1 = '':nemesis'' then Inr (OptInt NemesisProcessMagicNumber)
                 else (case Atoi (Trim (submatch m 1) (CHR '' '')) of Inl err \<Rightarrow> Inl err | Inr i \<Rightarrow> Inr (OptInt i)))"

definition parse_type :: "string \<Rightarrow> ParseError + OpType" where
  "parse_type content =
     (case FindStringSubmatch opTypePattern content of
        None \<Rightarrow> Inl NoType
      | Some m \<Rightarrow>
          if submatch m 1 = '':invoke'' then Inr OpTypeInvoke
          else if submatch m 1 = '':ok'' then Inr OpTypeOk
          else if submatch m 1 = '':fail'' then Inr OpTypeFail
          else if submatch m 1 = '':info'' then Inr OpTypeInfo
          else Inl (InvalidType (submatch m 1)))"

fun parse_ints :: "string list \<Rightarrow> ParseError + int list" where
  "parse_ints [] = Inr []"
| "parse_ints (valStr # rest) =
     (case Atoi valStr of Inl err \<Rightarrow> Inl err
      | Inr val \<Rightarrow> (case parse_ints rest of Inl err \<Rightarrow> Inl err | Inr vals \<Rightarrow> Inr (val # vals)))"

definition parse_value :: "string \<Rightarrow> ParseError + MopValueType" where
  "parse_value txt =
     (case FindStringSubmatch mopValuePattern txt of
        Some m \<Rightarrow>
          let trimVal = Trim (Trim (submatch m 1) (CHR ''['')) (CHR '']'')
          in if trimVal = '''' then Inr (MV_ints [])
             else map_sum id MV_ints (parse_ints (split_on (CHR '' '') trimVal))
      | None \<Rightarrow>
          let trimVal = Trim txt (CHR '' '')
          in if trimVal = ''nil'' then Inr MV_nil else map_sum id MV_int (Atoi trimVal))"

text \<open>The type assertions \<open>value.(int)\<close> and \<open>value.([]int)\<close> panic on a value of another type.\<close>

definition parse_mop :: "Submatches \<Rightarrow> (ParseError + Mop) option" where
  "parse_mop m =
     (let key = Trim (submatch m 3) (CHR '' '')
      in case parse_value (submatch m 4) of
           Inl err \<Rightarrow> Some (Inl err)
         | Inr v \<Rightarrow>
             if submatch m 2 = ''append'' then map_option (\<lambda>i. Inr (Append key i)) (as_int v)
             else if submatch m 2 = ''r''
             then (if v \<noteq> MV_nil then map_option (\<lambda>vs. Inr (Read key (Some vs))) (as_ints v) else Some (Inr (Read key None)))
             else None)"

fun parse_mops :: "Submatches list \<Rightarrow> (ParseError + Mop list) option" where
  "parse_mops [] = Some (Inr [])"
| "parse_mops (m # ms) =
     (case parse_mop m of
        None \<Rightarrow> None
      | Some (Inl err) \<Rightarrow> Some (Inl err)
      | Some (Inr mop) \<Rightarrow> map_option (map_sum id (\<lambda>mops. mop # mops)) (parse_mops ms))"

text \<open>The slice is allocated, at the address \<open>a\<close>, when the first micro-operation is parsed.\<close>

definition parse_Value :: "nat \<Rightarrow> string \<Rightarrow> (ParseError + (nat \<times> Mop list) option) option" where
  "parse_Value a content =
     (case FindStringSubmatch opValuePattern content of
        None \<Rightarrow> Some (Inr None)
      | Some m \<Rightarrow>
          let mopContent = Trim (submatch m 1) (CHR '' '')
          in if mopContent = '''' then Some (Inr None)
             else map_option (map_sum id (\<lambda>mops. if mops = [] then None else Some (a, mops)))
                    (parse_mops (FindAllStringSubmatch mopPattern mopContent)))"

definition ParseOp :: "nat \<Rightarrow> string \<Rightarrow> (ParseError + Op) option" where
  "ParseOp a opString =
     (case FindStringSubmatch operationPattern opString of
        None \<Rightarrow> Some (Inl NoBraces)
      | Some m \<Rightarrow>
     (case parse_field opIndexPattern (submatch m 1) of Inl err \<Rightarrow> Some (Inl err) | Inr opIndex \<Rightarrow>
     (case parse_field opTimePattern (submatch m 1) of Inl err \<Rightarrow> Some (Inl err) | Inr opTime \<Rightarrow>
     (case parse_process (submatch m 1) of Inl err \<Rightarrow> Some (Inl err) | Inr opProcess \<Rightarrow>
     (case parse_type (submatch m 1) of Inl err \<Rightarrow> Some (Inl err) | Inr opType \<Rightarrow>
     (case parse_Value a (submatch m 1) of None \<Rightarrow> None | Some (Inl err) \<Rightarrow> Some (Inl err) | Some (Inr val) \<Rightarrow>
        Some (Inr \<lparr>op_Index = (case opIndex of None \<Rightarrow> OptNil | Some i \<Rightarrow> OptInt i), op_Process = opProcess, op_Time = opTime,
                   op_Type = opType, op_Value = val, op_Error = ''''\<rparr>)))))))"

text \<open>\<open>ParseHistory\<close>; the slices of the operations get the addresses \<open>a\<close>, \<open>a + 1\<close>, and so on.\<close>

fun parse_lines :: "nat \<Rightarrow> string list \<Rightarrow> (ParseError + History) option" where
  "parse_lines a [] = Some (Inr [])"
| "parse_lines a (line # lines) =
     (if line = '''' then parse_lines a lines
      else (case ParseOp a (Trim line (CHR '' '')) of
              None \<Rightarrow> None
            | Some (Inl err) \<Rightarrow> Some (Inl err)
            | Some (Inr op) \<Rightarrow> map_option (map_sum id (\<lambda>ops. op # ops)) (parse_lines (a + 1) lines)))"

definition ParseHistory :: "string \<Rightarrow> (ParseError + History) option" where
  "ParseHistory content = parse_lines 0 (split_on (CHR 0x0A) content)"

section \<open>Numerals\<close>

lemma digit_char: "k < 10 \<Longrightarrow> is_digit (char_of (48 + k :: nat))"
  by (simp add: is_digit_def of_char_of)

lemma utoa_digits: "list_all is_digit (utoa n) \<and> utoa n \<noteq> []"
proof (induction n rule: utoa.induct)
  case (1 n)
  then show ?case by (subst (1 2) utoa.simps) (simp add: digit_char)
qed

lemma digit_not: "is_digit x \<Longrightarrow> x \<noteq> CHR ''-'' \<and> x \<noteq> CHR ''+'' \<and> x \<noteq> CHR '' '' \<and> x \<noteq> CHR ''['' \<and> x \<noteq> CHR '']'' \<and> x \<noteq> CHR '':''
    \<and> x \<noteq> CHR ''n'' \<and> is_dot x \<and> \<not> is_blank x"
  by (auto simp: is_digit_def is_dot_def is_blank_def)

lemma word_not: "is_word x \<Longrightarrow> x \<noteq> CHR '' '' \<and> x \<noteq> CHR ''['' \<and> x \<noteq> CHR '']'' \<and> x \<noteq> CHR '':'' \<and> is_dot x \<and> \<not> is_blank x"
  by (auto simp: is_word_def is_letter_def is_digit_def is_dot_def is_blank_def)

lemma hd_utoa: "is_digit (hd (utoa n))"
  using utoa_digits [of n] by (cases "utoa n") auto

lemma Atoi_Itoa [simp]:
  assumes "int64 i"
  shows "Atoi (Itoa i) = Inr i"
proof (cases "i < 0")
  case True
  then have "Itoa i = CHR ''-'' # utoa (nat (- i))" "- int (nat (- i)) = i" by (simp_all add: Itoa_def)
  with assms utoa_digits [of "nat (- i)"] show ?thesis by (simp add: Atoi_def Let_def digits_value_utoa)
next
  case False
  then have "Itoa i = utoa (nat i)" "int (nat i) = i" by (simp_all add: Itoa_def)
  with assms utoa_digits [of "nat i"] hd_utoa [of "nat i", THEN digit_not] show ?thesis
    by (simp add: Atoi_def Let_def digits_value_utoa)
qed

text \<open>The characters of a numeral.\<close>

definition num_char :: "char \<Rightarrow> bool" where
  "num_char x \<longleftrightarrow> is_digit x \<or> x = CHR ''-''"

lemma Itoa_num: "list_all num_char (Itoa i) \<and> Itoa i \<noteq> []"
  using utoa_digits [of "nat i"] utoa_digits [of "nat (- i)"] by (auto simp: Itoa_def num_char_def list_all_iff)

lemma num_not: "num_char x \<Longrightarrow> x \<noteq> CHR '' '' \<and> x \<noteq> CHR ''['' \<and> x \<noteq> CHR '']'' \<and> x \<noteq> CHR '':'' \<and> x \<noteq> CHR ''n'' \<and> is_dot x \<and> \<not> is_blank x"
  using digit_not [of x] by (cases "is_digit x") (simp_all add: num_char_def is_dot_def is_blank_def)

lemma Itoa_digits: "0 \<le> i \<Longrightarrow> list_all is_digit (Itoa i) \<and> Itoa i \<noteq> []"
  using utoa_digits [of "nat i"] by (simp add: Itoa_def)

lemma hd_all: "list_all P xs \<Longrightarrow> xs \<noteq> [] \<Longrightarrow> P (hd xs)"
  by (cases xs) auto

section \<open>Trimming, joining and splitting\<close>

lemma dropWhile_hd: "xs = [] \<or> \<not> P (hd xs) \<Longrightarrow> dropWhile P xs = xs"
  by (cases xs) auto

lemma Trim_ends: "s = [] \<or> hd s \<noteq> x \<and> last s \<noteq> x \<Longrightarrow> Trim s x = s"
  by (auto simp: Trim_def dropWhile_hd hd_rev)

lemma Trim_fresh: "x \<notin> set s \<Longrightarrow> Trim s x = s"
  by (rule Trim_ends) (metis hd_in_set last_in_set)

lemma Join_Cons: "Join (a # xs) sep = a @ concat (map (\<lambda>x. sep @ x) xs)"
  by (induction xs arbitrary: a) auto

lemma list_all_Join: "list_all (list_all P) ss \<Longrightarrow> list_all P sep \<Longrightarrow> list_all P (Join ss sep)"
  by (induction ss sep rule: Join.induct) auto

lemma split_on_fresh: "x \<notin> set s \<Longrightarrow> split_on x s = [s]"
  by (induction s) auto

lemma split_on_append: "x \<notin> set s \<Longrightarrow> split_on x (s @ x # t) = s # split_on x t"
  by (induction s) auto

lemma split_on_Join: "(\<And>s. s \<in> set ss \<Longrightarrow> x \<notin> set s) \<Longrightarrow> ss \<noteq> [] \<Longrightarrow> split_on x (Join ss [x]) = ss"
  by (induction ss "[x]" rule: Join.induct) (simp_all add: split_on_fresh split_on_append)

lemma parse_ints_Itoa: "list_all int64 vs \<Longrightarrow> parse_ints (map Itoa vs) = Inr vs"
  by (induction vs) auto

section \<open>One micro-operation\<close>

text \<open>The text of a micro-operation: the value is a bracketed list, or a word without brackets.\<close>

definition mop_text :: "string \<Rightarrow> string \<Rightarrow> string \<Rightarrow> string" where
  "mop_text kw key val = ''[:'' @ kw @ '' '' @ key @ '' '' @ val @ '']''"

definition plain :: "string \<Rightarrow> bool" where
  "plain w \<longleftrightarrow> list_all is_dot w \<and> CHR '']'' \<notin> set w \<and> CHR '':'' \<notin> set w"

definition value_text :: "string \<Rightarrow> bool" where
  "value_text val \<longleftrightarrow> (\<exists>w. val = ''['' @ w @ '']'' \<and> plain w) \<or> val \<noteq> [] \<and> hd val \<noteq> CHR ''['' \<and> \<not> is_blank (hd val) \<and> plain val"

definition key_text :: "string \<Rightarrow> bool" where
  "key_text key \<longleftrightarrow> key \<noteq> [] \<and> list_all is_word key"

definition mop_groups :: "string \<Rightarrow> string \<Rightarrow> string \<Rightarrow> Submatches" where
  "mop_groups kw key val = (\<lambda>_. None)(2 := Some kw, 3 := Some key, 4 := Some val, 1 := Some (mop_text kw key val), 0 := Some (mop_text kw key val))"

lemma first_value:
  assumes "value_text val"
  shows "first_match (Cat (Grp 4 (Alt (Cat (Chr (CHR ''['')) (Cat (dots False) (Chr (CHR '']'')))) (dots False))) (Chr (CHR '']'')))
    (val @ CHR '']'' # t) c t (c(4 := Some val))" (is "first_match (Cat (Grp 4 (Alt ?a ?b)) ?z) _ _ _ _")
  using assms unfolding value_text_def
proof
  assume "\<exists>w. val = ''['' @ w @ '']'' \<and> plain w"
  then obtain w where w: "val = ''['' @ w @ '']''" "list_all is_dot w" "CHR '']'' \<notin> set w" by (auto simp: plain_def)
  have "first_match ?a (val @ CHR '']'' # t) c (CHR '']'' # t) c"
    unfolding w(1) append.simps append_assoc by (intro first_Cat [OF first_Chr] first_lazy(2) w)
  then show ?thesis by (intro first_Cat [OF first_Grp first_Chr] first_Alt)
next
  assume v: "val \<noteq> [] \<and> hd val \<noteq> CHR ''['' \<and> \<not> is_blank (hd val) \<and> plain val"
  then have "run ?a (val @ CHR '']'' # t) c = []" by (cases val) (simp_all add: Chr_def)
  then have "run (Cat (Grp 4 (Alt ?a ?b)) ?z) (val @ CHR '']'' # t) c = run (Cat (Grp 4 ?b) ?z) (val @ CHR '']'' # t) c" by simp
  with first_lazy(1) [of is_dot val "CHR '']''" 4 t c] v show ?thesis by (auto simp only: first_match_def plain_def simp_thms)
qed

lemma first_blank: "t \<noteq> [] \<Longrightarrow> \<not> is_blank (hd t) \<Longrightarrow> first_match blanks (CHR '' '' # t) c t c"
  using first_Some_Cls [of is_blank "'' ''" t c] by (simp add: is_blank_def)

lemma first_keyword:
  assumes "kw = ''append'' \<or> kw = ''r''"
  shows "first_match (Grp 2 (Alt (Lit ''appen'' (Chr (CHR ''d''))) (Chr (CHR ''r'')))) (kw @ CHR '' '' # t) c (CHR '' '' # t) (c(2 := Some kw))"
  using assms
proof
  assume "kw = ''append''"
  then show ?thesis
    by (simp only:) (rule first_Grp, rule first_Alt, simp add: first_match_def Chr_def)
next
  assume "kw = ''r''"
  then show ?thesis
    by (simp only:) (rule first_Grp, rule first_Alt2, simp_all add: first_match_def Chr_def)
qed

lemma value_text_hd: "value_text val \<Longrightarrow> val \<noteq> [] \<and> \<not> is_blank (hd val)"
  by (auto simp: value_text_def is_blank_def)

lemma first_mop:
  assumes kw: "kw = ''append'' \<or> kw = ''r''" and key: "key_text key" and val: "value_text val" and t: "t = [] \<or> hd t \<noteq> CHR ''[''"
  shows "first_match mopPattern (mop_text kw key val @ t) (\<lambda>_. None) t ((mop_groups kw key val)(0 := None))"
proof -
  let ?c2 = "(\<lambda>_. None)(2 := Some kw) :: Submatches" let ?c3 = "?c2(3 := Some key)" let ?c4 = "?c3(4 := Some val)"
  let ?s = "mop_text kw key val"
  have k: "key \<noteq> []" "\<not> is_blank (hd key)" "list_all is_word key" using key hd_all [of is_word key] word_not by (auto simp: key_text_def)
  have v: "val @ CHR '']'' # t \<noteq> []" "\<not> is_blank (hd (val @ CHR '']'' # t))" using value_text_hd [OF val] by auto
  have w: "\<not> is_word (CHR '' '')" by (simp add: is_word_def is_digit_def is_letter_def)
  let ?p = "Cat (Grp 2 (Alt (Lit ''appen'' (Chr (CHR ''d''))) (Chr (CHR ''r'')))) (Cat blanks (Cat (Grp 3 (Some_of (Cls is_word))) (Cat blanks
     (Cat (Grp 4 (Alt (Cat (Chr (CHR ''['')) (Cat (dots False) (Chr (CHR '']'')))) (dots False))) (Chr (CHR '']''))))))"
  have "first_match ?p (kw @ CHR '' '' # key @ CHR '' '' # val @ CHR '']'' # t) (\<lambda>_. None) t ?c4"
    by (intro first_Cat [OF first_keyword [OF kw]] first_Cat [OF first_blank] first_Cat [OF first_Grp [OF first_Some_Cls]] first_value [OF val])
      (use k v w in simp_all)
  from first_Lit [OF this, of "''[:''"] have "first_match (Lit ''[:'' ?p) (?s @ t) (\<lambda>_. None) t ?c4" by (simp add: mop_text_def)
  from first_Grp [OF this, of 1] have g: "first_match (Grp 1 (Lit ''[:'' ?p)) (?s @ t) (\<lambda>_. None) t (?c4(1 := Some ?s))" .
  have "run (Grp 1 (Lit ''[:'' ?p)) t (?c4(1 := Some ?s)) = []"
    using t by (cases t) (simp_all add: Chr_def)
  from first_Cat [OF g first_Many_Nil [OF this]]
  have "first_match mopPattern (?s @ t) (\<lambda>_. None) t (?c4(1 := Some ?s))" unfolding mopPattern_def Some_of_def [of "Grp 1 _"] .
  moreover have "?c4(1 := Some ?s) = (mop_groups kw key val)(0 := None)" by (auto simp: mop_groups_def)
  ultimately show ?thesis by simp
qed

lemma needs_mopPattern: "needs mopPattern ''[:''"
  unfolding mopPattern_def Some_of_def [of "Grp 1 _"] by (intro needs_Cat needs_Grp needs_Lit)

lemma value_plain_submatch: "CHR ''['' \<notin> set w \<Longrightarrow> FindStringSubmatch mopValuePattern w = None"
  unfolding FindStringSubmatch_def mopValuePattern_def
  by (simp only: search_needs_none [OF needs_Lit] occurs_before_fresh option.map simp_thms list.distinct)

lemma value_list_submatch:
  assumes "list_all is_dot w"
  shows "\<exists>m. FindStringSubmatch mopValuePattern (''['' @ w @ '']'') = Some m \<and> submatch m 1 = w"
proof -
  have "first_match mopValuePattern ((''['' @ w @ '']'') @ []) (\<lambda>_. None) [] ((\<lambda>_. None)(1 := Some w))"
    unfolding mopValuePattern_def append_assoc by (rule first_Lit) (simp add: first_greedy assms)
  from search_here [OF this] show ?thesis by (simp add: FindStringSubmatch_def submatch_def)
qed

lemma parse_value_nil: "parse_value ''nil'' = Inr MV_nil"
  by (simp add: parse_value_def value_plain_submatch Let_def Trim_fresh)

lemma parse_value_int:
  assumes "int64 v"
  shows "parse_value (Itoa v) = Inr (MV_int v)"
proof -
  have n: "CHR ''['' \<notin> set (Itoa v)" "CHR '' '' \<notin> set (Itoa v)" "CHR ''n'' \<notin> set (Itoa v)"
    using Itoa_num [of v] num_not by (auto simp: list_all_iff)
  moreover have "Itoa v \<noteq> ''nil''"
  proof
    assume "Itoa v = ''nil''"
    with n(3) show False by simp
  qed
  ultimately show ?thesis using assms by (simp add: parse_value_def value_plain_submatch Trim_fresh Let_def)
qed

lemma Join_Itoa:
  assumes "x \<in> set (Join (map Itoa vs) '' '')"
  shows "num_char x \<or> x = CHR '' ''"
proof -
  have "num_char y" if "y \<in> set (Itoa v)" for y v using that Itoa_num [of v] by (auto simp: list_all_iff)
  then show ?thesis using assms by (cases vs) (auto simp: Join_Cons split: if_splits)
qed

lemma parse_value_ints:
  assumes "list_all int64 vs"
  shows "parse_value (''['' @ Join (map Itoa vs) '' '' @ '']'') = Inr (MV_ints vs)" (is "parse_value (''['' @ ?w @ '']'') = _")
proof -
  have w: "x \<noteq> CHR ''['' \<and> x \<noteq> CHR '']'' \<and> is_dot x" if "x \<in> set ?w" for x
    using Join_Itoa [OF that] num_not by (auto simp: is_dot_def)
  then have "list_all is_dot ?w" by (simp add: list_all_iff)
  from value_list_submatch [OF this] obtain m where
    m: "FindStringSubmatch mopValuePattern (''['' @ ?w @ '']'') = Some m" "submatch m 1 = ?w" by blast
  have "CHR ''['' \<notin> set ?w" "CHR '']'' \<notin> set ?w" using w by blast+
  then have t: "Trim (Trim ?w (CHR ''['')) (CHR '']'') = ?w" by (simp add: Trim_fresh)
  show ?thesis
  proof (cases "vs = []")
    case False
    then have ne: "?w \<noteq> []" using Itoa_num by (cases vs) (auto simp: Join_Cons)
    have "CHR '' '' \<notin> set (Itoa v)" for v using Itoa_num [of v] num_not by (auto simp: list_all_iff)
    then have "split_on (CHR '' '') ?w = map Itoa vs" using False by (intro split_on_Join) auto
    with ne t m parse_ints_Itoa [OF assms] show ?thesis by (simp add: parse_value_def Let_def)
  qed (use m t in \<open>simp add: parse_value_def Let_def\<close>)
qed

definition printable_mop :: "Mop \<Rightarrow> bool" where
  "printable_mop m \<longleftrightarrow> key_text (mop_key m) \<and>
     (case (mop_T m, mop_value m) of
        (MopTypeAppend, MV_int v) \<Rightarrow> int64 v
      | (MopTypeRead, MV_nil) \<Rightarrow> True
      | (MopTypeRead, MV_ints vs) \<Rightarrow> list_all int64 vs
      | _ \<Rightarrow> False)"

lemma parse_mop_groups:
  assumes "key_text key" "parse_value val = Inr v"
  shows "parse_mop (mop_groups ''append'' key val) = map_option (\<lambda>i. Inr (Append key i)) (as_int v)"
    and "parse_mop (mop_groups ''r'' key val) =
      (if v \<noteq> MV_nil then map_option (\<lambda>vs. Inr (Read key (Some vs))) (as_ints v) else Some (Inr (Read key None)))"
proof -
  have "CHR '' '' \<notin> set key" using assms(1) word_not by (auto simp: key_text_def list_all_iff)
  then show "parse_mop (mop_groups ''append'' key val) = map_option (\<lambda>i. Inr (Append key i)) (as_int v)"
    "parse_mop (mop_groups ''r'' key val) =
      (if v \<noteq> MV_nil then map_option (\<lambda>vs. Inr (Read key (Some vs))) (as_ints v) else Some (Inr (Read key None)))"
    using assms(2) by (simp_all add: parse_mop_def mop_groups_def submatch_def Trim_fresh)
qed

definition prints_as :: "Mop \<Rightarrow> string \<Rightarrow> string \<Rightarrow> bool" where
  "prints_as m kw val \<longleftrightarrow> Mop_String m = Some (mop_text kw (mop_key m) val) \<and> (kw = ''append'' \<or> kw = ''r'') \<and> key_text (mop_key m) \<and>
     value_text val \<and> parse_mop (mop_groups kw (mop_key m) val) = Some (Inr m)"

lemma plain_num: "list_all num_char w \<Longrightarrow> plain w"
  using num_not by (auto simp: plain_def list_all_iff)

lemma printable_prints:
  assumes "printable_mop m"
  shows "\<exists>kw val. prints_as m kw val"
proof -
  have key: "key_text (mop_key m)" using assms by (simp add: printable_mop_def)
  from assms consider (app) v where "mop_T m = MopTypeAppend" "mop_value m = MV_int v" "int64 v"
    | (nil) "mop_T m = MopTypeRead" "mop_value m = MV_nil"
    | (ints) vs where "mop_T m = MopTypeRead" "mop_value m = MV_ints vs" "list_all int64 vs"
    by (auto simp: printable_mop_def split: MopType.splits MopValueType.splits)
  then show ?thesis
  proof cases
    case app
    have "value_text (Itoa v)" using Itoa_num [of v] hd_all [of num_char "Itoa v"] num_not [of "hd (Itoa v)"]
      by (auto simp: value_text_def plain_num)
    with app key have "prints_as m ''append'' (Itoa v)"
      by (simp add: prints_as_def Mop_String_def mop_text_def parse_mop_groups(1) [OF key parse_value_int] Append_def)
    then show ?thesis by blast
  next
    case nil
    have "value_text ''nil''" by (simp add: value_text_def plain_def is_dot_def is_blank_def)
    with nil key have "prints_as m ''r'' ''nil''"
      by (simp add: prints_as_def Mop_String_def mop_text_def parse_mop_groups(2) [OF key parse_value_nil] Read_def)
    then show ?thesis by blast
  next
    case ints
    let ?w = "Join (map Itoa vs) '' ''"
    have "x \<noteq> CHR '']'' \<and> x \<noteq> CHR '':'' \<and> is_dot x" if "x \<in> set ?w" for x
      using Join_Itoa [OF that] num_not by (auto simp: is_dot_def)
    then have "plain ?w" by (auto simp: plain_def list_all_iff)
    then have "value_text (''['' @ ?w @ '']'')" by (auto simp: value_text_def)
    with ints key have "prints_as m ''r'' (''['' @ ?w @ '']'')"
      using parse_mop_groups(2) [OF key parse_value_ints [OF ints(3)]]
      by (simp add: prints_as_def Mop_String_def mop_text_def Read_def)
    then show ?thesis by blast
  qed
qed

section \<open>The micro-operations of an operation\<close>

text \<open>What follows the micro-operations must not begin with a bracket nor contain the start of another.\<close>

definition mops_end :: "string \<Rightarrow> bool" where
  "mops_end junk \<longleftrightarrow> (junk = [] \<or> hd junk \<noteq> CHR ''['') \<and> \<not> occurs_before ''[:'' junk []"

lemma search_mop:
  assumes "prints_as m kw val" "t = [] \<or> hd t \<noteq> CHR ''[''" "sp = [] \<or> sp = '' ''"
  shows "parse_mops (FindAllStringSubmatch mopPattern (sp @ mop_text kw (mop_key m) val @ t)) =
    map_option (map_sum id (\<lambda>mops. m # mops)) (parse_mops (FindAllStringSubmatch mopPattern t))"
proof -
  let ?s = "mop_text kw (mop_key m) val"
  have "search mopPattern (?s @ t) = Some (mop_groups kw (mop_key m) val, t)"
    using search_here [OF first_mop [OF _ _ _ assms(2)]] assms(1) by (simp add: prints_as_def mop_groups_def)
  moreover have "search mopPattern (sp @ ?s @ t) = search mopPattern (?s @ t)"
    using assms(3) by (intro search_needs_skip [OF needs_mopPattern]) (auto simp: mop_text_def)
  moreover have "length t < length (sp @ ?s @ t)" by (simp add: mop_text_def)
  ultimately show ?thesis using assms(1) by (simp only: FindAll_Cons parse_mops.simps prints_as_def) simp
qed

definition text_of :: "Mop \<Rightarrow> string" where
  "text_of m = the (Mop_String m)"

lemma prints_text: "prints_as m kw val \<Longrightarrow> text_of m = mop_text kw (mop_key m) val"
  by (simp add: prints_as_def text_of_def)

lemma printable_String: "printable_mop m \<Longrightarrow> Mop_String m = Some (text_of m)"
  using printable_prints [of m] by (auto simp: prints_as_def text_of_def)

lemma FindAll_tail:
  assumes "list_all printable_mop ms" "mops_end junk"
  shows "parse_mops (FindAllStringSubmatch mopPattern (concat (map (\<lambda>m. '' '' @ text_of m) ms) @ junk)) = Some (Inr ms)"
  using assms(1)
proof (induction ms)
  case Nil
  have "search mopPattern junk = None" using assms(2) by (intro search_needs_none [OF needs_mopPattern]) (auto simp: mops_end_def)
  then show ?case by (simp add: FindAll_none)
next
  case (Cons m ms)
  from Cons.prems obtain kw val where p: "prints_as m kw val" using printable_prints [of m] by auto
  let ?t = "concat (map (\<lambda>m. '' '' @ text_of m) ms) @ junk"
  have "?t = [] \<or> hd ?t \<noteq> CHR ''[''" using assms(2) by (cases ms) (auto simp: mops_end_def)
  from search_mop [OF p this, of "'' ''"] Cons show ?case by (simp add: prints_text [OF p])
qed

lemma FindAll_mops:
  assumes "list_all printable_mop ms" "mops_end junk"
  shows "parse_mops (FindAllStringSubmatch mopPattern (Join (map text_of ms) '' '' @ junk)) = Some (Inr ms)"
proof (cases ms)
  case Nil
  with FindAll_tail [OF assms] show ?thesis by simp
next
  case (Cons m ms')
  with assms obtain kw val where p: "prints_as m kw val" using printable_prints [of m] by auto
  let ?t = "concat (map (\<lambda>m. '' '' @ text_of m) ms') @ junk"
  have "?t = [] \<or> hd ?t \<noteq> CHR ''[''" using assms(2) by (cases ms') (auto simp: mops_end_def)
  from search_mop [OF p this, of "[]"] FindAll_tail [of ms' junk] assms Cons show ?thesis
    by (simp add: prints_text [OF p] Join_Cons comp_def)
qed

text \<open>The characters of the text: no line break, and a colon only before the keyword.\<close>

lemma text_of_clean:
  assumes "printable_mop m" "y \<noteq> CHR ''a''" "y \<noteq> CHR ''r''"
  shows "list_all is_dot (text_of m)" "\<not> occurs_before (CHR '':'' # y # lit) (text_of m) t"
    "hd (text_of m) = CHR ''[''" "last (text_of m) = CHR '']''" "text_of m \<noteq> []"
proof -
  obtain kw val where p: "prints_as m kw val" using printable_prints [OF assms(1)] by blast
  then have kw: "kw = ''append'' \<or> kw = ''r''" and key: "key_text (mop_key m)" and val: "value_text val" by (auto simp: prints_as_def)
  have k: "list_all is_dot (mop_key m)" "CHR '':'' \<notin> set (mop_key m)" using key word_not by (auto simp: key_text_def list_all_iff)
  have v: "list_all is_dot val" "CHR '':'' \<notin> set val" using val by (auto simp: value_text_def plain_def is_dot_def)
  have d: "list_all is_dot kw" "\<not> occurs_before (CHR '':'' # y # lit) (''[:'' @ kw) s" for s
    using kw assms(2,3) by (auto simp: is_dot_def)
  show "list_all is_dot (text_of m)" using k v d by (simp add: prints_text [OF p] mop_text_def) (simp add: is_dot_def)
  have "\<not> occurs_before (CHR '':'' # y # lit) ('' '' @ mop_key m @ '' '' @ val @ '']'') t"
    using k v by (intro occurs_before_fresh) simp
  with d(2) have "\<not> occurs_before (CHR '':'' # y # lit) ((''[:'' @ kw) @ ('' '' @ mop_key m @ '' '' @ val @ '']'')) t"
    unfolding occurs_before_append by blast
  then show "\<not> occurs_before (CHR '':'' # y # lit) (text_of m) t" unfolding prints_text [OF p] mop_text_def append_assoc .
  show "hd (text_of m) = CHR ''[''" "last (text_of m) = CHR '']''" "text_of m \<noteq> []" by (simp_all add: prints_text [OF p] mop_text_def)
qed

lemma Join_text_clean:
  assumes "list_all printable_mop ms" "y \<noteq> CHR ''a''" "y \<noteq> CHR ''r''"
  shows "list_all is_dot (Join (map text_of ms) '' '')" "\<not> occurs_before (CHR '':'' # y # lit) (Join (map text_of ms) '' '') t"
proof -
  show "list_all is_dot (Join (map text_of ms) '' '')"
    using assms(1) text_of_clean(1) [OF _ assms(2,3)] by (intro list_all_Join) (auto simp: list_all_iff is_dot_def)
  show "\<not> occurs_before (CHR '':'' # y # lit) (Join (map text_of ms) '' '') t"
    using assms(1)
  proof (induction ms rule: induct_list012)
    case (3 a b ms)
    then show ?case using text_of_clean(2) [of a, OF _ assms(2,3)]
      by (simp add: occurs_before_append del: occurs_before.simps) (simp)
  qed (use text_of_clean(2) [OF _ assms(2,3)] in simp_all)
qed

section \<open>The text of an operation\<close>

definition fld :: "string \<Rightarrow> int option \<Rightarrow> string" where
  "fld lit v = (case v of None \<Rightarrow> '''' | Some i \<Rightarrow> '', '' @ lit @ '' '' @ Itoa i)"

definition err_text :: "string \<Rightarrow> string" where
  "err_text e = (if e = '''' then '''' else '', :error [\"'' @ e @ ''\"]'')"

fun opt :: "IntOptional \<Rightarrow> int option" where
  "opt OptNil = None"
| "opt (OptInt i) = Some i"

definition value_mops :: "Op \<Rightarrow> Mop list" where
  "value_mops op = (case op_Value op of None \<Rightarrow> [] | Some (_, mops) \<Rightarrow> mops)"

definition op_head :: "OpType \<Rightarrow> string" where
  "op_head T = '':type :'' @ OpType_string T @ '', ''"

definition op_fields :: "Op \<Rightarrow> string" where
  "op_fields op = fld '':process'' (opt (op_Process op)) @ fld '':time'' (op_Time op) @ fld '':index'' (opt (op_Index op))"

definition op_content :: "Op \<Rightarrow> string" where
  "op_content op = op_head (op_Type op) @ '':value ['' @ Join (map text_of (value_mops op)) '' '' @ '']'' @ op_fields op @ err_text (op_Error op)"

lemma Op_String_content:
  assumes "list_all printable_mop (value_mops op)"
  shows "Op_String op = Some (''{'' @ op_content op @ ''}'')"
proof -
  have m: "(case op_Value op of None \<Rightarrow> Some [] | Some (_, mops) \<Rightarrow> mapM Mop_String mops) = Some (map text_of (value_mops op))"
    using assms mapM_total [of _ Mop_String text_of]
    by (auto simp: value_mops_def list_all_iff printable_String split: option.splits)
  show ?thesis
    unfolding Op_String_def m
    by (cases "op_Process op"; cases "op_Time op"; cases "op_Index op")
      (simp_all add: Let_def Join_Cons op_content_def op_head_def op_fields_def fld_def err_text_def)
qed

text \<open>A literal that does not begin in a text, whatever follows it.\<close>

definition clean :: "string \<Rightarrow> string \<Rightarrow> bool" where
  "clean lit u \<longleftrightarrow> (\<forall>t. \<not> occurs_before lit u t)"

lemma clean_append: "clean lit u \<Longrightarrow> clean lit v \<Longrightarrow> clean lit (u @ v)"
  by (simp add: clean_def occurs_before_append)

lemma clean_fresh: "CHR '':'' \<notin> set u \<Longrightarrow> clean (CHR '':'' # lit) u"
  by (simp add: clean_def occurs_before_fresh)

lemma num_fresh: "CHR '':'' \<notin> set (Itoa i)" "CHR '']'' \<notin> set (Itoa i)" "CHR '' '' \<notin> set (Itoa i)" "list_all is_dot (Itoa i)"
  using Itoa_num [of i] num_not by (auto simp: list_all_iff)

lemma clean_fld:
  assumes "clean (CHR '':'' # lit) ('', :'' @ name @ '' '')"
  shows "clean (CHR '':'' # lit) (fld ('':'' @ name) v)"
  using clean_append [OF assms clean_fresh [OF num_fresh(1)]]
  by (cases v) (simp_all add: fld_def clean_fresh)

lemma clean_mops: "list_all printable_mop ms \<Longrightarrow> y \<noteq> CHR ''a'' \<Longrightarrow> y \<noteq> CHR ''r'' \<Longrightarrow>
    clean (CHR '':'' # y # lit) (Join (map text_of ms) '' '')"
  by (simp add: clean_def Join_text_clean)

lemma submatch_fld:
  assumes "clean lit pre" "first_match q (Itoa i @ post) (\<lambda>_. None) post (\<lambda>_. None)"
  shows "\<exists>m. FindStringSubmatch (Lit lit (Cat blanks (Grp 1 q))) (pre @ lit @ '' '' @ Itoa i @ post) = Some m \<and> submatch m 1 = Itoa i"
proof -
  have n: "Itoa i \<noteq> []" "\<not> is_blank (hd (Itoa i))" using Itoa_num [of i] hd_all [of num_char "Itoa i"] num_not by auto
  have "first_match (Lit lit (Cat blanks (Grp 1 q))) (lit @ '' '' @ Itoa i @ post) (\<lambda>_. None) post ((\<lambda>_. None)(1 := Some (Itoa i)))"
    using n by (intro first_Lit) (simp, intro first_Cat [OF first_blank] first_Grp assms, simp_all)
  then have "search (Lit lit (Cat blanks (Grp 1 q))) ((lit @ '' '' @ Itoa i) @ post) =
      Some (((\<lambda>_. None)(1 := Some (Itoa i)))(0 := Some (lit @ '' '' @ Itoa i)), post)"
    by (intro search_here) (simp only: append_assoc)
  moreover have "search (Lit lit (Cat blanks (Grp 1 q))) (pre @ lit @ '' '' @ Itoa i @ post) =
      search (Lit lit (Cat blanks (Grp 1 q))) (lit @ '' '' @ Itoa i @ post)"
    using assms(1) by (intro search_needs_skip [OF needs_Lit]) (simp add: clean_def)
  ultimately show ?thesis by (simp add: FindStringSubmatch_def submatch_def)
qed

lemma submatch_none:
  "lit \<noteq> [] \<Longrightarrow> clean lit pre \<Longrightarrow> \<not> occurs_before lit post [] \<Longrightarrow> FindStringSubmatch (Lit lit p) (pre @ post) = None"
  by (simp add: FindStringSubmatch_def search_needs_none [OF needs_Lit] occurs_before_append clean_def)

definition natural64 :: "int option \<Rightarrow> bool" where
  "natural64 v \<longleftrightarrow> (case v of None \<Rightarrow> True | Some i \<Rightarrow> 0 \<le> i \<and> int64 i)"

lemma first_digits: "0 \<le> i \<Longrightarrow> post = [] \<or> hd post = CHR '','' \<Longrightarrow> first_match (Some_of (Cls is_digit)) (Itoa i @ post) c post c"
  using Itoa_digits [of i] by (intro first_Some_Cls) (auto simp: is_digit_def)

lemma parse_fld:
  assumes lit: "lit = CHR '':'' # l" and pre: "clean lit pre" and post: "\<not> occurs_before lit post []" "post = [] \<or> hd post = CHR '',''" and v: "natural64 v"
  shows "parse_field (Lit lit (Cat blanks (Grp 1 (Some_of (Cls is_digit))))) (pre @ fld lit v @ post) = Inr v"
proof (cases v)
  case None
  with submatch_none [OF _ pre post(1)] lit show ?thesis by (simp add: fld_def parse_field_def)
next
  case (Some i)
  with v have i: "0 \<le> i" "int64 i" by (simp_all add: natural64_def)
  have "clean lit (pre @ '', '')" using pre lit by (simp add: clean_append clean_fresh)
  from submatch_fld [OF this first_digits [OF i(1) post(2)]] obtain m where
    "FindStringSubmatch (Lit lit (Cat blanks (Grp 1 (Some_of (Cls is_digit))))) (pre @ fld lit v @ post) = Some m" "submatch m 1 = Itoa i"
    by (auto simp: Some fld_def)
  then show ?thesis using i Some num_fresh(3) by (simp add: parse_field_def Trim_fresh)
qed

lemma parse_fld_process:
  assumes pre: "clean '':process'' pre" and post: "\<not> occurs_before '':process'' post []" "post = [] \<or> hd post = CHR '',''" and v: "natural64 (opt v)"
  shows "parse_process (pre @ fld '':process'' (opt v) @ post) = Inr v"
proof (cases v)
  case OptNil
  with submatch_none [OF _ pre post(1)] show ?thesis by (simp add: fld_def parse_process_def opProcessPattern_def)
next
  case (OptInt i)
  with v have i: "0 \<le> i" "int64 i" by (simp_all add: natural64_def)
  have "clean '':process'' (pre @ '', '')" using pre by (simp add: clean_append clean_fresh)
  from submatch_fld [OF this first_Alt [OF first_digits [OF i(1) post(2)]]] obtain m where
    "FindStringSubmatch opProcessPattern (pre @ fld '':process'' (opt v) @ post) = Some m" "submatch m 1 = Itoa i"
    unfolding opProcessPattern_def by (auto simp: OptInt fld_def)
  moreover have "Itoa i \<noteq> CHR '':'' # s" for s using num_fresh(1) [of i] by auto
  ultimately show ?thesis using i OptInt num_fresh(3) by (simp add: parse_process_def Trim_fresh)
qed

lemma op_head_shape: "op_head T = '':type'' @ '' '' @ ('':'' @ OpType_string T) @ '', ''"
  by (simp add: op_head_def)

lemma OpType_letters: "list_all is_letter (OpType_string T)"
  by (cases T) (simp_all add: is_letter_def)

lemma parse_type_head:
  assumes "T \<noteq> OpTypeEmpty"
  shows "parse_type (op_head T @ t) =
    (case T of OpTypeUnknown \<Rightarrow> Inl (InvalidType '':unknown'') | _ \<Rightarrow> Inr T)"
proof -
  let ?n = "OpType_string T" let ?q = "Cat (Chr (CHR '':'')) (Some_of (Cls is_letter))"
  have n: "?n \<noteq> []" using assms by (cases T) simp_all
  have c: "\<not> is_letter (CHR '','')" by (simp add: is_letter_def)
  have "first_match (Some_of (Cls is_letter)) (?n @ '', '' @ t) (\<lambda>_. None) ('', '' @ t) (\<lambda>_. None)"
    using n OpType_letters c by (intro first_Some_Cls) simp_all
  from first_Cat [OF first_Chr this] have "first_match ?q (('':'' @ ?n) @ '', '' @ t) (\<lambda>_. None) ('', '' @ t) (\<lambda>_. None)" by simp
  from first_Grp [OF this] have "first_match (Cat blanks (Grp 1 ?q)) ('' '' @ ('':'' @ ?n) @ '', '' @ t) (\<lambda>_. None) ('', '' @ t) ((\<lambda>_. None)(1 := Some ('':'' @ ?n)))"
    by (simp only: append.simps) (rule first_Cat [OF first_blank], simp_all add: is_blank_def)
  from search_here [OF first_Lit [OF this, of "'':type''", folded append_assoc, unfolded append_assoc [of _ "'', ''" t]]]
  have "FindStringSubmatch opTypePattern (op_head T @ t) = Some ((\<lambda>_. None)(1 := Some ('':'' @ ?n), 0 := Some ('':type'' @ '' '' @ '':'' @ ?n)))"
    unfolding opTypePattern_def FindStringSubmatch_def op_head_shape append_assoc by simp
  then show ?thesis by (cases T) (simp_all add: parse_type_def submatch_def assms)
qed

text \<open>An error message that does not disturb the parser: no line break, no field and no
  micro-operation in it.\<close>

definition error_ok :: "string \<Rightarrow> bool" where
  "error_ok e \<longleftrightarrow> list_all is_dot e \<and> list_all (\<lambda>lit. \<not> occurs_before lit e ''\"]'') ['':process'', '':time'', '':index'', ''[:'']"

lemma occurs_before_longer: "occurs_before lit u t \<Longrightarrow> occurs_before lit u (t @ t')"
proof (induction u)
  case (Cons x u)
  have "take (length lit) (x # u @ t @ t') = lit" if "take (length lit) (x # u @ t) = lit"
  proof -
    have "length lit \<le> length (x # u @ t)" using arg_cong [OF that, of length] by simp
    then have "take (length lit) ((x # u @ t) @ t') = take (length lit) (x # u @ t)" by (simp only: take_append) simp
    with that show ?thesis by simp
  qed
  with Cons show ?case by auto
qed simp

lemma error_text_clean:
  assumes "error_ok e" "lit = '':process'' \<or> lit = '':time'' \<or> lit = '':index''"
  shows "\<not> occurs_before lit (err_text e) []"
proof -
  have "\<not> occurs_before lit e ''\"]''" "\<not> occurs_before lit ''\"]'' []" "\<not> occurs_before lit '', :error [\"'' (e @ ''\"]'')"
    using assms by (auto simp: error_ok_def)
  then have "\<not> occurs_before lit ('', :error [\"'' @ e @ ''\"]'') []" unfolding occurs_before_append append_Nil2 by blast
  then show ?thesis unfolding err_text_def by (cases "e = []") simp_all
qed

lemma fields_fresh: "CHR '']'' \<notin> set (op_fields op)" "list_all is_dot (op_fields op)" "CHR ''['' \<notin> set (op_fields op)"
proof -
  have "CHR ''['' \<notin> set (Itoa i)" for i using Itoa_num [of i] num_not by (auto simp: list_all_iff)
  then show "CHR '']'' \<notin> set (op_fields op)" "list_all is_dot (op_fields op)" "CHR ''['' \<notin> set (op_fields op)"
    using num_fresh by (auto simp: op_fields_def fld_def is_dot_def split: option.splits)
qed

definition printable_fields :: "Op \<Rightarrow> bool" where
  "printable_fields op \<longleftrightarrow> natural64 (opt (op_Process op)) \<and>
     natural64 (op_Time op) \<and> natural64 (opt (op_Index op)) \<and> error_ok (op_Error op) \<and>
     (case op_Value op of None \<Rightarrow> True | Some (_, mops) \<Rightarrow> mops \<noteq> [] \<and> list_all printable_mop mops)"

definition printable_op :: "Op \<Rightarrow> bool" where
  "printable_op op \<longleftrightarrow> op_Type op \<in> {OpTypeInvoke, OpTypeOk, OpTypeFail, OpTypeInfo} \<and> printable_fields op"

lemma printable_mops: "printable_fields op \<Longrightarrow> list_all printable_mop (value_mops op)"
  by (auto simp: printable_fields_def value_mops_def split: option.splits)

text \<open>The greedy \<open>:value\<close> pattern reads up to the last closing bracket, the one of the error message
  if there is one.\<close>

definition value_junk :: "Op \<Rightarrow> string" where
  "value_junk op = (if op_Error op = '''' then '''' else '']'' @ op_fields op @ '', :error [\"'' @ op_Error op @ ''\"'')"

lemma mops_end_junk:
  assumes "error_ok (op_Error op)"
  shows "mops_end (value_junk op)"
proof -
  have "\<not> occurs_before ''[:'' (op_Error op) (''\"'' @ '']'')" using assms by (simp add: error_ok_def)
  then have e: "\<not> occurs_before ''[:'' (op_Error op) ''\"''" using occurs_before_longer by blast
  have "\<not> occurs_before ''[:'' (op_fields op) t" for t using fields_fresh(3) by (intro occurs_before_fresh)
  with e show ?thesis by (simp add: mops_end_def value_junk_def occurs_before_append)
qed

lemma value_submatch:
  assumes "printable_fields op"
  shows "\<exists>m. FindStringSubmatch opValuePattern (op_content op) = Some m \<and> submatch m 1 = Join (map text_of (value_mops op)) '' '' @ value_junk op"
proof -
  let ?V = "Join (map text_of (value_mops op)) '' ''" let ?X = "?V @ value_junk op"
  let ?t = "if op_Error op = '''' then op_fields op else ''''"
  have dots: "list_all is_dot ?X" using assms Join_text_clean(1) [OF printable_mops [OF assms], of "CHR ''v''"] fields_fresh(2)
    by (auto simp: value_junk_def printable_fields_def error_ok_def is_dot_def)
  have split: "op_content op = op_head (op_Type op) @ '':value'' @ '' '' @ CHR ''['' # ?X @ CHR '']'' # ?t"
    by (simp add: op_content_def value_junk_def err_text_def)
  have "clean '':value'' (op_head (op_Type op))" by (cases "op_Type op") (simp_all add: op_head_def clean_def)
  then have skip: "search opValuePattern (op_content op) = search opValuePattern ('':value'' @ '' '' @ CHR ''['' # ?X @ CHR '']'' # ?t)"
    unfolding split opValuePattern_def by (intro search_needs_skip [OF needs_Lit]) (simp add: clean_def)
  have "first_match opValuePattern ('':value'' @ '' '' @ CHR ''['' # ?X @ CHR '']'' # ?t) (\<lambda>_. None) ?t ((\<lambda>_. None)(1 := Some ?X))"
    unfolding opValuePattern_def
  proof (rule first_Lit)
    have "first_match (Cat (Grp 1 (dots True)) (Chr (CHR '']''))) (?X @ CHR '']'' # ?t) (\<lambda>_. None) ?t ((\<lambda>_. None)(1 := Some ?X))"
      using dots fields_fresh(1) by (intro first_greedy) auto
    from first_Cat [OF first_Chr this, of "CHR ''[''"]
    show "first_match (Cat blanks (Cat (Chr (CHR ''['')) (Cat (Grp 1 (dots True)) (Chr (CHR '']'')))))
      ('' '' @ CHR ''['' # ?X @ CHR '']'' # ?t) (\<lambda>_. None) ?t ((\<lambda>_. None)(1 := Some ?X))"
      by (simp only: append.simps) (rule first_Cat [OF first_blank], simp_all add: is_blank_def)
  qed
  with search_here [of opValuePattern "'':value'' @ '' '' @ CHR ''['' # ?X @ '']''" ?t]
  have "search opValuePattern ('':value'' @ '' '' @ CHR ''['' # ?X @ CHR '']'' # ?t) =
    Some (((\<lambda>_. None)(1 := Some ?X))(0 := Some ('':value'' @ '' '' @ CHR ''['' # ?X @ '']'')), ?t)" by simp
  with skip show ?thesis by (simp add: FindStringSubmatch_def submatch_def)
qed

lemma Join_ends: "ms \<noteq> [] \<Longrightarrow> list_all printable_mop ms \<Longrightarrow>
    (let V = Join (map text_of ms) '' '' in V \<noteq> [] \<and> hd V = CHR ''['' \<and> last V = CHR '']'')"
proof (induction ms rule: induct_list012)
  case (2 m)
  then show ?case using text_of_clean(3-5) [of m "CHR ''x''"] by (simp add: Let_def)
next
  case (3 m m' ms)
  then show ?case using text_of_clean(3,5) [of m "CHR ''x''"] by (simp add: Let_def)
qed simp

lemma parse_Value_content:
  assumes "printable_fields op"
  shows "parse_Value a (op_content op) = Some (Inr (map_option (\<lambda>(_, mops). (a, mops)) (op_Value op)))"
proof -
  let ?ms = "value_mops op" let ?X = "Join (map text_of ?ms) '' '' @ value_junk op"
  obtain m where m: "FindStringSubmatch opValuePattern (op_content op) = Some m" "submatch m 1 = ?X" using value_submatch [OF assms] by blast
  have ms: "list_all printable_mop ?ms" by (rule printable_mops [OF assms])
  have parse: "parse_mops (FindAllStringSubmatch mopPattern ?X) = Some (Inr ?ms)"
    using assms by (intro FindAll_mops ms mops_end_junk) (simp add: printable_fields_def)
  have v: "map_option (\<lambda>(_, mops). (a, mops)) (op_Value op) = (if ?ms = [] then None else Some (a, ?ms))"
    using assms by (auto simp: printable_fields_def value_mops_def split: option.splits)
  have "hd ?X \<noteq> CHR '' '' \<and> last ?X \<noteq> CHR '' ''" if "?X \<noteq> []"
    using Join_ends [OF _ ms] that by (cases "?ms = []") (auto simp: value_junk_def Let_def)
  then have "Trim ?X (CHR '' '') = ?X" by (blast intro: Trim_ends)
  moreover have "?ms = []" if "?X = []" using Join_ends [OF _ ms] that by (auto simp: Let_def)
  ultimately show ?thesis using m parse v by (auto simp: parse_Value_def Let_def)
qed

lemma content_no_break:
  assumes "printable_fields op"
  shows "list_all is_dot (op_content op)"
proof -
  have "list_all is_dot (OpType_string (op_Type op))" by (cases "op_Type op") (simp_all add: is_dot_def)
  then show ?thesis
    using assms Join_text_clean(1) [OF printable_mops [OF assms], of "CHR ''v''"] fields_fresh(2) [of op]
    by (auto simp: op_content_def op_head_def err_text_def printable_fields_def error_ok_def is_dot_def)
qed

lemma braces:
  assumes "printable_fields op"
  shows "\<exists>m. FindStringSubmatch operationPattern (''{'' @ op_content op @ ''}'') = Some m \<and> submatch m 1 = op_content op"
proof -
  have "first_match operationPattern (''{'' @ op_content op @ ''}'') (\<lambda>_. None) [] ((\<lambda>_. None)(1 := Some (op_content op)))"
    unfolding operationPattern_def using content_no_break [OF assms] by (intro first_Lit first_greedy) simp_all
  with search_here [of operationPattern "''{'' @ op_content op @ ''}''" "[]"] show ?thesis
    by (simp add: FindStringSubmatch_def submatch_def)
qed

lemma fld_comma: "fld lit v = [] \<or> hd (fld lit v) = CHR '',''"
  by (simp add: fld_def split: option.split)

lemma err_comma: "err_text e = [] \<or> hd (err_text e) = CHR '',''"
  by (simp add: err_text_def)

lemma comma_append: "u = [] \<or> hd u = CHR '','' \<Longrightarrow> v = [] \<or> hd v = CHR '','' \<Longrightarrow> u @ v = [] \<or> hd (u @ v) = CHR '',''"
  by (cases u) auto

lemma content_fields:
  assumes "printable_fields op"
  shows "parse_process (op_content op) = Inr (op_Process op)" "parse_field opTimePattern (op_content op) = Inr (op_Time op)"
    "parse_field opIndexPattern (op_content op) = Inr (opt (op_Index op))"
proof -
  let ?h = "op_head (op_Type op) @ '':value [''" let ?V = "Join (map text_of (value_mops op)) '' ''" let ?E = "err_text (op_Error op)"
  let ?P = "fld '':process'' (opt (op_Process op))" let ?T = "fld '':time'' (op_Time op)" let ?I = "fld '':index'' (opt (op_Index op))"
  have ok: "natural64 (opt (op_Process op))" "natural64 (op_Time op)" "natural64 (opt (op_Index op))" "error_ok (op_Error op)"
    using assms by (simp_all add: printable_fields_def)
  have h: "clean '':process'' ?h" "clean '':time'' ?h" "clean '':index'' ?h"
    by (cases "op_Type op", simp_all add: op_head_def clean_def)+
  have V: "clean '':process'' (?V @ '']'')" "clean '':time'' (?V @ '']'')" "clean '':index'' (?V @ '']'')"
    by (intro clean_append clean_mops printable_mops assms clean_fresh; simp)+
  have P: "clean '':time'' ?P" "clean '':index'' ?P" and T: "clean '':index'' ?T" "clean '':process'' ?T"
    and I: "clean '':process'' ?I" "clean '':time'' ?I"
    using clean_fld [of "''time''" "''process''"] clean_fld [of "''index''" "''process''"] clean_fld [of "''index''" "''time''"]
      clean_fld [of "''process''" "''time''"] clean_fld [of "''process''" "''index''"] clean_fld [of "''time''" "''index''"]
    by (simp_all add: clean_def)
  note E = error_text_clean [OF ok(4)]
  have c: "?E = [] \<or> hd ?E = CHR '',''" "?I @ ?E = [] \<or> hd (?I @ ?E) = CHR '',''" "?T @ ?I @ ?E = [] \<or> hd (?T @ ?I @ ?E) = CHR '',''"
    by (intro comma_append fld_comma err_comma)+
  have content: "op_content op = (?h @ ?V @ '']'') @ ?P @ ?T @ ?I @ ?E" "op_content op = (?h @ (?V @ '']'') @ ?P) @ ?T @ ?I @ ?E"
    "op_content op = (?h @ (?V @ '']'') @ ?P @ ?T) @ ?I @ ?E"
    by (simp_all add: op_content_def op_fields_def)
  show "parse_process (op_content op) = Inr (op_Process op)"
    unfolding content(1) using h V T I E ok c(3)
    by (intro parse_fld_process) (auto simp: clean_append occurs_before_append clean_def)
  show "parse_field opTimePattern (op_content op) = Inr (op_Time op)"
    unfolding content(2) opTimePattern_def using h V P I E ok c(2)
    by (intro parse_fld) (auto simp: clean_append occurs_before_append clean_def)
  show "parse_field opIndexPattern (op_content op) = Inr (opt (op_Index op))"
    unfolding content(3) opIndexPattern_def using h V P T E ok c(1)
    by (intro parse_fld) (auto simp: clean_append occurs_before_append clean_def)
qed

lemma ParseOp_content:
  assumes "printable_fields op" "op_Type op \<noteq> OpTypeEmpty"
  shows "ParseOp a (''{'' @ op_content op @ ''}'') =
    Some (case op_Type op of OpTypeUnknown \<Rightarrow> Inl (InvalidType '':unknown'')
      | _ \<Rightarrow> Inr (op\<lparr>op_Error := '''', op_Value := map_option (\<lambda>(_, mops). (a, mops)) (op_Value op)\<rparr>))"
proof -
  obtain m where m: "FindStringSubmatch operationPattern (''{'' @ op_content op @ ''}'') = Some m" "submatch m 1 = op_content op"
    using braces [OF assms(1)] by blast
  have T: "parse_type (op_content op) = (case op_Type op of OpTypeUnknown \<Rightarrow> Inl (InvalidType '':unknown'') | _ \<Rightarrow> Inr (op_Type op))"
    using parse_type_head [OF assms(2)] unfolding op_content_def .
  have o: "(case opt i of None \<Rightarrow> OptNil | Some i \<Rightarrow> OptInt i) = i" for i by (cases i) simp_all
  show ?thesis
    unfolding ParseOp_def m(1) option.case m(2) content_fields [OF assms(1)] sum.case T parse_Value_content [OF assms(1)]
    by (cases "op_Type op") (simp_all add: o)
qed

lemma ParseOp_String:
  assumes "printable_op op"
  shows "ParseOp a (''{'' @ op_content op @ ''}'') =
    Some (Inr (op\<lparr>op_Error := '''', op_Value := map_option (\<lambda>(_, mops). (a, mops)) (op_Value op)\<rparr>))"
  using assms ParseOp_content [of op a] by (auto simp: printable_op_def)

section \<open>Writing a history and reading it back\<close>

text \<open>The lines that \<open>writeEdnHistory\<close> (\<open>testcase/list-append/client.go\<close>) writes.\<close>

definition edn_lines :: "History \<Rightarrow> string option" where
  "edn_lines h = do { ss \<leftarrow> mapM Op_String h; Some (concat (map (\<lambda>s. s @ [CHR 0x0A]) ss)) }"

text \<open>What survives: everything but the error messages and the identity of the slices.\<close>

definition reread :: "nat \<Rightarrow> Op \<Rightarrow> Op" where
  "reread a op = op\<lparr>op_Error := '''', op_Value := map_option (\<lambda>(_, mops). (a, mops)) (op_Value op)\<rparr>"

definition op_line :: "Op \<Rightarrow> string" where
  "op_line op = ''{'' @ op_content op @ ''}''"

lemma op_line_no_break: "printable_fields op \<Longrightarrow> CHR 0x0A \<notin> set (op_line op)"
  using content_no_break [of op] by (auto simp: op_line_def list_all_iff is_dot_def)

lemma op_line_Trim: "Trim (op_line op) (CHR '' '') = op_line op"
  by (rule Trim_ends) (simp add: op_line_def)

lemma printable_opD: "printable_op op \<Longrightarrow> printable_fields op"
  by (simp add: printable_op_def)

lemma parse_lines_cons:
  assumes "printable_op op"
  shows "parse_lines a (op_line op # lines) = map_option (map_sum id (\<lambda>ops. reread a op # ops)) (parse_lines (a + 1) lines)"
  using ParseOp_String [OF assms, of a] op_line_Trim [of op] by (simp add: op_line_def reread_def)

lemma parse_edn_lines:
  assumes "list_all printable_op h"
  shows "parse_lines a (split_on (CHR 0x0A) (concat (map (\<lambda>op. op_line op @ [CHR 0x0A]) h) @ t)) =
    map_option (map_sum id (\<lambda>ops. map (\<lambda>(i, op). reread i op) (enumerate a h) @ ops)) (parse_lines (a + length h) (split_on (CHR 0x0A) t))"
  using assms
proof (induction h arbitrary: a)
  case Nil
  show ?case by (simp add: map_sum.id [unfolded id_def] id_def option.map_ident)
next
  case (Cons op h)
  then show ?case using split_on_append [OF op_line_no_break [OF printable_opD [of op]]] parse_lines_cons [of op a]
    by (simp add: option.map_comp comp_def sum.map_comp)
qed

lemma edn_lines_text:
  assumes "list_all printable_op h"
  shows "edn_lines h = Some (concat (map (\<lambda>op. op_line op @ [CHR 0x0A]) h))"
proof -
  have "mapM Op_String h = Some (map op_line h)"
    using assms Op_String_content [OF printable_mops [OF printable_opD]] by (intro mapM_total) (auto simp: op_line_def list_all_iff)
  then show ?thesis by (simp add: edn_lines_def comp_def)
qed

text \<open>C18. What is written of a history can be read back. Take operations of the four types the parser knows, with
  process, time and index absent or between 0 and \<open>2 ^ 63 - 1\<close>; with no value, or with at least one micro-operation,
  each an append of a 64-bit integer or a read of a list of such integers or of nothing, on a key of word
  characters; and with error messages of one line in which no field and no micro-operation is spelled. Then \<open>ParseHistory\<close> returns,
  without a panic, the history from the lines that \<open>Op.String\<close> prints, without the error messages and with
  fresh slices. (The process -1 of the nemesis is not read back, \<open>nemesis_process_lost\<close>.)\<close>

theorem ParseHistory_String:
  assumes "list_all printable_op h"
  shows "\<exists>s. edn_lines h = Some s \<and> ParseHistory s = Some (Inr (map (\<lambda>(i, op). reread i op) (enumerate 0 h)))"
  using edn_lines_text [OF assms] parse_edn_lines [OF assms, of 0 "[]"] by (simp add: ParseHistory_def)

theorem ParseHistory_String_witness:
  "let h = [\<lparr>op_Index = OptInt 0, op_Process = OptInt 3, op_Time = Some 12, op_Type = OpTypeInvoke,
               op_Value = Some (7, [Append ''x'' 1, Read ''y_2'' None]), op_Error = ''''\<rparr>,
            \<lparr>op_Index = OptInt 1, op_Process = OptInt 3, op_Time = None, op_Type = OpTypeFail,
               op_Value = Some (8, [Append ''x'' 1, Read ''y_2'' (Some [1, -20])]), op_Error = ''Error 9007: Write conflict [retry]''\<rparr>]
   in \<exists>s. edn_lines h = Some s \<and> ParseHistory s = Some (Inr (map (\<lambda>(i, op). reread i op) (enumerate 0 h)))"
  unfolding Let_def by (rule ParseHistory_String) code_simp

text \<open>The process of the nemesis is printed as \<open>-1\<close>, which the pattern of the process does not match: the
  operation comes back with no process at all. A value without micro-operations comes back as none.\<close>

theorem nemesis_process_lost:
  "let op = \<lparr>op_Index = OptInt 0, op_Process = OptInt (-1), op_Time = None, op_Type = OpTypeInfo, op_Value = Some (7, []), op_Error = ''''\<rparr>
   in map_option ParseHistory (edn_lines [op]) = Some (Some (Inr [op\<lparr>op_Process := OptNil, op_Value := None\<rparr>]))"
  by code_simp

text \<open>The operations of type \<open>unknown\<close>, which the client records when it does not know the outcome of a
  commit, are printed but cannot be read: one of them makes the whole file unreadable.\<close>

theorem unknown_unreadable:
  assumes "printable_fields op" "op_Type op = OpTypeUnknown" "list_all printable_op h"
  shows "\<exists>s s'. edn_lines h = Some s \<and> Op_String op = Some s' \<and> ParseHistory (s @ s') = Some (Inl (InvalidType '':unknown''))"
proof -
  have "Op_String op = Some (op_line op)" using Op_String_content [OF printable_mops [OF assms(1)]] by (simp add: op_line_def)
  moreover have "parse_lines (length h) [op_line op] = Some (Inl (InvalidType '':unknown''))"
    using ParseOp_content [OF assms(1), of "length h"] assms(2) op_line_Trim [of op] by (simp add: op_line_def)
  ultimately show ?thesis
    using edn_lines_text [OF assms(3)] parse_edn_lines [OF assms(3), of 0 "op_line op"] split_on_fresh [OF op_line_no_break [OF assms(1)]]
    by (simp add: ParseHistory_def)
qed

end
