(* ===== verification/Analyzers.thy ===== *)
theory Analyzers
  imports Cycle_Laws Components_Laws Rendering
begin

text \<open>
  Anomalies, explainers and the analyzers that do not depend on a workload:
  \<open>pkg/elle/core/core.go\<close> and \<open>pkg/elle/core/depend.go\<close>.

  An interface value of type \<open>DataExplainer\<close> is either a struct whose two methods keep no state
  (\<open>StatelessExplainer\<close>, the two methods) or a \<open>CombinedExplainer\<close>, which stores for every
  result the explainer that gave it. Its map is a field of the pointed-to struct, so a call
  returns the updated explainer; the map holds the position of the explainer in \<open>Explainers\<close>.
  A nil \<open>ExplainResult\<close> is \<^const>\<open>None\<close>, and so is a nil map of anomalies, which can be read but
  not written.
\<close>

section \<open>Results of explanations\<close>

datatype DependType =
  RealtimeDepend | MonotonicDepend | ProcessDepend | WWDepend | WRDepend | RWDepend

datatype ExplainResult =
    ProcessResult (process_Process: int)
  | RealtimeExplainResult (realtime_PreEnd: Op) (realtime_PostStart: Op)
  | WWExplainResult (ww_Key: string) (ww_PreValue: MopValueType) (ww_Value: MopValueType)
      (ww_AMopIndex: int) (ww_BMopIndex: int)
  | WRExplainResult (wr_Key: string) (wr_Value: MopValueType) (wr_AMopIndex: int) (wr_BMopIndex: int)
  | RWExplainResult (rw_Key: string) (rw_PreValue: MopValueType) (rw_Value: MopValueType)
      (rw_AMopIndex: int) (rw_BMopIndex: int)
  | RegWWExplainResult (regww_key: string) (regww_prevValue: RegInt) (regww_value: RegInt)
  | RegWRExplainResult (regwr_Key: string) (regwr_Value: RegInt)
  | RegRWExplainResult (regrw_key: string) (regrw_prevValue: RegInt) (regrw_value: RegInt)

fun ExplainResult_Type :: "ExplainResult \<Rightarrow> DependType" where
  "ExplainResult_Type (ProcessResult _) = ProcessDepend"
| "ExplainResult_Type (RealtimeExplainResult _ _) = RealtimeDepend"
| "ExplainResult_Type (WWExplainResult _ _ _ _ _) = WWDepend"
| "ExplainResult_Type (WRExplainResult _ _ _ _) = WRDepend"
| "ExplainResult_Type (RWExplainResult _ _ _ _ _) = RWDepend"
| "ExplainResult_Type (RegWWExplainResult _ _ _) = WWDepend"
| "ExplainResult_Type (RegWRExplainResult _ _) = WRDepend"
| "ExplainResult_Type (RegRWExplainResult _ _ _) = RWDepend"

section \<open>Circles and anomalies\<close>

record Circle =
  circle_Path :: "Op list"

text \<open>\<open>vertex.Value.(PathType)\<close>\<close>

fun as_Op :: "Vertex \<Rightarrow> Op option" where
  "as_Op (VOp op) = Some op"
| "as_Op _ = None"

text \<open>The inner \<^const>\<open>None\<close> is the nil circle, the outer one the panic.\<close>

definition NewCircle :: "Vertex list \<Rightarrow> Circle option option" where
  "NewCircle vertices =
     (if length vertices = 0 then Some None
      else if length vertices < 3 \<or> hd vertices \<noteq> last vertices then None
      else do { path \<leftarrow> mapM as_Op vertices; Some (Some \<lparr>circle_Path = path\<rparr>) })"

record Step =
  step_Result :: "ExplainResult option"

record CycleExplainerResult =
  cer_Circle :: Circle
  cer_Steps :: "Step list"
  cer_Typ :: string

datatype Anomaly =
    CycleAnomaly CycleExplainerResult
  | G1Conflict (g1_Op: Op) (g1_Mop: Mop) (g1_Writer: Op) (g1_Element: MopValueType)
  | InternalConflict (ic_Op: Op) (ic_Mop: Mop) (ic_Expected: MopValueType)
  | DirtyUpdateConflict (du_Key: string) (du_Values: "MopValueType list") (du_Op1: Op) (du_Op2: Op)
  | duplicateConflict (dc_Op: Op) (dc_Mop: Mop) (dc_Dups: "(MopValueType, int) gomap")
  | incompatibleOrder (io_Key: string) (io_Values: "MopValueType list list")
  | RegInternalConflict (ri_Op: Op) (ri_Mop: Mop) (ri_Expected: Mop)
  | RegG1Conflict (rg_Op: Op) (rg_Mop: Mop) (rg_Writer: Op) (rg_Element: string)
  | cyclicVersion (cv_key: string) (cv_scc: "RegInt list") (cv_sources: "string list")

type_synonym Anomalies = "(string, Anomaly list) gomap"

definition Merge :: "range_order \<Rightarrow> Anomalies \<Rightarrow> Anomalies \<Rightarrow> Anomalies" where
  "Merge \<rho> another a = fold (\<lambda>key a.
       if key \<notin> keys a then AList.update key (get_or [] another key) a
       else AList.update key (get_or [] a key @ get_or [] another key) a)
     (go_range \<rho> (map fst another)) a"

definition SelectKeys :: "range_order \<Rightarrow> (string, unit) gomap \<Rightarrow> Anomalies \<Rightarrow> Anomalies" where
  "SelectKeys \<rho> anomalyNames a = fold (\<lambda>name anomalies.
       case map_of a name of Some value \<Rightarrow> AList.update name value anomalies | None \<Rightarrow> anomalies)
     (go_range \<rho> (map fst anomalyNames)) []"

definition Keys :: "range_order \<Rightarrow> Anomalies \<Rightarrow> string list" where
  "Keys \<rho> a = sort (go_range \<rho> (map fst a))"

definition RelSet_Append :: "range_order \<Rightarrow> Rel list \<Rightarrow> (Rel, unit) gomap \<Rightarrow> Rel list" where
  "RelSet_Append \<rho> r rs =
     (let set = fold (\<lambda>rel. AList.update rel ()) (go_range (sub \<rho> 0) (map fst rs))
                  (fold (\<lambda>rel. AList.update rel ()) r [])
      in go_range (sub \<rho> 1) (map fst set))"

section \<open>Explainers\<close>

datatype DataExplainer =
    StatelessExplainer "range_order \<Rightarrow> Op \<Rightarrow> Op \<Rightarrow> ExplainResult option option"
      "ExplainResult option \<Rightarrow> string \<Rightarrow> string \<Rightarrow> Text option"
  | CombinedExplainer "DataExplainer list" "(ExplainResult, nat) gomap"

definition NewCombineExplainer :: "DataExplainer list \<Rightarrow> DataExplainer" where
  "NewCombineExplainer explainers = CombinedExplainer explainers []"

text \<open>The loop of \<open>CombinedExplainer.ExplainPairData\<close> is \<open>explain_first\<close>: the position and the
  result of the first explainer that gives one.\<close>

fun ExplainPairData :: "range_order \<Rightarrow> DataExplainer \<Rightarrow> Op \<Rightarrow> Op \<Rightarrow>
      (ExplainResult option \<times> DataExplainer) option"
  and explain_first :: "range_order \<Rightarrow> nat \<Rightarrow> DataExplainer list \<Rightarrow> Op \<Rightarrow> Op \<Rightarrow>
      ((nat \<times> ExplainResult) option \<times> DataExplainer list) option" where
  "ExplainPairData \<rho> (StatelessExplainer explain render) p1 p2 = do {
     er \<leftarrow> explain \<rho> p1 p2;
     Some (er, StatelessExplainer explain render) }"
| "ExplainPairData \<rho> (CombinedExplainer explainers store) p1 p2 = do {
     (found, explainers') \<leftarrow> explain_first \<rho> 0 explainers p1 p2;
     Some (case found of
             None \<Rightarrow> (None, CombinedExplainer explainers' store)
           | Some (i, er) \<Rightarrow> (Some er, CombinedExplainer explainers' (AList.update er i store))) }"
| "explain_first \<rho> i [] p1 p2 = Some (None, [])"
| "explain_first \<rho> i (ex # exs) p1 p2 = do {
     (er, ex') \<leftarrow> ExplainPairData (sub \<rho> i) ex p1 p2;
     (case er of
        Some r \<Rightarrow> Some (Some (i, r), ex' # exs)
      | None \<Rightarrow> do {
          (found, exs') \<leftarrow> explain_first \<rho> (Suc i) exs p1 p2;
          Some (found, ex' # exs') }) }"

text \<open>A method call on the nil interface that a missing key of \<open>store\<close> yields panics.\<close>

fun RenderExplanation :: "DataExplainer \<Rightarrow> ExplainResult option \<Rightarrow> string \<Rightarrow> string \<Rightarrow> Text option" where
  "RenderExplanation (StatelessExplainer explain render) result p1 p2 = render result p1 p2"
| "RenderExplanation (CombinedExplainer explainers store) result p1 p2 =
     (case Option.bind result (map_of store) of
        None \<Rightarrow> None
      | Some i \<Rightarrow> (if i < length explainers
                   then map (\<lambda>ex. RenderExplanation ex result p1 p2) explainers ! i else None))"

text \<open>\<open>result.Type()\<close> panics on nil; the wrong type ends the process.\<close>

definition typed :: "DependType \<Rightarrow> ExplainResult option \<Rightarrow> ExplainResult option" where
  "typed t result = do { r \<leftarrow> result; if ExplainResult_Type r = t then Some r else None }"

definition ProcessExplainer :: DataExplainer where
  "ProcessExplainer = StatelessExplainer
     (\<lambda>_ p1 p2.
        if \<not> Present (op_Process p1) \<or> \<not> Present (op_Process p2) then Some None
        else do {
          a \<leftarrow> MustGet (op_Process p1);
          b \<leftarrow> MustGet (op_Process p2);
          if a = b then do {
            i \<leftarrow> MustGet (op_Index p1);
            j \<leftarrow> MustGet (op_Index p2);
            Some (if i < j then Some (ProcessResult a) else None) }
          else Some None })
     (\<lambda>result preName postName. do {
        res \<leftarrow> typed ProcessDepend result;
        (case res of
           ProcessResult p \<Rightarrow>
             Some [Txt (''process '' @ Itoa p @ '' excuted '' @ preName @ '' before '' @ postName)]
         | _ \<Rightarrow> None) })"

definition RealtimeExplainer :: "(Op, Op) gomap \<Rightarrow> DataExplainer" where
  "RealtimeExplainer pair = StatelessExplainer
     (\<lambda>_ preEnd postEnd. do {
        postStart \<leftarrow> map_of pair postEnd;
        i \<leftarrow> MustGet (op_Index preEnd);
        j \<leftarrow> MustGet (op_Index postStart);
        Some (if i < j then Some (RealtimeExplainResult preEnd postStart) else None) })
     (\<lambda>result preName postName. do {
        res \<leftarrow> typed RealtimeDepend result;
        (case res of
           RealtimeExplainResult preEnd postStart \<Rightarrow> do {
             i \<leftarrow> MustGet (op_Index preEnd);
             j \<leftarrow> MustGet (op_Index postStart);
             let s = [Txt (preName @ '' complete at index '' @ Itoa i @ '', '')];
             let s = s @ (case (op_Time preEnd, op_Time postStart) of
                            (Some t1, Some t2) \<Rightarrow>
                              if t1 < t2 then [Seconds (t2 - t1), Txt '' seconds just ''] else []
                          | _ \<Rightarrow> []);
             Some (s @ [Txt (''before the invocation of '' @ postName @ '' at index '' @ Itoa j)]) }
         | _ \<Rightarrow> None) })"

definition MonotonicKeyExplainer :: DataExplainer where
  "MonotonicKeyExplainer = StatelessExplainer (\<lambda>_ _ _. None) (\<lambda>_ _ _. None)"

section \<open>Explaining a cycle\<close>

definition ExplainCycle :: "range_order \<Rightarrow> DataExplainer \<Rightarrow> Circle \<Rightarrow> (CycleExplainerResult \<times> DataExplainer) option" where
  "ExplainCycle \<rho> explainer circle = do {
     (steps, explainer') \<leftarrow> foldM (\<lambda>(i, p1, p2) (steps, explainer). do {
         (res, explainer') \<leftarrow> ExplainPairData (sub \<rho> i) explainer p1 p2;
         Some (steps @ [\<lparr>step_Result = res\<rparr>], explainer') })
       (enumerate 1 (zip (circle_Path circle) (tl (circle_Path circle)))) ([], explainer);
     Some (\<lparr>cer_Circle = circle, cer_Steps = steps, cer_Typ = ''''\<rparr>, explainer') }"

text \<open>A binding is the operation with its name \<open>T\<close>\<open>i\<close>; \<open>cr.Circle.Path[:len-1]\<close> panics on an
  empty path.\<close>

definition explainBindings :: "(Op \<times> string) list \<Rightarrow> string option" where
  "explainBindings bindings = do {
     seq \<leftarrow> mapM (\<lambda>(op, name). do { s \<leftarrow> Op_String op; Some (''  '' @ name @ '' = '' @ s) }) bindings;
     Some (Join (''Let:'' # seq) ''\<newline>'') }"

definition explain_step :: "DataExplainer \<Rightarrow> (Op \<times> string) list \<Rightarrow> Step list \<Rightarrow> nat \<Rightarrow> nat \<Rightarrow> nat \<Rightarrow> Text option" where
  "explain_step pairExplainer bindings steps i j k =
     (if i < length bindings \<and> j < length bindings \<and> k < length steps
      then do {
        because \<leftarrow> RenderExplanation pairExplainer (step_Result (steps ! k)) (snd (bindings ! i)) (snd (bindings ! j));
        Some (Txt (snd (bindings ! i) @ '' < '' @ snd (bindings ! j) @ '', because '') # because) }
      else None)"

definition explainCycleOps :: "DataExplainer \<Rightarrow> (Op \<times> string) list \<Rightarrow> Step list \<Rightarrow> Text option" where
  "explainCycleOps pairExplainer bindings steps = do {
     exs \<leftarrow> mapM (\<lambda>i. explain_step pairExplainer bindings steps (i - 1) i (i - 1)) [1..<length bindings];
     ex \<leftarrow> explain_step pairExplainer bindings steps (length bindings - 1) 0 (length steps - 1);
     Some (Join (map (\<lambda>e. [Txt ''  - ''] @ e @ [Txt ''.'']) exs
                 @ [[Txt ''  - However, ''] @ ex @ [Txt '': a contradiction!'']]) [Txt ''\<newline>'']) }"

definition RenderCycleExplanation :: "DataExplainer \<Rightarrow> CycleExplainerResult \<Rightarrow> Text option" where
  "RenderCycleExplanation explainer cr =
     (if circle_Path (cer_Circle cr) = [] then None
      else do {
        let bindings = map (\<lambda>(i, v). (v, ''T'' @ Itoa (int i + 1))) (enumerate 0 (butlast (circle_Path (cer_Circle cr))));
        bindingsExplain \<leftarrow> explainBindings bindings;
        stepsResult \<leftarrow> explainCycleOps explainer bindings (cer_Steps cr);
        Some (Txt (bindingsExplain @ ''\<newline>\<newline>Then:\<newline>'') # stepsResult) })"

definition explainSCC :: "range_order \<Rightarrow> DirectedGraph \<Rightarrow> DataExplainer \<Rightarrow> SCC \<Rightarrow> (Text \<times> DataExplainer) option" where
  "explainSCC \<rho> g pairExplainer scc = do {
     vertices \<leftarrow> FindCycle (sub \<rho> 0) g scc;
     cycle \<leftarrow> NewCircle vertices;
     circle \<leftarrow> cycle;
     (cr, pairExplainer') \<leftarrow> ExplainCycle (sub \<rho> 1) pairExplainer circle;
     text \<leftarrow> RenderCycleExplanation pairExplainer' cr;
     Some (text, pairExplainer') }"

section \<open>Analyzers\<close>

text \<open>What an analyzer returns: anomalies (perhaps a nil map), a graph (perhaps nil), an explainer.\<close>

type_synonym AnalyzerResult = "Anomalies option \<times> DirectedGraph option \<times> DataExplainer"

type_synonym 'o Analyzer = "range_order \<Rightarrow> History \<Rightarrow> 'o list \<Rightarrow> AnalyzerResult option"

subsection \<open>Real time\<close>

definition pair_step :: "Op \<Rightarrow> (Op, Op) gomap \<times> (int, Op) gomap \<Rightarrow> ((Op, Op) gomap \<times> (int, Op) gomap) option" where
  "pair_step v = (\<lambda>(pair, invocations).
     let process = GetOr (op_Process v) AnonymousMagicNumber in
     (case op_Type v of
        OpTypeInvoke \<Rightarrow> Some (pair, AList.update process v invocations)
      | OpTypeInfo \<Rightarrow>
          (case map_of invocations process of
             Some invocation \<Rightarrow>
               Some (AList.update v invocation (AList.update invocation v pair), AList.delete process invocations)
           | None \<Rightarrow> Some (pair, AList.update process v invocations))
      | OpTypeOk \<Rightarrow>
          (case map_of invocations process of
             Some invocation \<Rightarrow>
               Some (AList.update v invocation (AList.update invocation v pair), AList.delete process invocations)
           | None \<Rightarrow> None)
      | OpTypeFail \<Rightarrow>
          (case map_of invocations process of
             Some invocation \<Rightarrow>
               Some (AList.update v invocation (AList.update invocation v pair), AList.delete process invocations)
           | None \<Rightarrow> None)
      | _ \<Rightarrow> Some (pair, invocations)))"

definition pair_history :: "History \<Rightarrow> (Op, Op) gomap option" where
  "pair_history history = do { (pair, _) \<leftarrow> foldM pair_step history ([], []); Some pair }"

definition opSet :: "Vertex list \<Rightarrow> (Op, unit) gomap" where
  "opSet vertex = fold (\<lambda>v dataMap. case v of VOp op \<Rightarrow> AList.update op () dataMap | _ \<Rightarrow> dataMap) vertex []"

definition setDel :: "range_order \<Rightarrow> (Op, unit) gomap \<Rightarrow> (Op, unit) gomap \<Rightarrow> (Op, unit) gomap" where
  "setDel \<rho> origin delta = fold AList.delete (go_range \<rho> (map fst delta)) origin"

definition realtime_step ::
  "range_order \<Rightarrow> (Op, Op) gomap \<Rightarrow> Op \<Rightarrow> DirectedGraph \<times> (Op, unit) gomap \<Rightarrow> DirectedGraph \<times> (Op, unit) gomap" where
  "realtime_step \<rho> pair op = (\<lambda>(g, doneEvents).
     (case op_Type op of
        OpTypeInvoke \<Rightarrow>
          (fold (\<lambda>k. Link (VOp k) (VOp (get_or zero_Op pair op)) Realtime)
             (go_range \<rho> (map fst doneEvents)) g, doneEvents)
      | OpTypeOk \<Rightarrow> (g, AList.update op () (setDel \<rho> doneEvents (opSet (In g (VOp op)))))
      | _ \<Rightarrow> (g, doneEvents)))"

definition RealtimeGraph :: "'o Analyzer" where
  "RealtimeGraph \<rho> history opts = do {
     pair \<leftarrow> pair_history history;
     let (realtimeGraph, _) = fold (\<lambda>(i, op). realtime_step (sub \<rho> i) pair op) (enumerate 0 history)
           (NewDirectedGraph, []);
     Some (None, Some realtimeGraph, RealtimeExplainer pair) }"

subsection \<open>Process order\<close>

definition ProcessOrder :: "History \<Rightarrow> int \<Rightarrow> DirectedGraph" where
  "ProcessOrder history process =
     (let processHistory = filter (on_process process) history
      in link_edges (map (\<lambda>(op1, op2). (VOp op1, VOp op2, Process)) (zip processHistory (tl processHistory)))
           NewDirectedGraph)"

definition ProcessGraph :: "'o Analyzer" where
  "ProcessGraph \<rho> history opts =
     (let okHistory = FilterType history OpTypeOk;
          (processes, graphs) = fold (\<lambda>op (processes, graphs).
             (case op_Process op of
                OptInt p \<Rightarrow>
                  if p \<notin> keys processes
                  then (AList.update p () processes, graphs @ [ProcessOrder okHistory p])
                  else (processes, graphs)
              | OptNil \<Rightarrow> (processes, graphs))) okHistory ([], [])
      in Some (None, Some (DigraphUnion \<rho> graphs), ProcessExplainer))"

subsection \<open>Monotonic keys\<close>

text \<open>
  The graph of \<open>MonotonicKeyOrder\<close> is a zero \<open>DirectedGraph\<close>: its maps are nil, so the first call
  of \<open>Link\<close> panics. \<open>key_value\<close> is the value recorded for an operation: that of its first
  micro-operation on the key, when it is an int.
\<close>

definition key_value :: "string \<Rightarrow> Mop list \<Rightarrow> int option" where
  "key_value k mops =
     (case List.find (\<lambda>mop. GetKey mop = k) mops of
        None \<Rightarrow> None
      | Some mop \<Rightarrow> (case GetValue mop of MV_int v \<Rightarrow> Some v | _ \<Rightarrow> None))"

definition LinkAllToAll_nil :: "Vertex list \<Rightarrow> Vertex list \<Rightarrow> DirectedGraph option" where
  "LinkAllToAll_nil xs ys = (if xs \<noteq> [] \<and> ys \<noteq> [] then None else Some NewDirectedGraph)"

definition MonotonicKeyOrder :: "History \<Rightarrow> string \<Rightarrow> DirectedGraph option" where
  "MonotonicKeyOrder history k = do {
     (val2ops, vals) \<leftarrow> foldM (\<lambda>op (val2ops, vals). do {
         mops \<leftarrow> deref op;
         Some (case key_value k mops of
                 None \<Rightarrow> (val2ops, vals)
               | Some v \<Rightarrow>
                   (case map_of val2ops v of
                      Some ops \<Rightarrow> (AList.update v (ops @ [op]) val2ops, vals)
                    | None \<Rightarrow> (AList.update v [op] val2ops, vals @ [v]))) }) history ([], []);
     let vals = sort vals;
     foldM (\<lambda>v g. LinkAllToAll_nil (map VOp (get_or [] val2ops v)) (map VOp (get_or [] val2ops v)))
       (butlast vals) NewDirectedGraph }"

definition MonotonicKeyGraph :: "range_order \<Rightarrow> History \<Rightarrow> AnalyzerResult option" where
  "MonotonicKeyGraph \<rho> history = do {
     let okHistory = FilterType history OpTypeOk;
     ks \<leftarrow> GetKeys okHistory MopTypeRead;
     (_, graphs) \<leftarrow> foldM (\<lambda>key (seen, graphs).
         if key \<notin> keys seen
         then do { g \<leftarrow> MonotonicKeyOrder okHistory key; Some (AList.update key () seen, graphs @ [g]) }
         else Some (seen, graphs)) ks ([], []);
     Some (None, Some (DigraphUnion \<rho> graphs), MonotonicKeyExplainer) }"

subsection \<open>Combination and check\<close>

definition read_anomalies :: "Anomalies option \<Rightarrow> Anomalies" where
  "read_anomalies a = (case a of None \<Rightarrow> [] | Some m \<Rightarrow> m)"

definition Combine :: "'o Analyzer list \<Rightarrow> 'o Analyzer" where
  "Combine analyzers \<rho> history opts = do {
     (ca, cg, ce) \<leftarrow> foldM (\<lambda>(i, analyzer) (ca, cg, ce). do {
         (a, gp, e) \<leftarrow> analyzer (sub (sub \<rho> i) 0) history opts;
         g \<leftarrow> gp;
         Some (Merge (sub (sub \<rho> i) 1) (read_anomalies a) ca, DigraphUnion (sub (sub \<rho> i) 2) [cg, g], ce @ [e]) })
       (enumerate 0 analyzers) ([], NewDirectedGraph, []);
     Some (Some ca, Some cg, NewCombineExplainer ce) }"

record CheckResult =
  cr_Graph :: DirectedGraph
  cr_Explainer :: DataExplainer
  cr_Cycles :: "Text list"
  cr_Sccs :: "SCC list"
  cr_Anomalies :: "Anomalies option"

text \<open>\<open>anomalies["empty-transaction-graph"] = ...\<close> panics on a nil map.\<close>

definition checkHelper :: "range_order \<Rightarrow> 'o Analyzer \<Rightarrow> History \<Rightarrow> 'o list \<Rightarrow>
    (DirectedGraph \<times> DataExplainer \<times> Text list \<times> SCC list \<times> Anomalies option) option" where
  "checkHelper \<rho> analyzer history opts = do {
     (anomalies, gp, exp) \<leftarrow> analyzer (sub \<rho> 0) history opts;
     g \<leftarrow> gp;
     sccs \<leftarrow> StronglyConnectedComponents (sub \<rho> 1) g;
     (cycles, exp') \<leftarrow> foldM (\<lambda>(i, scc) (cycles, exp). do {
         (text, exp') \<leftarrow> explainSCC (sub \<rho> i) g exp scc;
         Some (cycles @ [text], exp') }) (enumerate 3 sccs) ([], exp);
     if IsEmpty (sub \<rho> 2) g
     then (case anomalies of
             None \<Rightarrow> None
           | Some a \<Rightarrow> Some (g, exp', cycles, sccs, Some (AList.update ''empty-transaction-graph'' [] a)))
     else Some (g, exp', cycles, sccs, anomalies) }"

definition Check :: "range_order \<Rightarrow> 'o Analyzer \<Rightarrow> History \<Rightarrow> 'o list \<Rightarrow> CheckResult option" where
  "Check \<rho> analyzer history opts = do {
     (g, explainer, circles, sccs, anomalies) \<leftarrow> checkHelper \<rho> analyzer history opts;
     Some \<lparr>cr_Graph = g, cr_Explainer = explainer, cr_Cycles = circles, cr_Sccs = sccs,
           cr_Anomalies = anomalies\<rparr> }"

end
