(* ===== verification/Txn.thy ===== *)
theory Txn
  imports Analyzers Consistency_Models "HOL-Library.Word"
begin

unbundle bit_operations_syntax

text \<open>
  Transactions: \<open>pkg/elle/txn/helper_fn.go\<close>, \<open>cycle.go\<close> and \<open>txn.go\<close>. Iterating over the
  micro-operations of a history, the writes of failed and of unfinished transactions, the
  specifications of the cycle anomalies, the search of a component for each of them, and the
  verdict.
\<close>

section \<open>Iterating over micro-operations\<close>

record OpMopIterator =
  omi_history :: History
  omi_historyIndex :: nat
  omi_mopIndex :: nat

definition OpMops :: "History \<Rightarrow> OpMopIterator" where
  "OpMops history = \<lparr>omi_history = history, omi_historyIndex = 0, omi_mopIndex = 0\<rparr>"

definition HasNext :: "OpMopIterator \<Rightarrow> bool" where
  "HasNext omi \<longleftrightarrow> omi_historyIndex omi < length (omi_history omi)"

text \<open>Indexing past the end, as for an operation without micro-operations, panics.\<close>

definition Next :: "OpMopIterator \<Rightarrow> (Op \<times> Mop \<times> OpMopIterator) option" where
  "Next omi =
     (if omi_historyIndex omi < length (omi_history omi)
      then (let op = omi_history omi ! omi_historyIndex omi in do {
        mops \<leftarrow> deref op;
        if omi_mopIndex omi < length mops
        then (let omi' = omi\<lparr>omi_mopIndex := omi_mopIndex omi + 1\<rparr>
              in Some (op, mops ! omi_mopIndex omi,
                   if omi_mopIndex omi' = ValueLength op
                   then omi'\<lparr>omi_mopIndex := 0, omi_historyIndex := omi_historyIndex omi' + 1\<rparr>
                   else omi'))
        else None })
      else None)"

text \<open>The pairs a loop \<open>for iter.HasNext() { op, mop := iter.Next() ... }\<close> goes through.\<close>

function iterate :: "OpMopIterator \<Rightarrow> (Op \<times> Mop) list option" where
  "iterate omi =
     (if HasNext omi
      then do {
        (op, mop, omi') \<leftarrow> Next omi;
        rest \<leftarrow> iterate omi';
        Some ((op, mop) # rest) }
      else Some [])"

  by pat_completeness auto
termination
  by (relation "measures [\<lambda>omi. length (omi_history omi) - omi_historyIndex omi,
        \<lambda>omi. ValueLength (omi_history omi ! omi_historyIndex omi) - omi_mopIndex omi]")
    (auto simp: HasNext_def Next_def Let_def deref_def ValueLength_def split: if_splits option.splits)

declare iterate.simps [simp del]

section \<open>Failed and intermediate writes\<close>

type_synonym write_map = "(string, (MopValueType, Op) gomap) gomap"

definition insert_writer :: "string \<Rightarrow> MopValueType \<Rightarrow> Op \<Rightarrow> write_map \<Rightarrow> write_map option" where
  "insert_writer k v op m = do {
     v' \<leftarrow> hash_key v;
     Some (AList.update k (AList.update v' op (get_or [] m k)) m) }"

definition IntermediateWrites :: "History \<Rightarrow> write_map option" where
  "IntermediateWrites history = foldM (\<lambda>op im.
     case op_Value op of
       None \<Rightarrow> Some im
     | Some (_, mops) \<Rightarrow> do {
         (im', _) \<leftarrow> foldM (\<lambda>mop (im, final).
           if IsAppend mop
           then do {
             im' \<leftarrow> (case map_of final (GetKey mop) of
                      Some lastOp \<Rightarrow> insert_writer (GetKey mop) lastOp op im
                    | None \<Rightarrow> Some im);
             Some (im', AList.update (GetKey mop) (GetValue mop) final) }
           else Some (im, final)) mops (im, []);
         Some im' }) history []"

definition FailedWrites :: "History \<Rightarrow> write_map option" where
  "FailedWrites history = foldM (\<lambda>op failed.
     if op_Type op \<noteq> OpTypeFail then Some failed
     else do {
       mops \<leftarrow> deref op;
       foldM (\<lambda>mop failed.
         if IsAppend mop then insert_writer (GetKey mop) (GetValue mop) op failed else Some failed) mops failed })
     history []"

section \<open>Hashes\<close>

definition fnv32a :: "8 word list \<Rightarrow> 32 word" where
  "fnv32a bs = fold (\<lambda>b h. (h XOR ucast b) * 16777619) bs 2166136261"

definition byte_of :: "char \<Rightarrow> 8 word" where
  "byte_of c = of_nat (of_char c)"

definition arrayHash :: "Rel list \<Rightarrow> 32 word" where
  "arrayHash sset = fnv32a (concat (map (\<lambda>v. map byte_of (rel_string v)) sset))"

text \<open>\<open>binary.LittleEndian.PutUint64(bs, uint64(v))\<close>\<close>

definition little_endian :: "64 word \<Rightarrow> 8 word list" where
  "little_endian w = map (\<lambda>i. ucast (drop_bit (8 * i) w)) [0..<8]"

definition IntArrayHash :: "int list \<Rightarrow> 32 word" where
  "IntArrayHash array = fnv32a (concat (map (\<lambda>v. little_endian (word_of_int v)) array))"

section \<open>Filtered graphs\<close>

definition setKeys :: "range_order \<Rightarrow> (Rel, unit) gomap \<Rightarrow> Rel list" where
  "setKeys \<rho> m = go_range \<rho> (map fst m)"

type_synonym Memo = "(32 word, DirectedGraph) gomap"

text \<open>The function that \<open>FilteredGraphs(graph)\<close> returns, with its captured \<open>memo\<close>.\<close>

definition FilteredGraphs :: "DirectedGraph \<Rightarrow> range_order \<Rightarrow> Rel list \<Rightarrow> Memo \<Rightarrow> DirectedGraph \<times> Memo" where
  "FilteredGraphs graph \<rho> rs memo =
     (let rs = sort rs; v = arrayHash rs
      in case map_of memo v of
           Some g \<Rightarrow> (g, memo)
         | None \<Rightarrow> (let g = FilterRelationships \<rho> graph rs in (g, AList.update v g memo)))"

section \<open>The specifications of the cycle anomalies\<close>

type_synonym FilterExType = "CycleExplainerResult \<Rightarrow> bool"

text \<open>\<^const>\<open>None\<close> is a nil map or a nil function.\<close>

record CycleAnomalySpecType =
  spec_Rels :: "(Rel, unit) gomap option"
  spec_FirstRel :: Rel
  spec_RestRels :: "(Rel, unit) gomap option"
  spec_FilterEx :: "FilterExType option"
  spec_With :: "CyclePredicate option"

definition rel_set :: "Rel list \<Rightarrow> (Rel, unit) gomap" where
  "rel_set rs = fold (\<lambda>v. AList.update v ()) rs []"

definition fromRelsWithFilter :: "FilterExType option \<Rightarrow> Rel list \<Rightarrow> CycleAnomalySpecType" where
  "fromRelsWithFilter fx rs = \<lparr>spec_Rels = Some (rel_set rs), spec_FirstRel = Empty,
     spec_RestRels = None, spec_FilterEx = fx, spec_With = None\<rparr>"

definition fromRels :: "Rel list \<Rightarrow> CycleAnomalySpecType" where
  "fromRels rs = fromRelsWithFilter None rs"

definition fromRelsAndWith :: "CyclePredicate \<Rightarrow> Rel list \<Rightarrow> CycleAnomalySpecType" where
  "fromRelsAndWith pred rs = (fromRels rs)\<lparr>spec_With := Some pred\<rparr>"

definition fromFirstRelAndRestWithFilter :: "FilterExType option \<Rightarrow> Rel \<Rightarrow> Rel list \<Rightarrow> CycleAnomalySpecType" where
  "fromFirstRelAndRestWithFilter fx first rests = \<lparr>spec_Rels = None, spec_FirstRel = first,
     spec_RestRels = Some (rel_set rests), spec_FilterEx = fx, spec_With = None\<rparr>"

definition fromFirstRelAndRest :: "Rel \<Rightarrow> Rel list \<Rightarrow> CycleAnomalySpecType" where
  "fromFirstRelAndRest first rests = fromFirstRelAndRestWithFilter None first rests"

definition buildFilterExByType :: "string \<Rightarrow> FilterExType" where
  "buildFilterExByType required = (\<lambda>cr. cer_Typ cr = required)"

definition is_rw :: "CycleTrace \<Rightarrow> bool" where
  "is_rw path \<longleftrightarrow> length (ct_Rels path) = 1 \<and> hd (ct_Rels path) = RW"

fun nonadjacent_loop :: "bool \<Rightarrow> nat \<Rightarrow> CycleTrace list \<Rightarrow> bool" where
  "nonadjacent_loop lastIsRw rwCount [] = (rwCount > 1)"
| "nonadjacent_loop lastIsRw rwCount (path # trace) =
     (let rw = is_rw path
      in if lastIsRw \<and> rw then False
         else nonadjacent_loop rw (if rw then rwCount + 1 else rwCount) trace)"

definition nonadjacentRW :: CyclePredicate where
  "nonadjacentRW trace = (if length trace < 2 then False else nonadjacent_loop True 0 trace)"

definition by_type :: "string \<Rightarrow> FilterExType option" where
  "by_type t = Some (buildFilterExByType t)"

definition CycleAnomalySpecs :: "(string, CycleAnomalySpecType) gomap" where
  "CycleAnomalySpecs = [
     (''G0'', fromRels [WW]),
     (''G1c'', fromFirstRelAndRest WR [WW, WR]),
     (''G-single'', fromFirstRelAndRest RW [WW, WR]),
     (''G-nonadjacent'', fromRelsAndWith nonadjacentRW [WW, WR, RW]),
     (''G2-item'', fromFirstRelAndRestWithFilter (by_type ''G2-item'') RW [WR, RW, WW]),
     (''G0-process'', fromRelsWithFilter (by_type ''G0-process'') [WW, Process]),
     (''G1c-process'', fromFirstRelAndRestWithFilter (by_type ''G1c-process'') WR [WW, WR, Process]),
     (''G-single-process'', fromFirstRelAndRestWithFilter (by_type ''G-single-process'') RW [WW, WR, Process]),
     (''G2-item-process'', fromFirstRelAndRestWithFilter (by_type ''G2-item-process'') RW [WW, WR, RW, Process]),
     (''G0-realtime'', fromRelsWithFilter (by_type ''G0-realtime'') [WW, Realtime]),
     (''G1c-realtime'', fromFirstRelAndRestWithFilter (by_type ''G1c-realtime'') WR [WW, WR, Realtime]),
     (''G-single-realtime'', fromFirstRelAndRestWithFilter (by_type ''G-single-realtime'') RW [WW, WR, Realtime]),
     (''G2-item-realtime'', fromFirstRelAndRestWithFilter (by_type ''G2-item-realtime'') RW [WW, WR, Realtime, RW])]"

type_synonym name_set = "(string, unit) gomap"

definition compactAnomalies :: "string list \<Rightarrow> name_set" where
  "compactAnomalies anomalies = fold (\<lambda>v. AList.update v ()) anomalies []"

definition union_names :: "range_order \<Rightarrow> name_set \<Rightarrow> name_set \<Rightarrow> name_set" where
  "union_names \<rho> unionSrc dest = fold (\<lambda>k. AList.update k ()) (go_range \<rho> (map fst unionSrc)) dest"

definition hasIntersection :: "range_order \<Rightarrow> name_set \<Rightarrow> name_set \<Rightarrow> bool" where
  "hasIntersection \<rho> m1 m2 = list_ex (\<lambda>k. k \<in> keys m1) (go_range \<rho> (map fst m2))"

definition CycleTypeNames :: name_set where
  "CycleTypeNames = fold (\<lambda>k. AList.update k ()) (map fst CycleAnomalySpecs)
     (compactAnomalies [''G-nonadjacent-process'', ''G-nonadjacent-realtime''])"

definition UnknownAnomalyTypes :: name_set where
  "UnknownAnomalyTypes = compactAnomalies [''empty-transaction-graph'', ''cycle-search-timeout'']"

text \<open>\<open>strings.Contains\<close>\<close>

fun str_prefix :: "string \<Rightarrow> string \<Rightarrow> bool" where
  "str_prefix [] s = True"
| "str_prefix (c # p) [] = False"
| "str_prefix (c # p) (d # s) = (c = d \<and> str_prefix p s)"

fun Contains :: "string \<Rightarrow> string \<Rightarrow> bool" where
  "Contains [] substr = str_prefix substr []"
| "Contains (c # s) substr = (str_prefix substr (c # s) \<or> Contains s substr)"

definition ProcessAnalysisTypes :: name_set where
  "ProcessAnalysisTypes = filter (\<lambda>(k, _). Contains k ''process'') CycleTypeNames"

definition RealtimeAnalysisTypes :: name_set where
  "RealtimeAnalysisTypes = filter (\<lambda>(k, _). Contains k ''realtime'') CycleTypeNames"

section \<open>Classifying a cycle\<close>

definition step_Type :: "Step \<Rightarrow> DependType option" where
  "step_Type step = map_option ExplainResult_Type (step_Result step)"

fun rw_adjacent :: "DependType \<Rightarrow> DependType list \<Rightarrow> bool" where
  "rw_adjacent lastType [] = False"
| "rw_adjacent lastType (t # ts) =
     (if lastType = RWDepend \<and> t = RWDepend then True else rw_adjacent t ts)"

definition CycleExplainerWrapper_ExplainCycle ::
  "range_order \<Rightarrow> DataExplainer \<Rightarrow> Circle \<Rightarrow> (CycleExplainerResult \<times> DataExplainer) option" where
  "CycleExplainerWrapper_ExplainCycle \<rho> pairExplainer circle = do {
     (ex, pairExplainer') \<leftarrow> ExplainCycle \<rho> pairExplainer circle;
     types \<leftarrow> mapM step_Type (cer_Steps ex);
     let typeFrequencies = fold (\<lambda>t m. AList.update t (get_or 0 m t + 1) m) types [];
     let realtime = (get_or 0 typeFrequencies RealtimeDepend :: nat);
     let process = get_or 0 typeFrequencies ProcessDepend;
     let ww = get_or 0 typeFrequencies WWDepend;
     let wr = get_or 0 typeFrequencies WRDepend;
     let rw = get_or 0 typeFrequencies RWDepend;
     lastType \<leftarrow> (if types = [] then None else Some (last types));
     let rwAdj = rw_adjacent lastType types;
     dataDepType \<leftarrow>
       (if rw = 1 then Some ''G-single''
        else if 1 < rw then Some (if rwAdj then ''G2-item'' else ''G-nonadjacent'')
        else if 0 < wr then Some ''G1c''
        else if 0 < ww then Some ''G0''
        else None);
     let subtype = (if 0 < realtime then ''-realtime'' else if 0 < process then ''-process'' else '''');
     Some (\<lparr>cer_Circle = cer_Circle ex, cer_Steps = cer_Steps ex, cer_Typ = dataDepType @ subtype\<rparr>,
           pairExplainer') }"

section \<open>Searching the components\<close>

text \<open>
  One round of the loop over the specifications: the memo and the explainer are threaded through.
\<close>

definition spec_cycle :: "range_order \<Rightarrow> DirectedGraph \<Rightarrow> SCC \<Rightarrow> CycleAnomalySpecType \<Rightarrow> Memo \<Rightarrow>
    (Circle option \<times> Memo) option" where
  "spec_cycle \<rho> graph scc v memo =
     (let (runtimeGraph, memo) =
            (case spec_Rels v of
               Some rs \<Rightarrow> FilteredGraphs graph (sub \<rho> 0) (setKeys (sub \<rho> 1) rs) memo
             | None \<Rightarrow> (graph, memo))
      in case spec_With v of
           Some pred \<Rightarrow> do {
             c \<leftarrow> FindCycleWith (sub \<rho> 2) runtimeGraph scc pred;
             cycle \<leftarrow> NewCircle c;
             Some (cycle, memo) }
         | None \<Rightarrow>
             (if spec_Rels v \<noteq> None
              then do {
                c \<leftarrow> FindCycle (sub \<rho> 2) runtimeGraph scc;
                cycle \<leftarrow> NewCircle c;
                Some (cycle, memo) }
              else do {
                let rest = (case spec_RestRels v of None \<Rightarrow> [] | Some m \<Rightarrow> m);
                let (filteredGraph, memo) =
                  FilteredGraphs graph (sub \<rho> 3) (RelSet_Append (sub \<rho> 4) [spec_FirstRel v] rest) memo;
                c \<leftarrow> FindCycleStartingWith (sub \<rho> 5) filteredGraph scc (spec_FirstRel v)
                  (RelSet_Append (sub \<rho> 6) [] rest);
                cycle \<leftarrow> NewCircle c;
                Some (cycle, memo) }))"

definition spec_case :: "range_order \<Rightarrow> DirectedGraph \<Rightarrow> SCC \<Rightarrow> CycleAnomalySpecType \<Rightarrow>
    Memo \<times> DataExplainer \<times> CycleExplainerResult list \<Rightarrow>
    (Memo \<times> DataExplainer \<times> CycleExplainerResult list) option" where
  "spec_case \<rho> graph scc v = (\<lambda>(memo, explainer, cases). do {
     (cycle, memo') \<leftarrow> spec_cycle (sub \<rho> 0) graph scc v memo;
     (case cycle of
        None \<Rightarrow> Some (memo', explainer, cases)
      | Some circle \<Rightarrow> do {
          (ex, explainer') \<leftarrow> CycleExplainerWrapper_ExplainCycle (sub \<rho> 1) explainer circle;
          Some (memo', explainer',
            case spec_FilterEx v of
              Some fx \<Rightarrow> if fx ex then cases @ [ex] else cases
            | None \<Rightarrow> cases @ [ex]) }) })"

definition CycleCasesInScc :: "range_order \<Rightarrow> DirectedGraph \<Rightarrow> Memo \<Rightarrow> DataExplainer \<Rightarrow> SCC \<Rightarrow>
    (Memo \<times> DataExplainer \<times> CycleExplainerResult list) option" where
  "CycleCasesInScc \<rho> graph memo explainer scc =
     foldM (\<lambda>(i, cn, v). spec_case (sub \<rho> i) graph scc v)
       (enumerate 1 (go_range (sub \<rho> 0) CycleAnomalySpecs)) (memo, explainer, [])"

definition add_case :: "CycleExplainerResult \<Rightarrow> Anomalies \<Rightarrow> Anomalies" where
  "add_case v cases = AList.update (cer_Typ v) (get_or [] cases (cer_Typ v) @ [CycleAnomaly v]) cases"

definition CycleCases :: "range_order \<Rightarrow> DirectedGraph \<Rightarrow> DataExplainer \<Rightarrow> SCC list \<Rightarrow> (Anomalies \<times> DataExplainer) option" where
  "CycleCases \<rho> graph pairExplainer sccs = do {
     (_, explainer', cases) \<leftarrow> foldM (\<lambda>(i, scc) (memo, explainer, cases). do {
         (memo', explainer', vs) \<leftarrow> CycleCasesInScc (sub \<rho> i) graph memo explainer scc;
         Some (memo', explainer', fold add_case vs cases) }) (enumerate 0 sccs) ([], pairExplainer, []);
     Some (cases, explainer') }"

text \<open>The loop that stores the cases panics when there is one and the map of anomalies is nil.\<close>

definition store_cases :: "range_order \<Rightarrow> Anomalies \<Rightarrow> Anomalies option \<Rightarrow> Anomalies option option" where
  "store_cases \<rho> cases anomalies = foldM (\<lambda>k a. do {
       m \<leftarrow> a;
       Some (Some (AList.update k (get_or [] cases k) m)) }) (go_range \<rho> (map fst cases)) anomalies"

definition Cycles :: "range_order \<Rightarrow> 'o Analyzer \<Rightarrow> History \<Rightarrow> 'o list \<Rightarrow> CheckResult option" where
  "Cycles \<rho> analyzer history opts = do {
     checkedResult \<leftarrow> Check (sub \<rho> 0) analyzer history opts;
     (cases, explainer) \<leftarrow> CycleCases (sub \<rho> 1) (cr_Graph checkedResult) (cr_Explainer checkedResult) (cr_Sccs checkedResult);
     anomalies \<leftarrow> store_cases (sub \<rho> 2) cases (cr_Anomalies checkedResult);
     Some (checkedResult\<lparr>cr_Explainer := explainer, cr_Anomalies := anomalies\<rparr>) }"

section \<open>Options and verdict\<close>

record 'o Opts =
  opts_ConsistencyModels :: "string list option"
  opts_Anomalies :: "string list"
  opts_AdditionalGraphs :: "'o Analyzer list"

definition prohibitedAnomalyTypes :: "range_order \<Rightarrow> string list option \<Rightarrow> string list \<Rightarrow> name_set option" where
  "prohibitedAnomalyTypes \<rho> cm anomalies = do {
     let cm = (case cm of None \<Rightarrow> [''strict-serializable''] | Some ms \<Rightarrow> ms);
     a1 \<leftarrow> AllAnomaliesImplying (sub \<rho> 0) anomalies;
     a2 \<leftarrow> AnomaliesProhibitedBy (sub \<rho> 1) cm;
     Some (union_names (sub \<rho> 2) (compactAnomalies a2) (compactAnomalies a1)) }"

definition reportableAnomalyTypes :: "range_order \<Rightarrow> string list option \<Rightarrow> string list \<Rightarrow> name_set option" where
  "reportableAnomalyTypes \<rho> cm anomalies = do {
     dest \<leftarrow> prohibitedAnomalyTypes (sub \<rho> 0) cm anomalies;
     Some (union_names (sub \<rho> 1) UnknownAnomalyTypes dest) }"

definition AdditionalGraphs :: "range_order \<Rightarrow> 'o Opts \<Rightarrow> 'o Analyzer list option" where
  "AdditionalGraphs \<rho> opts = do {
     ats \<leftarrow> reportableAnomalyTypes (sub \<rho> 0) (opts_ConsistencyModels opts) (opts_Anomalies opts);
     Some (if hasIntersection (sub \<rho> 1) ats RealtimeAnalysisTypes
           then opts_AdditionalGraphs opts @ [RealtimeGraph]
           else if hasIntersection (sub \<rho> 2) ats ProcessAnalysisTypes
           then opts_AdditionalGraphs opts @ [ProcessGraph]
           else opts_AdditionalGraphs opts) }"

record TxnCheckResult =
  tcr_IsUnknown :: bool
  tcr_Valid :: bool
  tcr_AnomalyTypes :: "string list"
  tcr_Anomalies :: Anomalies
  tcr_Not :: "string list"
  tcr_AlsoNot :: "string list"

definition ResultMap :: "range_order \<Rightarrow> 'o Opts \<Rightarrow> Anomalies option \<Rightarrow> TxnCheckResult option" where
  "ResultMap \<rho> opts anomalies_map = do {
     let anomalies = read_anomalies anomalies_map;
     prohibited \<leftarrow> prohibitedAnomalyTypes (sub \<rho> 0) (opts_ConsistencyModels opts) (opts_Anomalies opts);
     let bad = SelectKeys (sub \<rho> 1) prohibited anomalies;
     reportable_types \<leftarrow> reportableAnomalyTypes (sub \<rho> 2) (opts_ConsistencyModels opts) (opts_Anomalies opts);
     let reportable = SelectKeys (sub \<rho> 3) reportable_types anomalies;
     if length reportable = 0
     then Some \<lparr>tcr_IsUnknown = False, tcr_Valid = True, tcr_AnomalyTypes = [], tcr_Anomalies = [],
                tcr_Not = [], tcr_AlsoNot = []\<rparr>
     else do {
       let (valid, unknown) = (if length bad \<noteq> 0 then (False, False)
                               else if length reportable \<noteq> 0 then (False, True) else (True, False));
       (not, alsoNot) \<leftarrow> FriendlyBoundary (sub \<rho> 4) (Keys (sub \<rho> 5) anomalies);
       Some \<lparr>tcr_IsUnknown = unknown, tcr_Valid = valid, tcr_AnomalyTypes = Keys (sub \<rho> 6) reportable,
             tcr_Anomalies = reportable, tcr_Not = not, tcr_AlsoNot = alsoNot\<rparr> } }"

section \<open>Adding the cases of a checker\<close>

text \<open>\<open>if len(cases) != 0 { anomalies[name] = cases }\<close>, as both checkers do with the cases they found
  outside the graph; a nil map cannot be written.\<close>

definition set_anomalies :: "string \<Rightarrow> Anomaly list \<Rightarrow> Anomalies option \<Rightarrow> Anomalies option option" where
  "set_anomalies name cases anomalies =
     (if length cases \<noteq> 0 then do { m \<leftarrow> anomalies; Some (Some (AList.update name cases m)) }
      else Some anomalies)"

end
