(* ===== verification/Txn_Laws.thy ===== *)
theory Txn_Laws
  imports Txn
begin

text \<open>
  What \<open>pkg/elle/txn\<close> promises: the iterator visits every micro-operation once, the predicate of
  \<open>G-nonadjacent\<close> and the classification of a cycle mean what their comments say, the memo of
  filtered graphs never returns a graph of other labels, and the verdict reports exactly the
  anomalies of the requested models.
\<close>

section \<open>The iterator\<close>

text \<open>The micro-operations of an event, none for a nil pointer.\<close>

definition mops_of :: "Op \<Rightarrow> Mop list" where
  "mops_of op = (case op_Value op of None \<Rightarrow> [] | Some (_, mops) \<Rightarrow> mops)"

definition op_mops :: "Op \<Rightarrow> (Op \<times> Mop) list" where
  "op_mops op = map (Pair op) (mops_of op)"

lemma ValueLength_mops [simp]: "ValueLength op = length (mops_of op)"
  by (simp add: ValueLength_def mops_of_def split: option.splits)

lemma deref_mops: "deref op = (if op_Value op = None then None else Some (mops_of op))"
  by (auto simp: deref_def mops_of_def split: option.splits)

lemma mops_of_Some: "mops_of op \<noteq> [] \<Longrightarrow> deref op = Some (mops_of op)"
  by (auto simp: deref_def mops_of_def split: option.splits)

abbreviation iter_at :: "History \<Rightarrow> nat \<Rightarrow> nat \<Rightarrow> OpMopIterator" where
  "iter_at h i j \<equiv> \<lparr>omi_history = h, omi_historyIndex = i, omi_mopIndex = j\<rparr>"

lemma Next_within:
  assumes "i < length h" "j < length (mops_of (h ! i))"
  shows "Next (iter_at h i j) = Some (h ! i, mops_of (h ! i) ! j,
    if Suc j = length (mops_of (h ! i)) then iter_at h (Suc i) 0 else iter_at h i (Suc j))"
proof -
  have "mops_of (h ! i) \<noteq> []" using assms(2) by auto
  with assms show ?thesis by (simp add: Next_def Let_def mops_of_Some)
qed

lemma Next_empty: "mops_of (h ! i) = [] \<Longrightarrow> Next (iter_at h i 0) = None"
  by (auto simp: Next_def Let_def deref_mops)

lemma iterate_within:
  assumes "i < length h" "j < length (mops_of (h ! i))"
  shows "iterate (iter_at h i j) = do {
    rest \<leftarrow> iterate (iter_at h (Suc i) 0);
    Some (map (Pair (h ! i)) (drop j (mops_of (h ! i))) @ rest) }"
  using assms(2)
proof (induction "length (mops_of (h ! i)) - j" arbitrary: j)
  case (Suc n)
  have drop: "drop j (mops_of (h ! i)) = mops_of (h ! i) ! j # drop (Suc j) (mops_of (h ! i))"
    using Suc.prems by (rule Cons_nth_drop_Suc [symmetric])
  show ?case
  proof (cases "Suc j = length (mops_of (h ! i))")
    case True
    then show ?thesis
      by (subst iterate.simps) (simp add: HasNext_def assms(1) Next_within Suc.prems drop)
  next
    case False
    with Suc have "Suc j < length (mops_of (h ! i))" by simp
    with Suc.hyps have "iterate (iter_at h i (Suc j)) = do {
        rest \<leftarrow> iterate (iter_at h (Suc i) 0);
        Some (map (Pair (h ! i)) (drop (Suc j) (mops_of (h ! i))) @ rest) }" by simp
    with False show ?thesis
      by (subst iterate.simps)
        (simp add: HasNext_def assms(1) Next_within Suc.prems drop split: Option.bind_splits)
  qed
qed simp

lemma iterate_from:
  "i \<le> length h \<Longrightarrow> iterate (iter_at h i 0) =
     (if \<forall>op \<in> set (drop i h). mops_of op \<noteq> [] then Some (concat (map op_mops (drop i h))) else None)"
proof (induction "length h - i" arbitrary: i)
  case 0
  then show ?case by (subst iterate.simps) (simp add: HasNext_def)
next
  case (Suc n)
  then have i: "i < length h" by simp
  then have drop: "drop i h = h ! i # drop (Suc i) h" by (rule Cons_nth_drop_Suc [symmetric])
  show ?case
  proof (cases "mops_of (h ! i) = []")
    case True
    then show ?thesis by (subst iterate.simps) (simp add: HasNext_def i Next_empty drop)
  next
    case False
    with Suc i show ?thesis by (simp add: iterate_within drop op_mops_def)
  qed
qed

lemma iterate_OpMops:
  "iterate (OpMops h) =
     (if \<forall>op \<in> set h. mops_of op \<noteq> [] then Some (concat (map op_mops h)) else None)"
  using iterate_from [of 0 h] by (simp add: OpMops_def)

text \<open>C39. A loop over \<open>OpMops(history)\<close> ends, always: the model of the loop is a total function, whose recursion
  decreases with every call of \<open>Next\<close>, so that \<open>None\<close> is a panic and never a loop without end. It visits every micro-operation of every event
  once and in order when every event has one, and panics in \<open>Next\<close> exactly when some event has no micro-operations.\<close>

theorem iterate_visits_all:
  "iterate (OpMops h) =
     (if \<forall>op \<in> set h. mops_of op \<noteq> []
      then Some [(op, mop). op \<leftarrow> h, mop \<leftarrow> mops_of op] else None)"
  by (simp add: iterate_OpMops op_mops_def [abs_def])

theorem iterate_visits_all_witness:
  "iterate (OpMops [zero_Op\<lparr>op_Value := Some (1, [Append ''x'' 1, Read ''x'' None])\<rparr>,
     zero_Op\<lparr>op_Value := Some (2, [Append ''y'' 2])\<rparr>]) \<noteq> None \<and>
   iterate (OpMops [zero_Op\<lparr>op_Value := Some (1, [Append ''x'' 1])\<rparr>, zero_Op]) = None"
  by (simp add: iterate_visits_all mops_of_def zero_Op_def)

section \<open>Non-adjacent anti-dependencies\<close>

lemma nonadjacent_loop_iff:
  "nonadjacent_loop lastIsRw n trace \<longleftrightarrow>
     successively (\<lambda>a b. \<not> (a \<and> b)) (lastIsRw # map is_rw trace) \<and> 1 < n + length (filter is_rw trace)"
  by (induction trace arbitrary: lastIsRw n) (auto simp: Let_def)

text \<open>The places of a list that follow one another on the cycle, the last being followed by the first.\<close>

definition cyclic_pairs :: "'a list \<Rightarrow> ('a \<times> 'a) list" where
  "cyclic_pairs xs = zip xs (tl xs @ [hd xs])"

lemma cyclic_pairs_Cons: "cyclic_pairs (x # xs) = zip (x # xs) (xs @ [x])"
  by (simp add: cyclic_pairs_def)

lemma zip_successively: "xs \<noteq> [] \<Longrightarrow>
  (\<forall>(a, b) \<in> set (zip xs (tl xs @ [z])). P a b) \<longleftrightarrow> successively P (xs @ [z])"
  by (induction xs rule: induct_list012) auto

lemma cyclic_pairs_successively:
  "xs \<noteq> [] \<Longrightarrow> (\<forall>(a, b) \<in> set (cyclic_pairs xs). P a b) \<longleftrightarrow> successively P (last xs # xs)"
proof -
  assume ne: "xs \<noteq> []"
  then have "successively P (last xs # xs) \<longleftrightarrow> P (last xs) (hd xs) \<and> successively P xs"
    by (cases xs) auto
  also have "\<dots> \<longleftrightarrow> successively P (xs @ [hd xs])"
    using ne by (auto simp: successively_append_iff)
  also have "\<dots> \<longleftrightarrow> (\<forall>(a, b) \<in> set (cyclic_pairs xs). P a b)"
    unfolding cyclic_pairs_def using ne by (rule zip_successively [symmetric])
  finally show ?thesis by simp
qed

text \<open>\<open>nonadjacentRW\<close> accepts a trace exactly when its first edge is not an anti-dependency, at
  least two of its edges are, and no two of them are next to each other on the cycle, the last
  edge being next to the first one.\<close>

theorem nonadjacentRW_iff:
  "nonadjacentRW trace \<longleftrightarrow> trace \<noteq> [] \<and> \<not> is_rw (hd trace) \<and> 2 \<le> length (filter is_rw trace) \<and>
     (\<forall>(a, b) \<in> set (cyclic_pairs trace). \<not> (is_rw a \<and> is_rw b))"
proof (cases trace)
  case (Cons t ts)
  have "2 \<le> length trace" if "2 \<le> length (filter is_rw trace)"
    using that length_filter_le [of is_rw trace] by linarith
  then have "nonadjacentRW trace \<longleftrightarrow> 2 \<le> length (filter is_rw trace) \<and>
      successively (\<lambda>a b. \<not> (a \<and> b)) (True # map is_rw trace)"
    by (auto simp: nonadjacentRW_def nonadjacent_loop_iff)
  also have "\<dots> \<longleftrightarrow> 2 \<le> length (filter is_rw trace) \<and> \<not> is_rw t \<and>
      successively (\<lambda>a b. \<not> (is_rw a \<and> is_rw b)) trace"
    using Cons successively_map [of "\<lambda>a b. \<not> (a \<and> b)" is_rw trace] by (simp del: successively_map)
  also have "\<dots> \<longleftrightarrow> 2 \<le> length (filter is_rw trace) \<and> \<not> is_rw t \<and>
      successively (\<lambda>a b. \<not> (is_rw a \<and> is_rw b)) (last trace # trace)"
    using Cons by auto
  finally show ?thesis using Cons by (simp add: cyclic_pairs_successively)
qed (simp add: nonadjacentRW_def)

theorem nonadjacentRW_iff_witness:
  "let e = (\<lambda>r. \<lparr>ct_from = VNil, ct_Rels = [r]\<rparr>) in
   nonadjacentRW [e WW, e RW, e WR, e RW] \<and> \<not> nonadjacentRW [e RW, e WW, e RW, e WR] \<and>
   \<not> nonadjacentRW [e WW, e RW, e RW]"
  by (simp add: nonadjacentRW_iff cyclic_pairs_def is_rw_def Let_def)

section \<open>The type of a cycle\<close>

lemma rw_adjacent_iff:
  "rw_adjacent t ts \<longleftrightarrow> \<not> successively (\<lambda>a b. \<not> (a = RWDepend \<and> b = RWDepend)) (t # ts)"
  by (induction t ts rule: rw_adjacent.induct) auto

lemma rw_adjacent_cyclic:
  "ts \<noteq> [] \<Longrightarrow> rw_adjacent (last ts) ts \<longleftrightarrow> (RWDepend, RWDepend) \<in> set (cyclic_pairs ts)"
  using cyclic_pairs_successively [of ts "\<lambda>a b. \<not> (a = RWDepend \<and> b = RWDepend)"]
  by (auto simp: rw_adjacent_iff)

lemma frequencies:
  "get_or 0 (fold (\<lambda>t m. AList.update t (get_or 0 m t + 1) m) ts m) t = get_or 0 m t + (count_list ts t :: nat)"
  by (induction ts arbitrary: m) auto

lemma mapM_Some_iff: "mapM f xs = Some ys \<longleftrightarrow> map f xs = map Some ys"
proof (induction xs arbitrary: ys)
  case (Cons x xs)
  then show ?case by (cases ys; cases "f x"; cases "mapM f xs") auto
qed auto

lemma cyclic_pairs_count: "(a, a) \<in> set (cyclic_pairs ts) \<Longrightarrow> count_list ts a \<noteq> 0"
  by (auto simp: cyclic_pairs_def count_list_0_iff dest: set_zip_leftD)

text \<open>C30. When the explainer of \<open>pkg/elle/txn\<close> classifies a cycle, every step of the cycle has been
  explained, and the name it gives says which dependencies the steps have: exactly one
  anti-dependency for \<open>G-single\<close>, several for \<open>G2-item\<close> when two of them are adjacent on the cycle
  and for \<open>G-nonadjacent\<close> otherwise, none but a read dependency for \<open>G1c\<close>, only write dependencies
  for \<open>G0\<close>; the suffix tells whether real time or else process order was used.\<close>

theorem cycle_type_meaning:
  assumes "CycleExplainerWrapper_ExplainCycle \<rho> e circle = Some (ex, e')"
  shows "\<exists>ts base suffix. map step_Type (cer_Steps ex) = map Some ts \<and> cer_Typ ex = base @ suffix \<and>
    base \<in> {''G-single'', ''G2-item'', ''G-nonadjacent'', ''G1c'', ''G0''} \<and>
    (base = ''G-single'' \<longleftrightarrow> count_list ts RWDepend = 1) \<and>
    (base = ''G2-item'' \<longleftrightarrow> 2 \<le> count_list ts RWDepend \<and> (RWDepend, RWDepend) \<in> set (cyclic_pairs ts)) \<and>
    (base = ''G-nonadjacent'' \<longleftrightarrow> 2 \<le> count_list ts RWDepend \<and> (RWDepend, RWDepend) \<notin> set (cyclic_pairs ts)) \<and>
    (base = ''G1c'' \<longleftrightarrow> RWDepend \<notin> set ts \<and> WRDepend \<in> set ts) \<and>
    (base = ''G0'' \<longleftrightarrow> RWDepend \<notin> set ts \<and> WRDepend \<notin> set ts \<and> WWDepend \<in> set ts) \<and>
    suffix = (if RealtimeDepend \<in> set ts then ''-realtime'' else if ProcessDepend \<in> set ts then ''-process'' else [])"
proof -
  obtain ex0 e0 where ex0: "ExplainCycle \<rho> e circle = Some (ex0, e0)"
    using assms by (auto simp: CycleExplainerWrapper_ExplainCycle_def split: Option.bind_splits)
  then obtain ts where ts: "mapM step_Type (cer_Steps ex0) = Some ts" "ts \<noteq> []"
    using assms
    by (auto simp: CycleExplainerWrapper_ExplainCycle_def Let_def split: Option.bind_splits if_splits)
  let ?c = "count_list ts"
  have pos: "0 < ?c t \<longleftrightarrow> t \<in> set ts" for t by (rule count_list_pos)
  define base_of where "base_of = (if ?c RWDepend = 1 then Some ''G-single''
       else if 1 < ?c RWDepend then Some (if rw_adjacent (last ts) ts then ''G2-item'' else ''G-nonadjacent'')
       else if WRDepend \<in> set ts then Some ''G1c''
       else if WWDepend \<in> set ts then Some ''G0'' else None)"
  from assms obtain base where base: "base_of = Some base" and steps: "cer_Steps ex = cer_Steps ex0"
    and ty: "cer_Typ ex = base @ (if RealtimeDepend \<in> set ts then ''-realtime''
       else if ProcessDepend \<in> set ts then ''-process'' else [])"
    unfolding CycleExplainerWrapper_ExplainCycle_def Let_def
    by (simp only: ex0 ts(1) bind.bind_lunit prod.case frequencies get_or_Nil add_0 ts(2) if_False
          pos bind_eq_Some_conv) (auto simp: base_of_def pos)
  have rw: "RWDepend \<in> set ts \<longleftrightarrow> ?c RWDepend \<noteq> 0" by (simp add: pos [symmetric])
  note base = base [unfolded base_of_def rw_adjacent_cyclic [OF ts(2)]]
  show ?thesis
    by (rule exI [of _ ts], rule exI [of _ base],
        rule exI [of _ "if RealtimeDepend \<in> set ts then ''-realtime'' else if ProcessDepend \<in> set ts then ''-process'' else []"])
      (use base ty ts(1) in \<open>auto simp: mapM_Some_iff steps rw split: if_splits\<close>)
qed

theorem cycle_type_meaning_witness:
  "let a = zero_Op\<lparr>op_Index := OptInt 0, op_Process := OptInt 7\<rparr>; b = zero_Op\<lparr>op_Index := OptInt 1, op_Process := OptInt 7\<rparr>;
     rw = StatelessExplainer (\<lambda>_ p1 p2. Some (if p1 = b then Some (RWExplainResult ''x'' MV_nil MV_nil 0 0) else None)) (\<lambda>_ _ _. None);
     r = CycleExplainerWrapper_ExplainCycle fifo (NewCombineExplainer [ProcessExplainer, rw]) \<lparr>circle_Path = [a, b, a]\<rparr>
   in \<exists>ex e' ts. r = Some (ex, e') \<and> map step_Type (cer_Steps ex) = map Some ts \<and>
        count_list ts RWDepend = 1 \<and> cer_Typ ex = ''G-single-process''"
proof -
  let ?a = "zero_Op\<lparr>op_Index := OptInt 0, op_Process := OptInt 7\<rparr>"
  let ?b = "zero_Op\<lparr>op_Index := OptInt 1, op_Process := OptInt 7\<rparr>"
  let ?rw = "StatelessExplainer (\<lambda>_ p1 p2. Some (if p1 = ?b then Some (RWExplainResult ''x'' MV_nil MV_nil 0 0) else None)) (\<lambda>_ _ _. None)"
  let ?r = "CycleExplainerWrapper_ExplainCycle fifo (NewCombineExplainer [ProcessExplainer, ?rw]) \<lparr>circle_Path = [?a, ?b, ?a]\<rparr>"
  have "map_option (cer_Typ \<circ> fst) ?r = Some ''G-single-process''"
    by (simp add: CycleExplainerWrapper_ExplainCycle_def ExplainCycle_def NewCombineExplainer_def ProcessExplainer_def
        step_Type_def Let_def zero_Op_def)
  then obtain ex e' where r: "?r = Some (ex, e')" and ty: "cer_Typ ex = ''G-single-process''" by auto
  from cycle_type_meaning [OF r] ty show ?thesis unfolding Let_def r by (auto split: if_splits)
qed

section \<open>The memo of filtered graphs\<close>

text \<open>The sorted labels that a specification asks \<open>FilteredGraphs\<close> for.\<close>

definition spec_rest :: "CycleAnomalySpecType \<Rightarrow> (Rel, unit) gomap" where
  "spec_rest v = (case spec_RestRels v of None \<Rightarrow> [] | Some m \<Rightarrow> m)"

definition spec_labels :: "CycleAnomalySpecType \<Rightarrow> Rel list" where
  "spec_labels v =
     (case spec_Rels v of
        Some rs \<Rightarrow> sort (map fst rs)
      | None \<Rightarrow> sort (remdups (spec_FirstRel v # map fst (spec_rest v))))"

definition label_sets :: "Rel list list" where
  "label_sets = map (\<lambda>(_, v). spec_labels v) CycleAnomalySpecs"

lemma sort_go_range [simp]: "sort (go_range \<rho> xs) = sort (xs :: 'a::linorder list)"
  by (metis mset_go_range properties_for_sort mset_sort sorted_sort)

lemma update_units: "keys (fold (\<lambda>v. AList.update v ()) vs m) = set vs \<union> keys m"
    "wf_map m \<Longrightarrow> wf_map (fold (\<lambda>v. AList.update v ()) vs m)"
  by (induction vs arbitrary: m) auto

lemma sort_RelSet_Append: "sort (RelSet_Append \<rho> r rs) = sort (remdups (r @ map fst rs))"
  by (rule sorted_distinct_set_unique) (auto simp: RelSet_Append_def Let_def update_units)

lemma set_RelSet_Append [simp]: "set (RelSet_Append \<rho> r rs) = set r \<union> keys rs"
  by (auto simp: RelSet_Append_def Let_def update_units)

lemma requested_labels:
  "spec_Rels v = Some rs \<Longrightarrow> sort (setKeys \<rho> rs) = spec_labels v"
  "spec_Rels v = None \<Longrightarrow> sort (RelSet_Append \<rho> [spec_FirstRel v] (spec_rest v)) = spec_labels v"
  by (simp_all add: spec_labels_def setKeys_def sort_RelSet_Append)

lemma spec_labels_in: "(n, v) \<in> set CycleAnomalySpecs \<Longrightarrow> spec_labels v \<in> set label_sets"
  by (force simp: label_sets_def)

text \<open>No two of these sets of labels have the same 32-bit hash.\<close>

lemma arrayHash_label_sets: "distinct (map arrayHash (remdups label_sets))"
  by code_simp

lemma arrayHash_inj: "\<lbrakk>rs \<in> set label_sets; rs' \<in> set label_sets; arrayHash rs = arrayHash rs'\<rbrakk> \<Longrightarrow> rs = rs'"
  using arrayHash_label_sets by (auto simp: distinct_map inj_on_def)

text \<open>The memo holds the graph of the label set whose hash is its key.\<close>

definition memo_ok :: "DirectedGraph \<Rightarrow> Memo \<Rightarrow> bool" where
  "memo_ok graph memo \<longleftrightarrow> (\<forall>v g. map_of memo v = Some g \<longrightarrow>
     (\<exists>\<rho> rs. rs \<in> set label_sets \<and> arrayHash rs = v \<and> g = FilterRelationships \<rho> graph rs))"

lemma memo_ok_Nil [simp]: "memo_ok graph []"
  by (simp add: memo_ok_def)

lemma FilteredGraphs_memo:
  assumes "memo_ok graph memo" "sort rs \<in> set label_sets"
  shows "\<exists>\<rho>'. fst (FilteredGraphs graph \<rho> rs memo) = FilterRelationships \<rho>' graph (sort rs)"
    and "memo_ok graph (snd (FilteredGraphs graph \<rho> rs memo))"
proof -
  have "(\<exists>\<rho>'. fst (FilteredGraphs graph \<rho> rs memo) = FilterRelationships \<rho>' graph (sort rs)) \<and>
    memo_ok graph (snd (FilteredGraphs graph \<rho> rs memo))"
  proof (cases "map_of memo (arrayHash (sort rs))")
    case None
    then show ?thesis using assms by (auto simp: FilteredGraphs_def Let_def memo_ok_def)
  next
    case (Some g)
    with assms obtain \<rho>' rs' where "rs' \<in> set label_sets" "arrayHash rs' = arrayHash (sort rs)"
      "g = FilterRelationships \<rho>' graph rs'" unfolding memo_ok_def by blast
    with arrayHash_inj assms(2) Some assms(1) show ?thesis by (auto simp: FilteredGraphs_def Let_def)
  qed
  then show "\<exists>\<rho>'. fst (FilteredGraphs graph \<rho> rs memo) = FilterRelationships \<rho>' graph (sort rs)"
    and "memo_ok graph (snd (FilteredGraphs graph \<rho> rs memo))" by blast+
qed

text \<open>A sequence of requests to one \<open>FilterGraphFn\<close>: the graphs it returned and its memo.\<close>

fun ask_all :: "DirectedGraph \<Rightarrow> (range_order \<times> Rel list) list \<Rightarrow> Memo \<Rightarrow> DirectedGraph list \<times> Memo" where
  "ask_all graph [] memo = ([], memo)"
| "ask_all graph ((\<rho>, rs) # reqs) memo =
     (let (g, memo1) = FilteredGraphs graph \<rho> rs memo; (gs, memo2) = ask_all graph reqs memo1
      in (g # gs, memo2))"

text \<open>C36. Whatever sequence of label sets of the anomaly specifications is requested, and in whatever
  order each set is listed, the memoising function of \<open>FilteredGraphs\<close> answers every request with a
  graph whose edges are exactly the edges of the original graph with a requested label: the memo,
  which is keyed by a 32-bit hash, never returns the graph of another label set.\<close>

theorem memo_returns_requested_graph:
  assumes "wf_core graph" "\<forall>(\<rho>, rs) \<in> set reqs. sort rs \<in> set label_sets"
  shows "list_all2 (\<lambda>(\<rho>, rs) g. edges g = {(a, b, r) \<in> edges graph. r \<in> set rs}) reqs (fst (ask_all graph reqs []))"
proof -
  have "list_all2 (\<lambda>(\<rho>, rs) g. edges g = {(a, b, r) \<in> edges graph. r \<in> set rs}) reqs (fst (ask_all graph reqs memo))"
    if "memo_ok graph memo" for memo
    using that assms(2)
  proof (induction reqs arbitrary: memo)
    case (Cons req reqs)
    obtain \<rho> rs where req: "req = (\<rho>, rs)" by fastforce
    from Cons.prems req have rs: "sort rs \<in> set label_sets" by simp
    obtain g memo1 where g: "FilteredGraphs graph \<rho> rs memo = (g, memo1)" by fastforce
    with FilteredGraphs_memo [OF Cons.prems(1) rs, of \<rho>]
    obtain \<rho>' where "g = FilterRelationships \<rho>' graph (sort rs)" "memo_ok graph memo1" by auto
    with Cons req g show ?case
      by (auto simp: Let_def case_prod_unfold edges_Filter [OF assms(1)])
  qed simp
  then show ?thesis by simp
qed

theorem memo_returns_requested_graph_witness:
  "let a = VStr ''a''; b = VStr ''b''; g = link_edges [(a, b, WW), (b, a, RW), (a, b, Process)] NewDirectedGraph
   in edges (hd (tl (fst (ask_all g [(fifo, [WW]), (fifo, [Process, WW])] [])))) = {(a, b, WW), (a, b, Process)}"
proof -
  let ?a = "VStr ''a''" let ?b = "VStr ''b''"
  let ?g = "link_edges [(?a, ?b, WW), (?b, ?a, RW), (?a, ?b, Process)] NewDirectedGraph"
  let ?q = "[(fifo, [WW]), (fifo, [Process, WW])]"
  have wf: "wf_core ?g" by (simp add: wf_graphD(1) wf_link_edges)
  have ls: "sort [WW] \<in> set label_sets" "sort [Process, WW] \<in> set label_sets" by code_simp+
  then have req: "\<forall>(\<rho>, rs) \<in> set ?q. sort rs \<in> set label_sets" by (simp del: sort_key_simps)
  obtain g1 g2 where g: "fst (ask_all ?g ?q []) = [g1, g2]" by (simp add: case_prod_unfold Let_def)
  have "edges g2 = {(a, b, r) \<in> edges ?g. r \<in> set [Process, WW]}"
    using memo_returns_requested_graph [OF wf req] unfolding g by (simp only: list_all2_Cons prod.case)
  then show ?thesis unfolding Let_def g by (auto simp del: in_edges)
qed

section \<open>The verdict\<close>

lemma keys_compact [simp]: "keys (compactAnomalies vs) = set vs"
  by (simp add: compactAnomalies_def update_units)

lemma keys_union_names [simp]: "keys (union_names \<rho> src dest) = keys src \<union> keys dest"
  by (simp add: union_names_def update_units)

lemma hasIntersection_iff: "hasIntersection \<rho> m1 m2 \<longleftrightarrow> keys m1 \<inter> keys m2 \<noteq> {}"
  by (auto simp: hasIntersection_def list_ex_iff)

text \<open>The anomalies that the requested models and the requested anomalies rule out.\<close>

definition ruled_out :: "string list option \<Rightarrow> string list \<Rightarrow> string set" where
  "ruled_out cm anomalies =
     {a. \<exists>x \<in> set anomalies. (a, x) \<in> implied_rel\<^sup>*} \<union>
     {a. \<exists>m \<in> set (case cm of None \<Rightarrow> [''strict-serializable''] | Some ms \<Rightarrow> ms). \<exists>n x.
        (canonical m, n) \<in> model_rel\<^sup>* \<and> (n, x) \<in> proscribed_rel \<and> (a, x) \<in> implied_rel\<^sup>*}"

definition unknown_names :: "string set" where
  "unknown_names = {''empty-transaction-graph'', ''cycle-search-timeout''}"

lemma prohibited_total:
  "\<exists>m. prohibitedAnomalyTypes \<rho> cm anomalies = Some m \<and> keys m = ruled_out cm anomalies"
proof -
  obtain a1 where a1: "AllAnomaliesImplying (sub \<rho> 0) anomalies = Some a1"
    "set a1 = {a. \<exists>x \<in> set anomalies. (a, x) \<in> implied_rel\<^sup>*}" using AllAnomaliesImplying_spec by blast
  let ?cm = "case cm of None \<Rightarrow> [''strict-serializable''] | Some ms \<Rightarrow> ms"
  obtain a2 where a2: "AnomaliesProhibitedBy (sub \<rho> 1) ?cm = Some a2"
    "set a2 = {a. \<exists>m \<in> set ?cm. \<exists>n x. (canonical m, n) \<in> model_rel\<^sup>* \<and>
        (n, x) \<in> proscribed_rel \<and> (a, x) \<in> implied_rel\<^sup>*}" using AnomaliesProhibitedBy_spec by blast
  from a1 a2 show ?thesis by (auto simp: prohibitedAnomalyTypes_def ruled_out_def)
qed

lemma keys_Unknown: "keys UnknownAnomalyTypes = unknown_names"
  by (auto simp: UnknownAnomalyTypes_def unknown_names_def)

lemma reportable_total:
  "\<exists>m. reportableAnomalyTypes \<rho> cm anomalies = Some m \<and> keys m = ruled_out cm anomalies \<union> unknown_names"
  using prohibited_total [of "sub \<rho> 0" cm anomalies]
  by (auto simp: reportableAnomalyTypes_def keys_Unknown)

lemma map_of_SelectKeys:
  "map_of (SelectKeys \<rho> names a) k = (if k \<in> keys names then map_of a k else None)"
proof -
  have "map_of (fold (\<lambda>name m. case map_of a name of Some v \<Rightarrow> AList.update name v m | None \<Rightarrow> m) ns m) k =
      (if k \<in> set ns \<and> k \<in> keys a then map_of a k else map_of m k)" for ns m
    by (induction ns arbitrary: m) (auto simp: in_keys_map_of split: option.splits)
  then show ?thesis by (auto simp: SelectKeys_def in_keys_map_of)
qed

lemma keys_SelectKeys [simp]: "keys (SelectKeys \<rho> names a) = keys names \<inter> keys a"
  by (auto simp: in_keys_map_of map_of_SelectKeys split: if_splits)

lemma wf_SelectKeys: "wf_map (SelectKeys \<rho> names a)"
  unfolding SelectKeys_def
  by (rule Prelude.fold_invariant [where I = wf_map]) (auto split: option.splits)

lemma Keys_props: "set (Keys \<rho> a) = keys a" "sorted (Keys \<rho> a)" "wf_map a \<Longrightarrow> distinct (Keys \<rho> a)"
  by (simp_all add: Keys_def)

lemma length_0_keys: "length (m :: ('k, 'v) gomap) = 0 \<longleftrightarrow> keys m = {}"
  by (cases m) auto

lemma ResultMap_spec:
  "\<exists>r. ResultMap \<rho> opts anomalies = Some r \<and>
     (let found = keys (read_anomalies anomalies);
          bad = ruled_out (opts_ConsistencyModels opts) (opts_Anomalies opts)
      in (tcr_Valid r \<longleftrightarrow> found \<inter> (bad \<union> unknown_names) = {}) \<and>
         (tcr_IsUnknown r \<longleftrightarrow> found \<inter> bad = {} \<and> found \<inter> unknown_names \<noteq> {}) \<and>
         set (tcr_AnomalyTypes r) = found \<inter> (bad \<union> unknown_names) \<and>
         sorted (tcr_AnomalyTypes r) \<and> distinct (tcr_AnomalyTypes r) \<and>
         (\<forall>a. map_of (tcr_Anomalies r) a =
            (if a \<in> bad \<union> unknown_names then map_of (read_anomalies anomalies) a else None)))"
proof -
  let ?cm = "opts_ConsistencyModels opts" and ?as = "opts_Anomalies opts"
  let ?bad = "ruled_out ?cm ?as" and ?an = "read_anomalies anomalies"
  obtain p where p: "prohibitedAnomalyTypes (sub \<rho> 0) ?cm ?as = Some p" "keys p = ?bad"
    using prohibited_total by blast
  obtain q where q: "reportableAnomalyTypes (sub \<rho> 2) ?cm ?as = Some q" "keys q = ?bad \<union> unknown_names"
    using reportable_total by blast
  obtain ns an where b: "FriendlyBoundary (sub \<rho> 4) (Keys (sub \<rho> 5) ?an) = Some (ns, an)"
    using FriendlyBoundary_spec by blast
  note rep = map_of_SelectKeys [of "sub \<rho> 3" q ?an, unfolded q(2)]
  let ?rep = "SelectKeys (sub \<rho> 3) q ?an"
  have rep0: "?rep = [] \<longleftrightarrow> keys ?an \<inter> (?bad \<union> unknown_names) = {}"
    using length_0_keys [of ?rep] q(2) by auto
  have bad0: "SelectKeys (sub \<rho> 1) p ?an = [] \<longleftrightarrow> keys ?an \<inter> ?bad = {}"
    using length_0_keys [of "SelectKeys (sub \<rho> 1) p ?an"] p(2) by auto
  show ?thesis
  proof (cases "?rep = []")
    case True
    then have "\<forall>a \<in> ?bad \<union> unknown_names. map_of ?an a = None" using rep True by (metis map_of.simps(1))
    with True rep0 p q show ?thesis by (auto simp: ResultMap_def Let_def)
  next
    case False
    let ?r = "\<lparr>tcr_IsUnknown = SelectKeys (sub \<rho> 1) p ?an = [], tcr_Valid = False,
      tcr_AnomalyTypes = Keys (sub \<rho> 6) ?rep, tcr_Anomalies = ?rep, tcr_Not = ns, tcr_AlsoNot = an\<rparr>"
    from False p(1) q(1) b have r: "ResultMap \<rho> opts anomalies = Some ?r" by (simp add: ResultMap_def Let_def)
    show ?thesis
      by (rule exI [of _ ?r])
        (use False r rep0 bad0 rep q(2) in \<open>auto simp: Let_def Keys_props wf_SelectKeys\<close>)
  qed
qed

text \<open>C31. \<open>ResultMap\<close> always returns. Its verdict is valid exactly when no anomaly that was found is
  ruled out by the requested models or anomalies or leaves the result unknown; it is unknown when
  only the latter were found; and it reports these anomalies, sorted by name, with all their cases.\<close>

theorem ResultMap_verdict:
  "\<exists>r. ResultMap \<rho> opts anomalies = Some r \<and>
     (let found = keys (read_anomalies anomalies);
          bad = ruled_out (opts_ConsistencyModels opts) (opts_Anomalies opts)
      in (tcr_Valid r \<longleftrightarrow> found \<inter> (bad \<union> unknown_names) = {}) \<and>
         (tcr_IsUnknown r \<longleftrightarrow> found \<inter> bad = {} \<and> found \<inter> unknown_names \<noteq> {}) \<and>
         set (tcr_AnomalyTypes r) = found \<inter> (bad \<union> unknown_names) \<and>
         sorted (tcr_AnomalyTypes r) \<and> distinct (tcr_AnomalyTypes r) \<and>
         (\<forall>a. map_of (tcr_Anomalies r) a =
            (if a \<in> bad \<union> unknown_names then map_of (read_anomalies anomalies) a else None)))"
  by (rule ResultMap_spec)

theorem ResultMap_verdict_witness:
  "\<exists>r. ResultMap fifo (\<lparr>opts_ConsistencyModels = Some [''snapshot-isolation''], opts_Anomalies = [''G1a''],
          opts_AdditionalGraphs = []\<rparr> :: unit Opts) (Some [(''G1a'', [])]) = Some r \<and>
     \<not> tcr_Valid r \<and> \<not> tcr_IsUnknown r \<and> tcr_AnomalyTypes r = [''G1a'']"
proof -
  let ?o = "\<lparr>opts_ConsistencyModels = Some [''snapshot-isolation''], opts_Anomalies = [''G1a''],
          opts_AdditionalGraphs = []\<rparr> :: unit Opts"
  have bad: "''G1a'' \<in> ruled_out (Some [''snapshot-isolation'']) [''G1a'']" by (auto simp: ruled_out_def)
  from ResultMap_verdict [of fifo ?o "Some [(''G1a'', [])]"] obtain r where
    r: "ResultMap fifo ?o (Some [(''G1a'', [])]) = Some r" "\<not> tcr_Valid r" "\<not> tcr_IsUnknown r"
      "set (tcr_AnomalyTypes r) = {''G1a''}" "distinct (tcr_AnomalyTypes r)"
    using bad by (auto simp: Let_def read_anomalies_def)
  from r(4,5) have "tcr_AnomalyTypes r = [''G1a'']"
    by (cases "tcr_AnomalyTypes r" rule: remdups_adj.cases) auto
  with r(1-3) show ?thesis by blast
qed

end
