(* ===== verification/List_Append.thy ===== *)
theory List_Append
  imports Txn
begin

text \<open>
  The list-append checker: \<open>pkg/elle/list_append/utils.go\<close> and \<open>list_append.go\<close>.

  Every key holds a list; a transaction appends distinct integers to keys and reads whole lists.
  The indices infer a version order per key from the reads, and from it the write-write,
  write-read and read-write dependencies between transactions.

  The indices hold interface values. The values compared are ints, stored by \<open>Append\<close> or taken
  from a list that was read, so the comparison never meets two slices, on which it would panic.
\<close>

section \<open>Indices\<close>

definition unknownPrefixMagicNumber :: int where
  "unknownPrefixMagicNumber = -114514"

definition initMagicNumber :: MopValueType where
  "initMagicNumber = MV_int (-114515)"

type_synonym appendIdx = "(string, MopValueType list) gomap"
type_synonym writeIdx = "(string, (MopValueType, Op) gomap) gomap"
type_synonym readIdx = "(string, (MopValueType, Op list) gomap) gomap"

text \<open>A second append of a value to a key, among the invocations, panics.\<close>

definition verifyUniqueAppends :: "History \<Rightarrow> unit option" where
  "verifyUniqueAppends history = do {
     oms \<leftarrow> iterate (OpMops history);
     _ \<leftarrow> foldM (\<lambda>(op, mop) tempDict.
         if op_Type op = OpTypeInvoke \<and> IsAppend mop
         then do {
           v \<leftarrow> hash_key (GetValue mop);
           let seen = get_or [] tempDict (GetKey mop);
           if v \<in> keys seen then None
           else Some (AList.update (GetKey mop) (AList.update v () seen) tempDict) }
         else Some tempDict) oms [];
     Some () }"

fun seqIsPrefix_loop :: "MopValueType list \<Rightarrow> MopValueType list \<Rightarrow> bool" where
  "seqIsPrefix_loop (x # xs) (y # ys) = (if x \<noteq> y then False else seqIsPrefix_loop xs ys)"
| "seqIsPrefix_loop _ _ = True"

definition seqIsPrefix :: "MopValueType list \<Rightarrow> MopValueType list \<Rightarrow> bool" where
  "seqIsPrefix seqBefore seqAfter =
     (if length seqBefore > length seqAfter then False else seqIsPrefix_loop seqBefore seqAfter)"

definition count_reads :: "int list \<Rightarrow> (MopValueType, int) gomap \<times> (MopValueType, int) gomap" where
  "count_reads reads = fold (\<lambda>v (readCnt, dups).
       let readCnt' = AList.update (MV_int v) (get_or 0 readCnt (MV_int v) + 1) readCnt
       in (readCnt', if get_or 0 readCnt' (MV_int v) > 1
                     then AList.update (MV_int v) (get_or 0 readCnt' (MV_int v)) dups else dups)) reads ([], [])"

definition duplicates :: "History \<Rightarrow> Anomaly list option" where
  "duplicates history = do {
     oms \<leftarrow> iterate (OpMops history);
     foldM (\<lambda>(op, mop) duplicateCases.
       if IsRead mop
       then do {
         reads \<leftarrow> read_values mop;
         let dups = snd (count_reads reads);
         Some (if length dups > 0 then duplicateCases @ [duplicateConflict op mop dups] else duplicateCases) }
       else Some duplicateCases) oms [] }"

definition writeIndex :: "History \<Rightarrow> writeIdx option" where
  "writeIndex history = foldM (\<lambda>op indexMap.
     case op_Value op of
       None \<Rightarrow> Some indexMap
     | Some (_, mops) \<Rightarrow> foldM (\<lambda>mop indexMap.
         if IsAppend mop then insert_writer (GetKey mop) (GetValue mop) op indexMap else Some indexMap)
       mops indexMap) history []"

text \<open>The version a read observed: the last element, or the initial state.\<close>

definition last_version :: "int list \<Rightarrow> MopValueType" where
  "last_version v = (if length v \<noteq> 0 then MV_int (last v) else initMagicNumber)"

definition readIndex :: "History \<Rightarrow> readIdx option" where
  "readIndex history = foldM (\<lambda>op indexRead.
     case op_Value op of
       None \<Rightarrow> Some indexRead
     | Some (_, mops) \<Rightarrow> foldM (\<lambda>mop indexRead.
         if \<not> IsRead mop then Some indexRead
         else do {
           v \<leftarrow> read_values mop;
           if op_Type op = OpTypeInfo \<and> length v = 0 then Some indexRead
           else (let m = get_or [] indexRead (GetKey mop)
                 in Some (AList.update (GetKey mop)
                      (AList.update (last_version v) (get_or [] m (last_version v) @ [op]) m) indexRead)) })
       mops indexRead) history []"

fun mergeOrders :: "MopValueType list \<Rightarrow> MopValueType list \<Rightarrow> MopValueType list \<Rightarrow> MopValueType list option" where
  "mergeOrders prefix [] seq2 = Some (prefix @ seq2)"
| "mergeOrders prefix (x # seq1) [] = Some (prefix @ x # seq1)"
| "mergeOrders prefix (x # seq1) (y # seq2) =
     (if x = y then mergeOrders (prefix @ [x]) seq1 seq2
      else do {
        i1 \<leftarrow> as_int x;
        i2 \<leftarrow> as_int y;
        if i1 < i2 then mergeOrders prefix seq1 (y # seq2)
        else mergeOrders prefix (x # seq1) seq2 })"

type_synonym sorted_values = "(string, MopValueType list list) gomap"

definition appendIndex :: "range_order \<Rightarrow> sorted_values \<Rightarrow> appendIdx option" where
  "appendIndex \<rho> sortedValues = foldM (\<lambda>k res. do {
       current \<leftarrow> foldM (\<lambda>v current. mergeOrders [] current v) (get_or [] sortedValues k) [];
       Some (AList.update k current res) }) (go_range \<rho> (map fst sortedValues)) []"

section \<open>The values of a key\<close>

definition valuesFromSingleAppend :: "range_order \<Rightarrow> History \<Rightarrow> (string, MopValueType) gomap option" where
  "valuesFromSingleAppend \<rho> history = do {
     oms \<leftarrow> iterate (OpMops history);
     let temp = fold (\<lambda>(_, mop) temp.
         if IsAppend mop \<and> length (get_or [] temp (GetKey mop)) < 2
         then AList.update (GetKey mop) (get_or [] temp (GetKey mop) @ [GetValue mop]) temp
         else temp) oms [];
     Some (fold (\<lambda>k result.
         case get_or [] temp k of [v] \<Rightarrow> AList.update k v result | _ \<Rightarrow> result)
       (go_range \<rho> (map fst temp)) []) }"

text \<open>Reads are recognised by the hash of the list they returned.\<close>

definition collect_reads :: "(Op \<times> Mop) list \<Rightarrow>
    (sorted_values \<times> (string, (32 word, unit) gomap) gomap) option" where
  "collect_reads oms = foldM (\<lambda>(_, mop) (keyMaps, valueExistMap).
     if \<not> IsRead mop then Some (keyMaps, valueExistMap)
     else if GetValue mop = MV_nil then Some (keyMaps, valueExistMap)
     else do {
       values \<leftarrow> as_ints (GetValue mop);
       if length values = 0 then Some (keyMaps, valueExistMap)
       else (let hash = IntArrayHash values;
                 seen = get_or [] valueExistMap (GetKey mop)
             in if hash \<in> keys seen then Some (keyMaps, AList.update (GetKey mop) seen valueExistMap)
                else Some (AList.update (GetKey mop) (get_or [] keyMaps (GetKey mop) @ [map MV_int values]) keyMaps,
                           AList.update (GetKey mop) (AList.update hash () seen) valueExistMap)) }) oms ([], [])"

text \<open>\<open>sort.Sort\<close> is not stable: lists of the same length come in an arbitrary order.\<close>

definition sortedValues :: "range_order \<Rightarrow> History \<Rightarrow> sorted_values option" where
  "sortedValues \<rho> history = do {
     oms \<leftarrow> iterate (OpMops history);
     (keyMaps, _) \<leftarrow> collect_reads oms;
     singleAppends \<leftarrow> valuesFromSingleAppend (sub \<rho> 0) history;
     let keyMaps = fold (\<lambda>k keyMaps.
         if k \<notin> keys keyMaps then AList.update k [[get_or MV_nil singleAppends k]] keyMaps else keyMaps)
       (go_range (sub \<rho> 1) (map fst singleAppends)) keyMaps;
     Some (fold (\<lambda>(i, k) m. AList.update k (sort_key length (go_range (sub \<rho> i) (get_or [] m k))) m)
       (enumerate 3 (go_range (sub \<rho> 2) (map fst keyMaps))) keyMaps) }"

definition incompatible_pairs :: "string \<Rightarrow> MopValueType list list \<Rightarrow> Anomaly list" where
  "incompatible_pairs k values =
     [incompatibleOrder k [a, b]. (a, b) \<leftarrow> zip values (tl values), seqIsPrefix a b = False]"

definition incompatibleOrders :: "range_order \<Rightarrow> sorted_values \<Rightarrow> Anomaly list" where
  "incompatibleOrders \<rho> sv =
     concat (map (\<lambda>k. incompatible_pairs k (get_or [] sv k)) (go_range \<rho> (map fst sv)))"

definition verifyTotalOrders :: "range_order \<Rightarrow> History \<Rightarrow> bool option" where
  "verifyTotalOrders \<rho> history = do {
     sorted \<leftarrow> sortedValues (sub \<rho> 0) history;
     Some (length (incompatibleOrders (sub \<rho> 1) sorted) = 0) }"

section \<open>Dependencies of a micro-operation\<close>

definition wrMopDep :: "writeIdx \<Rightarrow> Op \<Rightarrow> Mop \<Rightarrow> Op option option" where
  "wrMopDep wi op mop =
     (if IsRead mop
      then do {
        v \<leftarrow> read_values mop;
        if length v = 0 then Some None
        else (case map_of (get_or [] wi (GetKey mop)) (MV_int (last v)) of
                None \<Rightarrow> Some None
              | Some appendOp \<Rightarrow> Some (if op \<noteq> appendOp then Some appendOp else None)) }
      else Some None)"

text \<open>\<^const>\<open>MV_nil\<close> is the nil result.\<close>

definition previouslyAppendElement :: "appendIdx \<Rightarrow> Op \<Rightarrow> Mop \<Rightarrow> MopValueType option" where
  "previouslyAppendElement ai op mop =
     (if \<not> IsAppend mop then Some MV_nil
      else do {
        v \<leftarrow> as_int (GetValue mop);
        let appendSeq = get_or [] ai (GetKey mop);
        Some (case index_of (\<lambda>x. x = MV_int v) appendSeq of
                None \<Rightarrow> MV_nil
              | Some 0 \<Rightarrow> initMagicNumber
              | Some (Suc i) \<Rightarrow> appendSeq ! i) })"

definition wwMopDep :: "appendIdx \<Rightarrow> writeIdx \<Rightarrow> Op \<Rightarrow> Mop \<Rightarrow> Op option option" where
  "wwMopDep appendIndexResult writeIndexResult op mop = do {
     previousElement \<leftarrow> previouslyAppendElement appendIndexResult op mop;
     Some (if previousElement = MV_nil \<or> previousElement = initMagicNumber then None
           else (case map_of writeIndexResult (GetKey mop) of
                   None \<Rightarrow> None
                 | Some writerMap \<Rightarrow>
                     (case map_of writerMap previousElement of
                        None \<Rightarrow> None
                      | Some writer \<Rightarrow> if writer = op then None else Some writer))) }"

text \<open>The inner \<^const>\<open>None\<close> is the nil map.\<close>

definition rwMopDeps :: "appendIdx \<Rightarrow> readIdx \<Rightarrow> Op \<Rightarrow> Mop \<Rightarrow> (Op, unit) gomap option option" where
  "rwMopDeps appendIndexResult readIndexResult op mop = do {
     previousElement \<leftarrow> previouslyAppendElement appendIndexResult op mop;
     Some (if previousElement = MV_nil then None
           else Some (fold (\<lambda>rop mopDeps. if rop = op then mopDeps else AList.update rop () mopDeps)
             (get_or [] (get_or [] readIndexResult (GetKey mop)) previousElement) [])) }"

definition mopDeps :: "appendIdx \<Rightarrow> writeIdx \<Rightarrow> readIdx \<Rightarrow> Op \<Rightarrow> Mop \<Rightarrow> (Op, unit) gomap option option" where
  "mopDeps ai wi ri op mop =
     (if IsAppend mop
      then do {
        r \<leftarrow> rwMopDeps ai ri op mop;
        resDep \<leftarrow> wwMopDep ai wi op mop;
        (case (resDep, r) of
           (None, _) \<Rightarrow> Some r
         | (Some dep, Some m) \<Rightarrow> Some (Some (AList.update dep () m))
         | (Some dep, None) \<Rightarrow> None) }
      else if IsRead mop
      then do {
        resDep \<leftarrow> wrMopDep wi op mop;
        Some (Some (case resDep of None \<Rightarrow> [] | Some dep \<Rightarrow> AList.update dep () [])) }
      else None)"

definition setUnion :: "range_order \<Rightarrow> (Op, unit) gomap \<Rightarrow> (Op, unit) gomap option \<Rightarrow> (Op, unit) gomap" where
  "setUnion \<rho> dest src2 =
     (case src2 of None \<Rightarrow> dest | Some m \<Rightarrow> fold (\<lambda>k. AList.update k ()) (go_range \<rho> (map fst m)) dest)"

definition opDeps :: "range_order \<Rightarrow> appendIdx \<Rightarrow> writeIdx \<Rightarrow> readIdx \<Rightarrow> Op \<Rightarrow> (Op, unit) gomap option" where
  "opDeps \<rho> ai wi ri op =
     (case op_Value op of
        None \<Rightarrow> Some []
      | Some (_, mops) \<Rightarrow> foldM (\<lambda>(i, mop) response. do {
          deps \<leftarrow> mopDeps ai wi ri op mop;
          Some (setUnion (sub \<rho> i) response deps) }) (enumerate 0 mops) [])"

section \<open>Explainers and graphs\<close>

definition preprocess :: "range_order \<Rightarrow> History \<Rightarrow> (History \<times> appendIdx \<times> writeIdx \<times> readIdx) option" where
  "preprocess \<rho> h = do {
     _ \<leftarrow> verifyUniqueAppends h;
     let history = FilterOkOrInfoHistory h;
     sortedValueResults \<leftarrow> sortedValues (sub \<rho> 0) history;
     ai \<leftarrow> appendIndex (sub \<rho> 1) sortedValueResults;
     wi \<leftarrow> writeIndex history;
     ri \<leftarrow> readIndex history;
     Some (history, ai, wi, ri) }"

definition explain_ww :: "appendIdx \<Rightarrow> writeIdx \<Rightarrow> Op \<Rightarrow> Op \<Rightarrow> ExplainResult option option" where
  "explain_ww ai wi a b = do {
     mops \<leftarrow> deref b;
     findM (\<lambda>bmop.
       if IsAppend bmop
       then do {
         prev \<leftarrow> previouslyAppendElement ai b bmop;
         if prev = MV_nil then Some None
         else do {
           dep \<leftarrow> wwMopDep ai wi b bmop;
           if dep = Some a
           then do {
             p \<leftarrow> as_int prev;
             i \<leftarrow> IndexOfMop a (Append (GetKey bmop) p);
             j \<leftarrow> IndexOfMop b bmop;
             Some (Some (WWExplainResult (GetKey bmop) prev (GetValue bmop) i j)) }
           else Some None } }
       else Some None) mops }"

definition wwExplainer :: "appendIdx \<Rightarrow> writeIdx \<Rightarrow> readIdx \<Rightarrow> DataExplainer" where
  "wwExplainer ai wi ri = StatelessExplainer (\<lambda>_. explain_ww ai wi)
     (\<lambda>result a b. do {
        r \<leftarrow> typed WWDepend result;
        (case r of
           WWExplainResult k pre value _ _ \<Rightarrow>
             Some [Txt (b @ '' appended '' @ sprint_v value @ '' after '' @ a @ '' appended '' @ sprint_v pre @ '' to '' @ k)]
         | _ \<Rightarrow> None) })"

definition wwGraph :: "'o Analyzer" where
  "wwGraph \<rho> h opts = do {
     (history, ai, wi, ri) \<leftarrow> preprocess \<rho> h;
     g \<leftarrow> foldM (\<lambda>op g. do {
         mops \<leftarrow> deref op;
         foldM (\<lambda>mop g.
           if \<not> IsAppend mop then Some g
           else do {
             dep \<leftarrow> wwMopDep ai wi op mop;
             Some (case dep of None \<Rightarrow> g | Some d \<Rightarrow> Link (VOp d) (VOp op) WW g) }) mops g })
       history NewDirectedGraph;
     Some (None, Some g, wwExplainer ai wi ri) }"

definition explain_wr :: "writeIdx \<Rightarrow> Op \<Rightarrow> Op \<Rightarrow> ExplainResult option option" where
  "explain_wr wi a b = do {
     mops \<leftarrow> deref b;
     findM (\<lambda>mop.
       if \<not> IsRead mop then Some None
       else do {
         v \<leftarrow> read_values mop;
         writer \<leftarrow> wrMopDep wi b mop;
         if writer = Some a
         then (if v = [] then None
               else do {
                 i \<leftarrow> IndexOfMop a (Append (GetKey mop) (last v));
                 j \<leftarrow> IndexOfMop b mop;
                 Some (Some (WRExplainResult (GetKey mop) (MV_int (last v)) i j)) })
         else Some None }) mops }"

definition wrExplainer :: "appendIdx \<Rightarrow> writeIdx \<Rightarrow> readIdx \<Rightarrow> DataExplainer" where
  "wrExplainer ai wi ri = StatelessExplainer (\<lambda>_. explain_wr wi)
     (\<lambda>result a b. do {
        r \<leftarrow> typed WRDepend result;
        (case r of
           WRExplainResult k value _ _ \<Rightarrow>
             Some [Txt (b @ '' observed '' @ a @ [CHR 0x27] @ ''s append of '' @ sprint_v value @ '' to key '' @ k)]
         | _ \<Rightarrow> None) })"

definition wrGraph :: "'o Analyzer" where
  "wrGraph \<rho> h opts = do {
     (history, ai, wi, ri) \<leftarrow> preprocess \<rho> h;
     g \<leftarrow> foldM (\<lambda>op g. do {
         mops \<leftarrow> deref op;
         foldM (\<lambda>mop g.
           if \<not> IsRead mop then Some g
           else do {
             dep \<leftarrow> wrMopDep wi op mop;
             Some (case dep of None \<Rightarrow> g | Some d \<Rightarrow> Link (VOp d) (VOp op) WR g) }) mops g })
       history NewDirectedGraph;
     Some (None, Some g, wrExplainer ai wi ri) }"

text \<open>The position in \<open>a\<close> of the read that \<open>b\<close> overwrote, or -1.\<close>

definition read_of_version :: "string \<Rightarrow> MopValueType \<Rightarrow> Mop list \<Rightarrow> int option" where
  "read_of_version k prev mops = do {
     found \<leftarrow> findM (\<lambda>(i, aMop).
       if IsRead aMop \<and> GetKey aMop = k
       then do {
         vs \<leftarrow> read_values aMop;
         Some (if prev = initMagicNumber \<and> length vs = 0 then Some (int i)
               else if prev \<noteq> initMagicNumber \<and> length vs \<noteq> 0 \<and> MV_int (last vs) = prev then Some (int i)
               else None) }
       else Some None) (enumerate 0 mops);
     Some (case found of Some i \<Rightarrow> i | None \<Rightarrow> -1) }"

definition explain_rw :: "appendIdx \<Rightarrow> readIdx \<Rightarrow> Op \<Rightarrow> Op \<Rightarrow> ExplainResult option option" where
  "explain_rw ai ri a b = do {
     mops \<leftarrow> deref b;
     findM (\<lambda>(i, mop).
       if \<not> IsAppend mop then Some None
       else do {
         readers \<leftarrow> rwMopDeps ai ri b mop;
         if (case readers of None \<Rightarrow> False | Some m \<Rightarrow> a \<in> keys m)
         then do {
           prev \<leftarrow> previouslyAppendElement ai b mop;
           amops \<leftarrow> deref a;
           j \<leftarrow> read_of_version (GetKey mop) prev amops;
           Some (Some (RWExplainResult (GetKey mop) prev (GetValue mop) j (int i))) }
         else Some None }) (enumerate 0 mops) }"

definition rwExplainer :: "appendIdx \<Rightarrow> writeIdx \<Rightarrow> readIdx \<Rightarrow> DataExplainer" where
  "rwExplainer ai wi ri = StatelessExplainer (\<lambda>_. explain_rw ai ri)
     (\<lambda>result a b. do {
        r \<leftarrow> typed RWDepend result;
        (case r of
           RWExplainResult k prev value _ _ \<Rightarrow>
             Some (if prev = initMagicNumber
                   then [Txt (a @ '' observed the initial (nil) state of '' @ k @ '', which '' @ b
                              @ '' created by appending '' @ sprint_v value)]
                   else [Txt (a @ '' did not observe '' @ b @ [CHR 0x27] @ ''s append of '' @ sprint_v value @ '' to '' @ k)])
         | _ \<Rightarrow> None) })"

definition rwGraph :: "'o Analyzer" where
  "rwGraph \<rho> h opts = do {
     (history, ai, wi, ri) \<leftarrow> preprocess (sub \<rho> 0) h;
     g \<leftarrow> foldM (\<lambda>(i, op) g. do {
         mops \<leftarrow> deref op;
         foldM (\<lambda>(j, mop) g.
           if IsAppend mop
           then do {
             deps \<leftarrow> rwMopDeps ai ri op mop;
             let vdeps = (case deps of None \<Rightarrow> []
                          | Some m \<Rightarrow> map VOp (go_range (sub (sub (sub \<rho> 1) i) j) (map fst m)));
             Some (LinkAllTo vdeps (VOp op) RW g) }
           else Some g) (enumerate 0 mops) g })
       (enumerate 0 history) NewDirectedGraph;
     Some (None, Some g, rwExplainer ai wi ri) }"

definition graph :: "'o Analyzer" where
  "graph \<rho> history opts = Combine [wwGraph, wrGraph, rwGraph] \<rho> history ([] :: 'o list)"

section \<open>Cases\<close>

definition g1aCases :: "History \<Rightarrow> Anomaly list option" where
  "g1aCases history = do {
     failed \<leftarrow> FailedWrites history;
     oms \<leftarrow> iterate (OpMops (FilterOkHistory history));
     foldM (\<lambda>(op, mop) excepted.
       if IsRead mop
       then do {
         v \<leftarrow> read_values mop;
         Some (excepted @ [G1Conflict op mop writer (MV_int e).
                 e \<leftarrow> v, writer \<leftarrow> (case map_of (get_or [] failed (GetKey mop)) (MV_int e) of
                                     None \<Rightarrow> [] | Some w \<Rightarrow> [w])]) }
       else Some excepted) oms [] }"

definition g1bCases :: "History \<Rightarrow> Anomaly list option" where
  "g1bCases history = do {
     inter \<leftarrow> IntermediateWrites history;
     oms \<leftarrow> iterate (OpMops (FilterOkHistory history));
     foldM (\<lambda>(op, mop) excepted.
       if IsRead mop
       then do {
         v \<leftarrow> read_values mop;
         Some (if length v = 0 then excepted
               else (case map_of (get_or [] inter (GetKey mop)) (MV_int (last v)) of
                       Some writer \<Rightarrow>
                         if writer \<noteq> op then excepted @ [G1Conflict op mop writer (MV_int (last v))] else excepted
                     | None \<Rightarrow> excepted)) }
       else Some excepted) oms [] }"

fun isReadRecordEqual :: "int list \<Rightarrow> int list \<Rightarrow> bool" where
  "isReadRecordEqual a b = (if length a \<noteq> length b then False else list_all (\<lambda>(x, y). x = y) (zip a b))"

text \<open>Whether a read of \<open>records\<close> contradicts what the transaction already knows of the key.\<close>

definition internal_conflict :: "int list \<Rightarrow> int list \<Rightarrow> bool" where
  "internal_conflict previousData records =
     (if length previousData \<noteq> 0 \<and> hd previousData = unknownPrefixMagicNumber
      then (let seqDelta = int (length records) + 1 - int (length previousData)
            in if seqDelta < 0 then True
               else isReadRecordEqual (tl previousData) (drop (nat seqDelta) records) = False)
      else isReadRecordEqual previousData records = False)"

fun opInternalCase_loop :: "Op \<Rightarrow> (string, int list) gomap \<Rightarrow> Mop list \<Rightarrow> Anomaly option option" where
  "opInternalCase_loop op dataMap [] = Some None"
| "opInternalCase_loop op dataMap (mop # mops) =
     (if IsRead mop
      then do {
        records \<leftarrow> read_values mop;
        (case map_of dataMap (GetKey mop) of
           Some previousData \<Rightarrow>
             if internal_conflict previousData records
             then Some (Some (InternalConflict op mop (MV_ints previousData)))
             else opInternalCase_loop op (AList.update (GetKey mop) records dataMap) mops
         | None \<Rightarrow> opInternalCase_loop op (AList.update (GetKey mop) records dataMap) mops) }
      else if IsAppend mop
      then do {
        v \<leftarrow> as_int (GetValue mop);
        let known = (case map_of dataMap (GetKey mop) of None \<Rightarrow> [unknownPrefixMagicNumber] | Some d \<Rightarrow> d);
        opInternalCase_loop op (AList.update (GetKey mop) (known @ [v]) dataMap) mops }
      else opInternalCase_loop op dataMap mops)"

definition opInternalCase :: "Op \<Rightarrow> Anomaly option option" where
  "opInternalCase op = do { mops \<leftarrow> deref op; opInternalCase_loop op [] mops }"

definition internalCases :: "History \<Rightarrow> Anomaly list option" where
  "internalCases history = foldM (\<lambda>op tp. do {
       res \<leftarrow> opInternalCase op;
       Some (case res of None \<Rightarrow> tp | Some a \<Rightarrow> tp @ [a]) }) (FilterOkHistory history) []"

text \<open>One value of the version order of a key: the state is what was seen since the last switch.\<close>

definition dirty_step :: "string \<Rightarrow> (MopValueType, Op) gomap \<Rightarrow> MopValueType \<Rightarrow>
    MopValueType list \<times> Op \<times> Anomaly list \<Rightarrow> MopValueType list \<times> Op \<times> Anomaly list" where
  "dirty_step key keyWriter v = (\<lambda>(values, currentOp, cases).
     let values = values @ [v]
     in case map_of keyWriter v of
          None \<Rightarrow> (values, currentOp, cases)
        | Some writer \<Rightarrow>
            (case (op_Type currentOp, op_Type writer) of
               (OpTypeOk, OpTypeOk) \<Rightarrow> ([v], writer, cases)
             | (OpTypeInfo, OpTypeOk) \<Rightarrow> ([v], writer, cases)
             | (OpTypeFail, OpTypeOk) \<Rightarrow> ([v], writer, cases @ [DirtyUpdateConflict key values currentOp writer])
             | (OpTypeOk, OpTypeFail) \<Rightarrow> ([v], writer, cases)
             | (OpTypeInfo, OpTypeFail) \<Rightarrow> ([v], writer, cases)
             | _ \<Rightarrow> (values, currentOp, cases)))"

definition dirtyUpdateCases :: "range_order \<Rightarrow> appendIdx \<Rightarrow> History \<Rightarrow> Anomaly list option" where
  "dirtyUpdateCases \<rho> appendIndexResult history = do {
     wi \<leftarrow> writeIndex history;
     Some (fold (\<lambda>key cases.
         case map_of wi key of
           None \<Rightarrow> cases
         | Some keyWriter \<Rightarrow>
             snd (snd (fold (dirty_step key keyWriter) (get_or [] appendIndexResult key)
                        ([], zero_Op\<lparr>op_Type := OpTypeOk\<rparr>, cases))))
       (go_range \<rho> (map fst appendIndexResult)) []) }"

section \<open>The checker\<close>

definition ListAppend_Check :: "range_order \<Rightarrow> 'o Opts \<Rightarrow> History \<Rightarrow> TxnCheckResult option" where
  "ListAppend_Check \<rho> opts h = do {
     let history = preProcessHistory h;
     g1a \<leftarrow> g1aCases history;
     g1b \<leftarrow> g1bCases history;
     internal \<leftarrow> internalCases history;
     allValues \<leftarrow> sortedValues (sub \<rho> 0) history;
     ai \<leftarrow> appendIndex (sub \<rho> 1) allValues;
     dirtyUpdate \<leftarrow> dirtyUpdateCases (sub \<rho> 2) ai history;
     let historyOKOrInfo = FilterOkOrInfoHistory history;
     dups \<leftarrow> duplicates historyOKOrInfo;
     sv \<leftarrow> sortedValues (sub \<rho> 3) historyOKOrInfo;
     let incmpOrder = incompatibleOrders (sub \<rho> 4) sv;
     additionalGraphs \<leftarrow> AdditionalGraphs (sub \<rho> 5) opts;
     let analyzer = (if length additionalGraphs \<noteq> 0 then Combine (graph # additionalGraphs) else graph);
     checkResult \<leftarrow> Cycles (sub \<rho> 6) analyzer history [];
     anomalies \<leftarrow> set_anomalies ''duplicate-elements'' dups (cr_Anomalies checkResult);
     anomalies \<leftarrow> set_anomalies ''incompatible-order'' incmpOrder anomalies;
     anomalies \<leftarrow> set_anomalies ''internal'' internal anomalies;
     anomalies \<leftarrow> set_anomalies ''dirty-update'' dirtyUpdate anomalies;
     anomalies \<leftarrow> set_anomalies ''G1a'' g1a anomalies;
     anomalies \<leftarrow> set_anomalies ''G1b'' g1b anomalies;
     ResultMap (sub \<rho> 7) opts anomalies }"

end
