(* ===== verification/Analyzer_Laws.thy ===== *)
theory Analyzer_Laws
  imports Analyzers
begin

text \<open>
  What the graphs of \<open>Analyzers\<close> mean: the transitive closure of the real-time graph is the
  real-time order of the history, that of the process graph is the order of each process.
\<close>

section \<open>Pairing invocations and completions\<close>

definition pair_inv :: "History \<Rightarrow> (Op, Op) gomap \<Rightarrow> (int, Op) gomap \<Rightarrow> bool" where
  "pair_inv h pair invocations \<longleftrightarrow>
     (\<forall>x y. map_of pair x = Some y \<longrightarrow> map_of pair y = Some x \<and> x \<in> set h \<and>
        (op_Type x = OpTypeInvoke \<longrightarrow> op_idx x < op_idx y)) \<and>
     (\<forall>p v. map_of invocations p = Some v \<longrightarrow>
        v \<in> set h \<and> v \<notin> keys pair \<and> GetOr (op_Process v) AnonymousMagicNumber = p) \<and>
     (\<forall>x \<in> set h. op_Type x = OpTypeOk \<longrightarrow> x \<in> keys pair)"

lemma pair_invD:
  assumes "pair_inv h pair invs"
  shows "map_of pair x = Some y \<Longrightarrow> map_of pair y = Some x" "map_of pair x = Some y \<Longrightarrow> x \<in> set h"
    "\<lbrakk>map_of pair x = Some y; op_Type x = OpTypeInvoke\<rbrakk> \<Longrightarrow> op_idx x < op_idx y"
    "map_of invs p = Some v \<Longrightarrow> v \<in> set h" "map_of invs p = Some v \<Longrightarrow> v \<notin> keys pair"
    "map_of invs p = Some v \<Longrightarrow> GetOr (op_Process v) AnonymousMagicNumber = p"
    "\<lbrakk>v \<in> set h; op_Type v = OpTypeOk\<rbrakk> \<Longrightarrow> v \<in> keys pair"
  using assms unfolding pair_inv_def by blast+

lemma pair_invI:
  assumes "\<And>x y. map_of pair x = Some y \<Longrightarrow> map_of pair y = Some x" "\<And>x y. map_of pair x = Some y \<Longrightarrow> x \<in> set h"
    "\<And>x y. \<lbrakk>map_of pair x = Some y; op_Type x = OpTypeInvoke\<rbrakk> \<Longrightarrow> op_idx x < op_idx y"
    "\<And>p v. map_of invs p = Some v \<Longrightarrow> v \<in> set h" "\<And>p v. map_of invs p = Some v \<Longrightarrow> v \<notin> keys pair"
    "\<And>p v. map_of invs p = Some v \<Longrightarrow> GetOr (op_Process v) AnonymousMagicNumber = p"
    "\<And>v. \<lbrakk>v \<in> set h; op_Type v = OpTypeOk\<rbrakk> \<Longrightarrow> v \<in> keys pair"
  shows "pair_inv h pair invs"
  using assms unfolding pair_inv_def by blast

lemma pair_inv_join:
  assumes inv: "pair_inv h pair invs" and v: "v \<notin> set h" "\<And>x. x \<in> set h \<Longrightarrow> op_idx x < op_idx v"
    and i: "map_of invs p = Some i" "op_Type v \<noteq> OpTypeInvoke"
  shows "pair_inv (h @ [v]) (AList.update v i (AList.update i v pair)) (AList.delete p invs)"
proof -
  note D = pair_invD [OF inv]
  have i': "i \<in> set h" "i \<notin> keys pair" "GetOr (op_Process i) AnonymousMagicNumber = p"
    using D(4-6) [OF i(1)] by auto
  have ks: "x \<noteq> i" "x \<noteq> v" if "x \<in> keys pair" for x
    using that i'(2) D(2) [of x] v(1) in_keys_map_of [of x pair] by auto
  have iv: "i \<noteq> v" using i'(1) v(1) by blast
  let ?pair = "AList.update v i (AList.update i v pair)"
  have cases: "x = v \<and> y = i \<or> x = i \<and> y = v \<or> map_of pair x = Some y" if "map_of ?pair x = Some y" for x y
    using that by (auto split: if_splits)
  have old: "map_of ?pair x = Some y" if "map_of pair x = Some y" for x y
    using that ks [OF map_of_in_keys [OF that]] by simp
  show ?thesis
  proof (rule pair_invI)
    fix x y assume xy: "map_of ?pair x = Some y"
    show "map_of ?pair y = Some x" using cases [OF xy] D(1) [of x y] old [of y x] iv by auto
    show "x \<in> set (h @ [v])" using cases [OF xy] D(2) i'(1) by auto
    show "op_idx x < op_idx y" if "op_Type x = OpTypeInvoke"
      using cases [OF xy] D(3) [of x y] that i(2) v(2) [OF i'(1)] by auto
  next
    fix q w assume "map_of (AList.delete p invs) q = Some w"
    then have q: "map_of invs q = Some w" "q \<noteq> p" by (auto split: if_splits)
    show "w \<in> set (h @ [v])" "GetOr (op_Process w) AnonymousMagicNumber = q" using D(4,6) [OF q(1)] by auto
    show "w \<notin> keys ?pair" using D(4-6) [OF q(1)] i'(3) q(2) v(1) by auto
  next
    fix x assume "x \<in> set (h @ [v])" "op_Type x = OpTypeOk"
    then show "x \<in> keys ?pair" using D(7) by auto
  qed
qed

lemma pair_inv_open:
  assumes inv: "pair_inv h pair invs" and v: "v \<notin> set h" "op_Type v \<noteq> OpTypeOk"
  shows "pair_inv (h @ [v]) pair (AList.update (GetOr (op_Process v) AnonymousMagicNumber) v invs)"
    "pair_inv (h @ [v]) pair invs"
proof -
  note D = pair_invD [OF inv]
  have nv: "v \<notin> keys pair" using D(2) [of v] v(1) in_keys_map_of [of v pair] by auto
  show "pair_inv (h @ [v]) pair invs"
    by (rule pair_invI, erule D(1)) (use D(2-7) v(2) in auto)
  show "pair_inv (h @ [v]) pair (AList.update (GetOr (op_Process v) AnonymousMagicNumber) v invs)"
    by (rule pair_invI, erule D(1)) (use D(2-7) v(2) nv in \<open>auto split: if_splits\<close>)
qed

lemma pair_inv_step:
  assumes "pair_inv h pair invs" "v \<notin> set h" "\<And>x. x \<in> set h \<Longrightarrow> op_idx x < op_idx v"
    "pair_step v (pair, invs) = Some (pair', invs')"
  shows "pair_inv (h @ [v]) pair' invs'"
  using assms pair_inv_join [OF assms(1-3)] pair_inv_open [OF assms(1,2)]
  by (auto simp: pair_step_def Let_def split: OpType.splits option.splits)

lemma pair_history_inv:
  assumes "numbered h" "pair_history h = Some pair"
  shows "\<exists>invs. pair_inv h pair invs"
proof -
  have "pair_inv h (fst st) (snd st)" if "foldM pair_step h ([], []) = Some st" for st
    using that assms(1)
  proof (induction h arbitrary: st rule: rev_induct)
    case Nil
    then show ?case by (auto simp: pair_inv_def)
  next
    case (snoc v h)
    then obtain st1 where st1: "foldM pair_step h ([], []) = Some st1" "pair_step v st1 = Some st"
      by (auto simp: foldM_append split: Option.bind_splits)
    have n: "numbered h" "v \<notin> set h" "\<And>x. x \<in> set h \<Longrightarrow> op_idx x < op_idx v"
      using snoc.prems(2) by (auto simp: numbered_def sorted_wrt_append)
    from snoc.IH [OF st1(1) n(1)] have "pair_inv h (fst st1) (snd st1)" .
    with pair_inv_step [OF this n(2,3), of "fst st" "snd st"] st1(2) show ?case by simp
  qed
  with assms(2) show ?thesis by (auto simp: pair_history_def split: Option.bind_splits)
qed

section \<open>The real-time graph\<close>

lemma tranclp_step_mono: "\<lbrakk>r\<^sup>+\<^sup>+ a b; \<And>x y. r x y \<Longrightarrow> s x y\<rbrakk> \<Longrightarrow> s\<^sup>+\<^sup>+ a b"
  by (induction rule: tranclp_induct) (auto intro: tranclp.intros)

lemma keys_opSet: "keys (opSet vs) = {op. VOp op \<in> set vs}"
proof -
  have "keys (fold (\<lambda>v m. case v of VOp op \<Rightarrow> AList.update op () m | _ \<Rightarrow> m) vs m) = {op. VOp op \<in> set vs} \<union> keys m" for m
    by (induction vs arbitrary: m) (auto split: Vertex.splits)
  then show ?thesis by (simp add: opSet_def)
qed

lemma keys_setDel: "keys (setDel \<rho> origin delta) = keys origin - keys delta"
proof -
  have "keys (fold AList.delete ks m) = keys m - set ks" for ks and m :: "(Op, unit) gomap"
    by (induction ks arbitrary: m) auto
  then show ?thesis by (simp add: setDel_def)
qed

definition rt_inv :: "(Op, Op) gomap \<Rightarrow> History \<Rightarrow> DirectedGraph \<Rightarrow> (Op, unit) gomap \<Rightarrow> bool" where
  "rt_inv pair h g doneEvents \<longleftrightarrow>
     wf_graph g \<and> (\<forall>d \<in> keys doneEvents. d \<in> set h \<and> op_Type d = OpTypeOk) \<and>
     (\<forall>a \<in> set h. op_Type a = OpTypeOk \<longrightarrow> (\<exists>d \<in> keys doneEvents. reach g (VOp a) (VOp d))) \<and>
     (\<forall>x y r. (x, y, r) \<in> edges g \<longrightarrow> r = Realtime \<and> (\<exists>a i. x = VOp a \<and> a \<in> set h \<and> op_Type a = OpTypeOk \<and>
        i \<in> set h \<and> op_Type i = OpTypeInvoke \<and> y = VOp (get_or zero_Op pair i) \<and> op_idx a < op_idx i)) \<and>
     (\<forall>a \<in> set h. \<forall>i \<in> set h. op_Type a = OpTypeOk \<longrightarrow> op_Type i = OpTypeInvoke \<longrightarrow> op_idx a < op_idx i \<longrightarrow>
        (arc g)\<^sup>+\<^sup>+ (VOp a) (VOp (get_or zero_Op pair i)))"

lemma rt_invD:
  assumes "rt_inv pair h g dn"
  shows "wf_graph g" "d \<in> keys dn \<Longrightarrow> d \<in> set h \<and> op_Type d = OpTypeOk"
    "\<lbrakk>a \<in> set h; op_Type a = OpTypeOk\<rbrakk> \<Longrightarrow> \<exists>d \<in> keys dn. reach g (VOp a) (VOp d)"
    "(x, y, r) \<in> edges g \<Longrightarrow> r = Realtime \<and> (\<exists>a i. x = VOp a \<and> a \<in> set h \<and> op_Type a = OpTypeOk \<and>
        i \<in> set h \<and> op_Type i = OpTypeInvoke \<and> y = VOp (get_or zero_Op pair i) \<and> op_idx a < op_idx i)"
    "\<lbrakk>a \<in> set h; i \<in> set h; op_Type a = OpTypeOk; op_Type i = OpTypeInvoke; op_idx a < op_idx i\<rbrakk>
       \<Longrightarrow> (arc g)\<^sup>+\<^sup>+ (VOp a) (VOp (get_or zero_Op pair i))"
  using assms unfolding rt_inv_def by blast+

lemma rt_invI:
  assumes "wf_graph g" "\<And>d. d \<in> keys dn \<Longrightarrow> d \<in> set h \<and> op_Type d = OpTypeOk"
    "\<And>a. \<lbrakk>a \<in> set h; op_Type a = OpTypeOk\<rbrakk> \<Longrightarrow> \<exists>d \<in> keys dn. reach g (VOp a) (VOp d)"
    "\<And>x y r. (x, y, r) \<in> edges g \<Longrightarrow> r = Realtime \<and> (\<exists>a i. x = VOp a \<and> a \<in> set h \<and> op_Type a = OpTypeOk \<and>
        i \<in> set h \<and> op_Type i = OpTypeInvoke \<and> y = VOp (get_or zero_Op pair i) \<and> op_idx a < op_idx i)"
    "\<And>a i. \<lbrakk>a \<in> set h; i \<in> set h; op_Type a = OpTypeOk; op_Type i = OpTypeInvoke; op_idx a < op_idx i\<rbrakk>
       \<Longrightarrow> (arc g)\<^sup>+\<^sup>+ (VOp a) (VOp (get_or zero_Op pair i))"
  shows "rt_inv pair h g dn"
  using assms unfolding rt_inv_def by blast

lemma rt_invoke:
  assumes inv: "rt_inv pair h g dn" and new: "\<And>x. x \<in> set h \<Longrightarrow> op_idx x < op_idx v" and v: "op_Type v = OpTypeInvoke"
    and ks: "set ks = keys dn"
  shows "rt_inv pair (h @ [v]) (LinkAllTo (map VOp ks) (VOp (get_or zero_Op pair v)) Realtime g) dn"
proof (rule rt_invI)
  let ?b = "VOp (get_or zero_Op pair v)" let ?g = "LinkAllTo (map VOp ks) ?b Realtime g"
  note D = rt_invD [OF inv]
  have wf: "wf_graph ?g" using wf_LinkAllTo [OF D(1)] .
  have arc: "arc ?g x y \<longleftrightarrow> arc g x y \<or> x \<in> VOp ` keys dn \<and> y = ?b" for x y
    by (auto simp: wf_arc_iff [OF wf] wf_arc_iff [OF D(1)] edges_LinkAllTo ks simp del: in_edges)
  have mono: "reach g x y \<Longrightarrow> reach ?g x y" "(arc g)\<^sup>+\<^sup>+ x y \<Longrightarrow> (arc ?g)\<^sup>+\<^sup>+ x y" for x y
    using arc by (auto elim: rtranclp_mono [THEN predicate2D, rotated] intro: tranclp_step_mono)
  show "wf_graph ?g" by (rule wf)
  show "d \<in> set (h @ [v]) \<and> op_Type d = OpTypeOk" if "d \<in> keys dn" for d using D(2) [OF that] by simp
  show "\<exists>d \<in> keys dn. reach ?g (VOp a) (VOp d)" if "a \<in> set (h @ [v])" "op_Type a = OpTypeOk" for a
    using that D(3) [of a] v mono(1) by auto
  show "r = Realtime \<and> (\<exists>a i. x = VOp a \<and> a \<in> set (h @ [v]) \<and> op_Type a = OpTypeOk \<and>
        i \<in> set (h @ [v]) \<and> op_Type i = OpTypeInvoke \<and> y = VOp (get_or zero_Op pair i) \<and> op_idx a < op_idx i)"
    if e: "(x, y, r) \<in> edges ?g" for x y r
  proof (cases "(x, y, r) \<in> edges g")
    case True
    from D(4) [OF True] show ?thesis by fastforce
  next
    case False
    with e ks obtain a where "x = VOp a" "a \<in> keys dn" "y = ?b" "r = Realtime"
      by (auto simp: edges_LinkAllTo simp del: in_edges)
    with D(2) [of a] new [of a] v show ?thesis by auto
  qed
  show "(arc ?g)\<^sup>+\<^sup>+ (VOp a) (VOp (get_or zero_Op pair i))"
    if ai: "a \<in> set (h @ [v])" "i \<in> set (h @ [v])" "op_Type a = OpTypeOk" "op_Type i = OpTypeInvoke" "op_idx a < op_idx i" for a i
  proof (cases "i = v")
    case True
    have a: "a \<in> set h" using ai v by auto
    with D(3) ai(3) obtain d where "d \<in> keys dn" "reach ?g (VOp a) (VOp d)" using mono(1) by blast
    with arc True show ?thesis by (auto intro: rtranclp_into_tranclp1)
  next
    case False
    with ai new have "a \<in> set h" "i \<in> set h" by fastforce+
    with D(5) ai mono(2) show ?thesis by blast
  qed
qed

lemma rt_ok:
  assumes inv: "rt_inv pair h g dn" and new: "\<And>x. x \<in> set h \<Longrightarrow> op_idx x < op_idx v" and v: "op_Type v = OpTypeOk"
    and dn': "keys dn' = insert v (keys dn - {d. arc g (VOp d) (VOp v)})"
  shows "rt_inv pair (h @ [v]) g dn'"
proof (rule rt_invI)
  note D = rt_invD [OF inv]
  show "wf_graph g" by (rule D(1))
  show "d \<in> set (h @ [v]) \<and> op_Type d = OpTypeOk" if "d \<in> keys dn'" for d using that D(2) [of d] dn' v by auto
  show "\<exists>d \<in> keys dn'. reach g (VOp a) (VOp d)" if "a \<in> set (h @ [v])" "op_Type a = OpTypeOk" for a
  proof (cases "a = v")
    case False
    with that D(3) obtain d where d: "d \<in> keys dn" "reach g (VOp a) (VOp d)" by auto
    show ?thesis
    proof (cases "arc g (VOp d) (VOp v)")
      case True
      with d(2) have "reach g (VOp a) (VOp v)" by (rule rtranclp.rtrancl_into_rtrancl)
      then show ?thesis using dn' by blast
    qed (use d dn' in blast)
  qed (use dn' in auto)
  show "r = Realtime \<and> (\<exists>a i. x = VOp a \<and> a \<in> set (h @ [v]) \<and> op_Type a = OpTypeOk \<and>
        i \<in> set (h @ [v]) \<and> op_Type i = OpTypeInvoke \<and> y = VOp (get_or zero_Op pair i) \<and> op_idx a < op_idx i)"
    if "(x, y, r) \<in> edges g" for x y r
    using D(4) [OF that] by fastforce
  show "(arc g)\<^sup>+\<^sup>+ (VOp a) (VOp (get_or zero_Op pair i))"
    if "a \<in> set (h @ [v])" "i \<in> set (h @ [v])" "op_Type a = OpTypeOk" "op_Type i = OpTypeInvoke" "op_idx a < op_idx i" for a i
    using that D(5) [of a i] new [of i] v by auto
qed

lemma rt_other:
  "\<lbrakk>rt_inv pair h g dn; op_Type v \<noteq> OpTypeOk; op_Type v \<noteq> OpTypeInvoke\<rbrakk> \<Longrightarrow> rt_inv pair (h @ [v]) g dn"
  by (rule rt_invI) (auto dest: rt_invD(2-5) simp: rt_invD(1) simp del: in_edges, blast dest: rt_invD(4))

lemma rt_step:
  assumes inv: "rt_inv pair h g dn" and new: "\<And>x. x \<in> set h \<Longrightarrow> op_idx x < op_idx v"
  shows "case realtime_step \<rho> pair v (g, dn) of (g', dn') \<Rightarrow> rt_inv pair (h @ [v]) g' dn'"
proof (cases "op_Type v")
  case OpTypeInvoke
  have "fold (\<lambda>k. Link (VOp k) y r) ks g = LinkAllTo (map VOp ks) y r g" for ks y r
    by (simp add: LinkAllTo_def fold_map comp_def)
  with rt_invoke [OF inv new OpTypeInvoke, of "go_range \<rho> (map fst dn)"] OpTypeInvoke show ?thesis
    by (simp add: realtime_step_def)
next
  case OpTypeOk
  have "keys (AList.update v () (setDel \<rho> dn (opSet (In g (VOp v))))) = insert v (keys dn - {d. arc g (VOp d) (VOp v)})"
    by (simp add: keys_setDel keys_opSet wf_graphD(2) [OF rt_invD(1) [OF inv]])
  from rt_ok [OF inv new OpTypeOk this] OpTypeOk show ?thesis by (simp add: realtime_step_def)
qed (use rt_other [OF inv] in \<open>simp_all add: realtime_step_def\<close>)

lemma rt_run:
  assumes "numbered h"
  shows "case fold (\<lambda>(i, op). realtime_step (sub \<rho> i) pair op) (enumerate n h) (NewDirectedGraph, []) of
    (g, dn) \<Rightarrow> rt_inv pair h g dn"
  using assms
proof (induction h rule: rev_induct)
  case Nil
  then show ?case by (auto simp: rt_inv_def edges_def)
next
  case (snoc v h)
  have n: "numbered h" "\<And>x. x \<in> set h \<Longrightarrow> op_idx x < op_idx v"
    using snoc.prems by (auto simp: numbered_def sorted_wrt_append)
  obtain g dn where st: "fold (\<lambda>(i, op). realtime_step (sub \<rho> i) pair op) (enumerate n h) (NewDirectedGraph, []) = (g, dn)"
    by fastforce
  with snoc.IH [OF n(1)] have "rt_inv pair h g dn" by simp
  from rt_step [OF this n(2), of "sub \<rho> (n + length h)"] st show ?case by (simp add: enumerate_append_eq)
qed

lemma RealtimeGraph_inv:
  assumes "numbered h" "RealtimeGraph \<rho> h opts = Some (an, gp, e)"
  obtains pair g dn invs where "pair_history h = Some pair" "gp = Some g" "an = None" "e = RealtimeExplainer pair"
    "rt_inv pair h g dn" "pair_inv h pair invs"
proof -
  from assms(2) obtain pair where p: "pair_history h = Some pair"
    by (auto simp: RealtimeGraph_def split: Option.bind_splits)
  obtain g dn where st: "fold (\<lambda>(i, op). realtime_step (sub \<rho> i) pair op) (enumerate 0 h) (NewDirectedGraph, []) = (g, dn)"
    by fastforce
  from pair_history_inv [OF assms(1) p] obtain invs where "pair_inv h pair invs" by blast
  moreover from rt_run [OF assms(1), where \<rho> = \<rho> and pair = pair and n = 0] st have "rt_inv pair h g dn" by simp
  ultimately show ?thesis using that [OF p] assms(2) st by (auto simp: RealtimeGraph_def p)
qed

text \<open>A missing pair reads as the zero operation, which is no event of a numbered history.\<close>

lemma paired_event:
  assumes "numbered h" "b \<in> set h" "b = get_or zero_Op pair i"
  shows "map_of pair i = Some b"
proof -
  have "Present (op_Index b)" using assms(1,2) by (auto simp: numbered_def list_all_iff)
  then have "b \<noteq> zero_Op" by (auto simp: zero_Op_def)
  with assms(3) show ?thesis by (auto simp: get_or_def split: option.splits)
qed

lemma rt_path_sound:
  assumes inv: "rt_inv pair h g dn" and p: "pair_inv h pair invs" and n: "numbered h"
    and path: "(arc g)\<^sup>+\<^sup>+ x y" "x = VOp a"
  shows "\<exists>i \<in> set h. op_Type i = OpTypeInvoke \<and> y = VOp (get_or zero_Op pair i) \<and> op_idx a < op_idx i"
  using path
proof (induction rule: tranclp_induct)
  case (base y)
  then obtain r where "(VOp a, y, r) \<in> edges g" using wf_arc_iff [OF rt_invD(1) [OF inv]] by blast
  from rt_invD(4) [OF inv this] show ?case by auto
next
  case (step y z)
  from step.IH [OF step.prems] obtain i where i: "i \<in> set h" "op_Type i = OpTypeInvoke" "y = VOp (get_or zero_Op pair i)" "op_idx a < op_idx i"
    by blast
  obtain r where "(y, z, r) \<in> edges g" using step.hyps(2) wf_arc_iff [OF rt_invD(1) [OF inv]] by blast
  from rt_invD(4) [OF inv this] obtain c j where c: "y = VOp c" "c \<in> set h" "j \<in> set h" "op_Type j = OpTypeInvoke"
    "z = VOp (get_or zero_Op pair j)" "op_idx c < op_idx j" by blast
  have "map_of pair i = Some c" using i(3) c(1,2) by (intro paired_event [OF n]) auto
  with i(2) have "op_idx i < op_idx c" using pair_invD(3) [OF p] by blast
  with i(4) c show ?case by force
qed

text \<open>C33. Real-time order. In the graph of \<open>RealtimeGraph\<close> there is a path from a completed
  operation \<open>a\<close> to the completion \<open>b\<close> of an invocation \<open>i\<close> exactly when \<open>a\<close> completed before \<open>i\<close> was
  invoked: the incremental construction, which forgets implied events, loses nothing and adds
  nothing to the real-time order of the history.\<close>

theorem RealtimeGraph_order:
  assumes "numbered h" "RealtimeGraph \<rho> h opts = Some (an, Some g, e)" "pair_history h = Some pair"
    and "a \<in> set h" "op_Type a = OpTypeOk" "i \<in> set h" "op_Type i = OpTypeInvoke" "map_of pair i = Some b"
  shows "(arc g)\<^sup>+\<^sup>+ (VOp a) (VOp b) \<longleftrightarrow> op_idx a < op_idx i"
proof -
  obtain dn invs where inv: "rt_inv pair h g dn" "pair_inv h pair invs"
    using RealtimeGraph_inv [OF assms(1,2)] assms(3) by (metis option.inject)
  have b: "get_or zero_Op pair i = b" "b \<in> set h"
    using assms(8) pair_invD(2) [OF inv(2) pair_invD(1) [OF inv(2) assms(8)]] by (auto simp: get_or_def)
  show ?thesis
  proof
    assume "(arc g)\<^sup>+\<^sup>+ (VOp a) (VOp b)"
    from rt_path_sound [OF inv assms(1) this refl]
    obtain j where j: "b = get_or zero_Op pair j" "op_idx a < op_idx j" by blast
    from paired_event [OF assms(1) b(2) j(1)] have "i = j"
      using assms(8) pair_invD(1) [OF inv(2)] by (metis option.inject)
    with j show "op_idx a < op_idx i" by simp
  next
    assume "op_idx a < op_idx i"
    with rt_invD(5) [OF inv(1) assms(4,6,5,7)] b show "(arc g)\<^sup>+\<^sup>+ (VOp a) (VOp b)" by simp
  qed
qed

text \<open>Events for small examples: index, process, type and micro-operations.\<close>

definition event :: "int \<Rightarrow> int \<Rightarrow> OpType \<Rightarrow> Mop list \<Rightarrow> Op" where
  "event i p t mops = \<lparr>op_Index = OptInt i, op_Process = OptInt p, op_Time = None, op_Type = t,
     op_Value = Some (nat i, mops), op_Error = []\<rparr>"

theorem RealtimeGraph_order_witness:
  "let h = [event 0 0 OpTypeInvoke [], event 1 0 OpTypeOk [], event 2 1 OpTypeInvoke [], event 3 1 OpTypeOk []]
   in \<exists>g e. RealtimeGraph fifo h ([] :: unit list) = Some (None, Some g, e) \<and>
     (arc g)\<^sup>+\<^sup>+ (VOp (event 1 0 OpTypeOk [])) (VOp (event 3 1 OpTypeOk []))"
proof -
  let ?h = "[event 0 0 OpTypeInvoke [], event 1 0 OpTypeOk [], event 2 1 OpTypeInvoke [], event 3 1 OpTypeOk []]"
  have p: "\<exists>pair. pair_history ?h = Some pair \<and> map_of pair (event 2 1 OpTypeInvoke []) = Some (event 3 1 OpTypeOk [])"
    by (simp add: pair_history_def pair_step_def event_def GetOr_def AnonymousMagicNumber_def)
  then obtain pair where pair: "pair_history ?h = Some pair"
    "map_of pair (event 2 1 OpTypeInvoke []) = Some (event 3 1 OpTypeOk [])" by blast
  then obtain g e where g: "RealtimeGraph fifo ?h ([] :: unit list) = Some (None, Some g, e)"
    by (simp add: RealtimeGraph_def case_prod_unfold)
  have "numbered ?h" by (simp add: numbered_def event_def op_idx_def GetOr_def)
  from RealtimeGraph_order [OF this g pair(1) _ _ _ _ pair(2), of "event 1 0 OpTypeOk []"] g
  show ?thesis by (auto simp: Let_def event_def op_idx_def GetOr_def)
qed

section \<open>The process graph\<close>

lemma zip_tl_nth: "(x, y) \<in> set (zip xs (tl xs)) \<longleftrightarrow> (\<exists>i. Suc i < length xs \<and> x = xs ! i \<and> y = xs ! Suc i)"
  by (force simp: set_zip nth_tl)

lemma consecutive_path:
  "\<lbrakk>i < j; j < length xs\<rbrakk> \<Longrightarrow> (\<lambda>x y. (x, y) \<in> set (zip xs (tl xs)))\<^sup>+\<^sup>+ (xs ! i) (xs ! j)"
proof (induction j)
  case (Suc j)
  have step: "(xs ! j, xs ! Suc j) \<in> set (zip xs (tl xs))" using Suc.prems by (auto simp: zip_tl_nth)
  show ?case
  proof (cases "i = j")
    case False
    with Suc have "(\<lambda>x y. (x, y) \<in> set (zip xs (tl xs)))\<^sup>+\<^sup>+ (xs ! i) (xs ! j)" by simp
    with step show ?thesis by (auto intro: tranclp.trancl_into_trancl)
  qed (use step in auto)
qed simp

lemma edges_ProcessOrder:
  "edges (ProcessOrder h p) = {(VOp a, VOp b, Process) |a b. (a, b) \<in> set (zip (filter (on_process p) h) (tl (filter (on_process p) h)))}"
  by (auto simp: ProcessOrder_def Let_def)

lemma process_graphs:
  fixes h :: History
  shows "fold (\<lambda>op (processes, graphs).
      (case op_Process op of
         OptInt p \<Rightarrow>
           if p \<notin> keys processes then (AList.update p () processes, graphs @ [G p]) else (processes, graphs)
       | OptNil \<Rightarrow> (processes, graphs))) h (ps, gs) = (ps', gs') \<Longrightarrow>
    set gs = G ` keys ps \<Longrightarrow>
    set gs' = G ` keys ps' \<and> keys ps' = keys ps \<union> {p. \<exists>op \<in> set h. op_Process op = OptInt p}"
proof (induction h arbitrary: ps gs)
  case (Cons op h)
  show ?case
  proof (cases "op_Process op")
    case OptNil
    with Cons show ?thesis by auto
  next
    case (OptInt p)
    show ?thesis
    proof (cases "p \<in> keys ps")
      case True
      with OptInt Cons.prems Cons.IH [of ps gs] show ?thesis by auto
    next
      case False
      with OptInt Cons.prems Cons.IH [of "AList.update p () ps" "gs @ [G p]"] show ?thesis by auto
    qed
  qed
qed auto

lemma on_process_iff: "on_process p op \<longleftrightarrow> op_Process op = OptInt p"
  by (auto simp: on_process_def)

lemma ProcessGraph_edges:
  assumes "ProcessGraph \<rho> h opts = Some (an, Some g, e)"
  shows "edges g = (\<Union>p. edges (ProcessOrder (FilterType h OpTypeOk) p))" "wf_graph g"
proof -
  let ?ok = "FilterType h OpTypeOk"
  obtain ps gs where f: "fold (\<lambda>op (processes, graphs).
      (case op_Process op of
         OptInt p \<Rightarrow>
           if p \<notin> keys processes then (AList.update p () processes, graphs @ [ProcessOrder ?ok p]) else (processes, graphs)
       | OptNil \<Rightarrow> (processes, graphs))) ?ok ([], []) = (ps, gs)" by fastforce
  then have g: "g = DigraphUnion \<rho> gs" using assms by (simp add: ProcessGraph_def Let_def)
  have gs: "set gs = ProcessOrder ?ok ` {p. \<exists>op \<in> set ?ok. op_Process op = OptInt p}"
    using process_graphs [OF f] by simp
  have emp: "edges (ProcessOrder ?ok p) = {}" if "\<not> (\<exists>op \<in> set ?ok. op_Process op = OptInt p)" for p
    using that by (auto simp: edges_ProcessOrder on_process_iff zip_tl_nth filter_empty_conv dest!: nth_mem)
  have "x \<in> (\<Union>g \<in> set gs. edges g)" if "x \<in> edges (ProcessOrder ?ok p)" for x p
    unfolding gs image_image using that emp [of p] by (metis (mono_tags, lifting) UN_I empty_iff imageI mem_Collect_eq)
  then show "edges g = (\<Union>p. edges (ProcessOrder ?ok p))"
    unfolding g edges_DigraphUnion gs by blast
  show "wf_graph g" by (simp add: g wf_DigraphUnion)
qed

lemma numbered_less: "\<lbrakk>numbered h; i < j; j < length h\<rbrakk> \<Longrightarrow> op_idx (h ! i) < op_idx (h ! j)"
  by (simp add: numbered_def sorted_wrt_iff_nth_less)

lemma ProcessGraph_arc:
  assumes n: "numbered h" and g: "ProcessGraph \<rho> h opts = Some (an, Some g, e)" and "arc g x y"
  obtains a b p where "x = VOp a" "y = VOp b" "a \<in> set h" "b \<in> set h" "op_Type a = OpTypeOk" "op_Type b = OpTypeOk"
    "op_Process a = OptInt p" "op_Process b = OptInt p" "op_idx a < op_idx b"
proof -
  note eg = ProcessGraph_edges [OF g]
  obtain r where "(x, y, r) \<in> edges g" using assms(3) wf_arc_iff [OF eg(2)] by blast
  then obtain p a b where ab: "x = VOp a" "y = VOp b"
    "(a, b) \<in> set (zip (filter (on_process p) (FilterType h OpTypeOk)) (tl (filter (on_process p) (FilterType h OpTypeOk))))"
    unfolding eg(1) edges_ProcessOrder by blast
  let ?l = "filter (on_process p) (FilterType h OpTypeOk)"
  have "numbered ?l" using n by (simp add: FilterType_def numbered_filter)
  from ab(3) obtain i where i: "Suc i < length ?l" "a = ?l ! i" "b = ?l ! Suc i" unfolding zip_tl_nth by blast
  then have "a \<in> set ?l" "b \<in> set ?l" by (metis Suc_lessD nth_mem)+
  moreover have "op_idx a < op_idx b" using numbered_less [OF \<open>numbered ?l\<close>, of i "Suc i"] i by simp
  ultimately show ?thesis using ab(1,2) by (intro that [of a b p]) (auto simp: FilterType_def on_process_iff)
qed

text \<open>C34. Process order. In the graph of \<open>ProcessGraph\<close> there is a path from the operation \<open>a\<close> to the
  operation \<open>b\<close> exactly when both are successful operations of one process and \<open>a\<close> comes first.\<close>

theorem ProcessGraph_order:
  assumes n: "numbered h" and g: "ProcessGraph \<rho> h opts = Some (an, Some g, e)"
  shows "(arc g)\<^sup>+\<^sup>+ (VOp a) (VOp b) \<longleftrightarrow> a \<in> set h \<and> b \<in> set h \<and> op_Type a = OpTypeOk \<and> op_Type b = OpTypeOk \<and>
    (\<exists>p. op_Process a = OptInt p \<and> op_Process b = OptInt p) \<and> op_idx a < op_idx b"
proof
  have "(arc g)\<^sup>+\<^sup>+ x y \<Longrightarrow> \<exists>a b p. x = VOp a \<and> y = VOp b \<and> a \<in> set h \<and> b \<in> set h \<and> op_Type a = OpTypeOk \<and>
      op_Type b = OpTypeOk \<and> op_Process a = OptInt p \<and> op_Process b = OptInt p \<and> op_idx a < op_idx b" for x y
  proof (induction rule: tranclp_induct)
    case (base y)
    then show ?case by (rule ProcessGraph_arc [OF n g]) blast
  next
    case (step y z)
    from ProcessGraph_arc [OF n g step.hyps(2)] step.IH show ?case by force
  qed
  then show "(arc g)\<^sup>+\<^sup>+ (VOp a) (VOp b) \<Longrightarrow> a \<in> set h \<and> b \<in> set h \<and> op_Type a = OpTypeOk \<and> op_Type b = OpTypeOk \<and>
    (\<exists>p. op_Process a = OptInt p \<and> op_Process b = OptInt p) \<and> op_idx a < op_idx b" by fastforce
next
  assume ab: "a \<in> set h \<and> b \<in> set h \<and> op_Type a = OpTypeOk \<and> op_Type b = OpTypeOk \<and>
    (\<exists>p. op_Process a = OptInt p \<and> op_Process b = OptInt p) \<and> op_idx a < op_idx b"
  then obtain p where p: "op_Process a = OptInt p" "op_Process b = OptInt p" by blast
  let ?l = "filter (on_process p) (FilterType h OpTypeOk)"
  have nl: "numbered ?l" using n by (simp add: FilterType_def numbered_filter)
  have "a \<in> set ?l" "b \<in> set ?l" using ab p by (auto simp: FilterType_def on_process_iff)
  then obtain i j where ij: "a = ?l ! i" "i < length ?l" "b = ?l ! j" "j < length ?l" by (metis in_set_conv_nth)
  have "i < j" using ab ij numbered_less [OF nl, of j i] by (cases i j rule: linorder_cases) auto
  from consecutive_path [OF this ij(4)] ij
  have path: "(\<lambda>x y. (x, y) \<in> set (zip ?l (tl ?l)))\<^sup>+\<^sup>+ a b" by simp
  have arc: "arc g (VOp x) (VOp y)" if "(x, y) \<in> set (zip ?l (tl ?l))" for x y
    using that unfolding wf_arc_iff [OF ProcessGraph_edges(2) [OF g]] ProcessGraph_edges(1) [OF g] edges_ProcessOrder by blast
  from path show "(arc g)\<^sup>+\<^sup>+ (VOp a) (VOp b)"
    by (induction rule: tranclp_induct) (auto dest: arc intro: tranclp.intros)
qed

theorem ProcessGraph_order_witness:
  "let h = [event 0 0 OpTypeInvoke [], event 1 0 OpTypeOk [], event 2 0 OpTypeInvoke [], event 3 0 OpTypeOk []]
   in \<exists>g e. ProcessGraph fifo h ([] :: unit list) = Some (None, Some g, e) \<and>
     (arc g)\<^sup>+\<^sup>+ (VOp (event 1 0 OpTypeOk [])) (VOp (event 3 0 OpTypeOk []))"
proof -
  let ?h = "[event 0 0 OpTypeInvoke [], event 1 0 OpTypeOk [], event 2 0 OpTypeInvoke [], event 3 0 OpTypeOk []]"
  have "numbered ?h" by (simp add: numbered_def event_def op_idx_def GetOr_def)
  moreover obtain g e where g: "ProcessGraph fifo ?h ([] :: unit list) = Some (None, Some g, e)"
    by (simp add: ProcessGraph_def Let_def case_prod_unfold)
  ultimately show ?thesis
    using ProcessGraph_order [of ?h fifo "[] :: unit list" None g e "event 1 0 OpTypeOk []" "event 3 0 OpTypeOk []"] g
    by (auto simp: event_def op_idx_def GetOr_def)
qed

end
