(* ===== verification/Write_Maps.thy ===== *)
theory Write_Maps
  imports Txn_Laws List_Append Analyzer_Laws
begin

text \<open>
  The indices of the list-append checker, characterised: which event a write map holds for a key
  and a value, and which versions the checks for aborted, intermediate, repeated and duplicated
  elements report. A history is typed when every event has micro-operations, appends of ints and
  reads of int lists (or of nil, in an invocation).
\<close>

section \<open>Typed histories\<close>

definition typed_mop :: "Mop \<Rightarrow> bool" where
  "typed_mop mop \<longleftrightarrow>
     (case (mop_T mop, mop_value mop) of
        (MopTypeAppend, MV_int _) \<Rightarrow> True
      | (MopTypeRead, MV_nil) \<Rightarrow> True
      | (MopTypeRead, MV_ints _) \<Rightarrow> True
      | _ \<Rightarrow> False)"

definition typed_op :: "Op \<Rightarrow> bool" where
  "typed_op op \<longleftrightarrow> mops_of op \<noteq> [] \<and> list_all typed_mop (mops_of op)"

definition typed_history :: "History \<Rightarrow> bool" where
  "typed_history h \<longleftrightarrow> list_all typed_op h"

text \<open>What a read returned, and what is appended to a key.\<close>

definition reads_of :: "Mop \<Rightarrow> int list" where
  "reads_of mop = (case mop_value mop of MV_ints vs \<Rightarrow> vs | _ \<Rightarrow> [])"

definition appended :: "Mop \<Rightarrow> int" where
  "appended mop = (case mop_value mop of MV_int v \<Rightarrow> v | _ \<Rightarrow> 0)"

definition appends :: "Mop list \<Rightarrow> (string \<times> int) list" where
  "appends mops = map (\<lambda>mop. (GetKey mop, appended mop)) (filter IsAppend mops)"

definition appends_to :: "string \<Rightarrow> Mop list \<Rightarrow> int list" where
  "appends_to k mops = map appended (filter (\<lambda>mop. IsAppend mop \<and> GetKey mop = k) mops)"

lemma typed_cases:
  assumes "typed_mop mop"
  obtains (append) v where "IsAppend mop" "\<not> IsRead mop" "GetValue mop = MV_int v" "appended mop = v"
  | (read) vs where "IsRead mop" "\<not> IsAppend mop" "read_values mop = Some vs" "reads_of mop = vs"
      "GetValue mop = MV_nil \<and> vs = [] \<or> GetValue mop = MV_ints vs"
  using assms by (auto simp: typed_mop_def mop_defs read_values_def reads_of_def appended_def
      split: MopType.splits MopValueType.splits)

lemma typed_append: "\<lbrakk>typed_mop mop; IsAppend mop\<rbrakk> \<Longrightarrow> GetValue mop = MV_int (appended mop)"
  by (erule typed_cases) auto

lemma typed_read: "\<lbrakk>typed_mop mop; IsRead mop\<rbrakk> \<Longrightarrow> read_values mop = Some (reads_of mop)"
  by (erule typed_cases) auto

lemma typed_historyD:
  "\<lbrakk>typed_history h; op \<in> set h\<rbrakk> \<Longrightarrow> mops_of op \<noteq> []"
  "\<lbrakk>typed_history h; op \<in> set h\<rbrakk> \<Longrightarrow> deref op = Some (mops_of op)"
  "\<lbrakk>typed_history h; op \<in> set h; mop \<in> set (mops_of op)\<rbrakk> \<Longrightarrow> typed_mop mop"
  by (auto simp: typed_history_def typed_op_def list_all_iff intro: mops_of_Some)

lemma typed_filter: "typed_history h \<Longrightarrow> typed_history (filter P h)"
  by (auto simp: typed_history_def list_all_iff)

lemma set_appends: "(k, v) \<in> set (appends mops) \<longleftrightarrow> v \<in> set (appends_to k mops)"
  by (auto simp: appends_def appends_to_def)

lemma appends_Cons: "appends (mop # mops) = (if IsAppend mop then [(GetKey mop, appended mop)] else []) @ appends mops"
  by (simp add: appends_def)

lemma appends_to_Cons:
  "appends_to k (mop # mops) = (if IsAppend mop \<and> GetKey mop = k then [appended mop] else []) @ appends_to k mops"
  by (simp add: appends_to_def)

lemma appends_to_append: "appends_to k (xs @ ys) = appends_to k xs @ appends_to k ys"
  by (simp add: appends_to_def)

section \<open>Write maps\<close>

text \<open>The last event of a history with a property.\<close>

definition last_event :: "(Op \<Rightarrow> bool) \<Rightarrow> History \<Rightarrow> Op option" where
  "last_event P h = List.find P (rev h)"

lemma last_event_simps [simp]:
  "last_event P [] = None"
  "last_event P (h @ [op]) = (if P op then Some op else last_event P h)"
  by (simp_all add: last_event_def)

lemma last_event_None: "last_event P h = None \<longleftrightarrow> (\<forall>op \<in> set h. \<not> P op)"
  by (auto simp: last_event_def find_None_iff)

lemma last_event_SomeD: "last_event P h = Some op \<Longrightarrow> op \<in> set h \<and> P op"
  by (auto simp: last_event_def find_Some_iff) (metis nth_mem length_rev set_rev)

lemma last_event_unique:
  "\<lbrakk>op \<in> set h; P op; \<And>w. w \<in> set h \<Longrightarrow> P w \<Longrightarrow> w = op\<rbrakk> \<Longrightarrow> last_event P h = Some op"
  by (metis last_event_None last_event_SomeD not_None_eq)

definition writer :: "write_map \<Rightarrow> string \<Rightarrow> int \<Rightarrow> Op option" where
  "writer m k v = map_of (get_or [] m k) (MV_int v)"

lemma writer_Nil [simp]: "writer [] k v = None"
  by (simp add: writer_def)

text \<open>The map \<open>m'\<close> is \<open>m\<close> with \<open>op\<close> stored under the pairs \<open>S\<close>.\<close>

definition stored :: "Op \<Rightarrow> (string \<times> int) set \<Rightarrow> write_map \<Rightarrow> write_map \<Rightarrow> bool" where
  "stored op S m m' \<longleftrightarrow> (\<forall>k v. writer m' k v = (if (k, v) \<in> S then Some op else writer m k v))"

lemma stored_empty [simp]: "stored op {} m m"
  by (simp add: stored_def)

lemma stored_trans: "\<lbrakk>stored op S m m1; stored op T m1 m2\<rbrakk> \<Longrightarrow> stored op (S \<union> T) m m2"
  by (simp add: stored_def)

lemma insert_writer_int: "\<exists>m'. insert_writer k (MV_int v) op m = Some m' \<and> stored op {(k, v)} m m'"
  by (simp add: insert_writer_def writer_def stored_def)

text \<open>
  A loop over a history whose body at an event stores that event under the pairs \<open>P op\<close>: the
  map holds for a pair the last event that has it.
\<close>

lemma foldM_writers:
  assumes "\<And>op m. op \<in> set h \<Longrightarrow> \<exists>m'. f op m = Some m' \<and> stored op (P op) m m'"
  shows "\<exists>m. foldM f h [] = Some m \<and> (\<forall>k v. writer m k v = last_event (\<lambda>op. (k, v) \<in> P op) h)"
  using assms
proof (induction h rule: rev_induct)
  case (snoc op h)
  then obtain m1 where m1: "foldM f h [] = Some m1"
    "\<And>k v. writer m1 k v = last_event (\<lambda>op. (k, v) \<in> P op) h" by auto
  from snoc.prems [of op m1] obtain m2 where "f op m1 = Some m2" "stored op (P op) m1 m2" by auto
  with m1 show ?case by (simp add: foldM_append stored_def)
qed simp

lemma foldM_appends:
  assumes "\<And>mop. mop \<in> set mops \<Longrightarrow> typed_mop mop"
  shows "\<exists>m'. foldM (\<lambda>mop m. if IsAppend mop then insert_writer (GetKey mop) (GetValue mop) op m else Some m) mops m = Some m' \<and>
    stored op (set (appends mops)) m m'"
  using assms
proof (induction mops arbitrary: m)
  case (Cons mop mops)
  show ?case
  proof (cases "IsAppend mop")
    case True
    with Cons.prems have v: "GetValue mop = MV_int (appended mop)" by (simp add: typed_append)
    obtain m1 where m1: "insert_writer (GetKey mop) (MV_int (appended mop)) op m = Some m1"
      "stored op {(GetKey mop, appended mop)} m m1" using insert_writer_int by blast
    obtain m2 where "foldM (\<lambda>mop m. if IsAppend mop then insert_writer (GetKey mop) (GetValue mop) op m else Some m) mops m1 = Some m2"
      "stored op (set (appends mops)) m1 m2" using Cons by force
    with m1 True v stored_trans [OF m1(2)] show ?thesis by (force simp: appends_Cons)
  qed (use Cons in \<open>auto simp: appends_Cons\<close>)
qed (simp add: appends_def)

lemma op_Value_typed: "\<lbrakk>typed_history h; op \<in> set h\<rbrakk> \<Longrightarrow> \<exists>p. op_Value op = Some (p, mops_of op)"
  using typed_historyD(1) by (fastforce simp: mops_of_def split: option.splits)

lemma writeIndex_writer:
  assumes "typed_history h"
  shows "\<exists>wi. writeIndex h = Some wi \<and>
    (\<forall>k v. writer wi k v = last_event (\<lambda>op. v \<in> set (appends_to k (mops_of op))) h)"
  unfolding writeIndex_def set_appends [symmetric]
  by (rule foldM_writers)
    (use op_Value_typed [OF assms] typed_historyD(3) [OF assms] foldM_appends in \<open>fastforce\<close>)

lemma FailedWrites_writer:
  assumes "typed_history h"
  shows "\<exists>m. FailedWrites h = Some m \<and> (\<forall>k v. writer m k v =
    last_event (\<lambda>op. v \<in> set (appends_to k (mops_of op)) \<and> op_Type op = OpTypeFail) h)"
proof -
  have "\<exists>m'. (if op_Type op \<noteq> OpTypeFail then Some m
     else do {
       mops \<leftarrow> deref op;
       foldM (\<lambda>mop m. if IsAppend mop then insert_writer (GetKey mop) (GetValue mop) op m else Some m) mops m }) = Some m' \<and>
     stored op {p \<in> set (appends (mops_of op)). op_Type op = OpTypeFail} m m'"
    if "op \<in> set h" for op m
    using typed_historyD [OF assms that] foldM_appends [of "mops_of op" op m] by auto
  from foldM_writers [of h, OF this] show ?thesis
    by (simp add: FailedWrites_def set_appends)
qed

text \<open>An append is intermediate when the same transaction appends to the key again.\<close>

lemma set_butlast_snoc: "xs \<noteq> [] \<Longrightarrow> set xs = insert (last xs) (set (butlast xs))"
  by (metis append_butlast_last_id list.set(1,2) set_append Un_insert_right Un_empty_right)

lemma intermediate_loop:
  assumes "\<And>mop. mop \<in> set mops \<Longrightarrow> typed_mop mop"
  shows "\<exists>m' final. foldM (\<lambda>mop (im, final).
           if IsAppend mop
           then do {
             im' \<leftarrow> (case map_of final (GetKey mop) of
                      Some lastOp \<Rightarrow> insert_writer (GetKey mop) lastOp op im
                    | None \<Rightarrow> Some im);
             Some (im', AList.update (GetKey mop) (GetValue mop) final) }
           else Some (im, final)) mops (m, []) = Some (m', final) \<and>
    stored op {(k, v). v \<in> set (butlast (appends_to k mops))} m m' \<and>
    (\<forall>k. map_of final k = (if appends_to k mops = [] then None else Some (MV_int (last (appends_to k mops)))))"
    (is "\<exists>m' final. foldM ?f mops _ = _ \<and> stored op (?S mops) m m' \<and> ?F mops final")
  using assms
proof (induction mops rule: rev_induct)
  case Nil
  then show ?case by (simp add: appends_to_def)
next
  case (snoc mop mops)
  then obtain m1 final where m1: "foldM ?f mops (m, []) = Some (m1, final)" "stored op (?S mops) m m1" "?F mops final"
    by force
  show ?case
  proof (cases "IsAppend mop")
    case True
    let ?k = "GetKey mop" let ?old = "appends_to ?k mops"
    have v: "GetValue mop = MV_int (appended mop)" using snoc.prems True by (simp add: typed_append)
    have snoc_app: "appends_to k (mops @ [mop]) = appends_to k mops @ (if k = ?k then [appended mop] else [])" for k
      using True by (simp add: appends_to_append appends_to_Cons) (simp add: appends_to_def)
    have F: "?F (mops @ [mop]) (AList.update ?k (GetValue mop) final)" using m1(3) v by (simp add: snoc_app)
    show ?thesis
    proof (cases "?old = []")
      case empty: True
      have "?S (mops @ [mop]) = ?S mops" using empty by (auto simp: snoc_app split: if_splits)
      with empty m1 True F show ?thesis by (simp add: foldM_append)
    next
      case False
      obtain m2 where m2: "insert_writer ?k (MV_int (last ?old)) op m1 = Some m2" "stored op {(?k, last ?old)} m1 m2"
        using insert_writer_int by blast
      have "?S (mops @ [mop]) = ?S mops \<union> {(?k, last ?old)}"
        using set_butlast_snoc [OF False] by (auto simp: snoc_app butlast_append split: if_splits)
      with stored_trans [OF m1(2) m2(2)] False m1 m2 True F show ?thesis by (simp add: foldM_append)
    qed
  next
    case False
    then have "appends_to k (mops @ [mop]) = appends_to k mops" for k
      by (simp add: appends_to_append appends_to_Cons) (simp add: appends_to_def)
    with False m1 show ?thesis by (simp add: foldM_append)
  qed
qed

lemma IntermediateWrites_writer:
  assumes "typed_history h"
  shows "\<exists>m. IntermediateWrites h = Some m \<and> (\<forall>k v. writer m k v =
    last_event (\<lambda>op. v \<in> set (butlast (appends_to k (mops_of op)))) h)"
proof -
  have *: "\<exists>m'. (case op_Value op of None \<Rightarrow> Some m
     | Some (_, mops) \<Rightarrow> do {
         (im', _) \<leftarrow> foldM (\<lambda>mop (im, final).
           if IsAppend mop
           then do {
             im' \<leftarrow> (case map_of final (GetKey mop) of
                      Some lastOp \<Rightarrow> insert_writer (GetKey mop) lastOp op im
                    | None \<Rightarrow> Some im);
             Some (im', AList.update (GetKey mop) (GetValue mop) final) }
           else Some (im, final)) mops (m, []);
         Some im' }) = Some m' \<and> stored op {(k, v). v \<in> set (butlast (appends_to k (mops_of op)))} m m'"
    if "op \<in> set h" for op m
    using intermediate_loop [of "mops_of op" op m] typed_historyD(3) [OF assms that] op_Value_typed [OF assms that]
    by fastforce
  from foldM_writers [of h, OF *] show ?thesis by (simp add: IntermediateWrites_def)
qed

section \<open>Aborted and intermediate reads\<close>

text \<open>The micro-operations of a history with their events.\<close>

definition all_mops :: "History \<Rightarrow> (Op \<times> Mop) list" where
  "all_mops h = concat (map op_mops h)"

lemma in_all_mops: "(op, mop) \<in> set (all_mops h) \<longleftrightarrow> op \<in> set h \<and> mop \<in> set (mops_of op)"
  by (auto simp: all_mops_def op_mops_def)

lemma iterate_typed: "typed_history h \<Longrightarrow> iterate (OpMops h) = Some (all_mops h)"
  using typed_historyD(1) by (simp add: iterate_OpMops all_mops_def)

text \<open>The micro-operations of the successful events, and the reads among them.\<close>

definition ok_mops :: "History \<Rightarrow> (Op \<times> Mop) list" where
  "ok_mops h = all_mops (FilterOkHistory h)"

definition ok_read :: "History \<Rightarrow> Op \<Rightarrow> Mop \<Rightarrow> bool" where
  "ok_read h op mop \<longleftrightarrow> op \<in> set h \<and> op_Type op = OpTypeOk \<and> mop \<in> set (mops_of op) \<and> IsRead mop"

lemma ok_read_iff: "ok_read h op mop \<longleftrightarrow> (op, mop) \<in> set (ok_mops h) \<and> IsRead mop"
  by (auto simp: ok_mops_def in_all_mops ok_read_def FilterOkHistory_def)

lemma iterate_ok: "typed_history h \<Longrightarrow> iterate (OpMops (FilterOkHistory h)) = Some (ok_mops h)"
  by (simp add: ok_mops_def FilterOkHistory_def iterate_typed typed_filter)

text \<open>A loop over the successful micro-operations that appends the cases of every read.\<close>

lemma foldM_read_cases:
  assumes "\<And>op mop acc. ok_read h op mop \<Longrightarrow> \<exists>ys. f op mop acc = Some (acc @ ys) \<and> set ys = F op mop"
  shows "\<exists>cases. foldM (\<lambda>(op, mop) acc. if IsRead mop then f op mop acc else Some acc) (ok_mops h) [] = Some cases \<and>
    set cases = {c. \<exists>op mop. ok_read h op mop \<and> c \<in> F op mop}"
proof -
  let ?F = "\<lambda>(op, mop). if IsRead mop then F op mop else {}"
  have "\<exists>cases. foldM (\<lambda>(op, mop) acc. if IsRead mop then f op mop acc else Some acc) (ok_mops h) [] = Some cases \<and>
      set cases = set [] \<union> (\<Union>x \<in> set (ok_mops h). ?F x)"
    by (rule foldM_collect) (use assms in \<open>auto simp: ok_read_iff\<close>)
  moreover have "(\<Union>x \<in> set (ok_mops h). ?F x) = {c. \<exists>op mop. ok_read h op mop \<and> c \<in> F op mop}"
    by (fastforce simp: ok_read_iff split: if_splits)
  ultimately show ?thesis by simp
qed

lemma g1aCases_spec:
  assumes "typed_history h"
  shows "\<exists>cases. g1aCases h = Some cases \<and> set cases =
    {G1Conflict op mop w (MV_int e) |op mop w e. ok_read h op mop \<and> e \<in> set (reads_of mop) \<and>
       last_event (\<lambda>w. e \<in> set (appends_to (GetKey mop) (mops_of w)) \<and> op_Type w = OpTypeFail) h = Some w}"
proof -
  obtain m where m: "FailedWrites h = Some m" "\<And>k v. writer m k v =
    last_event (\<lambda>op. v \<in> set (appends_to k (mops_of op)) \<and> op_Type op = OpTypeFail) h"
    using FailedWrites_writer [OF assms] by blast
  let ?ys = "\<lambda>op mop. [G1Conflict op mop w (MV_int e).
      e \<leftarrow> reads_of mop, w \<leftarrow> (case map_of (get_or [] m (GetKey mop)) (MV_int e) of None \<Rightarrow> [] | Some w \<Rightarrow> [w])]"
  have ys: "set (?ys op mop) = {G1Conflict op mop w (MV_int e) |w e. e \<in> set (reads_of mop) \<and>
      last_event (\<lambda>w. e \<in> set (appends_to (GetKey mop) (mops_of w)) \<and> op_Type w = OpTypeFail) h = Some w}" for op mop
    by (auto simp: m(2) [symmetric] writer_def split: option.splits)
  have "\<exists>cases. foldM (\<lambda>(op, mop) acc. if IsRead mop
      then do { v \<leftarrow> read_values mop; Some (acc @ [G1Conflict op mop w (MV_int e).
        e \<leftarrow> v, w \<leftarrow> (case map_of (get_or [] m (GetKey mop)) (MV_int e) of None \<Rightarrow> [] | Some w \<Rightarrow> [w])]) }
      else Some acc) (ok_mops h) [] = Some cases \<and>
    set cases = {c. \<exists>op mop. ok_read h op mop \<and> c \<in> set (?ys op mop)}"
    by (rule foldM_read_cases)
      (auto simp: ok_read_def typed_read [OF typed_historyD(3) [OF assms]])
  then show ?thesis unfolding ys
    by (auto simp: g1aCases_def m(1) iterate_ok assms)
qed

text \<open>C5. On a typed history \<open>g1aCases\<close> reports exactly the aborted reads: every element that a
  successful transaction read and that a failed transaction had appended to the key, with the
  last such transaction as its writer.\<close>

theorem g1aCases_exact:
  assumes "typed_history h"
  shows "\<exists>cases. g1aCases h = Some cases \<and> set cases =
    {G1Conflict op mop w (MV_int e) |op mop w e. ok_read h op mop \<and> e \<in> set (reads_of mop) \<and>
       last_event (\<lambda>w. e \<in> set (appends_to (GetKey mop) (mops_of w)) \<and> op_Type w = OpTypeFail) h = Some w}"
  using assms by (rule g1aCases_spec)

theorem g1aCases_exact_witness:
  "let w = event 0 1 OpTypeFail [Append ''x'' 1]; r = event 1 2 OpTypeOk [Read ''x'' (Some [1])]
   in typed_history [w, r] \<and>
     (\<exists>cases. g1aCases [w, r] = Some cases \<and> G1Conflict r (Read ''x'' (Some [1])) w (MV_int 1) \<in> set cases)"
proof -
  let ?w = "event 0 1 OpTypeFail [Append ''x'' 1]" let ?r = "event 1 2 OpTypeOk [Read ''x'' (Some [1])]"
  have t: "typed_history [?w, ?r]" by code_simp
  have l: "last_event (\<lambda>w. 1 \<in> set (appends_to ''x'' (mops_of w)) \<and> op_Type w = OpTypeFail) [?w, ?r] = Some ?w" by code_simp
  have r: "ok_read [?w, ?r] ?r (Read ''x'' (Some [1]))" "1 \<in> set (reads_of (Read ''x'' (Some [1])))"
    "GetKey (Read ''x'' (Some [1])) = ''x''" by code_simp+
  from g1aCases_exact [OF t] obtain cases where "g1aCases [?w, ?r] = Some cases" "set cases =
    {G1Conflict op mop w (MV_int e) |op mop w e. ok_read [?w, ?r] op mop \<and> e \<in> set (reads_of mop) \<and>
       last_event (\<lambda>w. e \<in> set (appends_to (GetKey mop) (mops_of w)) \<and> op_Type w = OpTypeFail) [?w, ?r] = Some w}" by blast
  with r l t show ?thesis unfolding Let_def by fastforce
qed

lemma g1bCases_spec:
  assumes "typed_history h"
  shows "\<exists>cases. g1bCases h = Some cases \<and> set cases =
    {G1Conflict op mop w (MV_int (last (reads_of mop))) |op mop w. ok_read h op mop \<and> reads_of mop \<noteq> [] \<and> w \<noteq> op \<and>
       last_event (\<lambda>w. last (reads_of mop) \<in> set (butlast (appends_to (GetKey mop) (mops_of w)))) h = Some w}"
proof -
  obtain m where m: "IntermediateWrites h = Some m" "\<And>k v. writer m k v =
    last_event (\<lambda>op. v \<in> set (butlast (appends_to k (mops_of op)))) h"
    using IntermediateWrites_writer [OF assms] by blast
  let ?f = "\<lambda>op mop acc. do {
         v \<leftarrow> read_values mop;
         Some (if length v = 0 then acc
               else (case map_of (get_or [] m (GetKey mop)) (MV_int (last v)) of
                       Some w \<Rightarrow> if w \<noteq> op then acc @ [G1Conflict op mop w (MV_int (last v))] else acc
                     | None \<Rightarrow> acc)) }"
  let ?F = "\<lambda>op mop. {G1Conflict op mop w (MV_int (last (reads_of mop))) |w. reads_of mop \<noteq> [] \<and> w \<noteq> op \<and>
       last_event (\<lambda>w. last (reads_of mop) \<in> set (butlast (appends_to (GetKey mop) (mops_of w)))) h = Some w}"
  have "\<exists>cases. foldM (\<lambda>(op, mop) acc. if IsRead mop then ?f op mop acc else Some acc) (ok_mops h) [] = Some cases \<and>
    set cases = {c. \<exists>op mop. ok_read h op mop \<and> c \<in> ?F op mop}"
  proof (rule foldM_read_cases)
    fix op mop and acc :: "Anomaly list" assume "ok_read h op mop"
    then have "read_values mop = Some (reads_of mop)"
      using typed_read typed_historyD(3) [OF assms] by (auto simp: ok_read_def)
    then show "\<exists>ys. ?f op mop acc = Some (acc @ ys) \<and> set ys = ?F op mop"
      by (auto simp: m(2) [symmetric] writer_def split: option.splits)
  qed
  then show ?thesis by (auto simp: g1bCases_def m(1) iterate_ok assms)
qed

text \<open>C6. On a typed history \<open>g1bCases\<close> reports exactly the intermediate reads: a successful read whose
  last element is an append that its transaction followed by another append to the same key,
  unless the last event with that intermediate append is the reader itself.\<close>

theorem g1bCases_exact:
  assumes "typed_history h"
  shows "\<exists>cases. g1bCases h = Some cases \<and> set cases =
    {G1Conflict op mop w (MV_int (last (reads_of mop))) |op mop w. ok_read h op mop \<and> reads_of mop \<noteq> [] \<and> w \<noteq> op \<and>
       last_event (\<lambda>w. last (reads_of mop) \<in> set (butlast (appends_to (GetKey mop) (mops_of w)))) h = Some w}"
  using assms by (rule g1bCases_spec)

theorem g1bCases_exact_witness:
  "let w = event 0 1 OpTypeOk [Append ''x'' 1, Append ''x'' 2]; r = event 1 2 OpTypeOk [Read ''x'' (Some [1])]
   in typed_history [w, r] \<and>
     (\<exists>cases. g1bCases [w, r] = Some cases \<and> G1Conflict r (Read ''x'' (Some [1])) w (MV_int 1) \<in> set cases)"
proof -
  let ?w = "event 0 1 OpTypeOk [Append ''x'' 1, Append ''x'' 2]" let ?r = "event 1 2 OpTypeOk [Read ''x'' (Some [1])]"
  have t: "typed_history [?w, ?r]" by code_simp
  have l: "last_event (\<lambda>w. 1 \<in> set (butlast (appends_to ''x'' (mops_of w)))) [?w, ?r] = Some ?w" by code_simp
  have r: "ok_read [?w, ?r] ?r (Read ''x'' (Some [1]))" "reads_of (Read ''x'' (Some [1])) = [1]"
    "GetKey (Read ''x'' (Some [1])) = ''x''" "?w \<noteq> ?r" by code_simp+
  from g1bCases_exact [OF t] obtain cases where "g1bCases [?w, ?r] = Some cases" "set cases =
    {G1Conflict op mop w (MV_int (last (reads_of mop))) |op mop w. ok_read [?w, ?r] op mop \<and> reads_of mop \<noteq> [] \<and> w \<noteq> op \<and>
       last_event (\<lambda>w. last (reads_of mop) \<in> set (butlast (appends_to (GetKey mop) (mops_of w)))) [?w, ?r] = Some w}" by blast
  with r l t show ?thesis unfolding Let_def by fastforce
qed

section \<open>Duplicated elements\<close>

lemma count_reads_spec:
  "map_of (fst (count_reads vs)) (MV_int v) = (if v \<in> set vs then Some (int (count_list vs v)) else None)"
  "map_of (snd (count_reads vs)) x =
     (case x of MV_int v \<Rightarrow> if 2 \<le> count_list vs v then Some (int (count_list vs v)) else None | _ \<Rightarrow> None)"
proof (induction vs arbitrary: v x rule: rev_induct)
  case Nil
  { case 1 then show ?case by (simp add: count_reads_def)
  next case 2 then show ?case by (simp add: count_reads_def split: MopValueType.splits) }
next
  case (snoc w vs)
  obtain rc ds where rc: "count_reads vs = (rc, ds)" by fastforce
  with snoc.IH have IH: "map_of rc (MV_int v) = (if v \<in> set vs then Some (int (count_list vs v)) else None)"
    "map_of ds x = (case x of MV_int v \<Rightarrow> if 2 \<le> count_list vs v then Some (int (count_list vs v)) else None | _ \<Rightarrow> None)"
    for v x by simp_all
  have get: "get_or 0 rc (MV_int w) = int (count_list vs w)"
    using IH(1) [of w] by (auto simp: get_or_def count_list_0_iff split: option.splits if_splits)
  have snoc_def: "count_reads (vs @ [w]) = (let rc' = AList.update (MV_int w) (int (count_list vs w) + 1) rc
      in (rc', if int (count_list vs w) + 1 > 1 then AList.update (MV_int w) (int (count_list vs w) + 1) ds else ds))"
    using rc by (simp add: count_reads_def get Let_def)
  { case 1
    show ?case using IH(1) [of v] by (simp add: snoc_def Let_def count_list_0_iff)
  next
    case 2
    show ?case using IH(2) [of x] by (auto simp: snoc_def Let_def split: MopValueType.splits) }
qed

lemma count_list_distinct: "distinct xs \<longleftrightarrow> (\<forall>x. count_list xs x \<le> 1)"
  by (induction xs) (auto simp: count_list_0_iff le_Suc_eq split: if_splits)

lemma count_reads_distinct: "snd (count_reads vs) = [] \<longleftrightarrow> distinct vs"
proof -
  have "snd (count_reads vs) = [] \<longleftrightarrow> (\<forall>x. map_of (snd (count_reads vs)) x = None)"
    by (metis keys_Nil map_of_None_keys length_0_keys length_0_conv ex_in_conv)
  also have "\<dots> \<longleftrightarrow> (\<forall>v. count_list vs v \<le> 1)"
    by (auto simp: count_reads_spec not_le numeral_2_eq_2 less_Suc_eq_le split: MopValueType.splits if_splits)
  finally show ?thesis by (simp add: count_list_distinct)
qed

lemma duplicates_spec:
  assumes "typed_history h"
  shows "\<exists>cases. duplicates h = Some cases \<and>
    (\<forall>op mop. (\<exists>dups. duplicateConflict op mop dups \<in> set cases) \<longleftrightarrow>
       op \<in> set h \<and> mop \<in> set (mops_of op) \<and> IsRead mop \<and> \<not> distinct (reads_of mop)) \<and>
    (\<forall>c \<in> set cases. \<exists>op mop dups. c = duplicateConflict op mop dups \<and>
       (\<forall>v. map_of dups (MV_int v) =
          (if 2 \<le> count_list (reads_of mop) v then Some (int (count_list (reads_of mop) v)) else None)))"
proof -
  let ?xs = "all_mops h"
  let ?d = "\<lambda>mop. snd (count_reads (reads_of mop))"
  let ?F = "\<lambda>(op, mop). if IsRead mop \<and> ?d mop \<noteq> [] then {duplicateConflict op mop (?d mop)} else {}"
  have "\<exists>cases. duplicates h = Some cases \<and> set cases = set [] \<union> (\<Union>x \<in> set ?xs. ?F x)"
    unfolding duplicates_def iterate_typed [OF assms] bind.bind_lunit
  proof (rule foldM_collect)
    fix x and acc :: "Anomaly list" assume "x \<in> set ?xs"
    then obtain op mop where x: "x = (op, mop)" "op \<in> set h" "mop \<in> set (mops_of op)"
      by (metis in_all_mops surj_pair)
    then have "IsRead mop \<Longrightarrow> read_values mop = Some (reads_of mop)"
      using typed_read typed_historyD(3) [OF assms] by blast
    with x(1) show "\<exists>ys. (case x of (op, mop) \<Rightarrow> \<lambda>duplicateCases. if IsRead mop then do {
         reads \<leftarrow> read_values mop;
         let dups = snd (count_reads reads);
         Some (if length dups > 0 then duplicateCases @ [duplicateConflict op mop dups] else duplicateCases) }
       else Some duplicateCases) acc = Some (acc @ ys) \<and> set ys = ?F x"
      by (auto simp: Let_def)
  qed
  moreover have "c \<in> (\<Union>x \<in> set ?xs. ?F x) \<longleftrightarrow> (\<exists>op mop. op \<in> set h \<and> mop \<in> set (mops_of op) \<and> IsRead mop \<and>
      \<not> distinct (reads_of mop) \<and> c = duplicateConflict op mop (?d mop))" for c
    by (auto simp: in_all_mops count_reads_distinct split: if_splits)
      (rule bexI [of _ "(op, mop)" for op mop], auto simp: in_all_mops)
  ultimately obtain cases where c: "duplicates h = Some cases" "\<And>c. c \<in> set cases \<longleftrightarrow> (\<exists>op mop. op \<in> set h \<and>
      mop \<in> set (mops_of op) \<and> IsRead mop \<and> \<not> distinct (reads_of mop) \<and> c = duplicateConflict op mop (?d mop))" by auto
  show ?thesis by (rule exI [of _ cases]) (auto simp: c count_reads_spec)
qed

text \<open>C38. On a typed history \<open>duplicates\<close> reports exactly the reads that list an element twice, with the
  number of times each repeated element occurs.\<close>

theorem duplicates_exact:
  assumes "typed_history h"
  shows "\<exists>cases. duplicates h = Some cases \<and>
    (\<forall>op mop. (\<exists>dups. duplicateConflict op mop dups \<in> set cases) \<longleftrightarrow>
       op \<in> set h \<and> mop \<in> set (mops_of op) \<and> IsRead mop \<and> \<not> distinct (reads_of mop)) \<and>
    (\<forall>c \<in> set cases. \<exists>op mop dups. c = duplicateConflict op mop dups \<and>
       (\<forall>v. map_of dups (MV_int v) =
          (if 2 \<le> count_list (reads_of mop) v then Some (int (count_list (reads_of mop) v)) else None)))"
  using assms by (rule duplicates_spec)

theorem duplicates_exact_witness:
  "let r = event 1 2 OpTypeOk [Read ''x'' (Some [1, 2, 1])]
   in \<exists>cases dups. duplicates [r] = Some cases \<and> duplicateConflict r (Read ''x'' (Some [1, 2, 1])) dups \<in> set cases"
proof -
  let ?r = "event 1 2 OpTypeOk [Read ''x'' (Some [1, 2, 1])]" let ?m = "Read ''x'' (Some [1, 2, 1])"
  have t: "typed_history [?r]" by code_simp
  have "mops_of ?r = [?m]" "IsRead ?m" "\<not> distinct (reads_of ?m)" by code_simp+
  with duplicates_exact [OF t] show ?thesis unfolding Let_def by force
qed

section \<open>Repeated appends\<close>

definition invoked_appends :: "History \<Rightarrow> (string \<times> int) list" where
  "invoked_appends h = concat (map (\<lambda>op. appends (mops_of op)) (filter (\<lambda>op. op_Type op = OpTypeInvoke) h))"

definition append_of :: "Op \<times> Mop \<Rightarrow> (string \<times> int) list" where
  "append_of = (\<lambda>(op, mop). if op_Type op = OpTypeInvoke \<and> IsAppend mop then [(GetKey mop, appended mop)] else [])"

lemma concat_append_of: "concat (map append_of (all_mops h)) = invoked_appends h"
proof -
  have "concat (map append_of (map (Pair op) mops)) = (if op_Type op = OpTypeInvoke then appends mops else [])" for op mops
    unfolding append_of_def appends_def by (induction mops) auto
  then show ?thesis
    unfolding all_mops_def invoked_appends_def op_mops_def by (induction h) (auto simp del: map_map)
qed

lemma unique_loop:
  assumes "\<forall>om \<in> set oms. typed_mop (snd om)"
    and "\<And>k v. MV_int v \<in> keys (get_or [] d k) \<longleftrightarrow> (k, v) \<in> set seen" "distinct seen"
  shows "(\<exists>d'. foldM (\<lambda>(op, mop) tempDict.
         if op_Type op = OpTypeInvoke \<and> IsAppend mop
         then do {
           v \<leftarrow> hash_key (GetValue mop);
           let s = get_or [] tempDict (GetKey mop);
           if v \<in> keys s then None
           else Some (AList.update (GetKey mop) (AList.update v () s) tempDict) }
         else Some tempDict) oms d = Some d') \<longleftrightarrow> distinct (seen @ concat (map append_of oms))"
  using assms
proof (induction oms arbitrary: d seen)
  case (Cons om oms)
  obtain op mop where om: "om = (op, mop)" by fastforce
  show ?case
  proof (cases "op_Type op = OpTypeInvoke \<and> IsAppend mop")
    case True
    with Cons.prems(1) om have v: "hash_key (GetValue mop) = Some (MV_int (appended mop))" by (simp add: typed_append)
    have ap: "append_of om = [(GetKey mop, appended mop)]" using True om by (simp add: append_of_def)
    show ?thesis
    proof (cases "(GetKey mop, appended mop) \<in> set seen")
      case dup: True
      with Cons.prems(2) om True v ap show ?thesis by (simp add: Let_def)
    next
      case False
      let ?d = "AList.update (GetKey mop) (AList.update (MV_int (appended mop)) () (get_or [] d (GetKey mop))) d"
      have "MV_int v \<in> keys (get_or [] ?d k) \<longleftrightarrow> (k, v) \<in> set (seen @ [(GetKey mop, appended mop)])" for k v
        using Cons.prems(2) by auto
      from Cons.IH [OF _ this] Cons.prems om True v ap False show ?thesis by (simp add: Let_def)
    qed
  next
    case False
    then have "append_of om = []" using om by (auto simp: append_of_def)
    with Cons False om show ?thesis by auto
  qed
qed simp

lemma verifyUniqueAppends_spec:
  assumes "typed_history h"
  shows "verifyUniqueAppends h = (if distinct (invoked_appends h) then Some () else None)"
proof -
  have t: "\<forall>om \<in> set (all_mops h). typed_mop (snd om)"
    using typed_historyD(3) [OF assms] by (force simp: in_all_mops)
  have "(\<exists>d'. foldM (\<lambda>(op, mop) tempDict.
         if op_Type op = OpTypeInvoke \<and> IsAppend mop
         then do {
           v \<leftarrow> hash_key (GetValue mop);
           let s = get_or [] tempDict (GetKey mop);
           if v \<in> keys s then None
           else Some (AList.update (GetKey mop) (AList.update v () s) tempDict) }
         else Some tempDict) (all_mops h) [] = Some d') \<longleftrightarrow> distinct (invoked_appends h)"
    using unique_loop [OF t, of "[]" "[]"] by (simp add: concat_append_of)
  then show ?thesis
    by (auto simp: verifyUniqueAppends_def iterate_typed [OF assms] split: Option.bind_splits)
qed

text \<open>C37. \<open>verifyUniqueAppends\<close> accepts a typed history exactly when no value is appended to a key twice
  by the invocations; otherwise it panics.\<close>

theorem verifyUniqueAppends_iff:
  assumes "typed_history h"
  shows "verifyUniqueAppends h = (if distinct (invoked_appends h) then Some () else None)"
  using assms by (rule verifyUniqueAppends_spec)

theorem verifyUniqueAppends_iff_witness:
  "let a = event 0 1 OpTypeInvoke [Append ''x'' 1]; b = event 1 2 OpTypeInvoke [Append ''y'' 1]
   in verifyUniqueAppends [a, b] = Some () \<and> verifyUniqueAppends [a, b, a] = None"
proof -
  let ?a = "event 0 1 OpTypeInvoke [Append ''x'' 1]" let ?b = "event 1 2 OpTypeInvoke [Append ''y'' 1]"
  have "typed_history [?a, ?b]" "typed_history [?a, ?b, ?a]" by code_simp+
  moreover have "distinct (invoked_appends [?a, ?b])" "\<not> distinct (invoked_appends [?a, ?b, ?a])" by code_simp+
  ultimately show ?thesis using verifyUniqueAppends_iff unfolding Let_def by simp
qed

end
