(* ===== verification/Wr_Txn.thy ===== *)
theory Wr_Txn
  imports Write_Maps Rendering "HOL-Library.Word"
begin

text \<open>
  The workload generator of \<open>pkg/elle/txn/wr_txn.go\<close>: transactions of reads and appends over a pool of
  keys, in which a key is replaced by a new one when it was written often enough. The random source
  is a parameter. Unsigned integers are 64-bit words.
\<close>

section \<open>Options\<close>

definition Uniform :: int where "Uniform = 0"
definition Exponential :: int where "Exponential = 1"

record WrTxnOpts =
  wo_KeyDist :: int
  wo_KeyDistBase :: "64 word"
  wo_KeyCount :: "64 word"
  wo_MinTxnLength :: "64 word"
  wo_MaxTxnLength :: "64 word"
  wo_MaxWritesPerKey :: "64 word"

definition DefaultWrTxnOpts :: WrTxnOpts where
  "DefaultWrTxnOpts = \<lparr>wo_KeyDist = Uniform, wo_KeyDistBase = 0, wo_KeyCount = 5, wo_MinTxnLength = 1,
     wo_MaxTxnLength = 4, wo_MaxWritesPerKey = 16\<rparr>"

function powInt_loop :: "64 word \<Rightarrow> 64 word \<Rightarrow> 64 word \<Rightarrow> 64 word" where
  "powInt_loop base e result =
     (let result = (if e \<noteq> 0 then result * base else result); e' = e div 2
      in if e' = 0 then result else powInt_loop (base * base) e' result)"
  by pat_completeness auto

termination
proof (relation "measure (\<lambda>(_, e, _). unat e)")
  fix base e result r e' :: "64 word"
  assume e: "e' = e div 2" "e' \<noteq> 0"
  have "unat e' = unat e div 2" using e(1) by (simp add: unat_div)
  moreover have "unat e' \<noteq> 0" using e(2) by (simp add: unat_eq_0)
  ultimately show "((base * base, e', r), base, e, result) \<in> measure (\<lambda>(_, e, _). unat e)" by simp
qed simp

declare powInt_loop.simps [simp del]

definition powInt :: "64 word \<Rightarrow> 64 word \<Rightarrow> 64 word" where
  "powInt base e = powInt_loop base e 1"

text \<open>Division by zero panics.\<close>

definition keyDistScale :: "WrTxnOpts \<Rightarrow> 64 word option" where
  "keyDistScale opts =
     (if wo_KeyDistBase opts - 1 = 0 then None
      else Some (((powInt (wo_KeyDistBase opts) (wo_KeyCount opts) - 1) * wo_KeyDistBase opts) div (wo_KeyDistBase opts - 1)))"

section \<open>The generator\<close>

text \<open>\<open>rand.Int63nRange\<close> and \<open>rand.Intn\<close> of the random source with state \<open>'g\<close>; \<^const>\<open>None\<close> is their panic
  on an empty range.\<close>

record 'g Rand =
  Int63nRange :: "'g \<Rightarrow> int \<Rightarrow> int \<Rightarrow> (int \<times> 'g) option"
  Intn :: "'g \<Rightarrow> int \<Rightarrow> (int \<times> 'g) option"

record WrTxnState =
  ws_keyRecord :: "(string, int) gomap"
  ws_maxKey :: "64 word"

record MopIterator =
  mi_opts :: WrTxnOpts
  mi_activeKeys :: WrTxnState

definition randomGet :: "range_order \<Rightarrow> 'g Rand \<Rightarrow> 'g \<Rightarrow> WrTxnState \<Rightarrow> (string \<times> int \<times> 'g) option" where
  "randomGet \<rho> R g s = do {
     (i, g) \<leftarrow> Intn R g (int (length (ws_keyRecord s)));
     let order = go_range \<rho> (map fst (ws_keyRecord s));
     if 0 \<le> i \<and> i < int (length order)
     then Some (order ! nat i, get_or 0 (ws_keyRecord s) (order ! nat i), g)
     else None }"

text \<open>The key that is written or read: the one drawn, or a new key in its place.\<close>

definition pick_key :: "range_order \<Rightarrow> 'g Rand \<Rightarrow> 'g \<Rightarrow> WrTxnOpts \<Rightarrow> WrTxnState \<Rightarrow> (string \<times> int \<times> WrTxnState \<times> 'g) option" where
  "pick_key \<rho> R g opts s =
     (if wo_KeyDist opts = Exponential then None
      else do {
        (k, writeVersion, g) \<leftarrow> (if wo_KeyDist opts = Uniform then randomGet \<rho> R g s else Some ([], 0, g));
        if word_of_int writeVersion > wo_MaxWritesPerKey opts
        then (let k' = utoa (unat (ws_maxKey s))
              in Some (k', 1, \<lparr>ws_keyRecord = AList.update k' 1 (AList.delete k (ws_keyRecord s)), ws_maxKey = ws_maxKey s + 1\<rparr>, g))
        else Some (k, writeVersion, s, g) })"

definition next_mop :: "range_order \<Rightarrow> 'g Rand \<Rightarrow> 'g \<Rightarrow> WrTxnOpts \<Rightarrow> WrTxnState \<Rightarrow> (Mop \<times> WrTxnState \<times> 'g) option" where
  "next_mop \<rho> R g opts s = do {
     (k, writeVersion, s, g) \<leftarrow> pick_key \<rho> R g opts s;
     (c, g) \<leftarrow> Intn R g 2;
     Some (if c = 0
           then (Append k writeVersion,
                 s\<lparr>ws_keyRecord := AList.update k (get_or 0 (ws_keyRecord s) k + 1) (ws_keyRecord s)\<rparr>, g)
           else (Read k None, s, g)) }"

text \<open>The loop runs while the transaction is shorter than the length drawn, so \<open>n\<close> times.\<close>

fun next_mops :: "range_order \<Rightarrow> 'g Rand \<Rightarrow> nat \<Rightarrow> 'g \<Rightarrow> WrTxnOpts \<Rightarrow> WrTxnState \<Rightarrow> (Mop list \<times> WrTxnState \<times> 'g) option" where
  "next_mops \<rho> R 0 g opts s = Some ([], s, g)"
| "next_mops \<rho> R (Suc n) g opts s = do {
     (mop, s, g) \<leftarrow> next_mop (sub \<rho> n) R g opts s;
     (mops, s, g) \<leftarrow> next_mops \<rho> R n g opts s;
     Some (mop # mops, s, g) }"

definition MopIterator_Next :: "range_order \<Rightarrow> 'g Rand \<Rightarrow> 'g \<Rightarrow> MopIterator \<Rightarrow> (Mop list \<times> MopIterator \<times> 'g) option" where
  "MopIterator_Next \<rho> R g it = do {
     (x, g) \<leftarrow> Int63nRange R g (sint (wo_MinTxnLength (mi_opts it))) (sint (wo_MaxTxnLength (mi_opts it)));
     let len = (word_of_int (x + 1) :: 64 word);
     (mops, s, g) \<leftarrow> next_mops \<rho> R (unat len) g (mi_opts it) (mi_activeKeys it);
     Some (mops, it\<lparr>mi_activeKeys := s\<rparr>, g) }"

definition WrTxn :: "WrTxnOpts \<Rightarrow> MopIterator" where
  "WrTxn opts = \<lparr>mi_opts = opts, mi_activeKeys =
     \<lparr>ws_keyRecord = fold (\<lambda>i. AList.update (Itoa (int i)) 1) [0..<unat (wo_KeyCount opts)] [],
      ws_maxKey = wo_KeyCount opts\<rparr>\<rparr>"

definition WrTxnWithDefaultOpts :: MopIterator where
  "WrTxnWithDefaultOpts = WrTxn DefaultWrTxnOpts"

section \<open>Powers\<close>

text \<open>The number of binary digits.\<close>

fun bits :: "nat \<Rightarrow> nat" where
  "bits n = (if n = 0 then 0 else Suc (bits (n div 2)))"

declare bits.simps [simp del]

lemma powInt_loop_spec: "powInt_loop b e r = r * b ^ (2 ^ bits (unat e) - 1)"
proof (induction b e r rule: powInt_loop.induct)
  case (1 b e r)
  have d: "unat (e div 2) = unat e div 2" by (simp add: unat_div)
  consider "e = 0" | "e \<noteq> 0" "e div 2 = 0" | "e \<noteq> 0" "e div 2 \<noteq> 0" by blast
  then show ?case
  proof cases
    case 1
    then show ?thesis by (subst powInt_loop.simps) (simp add: bits.simps)
  next
    case 2
    then have "unat e \<noteq> 0" "unat e div 2 = 0" using d by (auto simp: unat_eq_0)
    with 2 show ?thesis by (subst powInt_loop.simps) (simp add: bits.simps [of "unat e"] bits.simps [of 0])
  next
    case 3
    let ?m = "bits (unat (e div 2))"
    have "bits (unat e) = Suc ?m" using 3(1) d by (subst bits.simps) (simp add: unat_eq_0)
    moreover have "1 + 2 * (x - 1) = 2 * x - 1" if "1 \<le> x" for x :: nat using that by linarith
    then have "1 + 2 * (2 ^ ?m - 1) = (2 :: nat) ^ Suc ?m - 1" by simp
    moreover have "powInt_loop b e r = (r * b) * (b * b) ^ (2 ^ ?m - 1)"
      using 1 [OF refl refl 3(2)] 3 by (subst powInt_loop.simps) (simp add: Let_def)
    moreover have "b * (b * b) ^ n = b ^ (1 + 2 * n)" for n by (simp add: power_mult power2_eq_square flip: power_mult_distrib)
    ultimately show ?thesis by (metis mult.assoc)
  qed
qed

text \<open>\<open>powInt\<close> does not compute powers: it multiplies whenever the rest of the exponent is not zero,
  instead of when it is odd, so its result is the power with all binary digits of the exponent set,
  in 64-bit arithmetic. It is right exactly for exponents of the form \<open>2 ^ n - 1\<close>.\<close>

theorem powInt_sets_all_bits: "powInt b e = b ^ (2 ^ bits (unat e) - 1)"
  by (simp add: powInt_def powInt_loop_spec)

section \<open>Random sources\<close>

text \<open>What is documented of the two functions: values in a half-open range.\<close>

definition rand_laws :: "'g Rand \<Rightarrow> bool" where
  "rand_laws R \<longleftrightarrow>
     (\<forall>g lo hi. lo < hi \<longrightarrow> (\<exists>x g'. Int63nRange R g lo hi = Some (x, g') \<and> lo \<le> x \<and> x < hi)) \<and>
     (\<forall>g n. 0 < n \<longrightarrow> (\<exists>x g'. Intn R g n = Some (x, g') \<and> 0 \<le> x \<and> x < n))"

lemma rand_Int63nRange: "\<lbrakk>rand_laws R; lo < hi\<rbrakk> \<Longrightarrow> \<exists>x g'. Int63nRange R g lo hi = Some (x, g') \<and> lo \<le> x \<and> x < hi"
  by (simp add: rand_laws_def)

lemma rand_Intn: "\<lbrakk>rand_laws R; 0 < n\<rbrakk> \<Longrightarrow> \<exists>x g'. Intn R g n = Some (x, g') \<and> 0 \<le> x \<and> x < n"
  by (simp add: rand_laws_def)

section \<open>Appends are unique\<close>

text \<open>The largest value that is appended to a key.\<close>

abbreviation cap :: "WrTxnOpts \<Rightarrow> int" where
  "cap opts \<equiv> max 1 (uint (wo_MaxWritesPerKey opts))"

text \<open>The pool holds the next value of every active key; keys are numerals below \<open>maxKey\<close>; what was
  appended so far to an active key is smaller than its next value.\<close>

definition pool_inv :: "WrTxnOpts \<Rightarrow> WrTxnState \<Rightarrow> (string \<times> int) list \<Rightarrow> bool" where
  "pool_inv opts s seen \<longleftrightarrow>
     wf_map (ws_keyRecord s) \<and> keys (ws_keyRecord s) \<noteq> {} \<and>
     (\<forall>k v. k \<in> keys (ws_keyRecord s) \<or> (k, v) \<in> set seen \<longrightarrow> (\<exists>n < unat (ws_maxKey s). k = utoa n)) \<and>
     (\<forall>k w. map_of (ws_keyRecord s) k = Some w \<longrightarrow> 1 \<le> w \<and> w \<le> cap opts + 1) \<and>
     (\<forall>k v. (k, v) \<in> set seen \<longrightarrow> 1 \<le> v \<and> v \<le> cap opts) \<and>
     (\<forall>k v w. (k, v) \<in> set seen \<longrightarrow> map_of (ws_keyRecord s) k = Some w \<longrightarrow> v < w) \<and>
     distinct seen"

lemma pool_invD:
  assumes "pool_inv opts s seen"
  shows "wf_map (ws_keyRecord s)" "keys (ws_keyRecord s) \<noteq> {}"
    "k \<in> keys (ws_keyRecord s) \<or> (k, v) \<in> set seen \<Longrightarrow> \<exists>n < unat (ws_maxKey s). k = utoa n"
    "map_of (ws_keyRecord s) k = Some w \<Longrightarrow> 1 \<le> w" "map_of (ws_keyRecord s) k = Some w \<Longrightarrow> w \<le> cap opts + 1"
    "(k, v) \<in> set seen \<Longrightarrow> 1 \<le> v \<and> v \<le> cap opts"
    "\<lbrakk>(k, v) \<in> set seen; map_of (ws_keyRecord s) k = Some w\<rbrakk> \<Longrightarrow> v < w" "distinct seen"
  using assms unfolding pool_inv_def by blast+

lemma pool_invI:
  assumes "wf_map (ws_keyRecord s)" "keys (ws_keyRecord s) \<noteq> {}"
    "\<And>k v. k \<in> keys (ws_keyRecord s) \<or> (k, v) \<in> set seen \<Longrightarrow> \<exists>n < unat (ws_maxKey s). k = utoa n"
    "\<And>k w. map_of (ws_keyRecord s) k = Some w \<Longrightarrow> 1 \<le> w \<and> w \<le> cap opts + 1"
    "\<And>k v. (k, v) \<in> set seen \<Longrightarrow> 1 \<le> v \<and> v \<le> cap opts"
    "\<And>k v w. \<lbrakk>(k, v) \<in> set seen; map_of (ws_keyRecord s) k = Some w\<rbrakk> \<Longrightarrow> v < w" "distinct seen"
  shows "pool_inv opts s seen"
  using assms unfolding pool_inv_def by blast

definition uniform_opts :: "WrTxnOpts \<Rightarrow> bool" where
  "uniform_opts opts \<longleftrightarrow> wo_KeyDist opts = Uniform \<and> uint (wo_MaxWritesPerKey opts) < 2 ^ 63"

lemma randomGet_total:
  assumes R: "rand_laws R" and "ws_keyRecord s \<noteq> []"
  shows "\<exists>k v g'. randomGet \<rho> R g s = Some (k, v, g') \<and> map_of (ws_keyRecord s) k = Some v"
proof -
  let ?order = "go_range \<rho> (map fst (ws_keyRecord s))"
  obtain i g' where i: "Intn R g (int (length (ws_keyRecord s))) = Some (i, g')" "0 \<le> i" "i < int (length (ws_keyRecord s))"
    using rand_Intn [OF R, of "int (length (ws_keyRecord s))" g] assms(2) by auto
  then have "?order ! nat i \<in> set ?order" by (intro nth_mem) auto
  then obtain v where v: "map_of (ws_keyRecord s) (?order ! nat i) = Some v" by (auto simp: in_keys_map_of)
  with i show ?thesis by (auto simp: randomGet_def get_or_def)
qed

lemma pick_key_spec:
  assumes R: "rand_laws R" and u: "uniform_opts opts" and inv: "pool_inv opts s seen" and mk: "unat (ws_maxKey s) + 1 < 2 ^ 64"
  shows "\<exists>k v s' g'. pick_key \<rho> R g opts s = Some (k, v, s', g') \<and> pool_inv opts s' seen \<and>
    map_of (ws_keyRecord s') k = Some v \<and> v \<le> cap opts \<and> unat (ws_maxKey s') \<le> unat (ws_maxKey s) + 1"
proof -
  obtain k v g' where r: "randomGet \<rho> R g s = Some (k, v, g')" "map_of (ws_keyRecord s) k = Some v"
    using randomGet_total [OF R, of s] pool_invD(2) [OF inv] by fastforce
  have uni: "wo_KeyDist opts = Uniform" "wo_KeyDist opts \<noteq> Exponential" "uint (wo_MaxWritesPerKey opts) < 2 ^ 63"
    using u by (auto simp: uniform_opts_def Uniform_def Exponential_def)
  have v: "1 \<le> v" "v \<le> cap opts + 1" using pool_invD(4,5) [OF inv r(2)] .
  show ?thesis
  proof (cases "word_of_int v > wo_MaxWritesPerKey opts")
    case False
    have "v < 2 ^ 64" using v(2) uni(3) by simp
    then have "uint (word_of_int v :: 64 word) = v" using v(1) by (simp add: uint_word_of_int_eq take_bit_int_eq_self)
    with False have "v \<le> uint (wo_MaxWritesPerKey opts)" by (simp add: word_less_def)
    with False r uni inv show ?thesis by (simp add: pick_key_def)
  next
    case True
    let ?k = "utoa (unat (ws_maxKey s))"
    let ?s = "\<lparr>ws_keyRecord = AList.update ?k 1 (AList.delete k (ws_keyRecord s)), ws_maxKey = ws_maxKey s + 1\<rparr>"
    have suc: "unat (ws_maxKey s + 1) = unat (ws_maxKey s) + 1" using mk by (simp add: unat_plus_if')
    note D = pool_invD [OF inv]
    have fresh: "(?k, x) \<notin> set seen" for x using D(3) [of ?k] by (metis order_less_irrefl utoa_inject)
    have "pool_inv opts ?s seen"
    proof (rule pool_invI)
      fix x y assume "x \<in> keys (ws_keyRecord ?s) \<or> (x, y) \<in> set seen"
      then consider "x = ?k" | "x \<in> keys (ws_keyRecord s) \<or> (x, y) \<in> set seen" by auto
      then show "\<exists>n < unat (ws_maxKey ?s). x = utoa n"
      proof cases
        case 2
        from D(3) [OF this] show ?thesis by (auto simp: suc intro: less_SucI)
      qed (auto simp: suc)
    next
      fix x y w assume "(x, y) \<in> set seen" "map_of (ws_keyRecord ?s) x = Some w"
      with fresh D(7) show "y < w" by (auto split: if_splits)
    qed (use D in \<open>auto split: if_splits\<close>)
    with True r uni suc show ?thesis by (simp add: pick_key_def Let_def)
  qed
qed

lemma Append_facts [simp]: "appends [Append k v] = [(k, v)]" "appends [Read k None] = []"
    "typed_mop (Append k v)" "typed_mop (Read k None)"
  by (simp_all add: appends_def Append_def Read_def mop_defs appended_def typed_mop_def)

lemma next_mop_spec:
  assumes R: "rand_laws R" and u: "uniform_opts opts" and inv: "pool_inv opts s seen" and mk: "unat (ws_maxKey s) + 1 < 2 ^ 64"
  shows "\<exists>mop s' g'. next_mop \<rho> R g opts s = Some (mop, s', g') \<and> pool_inv opts s' (seen @ appends [mop]) \<and>
    typed_mop mop \<and> unat (ws_maxKey s') \<le> unat (ws_maxKey s) + 1"
proof -
  obtain k v s' g' where p: "pick_key \<rho> R g opts s = Some (k, v, s', g')" "pool_inv opts s' seen"
    "map_of (ws_keyRecord s') k = Some v" "v \<le> cap opts" "unat (ws_maxKey s') \<le> unat (ws_maxKey s) + 1"
    using pick_key_spec [OF assms] by blast
  obtain c g'' where c: "Intn R g' 2 = Some (c, g'')" using rand_Intn [OF R, of 2 g'] by auto
  show ?thesis
  proof (cases "c = 0")
    case False
    with p c show ?thesis by (auto simp: next_mop_def)
  next
    case True
    let ?s = "s'\<lparr>ws_keyRecord := AList.update k (v + 1) (ws_keyRecord s')\<rparr>"
    have k: "k \<in> keys (ws_keyRecord s')" "get_or 0 (ws_keyRecord s') k = v" using p(3) by (auto simp: in_keys_map_of get_or_def)
    have v: "1 \<le> v" using pool_invD(4) [OF p(2,3)] .
    note D = pool_invD [OF p(2)]
    have new: "(k, v) \<notin> set seen" using D(7) p(3) by fastforce
    have "pool_inv opts ?s (seen @ [(k, v)])"
    proof (rule pool_invI)
      fix x y assume "x \<in> keys (ws_keyRecord ?s) \<or> (x, y) \<in> set (seen @ [(k, v)])"
      then have "x \<in> keys (ws_keyRecord s') \<or> (x, y) \<in> set seen" using k(1) by auto
      from D(3) [OF this] show "\<exists>n < unat (ws_maxKey ?s). x = utoa n" by simp
    next
      fix x y w assume "(x, y) \<in> set (seen @ [(k, v)])" "map_of (ws_keyRecord ?s) x = Some w"
      with D(7) p(3) show "y < w" by (fastforce split: if_splits)
    next
      fix x w assume "map_of (ws_keyRecord ?s) x = Some w"
      with D(4,5) v p(4) show "1 \<le> w \<and> w \<le> cap opts + 1" by (fastforce split: if_splits)
    next
      fix x y assume "(x, y) \<in> set (seen @ [(k, v)])"
      with D(6) v p(4) show "1 \<le> y \<and> y \<le> cap opts" by auto
    qed (use D(1,8) new in auto)
    with True p c k show ?thesis by (auto simp: next_mop_def)
  qed
qed

lemma next_mops_spec:
  assumes "rand_laws R" "uniform_opts opts" "pool_inv opts s seen" "unat (ws_maxKey s) + n < 2 ^ 64"
  shows "\<exists>mops s' g'. next_mops \<rho> R n g opts s = Some (mops, s', g') \<and> length mops = n \<and>
    pool_inv opts s' (seen @ appends mops) \<and> list_all typed_mop mops \<and> unat (ws_maxKey s') \<le> unat (ws_maxKey s) + n"
  using assms(3,4)
proof (induction n arbitrary: g s seen)
  case 0
  then show ?case by (auto simp: appends_def)
next
  case (Suc n)
  obtain mop s1 g1 where m: "next_mop (sub \<rho> n) R g opts s = Some (mop, s1, g1)" "pool_inv opts s1 (seen @ appends [mop])"
    "typed_mop mop" "unat (ws_maxKey s1) \<le> unat (ws_maxKey s) + 1"
    using next_mop_spec [OF assms(1,2) Suc.prems(1)] Suc.prems(2) by fastforce
  from Suc.IH [OF m(2), of g1] m(4) Suc.prems(2) obtain mops s' g' where
    "next_mops \<rho> R n g1 opts s1 = Some (mops, s', g')" "length mops = n" "pool_inv opts s' ((seen @ appends [mop]) @ appends mops)"
    "list_all typed_mop mops" "unat (ws_maxKey s') \<le> unat (ws_maxKey s1) + n" by auto
  moreover have "appends [mop] @ appends mops = appends (mop # mops)" by (simp add: appends_Cons appends_def)
  ultimately show ?case using m by (auto simp del: Append_facts)
qed

section \<open>Whole workloads\<close>

lemma Itoa_nat: "Itoa (int i) = utoa i"
  by (simp add: Itoa_def)

lemma initial_pool:
  "keys (fold (\<lambda>i. AList.update (Itoa (int i)) 1) is m) = utoa ` set is \<union> keys m"
  "map_of (fold (\<lambda>i. AList.update (Itoa (int i)) 1) is m) k = (if k \<in> utoa ` set is then Some 1 else map_of m k)"
  "wf_map m \<Longrightarrow> wf_map (fold (\<lambda>i. AList.update (Itoa (int i)) 1) is m)"
  by (induction "is" arbitrary: m) (auto simp: Itoa_nat)

lemma WrTxn_inv: "wo_KeyCount opts \<noteq> 0 \<Longrightarrow> pool_inv opts (mi_activeKeys (WrTxn opts)) []"
  by (rule pool_invI) (auto simp: WrTxn_def initial_pool unat_gt_0 split: if_splits)

text \<open>The transactions of \<open>n\<close> calls of \<open>Next\<close>.\<close>

fun generate_txns :: "range_order \<Rightarrow> 'g Rand \<Rightarrow> nat \<Rightarrow> 'g \<Rightarrow> MopIterator \<Rightarrow> (Mop list list \<times> MopIterator \<times> 'g) option" where
  "generate_txns \<rho> R 0 g it = Some ([], it, g)"
| "generate_txns \<rho> R (Suc n) g it = do {
     (mops, it, g) \<leftarrow> MopIterator_Next (sub \<rho> n) R g it;
     (txns, it, g) \<leftarrow> generate_txns \<rho> R n g it;
     Some (mops # txns, it, g) }"

definition length_opts :: "WrTxnOpts \<Rightarrow> bool" where
  "length_opts opts \<longleftrightarrow> 0 \<le> sint (wo_MinTxnLength opts) \<and> sint (wo_MinTxnLength opts) < sint (wo_MaxTxnLength opts)"

lemma Next_spec:
  assumes R: "rand_laws R" and u: "uniform_opts (mi_opts it)" and l: "length_opts (mi_opts it)"
    and inv: "pool_inv (mi_opts it) (mi_activeKeys it) seen"
    and mk: "unat (ws_maxKey (mi_activeKeys it)) + nat (sint (wo_MaxTxnLength (mi_opts it))) < 2 ^ 64"
  shows "\<exists>mops it' g'. MopIterator_Next \<rho> R g it = Some (mops, it', g') \<and> mi_opts it' = mi_opts it \<and>
    pool_inv (mi_opts it) (mi_activeKeys it') (seen @ appends mops) \<and> list_all typed_mop mops \<and>
    unat (ws_maxKey (mi_activeKeys it')) \<le> unat (ws_maxKey (mi_activeKeys it)) + nat (sint (wo_MaxTxnLength (mi_opts it))) \<and>
    sint (wo_MinTxnLength (mi_opts it)) + 1 \<le> int (length mops) \<and> int (length mops) \<le> sint (wo_MaxTxnLength (mi_opts it))"
proof -
  let ?lo = "sint (wo_MinTxnLength (mi_opts it))" and ?hi = "sint (wo_MaxTxnLength (mi_opts it))"
  obtain x g1 where x: "Int63nRange R g ?lo ?hi = Some (x, g1)" "?lo \<le> x" "x < ?hi"
    using rand_Int63nRange [OF R] l unfolding length_opts_def by blast
  have hi: "?hi < 2 ^ 63" using sint_lt [of "wo_MaxTxnLength (mi_opts it)"] by simp
  have "0 \<le> x" using x(2) l by (simp add: length_opts_def)
  have "uint (word_of_int (x + 1) :: 64 word) = (x + 1) mod 2 ^ 64" by (subst uint_word_of_int) simp
  also have "\<dots> = x + 1" by (rule mod_pos_pos_trivial) (use \<open>0 \<le> x\<close> x(3) hi in simp_all)
  finally have len: "unat (word_of_int (x + 1) :: 64 word) = nat (x + 1)" by (simp only: unat_eq_nat_uint)
  have "unat (ws_maxKey (mi_activeKeys it)) + nat (x + 1) < 2 ^ 64" using mk x(3) by linarith
  from next_mops_spec [OF R u inv this, of \<rho> g1] obtain mops s' g' where
    m: "next_mops \<rho> R (nat (x + 1)) g1 (mi_opts it) (mi_activeKeys it) = Some (mops, s', g')" "length mops = nat (x + 1)"
      "pool_inv (mi_opts it) s' (seen @ appends mops)" "list_all typed_mop mops"
      "unat (ws_maxKey s') \<le> unat (ws_maxKey (mi_activeKeys it)) + nat (x + 1)" by blast
  have "MopIterator_Next \<rho> R g it = Some (mops, it\<lparr>mi_activeKeys := s'\<rparr>, g')"
    using len by (simp add: MopIterator_Next_def x(1) m(1))
  with m(2-) x \<open>0 \<le> x\<close> show ?thesis by auto
qed

lemma generate_spec:
  assumes R: "rand_laws R" and "uniform_opts (mi_opts it)" "length_opts (mi_opts it)"
    "pool_inv (mi_opts it) (mi_activeKeys it) seen"
    "unat (ws_maxKey (mi_activeKeys it)) + n * nat (sint (wo_MaxTxnLength (mi_opts it))) < 2 ^ 64"
  shows "\<exists>txns it' g'. generate_txns \<rho> R n g it = Some (txns, it', g') \<and> length txns = n \<and>
    pool_inv (mi_opts it) (mi_activeKeys it') (seen @ concat (map appends txns)) \<and>
    (\<forall>mops \<in> set txns. list_all typed_mop mops \<and> sint (wo_MinTxnLength (mi_opts it)) + 1 \<le> int (length mops) \<and>
       int (length mops) \<le> sint (wo_MaxTxnLength (mi_opts it)))"
  using assms(2-)
proof (induction n arbitrary: g it seen)
  case (Suc n)
  have "unat (ws_maxKey (mi_activeKeys it)) + nat (sint (wo_MaxTxnLength (mi_opts it))) < 2 ^ 64" using Suc.prems(4) by simp
  from Next_spec [OF R Suc.prems(1-3) this, of "sub \<rho> n" g] obtain mops it1 g1 where
    m: "MopIterator_Next (sub \<rho> n) R g it = Some (mops, it1, g1)" "mi_opts it1 = mi_opts it"
      "pool_inv (mi_opts it) (mi_activeKeys it1) (seen @ appends mops)" "list_all typed_mop mops"
      "unat (ws_maxKey (mi_activeKeys it1)) \<le> unat (ws_maxKey (mi_activeKeys it)) + nat (sint (wo_MaxTxnLength (mi_opts it)))"
      "sint (wo_MinTxnLength (mi_opts it)) + 1 \<le> int (length mops)" "int (length mops) \<le> sint (wo_MaxTxnLength (mi_opts it))" by blast
  have "unat (ws_maxKey (mi_activeKeys it1)) + n * nat (sint (wo_MaxTxnLength (mi_opts it1))) < 2 ^ 64"
    using m(2,5) Suc.prems(4) by simp
  from Suc.IH [of it1 "seen @ appends mops" g1] this m Suc.prems(1,2) show ?case by auto
qed auto

text \<open>C28. The generator keeps its promises on sizes. Take options with the uniform distribution, at least one
  key, \<open>0 \<le> MinTxnLength < MaxTxnLength\<close> and \<open>MaxWritesPerKey < 2 ^ 63\<close>, a random source that returns values of the range it is
  asked for, and few enough calls for the numbers of keys to stay below \<open>2 ^ 64\<close>. Then generating \<open>n\<close> transactions does not panic, each has at least
  \<open>MinTxnLength + 1\<close> and at most \<open>MaxTxnLength\<close> micro-operations, and every value appended lies between 1 and
  \<open>MaxWritesPerKey\<close>, or is 1. So a transaction of the minimum length never occurs.\<close>

theorem generator_bounds:
  assumes "rand_laws R" "uniform_opts opts" "length_opts opts" "wo_KeyCount opts \<noteq> 0"
    and "unat (wo_KeyCount opts) + n * nat (sint (wo_MaxTxnLength opts)) < 2 ^ 64"
  shows "\<exists>txns it g'. generate_txns \<rho> R n g (WrTxn opts) = Some (txns, it, g') \<and> length txns = n \<and>
    (\<forall>mops \<in> set txns. sint (wo_MinTxnLength opts) + 1 \<le> int (length mops) \<and> int (length mops) \<le> sint (wo_MaxTxnLength opts) \<and>
       (\<forall>(k, v) \<in> set (appends mops). 1 \<le> v \<and> v \<le> cap opts))"
proof -
  have o: "mi_opts (WrTxn opts) = opts" "ws_maxKey (mi_activeKeys (WrTxn opts)) = wo_KeyCount opts" by (simp_all add: WrTxn_def)
  from generate_spec [OF assms(1), of "WrTxn opts" "[]" n \<rho> g] assms(2-) WrTxn_inv [OF assms(4)] o obtain txns it g' where
    t: "generate_txns \<rho> R n g (WrTxn opts) = Some (txns, it, g')" "length txns = n"
      "pool_inv opts (mi_activeKeys it) (concat (map appends txns))"
      "\<forall>mops \<in> set txns. list_all typed_mop mops \<and> sint (wo_MinTxnLength opts) + 1 \<le> int (length mops) \<and>
       int (length mops) \<le> sint (wo_MaxTxnLength opts)" by auto
  have "1 \<le> v \<and> v \<le> cap opts" if "mops \<in> set txns" "(k, v) \<in> set (appends mops)" for mops k v
    by (rule pool_invD(6) [OF t(3), of k v]) (use that in auto)
  with t show ?thesis by fastforce
qed

text \<open>A source that counts.\<close>

definition counter_rand :: "nat Rand" where
  "counter_rand = \<lparr>Int63nRange = (\<lambda>g lo hi. if lo < hi then Some (lo + int g mod (hi - lo), Suc g) else None),
     Intn = (\<lambda>g n. if 0 < n then Some (int g mod n, Suc g) else None)\<rparr>"

lemma counter_rand_laws: "rand_laws counter_rand"
proof -
  have "lo + int g mod (hi - lo) < hi" "0 \<le> int g mod (hi - lo)" if "lo < hi" for g and lo hi :: int
  proof -
    have "int g mod (hi - lo) < hi - lo" using that by (intro pos_mod_bound) simp
    then show "lo + int g mod (hi - lo) < hi" by linarith
  qed (use that in simp)
  then show ?thesis by (simp add: rand_laws_def counter_rand_def)
qed

lemma default_opts:
  "uniform_opts DefaultWrTxnOpts" "length_opts DefaultWrTxnOpts" "wo_KeyCount DefaultWrTxnOpts \<noteq> 0"
  "unat (wo_KeyCount DefaultWrTxnOpts) = 5" "nat (sint (wo_MaxTxnLength DefaultWrTxnOpts)) = 4"
  by code_simp+

theorem generator_bounds_witness:
  "\<exists>txns it g'. generate_txns fifo counter_rand 3 0 WrTxnWithDefaultOpts = Some (txns, it, g') \<and> length txns = 3 \<and>
    list_all (\<lambda>mops. 2 \<le> length mops \<and> length mops \<le> 4 \<and> list_all (\<lambda>(k, v). 1 \<le> v \<and> v \<le> 16) (appends mops)) txns"
proof -
  have c: "sint (wo_MinTxnLength DefaultWrTxnOpts) = 1" "sint (wo_MaxTxnLength DefaultWrTxnOpts) = 4" "cap DefaultWrTxnOpts = 16" by code_simp+
  have "unat (wo_KeyCount DefaultWrTxnOpts) + 3 * nat (sint (wo_MaxTxnLength DefaultWrTxnOpts)) < 2 ^ 64"
    unfolding default_opts(4,5) by simp
  from generator_bounds [OF counter_rand_laws default_opts(1-3) this, of fifo 0] show ?thesis
    unfolding c WrTxnWithDefaultOpts_def list_all_iff by (fastforce simp: case_prod_unfold)
qed

text \<open>C27. A history whose invocations are generated transactions passes the uniqueness check of the
  list-append checker, which panics when a value is appended to a key twice: the generator never
  repeats an append, through all replacements of keys. The options are as for the sizes: the uniform distribution, at least one key,
  \<open>0 \<le> MinTxnLength < MaxTxnLength\<close>, \<open>MaxWritesPerKey < 2 ^ 63\<close>, numbers of keys below \<open>2 ^ 64\<close>, and a random source that keeps its
  ranges. Every event of the history, completions included, has at least one micro-operation, each an append of
  an integer or a read of a list or nil; on an event without any the check panics.\<close>

theorem generated_history_verifies:
  assumes "rand_laws R" "uniform_opts opts" "length_opts opts" "wo_KeyCount opts \<noteq> 0"
    and "unat (wo_KeyCount opts) + n * nat (sint (wo_MaxTxnLength opts)) < 2 ^ 64"
    and "typed_history h"
    and "\<And>txns it g'. generate_txns \<rho> R n g (WrTxn opts) = Some (txns, it, g') \<Longrightarrow>
      map mops_of (filter (\<lambda>op. op_Type op = OpTypeInvoke) h) = txns"
  shows "verifyUniqueAppends h = Some ()"
proof -
  have o: "mi_opts (WrTxn opts) = opts" "ws_maxKey (mi_activeKeys (WrTxn opts)) = wo_KeyCount opts" by (simp_all add: WrTxn_def)
  from generate_spec [OF assms(1), of "WrTxn opts" "[]" n \<rho> g] assms(2-5) WrTxn_inv [OF assms(4)] o obtain txns it g' where
    t: "generate_txns \<rho> R n g (WrTxn opts) = Some (txns, it, g')" "pool_inv opts (mi_activeKeys it) (concat (map appends txns))" by auto
  have "invoked_appends h = concat (map appends txns)"
    unfolding invoked_appends_def assms(7) [OF t(1), symmetric] by (simp add: comp_def)
  with pool_invD(8) [OF t(2)] assms(6) show ?thesis by (simp add: verifyUniqueAppends_spec)
qed

theorem generated_history_verifies_witness:
  "let txns = fst (the (generate_txns fifo counter_rand 3 0 WrTxnWithDefaultOpts));
       h = map (\<lambda>(i, mops). event (int i) (int i) OpTypeInvoke mops) (enumerate 0 txns)
   in length h = 3 \<and> verifyUniqueAppends h = Some ()"
proof -
  let ?txns = "fst (the (generate_txns fifo counter_rand 3 0 (WrTxn DefaultWrTxnOpts)))"
  let ?h = "map (\<lambda>(i, mops). event (int i) (int i) OpTypeInvoke mops) (enumerate 0 ?txns)"
  have t: "typed_history ?h" "length ?h = 3" "map mops_of (filter (\<lambda>op. op_Type op = OpTypeInvoke) ?h) = ?txns" by code_simp+
  have b: "unat (wo_KeyCount DefaultWrTxnOpts) + 3 * nat (sint (wo_MaxTxnLength DefaultWrTxnOpts)) < 2 ^ 64"
    unfolding default_opts(4,5) by simp
  have "verifyUniqueAppends ?h = Some ()"
    by (rule generated_history_verifies [OF counter_rand_laws default_opts(1-3) b t(1), of fifo 0])
      (use t(3) in simp)
  with t(2) show ?thesis unfolding Let_def WrTxnWithDefaultOpts_def by blast
qed

end
