(* ===== verification/Nemesis_Types.thy ===== *)
theory Nemesis_Types
  imports Prelude
begin

text \<open>
  The nodes of a cluster (\<open>pkg/cluster/types.go\<close>) and the nemesis operations of \<open>pkg/core/nemesis.go\<close>, which
  the generators make, the controller runs and the recorder writes.
\<close>

section \<open>Clusters and operations\<close>

type_synonym Component = string

definition TiDB :: Component where "TiDB = ''tidb''"
definition TiKV :: Component where "TiKV = ''tikv''"
definition PD :: Component where "PD = ''pd''"
definition DM :: Component where "DM = ''dm''"
definition TiFlash :: Component where "TiFlash = ''tiflash''"

lemmas component_defs = TiDB_def TiKV_def PD_def DM_def TiFlash_def

record Node =
  nd_Namespace :: string
  nd_Component :: Component
  nd_PodName :: string
  nd_IP :: string
  nd_Port :: int
  nd_HasClient :: bool

type_synonym ChaosKind = string

definition PodFailure :: ChaosKind where "PodFailure = ''pod-failure''"
definition PodKill :: ChaosKind where "PodKill = ''pod-kill''"
definition ContainerKill :: ChaosKind where "ContainerKill = ''container-kill''"
definition NetworkPartition :: ChaosKind where "NetworkPartition = ''network-partition''"
definition NetemChaos :: ChaosKind where "NetemChaos = ''netem-chaos''"
definition TimeChaos :: ChaosKind where "TimeChaos = ''time-chaos''"
definition PDScheduler :: ChaosKind where "PDScheduler = ''pd-scheduler''"
definition PDLeaderShuffler :: ChaosKind where "PDLeaderShuffler = ''pd-leader-shuffler''"
definition Scaling :: ChaosKind where "Scaling = ''scaling''"

lemmas kind_defs = PodFailure_def PodKill_def ContainerKill_def NetworkPartition_def NetemChaos_def TimeChaos_def
  PDScheduler_def PDLeaderShuffler_def Scaling_def

datatype netemChaos = Loss | Delay | Duplicate | Corrupt

text \<open>The arguments are interface values. Written as JSON and decoded, a string comes back as it was and any other argument
  as a generic value (a map, a slice or a number), of which the text is kept.\<close>

datatype nemesis_arg = ArgString string | ArgNodes "Node list" | ArgNetem netemChaos | ArgJSON string

record NemesisOperation =
  no_Type :: ChaosKind
  no_Node :: "Node option"
  no_InvokeArgs :: "nemesis_arg list"
  no_RecoverArgs :: "nemesis_arg list"
  no_RunTime :: int
  no_Control :: bool

text \<open>A generator with the operations it made; the slice of pointers may hold nil.\<close>

record NemesisGeneratorRecord =
  nr_Name :: string
  nr_Ops :: "NemesisOperation option list"

end
