(* ===== verification/Operations.thy ===== *)
theory Operations
  imports Nemesis_Types
begin

text \<open>
  The recorded history of a client test and its checkers: \<open>pkg/core/model.go\<close> and
  \<open>checker.go\<close>, \<open>pkg/history/history.go\<close>, \<open>pkg/check/porcupine/porcupine.go\<close> and
  \<open>pkg/verify/suit.go\<close>.

  A recorded operation carries an interface value: the request of a call, the response of a
  return, the record of a nemesis, or nil. JSON decoding and the checker of the porcupine package
  are parameters. An error of the code is the left summand of a sum; a panic is \<^const>\<open>None\<close>.
\<close>

section \<open>Operations\<close>

text \<open>The data of a nemesis operation: the decoded record of an injection, or the name of a recovery.\<close>

datatype nemesis_data = Injected NemesisGeneratorRecord | Recovered string

datatype ('i, 'o) OpData = NilData | Request 'i | Response 'o | NemesisData nemesis_data

definition InvokeOperation :: string where
  "InvokeOperation = ''call''"

definition ReturnOperation :: string where
  "ReturnOperation = ''return''"

definition InvokeNemesis :: string where
  "InvokeNemesis = ''inject''"

definition RecoverNemesis :: string where
  "RecoverNemesis = ''recover''"

definition dumpOperation :: string where
  "dumpOperation = ''dump''"

lemmas action_defs = InvokeOperation_def ReturnOperation_def InvokeNemesis_def RecoverNemesis_def dumpOperation_def

text \<open>The time of a completion that was never observed is the zero time, here \<^const>\<open>None\<close>.\<close>

record ('i, 'o) Operation =
  o_Action :: string
  o_Proc :: int
  o_Data :: "('i, 'o) OpData"
  o_Time :: "int option"

datatype ('i, 'o) history_error =
    MissingReturn "('i, 'o) Operation"
  | MissingInvoke "('i, 'o) Operation"
  | HistoryNotComplete
  | ReadError

abbreviation is_call :: "('i, 'o) Operation \<Rightarrow> bool" where
  "is_call op \<equiv> o_Action op = InvokeOperation"

abbreviation is_return :: "('i, 'o) Operation \<Rightarrow> bool" where
  "is_return op \<equiv> o_Action op = ReturnOperation"

section \<open>Completing a history\<close>

text \<open>\<open>op.Data.(core.UnknownResponse)\<close> succeeds for responses only.\<close>

fun unknown_data :: "('o \<Rightarrow> bool) \<Rightarrow> ('i, 'o) OpData \<Rightarrow> bool" where
  "unknown_data IsUnknown (Response r) = IsUnknown r"
| "unknown_data IsUnknown _ = False"

fun complete_loop :: "('o \<Rightarrow> bool) \<Rightarrow> ('i, 'o) Operation list \<Rightarrow> (int, unit) gomap \<Rightarrow> ('i, 'o) Operation list \<Rightarrow>
    ('i, 'o) history_error + (int, unit) gomap \<times> ('i, 'o) Operation list" where
  "complete_loop IsUnknown [] procID compOps = Inr (procID, compOps)"
| "complete_loop IsUnknown (op # ops) procID compOps =
     (if o_Action op = InvokeOperation
      then (if o_Proc op \<in> keys procID then Inl (MissingReturn op)
            else complete_loop IsUnknown ops (AList.update (o_Proc op) () procID) (compOps @ [op]))
      else if o_Action op = ReturnOperation
      then (if o_Proc op \<notin> keys procID then Inl (MissingInvoke op)
            else if unknown_data IsUnknown (o_Data op) then complete_loop IsUnknown ops procID compOps
            else complete_loop IsUnknown ops (AList.delete (o_Proc op) procID) (compOps @ [op]))
      else complete_loop IsUnknown ops procID (compOps @ [op]))"

definition noop_return :: "'o \<Rightarrow> int \<Rightarrow> ('i, 'o) Operation" where
  "noop_return noop proc = \<lparr>o_Action = ReturnOperation, o_Proc = proc, o_Data = Response noop, o_Time = None\<rparr>"

definition CompleteOperations :: "range_order \<Rightarrow> ('o \<Rightarrow> bool) \<Rightarrow> 'o \<Rightarrow> ('i, 'o) Operation list \<Rightarrow>
    ('i, 'o) history_error + ('i, 'o) Operation list" where
  "CompleteOperations \<rho> IsUnknown noop ops =
     (case complete_loop IsUnknown ops [] [] of
        Inl e \<Rightarrow> Inl e
      | Inr (procID, compOps) \<Rightarrow>
          Inr (compOps @ map (noop_return noop) (sort (go_range \<rho> (map fst procID)))))"

section \<open>Events for porcupine\<close>

datatype EventKind = CallEvent | ReturnEvent

record ('i, 'o) Event =
  ev_ClientId :: int
  ev_Kind :: EventKind
  ev_Value :: "('i, 'o) OpData"
  ev_Id :: nat

text \<open>The loop over the operations; the state is the call of every process that has not returned,
  the next identifier and the events so far. A process without a call reads identifier 0.\<close>

fun convert_loop :: "('i, 'o) Operation list \<Rightarrow> (int, nat) gomap \<Rightarrow> nat \<Rightarrow> ('i, 'o) Event list \<Rightarrow>
    (int, nat) gomap \<times> nat \<times> ('i, 'o) Event list" where
  "convert_loop [] procID i events = (procID, i, events)"
| "convert_loop (op # ops) procID i events =
     (if o_Action op = InvokeOperation
      then convert_loop ops (AList.update (o_Proc op) i procID) (i + 1)
        (events @ [\<lparr>ev_ClientId = o_Proc op, ev_Kind = CallEvent, ev_Value = o_Data op, ev_Id = i\<rparr>])
      else if o_Action op = ReturnOperation
      then (if o_Data op = NilData then convert_loop ops procID i events
            else convert_loop ops (AList.delete (o_Proc op) procID) i
              (events @ [\<lparr>ev_ClientId = o_Proc op, ev_Kind = ReturnEvent, ev_Value = o_Data op,
                          ev_Id = get_or 0 procID (o_Proc op)\<rparr>]))
      else convert_loop ops procID i events)"

definition ConvertOperationsToEvents :: "('i, 'o) Operation list \<Rightarrow> ('i, 'o) history_error + ('i, 'o) Event list" where
  "ConvertOperationsToEvents ops =
     (if length ops mod 2 \<noteq> 0 then Inl HistoryNotComplete
      else (case convert_loop ops [] 0 [] of
              (procID, _, events) \<Rightarrow> if length procID \<noteq> 0 then Inl HistoryNotComplete else Inr events))"

section \<open>Models and checkers\<close>

text \<open>A model: its initial state from the prepared state, if there is one, its step, which panics on
  values it does not know, and equality of states.\<close>

record ('s, 'i, 'o) Model =
  Model_Init :: "'s option \<Rightarrow> 's"
  Model_Step :: "'s \<Rightarrow> 'i \<Rightarrow> 'o \<Rightarrow> (bool \<times> 's) option"
  Model_Equal :: "'s \<Rightarrow> 's \<Rightarrow> bool"
  Model_Name :: string

text \<open>A checker is given the model, if there is one, the state it was prepared with and the operations.\<close>

type_synonym ('s, 'i, 'o) Checker =
  "('s, 'i, 'o) Model option \<Rightarrow> 's option \<Rightarrow> ('i, 'o) Operation list \<Rightarrow> (('i, 'o) history_error + bool) option"

definition NoopChecker :: "('s, 'i, 'o) Checker" where
  "NoopChecker m prepared ops = Some (Inr True)"

fun multiChecker_loop :: "('s, 'i, 'o) Checker list \<Rightarrow> ('s, 'i, 'o) Checker" where
  "multiChecker_loop [] m prepared ops = Some (Inr True)"
| "multiChecker_loop (checker # checkers) m prepared ops = do {
     res \<leftarrow> checker m prepared ops;
     (case res of
        Inl err \<Rightarrow> Some (Inl err)
      | Inr valid \<Rightarrow> if \<not> valid then Some (Inr valid) else multiChecker_loop checkers m prepared ops) }"

definition MultiChecker :: "('s, 'i, 'o) Checker list \<Rightarrow> ('s, 'i, 'o) Checker" where
  "MultiChecker checkers = multiChecker_loop checkers"

text \<open>\<open>CheckEvents\<close> is \<open>porcupine.CheckEventsVerbose\<close> without a time limit: whether it returns \<open>Ok\<close>.
  The visualisation of a failed check is output only.\<close>

type_synonym ('s, 'i, 'o) porcupine =
  "'s \<Rightarrow> ('s \<Rightarrow> 'i \<Rightarrow> 'o \<Rightarrow> (bool \<times> 's) option) \<Rightarrow> ('s \<Rightarrow> 's \<Rightarrow> bool) \<Rightarrow> ('i, 'o) Event list \<Rightarrow> bool"

definition Porcupine_Check :: "('s, 'i, 'o) porcupine \<Rightarrow> ('s, 'i, 'o) Checker" where
  "Porcupine_Check CheckEvents model prepared ops = do {
     m \<leftarrow> model;
     Some (case ConvertOperationsToEvents ops of
             Inl err \<Rightarrow> Inl err
           | Inr events \<Rightarrow> Inr (CheckEvents (Model_Init m prepared) (Model_Step m) (Model_Equal m) events)) }"

section \<open>Reading and verifying\<close>

text \<open>A line of the file, decoded: the data is still raw.\<close>

record 'r opRecord =
  rec_Action :: string
  rec_Proc :: int
  rec_Time :: "int option"
  rec_Data :: 'r

text \<open>A parser whose \<open>OnNoopResponse\<close> panics (\<open>AppendParser\<close>, \<open>RegisterParser\<close> and \<open>tpccParser\<close>) has none.\<close>

record ('r, 's, 'i, 'o) RecordParser =
  OnRequest :: "'r \<Rightarrow> 'i option"
  OnResponse :: "'r \<Rightarrow> 'o option"
  OnNoopResponse :: "'o option"
  OnState :: "'r \<Rightarrow> 's option"

text \<open>The decoders of the records of a nemesis: \<open>json.Unmarshal\<close> into a \<open>NemesisGeneratorRecord\<close> and into a string.\<close>

type_synonym 'r nemesis_decoder = "('r \<Rightarrow> NemesisGeneratorRecord option) \<times> ('r \<Rightarrow> string option)"

definition record_data :: "'r nemesis_decoder \<Rightarrow> ('r, 's, 'i, 'o) RecordParser \<Rightarrow> 'r opRecord \<Rightarrow> ('i, 'o) OpData option" where
  "record_data nemesis p r =
     (if rec_Action r = InvokeOperation then map_option Request (OnRequest p (rec_Data r))
      else if rec_Action r = ReturnOperation then map_option Response (OnResponse p (rec_Data r))
      else if rec_Action r = InvokeNemesis then map_option (\<lambda>n. NemesisData (Injected n)) (fst nemesis (rec_Data r))
      else if rec_Action r = RecoverNemesis then map_option (\<lambda>n. NemesisData (Recovered n)) (snd nemesis (rec_Data r))
      else Some NilData)"

text \<open>\<open>unmarshal\<close> decodes a line and \<open>nemesis\<close> the data of a nemesis record, \<^const>\<open>None\<close> being an error.\<close>

fun ReadHistory_loop :: "('l \<Rightarrow> 'r opRecord option) \<Rightarrow> 'r nemesis_decoder \<Rightarrow> ('r, 's, 'i, 'o) RecordParser \<Rightarrow>
    'l list \<Rightarrow> ('i, 'o) Operation list \<Rightarrow> 's option \<Rightarrow>
    ('i, 'o) history_error + ('i, 'o) Operation list \<times> 's option" where
  "ReadHistory_loop unmarshal nemesis p [] ops state = Inr (ops, state)"
| "ReadHistory_loop unmarshal nemesis p (l # ls) ops state =
     (case unmarshal l of
        None \<Rightarrow> Inl ReadError
      | Some r \<Rightarrow>
          if rec_Action r = dumpOperation
          then (case OnState p (rec_Data r) of
                  None \<Rightarrow> Inl ReadError
                | Some s \<Rightarrow> ReadHistory_loop unmarshal nemesis p ls ops (Some s))
          else (case record_data nemesis p r of
                  None \<Rightarrow> Inl ReadError
                | Some d \<Rightarrow> ReadHistory_loop unmarshal nemesis p ls
                    (ops @ [\<lparr>o_Action = rec_Action r, o_Proc = rec_Proc r, o_Data = d, o_Time = rec_Time r\<rparr>]) state))"

text \<open>The file is \<^const>\<open>None\<close> when it cannot be opened; otherwise its lines and whether the scanner
  stopped with an error.\<close>

definition ReadHistory :: "('l \<Rightarrow> 'r opRecord option) \<Rightarrow> 'r nemesis_decoder \<Rightarrow> ('r, 's, 'i, 'o) RecordParser \<Rightarrow>
    ('l list \<times> bool) option \<Rightarrow> ('i, 'o) history_error + ('i, 'o) Operation list \<times> 's option" where
  "ReadHistory unmarshal nemesis p file =
     (case file of
        None \<Rightarrow> Inl ReadError
      | Some (ls, scan_error) \<Rightarrow>
          (case ReadHistory_loop unmarshal nemesis p ls [] None of
             Inl e \<Rightarrow> Inl e
           | Inr res \<Rightarrow> if scan_error then Inl ReadError else Inr res))"

text \<open>Completing a history with an open call asks the parser for a no-op response.\<close>

definition completion_panics :: "('o \<Rightarrow> bool) \<Rightarrow> 'o option \<Rightarrow> ('i, 'o) Operation list \<Rightarrow> bool" where
  "completion_panics IsUnknown noop ops \<longleftrightarrow> noop = None \<and>
     (case complete_loop IsUnknown ops [] [] of Inl _ \<Rightarrow> False | Inr (procID, _) \<Rightarrow> procID \<noteq> [])"

text \<open>The outcome of \<open>Verify\<close>: the log line of a valid or an invalid history, a fatal error, or a
  panic, which is what \<open>Prepare\<close> does with the nil state of a file without a dump.\<close>

datatype ('i, 'o) verdict = HistoryValid | HistoryInvalid | VerifyFatal "('i, 'o) history_error" | VerifyPanic

definition Verify :: "range_order \<Rightarrow> ('l \<Rightarrow> 'r opRecord option) \<Rightarrow> 'r nemesis_decoder \<Rightarrow> ('o \<Rightarrow> bool) \<Rightarrow>
    ('s, 'i, 'o) Checker \<Rightarrow> ('s, 'i, 'o) Model option \<Rightarrow> ('r, 's, 'i, 'o) RecordParser \<Rightarrow> ('l list \<times> bool) option \<Rightarrow>
    ('i, 'o) verdict" where
  "Verify \<rho> unmarshal nemesis IsUnknown checker m p file =
     (case ReadHistory unmarshal nemesis p file of
        Inl e \<Rightarrow> VerifyFatal e
      | Inr (ops, state) \<Rightarrow>
          if completion_panics IsUnknown (OnNoopResponse p) ops then VerifyPanic
          else (case CompleteOperations \<rho> IsUnknown (the (OnNoopResponse p)) ops of
             Inl e \<Rightarrow> VerifyFatal e
           | Inr ops \<Rightarrow>
               if \<not> Option.is_none m \<and> Option.is_none state then VerifyPanic
               else (case checker m (if Option.is_none m then None else state) ops of
                       None \<Rightarrow> VerifyPanic
                     | Some (Inl e) \<Rightarrow> VerifyFatal e
                     | Some (Inr ok) \<Rightarrow> if ok then HistoryValid else HistoryInvalid)))"

end
