(* ===== verification/Elle_Db.thy ===== *)
theory Elle_Db
  imports History_Parser Wr_Txn Operations
begin

text \<open>
  What the clients of the Elle workloads (\<open>testcase/list-append/client.go\<close>,
  \<open>testcase/rw-register/client.go\<close>) share: the connection to the database, which is a parameter with
  one function for each method of \<open>database/sql\<close> that they call, the responses to a failure, and the
  recording of their operations as JSON.
\<close>

section \<open>The connection\<close>

datatype SqlArg = StrArg string | IntArg int

text \<open>An error is its message. The rows of a query are what \<open>Scan\<close> makes of each; \<open>Now\<close> is the clock of the
  client.\<close>

record 'd Db =
  db_Begin :: "'d \<Rightarrow> string option \<times> 'd"
  db_ExecContext :: "string \<Rightarrow> SqlArg list \<Rightarrow> 'd \<Rightarrow> string option \<times> 'd"
  db_QueryContext :: "string \<Rightarrow> SqlArg list \<Rightarrow> 'd \<Rightarrow> (string + (string + string) list) \<times> 'd"
  db_Commit :: "'d \<Rightarrow> string option \<times> 'd"
  db_Rollback :: "'d \<Rightarrow> 'd"
  db_Exec :: "string \<Rightarrow> 'd \<Rightarrow> string option \<times> 'd"
  db_Close :: "'d \<Rightarrow> string option \<times> 'd"
  db_Now :: "'d \<Rightarrow> int"

text \<open>\<open>strconv.ParseInt(s, 10, 64)\<close>; an error ends in \<open>log.Panicf\<close>.\<close>

definition mustAtoi :: "string \<Rightarrow> int option" where
  "mustAtoi s = (case Atoi s of Inl _ \<Rightarrow> None | Inr i \<Rightarrow> Some i)"

text \<open>The operator \<open>%\<close> rounds the quotient towards zero and panics on zero.\<close>

definition go_rem :: "int \<Rightarrow> int \<Rightarrow> int option" where
  "go_rem a b = (if b = 0 then None else Some (if a < 0 then - ((- a) mod \<bar>b\<bar>) else a mod \<bar>b\<bar>))"

fun Contains :: "string \<Rightarrow> string \<Rightarrow> bool" where
  "Contains s w = (take (length w) s = w \<or> (case s of [] \<Rightarrow> False | _ # t \<Rightarrow> Contains t w))"

declare Contains.simps [simp del]

section \<open>Responses\<close>

text \<open>The response to an error before the commit carries the request.\<close>

definition failOp :: "('d, 'z) Db_scheme \<Rightarrow> 'd \<Rightarrow> Op \<Rightarrow> string \<Rightarrow> Op" where
  "failOp D d request err = \<lparr>op_Index = OptNil, op_Process = OptNil, op_Time = Some (db_Now D d), op_Type = OpTypeFail,
     op_Value = op_Value request, op_Error = err\<rparr>"

text \<open>The end of \<open>Invoke\<close>: the commit and what its error means. The slice is at the address \<open>a\<close>.\<close>

definition commitOp :: "('d, 'z) Db_scheme \<Rightarrow> nat \<Rightarrow> Mop list \<Rightarrow> 'd \<Rightarrow> Op \<times> 'd" where
  "commitOp D a mops d =
     (case db_Commit D d of
        (Some err, d) \<Rightarrow>
          (\<lparr>op_Index = OptNil, op_Process = OptNil, op_Time = Some (db_Now D d),
             op_Type = (if Contains err ''invalid connection'' then OpTypeUnknown else OpTypeFail),
             op_Value = Some (a, mops), op_Error = err\<rparr>, d)
      | (None, d) \<Rightarrow>
          (\<lparr>op_Index = OptNil, op_Process = OptNil, op_Time = Some (db_Now D d), op_Type = OpTypeOk,
             op_Value = Some (a, mops), op_Error = ''''\<rparr>, d))"

text \<open>Reading the first row: the empty string if there is none.\<close>

definition scan_first :: "(string + string) list \<Rightarrow> string + string" where
  "scan_first rows = (case rows of [] \<Rightarrow> Inr '''' | r # _ \<Rightarrow> r)"

section \<open>Setting up a session\<close>

record ElleClient =
  ec_tableCount :: int
  ec_useIndex :: bool
  ec_readLock :: string
  ec_txnMode :: string
  ec_replicaRead :: string

datatype SetUpError = IllegalMode string | OpenFailed string | ModeFailed string | ReplicaFailed string

text \<open>The number is what \<open>rand.Intn(2)\<close> returns; \<open>opened\<close> what \<open>sql.Open\<close> returns.\<close>

definition Elle_SetUp :: "('d, 'z) Db_scheme \<Rightarrow> ElleClient \<Rightarrow> int \<Rightarrow> string option \<Rightarrow> 'd \<Rightarrow> SetUpError option \<times> 'd" where
  "Elle_SetUp D c r opened d =
     (let txnMode = (if ec_txnMode c = ''mixed'' then (if r = 0 then ''pessimistic'' else ''optimistic'') else ec_txnMode c)
      in if txnMode \<noteq> ''optimistic'' \<and> txnMode \<noteq> ''pessimistic'' then (Some (IllegalMode txnMode), d)
         else case opened of Some err \<Rightarrow> (Some (OpenFailed err), d) | None \<Rightarrow>
         (case db_Exec D (''set @@tidb_txn_mode = '' @ [CHR 0x27] @ txnMode @ [CHR 0x27]) d of
            (Some err, d) \<Rightarrow> (Some (ModeFailed err), d)
          | (None, d) \<Rightarrow>
              if ec_replicaRead c \<noteq> ''''
              then (case db_Exec D (''set @@tidb_replica_read = '' @ [CHR 0x27] @ ec_replicaRead c @ [CHR 0x27]) d of
                      (Some err, d) \<Rightarrow> (Some (ReplicaFailed err), d)
                    | (None, d) \<Rightarrow> (None, d))
              else (None, d)))"

section \<open>JSON\<close>

text \<open>A number read into an interface is a \<open>float64\<close>, here the integer it holds: rounded to 53 binary
  digits, to the even neighbour when halfway.\<close>

definition round53 :: "nat \<Rightarrow> nat" where
  "round53 n =
     (let e = bits n - 53; q = n div 2 ^ e; r = n mod 2 ^ e
      in (if 2 ^ e < 2 * r \<or> 2 * r = 2 ^ e \<and> e \<noteq> 0 \<and> odd q then q + 1 else q) * 2 ^ e)"

definition float64 :: "int \<Rightarrow> int" where
  "float64 i = (if i < 0 then - int (round53 (nat (- i))) else int (round53 (nat i)))"

datatype JVal = JNull | JNum int | JArr "JVal list" | JObj bool int

text \<open>What marshalling a value and unmarshalling it into an interface yields; \<open>JObj\<close> is the object of a
  \<open>rwregister.Int\<close> with its fields \<open>is_num\<close> and \<open>val\<close>.\<close>

fun json_value :: "MopValueType \<Rightarrow> JVal" where
  "json_value MV_nil = JNull"
| "json_value (MV_int i) = JNum (float64 i)"
| "json_value (MV_ints vs) = JArr (map (\<lambda>i. JNum (float64 i)) vs)"
| "json_value (MV_Int i) = JObj (int_IsNil i) (float64 (int_Val i))"

record JMop =
  jm_T :: MopType
  jm_key :: string
  jm_value :: JVal

record JOp =
  jo_Index :: IntOptional
  jo_Process :: IntOptional
  jo_Time :: "int option"
  jo_Type :: OpType
  jo_Value :: "JMop list option"
  jo_Error :: string

text \<open>\<open>json.Unmarshal\<close> of a marshalled operation, as \<open>OnRequest\<close> and \<open>OnResponse\<close> decode it. A slice without elements, which
  the clients and the generator leave nil, is \<open>null\<close> in JSON and comes back as a nil pointer.\<close>

definition json_mop :: "Mop \<Rightarrow> JMop" where
  "json_mop m = \<lparr>jm_T = mop_T m, jm_key = mop_key m, jm_value = json_value (mop_value m)\<rparr>"

definition json_op :: "Op \<Rightarrow> JOp" where
  "json_op op = \<lparr>jo_Index = op_Index op, jo_Process = op_Process op, jo_Time = op_Time op, jo_Type = op_Type op,
     jo_Value = (case op_Value op of None \<Rightarrow> None | Some (_, mops) \<Rightarrow> if mops = [] then None else Some (map json_mop mops)),
     jo_Error = op_Error op\<rparr>"

fun as_num :: "JVal \<Rightarrow> int option" where
  "as_num (JNum i) = Some i"
| "as_num _ = None"

fun as_arr :: "JVal \<Rightarrow> JVal list option" where
  "as_arr (JArr xs) = Some xs"
| "as_arr _ = None"

lemma round53_small: "n < 2 ^ 53 \<Longrightarrow> round53 n = n"
proof -
  assume n: "n < 2 ^ 53"
  have "n < 2 ^ k \<Longrightarrow> bits n \<le> k" for k
  proof (induction n arbitrary: k rule: bits.induct)
    case (1 n)
    show ?case
    proof (cases "n = 0")
      case True
      then show ?thesis by (simp add: bits.simps)
    next
      case False
      then obtain k' where k: "k = Suc k'" using 1(2) by (cases k) auto
      with 1 False show ?thesis by (subst bits.simps) (simp add: less_mult_imp_div_less)
    qed
  qed
  from this [OF n] have "bits n - 53 = 0" by simp
  then show ?thesis by (simp add: round53_def Let_def)
qed

lemma float64_exact: "\<bar>i\<bar> < 2 ^ 53 \<Longrightarrow> float64 i = i"
  by (auto simp: float64_def round53_small nat_less_iff)

end
