(* ===== verification/Version_Orders.thy ===== *)
theory Version_Orders
  imports Write_Maps "HOL-Library.Sublist"
begin

text \<open>
  The version order of a key, inferred from the lists that were read: \<open>sortedValues\<close>,
  \<open>incompatibleOrders\<close>, \<open>mergeOrders\<close> and \<open>appendIndex\<close> of \<open>list_append/utils.go\<close>. Lists that
  are prefixes of one another give the longest of them.
\<close>

section \<open>Prefixes\<close>

lemma seqIsPrefix_iff: "seqIsPrefix xs ys \<longleftrightarrow> prefix xs ys"
proof -
  have "length xs \<le> length ys \<Longrightarrow> seqIsPrefix_loop xs ys \<longleftrightarrow> prefix xs ys"
    by (induction xs ys rule: seqIsPrefix_loop.induct) auto
  then show ?thesis by (auto simp: seqIsPrefix_def dest: prefix_length_le)
qed

text \<open>Any two lists are prefixes of one another.\<close>

definition chain :: "'a list set \<Rightarrow> bool" where
  "chain A \<longleftrightarrow> (\<forall>x \<in> A. \<forall>y \<in> A. prefix x y \<or> prefix y x)"

lemma successively_prefix_chain: "successively prefix xs \<longleftrightarrow> sorted_wrt prefix xs"
  by (rule successively_conv_sorted_wrt) (auto simp: transp_def)

lemma chain_sorted:
  assumes "sorted_wrt (\<lambda>x y. length x \<le> length y) xs"
  shows "sorted_wrt prefix xs \<longleftrightarrow> chain (set xs)"
  using assms
proof (induction xs)
  case (Cons x xs)
  have "prefix y x \<Longrightarrow> length x \<le> length y \<Longrightarrow> prefix x y" for y by (metis not_equal_is_parallel parallelD1 prefix_length_le prefix_length_prefix prefix_order.refl)
  with Cons show ?case by (auto simp: chain_def)
qed (simp add: chain_def)

lemma incompatible_pairs_Nil: "incompatible_pairs k vs = [] \<longleftrightarrow> successively seqIsPrefix vs"
  by (induction vs rule: induct_list012) (auto simp: incompatible_pairs_def)

lemma incompatibleOrders_spec:
  assumes "\<forall>k. sorted_wrt (\<lambda>x y. length x \<le> length y) (get_or [] sv k)"
  shows "incompatibleOrders \<rho> sv = [] \<longleftrightarrow> (\<forall>k. chain (set (get_or [] sv k)))"
proof -
  have "incompatibleOrders \<rho> sv = [] \<longleftrightarrow> (\<forall>k \<in> keys sv. successively prefix (get_or [] sv k))"
    by (simp add: incompatibleOrders_def incompatible_pairs_Nil seqIsPrefix_iff [abs_def])
  also have "\<dots> \<longleftrightarrow> (\<forall>k. successively prefix (get_or [] sv k))"
    by (metis get_or_no_key successively.simps(1))
  also have "\<dots> \<longleftrightarrow> (\<forall>k. chain (set (get_or [] sv k)))"
    using assms by (simp add: successively_prefix_chain chain_sorted)
  finally show ?thesis .
qed

text \<open>C32. Given the lists of every key in order of length, as \<open>sortedValues\<close> leaves them,
  \<open>incompatibleOrders\<close> reports nothing exactly when any two lists read of a key are prefixes of one
  another, although it compares only neighbours.\<close>

theorem incompatibleOrders_iff:
  assumes "\<forall>k. sorted_wrt (\<lambda>x y. length x \<le> length y) (get_or [] sv k)"
  shows "incompatibleOrders \<rho> sv = [] \<longleftrightarrow> (\<forall>k. chain (set (get_or [] sv k)))"
  using assms by (rule incompatibleOrders_spec)

theorem incompatibleOrders_iff_witness:
  "incompatibleOrders fifo [(''x'', map (map MV_int) [[1], [1, 2], [1, 2, 3]])] = [] \<and>
   incompatibleOrders fifo [(''x'', map (map MV_int) [[1], [1, 2], [1, 3, 4]])] \<noteq> []"
proof -
  let ?a = "[(''x'', map (map MV_int) [[1], [1, 2], [1, 2, 3]])]"
  let ?b = "[(''x'', map (map MV_int) [[1], [1, 2], [1, 3, 4]])]"
  have "chain (set (get_or [] ?a k))" "\<not> chain (set (get_or [] ?b ''x''))" for k
    by (auto simp: chain_def)
  with incompatibleOrders_iff [of ?a fifo] incompatibleOrders_iff [of ?b fifo] show ?thesis by auto
qed

section \<open>Merging\<close>

lemma mergeOrders_prefix:
  "prefix xs ys \<Longrightarrow> mergeOrders p xs ys = Some (p @ ys)"
  "prefix ys xs \<Longrightarrow> mergeOrders p xs ys = Some (p @ xs)"
proof -
  show "prefix xs ys \<Longrightarrow> mergeOrders p xs ys = Some (p @ ys)"
  proof (induction xs arbitrary: p ys)
    case (Cons x xs) then show ?case by (cases ys) auto
  qed simp
  show "prefix ys xs \<Longrightarrow> mergeOrders p xs ys = Some (p @ xs)"
  proof (induction ys arbitrary: p xs)
    case Nil then show ?case by (cases xs) auto
  next
    case (Cons y ys) then show ?case by (cases xs) auto
  qed
qed

text \<open>The longest list of a chain.\<close>

definition longest :: "'a list list \<Rightarrow> 'a list" where
  "longest xss = fold (\<lambda>v c. if prefix c v then v else c) xss []"

lemma longest_fold:
  assumes "chain (insert c (set xss))"
  shows "foldM (\<lambda>v current. mergeOrders [] current v) xss c = Some (fold (\<lambda>v c. if prefix c v then v else c) xss c)
    \<and> fold (\<lambda>v c. if prefix c v then v else c) xss c \<in> insert c (set xss)
    \<and> (\<forall>x \<in> insert c (set xss). prefix x (fold (\<lambda>v c. if prefix c v then v else c) xss c))"
  using assms
proof (induction xss arbitrary: c)
  case (Cons v xss)
  then have cv: "prefix c v \<or> prefix v c" by (auto simp: chain_def)
  let ?c = "if prefix c v then v else c"
  have "chain (insert ?c (set xss))" using Cons.prems by (auto simp: chain_def)
  from Cons.IH [OF this] cv show ?case
    by (auto simp: mergeOrders_prefix intro: prefix_order.trans split: if_splits)
qed simp

lemma longest_props:
  assumes "chain (set xss)"
  shows "foldM (\<lambda>v current. mergeOrders [] current v) xss [] = Some (longest xss)"
    and "xss \<noteq> [] \<Longrightarrow> longest xss \<in> set xss"
    and "x \<in> set xss \<Longrightarrow> prefix x (longest xss)"
proof -
  have ch: "chain (insert [] (set xss))" using assms by (auto simp: chain_def)
  note L = longest_fold [OF ch, folded longest_def]
  then show "foldM (\<lambda>v current. mergeOrders [] current v) xss [] = Some (longest xss)" by simp
  show "x \<in> set xss \<Longrightarrow> prefix x (longest xss)" using L by simp
  show "longest xss \<in> set xss" if "xss \<noteq> []"
  proof (cases "longest xss = []")
    case True
    with that L show ?thesis by (metis list.set_intros(1) neq_Nil_conv prefix_Nil insertCI)
  next
    case False
    with L show ?thesis by simp
  qed
qed

lemma fold_update_pointwise:
  "distinct ks \<Longrightarrow> map_of (fold (\<lambda>k. AList.update k (f k)) ks m) k = (if k \<in> set ks then Some (f k) else map_of m k)"
  by (induction ks arbitrary: m) auto

lemma appendIndex_spec:
  assumes "wf_map sv" "\<forall>(k, vs) \<in> set sv. chain (set vs) \<and> vs \<noteq> []"
  shows "\<exists>ai. appendIndex \<rho> sv = Some ai \<and> keys ai = keys sv \<and>
    (\<forall>(k, vs) \<in> set sv. \<exists>order \<in> set vs. map_of ai k = Some order \<and> (\<forall>v \<in> set vs. prefix v order))"
proof -
  let ?L = "\<lambda>k. longest (get_or [] sv k)"
  have get: "get_or [] sv k = vs" if "(k, vs) \<in> set sv" for k vs
    using that assms(1) by (simp add: get_or_def)
  have in_sv: "(k, get_or [] sv k) \<in> set sv" if "k \<in> keys sv" for k
    using that by (auto simp: in_keys_map_of get_or_def dest: map_of_SomeD)
  have "appendIndex \<rho> sv = Some (fold (\<lambda>k. AList.update k (?L k)) (go_range \<rho> (map fst sv)) [])"
    unfolding appendIndex_def
    by (rule foldM_total) (use assms(2) in_sv longest_props(1) in \<open>fastforce\<close>)
  moreover have "map_of (fold (\<lambda>k. AList.update k (?L k)) (go_range \<rho> (map fst sv)) []) k =
      (if k \<in> keys sv then Some (?L k) else None)" for k
    using fold_update_pointwise [of "go_range \<rho> (map fst sv)" ?L "[]" k] assms(1) by simp
  ultimately obtain ai where ai: "appendIndex \<rho> sv = Some ai"
    "\<And>k. map_of ai k = (if k \<in> keys sv then Some (?L k) else None)" by blast
  have "keys ai = keys sv" by (auto simp: in_keys_map_of [of _ ai] ai(2) split: if_splits)
  moreover have "\<exists>order \<in> set vs. map_of ai k = Some order \<and> (\<forall>v \<in> set vs. prefix v order)"
    if kv: "(k, vs) \<in> set sv" for k vs
  proof -
    from kv assms(2) have "chain (set vs)" "vs \<noteq> []" by auto
    moreover have "k \<in> keys sv" using kv by (metis fst_conv image_eqI image_fst_keys)
    ultimately show ?thesis using longest_props [of vs] get [OF kv] by (auto simp: ai(2))
  qed
  ultimately show ?thesis using ai(1) by blast
qed

text \<open>C4. When the lists read of every key are prefixes of one another, \<open>appendIndex\<close> never panics and the
  version order of a key is the longest list that was read of it: a list that was read, of which
  every list that was read is a prefix.\<close>

theorem appendIndex_longest:
  assumes "wf_map sv" "\<forall>(k, vs) \<in> set sv. chain (set vs) \<and> vs \<noteq> []"
  shows "\<exists>ai. appendIndex \<rho> sv = Some ai \<and> keys ai = keys sv \<and>
    (\<forall>(k, vs) \<in> set sv. \<exists>order \<in> set vs. map_of ai k = Some order \<and> (\<forall>v \<in> set vs. prefix v order))"
  using assms by (rule appendIndex_spec)

theorem appendIndex_longest_witness:
  "let sv = [(''x'', map (map MV_int) [[1], [1, 2], [1, 2, 3]])]
   in \<exists>ai. appendIndex fifo sv = Some ai \<and> map_of ai ''x'' = Some (map MV_int [1, 2, 3])"
proof -
  let ?sv = "[(''x'', map (map MV_int) [[1], [1, 2], [1, 2, 3]])]"
  have wf: "wf_map ?sv" and ch: "\<forall>(k, vs) \<in> set ?sv. chain (set vs) \<and> vs \<noteq> []" by (auto simp: chain_def)
  from appendIndex_longest [OF wf ch, of fifo] show ?thesis
    unfolding Let_def by (auto simp: prefix_def)
qed

section \<open>The lists that were read\<close>

definition version_lists :: "(Op \<times> Mop) list \<Rightarrow> string \<Rightarrow> MopValueType list set" where
  "version_lists oms k = {map MV_int (reads_of mop) |op mop.
     (op, mop) \<in> set oms \<and> IsRead mop \<and> GetKey mop = k \<and> reads_of mop \<noteq> []}"

text \<open>What \<open>collect_reads\<close> keeps: only lists that were read, and of every list that was read one with
  the same hash.\<close>

definition collected :: "(Op \<times> Mop) list \<Rightarrow> sorted_values \<Rightarrow> (string, (32 word, unit) gomap) gomap \<Rightarrow> bool" where
  "collected oms km vm \<longleftrightarrow> wf_map km \<and>
     (\<forall>k. set (get_or [] km k) \<subseteq> version_lists oms k \<and> (k \<in> keys km \<longrightarrow> get_or [] km k \<noteq> [])) \<and>
     (\<forall>k hash. hash \<in> keys (get_or [] vm k) \<longrightarrow>
        (\<exists>vs. map MV_int vs \<in> set (get_or [] km k) \<and> IntArrayHash vs = hash)) \<and>
     (\<forall>op mop. (op, mop) \<in> set oms \<longrightarrow> IsRead mop \<longrightarrow> reads_of mop \<noteq> [] \<longrightarrow>
        IntArrayHash (reads_of mop) \<in> keys (get_or [] vm (GetKey mop)))"

lemma version_lists_snoc:
  "version_lists (oms @ [(op, mop)]) k = version_lists oms k \<union>
     (if IsRead mop \<and> GetKey mop = k \<and> reads_of mop \<noteq> [] then {map MV_int (reads_of mop)} else {})"
  by (auto simp: version_lists_def)

lemma collect_reads_spec:
  "\<forall>om \<in> set oms. typed_mop (snd om) \<Longrightarrow> \<exists>km vm. collect_reads oms = Some (km, vm) \<and> collected oms km vm"
proof (induction oms rule: rev_induct)
  case Nil
  then show ?case by (simp add: collect_reads_def collected_def)
next
  case (snoc om oms)
  then obtain km vm where km: "collect_reads oms = Some (km, vm)" "collected oms km vm" by auto
  obtain op mop where om: "om = (op, mop)" by fastforce
  with snoc.prems have t: "typed_mop mop" by simp
  note step = collect_reads_def [of "oms @ [om]", unfolded foldM_append, folded collect_reads_def, unfolded km(1) bind.bind_lunit]
  show ?case
  proof (cases "IsRead mop \<and> reads_of mop \<noteq> []")
    case False
    with t om have "collect_reads (oms @ [om]) = Some (km, vm)"
      unfolding step by (auto elim!: typed_cases)
    moreover have "collected (oms @ [om]) km vm"
      using km(2) False unfolding collected_def om version_lists_snoc by auto
    ultimately show ?thesis by blast
  next
    case True
    let ?k = "GetKey mop" let ?vs = "reads_of mop" let ?seen = "get_or [] vm ?k"
    from t True have v: "GetValue mop = MV_ints ?vs" by (auto elim!: typed_cases)
    show ?thesis
    proof (cases "IntArrayHash ?vs \<in> keys ?seen")
      case seen: True
      have "collect_reads (oms @ [om]) = Some (km, AList.update ?k ?seen vm)"
        unfolding step using om True v seen by simp
      moreover have same: "get_or [] (AList.update ?k ?seen vm) = get_or [] vm" by (simp add: fun_eq_iff)
      have "collected (oms @ [om]) km (AList.update ?k ?seen vm)"
        using km(2) seen unfolding collected_def om version_lists_snoc same by auto
      ultimately show ?thesis by blast
    next
      case False
      let ?km = "AList.update ?k (get_or [] km ?k @ [map MV_int ?vs]) km"
      let ?vm = "AList.update ?k (AList.update (IntArrayHash ?vs) () ?seen) vm"
      have "collect_reads (oms @ [om]) = Some (?km, ?vm)"
        unfolding step using om True v False by simp
      moreover have "collected (oms @ [om]) ?km ?vm"
        using km(2) True unfolding collected_def om version_lists_snoc by (auto, blast, metis)
      ultimately show ?thesis by blast
    qed
  qed
qed

text \<open>The values appended to a key by the events of a history, in order.\<close>

definition committed :: "string \<Rightarrow> History \<Rightarrow> int list" where
  "committed k h = concat (map (\<lambda>op. appends_to k (mops_of op)) h)"

lemma committed_simps [simp]:
  "committed k [] = []"
  "committed k (op # h) = appends_to k (mops_of op) @ committed k h"
  "committed k (xs @ ys) = committed k xs @ committed k ys"
  by (simp_all add: committed_def)

definition mop_append :: "string \<Rightarrow> Op \<times> Mop \<Rightarrow> int list" where
  "mop_append k om = (if IsAppend (snd om) \<and> GetKey (snd om) = k then [appended (snd om)] else [])"

lemma committed_all_mops: "committed k h = concat (map (mop_append k) (all_mops h))"
proof -
  have "appends_to k ms = concat (map (mop_append k) (map (Pair op) ms))" for op ms
    by (induction ms) (auto simp: appends_to_def mop_append_def)
  then show ?thesis unfolding all_mops_def op_mops_def by (induction h) (auto simp del: map_map)
qed

lemma single_temp:
  assumes "\<forall>om \<in> set oms. typed_mop (snd om)"
  shows "get_or [] (fold (\<lambda>(_, mop) temp.
         if IsAppend mop \<and> length (get_or [] temp (GetKey mop)) < 2
         then AList.update (GetKey mop) (get_or [] temp (GetKey mop) @ [GetValue mop]) temp
         else temp) oms []) k = map MV_int (take 2 (concat (map (mop_append k) oms)))"
  using assms
proof (induction oms rule: rev_induct)
  case (snoc om oms)
  obtain op mop where om: "om = (op, mop)" by fastforce
  have "IsAppend mop \<Longrightarrow> GetValue mop = MV_int (appended mop)" using snoc.prems om by (simp add: typed_append)
  with snoc om show ?case by (auto simp: mop_append_def)
qed simp

lemma valuesFromSingleAppend_spec:
  assumes "typed_history h"
  shows "\<exists>sa. valuesFromSingleAppend \<rho> h = Some sa \<and> (\<forall>k v. map_of sa k = Some v \<longrightarrow> (\<exists>i. v = MV_int i \<and> committed k h = [i]))"
proof -
  have t: "\<forall>om \<in> set (all_mops h). typed_mop (snd om)"
    using typed_historyD(3) [OF assms] by (force simp: in_all_mops)
  note temp = single_temp [OF t, folded committed_all_mops]
  let ?I = "\<lambda>sa :: (string, MopValueType) gomap. \<forall>k v. map_of sa k = Some v \<longrightarrow> (\<exists>i. v = MV_int i \<and> committed k h = [i])"
  have one: "\<exists>i. v = MV_int i \<and> committed k h = [i]" if "map MV_int (take 2 (committed k h)) = [v]" for k v
    using that by (cases "committed k h" rule: remdups_adj.cases) auto
  show ?thesis
    unfolding valuesFromSingleAppend_def iterate_typed [OF assms] bind.bind_lunit Let_def
    by (rule exI, rule conjI [OF refl], rule Prelude.fold_invariant [where I = ?I], simp)
      (auto simp: temp dest!: one split: list.splits)
qed

lemma fold_update_each:
  assumes "distinct (map snd xs)"
  shows "k \<notin> snd ` set xs \<Longrightarrow> map_of (fold (\<lambda>(i, k) m. AList.update k (F i (get_or [] m k)) m) xs m) k = map_of m k"
    and "(i, k) \<in> set xs \<Longrightarrow> map_of (fold (\<lambda>(i, k) m. AList.update k (F i (get_or [] m k)) m) xs m) k = Some (F i (get_or [] m k))"
  using assms by (induction xs arbitrary: m) (auto simp: image_iff)

lemma wf_fold_update: "wf_map m \<Longrightarrow> wf_map (fold (\<lambda>(i, k) m. AList.update k (F i m k) m) xs m)"
  by (induction xs arbitrary: m) auto

text \<open>The lists under one key: nonempty, in order of length, all of them read, or the only value
  ever appended to the key.\<close>

definition order_lists :: "History \<Rightarrow> string \<Rightarrow> MopValueType list list \<Rightarrow> bool" where
  "order_lists h k vs \<longleftrightarrow> vs \<noteq> [] \<and>
    (set vs \<subseteq> version_lists (all_mops h) k \<or> (\<exists>i. committed k h = [i] \<and> vs = [[MV_int i]]))"

lemma order_lists_perm: "mset vs = mset ws \<Longrightarrow> order_lists h k vs \<longleftrightarrow> order_lists h k ws"
  unfolding order_lists_def
  by (metis mset_eq_setD mset_single_iff mset_single_iff_right mset_zero_iff)

lemma sortedValues_spec:
  assumes "typed_history h"
  shows "\<exists>sv. sortedValues \<rho> h = Some sv \<and> wf_map sv \<and>
    (\<forall>(k, vs) \<in> set sv. order_lists h k vs \<and> sorted_wrt (\<lambda>x y. length x \<le> length y) vs)"
proof -
  have t: "\<forall>om \<in> set (all_mops h). typed_mop (snd om)"
    using typed_historyD(3) [OF assms] by (force simp: in_all_mops)
  obtain km vm where km: "collect_reads (all_mops h) = Some (km, vm)" "collected (all_mops h) km vm"
    using collect_reads_spec [OF t] by blast
  obtain sa where sa: "valuesFromSingleAppend (sub \<rho> 0) h = Some sa"
    "\<And>k v. map_of sa k = Some v \<Longrightarrow> \<exists>i. v = MV_int i \<and> committed k h = [i]"
    using valuesFromSingleAppend_spec [OF assms] by blast
  let ?I = "\<lambda>m. wf_map m \<and> (\<forall>k vs. map_of m k = Some vs \<longrightarrow> order_lists h k vs)"
  define km' where "km' = fold (\<lambda>k keyMaps.
         if k \<notin> keys keyMaps then AList.update k [[get_or MV_nil sa k]] keyMaps else keyMaps)
       (go_range (sub \<rho> 1) (map fst sa)) km"
  have I: "?I km'"
    unfolding km'_def
  proof (rule Prelude.fold_invariant [where I = ?I])
    have "wf_map km" "\<And>k. set (get_or [] km k) \<subseteq> version_lists (all_mops h) k" "\<And>k. k \<in> keys km \<Longrightarrow> get_or [] km k \<noteq> []"
      using km(2) unfolding collected_def by blast+
    moreover have "get_or [] km k = vs" "k \<in> keys km" if "map_of km k = Some vs" for k vs
      using that by (simp_all add: get_or_def map_of_in_keys)
    ultimately show "?I km" unfolding order_lists_def by metis
    fix k m assume "k \<in> set (go_range (sub \<rho> 1) (map fst sa))" "?I m"
    moreover from this(1) obtain v where "map_of sa k = Some v" by (auto simp: in_keys_map_of)
    moreover from this sa(2) obtain i where "v = MV_int i" "committed k h = [i]" by blast
    ultimately show "?I (if k \<notin> keys m then AList.update k [[get_or MV_nil sa k]] m else m)"
      by (auto simp: get_or_def order_lists_def simp del: map_of_eq_Some_iff)
  qed
  define ks where "ks = enumerate 3 (go_range (sub \<rho> 2) (map fst km'))"
  let ?F = "\<lambda>i vs. sort_key length (go_range (sub \<rho> i) vs)"
  let ?sv = "fold (\<lambda>(i, k) m. AList.update k (?F i (get_or [] m k)) m) ks km'"
  have ks: "distinct (map snd ks)" "snd ` set ks = keys km'"
    using I by (simp_all add: ks_def set_enumerate_snd)
  have "order_lists h k vs \<and> sorted_wrt (\<lambda>x y. length x \<le> length y) vs" if "map_of ?sv k = Some vs" for k vs
  proof (cases "k \<in> keys km'")
    case True
    then obtain i ws where i: "(i, k) \<in> set ks" and ws: "map_of km' k = Some ws"
      using ks(2) by (auto simp: in_keys_map_of [of k km'] image_iff) (metis ks(2) imageE in_keys_map_of prod.collapse)
    with fold_update_each(2) [OF ks(1) i, of ?F km'] that have vs: "vs = ?F i ws" by (simp add: get_or_def)
    moreover have "order_lists h k ws" using I ws by blast
    moreover have "mset vs = mset ws" unfolding vs by simp
    moreover have "sorted_wrt (\<lambda>x y. length x \<le> length y) vs"
      unfolding vs using sorted_sort_key [of length "go_range (sub \<rho> i) ws"] by (simp add: sorted_map)
    ultimately show ?thesis using order_lists_perm by blast
  next
    case False
    with fold_update_each(1) [OF ks(1), of k ?F km'] ks(2) that
    show ?thesis by (metis map_of_None_keys option.distinct(1))
  qed
  moreover have "wf_map ?sv"
    using wf_fold_update [where F = "\<lambda>i m k. ?F i (get_or [] m k)"] I by blast
  moreover have "sortedValues \<rho> h = Some ?sv"
    by (simp add: sortedValues_def iterate_typed [OF assms] km(1) sa(1) Let_def km'_def ks_def)
  ultimately show ?thesis by (fastforce intro: map_of_is_SomeI)
qed

end
