(* ===== verification/Serial_Semantics.thy ===== *)
theory Serial_Semantics
  imports Write_Maps "HOL-Library.Sublist"
begin

text \<open>
  The store the list-append workload talks to: a map from keys to lists. An append extends a list
  and a read has to return the whole list. \<open>opInternalCase\<close> is shown to decide whether the
  micro-operations of one transaction can be executed at all, from some store; the lemmas on
  serial executions are what the whole checker is judged by in \<open>Serial_Histories\<close>.
\<close>

section \<open>Executing micro-operations\<close>

type_synonym list_store = "string \<Rightarrow> int list"

definition exec_mop :: "Mop \<Rightarrow> list_store \<Rightarrow> list_store option" where
  "exec_mop mop st =
     (if IsAppend mop then Some (st(GetKey mop := st (GetKey mop) @ [appended mop]))
      else if reads_of mop = st (GetKey mop) then Some st else None)"

definition exec_mops :: "Mop list \<Rightarrow> list_store \<Rightarrow> list_store option" where
  "exec_mops = foldM exec_mop"

lemma exec_mops_simps [simp]:
  "exec_mops [] st = Some st"
  "exec_mops (mop # mops) st = do { st' \<leftarrow> exec_mop mop st; exec_mops mops st' }"
  by (simp_all add: exec_mops_def)

lemma exec_mops_append: "exec_mops (xs @ ys) st = do { st' \<leftarrow> exec_mops xs st; exec_mops ys st' }"
  by (simp add: exec_mops_def foldM_append)

lemma exec_mops_store: "exec_mops mops st = Some st' \<Longrightarrow> st' k = st k @ appends_to k mops"
proof (induction mops arbitrary: st)
  case (Cons mop mops)
  from Cons.prems obtain st1 where st1: "exec_mop mop st = Some st1" "exec_mops mops st1 = Some st'"
    by (auto split: Option.bind_splits)
  with Cons.IH [OF st1(2)] show ?case
    by (auto simp: exec_mop_def appends_to_Cons split: if_splits)
qed (simp add: appends_to_def)

lemma exec_mops_read:
  assumes "exec_mops (xs @ mop # ys) st = Some st'" "IsRead mop"
  shows "reads_of mop = st (GetKey mop) @ appends_to (GetKey mop) xs"
proof -
  from assms(1) obtain st1 where "exec_mops xs st = Some st1" "exec_mop mop st1 \<noteq> None"
    by (auto simp: exec_mops_append split: Option.bind_splits)
  with assms(2) exec_mops_store show ?thesis
    by (auto simp: exec_mop_def mop_defs split: if_splits)
qed

section \<open>Internal consistency\<close>

text \<open>The value \<open>unknownPrefixMagicNumber\<close> marks a list of which only the end is known; no element may be
  equal to it.\<close>

definition no_magic :: "Mop list \<Rightarrow> bool" where
  "no_magic mops \<longleftrightarrow> (\<forall>mop \<in> set mops. appended mop \<noteq> unknownPrefixMagicNumber \<and>
     (reads_of mop \<noteq> [] \<longrightarrow> hd (reads_of mop) \<noteq> unknownPrefixMagicNumber))"

lemma isReadRecordEqual_iff [simp]: "isReadRecordEqual a b \<longleftrightarrow> a = b"
  by (auto simp: list_eq_iff_zip_eq list_all_iff)

declare isReadRecordEqual.simps [simp del]

text \<open>The lists that the record \<open>d\<close> of a key admits.\<close>

definition admits :: "int list \<Rightarrow> int list \<Rightarrow> bool" where
  "admits d xs \<longleftrightarrow> (if d \<noteq> [] \<and> hd d = unknownPrefixMagicNumber then suffix (tl d) xs else xs = d)"

lemma internal_conflict_iff: "internal_conflict d records \<longleftrightarrow> \<not> admits d records"
proof (cases "d \<noteq> [] \<and> hd d = unknownPrefixMagicNumber")
  case True
  then obtain s where d: "d = unknownPrefixMagicNumber # s" by (cases d) auto
  have "suffix s records \<longleftrightarrow> length s \<le> length records \<and> s = drop (length records - length s) records"
    by (metis append_take_drop_id diff_diff_cancel drop_append length_drop suffixE suffixI suffix_drop suffix_length_le
        suffix_same_cases suffix_take append_eq_append_conv)
  then show ?thesis using d by (auto simp: internal_conflict_def admits_def Let_def nat_diff_distrib' split: if_splits)
next
  case False
  then show ?thesis by (auto simp: internal_conflict_def admits_def)
qed

lemma admits_snoc:
  assumes "v \<noteq> unknownPrefixMagicNumber"
  shows "admits (d @ [v]) ys \<longleftrightarrow> (\<exists>xs. ys = xs @ [v] \<and> admits d xs)"
proof (cases "d \<noteq> [] \<and> hd d = unknownPrefixMagicNumber")
  case True
  then obtain s where d: "d = unknownPrefixMagicNumber # s" by (cases d) auto
  then show ?thesis by (auto simp: admits_def suffix_def)
next
  case False
  with assms show ?thesis by (cases d) (auto simp: admits_def)
qed

lemma admits_marker [simp]: "admits [unknownPrefixMagicNumber] xs"
  by (simp add: admits_def)

lemma admits_exact: "(records = [] \<or> hd records \<noteq> unknownPrefixMagicNumber) \<Longrightarrow> admits records xs \<longleftrightarrow> xs = records"
  by (auto simp: admits_def)

definition admits_all :: "(string, int list) gomap \<Rightarrow> list_store \<Rightarrow> bool" where
  "admits_all dataMap st \<longleftrightarrow> (\<forall>k d. map_of dataMap k = Some d \<longrightarrow> admits d (st k))"

lemma admits_all_update:
  "admits_all (AList.update k d dataMap) st \<longleftrightarrow>
     admits d (st k) \<and> (\<forall>k' d'. k' \<noteq> k \<longrightarrow> map_of dataMap k' = Some d' \<longrightarrow> admits d' (st k'))"
  by (auto simp: admits_all_def)

lemma internal_loop:
  assumes "list_all typed_mop mops" "no_magic mops"
  shows "\<exists>r. opInternalCase_loop op dataMap mops = Some r \<and>
    (r = None \<longleftrightarrow> (\<exists>st. admits_all dataMap st \<and> exec_mops mops st \<noteq> None))"
  using assms
proof (induction mops arbitrary: dataMap)
  case Nil
  have "\<exists>xs. admits d xs" for d by (auto simp: admits_def)
  then obtain f where "\<And>d. admits d (f d)" by metis
  then have "admits_all dataMap (\<lambda>k. f (the (map_of dataMap k)))" by (simp add: admits_all_def)
  then show ?case by auto
next
  case (Cons mop mops)
  let ?k = "GetKey mop"
  from Cons.prems have tm: "typed_mop mop" and rest: "list_all typed_mop mops" "no_magic mops"
    and nm: "appended mop \<noteq> unknownPrefixMagicNumber" "reads_of mop = [] \<or> hd (reads_of mop) \<noteq> unknownPrefixMagicNumber"
    by (auto simp: no_magic_def)
  note IH = Cons.IH [OF rest]
  from tm show ?case
  proof (cases rule: typed_cases)
    case (append v)
    let ?d = "case map_of dataMap ?k of None \<Rightarrow> [unknownPrefixMagicNumber] | Some d \<Rightarrow> d"
    let ?dm = "AList.update ?k (?d @ [v]) dataMap"
    have step: "opInternalCase_loop op dataMap (mop # mops) = opInternalCase_loop op ?dm mops"
      using append by (simp add: Let_def)
    have ex: "exec_mops (mop # mops) st = exec_mops mops (st(?k := st ?k @ [v]))" for st
      using append by (simp add: exec_mop_def)
    have fwd: "admits_all ?dm (st(?k := st ?k @ [v]))" if "admits_all dataMap st" for st
      using that nm(1) append
      by (auto simp: admits_all_update admits_snoc admits_all_def split: option.splits)
    have bwd: "\<exists>st0. admits_all dataMap st0 \<and> st = st0(?k := st0 ?k @ [v])" if "admits_all ?dm st" for st
    proof -
      from that nm(1) append obtain xs where xs: "st ?k = xs @ [v]" "admits ?d xs"
        by (auto simp: admits_all_update admits_snoc)
      with that have "admits_all dataMap (st(?k := xs))" "st = (st(?k := xs))(?k := (st(?k := xs)) ?k @ [v])"
        by (auto simp: admits_all_update admits_all_def)
      then show ?thesis by blast
    qed
    from IH [of ?dm] fwd bwd show ?thesis unfolding step ex by metis
  next
    case (read vs)
    let ?dm = "AList.update ?k vs dataMap"
    have ex: "exec_mops (mop # mops) st = (if st ?k = vs then exec_mops mops st else None)" for st
      using read by (simp add: exec_mop_def)
    have dm: "admits_all ?dm st \<longleftrightarrow> st ?k = vs \<and> (\<forall>k' d'. k' \<noteq> ?k \<longrightarrow> map_of dataMap k' = Some d' \<longrightarrow> admits d' (st k'))" for st
      using nm(2) read by (auto simp: admits_all_update admits_exact)
    show ?thesis
    proof (cases "\<exists>d. map_of dataMap ?k = Some d \<and> internal_conflict d vs")
      case True
      then obtain d where d: "map_of dataMap ?k = Some d" "\<not> admits d vs" by (auto simp: internal_conflict_iff)
      with read have "opInternalCase_loop op dataMap (mop # mops) = Some (Some (InternalConflict op mop (MV_ints d)))"
        by (simp add: internal_conflict_iff)
      moreover have "\<not> (admits_all dataMap st \<and> exec_mops (mop # mops) st \<noteq> None)" for st
        using d unfolding ex by (auto simp: admits_all_def split: if_splits)
      ultimately show ?thesis by blast
    next
      case False
      have step: "opInternalCase_loop op dataMap (mop # mops) = opInternalCase_loop op ?dm mops"
        using read False by (auto split: option.splits)
      have "admits_all ?dm st \<longleftrightarrow> admits_all dataMap st \<and> st ?k = vs" for st
        unfolding dm unfolding admits_all_def [of dataMap] using False [unfolded internal_conflict_iff] by metis
      with IH [of ?dm] show ?thesis unfolding step ex by auto
    qed
  qed
qed

lemma opInternalCase_spec:
  assumes "typed_op op" "no_magic (mops_of op)"
  shows "\<exists>r. opInternalCase op = Some r \<and> (r = None \<longleftrightarrow> (\<exists>st. exec_mops (mops_of op) st \<noteq> None))"
proof -
  have "admits_all [] st" for st by (simp add: admits_all_def)
  with internal_loop [of "mops_of op" op "[]"] assms show ?thesis
    by (auto simp: opInternalCase_def typed_op_def mops_of_Some)
qed

text \<open>C3. \<open>opInternalCase\<close> decides internal consistency of a transaction of at least one micro-operation, each
  an append of an integer or a read of a list or nil, in which the sentinel -114514 is neither appended nor the
  first element of a read: it returns, and reports no conflict exactly when there is some state of the
  lists from which the micro-operations can be executed in order, every read returning the list as the earlier
  appends of the transaction left it. (With the sentinel it misses conflicts, \<open>sentinel_hides_conflict\<close>.)\<close>

theorem opInternalCase_decides:
  assumes "typed_op op" "no_magic (mops_of op)"
  shows "\<exists>r. opInternalCase op = Some r \<and> (r = None \<longleftrightarrow> (\<exists>st. exec_mops (mops_of op) st \<noteq> None))"
  using assms by (rule opInternalCase_spec)

theorem opInternalCase_decides_witness:
  "let good = event 0 1 OpTypeOk [Append ''x'' 3, Read ''x'' (Some [1, 2, 3])];
       bad = event 1 2 OpTypeOk [Append ''x'' 3, Read ''x'' (Some [3, 1])]
   in opInternalCase good = Some None \<and> opInternalCase bad \<noteq> Some None"
proof -
  let ?good = "event 0 1 OpTypeOk [Append ''x'' 3, Read ''x'' (Some [1, 2, 3])]"
  let ?bad = "event 1 2 OpTypeOk [Append ''x'' 3, Read ''x'' (Some [3, 1])]"
  have t: "typed_op ?good" "no_magic (mops_of ?good)" "typed_op ?bad" "no_magic (mops_of ?bad)" by code_simp+
  have "exec_mops (mops_of ?good) (\<lambda>_. [1, 2]) \<noteq> None" by code_simp
  moreover have "exec_mops (mops_of ?bad) st = None" for st
    by (simp add: event_def mops_of_def exec_mop_def mop_defs Append_def Read_def appended_def reads_of_def)
  ultimately show ?thesis
    using opInternalCase_decides [OF t(1,2)] opInternalCase_decides [OF t(3,4)] unfolding Let_def by auto
qed

text \<open>A list that begins with the sentinel is taken for one whose prefix is unknown: two reads that no state
  explains pass.\<close>

theorem sentinel_hides_conflict:
  "let op = event 0 1 OpTypeOk [Read ''x'' (Some [unknownPrefixMagicNumber]), Read ''x'' (Some [5])]
   in opInternalCase op = Some None \<and> (\<forall>st. exec_mops (mops_of op) st = None)"
proof -
  let ?op = "event 0 1 OpTypeOk [Read ''x'' (Some [unknownPrefixMagicNumber]), Read ''x'' (Some [5])]"
  have "opInternalCase ?op = Some None" by code_simp
  moreover have "exec_mops (mops_of ?op) st = None" for st
    by (cases "st ''x'' = [5]") (auto simp: event_def mops_of_def exec_mop_def mop_defs Read_def reads_of_def unknownPrefixMagicNumber_def)
  ultimately show ?thesis by (simp add: Let_def)
qed

end
