(* ===== verification/Serial_Histories.thy ===== *)
theory Serial_Histories
  imports Version_Orders Serial_Semantics
begin

text \<open>
  Histories whose successful transactions took effect one after the other, in the order of their
  completions, and what the dependency graphs of the list-append checker are on them: every
  edge goes forward in that order.
\<close>

section \<open>Serial executions\<close>

definition exec_ops :: "History \<Rightarrow> list_store \<Rightarrow> list_store option" where
  "exec_ops = foldM (\<lambda>op. exec_mops (mops_of op))"

lemma exec_ops_append: "exec_ops (xs @ ys) st = do { st' \<leftarrow> exec_ops xs st; exec_ops ys st' }"
  by (simp add: exec_ops_def foldM_append)

lemma exec_ops_store: "exec_ops ops st = Some st' \<Longrightarrow> st' k = st k @ committed k ops"
proof (induction ops arbitrary: st)
  case (Cons op ops)
  then obtain st1 where "exec_mops (mops_of op) st = Some st1" "exec_ops ops st1 = Some st'"
    by (auto simp: exec_ops_def split: Option.bind_splits)
  with Cons.IH exec_mops_store show ?case by fastforce
qed (simp add: exec_ops_def)

text \<open>What a serial read returns: all that was committed before, and what its own transaction appended.\<close>

lemma exec_ops_read:
  assumes "exec_ops (xs @ op # ys) (\<lambda>_. []) = Some st'" "mop \<in> set (mops_of op)" "IsRead mop"
  obtains ms1 ms2 where "mops_of op = ms1 @ mop # ms2"
    "reads_of mop = committed (GetKey mop) xs @ appends_to (GetKey mop) ms1"
proof -
  from assms(2) obtain ms1 ms2 where ms: "mops_of op = ms1 @ mop # ms2" by (meson split_list)
  from assms(1) obtain st1 st2 where st: "exec_ops xs (\<lambda>_. []) = Some st1" "exec_mops (mops_of op) st1 = Some st2"
    by (auto simp: exec_ops_append) (auto simp: exec_ops_def split: Option.bind_splits)
  from exec_mops_read [OF st(2) [unfolded ms] assms(3)] exec_ops_store [OF st(1), of "GetKey mop"]
  show ?thesis using that ms by simp
qed

section \<open>Serial histories\<close>

text \<open>
  A history of invocations, successes and failures whose events are typed, in which only successes
  carry the result of reads, no value is appended twice or equal to a magic number, a completion
  has an outstanding invocation of its process with the same appends, and the successful
  transactions execute one after the other.
\<close>

definition completed_appends :: "History \<Rightarrow> (string \<times> int) list" where
  "completed_appends h =
     concat (map (\<lambda>op. appends (mops_of op)) (filter (\<lambda>op. op_Type op \<noteq> OpTypeInvoke) h))"

definition paired_appends :: "History \<Rightarrow> bool" where
  "paired_appends h =
     (case pair_history h of
        None \<Rightarrow> False
      | Some pair \<Rightarrow> list_all (\<lambda>op. op_Type op = OpTypeInvoke \<or>
          appends (mops_of (get_or zero_Op pair op)) = appends (mops_of op)) h)"

definition serial_history :: "History \<Rightarrow> bool" where
  "serial_history h \<longleftrightarrow>
     typed_history h \<and> numbered h \<and>
     list_all (\<lambda>op. op_Type op \<in> {OpTypeInvoke, OpTypeOk, OpTypeFail}) h \<and>
     list_all (\<lambda>op. op_Type op = OpTypeOk \<or> list_all (\<lambda>mop. reads_of mop = []) (mops_of op)) h \<and>
     list_all (\<lambda>(k, v). v \<noteq> unknownPrefixMagicNumber \<and> MV_int v \<noteq> initMagicNumber) (completed_appends h) \<and>
     distinct (invoked_appends h) \<and> distinct (completed_appends h) \<and> paired_appends h \<and>
     exec_ops (FilterOkHistory h) (\<lambda>_. []) \<noteq> None"

lemma serial_historyD:
  assumes "serial_history h"
  shows "typed_history h" "numbered h"
    "op \<in> set h \<Longrightarrow> op_Type op = OpTypeInvoke \<or> op_Type op = OpTypeOk \<or> op_Type op = OpTypeFail"
    "\<lbrakk>op \<in> set h; op_Type op \<noteq> OpTypeOk; mop \<in> set (mops_of op)\<rbrakk> \<Longrightarrow> reads_of mop = []"
    "(k, v) \<in> set (completed_appends h) \<Longrightarrow> v \<noteq> unknownPrefixMagicNumber \<and> MV_int v \<noteq> initMagicNumber"
    "distinct (invoked_appends h)" "distinct (completed_appends h)"
    "\<exists>pair. pair_history h = Some pair \<and> (\<forall>op \<in> set h. op_Type op \<noteq> OpTypeInvoke \<longrightarrow>
       appends (mops_of (get_or zero_Op pair op)) = appends (mops_of op))"
    "\<exists>st. exec_ops (FilterOkHistory h) (\<lambda>_. []) = Some st"
  using assms
  by (auto simp: serial_history_def list_all_iff paired_appends_def split: option.splits)

lemma set_completed: "op \<in> set h \<Longrightarrow> op_Type op \<noteq> OpTypeInvoke \<Longrightarrow> v \<in> set (appends_to k (mops_of op)) \<Longrightarrow>
    (k, v) \<in> set (completed_appends h)"
  by (auto simp: completed_appends_def set_appends)

lemma appended_once:
  assumes "distinct (concat (map (\<lambda>op. appends (mops_of op)) ops))" "a \<in> set ops" "b \<in> set ops"
    and "v \<in> set (appends_to k (mops_of a))" "v \<in> set (appends_to k (mops_of b))"
  shows "a = b"
proof (rule ccontr)
  assume ne: "a \<noteq> b"
  have "x \<in> set xs \<Longrightarrow> y \<in> set xs \<Longrightarrow> x \<noteq> y \<Longrightarrow> distinct (concat (map f xs)) \<Longrightarrow> set (f x) \<inter> set (f y) = {}"
    for x y xs and f :: "Op \<Rightarrow> (string \<times> int) list"
    by (induction xs) auto
  from this [OF assms(2,3) ne assms(1)] assms(4,5) show False by (auto simp flip: set_appends)
qed

lemma completed_unique:
  assumes "distinct (completed_appends h)" "a \<in> set h" "b \<in> set h" "op_Type a \<noteq> OpTypeInvoke" "op_Type b \<noteq> OpTypeInvoke"
    and "v \<in> set (appends_to k (mops_of a))" "v \<in> set (appends_to k (mops_of b))"
  shows "a = b"
  by (rule appended_once [OF assms(1) [unfolded completed_appends_def] _ _ assms(6,7)]) (use assms(2-5) in auto)

lemma invoked_unique:
  assumes "distinct (invoked_appends h)" "a \<in> set h" "b \<in> set h" "op_Type a = OpTypeInvoke" "op_Type b = OpTypeInvoke"
    and "v \<in> set (appends_to k (mops_of a))" "v \<in> set (appends_to k (mops_of b))"
  shows "a = b"
  by (rule appended_once [OF assms(1) [unfolded invoked_appends_def] _ _ assms(6,7)]) (use assms(2-5) in auto)

lemma distinct_committed: "distinct (completed_appends h) \<Longrightarrow> distinct (committed k (FilterOkHistory h))"
proof -
  assume d: "distinct (completed_appends h)"
  have ap: "appends_to k ms = map snd (filter (\<lambda>p. fst p = k) (appends ms))" for ms
    by (induction ms) (auto simp: appends_to_def appends_def)
  let ?all = "\<lambda>h. concat (map (\<lambda>op. appends (mops_of op)) h)"
  have c: "committed k h' = map snd (filter (\<lambda>p. fst p = k) (?all h'))" for h'
    by (induction h') (auto simp: ap)
  have sub: "distinct (?all xs) \<Longrightarrow> distinct (?all (filter P xs))" for P xs
    by (induction xs) auto
  have "FilterOkHistory h = filter (\<lambda>op. op_Type op = OpTypeOk) (filter (\<lambda>op. op_Type op \<noteq> OpTypeInvoke) h)"
    by (auto simp: FilterOkHistory_def intro: filter_cong)
  with sub d have "distinct (?all (FilterOkHistory h))" by (metis completed_appends_def)
  then show ?thesis unfolding c by (auto simp: distinct_map inj_on_def)
qed

section \<open>The order of the completions\<close>

text \<open>\<open>a\<close> took effect before \<open>b\<close>: the part of the committed lists that each contributes.\<close>

abbreviation oks :: "History \<Rightarrow> History" where
  "oks h \<equiv> FilterOkHistory h"

lemma in_oks [simp]: "op \<in> set (oks h) \<longleftrightarrow> op \<in> set h \<and> op_Type op = OpTypeOk"
  by (auto simp: FilterOkHistory_def)

lemma oks_order:
  assumes "numbered h" "a \<in> set (oks h)" "b \<in> set (oks h)" "a \<noteq> b" "\<not> op_idx a < op_idx b"
  obtains xs ys zs where "oks h = xs @ b # ys @ a # zs"
proof -
  from split_list [OF assms(3)] obtain us vs where uv: "oks h = us @ b # vs" by blast
  have "numbered (us @ b # vs)" using numbered_filter [OF assms(1)] uv [symmetric] by (simp add: FilterOkHistory_def)
  then have "\<forall>x \<in> set us. op_idx x < op_idx b" by (auto simp: numbered_def sorted_wrt_append)
  with assms(2,4,5) uv have "a \<in> set vs" by (metis Un_iff set_ConsD set_append)
  with split_list obtain ys zs where "vs = ys @ a # zs" by metis
  with uv show ?thesis using that by simp
qed

text \<open>In a list without repetitions, what comes later in one way of cutting it comes later in every.\<close>

lemma no_swap:
  assumes "distinct zs" "zs = u @ p # w" "v \<in> set w" "zs = A @ B" "v \<in> set A" "p \<in> set B"
  shows False
proof -
  from assms(2,4) consider us where "u = A @ us" | us where "A = u @ us" "us @ B = p # w"
    by (metis append_eq_append_conv2)
  then show False
  proof cases
    case 1 with assms(1,2,3,5) show False by auto
  next
    case 2 with assms show False by (cases us) auto
  qed
qed

text \<open>What a serial history says about a successful read and about the writers of its elements.\<close>

lemma serial_read:
  assumes S: "serial_history h" and mop: "mop \<in> set (mops_of op)" "IsRead mop" and oks: "oks h = xs @ op # ys"
  shows "prefix (committed (GetKey mop) xs) (reads_of mop)"
    and "prefix (reads_of mop) (committed (GetKey mop) (xs @ [op]))"
    and "prefix (reads_of mop) (committed (GetKey mop) (oks h))"
proof -
  obtain st where "exec_ops (xs @ op # ys) (\<lambda>_. []) = Some st" using serial_historyD(9) [OF S] oks by auto
  from exec_ops_read [OF this mop] obtain ms1 ms2 where ms: "mops_of op = ms1 @ mop # ms2"
    "reads_of mop = committed (GetKey mop) xs @ appends_to (GetKey mop) ms1" by blast
  then show "prefix (committed (GetKey mop) xs) (reads_of mop)"
    and 2: "prefix (reads_of mop) (committed (GetKey mop) (xs @ [op]))" by (simp_all add: appends_to_append)
  from 2 show "prefix (reads_of mop) (committed (GetKey mop) (oks h))"
    unfolding oks by (simp add: prefix_def) (metis append.assoc)
qed

lemma in_committed: "v \<in> set (committed k h) \<longleftrightarrow> (\<exists>op \<in> set h. v \<in> set (appends_to k (mops_of op)))"
  by (auto simp: committed_def)

lemma serial_writer_unique:
  assumes "serial_history h" "a \<in> set (oks h)" "b \<in> set (oks h)"
    "v \<in> set (appends_to k (mops_of a))" "v \<in> set (appends_to k (mops_of b))"
  shows "a = b"
  using completed_unique [OF serial_historyD(7) [OF assms(1)], of a b v k] assms(2-5) by simp

text \<open>Three ways in which one transaction precedes another.\<close>

lemma ww_forward:
  assumes S: "serial_history h" and ab: "a \<in> set (oks h)" "b \<in> set (oks h)" "a \<noteq> b"
    and v: "p \<in> set (appends_to k (mops_of a))" "v \<in> set (appends_to k (mops_of b))"
    and c: "committed k (oks h) = u @ p # w" "v \<in> set w"
  shows "op_idx a < op_idx b"
proof (rule ccontr)
  assume "\<not> op_idx a < op_idx b"
  from oks_order [OF serial_historyD(2) [OF S] ab this] obtain xs ys zs where "oks h = xs @ b # ys @ a # zs" .
  then have split: "committed k (oks h) = committed k (xs @ [b]) @ committed k (ys @ a # zs)" by simp
  show False
    by (rule no_swap [OF distinct_committed [OF serial_historyD(7) [OF S]] c split]) (use v in simp_all)
qed

lemma wr_forward:
  assumes S: "serial_history h" and ab: "a \<in> set (oks h)" "b \<in> set (oks h)" "a \<noteq> b"
    and r: "mop \<in> set (mops_of b)" "IsRead mop" "v \<in> set (reads_of mop)" "v \<in> set (appends_to (GetKey mop) (mops_of a))"
  shows "op_idx a < op_idx b"
proof (rule ccontr)
  assume "\<not> op_idx a < op_idx b"
  from oks_order [OF serial_historyD(2) [OF S] ab this] obtain xs ys zs where o: "oks h = xs @ b # ys @ a # zs" .
  from serial_read(2) [OF S r(1,2) o] r(3) have "v \<in> set (committed (GetKey mop) (xs @ [b]))"
    by (meson set_mono_prefix subsetD)
  then obtain w where "w \<in> set (xs @ [b])" "v \<in> set (appends_to (GetKey mop) (mops_of w))" by (auto simp: in_committed)
  moreover have "distinct (oks h)"
    using numbered_distinct [OF numbered_filter [OF serial_historyD(2) [OF S]]] by (simp add: FilterOkHistory_def)
  ultimately show False
    using serial_writer_unique [OF S, of w a v] ab(1) r(4) o by auto
qed

lemma rw_forward:
  assumes S: "serial_history h" and ab: "a \<in> set (oks h)" "b \<in> set (oks h)" "a \<noteq> b"
    and r: "mop \<in> set (mops_of a)" "IsRead mop" and v: "v \<in> set (appends_to (GetKey mop) (mops_of b))"
    and c: "v \<notin> set (reads_of mop)"
  shows "op_idx a < op_idx b"
proof (rule ccontr)
  assume "\<not> op_idx a < op_idx b"
  from oks_order [OF serial_historyD(2) [OF S] ab this] obtain xs ys zs where "oks h = xs @ b # ys @ a # zs" .
  then have o: "oks h = (xs @ b # ys) @ a # zs" by simp
  from serial_read(1) [OF S r o] v have "v \<in> set (reads_of mop)" by (auto simp: prefix_def)
  with c show False by simp
qed

end
