(* ===== verification/Serial_Graphs.thy ===== *)
theory Serial_Graphs
  imports Serial_Histories
begin

text \<open>
  The three dependency graphs of the list-append checker on a serial history: the analyzers do not
  panic, and every edge leads from a successful transaction to one that completed later.
\<close>

section \<open>Indices of a serial history\<close>

definition read_in_index :: "History \<Rightarrow> readIdx \<Rightarrow> bool" where
  "read_in_index h ri \<longleftrightarrow> (\<forall>k x. \<forall>r \<in> set (get_or [] (get_or [] ri k) x). r \<in> set h \<and>
     (\<exists>mop \<in> set (mops_of r). IsRead mop \<and> GetKey mop = k \<and> last_version (reads_of mop) = x))"

lemma readIndex_spec:
  assumes "typed_history h"
  shows "\<exists>ri. readIndex h = Some ri \<and> read_in_index h ri"
  unfolding readIndex_def
proof (rule foldM_inv)
  fix op ri assume op: "op \<in> set h" and I: "read_in_index h ri"
  obtain p where p: "op_Value op = Some (p, mops_of op)" using op_Value_typed [OF assms op] by blast
  have "\<exists>ri'. foldM (\<lambda>mop indexRead.
         if \<not> IsRead mop then Some indexRead
         else do {
           v \<leftarrow> read_values mop;
           if op_Type op = OpTypeInfo \<and> length v = 0 then Some indexRead
           else (let m = get_or [] indexRead (GetKey mop)
                 in Some (AList.update (GetKey mop)
                      (AList.update (last_version v) (get_or [] m (last_version v) @ [op]) m) indexRead)) })
       (mops_of op) ri = Some ri' \<and> read_in_index h ri'"
  proof (rule foldM_inv [where I = "read_in_index h" and s = ri])
    show "read_in_index h ri" by (rule I)
    fix mop m assume mop: "mop \<in> set (mops_of op)" and I: "read_in_index h m"
    have "IsRead mop \<Longrightarrow> read_values mop = Some (reads_of mop)"
      using typed_read typed_historyD(3) [OF assms op mop] by blast
    with I op mop show "\<exists>v. (if \<not> IsRead mop then Some m
         else do {
           v \<leftarrow> read_values mop;
           if op_Type op = OpTypeInfo \<and> length v = 0 then Some m
           else (let m' = get_or [] m (GetKey mop)
                 in Some (AList.update (GetKey mop)
                      (AList.update (last_version v) (get_or [] m' (last_version v) @ [op]) m') m)) }) = Some v \<and> read_in_index h v"
      by (auto simp: read_in_index_def Let_def)
  qed
  with p show "\<exists>v. (case op_Value op of None \<Rightarrow> Some ri | Some (_, mops) \<Rightarrow> foldM (\<lambda>mop indexRead.
         if \<not> IsRead mop then Some indexRead
         else do {
           v \<leftarrow> read_values mop;
           if op_Type op = OpTypeInfo \<and> length v = 0 then Some indexRead
           else (let m = get_or [] indexRead (GetKey mop)
                 in Some (AList.update (GetKey mop)
                      (AList.update (last_version v) (get_or [] m (last_version v) @ [op]) m) indexRead)) })
       mops ri) = Some v \<and> read_in_index h v" by simp
qed (simp add: read_in_index_def)

lemma serial_ok_info: "serial_history h \<Longrightarrow> FilterOkOrInfoHistory h = oks h"
  unfolding FilterOkOrInfoHistory_def FilterOkHistory_def
  by (rule filter_cong) (auto dest: serial_historyD(3))

lemma typed_oks: "serial_history h \<Longrightarrow> typed_history (oks h)"
  by (simp add: FilterOkHistory_def typed_filter serial_historyD(1))

text \<open>Every list that was read of a key is a prefix of what was committed to it; so are the version
  orders, whatever part of the history they are computed from.\<close>

lemma version_prefix:
  assumes S: "serial_history h" and h': "set h' \<subseteq> set h" and x: "x \<in> version_lists (all_mops h') k"
  shows "\<exists>c. x = map MV_int c \<and> prefix c (committed k (oks h))"
proof -
  from x obtain op mop where mop: "op \<in> set h'" "mop \<in> set (mops_of op)" "IsRead mop" "GetKey mop = k"
    "reads_of mop \<noteq> []" "x = map MV_int (reads_of mop)"
    by (auto simp: version_lists_def in_all_mops)
  with h' serial_historyD(4) [OF S] have "op \<in> set (oks h)" by auto
  then obtain xs ys where "oks h = xs @ op # ys" by (meson split_list)
  from serial_read(3) [OF S mop(2,3) this] mop(4,6) show ?thesis by blast
qed

text \<open>The version order of one key, as far as it matters for a serial history: a part of what was
  committed, or the only append to the key, which may be one that never completed.\<close>

definition key_order :: "History \<Rightarrow> History \<Rightarrow> string \<Rightarrow> MopValueType list \<Rightarrow> bool" where
  "key_order h h' k order \<longleftrightarrow>
     (\<exists>c. order = map MV_int c \<and> prefix c (committed k (oks h))) \<or> (\<exists>i. committed k h' = [i] \<and> order = [MV_int i])"

lemma key_order_oks: "key_order h (oks h) k order \<Longrightarrow> \<exists>c. order = map MV_int c \<and> prefix c (committed k (oks h))"
  by (auto simp: key_order_def) (metis list.simps(8,9) prefix_order.refl)

lemma serial_lists:
  assumes S: "serial_history h" and sub: "set h' \<subseteq> set h" and o: "order_lists h' k vs"
  shows "chain (set vs)" and "x \<in> set vs \<Longrightarrow> key_order h h' k x"
proof -
  from o consider "set vs \<subseteq> version_lists (all_mops h') k" | i where "committed k h' = [i]" "vs = [[MV_int i]]"
    by (auto simp: order_lists_def)
  then have "chain (set vs) \<and> (\<forall>x \<in> set vs. key_order h h' k x)"
  proof cases
    case 1
    then have c: "\<exists>c. x = map MV_int c \<and> prefix c (committed k (oks h))" if "x \<in> set vs" for x
      using that version_prefix [OF S sub] by blast
    then have "chain (set vs)" unfolding chain_def by (metis map_mono_prefix prefix_same_cases)
    with c show ?thesis by (auto simp: key_order_def)
  next
    case 2
    then show ?thesis by (auto simp: chain_def key_order_def)
  qed
  then show "chain (set vs)" and "x \<in> set vs \<Longrightarrow> key_order h h' k x" by blast+
qed

lemma serial_versions:
  assumes S: "serial_history h" and h': "h' = h \<or> h' = oks h"
  shows "\<exists>sv ai. sortedValues \<rho> h' = Some sv \<and> appendIndex \<rho>' sv = Some ai \<and>
    (\<forall>k. key_order h h' k (get_or [] ai k)) \<and> incompatibleOrders \<rho>'' sv = []"
proof -
  have t: "typed_history h'" and sub: "set h' \<subseteq> set h"
    using h' serial_historyD(1) [OF S] typed_oks [OF S] by auto
  obtain sv where sv: "sortedValues \<rho> h' = Some sv" "wf_map sv"
    "\<And>k vs. (k, vs) \<in> set sv \<Longrightarrow> order_lists h' k vs \<and> sorted_wrt (\<lambda>x y. length x \<le> length y) vs"
    using sortedValues_spec [OF t] by blast
  note L = serial_lists [OF S sub]
  have ch: "\<forall>(k, vs) \<in> set sv. chain (set vs) \<and> vs \<noteq> []"
    using sv(3) L(1) unfolding order_lists_def by blast
  obtain ai where ai: "appendIndex \<rho>' sv = Some ai" "keys ai = keys sv"
    "\<And>k vs. (k, vs) \<in> set sv \<Longrightarrow> \<exists>order \<in> set vs. map_of ai k = Some order"
    using appendIndex_spec [OF sv(2) ch, of \<rho>'] by blast
  have "key_order h h' k (get_or [] ai k)" for k
  proof (cases "k \<in> keys sv")
    case True
    then obtain vs where kv: "(k, vs) \<in> set sv" by (auto simp: in_keys_map_of dest: map_of_SomeD)
    from ai(3) [OF kv] obtain order where "order \<in> set vs" "map_of ai k = Some order" by blast
    with L(2) [of k vs order] sv(3) [OF kv] show ?thesis by (simp add: get_or_def)
  next
    case False
    then show ?thesis using ai(2) by (auto simp: get_or_no_key key_order_def)
  qed
  moreover have "incompatibleOrders \<rho>'' sv = []"
  proof -
    have *: "get_or [] sv k = [] \<or> (k, get_or [] sv k) \<in> set sv" for k
      by (auto simp: get_or_def split: option.splits dest: map_of_SomeD)
    have "\<forall>k. sorted_wrt (\<lambda>x y. length x \<le> length y) (get_or [] sv k)" using * sv(3) by (metis sorted_wrt.simps(1))
    moreover have "\<forall>k. chain (set (get_or [] sv k))" using * ch by (fastforce simp: chain_def)
    ultimately show ?thesis by (simp add: incompatibleOrders_spec)
  qed
  ultimately show ?thesis using sv(1) ai(1) by blast
qed

definition serial_index :: "History \<Rightarrow> appendIdx \<Rightarrow> writeIdx \<Rightarrow> readIdx \<Rightarrow> bool" where
  "serial_index h ai wi ri \<longleftrightarrow>
     (\<forall>k. \<exists>c. get_or [] ai k = map MV_int c \<and> prefix c (committed k (oks h))) \<and>
     (\<forall>k v. writer wi k v = last_event (\<lambda>op. v \<in> set (appends_to k (mops_of op))) (oks h)) \<and>
     read_in_index (oks h) ri"

lemma serial_preprocess:
  assumes "serial_history h"
  shows "\<exists>ai wi ri. preprocess \<rho> h = Some (oks h, ai, wi, ri) \<and> serial_index h ai wi ri"
proof -
  have u: "verifyUniqueAppends h = Some ()"
    using serial_historyD(1,6) [OF assms] by (simp add: verifyUniqueAppends_spec)
  obtain sv ai where ai: "sortedValues (sub \<rho> 0) (oks h) = Some sv" "appendIndex (sub \<rho> 1) sv = Some ai"
    "\<forall>k. key_order h (oks h) k (get_or [] ai k)" using serial_versions [OF assms, of "oks h"] by blast
  obtain wi where wi: "writeIndex (oks h) = Some wi"
    "\<forall>k v. writer wi k v = last_event (\<lambda>op. v \<in> set (appends_to k (mops_of op))) (oks h)"
    using writeIndex_writer [OF typed_oks [OF assms]] by blast
  obtain ri where "readIndex (oks h) = Some ri" "read_in_index (oks h) ri"
    using readIndex_spec [OF typed_oks [OF assms]] by blast
  with u ai wi show ?thesis
    by (auto simp: preprocess_def serial_ok_info [OF assms] serial_index_def dest: key_order_oks)
qed

section \<open>Dependencies point forward\<close>

definition forward :: "History \<Rightarrow> Vertex \<Rightarrow> Vertex \<Rightarrow> bool" where
  "forward h a b \<longleftrightarrow> (\<exists>x. a = VOp x \<and> x \<in> set (oks h) \<and> (\<forall>y. b = VOp y \<longrightarrow> y \<in> set (oks h) \<longrightarrow> op_idx x < op_idx y))"

lemma index_of_split:
  "case index_of (\<lambda>x. x = v) xs of
     None \<Rightarrow> v \<notin> set xs
   | Some i \<Rightarrow> i < length xs \<and> xs ! i = v"
  by (induction xs) (auto split: option.splits)

lemma index_of_map: "inj f \<Longrightarrow> index_of (\<lambda>x. x = f v) (map f xs) = index_of (\<lambda>x. x = v) xs"
  by (induction xs) (auto simp: inj_eq)

lemma previous_cases:
  assumes mop: "typed_mop mop" "IsAppend mop" and c: "get_or [] ai (GetKey mop) = map MV_int c"
  obtains (absent) "previouslyAppendElement ai op mop = Some MV_nil"
  | (first) w where "previouslyAppendElement ai op mop = Some initMagicNumber" "c = appended mop # w"
  | (after) u p w where "previouslyAppendElement ai op mop = Some (MV_int p)" "c = u @ p # appended mop # w"
proof -
  let ?v = "appended mop"
  have i: "index_of (\<lambda>x. x = MV_int ?v) (map MV_int c) = index_of (\<lambda>x. x = ?v) c"
    by (rule index_of_map) (simp add: inj_def)
  have v: "GetValue mop = MV_int ?v" using typed_append [OF mop] .
  show ?thesis
  proof (cases "index_of (\<lambda>x. x = ?v) c")
    case None
    then show ?thesis using absent mop(2) v c i by (simp add: previouslyAppendElement_def)
  next
    case (Some n)
    with index_of_split [of ?v c] have n: "n < length c" "c ! n = ?v" by simp_all
    show ?thesis
    proof (cases n)
      case 0
      with n have "c = ?v # tl c" by (cases c) auto
      then show ?thesis using first mop(2) v c i Some 0 by (simp add: previouslyAppendElement_def)
    next
      case (Suc m)
      with n have "c = take m c @ c ! m # ?v # drop (Suc (Suc m)) c"
        by (metis Cons_nth_drop_Suc Suc_lessD append_take_drop_id)
      moreover have "previouslyAppendElement ai op mop = Some (MV_int (c ! m))"
        using mop(2) v c i Some Suc n by (simp add: previouslyAppendElement_def)
      ultimately show ?thesis using after by blast
    qed
  qed
qed

lemma serial_writer:
  assumes "serial_index h ai wi ri" "map_of (get_or [] wi k) (MV_int v) = Some w"
  shows "w \<in> set (oks h)" "v \<in> set (appends_to k (mops_of w))"
  using assms last_event_SomeD [of "\<lambda>op. v \<in> set (appends_to k (mops_of op))" "oks h" w]
  by (auto simp: serial_index_def writer_def)

lemma typed_ok_mop: "\<lbrakk>serial_history h; op \<in> set (oks h); mop \<in> set (mops_of op)\<rbrakk> \<Longrightarrow> typed_mop mop"
  using typed_historyD(3) [OF typed_oks] by blast

lemma append_in: "\<lbrakk>mop \<in> set mops; IsAppend mop\<rbrakk> \<Longrightarrow> appended mop \<in> set (appends_to (GetKey mop) mops)"
  by (auto simp: appends_to_def)

lemma serial_order:
  assumes "serial_index h ai wi ri"
  obtains c z where "get_or [] ai k = map MV_int c" "committed k (oks h) = c @ z"
  using assms unfolding serial_index_def prefix_def by meson

lemma wwMopDep_forward:
  assumes S: "serial_history h" and I: "serial_index h ai wi ri"
    and op: "op \<in> set (oks h)" and mop: "mop \<in> set (mops_of op)" "IsAppend mop"
  shows "\<exists>d. wwMopDep ai wi op mop = Some d \<and> (\<forall>w. d = Some w \<longrightarrow> forward h (VOp w) (VOp op))"
proof -
  obtain c z where c: "get_or [] ai (GetKey mop) = map MV_int c" "committed (GetKey mop) (oks h) = c @ z"
    using serial_order [OF I] by blast
  have t: "typed_mop mop" using typed_ok_mop [OF S op mop(1)] .
  show ?thesis using t mop(2) c(1)
  proof (cases rule: previous_cases [of mop ai c op])
    case (after u p w)
    have "forward h (VOp d) (VOp op)" if "map_of (get_or [] wi (GetKey mop)) (MV_int p) = Some d" "d \<noteq> op" for d
      using ww_forward [OF S serial_writer(1) [OF I that(1)] op that(2) serial_writer(2) [OF I that(1)] append_in [OF mop],
          of u "appended mop # w @ z"] c(2) after(2) serial_writer(1) [OF I that(1)] op
      by (simp add: forward_def)
    then show ?thesis using after(1)
      by (auto simp: wwMopDep_def get_or_def split: option.splits)
  qed (auto simp: wwMopDep_def)
qed

lemma wrMopDep_forward:
  assumes S: "serial_history h" and I: "serial_index h ai wi ri"
    and op: "op \<in> set (oks h)" and mop: "mop \<in> set (mops_of op)" "IsRead mop"
  shows "\<exists>d. wrMopDep wi op mop = Some d \<and> (\<forall>w. d = Some w \<longrightarrow> forward h (VOp w) (VOp op))"
proof -
  have t: "read_values mop = Some (reads_of mop)" using typed_read [OF typed_ok_mop [OF S op mop(1)] mop(2)] .
  have "forward h (VOp d) (VOp op)"
    if "map_of (get_or [] wi (GetKey mop)) (MV_int (last (reads_of mop))) = Some d" "d \<noteq> op" "reads_of mop \<noteq> []" for d
    using wr_forward [OF S serial_writer(1) [OF I that(1)] op that(2) mop last_in_set [OF that(3)] serial_writer(2) [OF I that(1)]]
      serial_writer(1) [OF I that(1)] by (simp add: forward_def)
  with t mop(2) show ?thesis by (auto simp: wrMopDep_def split: option.splits)
qed

lemma read_committed:
  assumes "serial_history h" "r \<in> set (oks h)" "mop \<in> set (mops_of r)" "IsRead mop"
  shows "prefix (reads_of mop) (committed (GetKey mop) (oks h))"
    and "v \<in> set (reads_of mop) \<Longrightarrow> MV_int v \<noteq> initMagicNumber \<and> v \<noteq> unknownPrefixMagicNumber"
proof -
  from assms(2) obtain xs ys where "oks h = xs @ r # ys" by (meson split_list)
  from serial_read(3) [OF assms(1,3,4) this] show p: "prefix (reads_of mop) (committed (GetKey mop) (oks h))" .
  assume "v \<in> set (reads_of mop)"
  with p have "v \<in> set (committed (GetKey mop) (oks h))" by (meson set_mono_prefix subsetD)
  then obtain w where "w \<in> set (oks h)" "v \<in> set (appends_to (GetKey mop) (mops_of w))" by (auto simp: in_committed)
  then have "(GetKey mop, v) \<in> set (completed_appends h)" by (intro set_completed) auto
  then show "MV_int v \<noteq> initMagicNumber \<and> v \<noteq> unknownPrefixMagicNumber" using serial_historyD(5) [OF assms(1)] by blast
qed

text \<open>A transaction that read the version just before an append did not see the append.\<close>

lemma unseen:
  assumes S: "serial_history h" and r: "r \<in> set (oks h)" "mop \<in> set (mops_of r)" "IsRead mop"
    and v: "committed (GetKey mop) (oks h) = u @ p # v # w" "last_version (reads_of mop) = MV_int p" "MV_int p \<noteq> initMagicNumber"
  shows "v \<notin> set (reads_of mop)"
proof
  assume in_read: "v \<in> set (reads_of mop)"
  then have "reads_of mop \<noteq> []" by auto
  with v(2) have p: "reads_of mop = butlast (reads_of mop) @ [p]"
    by (simp add: last_version_def) (metis append_butlast_last_id)
  obtain z where z: "committed (GetKey mop) (oks h) = reads_of mop @ z" using read_committed(1) [OF S r] by (auto simp: prefix_def)
  have d: "distinct (committed (GetKey mop) (oks h))" using distinct_committed [OF serial_historyD(7) [OF S]] .
  with v(1) have "v \<noteq> p" by auto
  with in_read p have "v \<in> set (butlast (reads_of mop))" by (metis Un_iff empty_iff empty_set set_ConsD set_append)
  moreover have "committed (GetKey mop) (oks h) = butlast (reads_of mop) @ (p # z)" using z p by (metis append.assoc append_Cons append_Nil)
  ultimately show False using no_swap [OF d v(1), of v "butlast (reads_of mop)" "p # z"] by simp
qed

lemma rwMopDeps_forward:
  assumes S: "serial_history h" and I: "serial_index h ai wi ri"
    and op: "op \<in> set (oks h)" and mop: "mop \<in> set (mops_of op)" "IsAppend mop"
  shows "\<exists>d. rwMopDeps ai ri op mop = Some d \<and> (\<forall>m. d = Some m \<longrightarrow> (\<forall>r \<in> keys m. forward h (VOp r) (VOp op)))"
proof -
  let ?k = "GetKey mop" let ?v = "appended mop"
  obtain c z where c: "get_or [] ai ?k = map MV_int c" "committed ?k (oks h) = c @ z"
    using serial_order [OF I] by blast
  have t: "typed_mop mop" using typed_ok_mop [OF S op mop(1)] .
  have keys: "keys (fold (\<lambda>rop m. if rop = op then m else AList.update rop () m) rs m) = (set rs - {op}) \<union> keys m" for rs m
    by (induction rs arbitrary: m) auto
  have fwd: "forward h (VOp r) (VOp op)"
    if "r \<in> set (get_or [] (get_or [] ri ?k) x)" "r \<noteq> op"
      and unseen: "\<And>m. \<lbrakk>r \<in> set (oks h); m \<in> set (mops_of r); IsRead m; GetKey m = ?k; last_version (reads_of m) = x\<rbrakk> \<Longrightarrow> ?v \<notin> set (reads_of m)"
    for r x
  proof -
    from that(1) I obtain m where m: "r \<in> set (oks h)" "m \<in> set (mops_of r)" "IsRead m" "GetKey m = ?k" "last_version (reads_of m) = x"
      unfolding serial_index_def read_in_index_def by blast
    from rw_forward [OF S m(1) op that(2) m(2,3) _ unseen [OF m]] append_in [OF mop] m(1,4) show ?thesis
      by (simp add: forward_def)
  qed
  show ?thesis using t mop(2) c(1)
  proof (cases rule: previous_cases [of mop ai c op])
    case absent
    then show ?thesis by (auto simp: rwMopDeps_def)
  next
    case (first w)
    have "reads_of m = []" if "r \<in> set (oks h)" "m \<in> set (mops_of r)" "IsRead m" "last_version (reads_of m) = initMagicNumber" for r m
      using read_committed(2) [OF S that(1-3), of "last (reads_of m)"] that(4) by (auto simp: last_version_def split: if_splits)
    then have "forward h (VOp r) (VOp op)" if "r \<in> set (get_or [] (get_or [] ri ?k) initMagicNumber)" "r \<noteq> op" for r
      using fwd [OF that] by fastforce
    with first show ?thesis by (auto simp: rwMopDeps_def keys initMagicNumber_def)
  next
    case (after u p w)
    have cm: "committed ?k (oks h) = u @ p # ?v # w @ z" using c(2) after(2) by simp
    then have "p \<in> set (committed ?k (oks h))" by simp
    then have "(?k, p) \<in> set (completed_appends h)" by (auto simp: in_committed intro: set_completed)
    then have p: "MV_int p \<noteq> initMagicNumber" using serial_historyD(5) [OF S] by blast
    have "forward h (VOp r) (VOp op)" if "r \<in> set (get_or [] (get_or [] ri ?k) (MV_int p))" "r \<noteq> op" for r
      using fwd [OF that] unseen [OF S _ _ _ _ _ p] cm by metis
    with after show ?thesis by (auto simp: rwMopDeps_def keys)
  qed
qed

section \<open>The analyzers\<close>

text \<open>An analyzer that does not panic on the history, finds no anomaly of its own and links only
  forward.\<close>

definition forward_graph :: "History \<Rightarrow> DirectedGraph \<Rightarrow> bool" where
  "forward_graph h g \<longleftrightarrow> wf_graph g \<and> (\<forall>a b r. (a, b, r) \<in> edges g \<longrightarrow> forward h a b)"

definition forward_analyzer :: "History \<Rightarrow> 'o list \<Rightarrow> 'o Analyzer \<Rightarrow> bool" where
  "forward_analyzer h opts A \<longleftrightarrow>
     (\<forall>\<rho>. \<exists>an g e. A \<rho> h opts = Some (an, Some g, e) \<and> read_anomalies an = [] \<and> forward_graph h g)"

lemma forward_graph_New [simp]: "forward_graph h NewDirectedGraph"
  by (simp add: forward_graph_def edges_def)

lemma forward_graph_Link: "\<lbrakk>forward_graph h g; forward h a b\<rbrakk> \<Longrightarrow> forward_graph h (Link a b r g)"
  by (auto simp: forward_graph_def wf_Link edges_Link simp del: in_edges)

lemma forward_graph_LinkAllTo:
  "\<lbrakk>forward_graph h g; \<And>x. x \<in> set xs \<Longrightarrow> forward h x y\<rbrakk> \<Longrightarrow> forward_graph h (LinkAllTo xs y r g)"
  unfolding forward_graph_def by (auto simp: wf_LinkAllTo edges_LinkAllTo simp del: in_edges)

lemma forward_graph_Union:
  "(\<And>g. g \<in> set gs \<Longrightarrow> forward_graph h g) \<Longrightarrow> forward_graph h (DigraphUnion \<rho> gs)"
  unfolding forward_graph_def by (auto simp: wf_DigraphUnion edges_DigraphUnion simp del: in_edges)

lemma deref_oks: "\<lbrakk>serial_history h; op \<in> set (oks h)\<rbrakk> \<Longrightarrow> deref op = Some (mops_of op)"
  using typed_historyD(2) [OF typed_oks] by blast

lemma forward_loop:
  assumes "serial_history h" and "\<And>op mop g. \<lbrakk>op \<in> set (oks h); mop \<in> set (mops_of op); forward_graph h g\<rbrakk> \<Longrightarrow>
      \<exists>g'. f op mop g = Some g' \<and> forward_graph h g'"
  shows "\<exists>g. foldM (\<lambda>op g. do { mops \<leftarrow> deref op; foldM (f op) mops g }) (oks h) NewDirectedGraph = Some g \<and> forward_graph h g"
proof (rule foldM_inv [where I = "forward_graph h"])
  fix op g assume op: "op \<in> set (oks h)" and g: "forward_graph h g"
  have "\<exists>g'. foldM (f op) (mops_of op) g = Some g' \<and> forward_graph h g'"
    by (rule foldM_inv [where I = "forward_graph h"]) (use assms(2) [OF op] g in auto)
  then show "\<exists>v. (do { mops \<leftarrow> deref op; foldM (f op) mops g }) = Some v \<and> forward_graph h v"
    by (simp add: deref_oks [OF assms(1) op])
qed simp

lemma forward_wwGraph:
  assumes S: "serial_history h" shows "forward_analyzer h opts wwGraph"
  unfolding forward_analyzer_def
proof
  fix \<rho>
  obtain ai wi ri where pre: "preprocess \<rho> h = Some (oks h, ai, wi, ri)" and I: "serial_index h ai wi ri"
    using serial_preprocess [OF S] by blast
  have "\<exists>g. foldM (\<lambda>op g. do { mops \<leftarrow> deref op; foldM (\<lambda>mop g. if \<not> IsAppend mop then Some g
       else do { dep \<leftarrow> wwMopDep ai wi op mop;
                 Some (case dep of None \<Rightarrow> g | Some d \<Rightarrow> Link (VOp d) (VOp op) WW g) }) mops g })
     (oks h) NewDirectedGraph = Some g \<and> forward_graph h g"
    by (rule forward_loop [OF S])
      (use wwMopDep_forward [OF S I] forward_graph_Link in \<open>fastforce split: option.splits\<close>)
  then show "\<exists>an g e. wwGraph \<rho> h opts = Some (an, Some g, e) \<and> read_anomalies an = [] \<and> forward_graph h g"
    by (auto simp: wwGraph_def pre read_anomalies_def)
qed

lemma forward_wrGraph:
  assumes S: "serial_history h" shows "forward_analyzer h opts wrGraph"
  unfolding forward_analyzer_def
proof
  fix \<rho>
  obtain ai wi ri where pre: "preprocess \<rho> h = Some (oks h, ai, wi, ri)" and I: "serial_index h ai wi ri"
    using serial_preprocess [OF S] by blast
  have "\<exists>g. foldM (\<lambda>op g. do { mops \<leftarrow> deref op; foldM (\<lambda>mop g. if \<not> IsRead mop then Some g
       else do { dep \<leftarrow> wrMopDep wi op mop;
                 Some (case dep of None \<Rightarrow> g | Some d \<Rightarrow> Link (VOp d) (VOp op) WR g) }) mops g })
     (oks h) NewDirectedGraph = Some g \<and> forward_graph h g"
    by (rule forward_loop [OF S])
      (use wrMopDep_forward [OF S I] forward_graph_Link in \<open>fastforce split: option.splits\<close>)
  then show "\<exists>an g e. wrGraph \<rho> h opts = Some (an, Some g, e) \<and> read_anomalies an = [] \<and> forward_graph h g"
    by (auto simp: wrGraph_def pre read_anomalies_def)
qed

lemma forward_rwGraph:
  assumes S: "serial_history h" shows "forward_analyzer h opts rwGraph"
  unfolding forward_analyzer_def
proof
  fix \<rho>
  obtain ai wi ri where pre: "preprocess (sub \<rho> 0) h = Some (oks h, ai, wi, ri)" and I: "serial_index h ai wi ri"
    using serial_preprocess [OF S] by blast
  let ?f = "\<lambda>i op (j, mop) g. if IsAppend mop
           then do {
             deps \<leftarrow> rwMopDeps ai ri op mop;
             let vdeps = (case deps of None \<Rightarrow> []
                          | Some m \<Rightarrow> map VOp (go_range (sub (sub (sub \<rho> 1) i) j) (map fst m)));
             Some (LinkAllTo vdeps (VOp op) RW g) }
           else Some g"
  have "\<exists>g. foldM (\<lambda>(i, op) g. do { mops \<leftarrow> deref op; foldM (?f i op) (enumerate 0 mops) g })
     (enumerate 0 (oks h)) NewDirectedGraph = Some g \<and> forward_graph h g"
  proof (rule foldM_inv [where I = "forward_graph h"])
    fix x g assume x: "x \<in> set (enumerate 0 (oks h))" and g: "forward_graph h g"
    obtain i op where io: "x = (i, op)" by fastforce
    with x have op: "op \<in> set (oks h)" by (metis ex_enumerate)
    have "\<exists>g'. foldM (?f i op) (enumerate 0 (mops_of op)) g = Some g' \<and> forward_graph h g'"
    proof (rule foldM_inv [where I = "forward_graph h"])
      fix y g assume y: "y \<in> set (enumerate 0 (mops_of op))" and g: "forward_graph h g"
      obtain j mop where jm: "y = (j, mop)" by fastforce
      with y have mop: "mop \<in> set (mops_of op)" by (metis ex_enumerate)
      show "\<exists>v. ?f i op y g = Some v \<and> forward_graph h v"
      proof (cases "IsAppend mop")
        case True
        from rwMopDeps_forward [OF S I op mop True] obtain d where d: "rwMopDeps ai ri op mop = Some d"
          "\<And>m r. d = Some m \<Longrightarrow> r \<in> keys m \<Longrightarrow> forward h (VOp r) (VOp op)" by blast
        have "forward_graph h (LinkAllTo (case d of None \<Rightarrow> []
            | Some m \<Rightarrow> map VOp (go_range (sub (sub (sub \<rho> 1) i) j) (map fst m))) (VOp op) RW g)"
          by (rule forward_graph_LinkAllTo [OF g]) (use d(2) in \<open>auto split: option.splits\<close>)
        then show ?thesis using True d(1) by (simp add: jm Let_def)
      qed (use g jm in simp)
    qed (rule g)
    then show "\<exists>v. (case x of (i, op) \<Rightarrow> \<lambda>g. do { mops \<leftarrow> deref op; foldM (?f i op) (enumerate 0 mops) g }) g = Some v \<and> forward_graph h v"
      by (simp add: io deref_oks [OF S op])
  qed simp
  then show "\<exists>an g e. rwGraph \<rho> h opts = Some (an, Some g, e) \<and> read_anomalies an = [] \<and> forward_graph h g"
    by (auto simp: rwGraph_def pre read_anomalies_def)
qed

end
