(* ===== verification/Serial_Verdict.thy ===== *)
theory Serial_Verdict
  imports Serial_Graphs
begin

text \<open>
  The list-append checker accepts serial histories: none of its checks reports a case, its graph
  has no cycle, and the verdict is valid (or unknown, for a history without dependencies).
\<close>

section \<open>Graphs without cycles\<close>

lemma forward_path:
  assumes g: "forward_graph h g" and p: "(arc g)\<^sup>+\<^sup>+ a b"
  shows "forward h a b"
  using p
proof (induction rule: tranclp_induct)
  case (base b)
  with g show ?case by (auto simp: forward_graph_def wf_arc_iff simp del: in_edges)
next
  case (step b c)
  have "forward h b c" using g step(2) by (auto simp: forward_graph_def wf_arc_iff simp del: in_edges)
  with step.IH show ?case by (fastforce simp: forward_def)
qed

lemma forward_no_components:
  assumes g: "forward_graph h g"
  shows "StronglyConnectedComponents \<rho> g = Some []"
proof -
  have irr: "\<not> (arc g)\<^sup>+\<^sup>+ a a" for a
    using forward_path [OF g, of a a] by (auto simp: forward_def)
  have "component g v = {v}" for v
  proof -
    have "w = v" if "reach g v w" "reach g w v" for w
    proof (rule ccontr)
      assume "w \<noteq> v"
      with that have "(arc g)\<^sup>+\<^sup>+ v w" "(arc g)\<^sup>+\<^sup>+ w v" by (metis rtranclpD)+
      then show False using irr by (meson tranclp_trans)
    qed
    then show ?thesis by (auto simp: component_def)
  qed
  then have "{C \<in> component g ` keys (Outs g). 2 \<le> card C} = {}" by auto
  with SCC_spec [of g \<rho>] g show ?thesis by (auto simp: forward_graph_def wf_graphD(1))
qed

section \<open>Combining analyzers\<close>

lemma Merge_Nil [simp]: "Merge \<rho> [] a = a"
  by (simp add: Merge_def)

lemma forward_Combine:
  assumes "\<And>A. A \<in> set As \<Longrightarrow> forward_analyzer h opts A"
  shows "\<exists>g e. Combine As \<rho> h opts = Some (Some [], Some g, e) \<and> forward_graph h g"
proof -
  let ?I = "\<lambda>(ca :: Anomalies, cg, ce :: DataExplainer list). ca = [] \<and> forward_graph h cg"
  have "\<exists>t. foldM (\<lambda>(i, analyzer) (ca, cg, ce). do {
         (a, gp, e) \<leftarrow> analyzer (sub (sub \<rho> i) 0) h opts;
         g \<leftarrow> gp;
         Some (Merge (sub (sub \<rho> i) 1) (read_anomalies a) ca, DigraphUnion (sub (sub \<rho> i) 2) [cg, g], ce @ [e]) })
       (enumerate 0 As) ([], NewDirectedGraph, []) = Some t \<and> ?I t"
  proof (rule foldM_inv [where I = ?I])
    fix x st assume x: "x \<in> set (enumerate 0 As)" and I: "?I st"
    obtain i A where iA: "x = (i, A)" by fastforce
    with x have "A \<in> set As" by (metis ex_enumerate)
    from assms [OF this] obtain an g e where A: "A (sub (sub \<rho> i) 0) h opts = Some (an, Some g, e)" "read_anomalies an = []" "forward_graph h g"
      unfolding forward_analyzer_def by blast
    obtain ca cg ce where st: "st = (ca, cg, ce)" by (cases st)
    have "forward_graph h (DigraphUnion (sub (sub \<rho> i) 2) [cg, g])"
      using I A(3) st by (intro forward_graph_Union) auto
    then show "\<exists>v. (case x of (i, analyzer) \<Rightarrow> \<lambda>(ca, cg, ce). do {
         (a, gp, e) \<leftarrow> analyzer (sub (sub \<rho> i) 0) h opts;
         g \<leftarrow> gp;
         Some (Merge (sub (sub \<rho> i) 1) (read_anomalies a) ca, DigraphUnion (sub (sub \<rho> i) 2) [cg, g], ce @ [e]) }) st = Some v \<and> ?I v"
      using I A st iA by simp
  qed simp
  then show ?thesis by (auto simp: Combine_def)
qed

lemma forward_graph_analyzer:
  assumes "serial_history h"
  shows "\<exists>g e. graph \<rho> h opts = Some (Some [], Some g, e) \<and> forward_graph h g"
  unfolding graph_def
  by (rule forward_Combine) (use forward_wwGraph [OF assms] forward_wrGraph [OF assms] forward_rwGraph [OF assms] in auto)

lemma forward_Realtime:
  assumes n: "numbered h" and pair: "pair_history h = Some pair" shows "forward_analyzer h opts RealtimeGraph"
  unfolding forward_analyzer_def
proof
  fix \<rho>
  obtain g dn where g: "fold (\<lambda>(i, op). realtime_step (sub \<rho> i) pair op) (enumerate 0 h) (NewDirectedGraph, []) = (g, dn)"
    by fastforce
  have rt: "rt_inv pair h g dn" using rt_run [OF n, of pair \<rho> 0] g by simp
  obtain invs where inv: "pair_inv h pair invs" using pair_history_inv [OF n pair] by blast
  have zero: "zero_Op \<notin> set h" using n by (auto simp: numbered_def list_all_iff zero_Op_def)
  have "forward h x y" if e: "(x, y, r) \<in> edges g" for x y r
  proof -
    from rt_invD(4) [OF rt e] obtain a i where a: "x = VOp a" "a \<in> set h" "op_Type a = OpTypeOk"
      "op_Type i = OpTypeInvoke" "y = VOp (get_or zero_Op pair i)" "op_idx a < op_idx i" by blast
    have "op_idx a < op_idx b" if "y = VOp b" "b \<in> set (oks h)" for b
    proof (cases "map_of pair i")
      case None
      with a(5) that zero show ?thesis by (simp add: get_or_def)
    next
      case (Some c)
      with a(5) that(1) have "c = b" by (simp add: get_or_def)
      with pair_invD(3) [OF inv Some a(4)] a(6) show ?thesis by simp
    qed
    with a show ?thesis by (auto simp: forward_def)
  qed
  then have "forward_graph h g" using rt_invD(1) [OF rt] by (simp add: forward_graph_def)
  with g pair show "\<exists>an g e. RealtimeGraph \<rho> h opts = Some (an, Some g, e) \<and> read_anomalies an = [] \<and> forward_graph h g"
    by (auto simp: RealtimeGraph_def read_anomalies_def)
qed

lemma forward_Process:
  assumes n: "numbered h" shows "forward_analyzer h opts ProcessGraph"
  unfolding forward_analyzer_def
proof
  fix \<rho>
  obtain g e where g: "ProcessGraph \<rho> h opts = Some (None, Some g, e)"
    by (simp add: ProcessGraph_def Let_def case_prod_unfold)
  have wf: "wf_graph g" using ProcessGraph_edges(2) [OF g] .
  have "forward h x y" if "(x, y, r) \<in> edges g" for x y r
  proof -
    from that have "arc g x y" using wf_arc_iff [OF wf] by blast
    from ProcessGraph_arc [OF n g this] show ?thesis by (auto simp: forward_def)
  qed
  with wf g show "\<exists>an g e. ProcessGraph \<rho> h opts = Some (an, Some g, e) \<and> read_anomalies an = [] \<and> forward_graph h g"
    by (auto simp: forward_graph_def read_anomalies_def)
qed

text \<open>The analyzer that the checker runs, when no graph was added by the caller.\<close>

lemma forward_AdditionalGraphs:
  assumes "numbered h" "pair_history h = Some pair" "opts_AdditionalGraphs opts = []"
  shows "\<exists>As. AdditionalGraphs \<rho> opts = Some As \<and> (\<forall>A \<in> set As. forward_analyzer h os A)"
proof -
  obtain m where "reportableAnomalyTypes (sub \<rho> 0) (opts_ConsistencyModels opts) (opts_Anomalies opts) = Some m"
    using reportable_total by blast
  with assms forward_Realtime [OF assms(1,2)] forward_Process [OF assms(1)] show ?thesis
    by (auto simp: AdditionalGraphs_def)
qed

lemma forward_graph_forward: "serial_history h \<Longrightarrow> forward_analyzer h opts graph"
  using forward_graph_analyzer unfolding forward_analyzer_def by (fastforce simp: read_anomalies_def)

lemma forward_checked:
  assumes "serial_history h" "\<forall>A \<in> set As. forward_analyzer h [] A"
  shows "\<exists>g e. (if length As \<noteq> 0 then Combine (graph # As) else graph) \<rho> h [] = Some (Some [], Some g, e) \<and> forward_graph h g"
proof -
  have "forward_analyzer h [] A" if "A \<in> set (graph # As)" for A
    using that assms forward_graph_forward [OF assms(1)] by auto
  from forward_Combine [OF this, where As = "graph # As" and \<rho> = \<rho>] forward_graph_analyzer [OF assms(1), of \<rho>] show ?thesis by auto
qed

section \<open>Graphs with an edge\<close>

text \<open>An analyzer that finds some dependency in the history.\<close>

definition linking :: "History \<Rightarrow> 'o list \<Rightarrow> 'o Analyzer \<Rightarrow> bool" where
  "linking h opts A \<longleftrightarrow> (\<forall>\<rho> an g e. A \<rho> h opts = Some (an, Some g, e) \<longrightarrow> edges g \<noteq> {})"

lemma linking_Combine:
  assumes "A \<in> set As" "linking h opts A"
  shows "linking h opts (Combine As)"
  unfolding linking_def
proof (intro allI impI)
  fix \<rho> an g e assume "Combine As \<rho> h opts = Some (an, Some g, e)"
  then obtain ca ce where f: "foldM (\<lambda>(i, analyzer) (ca, cg, ce). do {
         (a, gp, e) \<leftarrow> analyzer (sub (sub \<rho> i) 0) h opts;
         g \<leftarrow> gp;
         Some (Merge (sub (sub \<rho> i) 1) (read_anomalies a) ca, DigraphUnion (sub (sub \<rho> i) 2) [cg, g], ce @ [e]) })
       (enumerate 0 As) ([], NewDirectedGraph, []) = Some (ca, g, ce)"
    by (auto simp: Combine_def split: Option.bind_splits)
  obtain i where i: "i < length As" "As ! i = A" using assms(1) by (auto simp: in_set_conv_nth)
  then have "(i, A) \<in> set (enumerate 0 As)" by (auto simp: in_set_enumerate_eq)
  then have "case (ca, g, ce) of (ca, g, ce) \<Rightarrow> edges g \<noteq> {}"
  proof (rule foldM_reaches [OF f, where P = "\<lambda>(ca, g, ce). edges g \<noteq> {}"], goal_cases)
    case (1 u v)
    then show ?case using assms(2) [unfolded linking_def, rule_format] by (cases u) (fastforce simp: edges_DigraphUnion split: Option.bind_splits simp del: in_edges)
  next
    case (2 y u v)
    obtain i A' where "y = (i, A')" by fastforce
    with 2 show ?case by (cases u) (auto simp: edges_DigraphUnion split: Option.bind_splits simp del: in_edges)
  qed
  then show "edges g \<noteq> {}" by simp
qed

lemma linking_Realtime:
  assumes n: "numbered h" and "a \<in> set h" "op_Type a = OpTypeOk" "i \<in> set h" "op_Type i = OpTypeInvoke" "op_idx a < op_idx i"
  shows "linking h opts RealtimeGraph"
  unfolding linking_def
proof (intro allI impI)
  fix \<rho> an g e assume "RealtimeGraph \<rho> h opts = Some (an, Some g, e)"
  then obtain pair dn where inv: "rt_inv pair h g dn" by (auto elim!: RealtimeGraph_inv [OF n])
  from rt_invD(5) [OF inv assms(2,4,3,5,6)] obtain y where "arc g (VOp a) y" by (meson tranclpD)
  then show "edges g \<noteq> {}" using wf_arc_iff [OF rt_invD(1) [OF inv]] by blast
qed

text \<open>Strict serializability, the model in force when none is given, asks for the real-time graph.\<close>

lemma table_relI: "y \<in> set (get_or [] (map_literal kvs) a) \<Longrightarrow> (a, y) \<in> table_rel kvs"
  by (simp add: table_rel_def)

lemma realtime_by_default:
  assumes "opts_ConsistencyModels opts = None" "AdditionalGraphs \<rho> opts = Some As"
  shows "RealtimeGraph \<in> set As"
proof -
  obtain m where m: "reportableAnomalyTypes (sub \<rho> 0) None (opts_Anomalies opts) = Some m" "keys m = ruled_out None (opts_Anomalies opts) \<union> unknown_names"
    using reportable_total by blast
  have "(''strict-serializable'', ''G1c-realtime'') \<in> table_rel directProscribedAnomalies_table" by (rule table_relI, code_simp)
  then have "(canonical ''strict-serializable'', canonical ''G1c-realtime'') \<in> proscribed_rel" by (simp add: proscribed_rel_def map_prod_imageI)
  moreover have "canonical ''G1c-realtime'' = ''G1c-realtime''" "''G1c-realtime'' \<in> keys RealtimeAnalysisTypes" by code_simp+
  moreover from calculation have "''G1c-realtime'' \<in> ruled_out None (opts_Anomalies opts)" unfolding ruled_out_def by auto
  ultimately have "hasIntersection (sub \<rho> 1) m RealtimeAnalysisTypes" using m(2) by (auto simp: hasIntersection_iff)
  with assms m(1) show ?thesis by (auto simp: AdditionalGraphs_def)
qed

lemma linking_wrGraph:
  assumes S: "serial_history h" and ab: "a \<in> set (oks h)" "b \<in> set (oks h)" "a \<noteq> b"
    and mop: "mop \<in> set (mops_of b)" "IsRead mop" "reads_of mop \<noteq> []" "last (reads_of mop) \<in> set (appends_to (GetKey mop) (mops_of a))"
  shows "linking h opts wrGraph"
  unfolding linking_def
proof (intro allI impI)
  fix \<rho> an g e assume g: "wrGraph \<rho> h opts = Some (an, Some g, e)"
  let ?k = "GetKey mop" let ?v = "last (reads_of mop)"
  obtain ai wi ri where pre: "preprocess \<rho> h = Some (oks h, ai, wi, ri)" and I: "serial_index h ai wi ri"
    using serial_preprocess [OF S] by blast
  have "last_event (\<lambda>op. ?v \<in> set (appends_to ?k (mops_of op))) (oks h) \<noteq> None"
    using ab(1) mop(4) by (auto simp: last_event_def find_None_iff)
  then obtain w where w: "map_of (get_or [] wi ?k) (MV_int ?v) = Some w" using I by (auto simp: serial_index_def writer_def)
  have "w = a" using serial_writer [OF I w] ab(1) mop(4) completed_unique [OF serial_historyD(7) [OF S], of w a ?v ?k] by auto
  then have dep: "wrMopDep wi b mop = Some (Some a)"
    using typed_read [OF typed_ok_mop [OF S ab(2) mop(1)] mop(2)] w mop(2,3) ab(3) by (simp add: wrMopDep_def)
  from g have "foldM (\<lambda>op g. do { mops \<leftarrow> deref op; foldM (\<lambda>mop g. if \<not> IsRead mop then Some g
       else do { dep \<leftarrow> wrMopDep wi op mop;
                 Some (case dep of None \<Rightarrow> g | Some d \<Rightarrow> Link (VOp d) (VOp op) WR g) }) mops g })
     (oks h) NewDirectedGraph = Some g" by (auto simp: wrGraph_def pre split: Option.bind_splits)
  then show "edges g \<noteq> {}" using ab(2)
  proof (rule foldM_reaches [where P = "\<lambda>g. edges g \<noteq> {}"], goal_cases)
    case (1 u v)
    then have "foldM (\<lambda>mop g. if \<not> IsRead mop then Some g
       else do { dep \<leftarrow> wrMopDep wi b mop;
                 Some (case dep of None \<Rightarrow> g | Some d \<Rightarrow> Link (VOp d) (VOp b) WR g) }) (mops_of b) u = Some v"
      by (simp add: deref_oks [OF S ab(2)])
    then show ?case using mop(1)
      by (rule foldM_reaches [where P = "\<lambda>g. edges g \<noteq> {}"])
        (auto simp: dep mop(2) edges_Link split: if_splits Option.bind_splits option.splits simp del: in_edges)
  next
    case (2 op u v)
    then obtain mops where "foldM (\<lambda>mop g. if \<not> IsRead mop then Some g
       else do { dep \<leftarrow> wrMopDep wi op mop;
                 Some (case dep of None \<Rightarrow> g | Some d \<Rightarrow> Link (VOp d) (VOp op) WR g) }) mops u = Some v"
      by (auto split: Option.bind_splits)
    then show ?case using 2(2)
      by (rule foldM_invariant [where I = "\<lambda>g. edges g \<noteq> {}"])
        (auto simp: edges_Link split: if_splits Option.bind_splits option.splits simp del: in_edges)
  qed
qed

text \<open>The search finds no cycle; the only anomaly it reports is that there was nothing to search, when the graph
  has no vertex.\<close>

definition nothing_searched :: "DirectedGraph \<Rightarrow> Anomalies" where
  "nothing_searched g = (if Outs g = [] then [(''empty-transaction-graph'', [])] else [])"

lemma forward_Cycles:
  assumes "\<And>\<rho>. \<exists>g e. A \<rho> h opts = Some (Some [], Some g, e) \<and> forward_graph h g"
  shows "\<exists>r g e. Cycles \<rho> A h opts = Some r \<and> A (sub (sub \<rho> 0) 0) h opts = Some (Some [], Some g, e) \<and>
    cr_Anomalies r = Some (nothing_searched g)"
proof -
  obtain g e where A: "A (sub (sub \<rho> 0) 0) h opts = Some (Some [], Some g, e)" and g: "forward_graph h g"
    using assms by blast
  have an: "Check (sub \<rho> 0) A h opts =
      Some \<lparr>cr_Graph = g, cr_Explainer = e, cr_Cycles = [], cr_Sccs = [], cr_Anomalies = Some (nothing_searched g)\<rparr>"
    using forward_no_components [OF g] A by (simp add: Check_def checkHelper_def IsEmpty_iff nothing_searched_def)
  have "CycleCases (sub \<rho> 1) g e [] = Some ([], e)" by (simp add: CycleCases_def)
  moreover have "store_cases (sub \<rho> 2) [] (Some a) = Some (Some a)" for a by (simp add: store_cases_def)
  ultimately show ?thesis using an A by (auto simp: Cycles_def)
qed

section \<open>Cases outside the graph\<close>

text \<open>An event that appends what a successful one appended is that event or its invocation.\<close>

lemma pair_roles:
  assumes "pair_history h = Some pair" "\<And>op. op \<in> set h \<Longrightarrow> op_Type op = OpTypeInvoke \<or> op_Type op = OpTypeOk \<or> op_Type op = OpTypeFail"
    "map_of pair x = Some y" "op_Type x \<noteq> OpTypeInvoke"
  shows "op_Type y = OpTypeInvoke"
proof -
  let ?I = "\<lambda>(pair, invs). (\<forall>x y. map_of pair x = Some y \<longrightarrow> op_Type x = OpTypeInvoke \<or> op_Type y = OpTypeInvoke) \<and>
     (\<forall>p v. map_of invs p = Some v \<longrightarrow> op_Type v = OpTypeInvoke)"
  obtain invs where f: "foldM pair_step h ([], []) = Some (pair, invs)"
    using assms(1) by (auto simp: pair_history_def split: Option.bind_splits)
  have "?I (pair, invs)"
  proof (rule foldM_invariant [where I = ?I, OF f])
    fix op u v assume op: "op \<in> set h" and u: "?I u" "pair_step op u = Some v"
    obtain p i where pi: "u = (p, i)" by fastforce
    from assms(2) [OF op] u show "?I v" unfolding pi
      by (elim disjE; fastforce simp: pair_step_def Let_def split: option.splits if_splits)
  qed simp
  with assms(3,4) show ?thesis by blast
qed

lemma same_appends:
  assumes S: "serial_history h" and w: "w \<in> set h" "W \<in> set (oks h)"
    and v: "v \<in> set (appends_to k (mops_of w))" "v \<in> set (appends_to k (mops_of W))"
  shows "w = W \<or> appends (mops_of w) = appends (mops_of W) \<and> op_idx w < op_idx W"
proof (cases "op_Type w = OpTypeInvoke")
  case False
  with completed_unique [OF serial_historyD(7) [OF S] w(1), of W] w(2) v show ?thesis by auto
next
  case True
  obtain pair where pair: "pair_history h = Some pair" "appends (mops_of (get_or zero_Op pair W)) = appends (mops_of W)"
    using serial_historyD(8) [OF S] w(2) by auto
  obtain invs where inv: "pair_inv h pair invs" using pair_history_inv [OF serial_historyD(2) [OF S] pair(1)] by blast
  from pair_invD(7) [OF inv] w(2) obtain i where i: "map_of pair W = Some i" by (auto simp: in_keys_map_of)
  have it: "op_Type i = OpTypeInvoke" using pair_roles [OF pair(1) serial_historyD(3) [OF S] i] w(2) by simp
  have ih: "i \<in> set h" "op_idx i < op_idx W" using pair_invD(1-3) [OF inv] i it by blast+
  have ia: "appends (mops_of i) = appends (mops_of W)" using pair(2) i by (simp add: get_or_def)
  then have "v \<in> set (appends_to k (mops_of i))" using v(2) by (metis set_appends)
  with v(1) True it ih(1) w(1) have "w = i" using invoked_unique [OF serial_historyD(6) [OF S]] by blast
  with ia ih show ?thesis by simp
qed

lemma no_g1a: "serial_history h \<Longrightarrow> g1aCases h = Some []"
proof -
  assume S: "serial_history h"
  have False if r: "ok_read h op mop" "e \<in> set (reads_of mop)"
    and w: "last_event (\<lambda>w. e \<in> set (appends_to (GetKey mop) (mops_of w)) \<and> op_Type w = OpTypeFail) h = Some w" for op mop e w
  proof -
    from w have w: "w \<in> set h" "e \<in> set (appends_to (GetKey mop) (mops_of w))" "op_Type w = OpTypeFail"
      by (auto dest: last_event_SomeD)
    from r(1) have "op \<in> set (oks h)" "mop \<in> set (mops_of op)" "IsRead mop" by (auto simp: ok_read_def)
    from read_committed(1) [OF S this] r(2) have "e \<in> set (committed (GetKey mop) (oks h))" by (meson set_mono_prefix subsetD)
    then obtain W where W: "W \<in> set (oks h)" "e \<in> set (appends_to (GetKey mop) (mops_of W))" by (auto simp: in_committed)
    with completed_unique [OF serial_historyD(7) [OF S] w(1), of W e "GetKey mop"] w show False by auto
  qed
  then have "{G1Conflict op mop w (MV_int e) |op mop w e. ok_read h op mop \<and> e \<in> set (reads_of mop) \<and>
       last_event (\<lambda>w. e \<in> set (appends_to (GetKey mop) (mops_of w)) \<and> op_Type w = OpTypeFail) h = Some w} = {}" by blast
  with g1aCases_spec [OF serial_historyD(1) [OF S]] show ?thesis by simp
qed

lemma serial_last:
  assumes S: "serial_history h" and op: "op \<in> set (oks h)" and mop: "mop \<in> set (mops_of op)" "IsRead mop" "reads_of mop \<noteq> []"
  shows "last (reads_of mop) \<in> set (appends_to (GetKey mop) (mops_of op)) \<or>
    (\<exists>W \<in> set (oks h). appends_to (GetKey mop) (mops_of W) \<noteq> [] \<and> last (reads_of mop) = last (appends_to (GetKey mop) (mops_of W)))"
proof -
  from op obtain xs ys where o: "oks h = xs @ op # ys" by (meson split_list)
  obtain st where "exec_ops (xs @ op # ys) (\<lambda>_. []) = Some st" using serial_historyD(9) [OF S] o by auto
  from exec_ops_read [OF this mop(1,2)] obtain ms1 ms2 where ms: "mops_of op = ms1 @ mop # ms2"
    "reads_of mop = committed (GetKey mop) xs @ appends_to (GetKey mop) ms1" by blast
  have c: "committed k xs \<noteq> [] \<Longrightarrow> \<exists>W \<in> set xs. appends_to k (mops_of W) \<noteq> [] \<and> last (committed k xs) = last (appends_to k (mops_of W))" for k
    by (induction xs) (auto simp: last_append)
  show ?thesis
  proof (cases "appends_to (GetKey mop) ms1 = []")
    case True
    with ms(2) mop(3) c [of "GetKey mop"] o show ?thesis by auto
  next
    case False
    with ms have "last (reads_of mop) \<in> set (appends_to (GetKey mop) ms1)" by (metis last_appendR last_in_set)
    with ms(1) show ?thesis by (simp add: appends_to_append)
  qed
qed

lemma appends_to_appends: "appends_to k ms = map snd (filter (\<lambda>p. fst p = k) (appends ms))"
  by (induction ms) (auto simp: appends_to_def appends_def)

lemma distinct_appends_to: "serial_history h \<Longrightarrow> W \<in> set (oks h) \<Longrightarrow> distinct (appends_to k (mops_of W))"
proof -
  assume S: "serial_history h" "W \<in> set (oks h)"
  then obtain xs ys where "oks h = xs @ W # ys" by (meson split_list)
  with distinct_committed [OF serial_historyD(7) [OF S(1)], of k] show ?thesis by auto
qed

lemma last_not_butlast: "\<lbrakk>distinct xs; xs \<noteq> []\<rbrakk> \<Longrightarrow> last xs \<notin> set (butlast xs)"
  by (induction xs) auto

lemma last_event_later:
  assumes "numbered h" "last_event P h = Some w" "W \<in> set h" "P W"
  shows "\<not> op_idx w < op_idx W"
  using assms
proof (induction h rule: rev_induct)
  case (snoc x h)
  then show ?case by (auto simp: numbered_def sorted_wrt_append split: if_splits)
qed simp

lemma no_g1b: "serial_history h \<Longrightarrow> g1bCases h = Some []"
proof -
  assume S: "serial_history h"
  have False if r: "ok_read h op mop" "reads_of mop \<noteq> []" "w \<noteq> op"
    and l: "last_event (\<lambda>w. last (reads_of mop) \<in> set (butlast (appends_to (GetKey mop) (mops_of w)))) h = Some w" for op mop w
  proof -
    let ?k = "GetKey mop" let ?v = "last (reads_of mop)"
    from r(1) have op: "op \<in> set (oks h)" "mop \<in> set (mops_of op)" "IsRead mop" by (auto simp: ok_read_def)
    have w: "w \<in> set h" "?v \<in> set (butlast (appends_to ?k (mops_of w)))" using last_event_SomeD [OF l] by auto
    then have wv: "?v \<in> set (appends_to ?k (mops_of w))" by (meson in_set_butlastD)
    have same: "?v \<in> set (butlast (appends_to ?k (mops_of W)))"
      if "W \<in> set (oks h)" "?v \<in> set (appends_to ?k (mops_of W))" for W
      using same_appends [OF S w(1) that(1) wv that(2)] w(2) by (auto simp: appends_to_appends)
    from serial_last [OF S op r(2)] show False
    proof
      assume v: "?v \<in> set (appends_to ?k (mops_of op))"
      with same_appends [OF S w(1) op(1) wv v] r(3) have "op_idx w < op_idx op" by simp
      with last_event_later [OF serial_historyD(2) [OF S] l _ same [OF op(1) v]] op(1) show False by simp
    next
      assume "\<exists>W \<in> set (oks h). appends_to ?k (mops_of W) \<noteq> [] \<and> ?v = last (appends_to ?k (mops_of W))"
      then obtain W where W: "W \<in> set (oks h)" "appends_to ?k (mops_of W) \<noteq> []" "?v = last (appends_to ?k (mops_of W))" by blast
      have "?v \<in> set (butlast (appends_to ?k (mops_of W)))" using same [OF W(1)] W(2,3) by simp
      with last_not_butlast [OF distinct_appends_to [OF S W(1)] W(2)] W(3) show False by simp
    qed
  qed
  then have "{G1Conflict op mop w (MV_int (last (reads_of mop))) |op mop w. ok_read h op mop \<and> reads_of mop \<noteq> [] \<and> w \<noteq> op \<and>
       last_event (\<lambda>w. last (reads_of mop) \<in> set (butlast (appends_to (GetKey mop) (mops_of w)))) h = Some w} = {}" by blast
  with g1bCases_spec [OF serial_historyD(1) [OF S]] show ?thesis by simp
qed

lemma no_internal: "serial_history h \<Longrightarrow> internalCases h = Some []"
proof -
  assume S: "serial_history h"
  have op: "opInternalCase op = Some None" if op: "op \<in> set (oks h)" for op
  proof -
    from op obtain xs ys where o: "oks h = xs @ op # ys" by (meson split_list)
    obtain st where "exec_ops (xs @ op # ys) (\<lambda>_. []) = Some st" using serial_historyD(9) [OF S] o by auto
    then obtain st1 where "exec_mops (mops_of op) st1 \<noteq> None"
      by (auto simp: exec_ops_append) (auto simp: exec_ops_def split: Option.bind_splits)
    moreover have "typed_op op" using typed_oks [OF S] op by (auto simp: typed_history_def list_all_iff)
    moreover have "no_magic (mops_of op)"
      unfolding no_magic_def
    proof (intro ballI conjI impI)
      fix mop assume mop: "mop \<in> set (mops_of op)"
      have t: "typed_mop mop" using typed_ok_mop [OF S op mop] .
      show "appended mop \<noteq> unknownPrefixMagicNumber"
      proof (cases "IsAppend mop")
        case True
        have "(GetKey mop, appended mop) \<in> set (completed_appends h)"
          using set_completed [of op h "appended mop" "GetKey mop"] append_in [OF mop True] op by simp
        then show ?thesis using serial_historyD(5) [OF S] by blast
      next
        case False
        with t show ?thesis
          by (auto simp: typed_mop_def IsAppend_def appended_def unknownPrefixMagicNumber_def split: MopType.splits MopValueType.splits)
      qed
      assume "reads_of mop \<noteq> []"
      moreover from this t have "IsRead mop"
        by (auto simp: typed_mop_def reads_of_def IsRead_def split: MopType.splits MopValueType.splits)
      ultimately show "hd (reads_of mop) \<noteq> unknownPrefixMagicNumber"
        using read_committed(2) [OF S op mop, of "hd (reads_of mop)"] by simp
    qed
    ultimately show ?thesis using opInternalCase_spec by blast
  qed
  have "foldM (\<lambda>op tp. do { res \<leftarrow> opInternalCase op; Some (case res of None \<Rightarrow> tp | Some a \<Rightarrow> tp @ [a]) }) ops [] = Some []"
    if "set ops \<subseteq> set (oks h)" for ops
    using that op by (induction ops) auto
  then show ?thesis by (simp add: internalCases_def)
qed

lemma no_duplicates: "serial_history h \<Longrightarrow> duplicates (oks h) = Some []"
proof -
  assume S: "serial_history h"
  have "distinct (reads_of mop)" if "op \<in> set (oks h)" "mop \<in> set (mops_of op)" "IsRead mop" for op mop
    using read_committed(1) [OF S that] distinct_committed [OF serial_historyD(7) [OF S]]
    by (metis distinct_append prefixE)
  with duplicates_spec [OF typed_oks [OF S]] show ?thesis by (metis list.set_intros(1) neq_Nil_conv)
qed

lemma dirty_ok:
  assumes "\<forall>v \<in> set order. \<forall>w. map_of kw v = Some w \<longrightarrow> op_Type w = OpTypeOk" "op_Type cur = OpTypeOk"
  shows "snd (snd (fold (dirty_step key kw) order (vs, cur, cases))) = cases"
  using assms
proof (induction order arbitrary: vs cur)
  case (Cons v order)
  then show ?case by (cases "map_of kw v") (auto simp: dirty_step_def)
qed simp

lemma dirty_single: "op_Type cur = OpTypeOk \<Longrightarrow> snd (snd (fold (dirty_step key kw) [v] (vs, cur, cases))) = cases"
  by (cases "map_of kw v") (auto simp: dirty_step_def Let_def split: OpType.splits)

lemma no_dirty_update:
  assumes S: "serial_history h" and ai: "\<And>k. key_order h h k (get_or [] ai k)"
  shows "dirtyUpdateCases \<rho> ai h = Some []"
proof -
  obtain wi where wi: "writeIndex h = Some wi"
    "\<And>k v. writer wi k v = last_event (\<lambda>op. v \<in> set (appends_to k (mops_of op))) h"
    using writeIndex_writer [OF serial_historyD(1) [OF S]] by blast
  have key: "snd (snd (fold (dirty_step k kw) (get_or [] ai k) ([], zero_Op\<lparr>op_Type := OpTypeOk\<rparr>, cases))) = cases"
    if kw: "map_of wi k = Some kw" for k kw cases
  proof -
    from ai [of k] consider c where "get_or [] ai k = map MV_int c" "prefix c (committed k (oks h))"
      | i where "get_or [] ai k = [MV_int i]" by (auto simp: key_order_def)
    then show ?thesis
    proof cases
      case (1 c)
      have "op_Type w = OpTypeOk" if v: "v \<in> set c" and w: "map_of kw (MV_int v) = Some w" for v w
      proof -
        from v 1(2) have "v \<in> set (committed k (oks h))" by (meson set_mono_prefix subsetD)
        then obtain W where W: "W \<in> set (oks h)" "v \<in> set (appends_to k (mops_of W))" by (auto simp: in_committed)
        have l: "last_event (\<lambda>op. v \<in> set (appends_to k (mops_of op))) h = Some w"
          using wi(2) [of k v] kw w by (simp add: writer_def get_or_def)
        have "w \<in> set h" "v \<in> set (appends_to k (mops_of w))" using last_event_SomeD [OF l] by auto
        from same_appends [OF S this(1) W(1) this(2) W(2)] last_event_later [OF serial_historyD(2) [OF S] l _ W(2)] W(1)
        show ?thesis by auto
      qed
      then show ?thesis using 1(1) by (intro dirty_ok) auto
    next
      case (2 i)
      then show ?thesis using dirty_single [of "zero_Op\<lparr>op_Type := OpTypeOk\<rparr>" k kw "MV_int i"] by simp
    qed
  qed
  have "fold (\<lambda>key cases. case map_of wi key of None \<Rightarrow> cases
         | Some keyWriter \<Rightarrow> snd (snd (fold (dirty_step key keyWriter) (get_or [] ai key) ([], zero_Op\<lparr>op_Type := OpTypeOk\<rparr>, cases)))) ks [] = []" for ks
    by (induction ks) (auto simp: key split: option.splits)
  then show ?thesis by (simp add: dirtyUpdateCases_def wi(1))
qed

section \<open>The verdict\<close>

lemma set_anomalies_Nil [simp]: "set_anomalies name [] a = Some a"
  by (simp add: set_anomalies_def)

text \<open>The verdict on what a search without cycles found.\<close>

definition verdict_on :: "DirectedGraph \<Rightarrow> TxnCheckResult \<Rightarrow> bool" where
  "verdict_on g r \<longleftrightarrow>
     (if Outs g = [] then \<not> tcr_Valid r \<and> tcr_AnomalyTypes r = [''empty-transaction-graph'']
      else tcr_Valid r \<and> tcr_AnomalyTypes r = [] \<and> tcr_Anomalies r = [])"

lemma ResultMap_no_cycles:
  fixes opts :: "'o Opts"
  shows "\<exists>r. ResultMap \<rho> opts (Some (nothing_searched g)) = Some r \<and> verdict_on g r"
proof -
  let ?bad = "ruled_out (opts_ConsistencyModels opts) (opts_Anomalies opts) \<union> unknown_names"
  let ?found = "nothing_searched g"
  from ResultMap_spec [of \<rho> opts "Some ?found"] obtain r where
    r: "ResultMap \<rho> opts (Some ?found) = Some r" "tcr_Valid r \<longleftrightarrow> keys ?found \<inter> ?bad = {}" "set (tcr_AnomalyTypes r) = keys ?found \<inter> ?bad"
      "distinct (tcr_AnomalyTypes r)" "\<forall>x. map_of (tcr_Anomalies r) x = (if x \<in> ?bad then map_of ?found x else None)"
    unfolding Let_def read_anomalies_def option.case by blast
  show ?thesis
  proof (cases "Outs g = []")
    case True
    then have "keys ?found \<inter> ?bad = {''empty-transaction-graph''}" by (auto simp: nothing_searched_def unknown_names_def)
    then have "\<not> tcr_Valid r" and t: "set (tcr_AnomalyTypes r) = {''empty-transaction-graph''}" using r(2,3) by simp_all
    moreover have "tcr_AnomalyTypes r = [''empty-transaction-graph'']"
      using t r(4) by (cases "tcr_AnomalyTypes r" rule: remdups_adj.cases) auto
    ultimately show ?thesis using r(1) True by (auto simp: verdict_on_def)
  next
    case False
    then have n: "?found = []" by (simp add: nothing_searched_def)
    have "map_of (tcr_Anomalies r) x = None" for x using r(5) n by simp
    then have "map_of (tcr_Anomalies r) = Map.empty" by blast
    then have "tcr_Anomalies r = []" by simp
    with r(1-3) n False show ?thesis by (auto simp: verdict_on_def)
  qed
qed

text \<open>The graph that the checker searches.\<close>

definition searched_graph :: "range_order \<Rightarrow> 'o Opts \<Rightarrow> History \<Rightarrow> DirectedGraph option" where
  "searched_graph \<rho> opts h = do {
     As \<leftarrow> AdditionalGraphs (sub \<rho> 5) opts;
     (_, gp, _) \<leftarrow> (if length As \<noteq> 0 then Combine (graph # As) else graph) (sub (sub (sub \<rho> 6) 0) 0) (preProcessHistory h) [];
     gp }"

text \<open>A transaction observes another if a list that it read ends in an element that the other appended. And
  one precedes another in real time if it succeeded before the other was invoked.\<close>

definition observed :: "History \<Rightarrow> bool" where
  "observed h \<longleftrightarrow> (\<exists>a \<in> set (oks h). \<exists>b \<in> set (oks h). a \<noteq> b \<and> (\<exists>mop \<in> set (mops_of b). IsRead mop \<and> reads_of mop \<noteq> [] \<and>
     last (reads_of mop) \<in> set (appends_to (GetKey mop) (mops_of a))))"

definition preceded :: "History \<Rightarrow> bool" where
  "preceded h \<longleftrightarrow> (\<exists>a \<in> set h. \<exists>i \<in> set h. op_Type a = OpTypeOk \<and> op_Type i = OpTypeInvoke \<and> op_idx a < op_idx i)"

lemma linking_checked:
  fixes opts :: "'o Opts" and G :: "'o Analyzer"
  assumes "AdditionalGraphs \<rho> opts = Some As" "numbered h"
    and "linking h os G \<or> opts_ConsistencyModels opts = None \<and> preceded h"
  shows "linking h os (if length As \<noteq> 0 then Combine (G # As) else G)"
  using assms(3)
proof
  assume "linking h os G"
  then show ?thesis using linking_Combine [of G "G # As" h os] by simp
next
  assume p: "opts_ConsistencyModels opts = None \<and> preceded h"
  then have "RealtimeGraph \<in> set As" using realtime_by_default [OF _ assms(1)] by simp
  moreover have "linking h os RealtimeGraph" using p linking_Realtime [OF assms(2)] by (auto simp: preceded_def)
  ultimately show ?thesis using linking_Combine [of RealtimeGraph "G # As" h os] by auto
qed

lemma linking_Outs: "\<lbrakk>linking h os A; A \<rho> h os = Some (an, Some g, e)\<rbrakk> \<Longrightarrow> Outs g \<noteq> []"
  unfolding linking_def by (fastforce simp: edges_def rels_def outs_def get_or_def)

lemma serial_verdict_spec:
  fixes opts :: "'o Opts"
  assumes S: "serial_history (preProcessHistory h)" and opts: "opts_AdditionalGraphs opts = []"
  shows "\<exists>r g. ListAppend_Check \<rho> opts h = Some r \<and> searched_graph \<rho> opts h = Some g \<and> verdict_on g r \<and>
    (observed (preProcessHistory h) \<or> opts_ConsistencyModels opts = None \<and> preceded (preProcessHistory h) \<longrightarrow> Outs g \<noteq> [])"
proof -
  let ?h = "preProcessHistory h"
  obtain sv ai where ai: "sortedValues (sub \<rho> 0) ?h = Some sv" "appendIndex (sub \<rho> 1) sv = Some ai"
    "\<And>k. key_order ?h ?h k (get_or [] ai k)" using serial_versions [OF S, of ?h] by blast
  obtain sv' where sv': "sortedValues (sub \<rho> 3) (oks ?h) = Some sv'" "incompatibleOrders (sub \<rho> 4) sv' = []"
    using serial_versions [OF S, of "oks ?h"] by blast
  obtain pair where pair: "pair_history ?h = Some pair" using serial_historyD(8) [OF S] by blast
  obtain As :: "'o Analyzer list" where As: "AdditionalGraphs (sub \<rho> 5) opts = Some As" "\<forall>A \<in> set As. forward_analyzer ?h [] A"
    using forward_AdditionalGraphs [OF serial_historyD(2) [OF S] pair opts] by blast
  let ?A = "if length As \<noteq> 0 then Combine (graph # As) else graph"
  have "\<exists>g e. ?A \<rho>' ?h [] = Some (Some [], Some g, e) \<and> forward_graph ?h g" for \<rho>'
    using forward_checked [OF S As(2)] .
  from forward_Cycles [of ?A, OF this] obtain cr g e where cr: "Cycles (sub \<rho> 6) ?A ?h [] = Some cr"
    "?A (sub (sub (sub \<rho> 6) 0) 0) ?h [] = Some (Some [], Some g, e)" "cr_Anomalies cr = Some (nothing_searched g)" by blast
  obtain r where r: "ResultMap (sub \<rho> 7) opts (Some (nothing_searched g)) = Some r" "verdict_on g r" using ResultMap_no_cycles by blast
  have "ListAppend_Check \<rho> opts h = Some r" using r(1) ai(1,2) sv' As(1) cr(1,3) no_dirty_update [OF S ai(3)]
    by (simp add: ListAppend_Check_def Let_def no_g1a [OF S] no_g1b [OF S] no_internal [OF S] serial_ok_info [OF S] no_duplicates [OF S])
  moreover have "searched_graph \<rho> opts h = Some g" using As(1) cr(2) by (simp add: searched_graph_def)
  moreover have "Outs g \<noteq> []" if "observed ?h \<or> opts_ConsistencyModels opts = None \<and> preceded ?h"
  proof -
    have "linking ?h [] graph" if "observed ?h"
      using that linking_wrGraph [OF S] linking_Combine [of wrGraph "[wwGraph, wrGraph, rwGraph]" ?h "[]"]
      by (fastforce simp: observed_def linking_def graph_def)
    with that linking_checked [OF As(1) serial_historyD(2) [OF S], of "[]" graph] linking_Outs [of ?h "[]" ?A, OF _ cr(2)] show ?thesis by blast
  qed
  ultimately show ?thesis using r(2) by blast
qed

text \<open>C1. The list-append checker does not raise false alarms. Take a history whose client events are numbered in
  their order, each an invocation, a success or a failure with at least one micro-operation that appends
  an integer or reads a list, only successes with results of reads, every completion after an invocation of its
  process that made the same appends; in which no value is appended to a key by two invocations or by two
  completions, and none is a sentinel of the code (-114514 or -114515); and whose successful transactions execute one after the
  other, in the order of their completions, from empty lists. Then the checker, with no graphs added by the
  caller, returns, whatever the iteration order of maps, the consistency models and the anomalies asked for. If the
  graph that it searches has a vertex, the verdict is valid and reports nothing; if not, the verdict is
  not valid and reports the empty graph alone. And the graph has a vertex if some transaction read a list that ends in
  an append of another, or, when no consistency model is given, if some transaction succeeded before an
  invocation.\<close>

theorem serial_history_accepted:
  fixes opts :: "'o Opts"
  assumes S: "serial_history (preProcessHistory h)" and opts: "opts_AdditionalGraphs opts = []"
  shows "\<exists>r g. ListAppend_Check \<rho> opts h = Some r \<and> searched_graph \<rho> opts h = Some g \<and>
    (if Outs g = [] then \<not> tcr_Valid r \<and> tcr_AnomalyTypes r = [''empty-transaction-graph'']
     else tcr_Valid r \<and> tcr_AnomalyTypes r = [] \<and> tcr_Anomalies r = []) \<and>
    (observed (preProcessHistory h) \<or> opts_ConsistencyModels opts = None \<and> preceded (preProcessHistory h) \<longrightarrow> Outs g \<noteq> [])"
  using serial_verdict_spec [OF S opts, of \<rho>] unfolding verdict_on_def .

theorem serial_history_accepted_witness:
  "let h = [event 0 0 OpTypeInvoke [Append ''x'' 1], event 1 0 OpTypeOk [Append ''x'' 1],
            event 2 1 OpTypeInvoke [Read ''x'' None, Append ''x'' 2], event 3 1 OpTypeOk [Read ''x'' (Some [1]), Append ''x'' 2],
            event 4 0 OpTypeInvoke [Append ''y'' 7], event 5 0 OpTypeFail [Append ''y'' 7]];
       opts = \<lparr>opts_ConsistencyModels = None, opts_Anomalies = [], opts_AdditionalGraphs = []\<rparr> :: unit Opts
   in \<exists>r. ListAppend_Check fifo opts h = Some r \<and> tcr_Valid r \<and> tcr_AnomalyTypes r = []"
proof -
  let ?h = "[event 0 0 OpTypeInvoke [Append ''x'' 1], event 1 0 OpTypeOk [Append ''x'' 1],
            event 2 1 OpTypeInvoke [Read ''x'' None, Append ''x'' 2], event 3 1 OpTypeOk [Read ''x'' (Some [1]), Append ''x'' 2],
            event 4 0 OpTypeInvoke [Append ''y'' 7], event 5 0 OpTypeFail [Append ''y'' 7]]"
  have S: "serial_history (preProcessHistory ?h)" and "observed (preProcessHistory ?h)" by code_simp+
  with serial_history_accepted [OF S, of "\<lparr>opts_ConsistencyModels = None, opts_Anomalies = [], opts_AdditionalGraphs = []\<rparr> :: unit Opts" fifo]
  show ?thesis unfolding Let_def by fastforce
qed

end
