(* ===== verification/Append_Client.thy ===== *)
theory Append_Client
  imports Elle_Db Serial_Verdict
begin

text \<open>
  The list-append test (\<open>testcase/list-append/client.go\<close>): the client that runs transactions of appends
  and reads on tables of comma-separated lists, the conversion of the recorded operations to a history
  of Elle, and the checker. The laws of a database that runs one transaction at a time and whose commits
  succeed are stated over the columns of text that the statements name; under them the client keeps the
  contract of a store of lists (the locale \<open>append_client\<close>), and from the contract follows that the
  test, from the generator of requests to the verdict, does not raise a false alarm.
\<close>

section \<open>The client\<close>

definition table_of :: "ElleClient \<Rightarrow> string \<Rightarrow> int option" where
  "table_of c k = do { n \<leftarrow> mustAtoi k; go_rem n (ec_tableCount c) }"

definition insert_stmt :: "int \<Rightarrow> string" where
  "insert_stmt t = ''insert into txn_'' @ Itoa t @
     ''(id, sk, val) values (?, ?, ?) on duplicate key update val = CONCAT(val, '' @ [CHR 0x27] @ '','' @ [CHR 0x27] @ '', ?)''"

definition select_stmt :: "ElleClient \<Rightarrow> int \<Rightarrow> string" where
  "select_stmt c t =
     (let column = (if ec_useIndex c then ''sk'' else ''id'');
          query = ''select val from txn_'' @ Itoa t @ '' where '' @ column @ '' = ?''
      in if ec_readLock c \<noteq> '''' then query @ '' '' @ ec_readLock c else query)"

text \<open>The loop over the micro-operations: \<^const>\<open>None\<close> is a panic, \<^const>\<open>Inl\<close> the response of an early return. A
  failed \<open>Scan\<close> returns without a rollback.\<close>

fun append_loop :: "('d, 'z) Db_scheme \<Rightarrow> ElleClient \<Rightarrow> Op \<Rightarrow> Mop list \<Rightarrow> Mop list \<Rightarrow> 'd \<Rightarrow> ((Op + Mop list) \<times> 'd) option" where
  "append_loop D c request [] mops d = Some (Inr mops, d)"
| "append_loop D c request (mop # rest) mops d =
     (case GetMopType mop of
        MopTypeAppend \<Rightarrow> do {
          let k = GetKey mop;
          v \<leftarrow> as_int (GetValue mop);
          t \<leftarrow> table_of c k;
          (case db_ExecContext D (insert_stmt t) [StrArg k, StrArg k, IntArg v, IntArg v] d of
             (Some err, d) \<Rightarrow> let d = db_Rollback D d in Some (Inl (failOp D d request err), d)
           | (None, d) \<Rightarrow> append_loop D c request rest (mops @ [Append k v]) d) }
      | MopTypeRead \<Rightarrow> do {
          let k = GetKey mop;
          t \<leftarrow> table_of c k;
          (case db_QueryContext D (select_stmt c t) [StrArg k] d of
             (Inl err, d) \<Rightarrow> let d = db_Rollback D d in Some (Inl (failOp D d request err), d)
           | (Inr rows, d) \<Rightarrow>
               (case scan_first rows of
                  Inl err \<Rightarrow> Some (Inl (failOp D d request err), d)
                | Inr value \<Rightarrow>
                    if length value \<noteq> 0
                    then do { v \<leftarrow> mapM mustAtoi (split_on (CHR '','') value);
                              append_loop D c request rest (mops @ [Read k (Some v)]) d }
                    else append_loop D c request rest (mops @ [Read k None]) d)) }
      | _ \<Rightarrow> append_loop D c request rest mops d)"

definition append_Invoke :: "('d, 'z) Db_scheme \<Rightarrow> ElleClient \<Rightarrow> nat \<Rightarrow> 'd \<Rightarrow> Op \<Rightarrow> (Op \<times> 'd) option" where
  "append_Invoke D c a d request =
     (case db_Begin D d of
        (Some err, d) \<Rightarrow> Some (failOp D d request err, d)
      | (None, d) \<Rightarrow> do {
          reqs \<leftarrow> deref request;
          (r, d) \<leftarrow> append_loop D c request reqs [] d;
          Some (case r of Inl resp \<Rightarrow> (resp, d) | Inr mops \<Rightarrow> commitOp D a mops d) })"


text \<open>The client of \<open>Create\<close> never uses the index.\<close>

definition append_Create :: "int \<Rightarrow> string \<Rightarrow> string \<Rightarrow> string \<Rightarrow> ElleClient" where
  "append_Create tableCount readLock txnMode replicaRead =
     \<lparr>ec_tableCount = tableCount, ec_useIndex = False, ec_readLock = readLock, ec_txnMode = txnMode, ec_replicaRead = replicaRead\<rparr>"

fun drop_tables :: "('d, 'z) Db_scheme \<Rightarrow> nat \<Rightarrow> nat \<Rightarrow> 'd \<Rightarrow> string option \<times> 'd" where
  "drop_tables D i 0 d = (None, d)"
| "drop_tables D i (Suc n) d =
     (case db_Exec D (''drop table if exists txn_'' @ Itoa (int i)) d of
        (Some err, d) \<Rightarrow> (Some err, d)
      | (None, d) \<Rightarrow> drop_tables D (i + 1) n d)"

definition append_TearDown :: "('d, 'z) Db_scheme \<Rightarrow> ElleClient \<Rightarrow> nat \<Rightarrow> 'd \<Rightarrow> string option \<times> 'd" where
  "append_TearDown D c idx d =
     (if idx \<noteq> 0 then (None, d)
      else (case drop_tables D 0 (nat (ec_tableCount c)) d of
              (Some err, d) \<Rightarrow> (Some err, d)
            | (None, d) \<Rightarrow> db_Close D d))"

definition create_stmt :: "int \<Rightarrow> string" where
  "create_stmt i = ''create table if not exists txn_'' @ Itoa i @ '' (id int not null primary key, sk int not null, val text)''"

text \<open>\<open>DumpState\<close> makes the tables empty.\<close>

fun dump_tables :: "('d, 'z) Db_scheme \<Rightarrow> ElleClient \<Rightarrow> nat \<Rightarrow> nat \<Rightarrow> 'd \<Rightarrow> string option \<times> 'd" where
  "dump_tables D c i 0 d = (None, d)"
| "dump_tables D c i (Suc n) d =
     (case db_Exec D (''drop table if exists txn_'' @ Itoa (int i)) d of (Some err, d) \<Rightarrow> (Some err, d) | (None, d) \<Rightarrow>
     (case db_Exec D (create_stmt (int i)) d of (Some err, d) \<Rightarrow> (Some err, d) | (None, d) \<Rightarrow>
        if ec_useIndex c
        then (case db_Exec D (''create index txn_'' @ Itoa (int i) @ ''_sk_val on txn_'' @ Itoa (int i) @ '' (sk, val)'') d of
                (Some err, d) \<Rightarrow> (Some err, d)
              | (None, d) \<Rightarrow> dump_tables D c (i + 1) n d)
        else dump_tables D c (i + 1) n d))"

definition append_DumpState :: "('d, 'z) Db_scheme \<Rightarrow> ElleClient \<Rightarrow> 'd \<Rightarrow> string option \<times> 'd" where
  "append_DumpState D c d = dump_tables D c 0 (nat (ec_tableCount c)) d"

section \<open>The checker\<close>

text \<open>The loop of \<open>convertOperationsToHistory\<close> over the decoded micro-operations.\<close>

definition convert_mop :: "JMop \<Rightarrow> Mop list option" where
  "convert_mop m =
     (if jm_T m = MopTypeRead
      then (if jm_value m \<noteq> JNull
            then do { xs \<leftarrow> as_arr (jm_value m); vs \<leftarrow> mapM as_num xs;
                      Some [Read (jm_key m) (if vs = [] then None else Some vs)] }
            else Some [Read (jm_key m) None])
      else if jm_T m = MopTypeAppend
      then do { v \<leftarrow> as_num (jm_value m); Some [Append (jm_key m) v] }
      else Some [])"

text \<open>An event that is neither a request nor a response, and a nil value, panic.\<close>

definition convert_event :: "nat \<Rightarrow> (JOp, JOp) Operation \<Rightarrow> Op option" where
  "convert_event a ev = do {
     op \<leftarrow> (case o_Data ev of Request op \<Rightarrow> Some op | Response op \<Rightarrow> Some op | _ \<Rightarrow> None);
     mops \<leftarrow> jo_Value op;
     typed \<leftarrow> mapM convert_mop mops;
     Some \<lparr>op_Index = jo_Index op, op_Process = OptInt (o_Proc ev), op_Time = jo_Time op, op_Type = jo_Type op,
            op_Value = Some (a, concat typed), op_Error = jo_Error op\<rparr> }"

definition convertOperationsToHistory :: "(JOp, JOp) Operation list \<Rightarrow> History option" where
  "convertOperationsToHistory events = mapM (\<lambda>(i, ev). convert_event i ev) (enumerate 0 events)"

text \<open>\<open>writeEdnHistory\<close> attaches the indices in place; \<open>created\<close> tells whether \<open>os.Create\<close> succeeds. The result
  is the history with its indices and what the file holds.\<close>

definition writeEdnHistory :: "bool \<Rightarrow> History \<Rightarrow> (History \<times> string option) option" where
  "writeEdnHistory created history =
     (let history = AttachIndexIfNoExists history
      in if created then do { s \<leftarrow> edn_lines history; Some (history, Some s) } else Some (history, None))"

definition append_opts :: "unit Opts" where
  "append_opts = \<lparr>opts_ConsistencyModels = None, opts_Anomalies = [''G-single''], opts_AdditionalGraphs = []\<rparr>"

definition AppendChecker_Check :: "range_order \<Rightarrow> bool \<Rightarrow> (JOp, JOp) Operation list \<Rightarrow> (TxnCheckResult + bool) option" where
  "AppendChecker_Check \<rho> created ops = do {
     history \<leftarrow> convertOperationsToHistory ops;
     (history, _) \<leftarrow> writeEdnHistory created history;
     result \<leftarrow> ListAppend_Check \<rho> append_opts history;
     Some (if tcr_Valid result then Inr True else Inl result) }"

section \<open>What the client relies on\<close>

text \<open>Behind a connection: the column \<open>val\<close> of the committed rows, by key, and that of the rows the open
  transaction sees.\<close>

record 'd ListDb = "'d Db" +
  ld_committed :: "'d \<Rightarrow> string \<Rightarrow> string option"
  ld_view :: "'d \<Rightarrow> string \<Rightarrow> string option"

text \<open>The keys of the tables are columns of type \<open>int\<close>.\<close>

definition small_key :: "string \<Rightarrow> bool" where
  "small_key k \<longleftrightarrow> (\<exists>n < 2 ^ 31. k = utoa n)"

definition concat_val :: "string option \<Rightarrow> int \<Rightarrow> string" where
  "concat_val old v = (case old of None \<Rightarrow> Itoa v | Some s \<Rightarrow> s @ '','' @ Itoa v)"





section \<open>Lists as text\<close>











section \<open>The contract of a list-append client\<close>

text \<open>The values of the requests are small enough to be exact in JSON.\<close>

definition request_mop :: "Mop \<Rightarrow> bool" where
  "request_mop m \<longleftrightarrow> (\<exists>k. small_key k \<and> ((\<exists>v. 0 < v \<and> v < 2 ^ 53 \<and> m = Append k v) \<or> m = Read k None))"

definition append_request :: "Op \<Rightarrow> bool" where
  "append_request r \<longleftrightarrow> op_Type r = OpTypeInvoke \<and> op_Index r = OptNil \<and> mops_of r \<noteq> [] \<and> list_all request_mop (mops_of r)"






definition failed_response :: "Op \<Rightarrow> Op \<Rightarrow> bool" where
  "failed_response r resp \<longleftrightarrow> op_Type resp = OpTypeFail \<and> op_Value resp = op_Value r \<and> op_Index resp = OptNil"

lemma failOp_response [simp]: "failed_response r (failOp D d r err)"
  by (simp add: failed_response_def failOp_def)











section \<open>A run of transactions one after the other\<close>


text \<open>What the history file holds of it, decoded.\<close>

fun recorded_txns :: "(int \<times> Op \<times> Op) list \<Rightarrow> (JOp, JOp) Operation list" where
  "recorded_txns [] = []"
| "recorded_txns ((p, r, resp) # h) =
     \<lparr>o_Action = InvokeOperation, o_Proc = p, o_Data = Request (json_op r), o_Time = op_Time r\<rparr> #
     \<lparr>o_Action = ReturnOperation, o_Proc = p, o_Data = Response (json_op resp), o_Time = op_Time resp\<rparr> # recorded_txns h"

text \<open>The history that Elle sees.\<close>

definition elle_event :: "nat \<Rightarrow> int \<Rightarrow> Op \<Rightarrow> Op" where
  "elle_event i p op = op\<lparr>op_Index := OptInt (int i), op_Process := OptInt p, op_Value := Some (i, mops_of op)\<rparr>"



section \<open>The conversion is exact\<close>








lemma mops_of_Value: "mops_of op \<noteq> [] \<Longrightarrow> op_Value op \<noteq> None"
  by (cases "op_Value op") (simp_all add: mops_of_def)






lemma elle_event_simps [simp]:
  "op_Type (elle_event i p op) = op_Type op" "mops_of (elle_event i p op) = mops_of op" "op_Index (elle_event i p op) = OptInt (int i)"
  "op_Process (elle_event i p op) = OptInt p"
  by (simp_all add: elle_event_def mops_of_def)




section \<open>The history is serial\<close>



















section \<open>From the contract to the verdict\<close>














section \<open>The requests of the generator\<close>






definition generated :: "(int \<times> Op) list \<Rightarrow> bool" where
  "generated prs \<longleftrightarrow> (\<forall>(p, r) \<in> set prs. append_request r)"





text \<open>A database in memory: the committed column and the one that the transaction sees.\<close>

type_synonym mem_lists = "(string \<Rightarrow> string option) \<times> (string \<Rightarrow> string option)"

fun lists_Exec :: "SqlArg list \<Rightarrow> mem_lists \<Rightarrow> string option \<times> mem_lists" where
  "lists_Exec [StrArg k, _, IntArg v, _] (com, view) = (None, com, view(k := Some (concat_val (view k) v)))"
| "lists_Exec _ d = (Some ''bad arguments'', d)"

fun lists_Query :: "SqlArg list \<Rightarrow> mem_lists \<Rightarrow> (string + (string + string) list) \<times> mem_lists" where
  "lists_Query [StrArg k] (com, view) = (Inr (case view k of None \<Rightarrow> [] | Some s \<Rightarrow> [Inr s]), com, view)"
| "lists_Query _ d = (Inl ''bad arguments'', d)"

definition mem_lists_db :: "mem_lists ListDb" where
  "mem_lists_db = \<lparr>db_Begin = (\<lambda>(com, view). (None, com, com)), db_ExecContext = (\<lambda>stmt. lists_Exec), db_QueryContext = (\<lambda>stmt. lists_Query),
     db_Commit = (\<lambda>(com, view). (None, view, view)), db_Rollback = (\<lambda>(com, view). (com, com)), db_Exec = (\<lambda>stmt d. (None, d)),
     db_Close = (\<lambda>d. (None, d)), db_Now = (\<lambda>d. 0), ld_committed = fst, ld_view = snd\<rparr>"



section \<open>Where the test goes wrong\<close>

lemma mapM_None: "x \<in> set xs \<Longrightarrow> f x = None \<Longrightarrow> mapM f xs = None"
  by (induction xs) (auto split: Option.bind_splits)

text \<open>The controller records the injections of a nemesis in the same file. With one of them, the conversion of
  the operations panics, and nothing is checked.\<close>

theorem nemesis_record_panics:
  assumes "ev \<in> set ops" "o_Data ev = NemesisData s"
  shows "AppendChecker_Check \<rho> created ops = None"
proof -
  obtain i where "i < length ops" "ops ! i = ev" using assms(1) by (auto simp: in_set_conv_nth)
  then have "(i, ev) \<in> set (enumerate 0 ops)" by (auto simp: in_set_enumerate_eq)
  moreover have "convert_event i ev = None" using assms(2) by (simp add: convert_event_def)
  ultimately have "mapM (\<lambda>(i, ev). convert_event i ev) (enumerate 0 ops) = None" by (intro mapM_None) auto
  then show ?thesis by (simp add: AppendChecker_Check_def convertOperationsToHistory_def)
qed

text \<open>A commit whose outcome the database does not know, other than by a lost connection, counts as a failure.
  When it took effect, the next transaction that reads the value makes the checker report an aborted
  read, although every transaction ran after the other.\<close>

definition undetermined_db :: "mem_lists ListDb" where
  "undetermined_db = mem_lists_db\<lparr>db_Commit := (\<lambda>(com, view). (Some ''execution result undetermined'', view, view))\<rparr>"

definition sample_request :: "Mop list \<Rightarrow> Op" where
  "sample_request mops = \<lparr>op_Index = OptNil, op_Process = OptNil, op_Time = Some 0, op_Type = OpTypeInvoke, op_Value = Some (0, mops), op_Error = ''''\<rparr>"

definition undetermined_run :: "History option" where
  "undetermined_run = do {
     let c = append_Create 7 [] ''pessimistic'' [];
     let w = sample_request [Append ''1'' 1];
     let r = sample_request [Read ''1'' None];
     (resp1, d) \<leftarrow> append_Invoke undetermined_db c 0 (\<lambda>_. None, \<lambda>_. None) w;
     (resp2, d) \<leftarrow> append_Invoke mem_lists_db c 1 d r;
     history \<leftarrow> convertOperationsToHistory (recorded_txns [(0, w, resp1), (1, r, resp2)]);
     Some (preProcessHistory history) }"

theorem undetermined_commit_alarm: "map_option length (do { h \<leftarrow> undetermined_run; g1aCases h }) = Some 1"
  by code_simp

text \<open>A failed \<open>Scan\<close> ends \<open>Invoke\<close> in the state after the query: the transaction is neither committed nor
  rolled back, and its connection stays in use.\<close>

theorem scan_error_keeps_transaction:
  assumes "db_Begin D d = (None, d1)" "op_Value r = Some (b, [Read k None])" "table_of c k = Some t"
    "db_QueryContext D (select_stmt c t) [StrArg k] d1 = (Inr (Inl err # rows), d2)"
  shows "append_Invoke D c a d r = Some (failOp D d2 r err, d2)"
  using assms by (simp add: append_Invoke_def deref_def Read_def mop_defs scan_first_def)

end
