(* ===== verification/Rw_Register.thy ===== *)
theory Rw_Register
  imports Txn
begin

text \<open>
  The checker of read-write registers: \<open>pkg/elle/rw_register/utils.go\<close> and \<open>rw_register.go\<close>.

  Every key holds an int, or nil before the first write; writes are unique per key. The order of
  the versions of a key cannot be read off the values as in a list, so it is inferred: the
  initial state precedes the first version seen, a transaction that reads and then writes a key
  orders the two versions, and on request the order of a process or of real time orders the
  versions its transactions touch. The version graphs give the write-write and read-write
  dependencies of transactions. A name that \<open>list_append\<close> uses too has the prefix \<open>reg_\<close>.
\<close>

section \<open>External reads and writes\<close>

type_synonym ext_map = "(string, RegInt) gomap"

text \<open>The first micro-operation on a key decides; \<open>v.(Int)\<close> panics on any other value.\<close>

definition extReadKeys :: "Op \<Rightarrow> ext_map option" where
  "extReadKeys op = do {
     mops \<leftarrow> deref op;
     (res, _) \<leftarrow> foldM (\<lambda>mop (res, ignore). do {
         i \<leftarrow> as_Int (GetValue mop);
         let k = GetKey mop;
         Some (if k \<notin> keys ignore \<and> IsRead mop then AList.update k i res else res,
               AList.update k () ignore) }) mops ([], []);
     Some res }"

text \<open>Writing nil panics.\<close>

definition extWriteKeys :: "Op \<Rightarrow> ext_map option" where
  "extWriteKeys op = do {
     mops \<leftarrow> deref op;
     foldM (\<lambda>mop res.
       if IsWrite mop
       then do {
         i \<leftarrow> as_Int (GetValue mop);
         if int_IsNil i then None else Some (AList.update (GetKey mop) i res) }
       else Some res) mops [] }"

definition isExtIndexRel :: "Rel \<Rightarrow> string \<times> bool" where
  "isExtIndexRel rel =
     (if str_prefix (rel_string ExtKey) (rel_string rel) \<and> length (rel_string rel) > 8
      then (drop 8 (rel_string rel), True) else ('''', False))"

type_synonym version_graphs = "(string, DirectedGraph) gomap"

text \<open>\<open>v.Value.(Int)\<close>\<close>

fun as_version :: "Vertex \<Rightarrow> RegInt option" where
  "as_version (VReg i) = Some i"
| "as_version _ = None"

text \<open>The key and the two versions; the empty key with two nils when there is no dependency.\<close>

definition explainOpDeps :: "range_order \<Rightarrow> version_graphs \<Rightarrow> (Op \<Rightarrow> ext_map option) \<Rightarrow> Op \<Rightarrow>
    (Op \<Rightarrow> ext_map option) \<Rightarrow> Op \<Rightarrow> (string \<times> RegInt \<times> RegInt) option" where
  "explainOpDeps \<rho> graphs extA a extB b = do {
     akvs \<leftarrow> extA a;
     bkvs \<leftarrow> extB b;
     found \<leftarrow> findM (\<lambda>(i, k, aval).
         case (map_of graphs k, map_of bkvs k) of
           (Some graph, Some bval) \<Rightarrow>
             (case map_of (Outs graph) (VReg aval) of
                None \<Rightarrow> Some None
              | Some out_map \<Rightarrow>
                  findM (\<lambda>out. do {
                      v \<leftarrow> as_version out;
                      Some (if Int_Eq v bval then Some (k, aval, bval) else None) })
                    (go_range (sub \<rho> i) (map fst out_map)))
         | _ \<Rightarrow> Some None) (enumerate 1 (go_range (sub \<rho> 0) akvs));
     Some (case found of Some r \<Rightarrow> r | None \<Rightarrow> ('''', NewNil, NewNil)) }"

section \<open>Internal consistency, aborted and intermediate reads\<close>

fun internalOp_loop :: "Op \<Rightarrow> ext_map \<Rightarrow> Mop list \<Rightarrow> Anomaly option option" where
  "internalOp_loop op dataMap [] = Some None"
| "internalOp_loop op dataMap (mop # mops) =
     (if IsWrite mop
      then do {
        vint \<leftarrow> as_Int (GetValue mop);
        if int_IsNil vint then None
        else internalOp_loop op (AList.update (GetKey mop) vint dataMap) mops }
      else if IsRead mop
      then do {
        vint \<leftarrow> as_Int (GetValue mop);
        if int_IsNil vint then internalOp_loop op dataMap mops
        else (case map_of dataMap (GetKey mop) of
                None \<Rightarrow> internalOp_loop op (AList.update (GetKey mop) vint dataMap) mops
              | Some prev \<Rightarrow>
                  if \<not> Int_Eq prev vint
                  then Some (Some (RegInternalConflict op mop (mop\<lparr>mop_key := GetKey mop, mop_value := MV_Int prev\<rparr>)))
                  else internalOp_loop op dataMap mops) }
      else internalOp_loop op dataMap mops)"

definition internalOp :: "Op \<Rightarrow> Anomaly option option" where
  "internalOp op = do { mops \<leftarrow> deref op; internalOp_loop op [] mops }"

definition internal :: "History \<Rightarrow> Anomaly list option" where
  "internal history = foldM (\<lambda>op tp. do {
       res \<leftarrow> internalOp op;
       Some (case res of None \<Rightarrow> tp | Some a \<Rightarrow> tp @ [a]) }) (FilterOkHistory history) []"

text \<open>A \<open>KVEntity\<close> is a pair of a key and a version.\<close>

type_synonym kv_writers = "(string \<times> RegInt, Op) gomap"

text \<open>The value a write stores; nil panics.\<close>

definition written :: "Mop \<Rightarrow> RegInt option" where
  "written mop = do { i \<leftarrow> as_Int (GetValue mop); if int_IsNil i then None else Some i }"

definition failed_writes :: "History \<Rightarrow> kv_writers option" where
  "failed_writes history = foldM (\<lambda>op failedMap. do {
       mops \<leftarrow> deref op;
       foldM (\<lambda>mop failedMap.
         if IsWrite mop
         then do { i \<leftarrow> written mop; Some (AList.update (GetKey mop, i) op failedMap) }
         else Some failedMap) mops failedMap }) (FilterFailedHistory history) []"

definition intermediate_writes :: "History \<Rightarrow> kv_writers option" where
  "intermediate_writes history = foldM (\<lambda>op interMap. do {
       mops \<leftarrow> deref op;
       (interMap', _) \<leftarrow> foldM (\<lambda>mop (interMap, valMap).
         if IsWrite mop
         then do {
           i \<leftarrow> written mop;
           Some (case map_of valMap (GetKey mop) of
                   Some old \<Rightarrow> AList.update (GetKey mop, old) op interMap
                 | None \<Rightarrow> interMap,
                 AList.update (GetKey mop) i valMap) }
         else Some (interMap, valMap)) mops (interMap, []);
       Some interMap' }) (FilterOkHistory history) []"

text \<open>The loop over the successful reads, given which writer counts as a conflict of a reader.\<close>

definition read_conflicts :: "kv_writers \<Rightarrow> (Op \<Rightarrow> Op \<Rightarrow> bool) \<Rightarrow> History \<Rightarrow> Anomaly list option" where
  "read_conflicts m bad history = foldM (\<lambda>op anomalies. do {
       mops \<leftarrow> deref op;
       foldM (\<lambda>mop anomalies.
         if IsRead mop
         then do {
           i \<leftarrow> as_Int (GetValue mop);
           Some (if int_IsNil i then anomalies
                 else (case map_of m (GetKey mop, i) of
                         Some writer \<Rightarrow>
                           if bad op writer then anomalies @ [RegG1Conflict op mop writer (GetKey mop)] else anomalies
                       | None \<Rightarrow> anomalies)) }
         else Some anomalies) mops anomalies }) (FilterOkHistory history) []"

definition reg_g1aCases :: "History \<Rightarrow> Anomaly list option" where
  "reg_g1aCases history = do {
     failedMap \<leftarrow> failed_writes history;
     read_conflicts failedMap (\<lambda>_ _. True) history }"

definition reg_g1bCases :: "History \<Rightarrow> Anomaly list option" where
  "reg_g1bCases history = do {
     interMap \<leftarrow> intermediate_writes history;
     read_conflicts interMap (\<lambda>op interOp. op \<noteq> interOp) history }"

section \<open>Write-read dependencies\<close>

type_synonym ext_index = "(string, (RegInt, Op list) gomap) gomap"

definition extIndex :: "range_order \<Rightarrow> (Op \<Rightarrow> ext_map option) \<Rightarrow> History \<Rightarrow> ext_index option" where
  "extIndex \<rho> fn history = foldM (\<lambda>(i, op) res. do {
       extKV \<leftarrow> fn op;
       Some (fold (\<lambda>(k, v) res.
           let m = get_or [] res k
           in AList.update k (AList.update v (get_or [] m v @ [op]) m) res)
         (go_range (sub \<rho> i) extKV) res) }) (enumerate 0 (FilterOkHistory history)) []"

definition explain_reg_wr :: "range_order \<Rightarrow> Op \<Rightarrow> Op \<Rightarrow> ExplainResult option option" where
  "explain_reg_wr \<rho> a b = do {
     writes \<leftarrow> extWriteKeys a;
     reads \<leftarrow> extReadKeys b;
     Some (map_option (\<lambda>(k, wv). RegWRExplainResult k wv)
       (List.find (\<lambda>(k, wv). case map_of reads k of Some rv \<Rightarrow> Int_Eq rv wv | None \<Rightarrow> False)
          (go_range \<rho> writes))) }"

definition reg_wrExplainer :: DataExplainer where
  "reg_wrExplainer = StatelessExplainer explain_reg_wr
     (\<lambda>result a b. do {
        r \<leftarrow> typed WRDepend result;
        (case r of
           RegWRExplainResult k value \<Rightarrow>
             Some [Txt (b @ '' read '' @ k @ '' written by '' @ a @ '' with value '' @ Int_String value)]
         | _ \<Rightarrow> None) })"

text \<open>Two successful writers of one version panic.\<close>

definition link_wr :: "ext_index \<Rightarrow> string \<Rightarrow> RegInt \<times> Op list \<Rightarrow> DirectedGraph \<Rightarrow> DirectedGraph option" where
  "link_wr extWriteIndex k = (\<lambda>(v, rops) g.
     case map_of extWriteIndex k of
       None \<Rightarrow> Some g
     | Some wvals \<Rightarrow>
         (case map_of wvals v of
            None \<Rightarrow> Some g
          | Some wops \<Rightarrow>
              if length wops = 0 then Some g
              else if length wops = 1 then Some (LinkToAll (VOp (hd wops)) (map VOp rops) WR g)
              else None))"

definition reg_wrGraph :: "'o Analyzer" where
  "reg_wrGraph \<rho> h opts = do {
     let history = FilterOkHistory h;
     extReadIndex \<leftarrow> extIndex (sub \<rho> 0) extReadKeys history;
     extWriteIndex \<leftarrow> extIndex (sub \<rho> 1) extWriteKeys history;
     g \<leftarrow> foldM (\<lambda>(i, k, rvals) g. foldM (link_wr extWriteIndex k) (go_range (sub \<rho> i) rvals) g)
       (enumerate 3 (go_range (sub \<rho> 2) extReadIndex)) NewDirectedGraph;
     Some (None, Some g, reg_wrExplainer) }"

section \<open>Version graphs\<close>

definition getKeys :: "Op \<Rightarrow> string list option" where
  "getKeys op = do {
     mops \<leftarrow> deref op;
     Some (fst (fold (\<lambda>mop (ks, dup).
         if op_Type op = OpTypeInfo \<and> IsRead mop then (ks, dup)
         else (let k = GetKey mop
               in if k \<notin> keys dup then (ks @ [k], AList.update k () dup) else (ks, dup))) mops ([], []))) }"

fun getVersion_loop :: "string \<Rightarrow> OpType \<Rightarrow> MopType \<Rightarrow> RegInt \<Rightarrow> Mop list \<Rightarrow> RegInt option" where
  "getVersion_loop k op_tp tp r [] = Some r"
| "getVersion_loop k op_tp tp r (mop # mops) =
     (if op_tp = OpTypeInfo \<and> IsRead mop then getVersion_loop k op_tp tp r mops
      else if k = GetKey mop
      then do {
        (tp', r', return_now) \<leftarrow>
          (if tp = MopTypeUnknown
           then do { i \<leftarrow> as_Int (GetValue mop); Some (mop_T mop, i, mop_T mop = MopTypeRead) }
           else Some (tp, r, False));
        if return_now then Some r'
        else if tp' = MopTypeWrite \<and> tp' = mop_T mop
        then do { i \<leftarrow> as_Int (GetValue mop); getVersion_loop k op_tp tp' i mops }
        else getVersion_loop k op_tp tp' r' mops }
      else getVersion_loop k op_tp tp r mops)"

definition getVersion :: "string \<Rightarrow> Op \<Rightarrow> RegInt option" where
  "getVersion k op = do { mops \<leftarrow> deref op; getVersion_loop k (op_Type op) MopTypeUnknown NewNil mops }"

text \<open>
  \<open>find\<close> looks along the edges labelled \<open>rel\<close> for the next transactions that touch the key. Its
  cache is shared by all calls. The recursion follows the graph and would not return on a cycle;
  \<open>find_nexts\<close> is the loop over the successors, with the recursive call unfolded in it.
\<close>

type_synonym find_cache = "(string, (Op, Op list) gomap) gomap"

definition touches :: "string \<Rightarrow> Op \<Rightarrow> bool option" where
  "touches key nextOp = do {
     mops \<leftarrow> deref nextOp;
     Some (list_ex (\<lambda>mop. key = GetKey mop \<and>
       (IsWrite mop \<and> (op_Type nextOp = OpTypeOk \<or> op_Type nextOp = OpTypeInfo) \<or>
        IsRead mop \<and> op_Type nextOp = OpTypeOk)) mops) }"

definition cache_put :: "string \<Rightarrow> Op \<Rightarrow> Op list \<Rightarrow> find_cache \<Rightarrow> find_cache" where
  "cache_put key op ops cache = AList.update key (AList.update op ops (get_or [] cache key)) cache"

partial_function (option) find_nexts :: "range_order \<Rightarrow> Rel \<Rightarrow> DirectedGraph \<Rightarrow> string \<Rightarrow> Op \<Rightarrow> nat \<Rightarrow>
    (Vertex \<times> Rel list) list \<Rightarrow> Op list \<Rightarrow> find_cache \<Rightarrow> (Op list \<times> find_cache) option" where
  "find_nexts \<rho> rel graph key op i nexts ops cache =
     (case nexts of
        [] \<Rightarrow> Some (ops, cache)
      | (vertex, rs) # nexts \<Rightarrow>
          if rel \<notin> set rs then find_nexts \<rho> rel graph key op (Suc i) nexts ops cache
          else do {
            nextOp \<leftarrow> as_Op vertex;
            stopNext \<leftarrow> touches key nextOp;
            if stopNext
            then find_nexts \<rho> rel graph key op (Suc i) nexts (ops @ [nextOp]) (cache_put key op [nextOp] cache)
            else do {
              (nextOps, cache) \<leftarrow>
                (let cache = ensure key [] cache
                 in case map_of (get_or [] cache key) nextOp of
                      Some found \<Rightarrow> Some (found, cache)
                    | None \<Rightarrow>
                        (case map_of (Outs graph) (VOp nextOp) of
                           None \<Rightarrow> Some ([], cache)
                         | Some m \<Rightarrow>
                             find_nexts (sub \<rho> i) rel graph key nextOp 1 (go_range (sub (sub \<rho> i) 0) m) [] cache));
              find_nexts \<rho> rel graph key op (Suc i) nexts (ops @ nextOps) (cache_put key op nextOps cache) } })"

declare find_nexts.simps [code]

definition find_ops :: "range_order \<Rightarrow> Rel \<Rightarrow> DirectedGraph \<Rightarrow> string \<Rightarrow> Op \<Rightarrow> find_cache \<Rightarrow>
    (Op list \<times> find_cache) option" where
  "find_ops \<rho> rel graph key op cache =
     (let cache = ensure key [] cache
      in case map_of (get_or [] cache key) op of
           Some found \<Rightarrow> Some (found, cache)
         | None \<Rightarrow>
             (case map_of (Outs graph) (VOp op) of
                None \<Rightarrow> Some ([], cache)
              | Some m \<Rightarrow> find_nexts \<rho> rel graph key op 1 (go_range (sub \<rho> 0) m) [] cache))"

definition link_versions :: "Rel \<Rightarrow> string \<Rightarrow> RegInt \<Rightarrow> Op list \<Rightarrow> DirectedGraph \<Rightarrow> DirectedGraph option" where
  "link_versions rel k selfV nexts g = foldM (\<lambda>nx g. do {
       nextV \<leftarrow> getVersion k nx;
       Some (if int_IsNil nextV then g
             else if Int_Eq selfV nextV then g
             else Link (VReg selfV) (VReg nextV) rel g) }) nexts g"

definition transactionGraph2VersionGraphs ::
  "range_order \<Rightarrow> Rel \<Rightarrow> History \<Rightarrow> DirectedGraph \<Rightarrow> version_graphs option" where
  "transactionGraph2VersionGraphs \<rho> rel history graph = do {
     (gs, _) \<leftarrow> foldM (\<lambda>(i, op) (gs, cache). do {
         ks \<leftarrow> getKeys op;
         foldM (\<lambda>(j, k) (gs, cache). do {
             (nexts, cache) \<leftarrow> find_ops (sub (sub \<rho> i) j) rel graph k op cache;
             let g = get_or NewDirectedGraph gs k;
             selfV \<leftarrow> getVersion k op;
             if int_IsNil selfV then None
             else do {
               g' \<leftarrow> link_versions rel k selfV nexts g;
               Some (AList.update k g' gs, cache) } }) (enumerate 0 ks) (gs, cache) })
       (enumerate 0 (FilterOkOrInfoHistory history)) ([], []);
     Some gs }"

definition initialStateVersionGraphs :: "range_order \<Rightarrow> History \<Rightarrow> version_graphs option" where
  "initialStateVersionGraphs \<rho> history = foldM (\<lambda>(i, op) vgs.
     if op_Type op = OpTypeFail \<or> op_Type op = OpTypeInvoke then Some vgs
     else do {
       kvs \<leftarrow> extWriteKeys op;
       kvs \<leftarrow> (if op_Type op = OpTypeOk
              then do {
                reads \<leftarrow> extReadKeys op;
                Some (fold (\<lambda>(k, v). AList.update k v) (go_range (sub (sub \<rho> i) 0) reads) kvs) }
              else Some kvs);
       Some (fold (\<lambda>(k, v) vgs.
           let g = get_or NewDirectedGraph vgs k
           in AList.update k (if VReg NewNil \<notin> keys (Outs g) then Link (VReg NewNil) (VReg v) InitialState g else g) vgs)
         (go_range (sub (sub \<rho> i) 1) kvs) vgs) }) (enumerate 0 history) []"

definition wfrVersionGraphs :: "range_order \<Rightarrow> History \<Rightarrow> version_graphs option" where
  "wfrVersionGraphs \<rho> history = foldM (\<lambda>(i, op) vgs. do {
       reads \<leftarrow> extReadKeys op;
       writes \<leftarrow> extWriteKeys op;
       Some (fold (\<lambda>(k, r) vgs.
           if int_IsNil r then vgs
           else (case map_of writes k of
                   None \<Rightarrow> vgs
                 | Some w \<Rightarrow> AList.update k (Link (VReg r) (VReg w) WFR (get_or NewDirectedGraph vgs k)) vgs))
         (go_range (sub \<rho> i) reads) vgs) }) (enumerate 0 (FilterOkHistory history)) []"

definition sequentialKeysGraphs :: "range_order \<Rightarrow> History \<Rightarrow> version_graphs option" where
  "sequentialKeysGraphs \<rho> history = do {
     (_, gp, _) \<leftarrow> ProcessGraph (sub \<rho> 0) history ([] :: unit list);
     g \<leftarrow> gp;
     transactionGraph2VersionGraphs (sub \<rho> 1) Process history g }"

definition linearizableKeysGraphs :: "range_order \<Rightarrow> History \<Rightarrow> version_graphs option" where
  "linearizableKeysGraphs \<rho> history = do {
     (_, gp, _) \<leftarrow> RealtimeGraph (sub \<rho> 0) history ([] :: unit list);
     g \<leftarrow> gp;
     transactionGraph2VersionGraphs (sub \<rho> 1) Realtime history g }"

definition mergeGraphs :: "range_order \<Rightarrow> version_graphs \<Rightarrow> version_graphs \<Rightarrow>
    (range_order \<Rightarrow> DirectedGraph list \<Rightarrow> DirectedGraph) \<Rightarrow> version_graphs" where
  "mergeGraphs \<rho> g1s g2s join =
     (let gs = fold (\<lambda>(i, k, g1).
                 AList.update k (case map_of g2s k of Some g2 \<Rightarrow> join (sub \<rho> i) [g1, g2] | None \<Rightarrow> g1))
               (enumerate 2 (go_range (sub \<rho> 0) g1s)) []
      in fold (\<lambda>(k, g2) gs. if k \<notin> keys gs then AList.update k g2 gs else gs) (go_range (sub \<rho> 1) g2s) gs)"

definition graph_sources :: "range_order \<Rightarrow> DirectedGraph \<Rightarrow> string list" where
  "graph_sources \<rho> graph = sort (go_set
     [rel_string rel. (i, a, out_map) \<leftarrow> enumerate 1 (go_range (sub \<rho> 0) (Outs graph)),
                      (b, rs) \<leftarrow> go_range (sub \<rho> i) out_map, rel \<leftarrow> rs])"

definition cyclicVersionCases :: "range_order \<Rightarrow> version_graphs \<Rightarrow> Anomalies option" where
  "cyclicVersionCases \<rho> versionGraphs = foldM (\<lambda>(i, key, graph) cases. do {
       let sources = graph_sources (sub (sub \<rho> i) 0) graph;
       sccs \<leftarrow> StronglyConnectedComponents (sub (sub \<rho> i) 1) graph;
       foldM (\<lambda>scc cases. do {
           iscc \<leftarrow> mapM as_version (scc_Vertices scc);
           Some (Merge (sub (sub \<rho> i) 2) [(''cyclic-versions'', [cyclicVersion key iscc sources])] cases) })
         sccs cases }) (enumerate 1 (go_range (sub \<rho> 0) versionGraphs)) []"

record GraphOption =
  LinearizableKeys :: bool
  SequentialKeys :: bool
  WfrKeys :: bool

definition version_analyzers ::
  "GraphOption \<Rightarrow> (string \<times> (range_order \<Rightarrow> History \<Rightarrow> version_graphs option)) list" where
  "version_analyzers opt =
     [(''initial-state-version-graphs'', initialStateVersionGraphs)]
     @ (if LinearizableKeys opt then [(''linearizable-keys-graphs'', linearizableKeysGraphs)] else [])
     @ (if SequentialKeys opt then [(''sequential-keys-graphs'', sequentialKeysGraphs)] else [])
     @ (if WfrKeys opt then [(''wfr-version-graphs'', wfrVersionGraphs)] else [])"

text \<open>A source of version edges that would close a cycle is reported and left out.\<close>

definition versionGraphs :: "range_order \<Rightarrow> History \<Rightarrow> GraphOption list \<Rightarrow>
    (Anomalies \<times> string list \<times> version_graphs) option" where
  "versionGraphs \<rho> history opts = do {
     opt \<leftarrow> (case opts of [] \<Rightarrow> None | opt # _ \<Rightarrow> Some opt);
     foldM (\<lambda>(i, source, analyzer) (anomalies, sources, gs). do {
         ags \<leftarrow> analyzer (sub (sub \<rho> i) 0) history;
         let nextGs = mergeGraphs (sub (sub \<rho> i) 1) gs ags DigraphUnion;
         cs \<leftarrow> cyclicVersionCases (sub (sub \<rho> i) 2) nextGs;
         Some (if length cs \<noteq> 0 then (Merge (sub (sub \<rho> i) 3) cs anomalies, sources, gs)
               else (anomalies, sources @ [source], nextGs)) })
       (enumerate 0 (version_analyzers opt)) ([], [], []) }"

section \<open>Write-write and read-write dependencies\<close>

definition link_version_edge :: "ext_index \<Rightarrow> ext_index \<Rightarrow> string \<Rightarrow> RegInt \<Rightarrow> RegInt \<Rightarrow> DirectedGraph \<Rightarrow> DirectedGraph" where
  "link_version_edge extReadIndex extWriteIndex key v1 v2 g =
     (let v1Reads = get_or [] (get_or [] extReadIndex key) v1;
          v1Writes = get_or [] (get_or [] extWriteIndex key) v1;
          v2Writes = get_or [] (get_or [] extWriteIndex key) v2
      in UnLinkSelfEdges (NewVerticesFromOp (v1Reads @ v1Writes @ v2Writes))
           (LinkAllToAll (NewVerticesFromOp v1Reads) (NewVerticesFromOp v2Writes) RW
             (LinkAllToAll (NewVerticesFromOp v1Writes) (NewVerticesFromOp v2Writes) WW g)))"

definition versionGraph2TransactionGraph ::
  "range_order \<Rightarrow> string \<Rightarrow> History \<Rightarrow> DirectedGraph \<Rightarrow> DirectedGraph option" where
  "versionGraph2TransactionGraph \<rho> key history versionGraph = do {
     extReadIndex \<leftarrow> extIndex (sub \<rho> 0) extReadKeys history;
     extWriteIndex \<leftarrow> extIndex (sub \<rho> 1) extWriteKeys history;
     foldM (\<lambda>(i, from, nexts) g. do {
         v1 \<leftarrow> as_version from;
         foldM (\<lambda>nx g. do {
             v2 \<leftarrow> as_version nx;
             Some (link_version_edge extReadIndex extWriteIndex key v1 v2 g) })
           (go_range (sub \<rho> i) (map fst nexts)) g })
       (enumerate 3 (go_range (sub \<rho> 2) (Outs versionGraph))) NewDirectedGraph }"

definition versionGraphs2TransactionGraph :: "range_order \<Rightarrow> History \<Rightarrow> version_graphs \<Rightarrow> DirectedGraph option" where
  "versionGraphs2TransactionGraph \<rho> history graphs = do {
     gs \<leftarrow> mapM (\<lambda>(i, k, g). versionGraph2TransactionGraph (sub \<rho> i) k history g)
       (enumerate 2 (go_range (sub \<rho> 0) graphs));
     Some (DigraphUnion (sub \<rho> 1) gs) }"

definition reg_wwExplainer :: "version_graphs \<Rightarrow> DataExplainer" where
  "reg_wwExplainer vgs = StatelessExplainer
     (\<lambda>\<rho> a b. do {
        (k, prev, v) \<leftarrow> explainOpDeps \<rho> vgs extWriteKeys a extWriteKeys b;
        Some (if \<not> int_IsNil prev \<and> \<not> int_IsNil v then Some (RegWWExplainResult k prev v) else None) })
     (\<lambda>result a b. do {
        r \<leftarrow> typed WWDepend result;
        (case r of
           RegWWExplainResult k prev v \<Rightarrow>
             Some [Txt (b @ '' written '' @ k @ '' with value '' @ Int_String prev @ '' written by '' @ a
                        @ '' with value '' @ Int_String v)]
         | _ \<Rightarrow> None) })"

definition reg_rwExplainer :: "version_graphs \<Rightarrow> DataExplainer" where
  "reg_rwExplainer vgs = StatelessExplainer
     (\<lambda>\<rho> a b. do {
        (k, prev, v) \<leftarrow> explainOpDeps \<rho> vgs extReadKeys a extWriteKeys b;
        Some (if \<not> int_IsNil prev \<or> \<not> int_IsNil v then Some (RegRWExplainResult k prev v) else None) })
     (\<lambda>result a b. do {
        r \<leftarrow> typed RWDepend result;
        (case r of
           RegRWExplainResult k prev v \<Rightarrow>
             Some [Txt (b @ '' read '' @ k @ '' with value '' @ Int_String prev @ '' written by '' @ a
                        @ '' with value '' @ Int_String v)]
         | _ \<Rightarrow> None) })"

definition WWRWGraph :: "GraphOption Analyzer" where
  "WWRWGraph \<rho> history opts = do {
     (anomalies, _, vgs) \<leftarrow> versionGraphs (sub \<rho> 0) history opts;
     txnGraph \<leftarrow> versionGraphs2TransactionGraph (sub \<rho> 1) history vgs;
     Some (Some anomalies, Some txnGraph, NewCombineExplainer [reg_wwExplainer vgs, reg_rwExplainer vgs]) }"

definition reg_graph :: "GraphOption Analyzer" where
  "reg_graph \<rho> history opts = Combine [reg_wrGraph, WWRWGraph] \<rho> history opts"

section \<open>The checker\<close>

definition Register_Check :: "range_order \<Rightarrow> GraphOption Opts \<Rightarrow> History \<Rightarrow> GraphOption \<Rightarrow> TxnCheckResult option" where
  "Register_Check \<rho> opts h graphOpt = do {
     let history = preProcessHistory h;
     g1a \<leftarrow> reg_g1aCases history;
     g1b \<leftarrow> reg_g1bCases history;
     internal_cases \<leftarrow> internal history;
     additionalGraphs \<leftarrow> AdditionalGraphs (sub \<rho> 0) opts;
     let analyzer = (if length additionalGraphs \<noteq> 0 then Combine (reg_graph # additionalGraphs) else reg_graph);
     checkResult \<leftarrow> Cycles (sub \<rho> 1) analyzer history [graphOpt];
     anomalies \<leftarrow> set_anomalies ''G1a'' g1a (cr_Anomalies checkResult);
     anomalies \<leftarrow> set_anomalies ''G1b'' g1b anomalies;
     anomalies \<leftarrow> set_anomalies ''internal'' internal_cases anomalies;
     ResultMap (sub \<rho> 2) opts anomalies }"

end
