(* ===== verification/Register_Laws.thy ===== *)
theory Register_Laws
  imports Rw_Register Serial_Verdict
begin

text \<open>
  The checker of read-write registers accepts serial histories. A store of registers is a map from keys to
  values, nil at first; the successful transactions, and some of those whose outcome is unknown, execute on
  it one after the other. None of the checks reports a case, the version graphs have no cycle and the
  dependency graph points forward.
\<close>

section \<open>Executing micro-operations on registers\<close>

type_synonym reg_store = "string \<Rightarrow> RegInt"

definition reg_of :: "Mop \<Rightarrow> RegInt" where
  "reg_of m = (case mop_value m of MV_Int i \<Rightarrow> i | _ \<Rightarrow> NewNil)"

text \<open>A write of an int, or a read of an int or nil.\<close>

definition reg_mop :: "Mop \<Rightarrow> bool" where
  "reg_mop m \<longleftrightarrow> mop_value m = MV_Int (reg_of m) \<and>
     (IsWrite m \<and> \<not> int_IsNil (reg_of m) \<or> IsRead m \<and> (int_IsNil (reg_of m) \<longrightarrow> reg_of m = NewNil))"

definition exec_reg :: "Mop \<Rightarrow> reg_store \<Rightarrow> reg_store option" where
  "exec_reg m st =
     (if IsWrite m then Some (st(GetKey m := reg_of m)) else if reg_of m = st (GetKey m) then Some st else None)"

lemma exec_reg_write: "IsWrite m \<Longrightarrow> exec_reg m st = Some (st(GetKey m := reg_of m))"
  by (simp add: exec_reg_def)

lemma exec_reg_read: "\<not> IsWrite m \<Longrightarrow> exec_reg m st = (if reg_of m = st (GetKey m) then Some st else None)"
  by (simp add: exec_reg_def)

definition apply_writes :: "Mop list \<Rightarrow> reg_store \<Rightarrow> reg_store" where
  "apply_writes = fold (\<lambda>m st. if IsWrite m then st(GetKey m := reg_of m) else st)"

text \<open>The last write of a key.\<close>

fun last_write :: "string \<Rightarrow> Mop list \<Rightarrow> RegInt option" where
  "last_write k [] = None"
| "last_write k (m # ms) =
     (case last_write k ms of Some i \<Rightarrow> Some i | None \<Rightarrow> if IsWrite m \<and> GetKey m = k then Some (reg_of m) else None)"

definition reg_writes :: "Mop list \<Rightarrow> (string \<times> RegInt) list" where
  "reg_writes ms = map (\<lambda>m. (GetKey m, reg_of m)) (filter IsWrite ms)"

lemma reg_writes_simps [simp]:
  "reg_writes [] = []" "reg_writes (xs @ ys) = reg_writes xs @ reg_writes ys"
  "reg_writes (m # ms) = (if IsWrite m then (GetKey m, reg_of m) # reg_writes ms else reg_writes ms)"
  by (simp_all add: reg_writes_def)

lemma last_write_append: "last_write k (xs @ ys) = (case last_write k ys of Some i \<Rightarrow> Some i | None \<Rightarrow> last_write k xs)"
  by (induction xs) (auto split: option.splits)

lemma last_write_in: "last_write k ms = Some i \<Longrightarrow> (k, i) \<in> set (reg_writes ms)"
  by (induction ms) (auto split: option.splits if_splits)

lemma last_write_None: "last_write k ms = None \<longleftrightarrow> (\<forall>i. (k, i) \<notin> set (reg_writes ms))"
  by (induction ms) (auto split: option.splits)

lemma apply_writes_at: "apply_writes ms st k = (case last_write k ms of Some i \<Rightarrow> i | None \<Rightarrow> st k)"
  unfolding apply_writes_def by (induction ms arbitrary: st) (auto split: option.splits)

lemma exec_regs_store: "foldM exec_reg ms st = Some st' \<Longrightarrow> st' = apply_writes ms st"
  unfolding apply_writes_def by (induction ms arbitrary: st) (auto simp: exec_reg_def split: if_splits)

lemma exec_regs_read:
  assumes "foldM exec_reg (xs @ m # ys) st = Some st'" "\<not> IsWrite m"
  shows "reg_of m = (case last_write (GetKey m) xs of Some i \<Rightarrow> i | None \<Rightarrow> st (GetKey m))"
proof -
  from assms(1) obtain st1 where "foldM exec_reg xs st = Some st1" "exec_reg m st1 \<noteq> None"
    by (auto simp: foldM_append split: Option.bind_splits)
  with assms(2) exec_regs_store [of xs st st1] show ?thesis by (auto simp: exec_reg_def apply_writes_at split: if_splits)
qed

section \<open>Serial histories of registers\<close>

text \<open>\<open>eff\<close> tells which events took effect: the successes, none of the failures, and any of the others.\<close>

definition exec_effect :: "Op \<Rightarrow> reg_store \<Rightarrow> reg_store option" where
  "exec_effect op st = (if op_Type op = OpTypeOk then foldM exec_reg (mops_of op) st else Some (apply_writes (mops_of op) st))"

definition completions :: "History \<Rightarrow> History" where
  "completions h = filter (\<lambda>op. op_Type op \<noteq> OpTypeInvoke) h"

definition reg_serial :: "(Op \<Rightarrow> bool) \<Rightarrow> History \<Rightarrow> bool" where
  "reg_serial eff h \<longleftrightarrow> numbered h \<and> pair_history h \<noteq> None \<and>
     list_all (\<lambda>op. op_Value op \<noteq> None \<and> list_all reg_mop (mops_of op)) (completions h) \<and>
     list_all (\<lambda>op. (op_Type op = OpTypeOk \<longrightarrow> eff op) \<and> (op_Type op = OpTypeFail \<or> op_Type op = OpTypeInvoke \<longrightarrow> \<not> eff op)) h \<and>
     distinct (concat (map (\<lambda>op. reg_writes (mops_of op)) (completions h))) \<and>
     foldM exec_effect (filter eff h) (\<lambda>_. NewNil) \<noteq> None"

lemma reg_serialD:
  assumes "reg_serial eff h"
  shows "numbered h" "\<exists>pair. pair_history h = Some pair"
    "\<lbrakk>op \<in> set h; op_Type op \<noteq> OpTypeInvoke\<rbrakk> \<Longrightarrow> deref op = Some (mops_of op)"
    "\<lbrakk>op \<in> set h; op_Type op \<noteq> OpTypeInvoke; m \<in> set (mops_of op)\<rbrakk> \<Longrightarrow> reg_mop m"
    "\<lbrakk>op \<in> set h; op_Type op = OpTypeOk\<rbrakk> \<Longrightarrow> eff op"
    "\<lbrakk>op \<in> set h; eff op\<rbrakk> \<Longrightarrow> op_Type op \<noteq> OpTypeFail \<and> op_Type op \<noteq> OpTypeInvoke"
    "\<exists>st. foldM exec_effect (filter eff h) (\<lambda>_. NewNil) = Some st"
proof -
  show "numbered h" "\<exists>pair. pair_history h = Some pair" "\<exists>st. foldM exec_effect (filter eff h) (\<lambda>_. NewNil) = Some st"
    using assms by (auto simp: reg_serial_def)
  show "\<lbrakk>op \<in> set h; op_Type op \<noteq> OpTypeInvoke\<rbrakk> \<Longrightarrow> deref op = Some (mops_of op)"
    "\<lbrakk>op \<in> set h; op_Type op \<noteq> OpTypeInvoke; m \<in> set (mops_of op)\<rbrakk> \<Longrightarrow> reg_mop m"
    "\<lbrakk>op \<in> set h; op_Type op = OpTypeOk\<rbrakk> \<Longrightarrow> eff op"
    "\<lbrakk>op \<in> set h; eff op\<rbrakk> \<Longrightarrow> op_Type op \<noteq> OpTypeFail \<and> op_Type op \<noteq> OpTypeInvoke"
    using assms by (auto simp: reg_serial_def list_all_iff completions_def deref_def mops_of_def)
qed

text \<open>A value is written once.\<close>

lemma distinct_concat_map:
  "distinct (concat (map f xs)) \<Longrightarrow> a \<in> set xs \<Longrightarrow> b \<in> set xs \<Longrightarrow> y \<in> set (f a) \<Longrightarrow> y \<in> set (f b) \<Longrightarrow> a = b"
  by (induction xs) auto

lemma write_unique:
  assumes "reg_serial eff h" "a \<in> set h" "b \<in> set h" "op_Type a \<noteq> OpTypeInvoke" "op_Type b \<noteq> OpTypeInvoke"
    "(k, i) \<in> set (reg_writes (mops_of a))" "(k, i) \<in> set (reg_writes (mops_of b))"
  shows "a = b"
  using assms distinct_concat_map [of "\<lambda>op. reg_writes (mops_of op)" "completions h" a b "(k, i)"]
  by (auto simp: reg_serial_def completions_def)

lemma writes_distinct:
  assumes "reg_serial eff h" "a \<in> set h" "op_Type a \<noteq> OpTypeInvoke"
  shows "distinct (reg_writes (mops_of a))"
  using assms by (auto simp: reg_serial_def completions_def distinct_concat_iff)

lemma write_not_nil:
  assumes "reg_serial eff h" "a \<in> set h" "op_Type a \<noteq> OpTypeInvoke" "(k, i) \<in> set (reg_writes (mops_of a))"
  shows "\<not> int_IsNil i"
proof -
  obtain m where "m \<in> set (mops_of a)" "IsWrite m" "i = reg_of m" using assms(4) by (auto simp: reg_writes_def)
  with reg_serialD(4) [OF assms(1-3), of m] show ?thesis by (auto simp: reg_mop_def mop_defs)
qed

lemma NewNil_IsNil [simp]: "int_IsNil NewNil"
  by (simp add: NewNil_def)

text \<open>The store before an event: what was written last, or nil.\<close>

lemma exec_effect_store: "exec_effect op st = Some st' \<Longrightarrow> st' = apply_writes (mops_of op) st"
  by (auto simp: exec_effect_def exec_regs_store split: if_splits)

lemma effects_store:
  assumes "foldM exec_effect xs (\<lambda>_. NewNil) = Some st"
  shows "st k = NewNil \<and> (\<forall>E \<in> set xs. last_write k (mops_of E) = None) \<or> (\<exists>E \<in> set xs. last_write k (mops_of E) = Some (st k))"
  using assms
proof (induction xs arbitrary: st rule: rev_induct)
  case (snoc op xs)
  then obtain st1 where st1: "foldM exec_effect xs (\<lambda>_. NewNil) = Some st1" "exec_effect op st1 = Some st"
    by (auto simp: foldM_append split: Option.bind_splits)
  from snoc.IH [OF st1(1)] exec_effect_store [OF st1(2)] show ?case
    by (auto simp: apply_writes_at split: option.splits)
qed simp

text \<open>A successful event, the store it ran on, and what ran before.\<close>

lemma ok_split:
  assumes S: "reg_serial eff h" and op: "op \<in> set (oks h)"
  obtains xs ys st st' where "filter eff h = xs @ op # ys" "foldM exec_effect xs (\<lambda>_. NewNil) = Some st"
    "foldM exec_reg (mops_of op) st = Some st'" "\<And>E. E \<in> set xs \<Longrightarrow> op_idx E < op_idx op" "\<And>E. E \<in> set ys \<Longrightarrow> op_idx op < op_idx E"
    "set xs \<subseteq> set (filter eff h)"
proof -
  have "op \<in> set (filter eff h)" using op reg_serialD(5) [OF S] by auto
  then obtain xs ys where f: "filter eff h = xs @ op # ys" by (meson split_list)
  obtain st2 where "foldM exec_effect (xs @ op # ys) (\<lambda>_. NewNil) = Some st2" using reg_serialD(7) [OF S] f by auto
  then obtain st st' where st: "foldM exec_effect xs (\<lambda>_. NewNil) = Some st" "exec_effect op st = Some st'"
    by (auto simp: foldM_append split: Option.bind_splits)
  have "numbered (xs @ op # ys)" using numbered_filter [OF reg_serialD(1) [OF S], of eff] f by simp
  then have "E \<in> set xs \<Longrightarrow> op_idx E < op_idx op" "E \<in> set ys \<Longrightarrow> op_idx op < op_idx E" for E
    by (auto simp: numbered_def sorted_wrt_append)
  with f st op that show ?thesis by (auto simp: exec_effect_def)
qed

lemma ok_exec:
  assumes S: "reg_serial eff h" and op: "op \<in> set (oks h)"
  shows "\<exists>st st'. foldM exec_reg (mops_of op) st = Some st'"
  by (rule ok_split [OF S op]) blast

lemma ok_read:
  assumes S: "reg_serial eff h" and op: "op \<in> set (oks h)" and ms: "mops_of op = xs @ m # ys" and r: "IsRead m"
  shows "last_write (GetKey m) xs = Some (reg_of m) \<or>
    last_write (GetKey m) xs = None \<and> (\<exists>E \<in> set h. eff E \<and> op_idx E < op_idx op \<and> last_write (GetKey m) (mops_of E) = Some (reg_of m)) \<or>
    last_write (GetKey m) xs = None \<and> reg_of m = NewNil \<and> (\<forall>E \<in> set h. eff E \<longrightarrow> op_idx E < op_idx op \<longrightarrow> last_write (GetKey m) (mops_of E) = None)"
proof -
  from ok_split [OF S op] obtain us vs st st' where
    s: "filter eff h = us @ op # vs" "foldM exec_effect us (\<lambda>_. NewNil) = Some st" "foldM exec_reg (mops_of op) st = Some st'"
      "\<And>E. E \<in> set us \<Longrightarrow> op_idx E < op_idx op" "\<And>E. E \<in> set vs \<Longrightarrow> op_idx op < op_idx E" "set us \<subseteq> set (filter eff h)" by blast
  have w: "\<not> IsWrite m" using r by (simp add: mop_defs)
  have earlier: "E \<in> set us" if "E \<in> set h" "eff E" "op_idx E < op_idx op" for E
  proof -
    have "E \<in> set (us @ op # vs)" using that by (simp flip: s(1))
    with s(5) [of E] that(3) show ?thesis by auto
  qed
  from exec_regs_read [OF s(3) [unfolded ms] w] effects_store [OF s(2), of "GetKey m"] s(4,6) earlier show ?thesis
    by (cases "last_write (GetKey m) xs") auto
qed

lemma read_split: "m \<in> set ms \<Longrightarrow> \<exists>xs ys. ms = xs @ m # ys"
  by (meson split_list)

section \<open>No case outside the graph\<close>

text \<open>A value that is read was written last by an event that took effect, or before in the same event.\<close>

lemma read_source:
  assumes S: "reg_serial eff h" and op: "op \<in> set (oks h)" and m: "m \<in> set (mops_of op)" "IsRead m" "\<not> int_IsNil (reg_of m)"
  shows "(GetKey m, reg_of m) \<in> set (reg_writes (mops_of op)) \<or>
    (\<exists>E \<in> set h. eff E \<and> last_write (GetKey m) (mops_of E) = Some (reg_of m))"
proof -
  obtain xs ys where ms: "mops_of op = xs @ m # ys" using read_split [OF m(1)] by blast
  from ok_read [OF S op ms m(2)] m(3) show ?thesis
    using last_write_in [of "GetKey m" xs "reg_of m"] by (auto simp: ms)
qed

definition writers_of :: "kv_writers \<Rightarrow> (Op \<Rightarrow> string \<times> RegInt \<Rightarrow> bool) \<Rightarrow> History \<Rightarrow> bool" where
  "writers_of w P h \<longleftrightarrow> (\<forall>kv op. map_of w kv = Some op \<longrightarrow> op \<in> set h \<and> P op kv)"

lemma reg_typed:
  assumes "reg_mop m"
  shows "as_Int (GetValue m) = Some (reg_of m)" "IsWrite m \<Longrightarrow> written m = Some (reg_of m)" "IsRead m \<or> IsWrite m"
  using assms by (auto simp: reg_mop_def mop_defs written_def)

lemma failed_writes_spec:
  assumes S: "reg_serial eff h"
  shows "\<exists>w. failed_writes h = Some w \<and> writers_of w (\<lambda>op kv. op_Type op = OpTypeFail \<and> kv \<in> set (reg_writes (mops_of op))) h"
  unfolding failed_writes_def
proof (rule foldM_inv)
  fix op w assume op: "op \<in> set (FilterFailedHistory h)"
    and w: "writers_of w (\<lambda>op kv. op_Type op = OpTypeFail \<and> kv \<in> set (reg_writes (mops_of op))) h"
  have d: "deref op = Some (mops_of op)" using reg_serialD(3) [OF S, of op] op by (auto simp: FilterFailedHistory_def)
  have "\<exists>w'. foldM (\<lambda>mop failedMap. if IsWrite mop then do { i \<leftarrow> written mop; Some (AList.update (GetKey mop, i) op failedMap) } else Some failedMap)
       (mops_of op) w = Some w' \<and> writers_of w' (\<lambda>op kv. op_Type op = OpTypeFail \<and> kv \<in> set (reg_writes (mops_of op))) h"
  proof (rule foldM_inv)
    fix m u assume m: "m \<in> set (mops_of op)"
      and u: "writers_of u (\<lambda>op kv. op_Type op = OpTypeFail \<and> kv \<in> set (reg_writes (mops_of op))) h"
    have "reg_mop m" using reg_serialD(4) [OF S _ _ m] op by (auto simp: FilterFailedHistory_def)
    moreover have "(GetKey m, reg_of m) \<in> set (reg_writes (mops_of op))" if "IsWrite m" using that m by (auto simp: reg_writes_def)
    ultimately show "\<exists>v. (if IsWrite m then do { i \<leftarrow> written m; Some (AList.update (GetKey m, i) op u) } else Some u) = Some v \<and>
        writers_of v (\<lambda>op kv. op_Type op = OpTypeFail \<and> kv \<in> set (reg_writes (mops_of op))) h"
      using u op reg_typed(2) [of m] by (auto simp: writers_of_def FilterFailedHistory_def)
  qed (rule w)
  then show "\<exists>v. do { mops \<leftarrow> deref op; foldM (\<lambda>mop failedMap. if IsWrite mop then do { i \<leftarrow> written mop; Some (AList.update (GetKey mop, i) op failedMap) }
       else Some failedMap) mops w } = Some v \<and> writers_of v (\<lambda>op kv. op_Type op = OpTypeFail \<and> kv \<in> set (reg_writes (mops_of op))) h"
    by (simp add: d)
qed (simp add: writers_of_def)

lemma read_conflicts_none:
  assumes S: "reg_serial eff h" and none: "\<And>op m W. \<lbrakk>op \<in> set (oks h); m \<in> set (mops_of op); IsRead m; \<not> int_IsNil (reg_of m);
      map_of w (GetKey m, reg_of m) = Some W\<rbrakk> \<Longrightarrow> \<not> bad op W"
  shows "read_conflicts w bad h = Some []"
proof -
  have "\<exists>t. read_conflicts w bad h = Some t \<and> t = []"
    unfolding read_conflicts_def
  proof (rule foldM_inv)
    fix op and as :: "Anomaly list" assume op: "op \<in> set (oks h)" and as: "as = []"
    have d: "deref op = Some (mops_of op)" using reg_serialD(3) [OF S, of op] op by auto
    have "\<exists>t. foldM (\<lambda>mop anomalies. if IsRead mop then do { i \<leftarrow> as_Int (GetValue mop); Some (if int_IsNil i then anomalies
          else (case map_of w (GetKey mop, i) of Some W' \<Rightarrow> if bad op W' then anomalies @ [RegG1Conflict op mop W' (GetKey mop)] else anomalies
            | None \<Rightarrow> anomalies)) } else Some anomalies) (mops_of op) [] = Some t \<and> t = []"
    proof (rule foldM_inv)
      fix m and u :: "Anomaly list" assume m: "m \<in> set (mops_of op)" and u: "u = []"
      have "reg_mop m" using reg_serialD(4) [OF S _ _ m] op by auto
      with reg_typed(1) [OF this] none [OF op m] u show "\<exists>v. (if IsRead m then do { i \<leftarrow> as_Int (GetValue m); Some (if int_IsNil i then u
          else (case map_of w (GetKey m, i) of Some W' \<Rightarrow> if bad op W' then u @ [RegG1Conflict op m W' (GetKey m)] else u
            | None \<Rightarrow> u)) } else Some u) = Some v \<and> v = []"
        by (auto split: option.splits)
    qed simp
    then show "\<exists>v. do { mops \<leftarrow> deref op; foldM (\<lambda>mop anomalies. if IsRead mop then do { i \<leftarrow> as_Int (GetValue mop); Some (if int_IsNil i then anomalies
          else (case map_of w (GetKey mop, i) of Some W' \<Rightarrow> if bad op W' then anomalies @ [RegG1Conflict op mop W' (GetKey mop)] else anomalies
            | None \<Rightarrow> anomalies)) } else Some anomalies) mops as } = Some v \<and> v = []"
      by (simp add: d as)
  qed simp
  then show ?thesis by simp
qed

lemma no_reg_g1a:
  assumes S: "reg_serial eff h" shows "reg_g1aCases h = Some []"
proof -
  obtain w where w: "failed_writes h = Some w" "writers_of w (\<lambda>op kv. op_Type op = OpTypeFail \<and> kv \<in> set (reg_writes (mops_of op))) h"
    using failed_writes_spec [OF S] by blast
  have "False" if op: "op \<in> set (oks h)" and m: "m \<in> set (mops_of op)" "IsRead m" "\<not> int_IsNil (reg_of m)"
    and W: "map_of w (GetKey m, reg_of m) = Some W" for op m W
  proof -
    have W': "W \<in> set h" "op_Type W = OpTypeFail" "(GetKey m, reg_of m) \<in> set (reg_writes (mops_of W))" using w(2) W by (auto simp: writers_of_def)
    from read_source [OF S op m] show False
    proof
      assume "(GetKey m, reg_of m) \<in> set (reg_writes (mops_of op))"
      with write_unique [OF S, of op W "GetKey m" "reg_of m"] W' op show False by auto
    next
      assume "\<exists>E \<in> set h. eff E \<and> last_write (GetKey m) (mops_of E) = Some (reg_of m)"
      then obtain E where "E \<in> set h" "eff E" "(GetKey m, reg_of m) \<in> set (reg_writes (mops_of E))" using last_write_in by blast
      with write_unique [OF S, of E W "GetKey m" "reg_of m"] W' reg_serialD(6) [OF S, of E] show False by auto
    qed
  qed
  then have "read_conflicts w (\<lambda>_ _. True) h = Some []" by (intro read_conflicts_none [OF S]) blast
  then show ?thesis using w(1) by (simp add: reg_g1aCases_def)
qed


lemma intermediate_mops:
  assumes "list_all reg_mop ms" "distinct (reg_writes ms)"
  shows "\<exists>im vm. foldM (\<lambda>mop (interMap, valMap).
         if IsWrite mop
         then do {
           i \<leftarrow> written mop;
           Some (case map_of valMap (GetKey mop) of
                   Some old \<Rightarrow> AList.update (GetKey mop, old) op interMap
                 | None \<Rightarrow> interMap,
                 AList.update (GetKey mop) i valMap) }
         else Some (interMap, valMap)) ms (im0, []) = Some (im, vm) \<and> (\<forall>k. map_of vm k = last_write k ms) \<and>
      (\<forall>k v W. map_of im (k, v) = Some W \<longrightarrow>
         map_of im0 (k, v) = Some W \<or> W = op \<and> (k, v) \<in> set (reg_writes ms) \<and> last_write k ms \<noteq> Some v)"
  using assms
proof (induction ms rule: rev_induct)
  case (snoc m ms)
  let ?f = "\<lambda>mop (interMap, valMap). if IsWrite mop
         then do { i \<leftarrow> written mop; Some (case map_of valMap (GetKey mop) of
                   Some old \<Rightarrow> AList.update (GetKey mop, old) op interMap | None \<Rightarrow> interMap, AList.update (GetKey mop) i valMap) }
         else Some (interMap, valMap)"
  from snoc obtain im vm where im: "foldM ?f ms (im0, []) = Some (im, vm)" "\<And>k. map_of vm k = last_write k ms"
    "\<And>k v W. map_of im (k, v) = Some W \<Longrightarrow> map_of im0 (k, v) = Some W \<or> W = op \<and> (k, v) \<in> set (reg_writes ms) \<and> last_write k ms \<noteq> Some v"
    by (auto split: if_splits)
  show ?case
  proof (cases "IsWrite m")
    case False
    with im show ?thesis by (auto simp: foldM_append last_write_append)
  next
    case True
    have w: "written m = Some (reg_of m)" using snoc.prems(1) reg_typed(2) [of m] True by simp
    have "(GetKey m, reg_of m) \<notin> set (reg_writes ms)" using snoc.prems(2) True by simp
    with True im w last_write_in [of "GetKey m" ms] show ?thesis
      by (cases "last_write (GetKey m) ms") (auto simp: foldM_append last_write_append dest: im(3) split: if_splits)
  qed
qed simp

lemma intermediate_writes_spec:
  assumes S: "reg_serial eff h"
  shows "\<exists>w. intermediate_writes h = Some w \<and>
    writers_of w (\<lambda>op kv. op_Type op = OpTypeOk \<and> kv \<in> set (reg_writes (mops_of op)) \<and> last_write (fst kv) (mops_of op) \<noteq> Some (snd kv)) h"
  unfolding intermediate_writes_def
proof (rule foldM_inv, goal_cases)
  case (1 op w)
  then have op: "op \<in> set h" "op_Type op = OpTypeOk" by auto
  have "deref op = Some (mops_of op)" "list_all reg_mop (mops_of op)" "distinct (reg_writes (mops_of op))"
    using reg_serialD(3,4) [OF S op(1)] writes_distinct [OF S op(1)] op(2) by (auto simp: list_all_iff)
  with intermediate_mops [of "mops_of op" op w] 1(2) op show ?case by (fastforce simp: writers_of_def)
qed (simp add: writers_of_def)

lemma no_reg_g1b:
  assumes S: "reg_serial eff h" shows "reg_g1bCases h = Some []"
proof -
  obtain w where w: "intermediate_writes h = Some w"
    "writers_of w (\<lambda>op kv. op_Type op = OpTypeOk \<and> kv \<in> set (reg_writes (mops_of op)) \<and> last_write (fst kv) (mops_of op) \<noteq> Some (snd kv)) h"
    using intermediate_writes_spec [OF S] by blast
  have "op = W" if op: "op \<in> set (oks h)" and m: "m \<in> set (mops_of op)" "IsRead m" "\<not> int_IsNil (reg_of m)"
    and W: "map_of w (GetKey m, reg_of m) = Some W" for op m W
  proof -
    have W': "W \<in> set h" "op_Type W = OpTypeOk" "(GetKey m, reg_of m) \<in> set (reg_writes (mops_of W))"
      "last_write (GetKey m) (mops_of W) \<noteq> Some (reg_of m)" using w(2) W by (auto simp: writers_of_def)
    from read_source [OF S op m] show ?thesis
    proof
      assume "(GetKey m, reg_of m) \<in> set (reg_writes (mops_of op))"
      with write_unique [OF S, of op W "GetKey m" "reg_of m"] W' op show ?thesis by auto
    next
      assume "\<exists>E \<in> set h. eff E \<and> last_write (GetKey m) (mops_of E) = Some (reg_of m)"
      then obtain E where E: "E \<in> set h" "eff E" "last_write (GetKey m) (mops_of E) = Some (reg_of m)" by blast
      with last_write_in [OF E(3)] write_unique [OF S, of E W "GetKey m" "reg_of m"] W' reg_serialD(6) [OF S, of E] show ?thesis by auto
    qed
  qed
  then have "read_conflicts w (\<lambda>op interOp. op \<noteq> interOp) h = Some []" by (intro read_conflicts_none [OF S]) blast
  then show ?thesis using w(1) by (simp add: reg_g1bCases_def)
qed

lemma internalOp_loop_none:
  assumes "foldM exec_reg ms st \<noteq> None" "list_all reg_mop ms" "\<And>k v. map_of dm k = Some v \<Longrightarrow> st k = v"
  shows "internalOp_loop op dm ms = Some None"
  using assms
proof (induction ms arbitrary: st dm)
  case (Cons m ms)
  then have m: "reg_mop m" by simp
  show ?case
  proof (cases "IsWrite m")
    case True
    with m have "\<not> int_IsNil (reg_of m)" by (auto simp: reg_mop_def mop_defs)
    moreover have "internalOp_loop op (AList.update (GetKey m) (reg_of m) dm) ms = Some None"
      using Cons.prems True by (intro Cons.IH [of "st(GetKey m := reg_of m)"]) (simp_all add: exec_reg_write del: fun_upd_apply, simp split: if_splits)
    ultimately show ?thesis using True reg_typed(1) [OF m] by simp
  next
    case False
    with m reg_typed(3) have r: "IsRead m" by blast
    from Cons.prems(1) False have st: "reg_of m = st (GetKey m)" "foldM exec_reg ms st \<noteq> None" by (auto simp: exec_reg_read split: if_splits)
    have ms: "internalOp_loop op dm' ms = Some None" if "\<And>k v. map_of dm' k = Some v \<Longrightarrow> st k = v" for dm'
      using Cons.prems(2) st(2) that by (intro Cons.IH [of st]) simp_all
    have "internalOp_loop op dm ms = Some None" using Cons.prems(3) by (rule ms)
    moreover have "internalOp_loop op (AList.update (GetKey m) (reg_of m) dm) ms = Some None"
      using Cons.prems(3) by (intro ms) (auto simp: st(1) split: if_splits)
    moreover have "prev = reg_of m" if "map_of dm (GetKey m) = Some prev" for prev
      using Cons.prems(3) [OF that] st(1) by simp
    ultimately show ?thesis
      using False r reg_typed(1) [OF m] by (cases "map_of dm (GetKey m)") simp_all
  qed
qed simp

lemma no_reg_internal:
  assumes S: "reg_serial eff h" shows "internal h = Some []"
proof -
  have none: "internalOp op = Some None" if op: "op \<in> set (oks h)" for op
  proof -
    obtain st st' where "foldM exec_reg (mops_of op) st = Some st'" using ok_exec [OF S op] by blast
    moreover have "deref op = Some (mops_of op)" "list_all reg_mop (mops_of op)" using reg_serialD(3,4) [OF S, of op] op by (auto simp: list_all_iff)
    ultimately show ?thesis using internalOp_loop_none [of "mops_of op" st "[]" op] by (simp add: internalOp_def)
  qed
  have "foldM (\<lambda>op tp. do { res \<leftarrow> internalOp op; Some (case res of None \<Rightarrow> tp | Some a \<Rightarrow> tp @ [a]) }) ops [] = Some []"
    if "set ops \<subseteq> set (oks h)" for ops
    using that by (induction ops) (simp_all add: none del: in_oks)
  then show ?thesis by (simp add: internal_def)
qed


section \<open>External reads and writes\<close>

text \<open>The value of a key when its first micro-operation reads it.\<close>

fun first_read :: "string \<Rightarrow> Mop list \<Rightarrow> RegInt option" where
  "first_read k [] = None"
| "first_read k (m # ms) = (if GetKey m = k then if IsRead m then Some (reg_of m) else None else first_read k ms)"

lemma first_read_append:
  "first_read k (xs @ ys) = (if k \<in> GetKey ` set xs then first_read k xs else first_read k ys)"
  by (induction xs) auto

lemma first_read_fresh: "k \<notin> GetKey ` set xs \<Longrightarrow> first_read k xs = None"
  by (induction xs) auto

lemma first_read_split: "first_read k ms = Some i \<Longrightarrow> \<exists>xs m ys. ms = xs @ m # ys \<and> IsRead m \<and> GetKey m = k \<and> reg_of m = i \<and> last_write k xs = None"
proof (induction ms)
  case (Cons m ms)
  show ?case
  proof (cases "GetKey m = k")
    case True
    with Cons.prems have "m # ms = [] @ m # ms \<and> IsRead m \<and> GetKey m = k \<and> reg_of m = i \<and> last_write k [] = None" by (simp split: if_splits)
    then show ?thesis by blast
  next
    case False
    with Cons obtain xs m' ys where "ms = xs @ m' # ys \<and> IsRead m' \<and> GetKey m' = k \<and> reg_of m' = i \<and> last_write k xs = None" by auto
    with False have "m # ms = (m # xs) @ m' # ys \<and> IsRead m' \<and> GetKey m' = k \<and> reg_of m' = i \<and> last_write k (m # xs) = None" by simp
    then show ?thesis by blast
  qed
qed simp

definition is_ext :: "ext_map \<Rightarrow> (string \<Rightarrow> RegInt option) \<Rightarrow> bool" where
  "is_ext m f \<longleftrightarrow> wf_map m \<and> (\<forall>k. map_of m k = f k)"

lemma extReadKeys_spec:
  assumes "deref op = Some ms" "list_all reg_mop ms"
  shows "\<exists>m. extReadKeys op = Some m \<and> is_ext m (\<lambda>k. first_read k ms)"
proof -
  have "\<exists>res ig. foldM (\<lambda>mop (res, ignore). do {
         i \<leftarrow> as_Int (GetValue mop);
         let k = GetKey mop;
         Some (if k \<notin> keys ignore \<and> IsRead mop then AList.update k i res else res, AList.update k () ignore) }) ms ([], []) = Some (res, ig) \<and>
      keys ig = GetKey ` set ms \<and> is_ext res (\<lambda>k. first_read k ms)"
    using assms(2)
  proof (induction ms rule: rev_induct)
    case (snoc m ms)
    then show ?case using reg_typed(1) [of m]
      by (auto simp: foldM_append is_ext_def first_read_append first_read_fresh Let_def split: if_splits)
  qed (simp add: is_ext_def)
  with assms(1) show ?thesis by (auto simp: extReadKeys_def)
qed

lemma extWriteKeys_spec:
  assumes "deref op = Some ms" "list_all reg_mop ms"
  shows "\<exists>m. extWriteKeys op = Some m \<and> is_ext m (\<lambda>k. last_write k ms)"
proof -
  have "\<exists>m. foldM (\<lambda>mop res. if IsWrite mop then do { i \<leftarrow> as_Int (GetValue mop);
         if int_IsNil i then None else Some (AList.update (GetKey mop) i res) } else Some res) ms [] = Some m \<and> is_ext m (\<lambda>k. last_write k ms)"
    using assms(2)
  proof (induction ms rule: rev_induct)
    case (snoc m ms)
    then have m: "as_Int (GetValue m) = Some (reg_of m)" "IsWrite m \<Longrightarrow> \<not> int_IsNil (reg_of m)"
      using reg_typed(1) [of m] by (auto simp: reg_mop_def mop_defs)
    with snoc show ?case by (auto simp: foldM_append is_ext_def last_write_append split: if_splits)
  qed (simp add: is_ext_def)
  with assms(1) show ?thesis by (auto simp: extWriteKeys_def)
qed

text \<open>An index lists, for every key and version, the events with this version in the order of the history.\<close>

definition entries :: "ext_index \<Rightarrow> string \<Rightarrow> RegInt \<Rightarrow> Op list" where
  "entries idx k v = get_or [] (get_or [] idx k) v"

definition wf_index :: "ext_index \<Rightarrow> bool" where
  "wf_index idx \<longleftrightarrow> wf_map idx \<and> (\<forall>k. wf_map (get_or [] idx k))"

definition add_entry :: "Op \<Rightarrow> string \<times> RegInt \<Rightarrow> ext_index \<Rightarrow> ext_index" where
  "add_entry op = (\<lambda>(k, v) res. let m = get_or [] res k in AList.update k (AList.update v (get_or [] m v @ [op]) m) res)"

lemma add_entries:
  assumes "distinct (map fst kvs)" "wf_index idx"
  shows "wf_index (fold (add_entry op) kvs idx)"
    "entries (fold (add_entry op) kvs idx) k v = entries idx k v @ (if map_of kvs k = Some v then [op] else [])"
proof -
  have "wf_index (fold (add_entry op) kvs idx) \<and>
     entries (fold (add_entry op) kvs idx) k v = entries idx k v @ (if map_of kvs k = Some v then [op] else [])"
    using assms
  proof (induction kvs arbitrary: idx)
    case (Cons kv kvs)
    obtain k' v' where kv: "kv = (k', v')" by fastforce
    have "wf_index (add_entry op (k', v') idx)" using Cons.prems(2) by (auto simp: wf_index_def add_entry_def Let_def)
    moreover have "entries (add_entry op (k', v') idx) k v = entries idx k v @ (if k' = k \<and> v' = v then [op] else [])"
      by (auto simp: entries_def add_entry_def Let_def)
    moreover have "map_of kvs k' = None" using Cons.prems(1) kv by (simp add: map_of_None_keys)
    ultimately show ?case using Cons.IH [of "add_entry op (k', v') idx"] Cons.prems(1) kv by auto
  qed simp
  then show "wf_index (fold (add_entry op) kvs idx)"
    "entries (fold (add_entry op) kvs idx) k v = entries idx k v @ (if map_of kvs k = Some v then [op] else [])" by blast+
qed

lemma map_of_go_range: "wf_map m \<Longrightarrow> map_of (go_range \<rho> m) = map_of m"
  by (metis distinct_go_range distinct_map map_of_inject_set mset_go_range mset_map mset_eq_imp_distinct_iff set_go_range)

lemma extIndex_spec:
  assumes "\<And>op. op \<in> set (oks h) \<Longrightarrow> \<exists>m. fn op = Some m \<and> is_ext m (\<lambda>k. f k op)"
  shows "\<exists>idx. extIndex \<rho> fn h = Some idx \<and> wf_index idx \<and> (\<forall>k v. entries idx k v = filter (\<lambda>op. f k op = Some v) (oks h))"
proof -
  have "\<exists>idx. foldM (\<lambda>(i, op) res. do { extKV \<leftarrow> fn op; Some (fold (add_entry op) (go_range (sub \<rho> i) extKV) res) }) (enumerate n ops) idx0 = Some idx \<and>
      wf_index idx \<and> (\<forall>k v. entries idx k v = entries idx0 k v @ filter (\<lambda>op. f k op = Some v) ops)"
    if "set ops \<subseteq> set (oks h)" "wf_index idx0" for ops n idx0
    using that
  proof (induction ops arbitrary: n idx0)
    case (Cons op ops)
    then obtain m where m: "fn op = Some m" "is_ext m (\<lambda>k. f k op)" using assms [of op] by auto
    then have r: "distinct (map fst (go_range (sub \<rho> n) m))" "map_of (go_range (sub \<rho> n) m) = (\<lambda>k. f k op)"
      by (auto simp: is_ext_def map_of_go_range) (metis mset_go_range mset_map mset_eq_imp_distinct_iff)
    note a = add_entries [OF r(1) Cons.prems(2), of op]
    from Cons.IH [OF _ a(1), of "Suc n"] Cons.prems(1) m(1) a(2) r(2) show ?case by auto
  qed simp
  from this [of "oks h" "[]" 0] show ?thesis
    unfolding extIndex_def add_entry_def by (auto simp: wf_index_def entries_def)
qed


section \<open>Dependencies of registers point forward\<close>

lemma ok_mops:
  assumes S: "reg_serial eff h" and op: "op \<in> set (oks h)"
  shows "deref op = Some (mops_of op)" "list_all reg_mop (mops_of op)"
  using reg_serialD(3,4) [OF S, of op] op by (auto simp: list_all_iff)

definition reg_indices :: "History \<Rightarrow> ext_index \<Rightarrow> ext_index \<Rightarrow> bool" where
  "reg_indices h ri wi \<longleftrightarrow> wf_index ri \<and> wf_index wi \<and>
     (\<forall>k v. entries ri k v = filter (\<lambda>op. first_read k (mops_of op) = Some v) (oks h)) \<and>
     (\<forall>k v. entries wi k v = filter (\<lambda>op. last_write k (mops_of op) = Some v) (oks h))"

lemma oks_oks [simp]: "oks (oks h) = oks h"
  by (simp add: FilterOkHistory_def)

lemma reg_indices_exist:
  assumes S: "reg_serial eff h" and h': "oks h' = oks h"
  shows "\<exists>ri wi. extIndex \<rho> extReadKeys h' = Some ri \<and> extIndex \<rho>' extWriteKeys h' = Some wi \<and> reg_indices h ri wi"
proof -
  have "\<exists>m. extReadKeys op = Some m \<and> is_ext m (\<lambda>k. first_read k (mops_of op))" if "op \<in> set (oks h')" for op
    using extReadKeys_spec [OF ok_mops [OF S]] that h' by simp
  from extIndex_spec [of h' extReadKeys "\<lambda>k op. first_read k (mops_of op)", OF this] obtain ri where
    ri: "extIndex \<rho> extReadKeys h' = Some ri" "wf_index ri" "\<forall>k v. entries ri k v = filter (\<lambda>op. first_read k (mops_of op) = Some v) (oks h')" by blast
  have "\<exists>m. extWriteKeys op = Some m \<and> is_ext m (\<lambda>k. last_write k (mops_of op))" if "op \<in> set (oks h')" for op
    using extWriteKeys_spec [OF ok_mops [OF S]] that h' by simp
  from extIndex_spec [of h' extWriteKeys "\<lambda>k op. last_write k (mops_of op)", OF this] obtain wi where
    wi: "extIndex \<rho>' extWriteKeys h' = Some wi" "wf_index wi" "\<forall>k v. entries wi k v = filter (\<lambda>op. last_write k (mops_of op) = Some v) (oks h')" by blast
  from ri wi h' show ?thesis unfolding reg_indices_def by auto
qed

lemma entry_in_index: "wf_index idx \<Longrightarrow> (k, m) \<in> set idx \<Longrightarrow> (v, ops) \<in> set m \<Longrightarrow> ops = entries idx k v"
  by (metis entries_def get_or_def map_of_eq_Some_iff option.simps(5) wf_index_def)

lemma entry_of_map: "map_of idx k = Some m \<Longrightarrow> map_of m v = Some ops \<Longrightarrow> ops = entries idx k v"
  by (simp add: entries_def get_or_def)

text \<open>A version is read after it was written, and the initial version only before the first write.\<close>

lemma read_after_write:
  assumes S: "reg_serial eff h" and R: "R \<in> set (oks h)" "first_read k (mops_of R) = Some v"
    and W: "W \<in> set (oks h)" "last_write k (mops_of W) = Some v"
  shows "op_idx W < op_idx R"
proof -
  obtain xs m ys where m: "mops_of R = xs @ m # ys" "IsRead m" "GetKey m = k" "reg_of m = v" "last_write k xs = None"
    using first_read_split [OF R(2)] by blast
  have nn: "v \<noteq> NewNil" using write_not_nil [OF S _ _ last_write_in [OF W(2)]] W(1) by auto
  with ok_read [OF S R(1) m(1,2)] m(3-5) obtain E where E: "E \<in> set h" "eff E" "op_idx E < op_idx R" "last_write k (mops_of E) = Some v" by auto
  have "E = W" using write_unique [OF S E(1) _ _ _ last_write_in [OF E(4)] last_write_in [OF W(2)]] W(1) reg_serialD(6) [OF S E(1,2)] by auto
  with E show ?thesis by simp
qed

lemma initial_read_before_write:
  assumes S: "reg_serial eff h" and R: "R \<in> set (oks h)" "first_read k (mops_of R) = Some NewNil"
    and W: "W \<in> set (oks h)" "last_write k (mops_of W) \<noteq> None" "R \<noteq> W"
  shows "op_idx R < op_idx W"
proof -
  obtain xs m ys where m: "mops_of R = xs @ m # ys" "IsRead m" "GetKey m = k" "reg_of m = NewNil" "last_write k xs = None"
    using first_read_split [OF R(2)] by blast
  have nn: "last_write k (mops_of E) \<noteq> Some NewNil" if "E \<in> set h" "eff E" for E
    using write_not_nil [OF S that(1) _ last_write_in] reg_serialD(6) [OF S that] by fastforce
  with ok_read [OF S R(1) m(1,2)] m(3-5) have "E \<in> set h \<Longrightarrow> eff E \<Longrightarrow> op_idx E < op_idx R \<Longrightarrow> last_write k (mops_of E) = None" for E by auto
  with W reg_serialD(5) [OF S] have "\<not> op_idx W < op_idx R" by auto
  moreover have "op_idx W \<noteq> op_idx R" using numbered_eq_iff [OF reg_serialD(1) [OF S], of W R] W R by auto
  ultimately show ?thesis by simp
qed

lemma one_writer:
  assumes S: "reg_serial eff h"
  shows "length (filter (\<lambda>op. last_write k (mops_of op) = Some v) (oks h)) \<le> 1"
proof (rule ccontr)
  assume "\<not> ?thesis"
  then obtain a b rest where l: "filter (\<lambda>op. last_write k (mops_of op) = Some v) (oks h) = a # b # rest"
    by (cases "filter (\<lambda>op. last_write k (mops_of op) = Some v) (oks h)" rule: remdups_adj.cases) simp_all
  then have "a \<in> set (filter (\<lambda>op. last_write k (mops_of op) = Some v) (oks h))" "b \<in> set (filter (\<lambda>op. last_write k (mops_of op) = Some v) (oks h))" by auto
  then have ab: "a \<in> set (oks h)" "b \<in> set (oks h)" "last_write k (mops_of a) = Some v" "last_write k (mops_of b) = Some v" by auto
  have "a = b" using write_unique [OF S _ _ _ _ last_write_in [OF ab(3)] last_write_in [OF ab(4)]] ab(1,2) by simp
  moreover have "distinct (oks h)" using numbered_distinct [OF reg_serialD(1) [OF S]] by (simp add: FilterOkHistory_def)
  ultimately show False using l by (metis distinct_filter distinct_length_2_or_more)
qed

lemma forward_graph_LinkToAll:
  "\<lbrakk>forward_graph h g; \<And>y. y \<in> set ys \<Longrightarrow> forward h x y\<rbrakk> \<Longrightarrow> forward_graph h (LinkToAll x ys r g)"
  unfolding forward_graph_def by (auto simp: wf_LinkToAll edges_LinkToAll simp del: in_edges)

lemma forward_link_wr:
  assumes S: "reg_serial eff h" and I: "reg_indices h ri wi" and g: "forward_graph h g" and e: "(k, rvals) \<in> set ri" "(v, rops) \<in> set rvals"
  shows "\<exists>g'. link_wr wi k (v, rops) g = Some g' \<and> forward_graph h g'"
proof (cases "map_of wi k")
  case None
  with g show ?thesis by (simp add: link_wr_def)
next
  case wv: (Some wvals)
  show ?thesis
  proof (cases "map_of wvals v")
    case None
    with wv g show ?thesis by (simp add: link_wr_def)
  next
    case (Some wops)
    have w: "wops = filter (\<lambda>op. last_write k (mops_of op) = Some v) (oks h)"
      using entry_of_map [OF wv Some] I by (simp add: reg_indices_def)
    have r: "rops = filter (\<lambda>op. first_read k (mops_of op) = Some v) (oks h)"
      using entry_in_index [OF _ e] I by (simp add: reg_indices_def)
    show ?thesis
    proof (cases "wops = []")
      case False
      have "length wops \<le> 1" using one_writer [OF S, of k v] by (simp flip: w)
      with False obtain W where W: "wops = [W]" by (cases wops) auto
      then have W': "W \<in> set (oks h)" "last_write k (mops_of W) = Some v" using arg_cong [OF w, of set] by auto
      have "forward h (VOp W) (VOp R)" if "R \<in> set rops" for R
        using read_after_write [OF S _ _ W'] that r W'(1) by (auto simp: forward_def)
      with g have "forward_graph h (LinkToAll (VOp W) (map VOp rops) WR g)" by (intro forward_graph_LinkToAll) auto
      with wv Some W show ?thesis by (simp add: link_wr_def)
    qed (use wv Some g in \<open>simp add: link_wr_def\<close>)
  qed
qed

lemma forward_reg_wrGraph:
  assumes S: "reg_serial eff h"
  shows "forward_analyzer h opts reg_wrGraph"
  unfolding forward_analyzer_def
proof
  fix \<rho>
  obtain ri wi where I: "extIndex (sub \<rho> 0) extReadKeys (oks h) = Some ri" "extIndex (sub \<rho> 1) extWriteKeys (oks h) = Some wi" "reg_indices h ri wi"
    using reg_indices_exist [OF S, of "oks h" "sub \<rho> 0" "sub \<rho> 1"] by auto
  have "\<exists>g. foldM (\<lambda>(i, k, rvals) g. foldM (link_wr wi k) (go_range (sub \<rho> i) rvals) g)
       (enumerate 3 (go_range (sub \<rho> 2) ri)) NewDirectedGraph = Some g \<and> forward_graph h g"
  proof (rule foldM_inv)
    fix x g assume x: "x \<in> set (enumerate 3 (go_range (sub \<rho> 2) ri))" and g: "forward_graph h g"
    obtain i k rvals where x': "x = (i, k, rvals)" by (metis prod.collapse)
    with x have k: "(k, rvals) \<in> set ri" by (metis ex_enumerate set_go_range)
    have "\<exists>g'. foldM (link_wr wi k) (go_range (sub \<rho> i) rvals) g = Some g' \<and> forward_graph h g'"
      using forward_link_wr [OF S I(3) _ k] g by (intro foldM_inv) auto
    then show "\<exists>v. (case x of (i, k, rvals) \<Rightarrow> foldM (link_wr wi k) (go_range (sub \<rho> i) rvals)) g = Some v \<and> forward_graph h v"
      by (simp add: x')
  qed simp
  with I(1,2) show "\<exists>an g e. reg_wrGraph \<rho> h opts = Some (an, Some g, e) \<and> read_anomalies an = [] \<and> forward_graph h g"
    by (auto simp: reg_wrGraph_def read_anomalies_def)
qed

lemma in_entries: "op \<in> set (entries idx k v) \<Longrightarrow> \<exists>m ops. map_of idx k = Some m \<and> map_of m v = Some ops \<and> op \<in> set ops"
  by (cases "map_of idx k"; cases "map_of (the (map_of idx k)) v") (auto simp: entries_def get_or_def)

lemma linking_reg_wrGraph:
  assumes S: "reg_serial eff h" and W: "W \<in> set (oks h)" "last_write k (mops_of W) = Some v"
    and R: "R \<in> set (oks h)" "first_read k (mops_of R) = Some v"
  shows "linking h opts reg_wrGraph"
  unfolding linking_def
proof (intro allI impI)
  fix \<rho> an g e assume g: "reg_wrGraph \<rho> h opts = Some (an, Some g, e)"
  obtain ri wi where I: "extIndex (sub \<rho> 0) extReadKeys (oks h) = Some ri" "extIndex (sub \<rho> 1) extWriteKeys (oks h) = Some wi" "reg_indices h ri wi"
    using reg_indices_exist [OF S, of "oks h" "sub \<rho> 0" "sub \<rho> 1"] by auto
  have "R \<in> set (entries ri k v)" "W \<in> set (entries wi k v)" using I(3) R W by (auto simp: reg_indices_def)
  with in_entries [of R ri k v] in_entries [of W wi k v] obtain rvals rops wvals wops where
    e: "map_of ri k = Some rvals" "map_of rvals v = Some rops" "R \<in> set rops" "map_of wi k = Some wvals" "map_of wvals v = Some wops" "W \<in> set wops"
    by metis
  have "wops = filter (\<lambda>op. last_write k (mops_of op) = Some v) (oks h)" using entry_of_map [OF e(4,5)] I(3) by (simp add: reg_indices_def)
  then have "length wops \<le> 1" using one_writer [OF S, of k v] by simp
  with e have one: "link_wr wi k (v, rops) u = Some u' \<Longrightarrow> edges u' \<noteq> {}" for u u'
    by (cases wops) (auto simp: link_wr_def edges_LinkToAll simp del: in_edges)
  have keep: "edges u' \<noteq> {}" if "edges u \<noteq> {}" "link_wr wi k' x u = Some u'" for k' x u u'
    using that by (auto simp: link_wr_def edges_LinkToAll split: prod.splits option.splits if_splits simp del: in_edges)
  have "(k, rvals) \<in> set (go_range (sub \<rho> 2) ri)" using map_of_SomeD [OF e(1)] by simp
  then obtain j where "j < length (go_range (sub \<rho> 2) ri)" "go_range (sub \<rho> 2) ri ! j = (k, rvals)" by (meson in_set_conv_nth)
  then obtain i where x: "(i, k, rvals) \<in> set (enumerate 3 (go_range (sub \<rho> 2) ri))"
    using that [of "3 + j"] by (simp add: in_set_enumerate_eq)
  from g I(1,2) have f: "foldM (\<lambda>(i, k, rvals) g. foldM (link_wr wi k) (go_range (sub \<rho> i) rvals) g)
       (enumerate 3 (go_range (sub \<rho> 2) ri)) NewDirectedGraph = Some g" by (auto simp: reg_wrGraph_def split: Option.bind_splits)
  show "edges g \<noteq> {}"
  proof (rule foldM_reaches [OF f x, where P = "\<lambda>g. edges g \<noteq> {}"], goal_cases)
    case (1 u u')
    have "(v, rops) \<in> set (go_range (sub \<rho> i) rvals)" using map_of_SomeD [OF e(2)] by simp
    with 1 show ?case using foldM_reaches [of "link_wr wi k" "go_range (sub \<rho> i) rvals" u u' "(v, rops)" "\<lambda>g. edges g \<noteq> {}"] one keep by auto
  next
    case (2 y u u')
    obtain j k' rs where "y = (j, k', rs)" by (metis prod.collapse)
    with 2 show ?case using foldM_invariant [of "link_wr wi k'" "go_range (sub \<rho> j) rs" u u' "\<lambda>g. edges g \<noteq> {}"] keep by auto
  qed
qed

section \<open>Version graphs of the initial state\<close>

text \<open>Without an option, all edges of a version graph leave the initial version.\<close>

definition init_graph :: "DirectedGraph \<Rightarrow> bool" where
  "init_graph g \<longleftrightarrow> wf_graph g \<and> (\<forall>a \<in> keys (Outs g). \<exists>v. a = VReg v) \<and> (\<forall>a b. arc g a b \<longrightarrow> a = VReg NewNil \<and> (\<exists>v. b = VReg v))"

definition init_graphs :: "version_graphs \<Rightarrow> bool" where
  "init_graphs vgs \<longleftrightarrow> wf_map vgs \<and> (\<forall>k g. map_of vgs k = Some g \<longrightarrow> init_graph g)"

lemma init_graph_New [simp]: "init_graph NewDirectedGraph"
  by (simp add: init_graph_def arc_def outs_def)

lemma init_graph_Link: "init_graph g \<Longrightarrow> init_graph (Link (VReg NewNil) (VReg v) r g)"
  by (auto simp: init_graph_def wf_Link)

lemma init_graphs_get: "init_graphs vgs \<Longrightarrow> init_graph (get_or NewDirectedGraph vgs k)"
  by (auto simp: init_graphs_def get_or_def split: option.splits)

lemma init_graphs_update: "init_graphs vgs \<Longrightarrow> init_graph g \<Longrightarrow> init_graphs (AList.update k g vgs)"
  by (auto simp: init_graphs_def)

lemma init_graphs_mem: "init_graphs vgs \<Longrightarrow> (k, g) \<in> set vgs \<Longrightarrow> init_graph g"
  by (metis init_graphs_def map_of_eq_Some_iff)

lemma init_no_components:
  assumes g: "init_graph g"
  shows "StronglyConnectedComponents \<rho> g = Some []"
proof -
  have "component g v = {v}" for v
  proof -
    have "w = v" if "reach g v w" "reach g w v" for w
    proof (rule ccontr)
      assume "w \<noteq> v"
      with that have "(arc g)\<^sup>+\<^sup>+ v w" "(arc g)\<^sup>+\<^sup>+ w v" by (metis rtranclpD)+
      then obtain x y where "arc g v x" "arc g w y" by (meson tranclpD)
      then have "v = VReg NewNil" "w = VReg NewNil" using g unfolding init_graph_def by blast+
      with \<open>w \<noteq> v\<close> show False by simp
    qed
    then show ?thesis by (auto simp: component_def)
  qed
  then have "{C \<in> component g ` keys (Outs g). 2 \<le> card C} = {}" by auto
  with SCC_spec [of g \<rho>] g show ?thesis by (auto simp: init_graph_def wf_graphD(1))
qed

lemma init_no_cycles:
  assumes "init_graphs vgs" shows "cyclicVersionCases \<rho> vgs = Some []"
proof -
  have "\<exists>cs. cyclicVersionCases \<rho> vgs = Some cs \<and> cs = []"
    unfolding cyclicVersionCases_def
  proof (rule foldM_inv, goal_cases)
    case (1 x cs)
    obtain i k g where x: "x = (i, k, g)" by (metis prod.collapse)
    with 1 have "(k, g) \<in> set vgs" by (metis ex_enumerate set_go_range)
    then have "init_graph g" using init_graphs_mem [OF assms] by blast
    with 1 x show ?case by (simp add: init_no_components)
  qed simp
  then show ?thesis by simp
qed

lemma initialState_graphs:
  assumes S: "reg_serial eff h"
  shows "\<exists>vgs. initialStateVersionGraphs \<rho> h = Some vgs \<and> init_graphs vgs"
  unfolding initialStateVersionGraphs_def
proof (rule foldM_inv, goal_cases)
  case (1 x vgs)
  obtain i op where x: "x = (i, op)" by fastforce
  with 1 have op: "op \<in> set h" by (metis ex_enumerate)
  let ?put = "\<lambda>(k, v) vgs. let g = get_or NewDirectedGraph vgs k
           in AList.update k (if VReg NewNil \<notin> keys (Outs g) then Link (VReg NewNil) (VReg v) InitialState g else g) vgs"
  have put: "init_graphs (fold ?put kvs vgs)" for kvs
  proof (rule fold_invariant [where I = init_graphs])
    fix kv u assume "init_graphs u"
    then show "init_graphs (?put kv u)"
      by (cases kv) (auto simp: Let_def intro!: init_graphs_update init_graph_Link init_graphs_get)
  qed (use 1 in simp)
  show ?case
  proof (cases "op_Type op = OpTypeFail \<or> op_Type op = OpTypeInvoke")
    case True
    with 1 x show ?thesis by auto
  next
    case False
    have d: "deref op = Some (mops_of op)" "list_all reg_mop (mops_of op)" using reg_serialD(3,4) [OF S op] False by (auto simp: list_all_iff)
    from extReadKeys_spec [OF d] extWriteKeys_spec [OF d] obtain r w where "extReadKeys op = Some r" "extWriteKeys op = Some w" by blast
    with False x put show ?thesis by auto
  qed
qed (simp add: init_graphs_def)

lemma init_merge:
  assumes "init_graphs vgs" shows "init_graphs (mergeGraphs \<rho> [] vgs join)"
proof -
  have "init_graphs (fold (\<lambda>(k, g2) gs. if k \<notin> keys gs then AList.update k g2 gs else gs) (go_range (sub \<rho> 1) vgs) [])"
  proof (rule fold_invariant [where I = init_graphs])
    fix kv u assume "kv \<in> set (go_range (sub \<rho> 1) vgs)" "init_graphs u"
    then show "init_graphs ((\<lambda>(k, g2) gs. if k \<notin> keys gs then AList.update k g2 gs else gs) kv u)"
      using init_graphs_mem [OF assms] by (auto intro: init_graphs_update split: prod.splits)
  qed (simp add: init_graphs_def)
  then show ?thesis by (simp add: mergeGraphs_def)
qed


section \<open>The verdict\<close>

definition forward_edges :: "History \<Rightarrow> DirectedGraph \<Rightarrow> bool" where
  "forward_edges h g \<longleftrightarrow> (\<forall>a b r. (a, b, r) \<in> edges g \<longrightarrow> forward h a b)"

lemma edges_UnLinkSelfEdges: "edges (UnLinkSelfEdges vs g) = edges g - {(a, a, r) |a r. a \<in> set vs}"
proof -
  have "edges (fold (\<lambda>x. UnLink x x) vs g) = edges g - {(a, a, r) |a r. a \<in> set vs}"
    by (induction vs arbitrary: g) (auto simp: edges_UnLink simp del: in_edges)
  then show ?thesis by (simp add: UnLinkSelfEdges_def)
qed

lemma initial_edge_forward:
  assumes S: "reg_serial eff h" and I: "reg_indices h ri wi" and g: "forward_edges h g"
  shows "forward_edges h (link_version_edge ri wi k NewNil v2 g)"
proof -
  have w: "get_or [] (get_or [] wi k) v = filter (\<lambda>op. last_write k (mops_of op) = Some v) (oks h)"
    and r: "get_or [] (get_or [] ri k) v = filter (\<lambda>op. first_read k (mops_of op) = Some v) (oks h)" for v
    using I by (simp_all add: reg_indices_def entries_def)
  have nil: "filter (\<lambda>op. last_write k (mops_of op) = Some NewNil) (oks h) = []"
  proof -
    have "last_write k (mops_of W) \<noteq> Some NewNil" if "W \<in> set (oks h)" for W
      using write_not_nil [OF S _ _ last_write_in, of W k NewNil] that by fastforce
    then show ?thesis by (simp add: filter_empty_conv)
  qed
  have "forward h (VOp R) (VOp W)" if "R \<in> set (oks h)" "first_read k (mops_of R) = Some NewNil" "W \<in> set (oks h)"
    "last_write k (mops_of W) = Some v2" "R \<noteq> W" for R W
    using initial_read_before_write [OF S that(1,2,3) _ that(5)] that by (auto simp: forward_def)
  then show ?thesis
    using g unfolding forward_edges_def link_version_edge_def Let_def w r nil
    by (fastforce simp: edges_UnLinkSelfEdges edges_LinkAllToAll NewVerticesFromOp_def simp del: in_edges in_oks)
qed

lemma forward_version_graph:
  assumes S: "reg_serial eff h" and vg: "init_graph vg"
  shows "\<exists>g. versionGraph2TransactionGraph \<rho> k h vg = Some g \<and> forward_edges h g"
proof -
  obtain ri wi where I: "extIndex (sub \<rho> 0) extReadKeys h = Some ri" "extIndex (sub \<rho> 1) extWriteKeys h = Some wi" "reg_indices h ri wi"
    using reg_indices_exist [OF S, of h "sub \<rho> 0" "sub \<rho> 1"] by auto
  have "\<exists>g. foldM (\<lambda>(i, from, nexts) g. do {
         v1 \<leftarrow> as_version from;
         foldM (\<lambda>nx g. do { v2 \<leftarrow> as_version nx; Some (link_version_edge ri wi k v1 v2 g) }) (go_range (sub \<rho> i) (map fst nexts)) g })
       (enumerate 3 (go_range (sub \<rho> 2) (Outs vg))) NewDirectedGraph = Some g \<and> forward_edges h g"
  proof (rule foldM_inv, goal_cases)
    case (1 x g)
    obtain i a nexts where x: "x = (i, a, nexts)" by (metis prod.collapse)
    with 1 have a: "(a, nexts) \<in> set (Outs vg)" by (metis ex_enumerate set_go_range)
    have m: "map_of (Outs vg) a = Some nexts"
      using vg a wf_coreD(1) [OF wf_graphD(1), of vg] by (simp add: init_graph_def)
    then obtain v1 where v1: "a = VReg v1" using vg map_of_in_keys [OF m] unfolding init_graph_def by blast
    from m have n: "nx \<in> keys nexts \<Longrightarrow> arc vg a nx" for nx by (simp add: arc_def outs_def get_or_def)
    have "\<exists>g'. foldM (\<lambda>nx g. do { v2 \<leftarrow> as_version nx; Some (link_version_edge ri wi k v1 v2 g) }) (go_range (sub \<rho> i) (map fst nexts)) g = Some g' \<and> forward_edges h g'"
    proof (rule foldM_inv, goal_cases)
      case (1 nx u)
      then have "arc vg a nx" using n by simp
      then have "a = VReg NewNil" "\<exists>v. nx = VReg v" using vg unfolding init_graph_def by blast+
      then obtain v2 where "v1 = NewNil" "nx = VReg v2" using v1 by auto
      with initial_edge_forward [OF S I(3), of u k v2] 1 show ?case by simp
    qed (use 1 in simp)
    with x v1 show ?case by simp
  qed (simp add: forward_edges_def edges_def)
  with I(1,2) show ?thesis by (simp add: versionGraph2TransactionGraph_def)
qed

definition no_options :: GraphOption where
  "no_options = \<lparr>LinearizableKeys = False, SequentialKeys = False, WfrKeys = False\<rparr>"

lemma forward_WWRWGraph:
  assumes S: "reg_serial eff h"
  shows "forward_analyzer h [no_options] WWRWGraph"
  unfolding forward_analyzer_def
proof
  fix \<rho>
  let ?\<rho> = "sub (sub \<rho> 0) 0"
  obtain ags where ags: "initialStateVersionGraphs (sub ?\<rho> 0) h = Some ags" "init_graphs ags"
    using initialState_graphs [OF S] by blast
  define vgs where "vgs = mergeGraphs (sub ?\<rho> 1) [] ags DigraphUnion"
  have vgs: "init_graphs vgs" using init_merge [OF ags(2)] by (simp add: vgs_def)
  have v: "versionGraphs (sub \<rho> 0) h [no_options] = Some ([], [''initial-state-version-graphs''], vgs)"
    using ags(1) init_no_cycles [OF vgs] by (simp add: versionGraphs_def version_analyzers_def no_options_def vgs_def)
  have "\<exists>g. (case x of (i, k, g) \<Rightarrow> versionGraph2TransactionGraph (sub (sub \<rho> 1) i) k h g) = Some g \<and> forward_edges h g"
    if "x \<in> set (enumerate 2 (go_range (sub (sub \<rho> 1) 0) vgs))" for x
  proof -
    obtain i k g where x: "x = (i, k, g)" by (metis prod.collapse)
    with that have "(k, g) \<in> set vgs" by (metis ex_enumerate set_go_range)
    with forward_version_graph [OF S init_graphs_mem [OF vgs]] x show ?thesis by simp
  qed
  from mapM_exists [of "enumerate 2 (go_range (sub (sub \<rho> 1) 0) vgs)" "\<lambda>(i, k, g). versionGraph2TransactionGraph (sub (sub \<rho> 1) i) k h g" "forward_edges h", OF this]
  obtain gs where gs:
    "mapM (\<lambda>(i, k, g). versionGraph2TransactionGraph (sub (sub \<rho> 1) i) k h g) (enumerate 2 (go_range (sub (sub \<rho> 1) 0) vgs)) = Some gs"
    "\<forall>g \<in> set gs. forward_edges h g" by blast
  have "forward_graph h (DigraphUnion (sub (sub \<rho> 1) 1) gs)"
    using gs(2) by (auto simp: forward_graph_def forward_edges_def wf_DigraphUnion edges_DigraphUnion simp del: in_edges)
  with v gs(1) show "\<exists>an g e. WWRWGraph \<rho> h [no_options] = Some (an, Some g, e) \<and> read_anomalies an = [] \<and> forward_graph h g"
    by (simp add: WWRWGraph_def versionGraphs2TransactionGraph_def read_anomalies_def)
qed

lemma forward_reg_graph:
  assumes S: "reg_serial eff h"
  shows "\<exists>g e. reg_graph \<rho> h [no_options] = Some (Some [], Some g, e) \<and> forward_graph h g"
  unfolding reg_graph_def
  by (rule forward_Combine) (use forward_reg_wrGraph [OF S] forward_WWRWGraph [OF S] in auto)

lemma forward_reg_checked:
  assumes S: "reg_serial eff h" "\<forall>A \<in> set As. forward_analyzer h [no_options] A"
  shows "\<exists>g e. (if length As \<noteq> 0 then Combine (reg_graph # As) else reg_graph) \<rho> h [no_options] = Some (Some [], Some g, e) \<and> forward_graph h g"
proof -
  have "forward_analyzer h [no_options] reg_graph"
    using forward_reg_graph [OF S(1)] unfolding forward_analyzer_def by (fastforce simp: read_anomalies_def)
  then have "forward_analyzer h [no_options] A" if "A \<in> set (reg_graph # As)" for A
    using that S(2) by auto
  from forward_Combine [OF this, where As = "reg_graph # As" and \<rho> = \<rho>] forward_reg_graph [OF S(1), of \<rho>] show ?thesis by auto
qed

text \<open>The graph that the checker searches, and a transaction that reads what another wrote last.\<close>

definition searched_registers :: "range_order \<Rightarrow> GraphOption Opts \<Rightarrow> History \<Rightarrow> GraphOption \<Rightarrow> DirectedGraph option" where
  "searched_registers \<rho> opts h graphOpt = do {
     As \<leftarrow> AdditionalGraphs (sub \<rho> 0) opts;
     (_, gp, _) \<leftarrow> (if length As \<noteq> 0 then Combine (reg_graph # As) else reg_graph) (sub (sub (sub \<rho> 1) 0) 0) (preProcessHistory h) [graphOpt];
     gp }"

definition observed_write :: "History \<Rightarrow> bool" where
  "observed_write h \<longleftrightarrow> (\<exists>a \<in> set (oks h). \<exists>b \<in> set (oks h). \<exists>k \<in> GetKey ` set (mops_of b).
     first_read k (mops_of b) \<noteq> None \<and> last_write k (mops_of a) = first_read k (mops_of b))"

lemma reg_serial_spec:
  assumes S: "reg_serial eff (preProcessHistory h)" and opts: "opts_AdditionalGraphs opts = []"
  shows "\<exists>r g. Register_Check \<rho> opts h no_options = Some r \<and> searched_registers \<rho> opts h no_options = Some g \<and> verdict_on g r \<and>
    (observed_write (preProcessHistory h) \<or> opts_ConsistencyModels opts = None \<and> preceded (preProcessHistory h) \<longrightarrow> Outs g \<noteq> [])"
proof -
  let ?h = "preProcessHistory h"
  obtain pair where pair: "pair_history ?h = Some pair" using reg_serialD(2) [OF S] by blast
  obtain As where As: "AdditionalGraphs (sub \<rho> 0) opts = Some As" "\<forall>A \<in> set As. forward_analyzer ?h [no_options] A"
    using forward_AdditionalGraphs [OF reg_serialD(1) [OF S] pair opts] by blast
  let ?A = "if length As \<noteq> 0 then Combine (reg_graph # As) else reg_graph"
  have "\<exists>g e. ?A \<rho>' ?h [no_options] = Some (Some [], Some g, e) \<and> forward_graph ?h g" for \<rho>'
    using forward_reg_checked [OF S As(2)] .
  from forward_Cycles [of ?A, OF this] obtain cr g e where cr: "Cycles (sub \<rho> 1) ?A ?h [no_options] = Some cr"
    "?A (sub (sub (sub \<rho> 1) 0) 0) ?h [no_options] = Some (Some [], Some g, e)" "cr_Anomalies cr = Some (nothing_searched g)" by blast
  obtain r where r: "ResultMap (sub \<rho> 2) opts (Some (nothing_searched g)) = Some r" "verdict_on g r" using ResultMap_no_cycles by blast
  have "Register_Check \<rho> opts h no_options = Some r" using r(1) As(1) cr(1,3)
    by (simp add: Register_Check_def Let_def no_reg_g1a [OF S] no_reg_g1b [OF S] no_reg_internal [OF S])
  moreover have "searched_registers \<rho> opts h no_options = Some g" using As(1) cr(2) by (simp add: searched_registers_def)
  moreover have "Outs g \<noteq> []" if "observed_write ?h \<or> opts_ConsistencyModels opts = None \<and> preceded ?h"
  proof -
    have "linking ?h [no_options] reg_graph" if "observed_write ?h"
    proof -
      from that obtain a b k v where "a \<in> set (oks ?h)" "last_write k (mops_of a) = Some v" "b \<in> set (oks ?h)" "first_read k (mops_of b) = Some v"
        by (auto simp: observed_write_def)
      from linking_Combine [OF _ linking_reg_wrGraph [OF S this], where As = "[reg_wrGraph, WWRWGraph]"] show ?thesis
        by (auto simp: linking_def reg_graph_def)
    qed
    with that linking_checked [OF As(1) reg_serialD(1) [OF S], of "[no_options]" reg_graph]
      linking_Outs [of ?h "[no_options]" ?A, OF _ cr(2)] show ?thesis by blast
  qed
  ultimately show ?thesis using r(2) by blast
qed

text \<open>C8. The register checker does not raise false alarms. Take a history whose client events are numbered in their
  order, every success and failure after an invocation of its process, every completion with micro-operations that write an
  integer or read an integer or nil; in which no value is written to a key twice by completions; and whose transactions
  execute one after the other, in the order of their completions, from registers that are nil: the successful
  ones, none of the failed ones, and of those with unknown outcome any, with whatever they
  read. Then the checker, without options for the orders of keys and with no graphs added by the caller, returns,
  whatever the iteration order of maps, the consistency models and the anomalies asked for. If the graph that it
  searches has a vertex, the verdict is valid and reports nothing; if not, the verdict is not valid and reports the
  empty graph alone. And the graph has a vertex if some successful transaction read, before writing the key, what was the
  last write of a successful transaction, or, when no consistency model is given, if some transaction
  succeeded before an invocation.\<close>

theorem register_serial_accepted:
  fixes opts :: "GraphOption Opts"
  assumes "reg_serial eff (preProcessHistory h)" "opts_AdditionalGraphs opts = []"
  shows "\<exists>r g. Register_Check \<rho> opts h no_options = Some r \<and> searched_registers \<rho> opts h no_options = Some g \<and>
    (if Outs g = [] then \<not> tcr_Valid r \<and> tcr_AnomalyTypes r = [''empty-transaction-graph'']
     else tcr_Valid r \<and> tcr_AnomalyTypes r = [] \<and> tcr_Anomalies r = []) \<and>
    (observed_write (preProcessHistory h) \<or> opts_ConsistencyModels opts = None \<and> preceded (preProcessHistory h) \<longrightarrow> Outs g \<noteq> [])"
  using reg_serial_spec [OF assms, of \<rho>] unfolding verdict_on_def .

definition reg_write :: "string \<Rightarrow> int \<Rightarrow> Mop" where
  "reg_write k v = \<lparr>mop_T = MopTypeWrite, mop_key = k, mop_value = MV_Int (NewInt v)\<rparr>"

definition reg_read :: "string \<Rightarrow> int option \<Rightarrow> Mop" where
  "reg_read k v = \<lparr>mop_T = MopTypeRead, mop_key = k, mop_value = MV_Int (case v of None \<Rightarrow> NewNil | Some i \<Rightarrow> NewInt i)\<rparr>"

theorem register_serial_accepted_witness:
  "let h = [event 0 0 OpTypeInvoke [reg_write ''x'' 1], event 1 0 OpTypeOk [reg_write ''x'' 1],
            event 2 1 OpTypeInvoke [reg_read ''x'' None, reg_write ''x'' 2], event 3 1 OpTypeOk [reg_read ''x'' (Some 1), reg_write ''x'' 2],
            event 4 0 OpTypeInvoke [reg_write ''y'' 7], event 5 0 OpTypeFail [reg_write ''y'' 7]];
       opts = \<lparr>opts_ConsistencyModels = None, opts_Anomalies = [''G-single''], opts_AdditionalGraphs = []\<rparr>
   in \<exists>r. Register_Check fifo opts h no_options = Some r \<and> tcr_Valid r \<and> tcr_AnomalyTypes r = []"
proof -
  let ?h = "[event 0 0 OpTypeInvoke [reg_write ''x'' 1], event 1 0 OpTypeOk [reg_write ''x'' 1],
            event 2 1 OpTypeInvoke [reg_read ''x'' None, reg_write ''x'' 2], event 3 1 OpTypeOk [reg_read ''x'' (Some 1), reg_write ''x'' 2],
            event 4 0 OpTypeInvoke [reg_write ''y'' 7], event 5 0 OpTypeFail [reg_write ''y'' 7]]"
  have S: "reg_serial (\<lambda>op. op_Type op = OpTypeOk) (preProcessHistory ?h)" and "observed_write (preProcessHistory ?h)" by code_simp+
  with register_serial_accepted [OF S, of "\<lparr>opts_ConsistencyModels = None, opts_Anomalies = [''G-single''], opts_AdditionalGraphs = []\<rparr>" fifo]
  show ?thesis unfolding Let_def by fastforce
qed

text \<open>
  The initial version is linked only to the first version of a key that the history shows, be it a read of the
  initial version itself: then the graph of the key says nothing about the writes, and a
  transaction that read nil is not ordered before them.
\<close>


definition skew :: History where
  "skew = [event 0 0 OpTypeInvoke [reg_read ''x'' None, reg_write ''y'' 1], event 1 1 OpTypeInvoke [reg_read ''y'' None, reg_write ''x'' 2],
           event 2 0 OpTypeOk [reg_read ''x'' None, reg_write ''y'' 1], event 3 1 OpTypeOk [reg_read ''y'' None, reg_write ''x'' 2]]"

theorem initial_version_misses_skew:
  "(case reg_graph fifo skew [no_options] of Some (_, Some g, _) \<Rightarrow> all_edges fifo g | _ \<Rightarrow> []) = [(VOp (skew ! 3), VOp (skew ! 2), RW)] \<and>
   foldM exec_effect (oks skew) (\<lambda>_. NewNil) = None \<and> foldM exec_effect (rev (oks skew)) (\<lambda>_. NewNil) = None"
proof (intro conjI)
  show "(case reg_graph fifo skew [no_options] of Some (_, Some g, _) \<Rightarrow> all_edges fifo g | _ \<Rightarrow> []) = [(VOp (skew ! 3), VOp (skew ! 2), RW)]"
    by code_simp
  show "foldM exec_effect (oks skew) (\<lambda>_. NewNil) = None" "foldM exec_effect (rev (oks skew)) (\<lambda>_. NewNil) = None"
    by code_simp+
qed

text \<open>
  The test cases ask for the anomaly G-single and give no consistency model. That leaves the strongest model
  in force: write skew, which snapshot isolation allows, makes the verdict invalid too.
\<close>

theorem option_rules_out_skew:
  "\<exists>m. prohibitedAnomalyTypes \<rho> None [''G-single''] = Some m \<and> ''G2-item'' \<in> keys m"
proof -
  have "(''strict-serializable'', ''PL-3'') \<in> table_rel Models_table" "(''PL-3'', ''repeatable-read'') \<in> table_rel Models_table"
    "(''repeatable-read'', ''G2-item'') \<in> table_rel directProscribedAnomalies_table" by (rule table_relI, code_simp)+
  then have "(canonical ''strict-serializable'', canonical ''PL-3'') \<in> model_rel" "(canonical ''PL-3'', canonical ''repeatable-read'') \<in> model_rel"
    "(canonical ''repeatable-read'', canonical ''G2-item'') \<in> proscribed_rel"
    by (simp_all add: model_rel_def proscribed_rel_def map_prod_imageI)
  moreover have "canonical ''G2-item'' = ''G2-item''" by code_simp
  ultimately have "(canonical ''strict-serializable'', canonical ''repeatable-read'') \<in> model_rel\<^sup>*"
    "(canonical ''repeatable-read'', ''G2-item'') \<in> proscribed_rel" by (auto intro: converse_rtrancl_into_rtrancl)
  then have "''G2-item'' \<in> ruled_out None [''G-single'']" unfolding ruled_out_def by auto
  with prohibited_total [of \<rho> None "[''G-single'']"] show ?thesis by auto
qed

end
