(* ===== verification/Register_Client.thy ===== *)
theory Register_Client
  imports Append_Client Register_Laws
begin

text \<open>
  The rw-register test (\<open>testcase/rw-register/client.go\<close>): the client that runs transactions of reads and
  writes on one table of ints, the conversion of the recorded operations, and the checker. The laws of a
  database that runs one transaction at a time let statements and commits fail, and a commit whose
  connection is lost take effect or not. Under them the client keeps the contract of a store of
  registers (the locale \<open>register_client\<close>), and the test raises no false alarm.
\<close>

section \<open>The client\<close>

text \<open>\<open>SetUp\<close> is that of the list-append client.\<close>

definition register_SetUp :: "('d, 'z) Db_scheme \<Rightarrow> ElleClient \<Rightarrow> int \<Rightarrow> string option \<Rightarrow> 'd \<Rightarrow> SetUpError option \<times> 'd" where
  "register_SetUp = Elle_SetUp"

definition register_TearDown :: "('d, 'z) Db_scheme \<Rightarrow> nat \<Rightarrow> 'd \<Rightarrow> string option \<times> 'd" where
  "register_TearDown D idx d =
     (if idx \<noteq> 0 then (None, d)
      else (case db_Exec D ''drop table if exists register'' d of
              (Some err, d) \<Rightarrow> (Some err, d)
            | (None, d) \<Rightarrow> db_Close D d))"





text \<open>White space in the statement is normalised.\<close>

definition register_DumpState :: "('d, 'z) Db_scheme \<Rightarrow> ElleClient \<Rightarrow> 'd \<Rightarrow> string option \<times> 'd" where
  "register_DumpState D c d =
     (case db_Exec D ''drop table if exists register'' d of (Some err, d) \<Rightarrow> (Some err, d) | (None, d) \<Rightarrow>
     (case db_Exec D ''create table if not exists register (id int not null primary key, sk int not null, val int not null)'' d of
        (Some err, d) \<Rightarrow> (Some err, d) | (None, d) \<Rightarrow>
        if ec_useIndex c
        then (case db_Exec D ''create index txn_sk_val on register(sk, val)'' d of (Some err, d) \<Rightarrow> (Some err, d) | (None, d) \<Rightarrow> (None, d))
        else (None, d)))"


text \<open>The creator has a setting for replica reads, which \<open>Create\<close> does not pass on.\<close>

definition register_Create :: "int \<Rightarrow> string \<Rightarrow> string \<Rightarrow> string \<Rightarrow> ElleClient" where
  "register_Create tableCount readLock txnMode replicaRead =
     \<lparr>ec_tableCount = tableCount, ec_useIndex = False, ec_readLock = readLock, ec_txnMode = txnMode, ec_replicaRead = ''''\<rparr>"



section \<open>The checker\<close>

fun as_obj :: "JVal \<Rightarrow> (bool \<times> int) option" where
  "as_obj (JObj b v) = Some (b, v)"
| "as_obj _ = None"

text \<open>The field \<open>IsNil\<close> is written and read under the name \<open>is_num\<close>.\<close>

definition register_convert_mop :: "JMop \<Rightarrow> Mop list option" where
  "register_convert_mop m = do {
     (isnil, n) \<leftarrow> as_obj (jm_value m);
     let v = (if isnil then NewNil else NewInt n);
     Some (if jm_T m = MopTypeRead \<or> jm_T m = MopTypeWrite
           then [\<lparr>mop_T = jm_T m, mop_key = jm_key m, mop_value = MV_Int v\<rparr>] else []) }"

definition register_convert_event :: "nat \<Rightarrow> (JOp, JOp) Operation \<Rightarrow> Op option" where
  "register_convert_event a ev = do {
     op \<leftarrow> (case o_Data ev of Request op \<Rightarrow> Some op | Response op \<Rightarrow> Some op | _ \<Rightarrow> None);
     mops \<leftarrow> jo_Value op;
     typed \<leftarrow> mapM register_convert_mop mops;
     Some \<lparr>op_Index = jo_Index op, op_Process = OptInt (o_Proc ev), op_Time = jo_Time op, op_Type = jo_Type op,
            op_Value = Some (a, concat typed), op_Error = jo_Error op\<rparr> }"

definition register_convertOperationsToHistory :: "(JOp, JOp) Operation list \<Rightarrow> History option" where
  "register_convertOperationsToHistory events = mapM (\<lambda>(i, ev). register_convert_event i ev) (enumerate 0 events)"

definition register_opts :: "GraphOption Opts" where
  "register_opts = \<lparr>opts_ConsistencyModels = None, opts_Anomalies = [''G-single''], opts_AdditionalGraphs = []\<rparr>"

text \<open>\<open>writeEdnHistory\<close> is the function of the list-append test.\<close>

definition RegisterChecker_Check :: "range_order \<Rightarrow> bool \<Rightarrow> (JOp, JOp) Operation list \<Rightarrow> (TxnCheckResult + bool) option" where
  "RegisterChecker_Check \<rho> created ops = do {
     history \<leftarrow> register_convertOperationsToHistory ops;
     (history, _) \<leftarrow> writeEdnHistory created history;
     result \<leftarrow> Register_Check \<rho> register_opts history \<lparr>LinearizableKeys = False, SequentialKeys = False, WfrKeys = False\<rparr>;
     Some (if tcr_Valid result then Inr True else Inl result) }"

section \<open>What the client relies on\<close>









section \<open>The contract of a register client\<close>







lemma reg_mop_simps [simp]:
  "mop_T (reg_write k v) = MopTypeWrite" "mop_T (reg_read k w) = MopTypeRead" "GetKey (reg_write k v) = k" "GetKey (reg_read k w) = k"
  "mop_key (reg_write k v) = k" "mop_key (reg_read k w) = k"
  "reg_of (reg_write k v) = NewInt v" "reg_of (reg_read k w) = (case w of None \<Rightarrow> NewNil | Some i \<Rightarrow> NewInt i)"
  "IsWrite (reg_write k v)" "\<not> IsWrite (reg_read k w)" "IsRead (reg_read k w)" "\<not> IsRead (reg_write k v)"
  "GetMopType (reg_write k v) = MopTypeWrite" "GetMopType (reg_read k w) = MopTypeRead"
  "as_Int (GetValue (reg_write k v)) = Some (NewInt v)"
  by (simp_all add: reg_write_def reg_read_def mop_defs reg_of_def)

lemma NewInt_simps [simp]: "\<not> int_IsNil (NewInt v)" "int_Val (NewInt v) = v" "MustGetVal (NewInt v) = Some v"
  by (simp_all add: NewInt_def MustGetVal_def)














section \<open>The conversion is exact\<close>






section \<open>The history is serial\<close>











section \<open>From the contract to the verdict\<close>










section \<open>The requests of the generator\<close>


definition to_register :: "Mop \<Rightarrow> Mop" where
  "to_register m = (if IsAppend m then reg_write (GetKey m) (appended m) else reg_read (GetKey m) None)"

definition register_op :: "Op \<Rightarrow> Op" where
  "register_op op = op\<lparr>op_Value := map_option (\<lambda>(a, ms). (a, map to_register ms)) (op_Value op)\<rparr>"



lemma register_op_mops [simp]: "mops_of (register_op r) = map to_register (mops_of r)" "op_Type (register_op r) = op_Type r" "op_Index (register_op r) = op_Index r"
  by (auto simp: register_op_def mops_of_def split: option.splits)















section \<open>Where the test goes wrong\<close>

text \<open>As in the list-append test, the record of a nemesis makes the conversion panic.\<close>

theorem register_nemesis_record_panics:
  assumes "ev \<in> set ops" "o_Data ev = NemesisData s"
  shows "RegisterChecker_Check \<rho> created ops = None"
proof -
  obtain i where "i < length ops" "ops ! i = ev" using assms(1) by (auto simp: in_set_conv_nth)
  then have "(i, ev) \<in> set (enumerate 0 ops)" by (auto simp: in_set_enumerate_eq)
  moreover have "register_convert_event i ev = None" using assms(2) by (simp add: register_convert_event_def)
  ultimately have "mapM (\<lambda>(i, ev). register_convert_event i ev) (enumerate 0 ops) = None" by (intro mapM_None) auto
  then show ?thesis by (simp add: RegisterChecker_Check_def register_convertOperationsToHistory_def)
qed

text \<open>A client never sets the session variable of replica reads, whatever the creator was told.\<close>

theorem replica_read_ignored:
  "register_SetUp D (register_Create n lock m replica) r opened d = register_SetUp D (register_Create n lock m '''') r opened d"
  by (simp add: register_Create_def)

end
