(* ===== verification/Linearizability.thy ===== *)
theory Linearizability
  imports Operations "HOL-Library.Sublist"
begin

text \<open>
  What completing a history is good for. The events handed to porcupine form a complete
  history: every call has an identifier of its own and one return. And a checker for complete
  histories decides linearizability of the recorded one, in which operations may be pending:
  a pending operation takes effect at some point after its call or not at all.

  The step function of a model is an interface (\<open>object_model\<close>); the theorem needs of it that the
  response of an operation that never returned is accepted in every state, and that an operation
  has either the effect that goes with this response or none.
\<close>

section \<open>Complete event sequences\<close>

text \<open>The state is the open call of every client and the number of calls so far.\<close>

inductive ev_step :: "(int \<rightharpoonup> nat) \<times> nat \<Rightarrow> ('i, 'o) Event \<Rightarrow> (int \<rightharpoonup> nat) \<times> nat \<Rightarrow> bool" where
  call: "P p = None \<Longrightarrow> ev_step (P, n) \<lparr>ev_ClientId = p, ev_Kind = CallEvent, ev_Value = v, ev_Id = n\<rparr> (P(p \<mapsto> n), Suc n)"
| return: "P p = Some i \<Longrightarrow> ev_step (P, n) \<lparr>ev_ClientId = p, ev_Kind = ReturnEvent, ev_Value = v, ev_Id = i\<rparr> (P(p := None), n)"

inductive_cases ev_stepE: "ev_step st ev st'"

inductive ev_run :: "(int \<rightharpoonup> nat) \<times> nat \<Rightarrow> ('i, 'o) Event list \<Rightarrow> (int \<rightharpoonup> nat) \<times> nat \<Rightarrow> bool" where
  nil: "ev_run st [] st"
| snoc: "\<lbrakk>ev_run st evs st'; ev_step st' ev st''\<rbrakk> \<Longrightarrow> ev_run st (evs @ [ev]) st''"

inductive_cases ev_run_snocE: "ev_run st (evs @ [ev]) st''"

lemma ev_run_append:
  assumes "ev_run st xs st1" "ev_run st1 ys st2" shows "ev_run st (xs @ ys) st2"
  using assms(2,1)
proof (induction st1 ys st2 rule: ev_run.induct)
  case (snoc st evs st' ev st'')
  then show ?case using ev_run.snoc by fastforce
qed simp

definition calls :: "('i, 'o) Event list \<Rightarrow> nat set" where
  "calls evs = ev_Id ` {e \<in> set evs. ev_Kind e = CallEvent}"

definition returned :: "('i, 'o) Event list \<Rightarrow> nat set" where
  "returned evs = ev_Id ` {e \<in> set evs. ev_Kind e = ReturnEvent}"

lemma calls_simps [simp]: "calls [] = {}" "calls (xs @ ys) = calls xs \<union> calls ys"
  "calls (e # evs) = (if ev_Kind e = CallEvent then {ev_Id e} else {}) \<union> calls evs"
  by (auto simp: calls_def)

lemma returned_simps [simp]: "returned [] = {}" "returned (xs @ ys) = returned xs \<union> returned ys"
  "returned (e # evs) = (if ev_Kind e = ReturnEvent then {ev_Id e} else {}) \<union> returned evs"
  by (auto simp: returned_def)

text \<open>Identifiers are consecutive; the open calls are those that have not returned.\<close>

lemma ev_run_ids:
  assumes "ev_run st0 evs st" "st0 = (Map.empty, 0)"
  shows "calls evs = {..<snd st}" "ran (fst st) = calls evs - returned evs" "returned evs \<subseteq> calls evs"
    "inj_on (fst st) (dom (fst st))"
proof -
  have "calls evs = {..<snd st} \<and> ran (fst st) = calls evs - returned evs \<and> returned evs \<subseteq> calls evs \<and>
    inj_on (fst st) (dom (fst st))"
    using assms
  proof (induction st0 evs st rule: ev_run.induct)
    case (snoc st evs st' ev st'')
    then have IH: "calls evs = {..<snd st'}" "ran (fst st') = calls evs - returned evs" "returned evs \<subseteq> calls evs"
      "inj_on (fst st') (dom (fst st'))" by auto
    from snoc.hyps(2) show ?case
    proof cases
      case (call P p n v)
      have "n \<notin> ran P" using IH(1,2) call by auto
      moreover from this have "inj_on (P(p \<mapsto> n)) (dom (P(p \<mapsto> n)))" using IH(4) call
        by (auto simp: inj_on_def ran_def split: if_splits)
      moreover have "ran (P(p \<mapsto> n)) = insert n (ran P)" using call by simp
      ultimately show ?thesis using IH call \<open>n \<notin> ran P\<close> by (simp add: lessThan_Suc del: dom_fun_upd fun_upd_apply) auto
    next
      case (return P p i n v)
      have "ran (P(p := None)) = ran P - {i}"
        using IH(4) return by (auto simp: ran_def inj_on_def dom_def) (metis option.inject)+
      moreover have "i \<in> ran P" using return by (auto simp: ran_def)
      moreover have "inj_on (P(p := None)) (dom (P(p := None)))" using IH(4) return by (auto simp: inj_on_def)
      ultimately show ?thesis using IH return by (simp del: dom_fun_upd fun_upd_apply) auto
    qed
  qed (simp add: ran_def)
  then show "calls evs = {..<snd st}" "ran (fst st) = calls evs - returned evs" "returned evs \<subseteq> calls evs"
    "inj_on (fst st) (dom (fst st))" by auto
qed

section \<open>The conversion of a completed history\<close>

lemma convert_acc:
  "convert_loop ops P i (a @ b) = (case convert_loop ops P i b of (P', i', evs) \<Rightarrow> (P', i', a @ evs))"
  by (induction ops arbitrary: P i b) (simp_all add: case_prod_unfold)

lemma convert_append:
  "convert_loop (xs @ ys) P i evs = (case convert_loop xs P i evs of (P', i', evs') \<Rightarrow> convert_loop ys P' i' evs')"
  by (induction xs arbitrary: P i evs) (simp_all add: case_prod_unfold)

text \<open>The operations that are kept: calls, known returns, nemesis records.\<close>

definition known :: "('o \<Rightarrow> bool) \<Rightarrow> ('i, 'o) Operation list \<Rightarrow> ('i, 'o) Operation list" where
  "known IsUnknown ops = filter (\<lambda>op. \<not> (is_return op \<and> unknown_data IsUnknown (o_Data op))) ops"

lemma call_not_return [simp]: "InvokeOperation \<noteq> ReturnOperation" "ReturnOperation \<noteq> InvokeOperation"
  by (simp_all add: action_defs)

lemma complete_convert:
  assumes "complete_loop IsUnknown ops pm done_ops = Inr (pm', done_ops')" "keys pm = keys P"
    and "\<And>op. op \<in> set ops \<Longrightarrow> is_return op \<Longrightarrow> o_Data op \<noteq> NilData"
  shows "done_ops' = done_ops @ known IsUnknown ops \<and> (\<exists>P' i' evs. convert_loop (known IsUnknown ops) P i [] = (P', i', evs) \<and>
    keys P' = keys pm' \<and> (wf_map pm \<longrightarrow> wf_map pm') \<and> ev_run (map_of P, i) evs (map_of P', i'))"
  using assms
proof (induction ops arbitrary: pm done_ops P i)
  case Nil
  then show ?case by (auto simp: known_def intro: ev_run.nil)
next
  case (Cons op ops)
  note prems = Cons.prems
  have nil: "\<And>op. op \<in> set ops \<Longrightarrow> is_return op \<Longrightarrow> o_Data op \<noteq> NilData" using prems(3) by simp
  note IH = Cons.IH [OF _ _ nil]
  have first: "ev_run st [ev] st'" if "ev_step st ev st'" for st st' and ev :: "('a, 'b) Event"
    using ev_run.snoc [OF ev_run.nil that] by simp
  let ?k = "\<lambda>op ops. known IsUnknown (op # ops)"
  consider (call) "is_call op" "o_Proc op \<notin> keys pm"
    | (unknown) "is_return op" "unknown_data IsUnknown (o_Data op)" "o_Proc op \<in> keys pm"
    | (return) "is_return op" "\<not> unknown_data IsUnknown (o_Data op)" "o_Proc op \<in> keys pm"
    | (other) "\<not> is_call op" "\<not> is_return op"
    using prems(1) by (auto split: if_splits)
  then show ?case
  proof cases
    case call
    let ?ev = "\<lparr>ev_ClientId = o_Proc op, ev_Kind = CallEvent, ev_Value = o_Data op, ev_Id = i\<rparr>"
    have "complete_loop IsUnknown ops (AList.update (o_Proc op) () pm) (done_ops @ [op]) = Inr (pm', done_ops')"
      "keys (AList.update (o_Proc op) () pm) = keys (AList.update (o_Proc op) i P)" using prems(1,2) call by simp_all
    from IH [OF this, of "i + 1"]
    obtain P' i' evs where IH: "done_ops' = done_ops @ op # known IsUnknown ops" "wf_map pm \<longrightarrow> wf_map pm'"
      "convert_loop (known IsUnknown ops) (AList.update (o_Proc op) i P) (i + 1) [] = (P', i', evs)" "keys P' = keys pm'"
      "ev_run ((map_of P)(o_Proc op \<mapsto> i), Suc i) evs (map_of P', i')"
      by (fastforce simp: update_conv' simp del: fun_upd_apply map_of_update)
    have "ev_step (map_of P, i) ?ev ((map_of P)(o_Proc op \<mapsto> i), Suc i)"
      using call(2) prems(2) by (intro ev_step.call) (simp add: map_of_None_keys)
    from ev_run_append [OF first [OF this] IH(5)] IH(1-4) call(1) show ?thesis
      using convert_acc [of "known IsUnknown ops" _ _ "[?ev]" "[]"] by (simp add: known_def)
  next
    case unknown
    then have "complete_loop IsUnknown ops pm done_ops = Inr (pm', done_ops')" using prems(1) by simp
    from IH [OF this prems(2), of i] unknown show ?thesis by (simp add: known_def)
  next
    case return
    from return(3) prems(2) obtain j where j: "map_of P (o_Proc op) = Some j" by (auto simp: in_keys_map_of)
    let ?ev = "\<lparr>ev_ClientId = o_Proc op, ev_Kind = ReturnEvent, ev_Value = o_Data op, ev_Id = j\<rparr>"
    have "complete_loop IsUnknown ops (AList.delete (o_Proc op) pm) (done_ops @ [op]) = Inr (pm', done_ops')"
      "keys (AList.delete (o_Proc op) pm) = keys (AList.delete (o_Proc op) P)" using prems(1,2) return by simp_all
    from IH [OF this, of i]
    obtain P' i' evs where IH: "done_ops' = done_ops @ op # known IsUnknown ops" "wf_map pm \<longrightarrow> wf_map pm'"
      "convert_loop (known IsUnknown ops) (AList.delete (o_Proc op) P) i [] = (P', i', evs)" "keys P' = keys pm'"
      "ev_run ((map_of P)(o_Proc op := None), i) evs (map_of P', i')"
      by (fastforce simp: delete_conv' simp del: fun_upd_apply map_of_delete)
    have "ev_step (map_of P, i) ?ev ((map_of P)(o_Proc op := None), i)" by (rule ev_step.return) (rule j)
    from ev_run_append [OF first [OF this] IH(5)] IH(1-4) return(1,2) prems(3) [of op] j show ?thesis
      using convert_acc [of "known IsUnknown ops" _ _ "[?ev]" "[]"] by (simp add: known_def get_or_def)
  next
    case other
    then have "complete_loop IsUnknown ops pm (done_ops @ [op]) = Inr (pm', done_ops')" using prems(1) by simp
    from IH [OF this prems(2), of i] other show ?thesis by (simp add: known_def)
  qed
qed

text \<open>The returns that complete the open calls \<open>P\<close> of the processes \<open>ps\<close>.\<close>

definition noop_events :: "'o \<Rightarrow> (int, nat) gomap \<Rightarrow> int list \<Rightarrow> ('i, 'o) Event list" where
  "noop_events noop P ps =
     map (\<lambda>p. \<lparr>ev_ClientId = p, ev_Kind = ReturnEvent, ev_Value = Response noop, ev_Id = get_or 0 P p\<rparr>) ps"

lemma noop_events_simps:
  "noop_events noop P [] = []"
  "noop_events noop P (p # ps) = \<lparr>ev_ClientId = p, ev_Kind = ReturnEvent, ev_Value = Response noop, ev_Id = get_or 0 P p\<rparr> # noop_events noop P ps"
  "p \<notin> set ps \<Longrightarrow> noop_events noop (AList.delete p P) ps = noop_events noop P ps"
  by (auto simp: noop_events_def get_or_def)

lemma convert_noops:
  assumes "distinct ps" "set ps = keys P"
  shows "convert_loop (map (noop_return noop) ps) P i evs = ([], i, evs @ noop_events noop P ps)"
  using assms
proof (induction ps arbitrary: P evs)
  case Nil
  then show ?case by (cases P) (simp_all add: noop_events_def)
next
  case (Cons p ps)
  have "set ps = keys (AList.delete p P)" using Cons.prems by auto
  from Cons.IH [OF _ this] Cons.prems(1) show ?case
    by (simp add: noop_return_def noop_events_simps)
qed

lemma noops_run:
  assumes "distinct ps" "set ps = keys P"
  shows "ev_run (map_of P, n) (noop_events noop P ps) (Map.empty, n)"
  using assms
proof (induction ps arbitrary: P)
  case Nil
  then show ?case by (cases P) (auto simp: noop_events_def intro: ev_run.nil)
next
  case (Cons p ps)
  let ?P = "AList.delete p P"
  have ks: "set ps = keys ?P" using Cons.prems by auto
  from Cons.prems(2) obtain j where j: "map_of P p = Some j" by (metis in_keys_map_of list.set_intros(1))
  have "ev_step (map_of P, n) \<lparr>ev_ClientId = p, ev_Kind = ReturnEvent, ev_Value = Response noop, ev_Id = j\<rparr> (map_of ?P, n)"
    unfolding delete_conv' by (rule ev_step.return) (rule j)
  from ev_run_append [OF ev_run.snoc [OF ev_run.nil this] Cons.IH [OF _ ks]] Cons.prems(1) j
  show ?case by (simp add: noop_events_simps get_or_def)
qed

lemma complete_events:
  assumes "CompleteOperations \<rho> IsUnknown noop ops = Inr cops"
    and "\<And>op. op \<in> set ops \<Longrightarrow> is_return op \<Longrightarrow> o_Data op \<noteq> NilData"
  obtains P ps n pre where "convert_loop (known IsUnknown ops) [] 0 [] = (P, n, pre)" "ev_run (Map.empty, 0) pre (map_of P, n)"
    "distinct ps" "set ps = keys P" "cops = known IsUnknown ops @ map (noop_return noop) ps"
    "convert_loop cops [] 0 [] = ([], n, pre @ noop_events noop P ps)"
    "ev_run (Map.empty, 0) (pre @ noop_events noop P ps) (Map.empty, n)"
proof -
  from assms(1) obtain pm kept where c: "complete_loop IsUnknown ops [] [] = Inr (pm, kept)"
    "cops = kept @ map (noop_return noop) (sort (go_range \<rho> (map fst pm)))"
    by (auto simp: CompleteOperations_def split: sum.splits)
  let ?ps = "sort (go_range \<rho> (map fst pm))"
  from complete_convert [OF c(1), of "[]" 0] assms(2) obtain P n pre where
    P: "kept = known IsUnknown ops" "convert_loop (known IsUnknown ops) [] 0 [] = (P, n, pre)" "keys P = keys pm"
      "wf_map pm" "ev_run (Map.empty, 0) pre (map_of P, n)"
    by (auto simp flip: map_of.simps(1))
  have ps: "distinct ?ps" "set ?ps = keys P" using P(3,4) by simp_all
  show ?thesis
    by (rule that [OF P(2,5) ps]) (use c(2) P convert_noops [OF ps] ev_run_append [OF P(5) noops_run [OF ps]] in
      \<open>simp_all add: convert_append\<close>)
qed

lemma ev_run_parity:
  assumes "ev_run st0 evs st" "st0 = (Map.empty, 0)"
  shows "finite (dom (fst st)) \<and> (even (length evs) \<longleftrightarrow> even (card (dom (fst st))))"
  using assms
proof (induction rule: ev_run.induct)
  case (snoc st evs st' ev st'')
  from snoc.hyps(2) snoc.IH snoc.prems show ?case
    by cases (auto simp: card_insert_if card_Diff_singleton_if domI simp del: fun_upd_apply)
qed simp

lemma convert_length:
  assumes "\<And>op. op \<in> set ops \<Longrightarrow> is_return op \<Longrightarrow> o_Data op \<noteq> NilData" "convert_loop ops P i evs = (P', i', evs')"
  shows "length evs' + length (filter (\<lambda>op. \<not> is_call op \<and> \<not> is_return op) ops) = length evs + length ops"
  using assms
  by (induction ops arbitrary: P i evs) (fastforce split: if_splits)+

lemma complete_keeps: "complete_loop IsUnknown ops pm kept = Inr (pm', kept') \<Longrightarrow> kept' = kept @ known IsUnknown ops"
  by (induction ops arbitrary: pm kept) (fastforce simp: known_def split: if_splits)+

text \<open>In a completed history calls and returns are equal in number, so its parity is that of the other records.\<close>

abbreviation other_ops :: "('i, 'o) Operation list \<Rightarrow> ('i, 'o) Operation list" where
  "other_ops ops \<equiv> filter (\<lambda>op. \<not> is_call op \<and> \<not> is_return op) ops"

lemma complete_loop_parity:
  "\<lbrakk>complete_loop IsUnknown ops pm kept = Inr (pm', kept'); wf_map pm\<rbrakk> \<Longrightarrow>
    wf_map pm' \<and> (even (length kept' + length pm' + length (other_ops ops)) \<longleftrightarrow> even (length kept + length pm))"
proof (induction ops arbitrary: pm kept)
  case (Cons op ops)
  have up: "length (AList.update (o_Proc op) () pm) = Suc (length pm)" if "o_Proc op \<notin> keys pm"
    using that by (induction pm) auto
  have del: "length pm = Suc (length (AList.delete (o_Proc op) pm))" if "o_Proc op \<in> keys pm"
    using that Cons.prems(2) by (induction pm) (auto simp: delete_idem)
  consider (call) "is_call op" "o_Proc op \<notin> keys pm"
    | (unknown) "is_return op" "unknown_data IsUnknown (o_Data op)" "o_Proc op \<in> keys pm"
    | (return) "is_return op" "\<not> unknown_data IsUnknown (o_Data op)" "o_Proc op \<in> keys pm"
    | (other) "\<not> is_call op" "\<not> is_return op"
    using Cons.prems(1) by (auto split: if_splits)
  then show ?case
  proof cases
    case call
    then show ?thesis using Cons.IH [of "AList.update (o_Proc op) () pm" "kept @ [op]"] Cons.prems up by simp
  next
    case unknown
    then show ?thesis using Cons.IH [of pm kept] Cons.prems by simp
  next
    case return
    then show ?thesis using Cons.IH [of "AList.delete (o_Proc op) pm" "kept @ [op]"] Cons.prems del by simp
  next
    case other
    then show ?thesis using Cons.IH [of pm "kept @ [op]"] Cons.prems by auto
  qed
qed simp

lemma completed_parity:
  assumes "CompleteOperations \<rho> IsUnknown noop ops = Inr cops"
  shows "even (length cops) \<longleftrightarrow> even (length (other_ops ops))"
proof -
  from assms obtain pm kept where "complete_loop IsUnknown ops [] [] = Inr (pm, kept)" "length cops = length kept + length pm"
    by (auto simp: CompleteOperations_def split: sum.splits)
  with complete_loop_parity [of IsUnknown ops "[]" "[]" pm kept] show ?thesis by simp
qed

lemma odd_rejected:
  assumes "CompleteOperations \<rho> IsUnknown noop ops = Inr cops" "odd (length (other_ops ops))"
  shows "ConvertOperationsToEvents cops = Inl HistoryNotComplete"
proof -
  have "length cops mod 2 \<noteq> 0" using completed_parity [OF assms(1)] assms(2) by presburger
  then show ?thesis by (simp add: ConvertOperationsToEvents_def)
qed

text \<open>A return with nil data leaves its call open.\<close>

lemma convert_keeps:
  "\<lbrakk>convert_loop ops P i evs = (P', i', evs'); p \<in> keys P; \<forall>op \<in> set ops. o_Proc op = p \<longrightarrow> \<not> is_return op\<rbrakk> \<Longrightarrow> p \<in> keys P'"
  by (induction ops arbitrary: P i evs) (auto split: if_splits)

lemma open_at_return:
  "\<lbrakk>complete_loop IsUnknown ops pm kept = Inr r; known IsUnknown ops = xs @ op # ys; is_return op; keys pm \<subseteq> keys P;
    convert_loop xs P i evs = (P', i', evs')\<rbrakk> \<Longrightarrow> o_Proc op \<in> keys P'"
proof (induction ops arbitrary: pm kept P i evs xs)
  case (Cons h ops)
  show ?case
  proof (cases "is_return h \<and> unknown_data IsUnknown (o_Data h)")
    case True
    with Cons.prems have "complete_loop IsUnknown ops pm kept = Inr r" "known IsUnknown ops = xs @ op # ys"
      by (auto simp: known_def split: if_splits)
    from Cons.IH [OF this Cons.prems(3-5)] show ?thesis .
  next
    case False
    then have k: "h # known IsUnknown ops = xs @ op # ys" using Cons.prems(2) by (auto simp: known_def)
    show ?thesis
    proof (cases xs)
      case Nil
      with k Cons.prems show ?thesis using False by (auto split: if_splits)
    next
      case (Cons x xs')
      with k have x: "x = h" "known IsUnknown ops = xs' @ op # ys" by simp_all
      obtain pm1 kept1 P1 i1 evs1 where one: "complete_loop IsUnknown ops pm1 kept1 = Inr r" "convert_loop xs' P1 i1 evs1 = (P', i', evs')"
        "keys pm1 \<subseteq> keys P1"
      proof -
        consider "is_call h" | "is_return h" "o_Data h = NilData" | "is_return h" "o_Data h \<noteq> NilData" | "\<not> is_call h" "\<not> is_return h" by blast
        then show thesis
          by cases (use Cons Cons.prems False x that in \<open>fastforce split: if_splits\<close>)+
      qed
      from Cons.IH [OF one(1) x(2) Cons.prems(3) one(3,2)] show ?thesis .
    qed
  qed
qed (simp add: known_def)

lemma converts_spec:
  assumes "CompleteOperations \<rho> IsUnknown noop ops = Inr cops"
    and "\<And>op. op \<in> set ops \<Longrightarrow> is_return op \<Longrightarrow> o_Data op \<noteq> NilData"
  shows "if even (length (filter (\<lambda>op. \<not> is_call op \<and> \<not> is_return op) ops))
    then \<exists>evs n. ConvertOperationsToEvents cops = Inr evs \<and> ev_run (Map.empty, 0) evs (Map.empty, n)
    else ConvertOperationsToEvents cops = Inl HistoryNotComplete"
proof -
  obtain P ps n pre where c: "cops = known IsUnknown ops @ map (noop_return noop) ps"
    "convert_loop cops [] 0 [] = ([], n, pre @ noop_events noop P ps)"
    "ev_run (Map.empty, 0) (pre @ noop_events noop P ps) (Map.empty, n)"
    using complete_events [OF assms] by metis
  let ?evs = "pre @ noop_events noop P ps :: ('a, 'b) Event list"
  let ?nem = "\<lambda>ops. length (filter (\<lambda>op. \<not> is_call op \<and> \<not> is_return op) ops)"
  have nil: "\<And>op. op \<in> set cops \<Longrightarrow> is_return op \<Longrightarrow> o_Data op \<noteq> NilData"
    using assms(2) by (auto simp: c(1) known_def noop_return_def)
  have "?nem (map (noop_return noop) ps) = 0" by (auto simp: noop_return_def filter_empty_conv)
  moreover have "?nem (known IsUnknown ops) = ?nem ops"
    unfolding known_def by (simp, rule arg_cong [of _ _ length], rule filter_cong) auto
  ultimately have nem: "?nem cops = ?nem ops" by (simp add: c(1))
  have "length ?evs + ?nem ops = length cops" using convert_length [OF nil c(2)] nem by simp
  moreover have "even (length ?evs)" using ev_run_parity [OF c(3)] by simp
  ultimately have "even (length cops) \<longleftrightarrow> even (?nem ops)" by presburger
  with c(2,3) show ?thesis by (auto simp: ConvertOperationsToEvents_def even_iff_mod_2_eq_zero)
qed

lemma nil_return_open:
  assumes c: "CompleteOperations \<rho> IsUnknown noop ops = Inr cops" and op: "cops = xs @ op # ys" "is_return op" "o_Data op = NilData"
    and last: "\<forall>op' \<in> set ys. o_Proc op' = o_Proc op \<longrightarrow> \<not> is_return op'"
  shows "ConvertOperationsToEvents cops = Inl HistoryNotComplete"
proof -
  from c obtain pm kept ps where l: "complete_loop IsUnknown ops [] [] = Inr (pm, kept)" "cops = kept @ map (noop_return noop) ps"
    by (auto simp: CompleteOperations_def split: sum.splits)
  have k: "kept = known IsUnknown ops" using complete_keeps [OF l(1)] by simp
  have n: "op \<notin> set (map (noop_return noop) ps)" using op(3) by (auto simp: noop_return_def)
  have "kept @ map (noop_return noop) ps = xs @ op # ys" using l(2) op(1) by simp
  then obtain us where "kept = xs @ us \<and> us @ map (noop_return noop) ps = op # ys \<or> kept @ us = xs \<and> map (noop_return noop) ps = us @ op # ys"
    unfolding append_eq_append_conv2 by blast
  moreover have "map (noop_return noop) ps \<noteq> us @ op # ys" using n by (metis in_set_conv_decomp)
  ultimately have us: "kept = xs @ us" "us @ map (noop_return noop) ps = op # ys" by simp_all
  have "us \<noteq> []"
  proof
    assume "us = []"
    with us(2) have "op \<in> set (map (noop_return noop) ps)" by (metis append_Nil list.set_intros(1))
    with n show False by simp
  qed
  then obtain zs where z: "known IsUnknown ops = xs @ op # zs" using us k by (cases us) auto
  obtain P i evs where P: "convert_loop xs [] 0 [] = (P, i, evs)" by (metis prod.collapse)
  have open1: "o_Proc op \<in> keys P" using open_at_return [OF l(1) z op(2) _ P] by simp
  obtain P' i' evs' where P': "convert_loop ys P i evs = (P', i', evs')" by (metis prod.collapse)
  have "o_Proc op \<in> keys P'" using convert_keeps [OF P' open1] last by blast
  moreover have "convert_loop cops [] 0 [] = (P', i', evs')" using P P' op(2,3) by (simp add: op(1) convert_append)
  ultimately show ?thesis by (auto simp: ConvertOperationsToEvents_def)
qed

text \<open>C24. What \<open>ConvertOperationsToEvents\<close> does with a history that \<open>CompleteOperations\<close> completed. With an odd number
  of records that are neither calls nor returns, those of nemeses, it rejects the history as incomplete. With an even
  number, and if no return carries nil data, it accepts the history and the events are a complete history: calls
  are numbered from 0, a client calls only when its last call has returned, every return carries the number
  of the open call of its client, and no call is left open. If the last return of some process carries nil data, which
  the conversion skips, the call stays open and the history is rejected as incomplete.\<close>

theorem completed_history_converts:
  assumes "CompleteOperations \<rho> IsUnknown noop ops = Inr cops"
  shows "if odd (length (filter (\<lambda>op. \<not> is_call op \<and> \<not> is_return op) ops)) then ConvertOperationsToEvents cops = Inl HistoryNotComplete
    else if \<forall>op \<in> set ops. is_return op \<longrightarrow> o_Data op \<noteq> NilData
    then \<exists>evs n. ConvertOperationsToEvents cops = Inr evs \<and> ev_run (Map.empty, 0) evs (Map.empty, n)
    else \<forall>xs op ys. cops = xs @ op # ys \<and> is_return op \<and> o_Data op = NilData \<and>
      (\<forall>op' \<in> set ys. o_Proc op' = o_Proc op \<longrightarrow> \<not> is_return op') \<longrightarrow> ConvertOperationsToEvents cops = Inl HistoryNotComplete"
proof -
  consider (odd) "odd (length (other_ops ops))" | (data) "even (length (other_ops ops))" "\<forall>op \<in> set ops. is_return op \<longrightarrow> o_Data op \<noteq> NilData"
    | (nil) "even (length (other_ops ops))" "\<not> (\<forall>op \<in> set ops. is_return op \<longrightarrow> o_Data op \<noteq> NilData)" by blast
  then show ?thesis
  proof cases
    case odd
    then show ?thesis using odd_rejected [OF assms] by simp
  next
    case data
    then show ?thesis using converts_spec [OF assms] by simp
  next
    case nil
    then show ?thesis using nil_return_open [OF assms] by auto
  qed
qed

theorem completed_history_converts_witness:
  "let op = (\<lambda>a p d. \<lparr>o_Action = a, o_Proc = p, o_Data = d, o_Time = Some 0\<rparr> :: (int, int) Operation);
       h = [op InvokeOperation 1 (Request 0), op InvokeOperation 2 (Request 7), op ReturnOperation 2 (Response 7),
            op ReturnOperation 1 (Response (-1))];
       r = CompleteOperations fifo (\<lambda>x. x = -1) (-1) h
   in \<exists>cops evs n. r = Inr cops \<and> ConvertOperationsToEvents cops = Inr evs \<and> ev_run (Map.empty, 0) evs (Map.empty, n) \<and>
        ConvertOperationsToEvents (projr (CompleteOperations fifo (\<lambda>x. x = -1) (-1) (h @ [op InvokeNemesis (-1) NilData]))) =
          Inl HistoryNotComplete"
proof -
  let ?op = "\<lambda>a p d. \<lparr>o_Action = a, o_Proc = p, o_Data = d, o_Time = Some 0\<rparr> :: (int, int) Operation"
  let ?h = "[?op InvokeOperation 1 (Request 0), ?op InvokeOperation 2 (Request 7), ?op ReturnOperation 2 (Response 7),
            ?op ReturnOperation 1 (Response (-1))]"
  let ?h' = "?h @ [?op InvokeNemesis (-1) NilData]"
  let ?c = "\<lambda>h. CompleteOperations fifo (\<lambda>x. x = -1) (-1) h"
  have c: "?c ?h = Inr (projr (?c ?h))" "?c ?h' = Inr (projr (?c ?h'))" by code_simp+
  have n: "\<forall>op \<in> set ?h. is_return op \<longrightarrow> o_Data op \<noteq> NilData" by (auto simp: action_defs)
  have e: "\<not> odd (length (other_ops ?h))" "odd (length (other_ops ?h'))" by code_simp+
  show ?thesis
    using completed_history_converts [OF c(1)] completed_history_converts [OF c(2)] e n c(1)
    unfolding Let_def by (metis (no_types, lifting))
qed

section \<open>Linearizations\<close>

definition input_of :: "('i, 'o) Event list \<Rightarrow> nat \<Rightarrow> 'i" where
  "input_of evs i = (case List.find (\<lambda>e. ev_Kind e = CallEvent \<and> ev_Id e = i) evs of
     Some e \<Rightarrow> (case ev_Value e of Request x \<Rightarrow> x))"

definition output_of :: "('i, 'o) Event list \<Rightarrow> nat \<Rightarrow> 'o" where
  "output_of evs i = (case List.find (\<lambda>e. ev_Kind e = ReturnEvent \<and> ev_Id e = i) evs of
     Some e \<Rightarrow> (case ev_Value e of Response y \<Rightarrow> y))"

text \<open>The return of \<open>i\<close> comes before the call of \<open>j\<close>.\<close>

definition precedes :: "('i, 'o) Event list \<Rightarrow> nat \<Rightarrow> nat \<Rightarrow> bool" where
  "precedes evs i j \<longleftrightarrow> (\<exists>a \<in> set [0..<length evs]. \<exists>b \<in> set [0..<length evs]. a < b \<and>
     ev_Kind (evs ! a) = ReturnEvent \<and> ev_Id (evs ! a) = i \<and> ev_Kind (evs ! b) = CallEvent \<and> ev_Id (evs ! b) = j)"

text \<open>A sequential execution of operations with their responses.\<close>

fun exec_model :: "('s \<Rightarrow> 'i \<Rightarrow> 'o \<Rightarrow> (bool \<times> 's) option) \<Rightarrow> 's \<Rightarrow> ('i \<times> 'o) list \<Rightarrow> 's option" where
  "exec_model Step s [] = Some s"
| "exec_model Step s ((x, y) # xys) = do { (ok, s') \<leftarrow> Step s x y; if ok then exec_model Step s' xys else None }"

text \<open>The operations \<open>lin\<close> with the responses \<open>out\<close>, one after the other, in an order that is compatible
  with the order of the events.\<close>

definition linearization :: "('s \<Rightarrow> 'i \<Rightarrow> 'o \<Rightarrow> (bool \<times> 's) option) \<Rightarrow> 's \<Rightarrow> ('i, 'o) Event list \<Rightarrow> (nat \<Rightarrow> 'o) \<Rightarrow> nat list \<Rightarrow> bool" where
  "linearization Step s evs out lin \<longleftrightarrow>
     distinct lin \<and> sorted_wrt (\<lambda>i j. \<not> precedes evs j i) lin \<and>
     exec_model Step s (map (\<lambda>i. (input_of evs i, out i)) lin) \<noteq> None"

definition linearizable :: "('s \<Rightarrow> 'i \<Rightarrow> 'o \<Rightarrow> (bool \<times> 's) option) \<Rightarrow> 's \<Rightarrow> ('i, 'o) Event list \<Rightarrow> bool" where
  "linearizable Step s evs \<longleftrightarrow> (\<exists>lin. set lin = calls evs \<and> linearization Step s evs (output_of evs) lin)"

text \<open>With operations that did not return: each of them may be left out, or take effect with any response.\<close>

definition pending_linearizable :: "('s \<Rightarrow> 'i \<Rightarrow> 'o \<Rightarrow> (bool \<times> 's) option) \<Rightarrow> 's \<Rightarrow> ('i, 'o) Event list \<Rightarrow> bool" where
  "pending_linearizable Step s evs \<longleftrightarrow>
     (\<exists>lin out. returned evs \<subseteq> set lin \<and> set lin \<subseteq> calls evs \<and> (\<forall>i \<in> returned evs. out i = output_of evs i) \<and>
        linearization Step s evs out lin)"

lemma exec_model_append: "exec_model Step s (xs @ ys) = do { s' \<leftarrow> exec_model Step s xs; exec_model Step s' ys }"
  by (induction Step s xs rule: exec_model.induct) (auto split: Option.bind_splits)

lemma find_append: "List.find P (xs @ ys) = (case List.find P xs of None \<Rightarrow> List.find P ys | Some x \<Rightarrow> Some x)"
  by (induction xs) auto

lemma input_of_append: "calls rets = {} \<Longrightarrow> input_of (pre @ rets) i = input_of pre i"
proof -
  assume "calls rets = {}"
  then have "List.find (\<lambda>e. ev_Kind e = CallEvent \<and> ev_Id e = i) rets = None" by (auto simp: calls_def find_None_iff)
  then show ?thesis by (simp add: input_of_def find_append split: option.splits)
qed

lemma output_of_append:
  "i \<in> returned pre \<Longrightarrow> output_of (pre @ rets) i = output_of pre i"
  "i \<notin> returned pre \<Longrightarrow> output_of (pre @ rets) i = output_of rets i"
proof -
  assume "i \<in> returned pre"
  then have "List.find (\<lambda>e. ev_Kind e = ReturnEvent \<and> ev_Id e = i) pre \<noteq> None" by (auto simp: returned_def find_None_iff)
  then show "output_of (pre @ rets) i = output_of pre i" by (auto simp: output_of_def find_append split: option.splits)
next
  assume "i \<notin> returned pre"
  then have "List.find (\<lambda>e. ev_Kind e = ReturnEvent \<and> ev_Id e = i) pre = None" by (auto simp: returned_def find_None_iff)
  then show "output_of (pre @ rets) i = output_of rets i" by (simp add: output_of_def find_append)
qed

lemma precedes_append: "calls rets = {} \<Longrightarrow> precedes (pre @ rets) i j \<longleftrightarrow> precedes pre i j"
proof -
  assume r: "calls rets = {}"
  have "b < length pre" if "b < length (pre @ rets)" "ev_Kind ((pre @ rets) ! b) = CallEvent" for b
  proof (rule ccontr)
    assume "\<not> b < length pre"
    with that have "rets ! (b - length pre) \<in> set rets" "ev_Kind (rets ! (b - length pre)) = CallEvent" by (auto simp: nth_append)
    with r show False by (auto simp: calls_def)
  qed
  note call = this
  have nth: "(pre @ rets) ! b = pre ! b" if "b < length pre" for b using that by (simp add: nth_append)
  show ?thesis
  proof
    assume "precedes (pre @ rets) i j"
    then obtain a b where ab: "a < b" "b < length (pre @ rets)" "ev_Kind ((pre @ rets) ! a) = ReturnEvent" "ev_Id ((pre @ rets) ! a) = i"
      "ev_Kind ((pre @ rets) ! b) = CallEvent" "ev_Id ((pre @ rets) ! b) = j" unfolding precedes_def by auto
    have "b < length pre" using call ab(2,5) .
    with ab(1) ab(3-6) nth [of a] nth [of b] show "precedes pre i j"
      unfolding precedes_def by (intro bexI [of _ a] bexI [of _ b]) auto
  next
    assume "precedes pre i j"
    then obtain a b where ab: "a < b" "b < length pre" "ev_Kind (pre ! a) = ReturnEvent" "ev_Id (pre ! a) = i"
      "ev_Kind (pre ! b) = CallEvent" "ev_Id (pre ! b) = j" unfolding precedes_def by auto
    then show "precedes (pre @ rets) i j" using nth [of a] nth [of b]
      unfolding precedes_def by (intro bexI [of _ a] bexI [of _ b]) auto
  qed
qed

lemma subseq_keeps:
  assumes "subseq xs ys"
  shows "set xs \<subseteq> set ys" "distinct ys \<Longrightarrow> distinct xs" "sorted_wrt P ys \<Longrightarrow> sorted_wrt P xs"
proof -
  have "set xs \<subseteq> set ys \<and> (distinct ys \<longrightarrow> distinct xs) \<and> (sorted_wrt P ys \<longrightarrow> sorted_wrt P xs)"
    using assms by induction auto
  then show "set xs \<subseteq> set ys" "distinct ys \<Longrightarrow> distinct xs" "sorted_wrt P ys \<Longrightarrow> sorted_wrt P xs" by auto
qed

lemma precedes_returned: "precedes evs i j \<Longrightarrow> i \<in> returned evs"
  by (auto simp: precedes_def returned_def)

section \<open>Recorded histories\<close>

text \<open>Calls carry requests and returns carry responses, as \<open>ReadHistory\<close> produces them.\<close>

definition typed_data :: "('i \<Rightarrow> bool) \<Rightarrow> bool \<Rightarrow> ('i, 'o) OpData \<Rightarrow> bool" where
  "typed_data ok_input call d = (case d of Request x \<Rightarrow> call \<and> ok_input x | Response _ \<Rightarrow> \<not> call | _ \<Rightarrow> False)"

definition typed_ops :: "('i \<Rightarrow> bool) \<Rightarrow> ('i, 'o) Operation list \<Rightarrow> bool" where
  "typed_ops ok_input ops =
     list_all (\<lambda>op. (is_call op \<longrightarrow> typed_data ok_input True (o_Data op)) \<and> (is_return op \<longrightarrow> typed_data ok_input False (o_Data op))) ops"

definition typed_events :: "('i \<Rightarrow> bool) \<Rightarrow> ('i, 'o) Event list \<Rightarrow> bool" where
  "typed_events ok_input evs = list_all (\<lambda>e. typed_data ok_input (ev_Kind e = CallEvent) (ev_Value e)) evs"

lemma typed_not_nil: "\<lbrakk>typed_ops ok_input ops; op \<in> set ops; is_return op\<rbrakk> \<Longrightarrow> o_Data op \<noteq> NilData"
  by (auto simp: typed_ops_def list_all_iff typed_data_def)

lemma typed_convert:
  assumes "typed_ops ok_input ops" "typed_events ok_input evs" "convert_loop ops P i evs = (P', i', evs')"
  shows "typed_events ok_input evs'"
  using assms
proof (induction ops arbitrary: P i evs)
  case (Cons op ops)
  have t: "typed_ops ok_input ops" and op: "is_call op \<Longrightarrow> typed_data ok_input True (o_Data op)"
    "is_return op \<Longrightarrow> typed_data ok_input False (o_Data op)"
    using Cons.prems(1) by (simp_all add: typed_ops_def)
  have ev: "typed_events ok_input (evs @ [e])" if "typed_data ok_input (ev_Kind e = CallEvent) (ev_Value e)" for e
    using Cons.prems(2) that by (simp add: typed_events_def)
  show ?case
    using Cons.prems(3) Cons.IH [OF t Cons.prems(2)] Cons.IH [OF t ev] op by (fastforce split: if_splits)
qed simp

lemma typed_input: "\<lbrakk>typed_events ok_input evs; i \<in> calls evs\<rbrakk> \<Longrightarrow> ok_input (input_of evs i)"
proof -
  assume t: "typed_events ok_input evs" and i: "i \<in> calls evs"
  then obtain e where e: "List.find (\<lambda>e. ev_Kind e = CallEvent \<and> ev_Id e = i) evs = Some e"
    by (fastforce simp: calls_def find_None_iff dest: option.exhaust_sel)
  then have "e \<in> set evs" "ev_Kind e = CallEvent" by (auto simp: find_Some_iff)
  with t have "typed_data ok_input True (ev_Value e)" by (auto simp: typed_events_def list_all_iff)
  with e show ?thesis by (auto simp: input_of_def typed_data_def split: OpData.splits)
qed

text \<open>The events of the recorded history, the unknown responses left out.\<close>

definition history_events :: "('o \<Rightarrow> bool) \<Rightarrow> ('i, 'o) Operation list \<Rightarrow> ('i, 'o) Event list" where
  "history_events IsUnknown ops = snd (snd (convert_loop (known IsUnknown ops) [] 0 []))"

text \<open>What is relied on of the porcupine package: it decides linearizability of complete histories of
  the values the model knows.\<close>

definition porcupine_decides :: "('s, 'i, 'o) porcupine \<Rightarrow> ('s \<Rightarrow> 'i \<Rightarrow> 'o \<Rightarrow> (bool \<times> 's) option) \<Rightarrow>
    ('s \<Rightarrow> bool) \<Rightarrow> ('i \<Rightarrow> bool) \<Rightarrow> bool" where
  "porcupine_decides CheckEvents Step ok_state ok_input \<longleftrightarrow>
     (\<forall>s evs n. ok_state s \<longrightarrow> ev_run (Map.empty, 0) evs (Map.empty, n) \<longrightarrow> typed_events ok_input evs \<longrightarrow>
        CheckEvents s Step (=) evs = linearizable Step s evs)"

lemma noop_outputs:
  assumes "i \<in> ran (map_of P)" "set ps = keys P"
  shows "output_of (noop_events noop P ps :: ('i, 'o) Event list) i = noop"
proof -
  let ?E = "noop_events noop P ps :: ('i, 'o) Event list"
  from assms obtain p where p: "map_of P p = Some i" "p \<in> set ps" by (auto simp: ran_def in_keys_map_of)
  then have "List.find (\<lambda>e. ev_Kind e = ReturnEvent \<and> ev_Id e = i) ?E \<noteq> None"
    unfolding find_None_iff noop_events_def by (auto simp: get_or_def intro!: bexI [of _ p])
  then obtain e where "List.find (\<lambda>e. ev_Kind e = ReturnEvent \<and> ev_Id e = i) ?E = Some e" by blast
  moreover from this have "e \<in> set ?E" by (auto simp: find_Some_iff)
  then have "ev_Value e = Response noop" by (auto simp: noop_events_def)
  ultimately show ?thesis by (simp add: output_of_def)
qed

section \<open>Models\<close>

text \<open>What the completion relies on. \<open>Step\<close> is the step function of the model, \<open>noop\<close> the response the
  parser makes up; \<open>ok_state\<close> and \<open>ok_input\<close> are the values on which the step does not panic.\<close>

locale object_model =
  fixes Step :: "'s \<Rightarrow> 'i \<Rightarrow> 'o \<Rightarrow> (bool \<times> 's) option" and noop :: 'o
    and ok_state :: "'s \<Rightarrow> bool" and ok_input :: "'i \<Rightarrow> bool"
  assumes step_total: "\<lbrakk>ok_state s; ok_input x\<rbrakk> \<Longrightarrow> \<exists>ok s'. Step s x y = Some (ok, s') \<and> ok_state s'"
    and noop_accepted: "\<lbrakk>ok_state s; ok_input x; Step s x noop = Some (ok, s')\<rbrakk> \<Longrightarrow> ok"
    and noop_effect: "\<lbrakk>ok_state s; ok_input x; Step s x y = Some (True, s')\<rbrakk> \<Longrightarrow> s' = s \<or> Step s x noop = Some (True, s')"
begin

lemma exec_noops:
  assumes "ok_state s" "\<forall>x \<in> set xs. ok_input x"
  shows "exec_model Step s (map (\<lambda>x. (x, noop)) xs) \<noteq> None"
  using assms
proof (induction xs arbitrary: s)
  case (Cons x xs)
  then obtain ok s' where s': "Step s x noop = Some (ok, s')" "ok_state s'" using step_total [of s x noop] by auto
  with noop_accepted [of s x ok s'] Cons show ?case by auto
qed simp

lemma exec_ok_state:
  "\<lbrakk>ok_state s; \<forall>xy \<in> set xys. ok_input (fst xy); exec_model Step s xys = Some t\<rbrakk> \<Longrightarrow> ok_state t"
proof (induction xys arbitrary: s)
  case (Cons xy xys)
  then obtain s' where s': "Step s (fst xy) (snd xy) = Some (True, s')" "exec_model Step s' xys = Some t"
    by (cases xy) (auto split: Option.bind_splits if_splits)
  with step_total [of s "fst xy" "snd xy"] Cons show ?case by auto
qed simp

text \<open>An operation that did not return and had no effect is left out; the others keep their place.\<close>

lemma drop_ineffective:
  assumes "ok_state s" "\<forall>i \<in> set lin. ok_input (inp i)" "exec_model Step s (map (\<lambda>i. (inp i, out i)) lin) \<noteq> None"
  shows "\<exists>kept. subseq kept lin \<and> (\<forall>i \<in> set lin. i \<in> R \<longrightarrow> i \<in> set kept) \<and>
    exec_model Step s (map (\<lambda>i. (inp i, if i \<in> R then out i else noop)) kept) \<noteq> None"
  using assms
proof (induction lin arbitrary: s)
  case (Cons i lin)
  from Cons.prems(3) obtain s' where s': "Step s (inp i) (out i) = Some (True, s')"
    "exec_model Step s' (map (\<lambda>i. (inp i, out i)) lin) \<noteq> None" by (auto split: Option.bind_splits if_splits)
  have "ok_state s'" using step_total [of s "inp i" "out i"] Cons.prems(1,2) s'(1) by auto
  from Cons.IH [OF this _ s'(2)] Cons.prems(2) obtain kept where k: "subseq kept lin" "\<forall>i \<in> set lin. i \<in> R \<longrightarrow> i \<in> set kept"
    "exec_model Step s' (map (\<lambda>i. (inp i, if i \<in> R then out i else noop)) kept) \<noteq> None" by auto
  consider "i \<in> R" | "i \<notin> R" "s' = s" | "i \<notin> R" "Step s (inp i) noop = Some (True, s')"
    using noop_effect [of s "inp i" "out i" s'] Cons.prems(1,2) s'(1) by auto
  then show ?case
  proof cases
    case 2
    with k show ?thesis by (intro exI [of _ kept]) auto
  qed (use k s'(1) in \<open>auto intro!: exI [of _ "i # kept"]\<close>)
qed auto

text \<open>Completing the pending operations with \<open>noop\<close> returns at the end decides whether the incomplete
  history is linearizable.\<close>

lemma completion_decides:
  assumes s: "ok_state s" and inp: "\<And>i. i \<in> calls pre \<Longrightarrow> ok_input (input_of pre i)"
    and ret: "returned pre \<subseteq> calls pre" "calls rets = {}"
    and noop: "\<And>i. i \<in> calls pre - returned pre \<Longrightarrow> output_of rets i = noop"
  shows "linearizable Step s (pre @ rets) \<longleftrightarrow> pending_linearizable Step s pre"
proof -
  have out: "output_of (pre @ rets) i = (if i \<in> returned pre then output_of pre i else noop)" if "i \<in> calls pre" for i
    using that noop output_of_append by fastforce
  have lin: "linearization Step s (pre @ rets) = linearization Step s pre"
    by (simp add: fun_eq_iff linearization_def input_of_append [OF ret(2)] precedes_append [OF ret(2)])
  show ?thesis
  proof
    assume "linearizable Step s (pre @ rets)"
    then obtain l where l: "set l = calls pre" "linearization Step s pre (output_of (pre @ rets)) l"
      unfolding linearizable_def lin using ret(2) by auto
    then show "pending_linearizable Step s pre"
      unfolding pending_linearizable_def using ret(1) output_of_append(1) by (intro exI [of _ l] exI [of _ "output_of (pre @ rets)"]) auto
  next
    assume "pending_linearizable Step s pre"
    then obtain l out' where l: "returned pre \<subseteq> set l" "set l \<subseteq> calls pre" "\<forall>i \<in> returned pre. out' i = output_of pre i"
      "linearization Step s pre out' l" unfolding pending_linearizable_def by blast
    have "exec_model Step s (map (\<lambda>i. (input_of pre i, out' i)) l) \<noteq> None" using l(4) by (simp add: linearization_def)
    from drop_ineffective [OF s _ this, of "returned pre"] l(2) inp obtain kept where k: "subseq kept l"
      "\<forall>i \<in> set l. i \<in> returned pre \<longrightarrow> i \<in> set kept"
      "exec_model Step s (map (\<lambda>i. (input_of pre i, if i \<in> returned pre then out' i else noop)) kept) \<noteq> None" by blast
    let ?rest = "sorted_list_of_set (calls pre - set kept)"
    have fin: "finite (calls pre)" by (simp add: calls_def)
    have kc: "set kept \<subseteq> calls pre" using subseq_keeps(1) [OF k(1)] l(2) by blast
    have rest: "set ?rest = calls pre - set kept" "distinct ?rest" "\<And>i. i \<in> set ?rest \<Longrightarrow> i \<notin> returned pre"
      using fin k(2) l(1) by auto
    have "sorted_wrt (\<lambda>i j. \<not> precedes pre j i) kept" using l(4) k(1) subseq_keeps(3) unfolding linearization_def by blast
    moreover have "\<not> precedes pre j i" if "j \<in> set ?rest" for i j using rest(3) [OF that] precedes_returned by blast
    moreover from this have "sorted_wrt (\<lambda>i j. \<not> precedes pre j i) ?rest"
      by (metis (no_types, lifting) sorted_wrt_mono_rel strict_sorted_list_of_set)
    ultimately have sorted: "sorted_wrt (\<lambda>i j. \<not> precedes pre j i) (kept @ ?rest)"
      by (auto simp: sorted_wrt_append)
    have dist: "distinct (kept @ ?rest)" using l(4) k(1) rest subseq_keeps(2) unfolding linearization_def by auto
    have "map (\<lambda>i. (input_of pre i, if i \<in> returned pre then out' i else noop)) kept =
        map (\<lambda>i. (input_of pre i, output_of (pre @ rets) i)) kept"
      using l(3) out kc by (auto simp: subset_iff)
    with k(3) obtain t where t: "exec_model Step s (map (\<lambda>i. (input_of pre i, output_of (pre @ rets) i)) kept) = Some t" by auto
    have tok: "ok_state t" by (rule exec_ok_state [OF s _ t]) (use kc inp in auto)
    have eq: "map (\<lambda>i. (input_of pre i, output_of (pre @ rets) i)) ?rest = map (\<lambda>x. (x, noop)) (map (input_of pre) ?rest)"
      using out rest by auto
    have "exec_model Step t (map (\<lambda>i. (input_of pre i, output_of (pre @ rets) i)) ?rest) \<noteq> None"
      unfolding eq by (rule exec_noops [OF tok]) (use inp rest(1) in auto)
    with t have "exec_model Step s (map (\<lambda>i. (input_of pre i, output_of (pre @ rets) i)) (kept @ ?rest)) \<noteq> None"
      by (simp add: exec_model_append)
    with sorted dist have "linearization Step s pre (output_of (pre @ rets)) (kept @ ?rest)" by (simp add: linearization_def)
    moreover have "set (kept @ ?rest) = calls (pre @ rets)" using kc rest(1) ret(2) by auto
    ultimately show "linearizable Step s (pre @ rets)" unfolding linearizable_def lin by blast
  qed
qed

lemma checker_decides:
  assumes dec: "porcupine_decides CheckEvents Step ok_state ok_input"
    and c: "CompleteOperations \<rho> IsUnknown noop ops = Inr cops" and t: "typed_ops ok_input ops"
    and even: "even (length (filter (\<lambda>op. \<not> is_call op \<and> \<not> is_return op) ops))"
    and m: "Model_Step m = Step" "Model_Equal m = (=)" "ok_state (Model_Init m prepared)"
  shows "Porcupine_Check CheckEvents (Some m) prepared cops =
    Some (Inr (pending_linearizable Step (Model_Init m prepared) (history_events IsUnknown ops)))"
proof -
  let ?s = "Model_Init m prepared"
  obtain P ps n pre where e: "convert_loop (known IsUnknown ops) [] 0 [] = (P, n, pre)" "ev_run (Map.empty, 0) pre (map_of P, n)"
    "set ps = keys P" "convert_loop cops [] 0 [] = ([], n, pre @ noop_events noop P ps)"
    "ev_run (Map.empty, 0) (pre @ noop_events noop P ps) (Map.empty, n)"
    using complete_events [OF c typed_not_nil [OF t]] by metis
  let ?evs = "pre @ noop_events noop P ps"
  have conv: "ConvertOperationsToEvents cops = Inr ?evs"
    using converts_spec [OF c typed_not_nil [OF t]] even e(4) by (auto simp: ConvertOperationsToEvents_def split: if_splits)
  have pre: "typed_events ok_input pre"
    by (rule typed_convert [OF _ _ e(1)]) (use t in \<open>auto simp: typed_ops_def known_def typed_events_def list_all_iff\<close>)
  then have "typed_events ok_input ?evs"
    by (auto simp: typed_events_def noop_events_def typed_data_def list_all_iff)
  with dec e(5) m(3) have "CheckEvents ?s Step (=) ?evs = linearizable Step ?s ?evs" unfolding porcupine_decides_def by blast
  also have "\<dots> = pending_linearizable Step ?s pre"
  proof (rule completion_decides [OF m(3)])
    show "ok_input (input_of pre i)" if "i \<in> calls pre" for i using typed_input [OF pre that] .
    show "returned pre \<subseteq> calls pre" using ev_run_ids(3) [OF e(2)] by simp
    show "calls (noop_events noop P ps) = {}" by (auto simp: calls_def noop_events_def)
    show "output_of (noop_events noop P ps) i = noop" if "i \<in> calls pre - returned pre" for i
      using noop_outputs [OF _ e(3)] that ev_run_ids(2) [OF e(2)] by simp
  qed
  finally show ?thesis by (simp add: Porcupine_Check_def conv m history_events_def e(1))
qed

lemma verify_decides:
  assumes dec: "porcupine_decides CheckEvents Step ok_state ok_input"
    and r: "ReadHistory unmarshal nemesis p file = Inr (ops, Some s)" and t: "typed_ops ok_input ops"
    and c: "CompleteOperations \<rho> IsUnknown noop ops = Inr cops" and p: "OnNoopResponse p = Some noop"
    and even: "even (length (filter (\<lambda>op. \<not> is_call op \<and> \<not> is_return op) ops))"
    and m: "Model_Step m = Step" "Model_Equal m = (=)" "Model_Init m (Some s) = s" "ok_state s"
  shows "Verify \<rho> unmarshal nemesis IsUnknown (Porcupine_Check CheckEvents) (Some m) p file =
    (if pending_linearizable Step s (history_events IsUnknown ops) then HistoryValid else HistoryInvalid)"
  using checker_decides [OF dec c t even m(1,2), of "Some s"] m(3,4) r c p by (simp add: Verify_def completion_panics_def)

text \<open>The verdict on every file that can be read.\<close>

lemma verify_verdict:
  assumes dec: "porcupine_decides CheckEvents Step ok_state ok_input"
    and r: "ReadHistory unmarshal nemesis p file = Inr (ops, st)" and t: "typed_ops ok_input ops" and p: "OnNoopResponse p = Some noop"
    and m: "Model_Step m = Step" "Model_Equal m = (=)" "\<And>s. st = Some s \<Longrightarrow> Model_Init m (Some s) = s \<and> ok_state s"
  shows "Verify \<rho> unmarshal nemesis IsUnknown (Porcupine_Check CheckEvents) (Some m) p file =
    (case CompleteOperations \<rho> IsUnknown noop ops of
       Inl e \<Rightarrow> VerifyFatal e
     | Inr _ \<Rightarrow>
         (case st of
            None \<Rightarrow> VerifyPanic
          | Some s \<Rightarrow>
              if odd (length (other_ops ops)) then VerifyFatal HistoryNotComplete
              else if pending_linearizable Step s (history_events IsUnknown ops) then HistoryValid else HistoryInvalid))"
proof (cases "CompleteOperations \<rho> IsUnknown noop ops")
  case (Inl e)
  then show ?thesis using r p by (simp add: Verify_def completion_panics_def)
next
  case (Inr cops)
  consider (none) "st = None" | (odd) s where "st = Some s" "odd (length (other_ops ops))" | (even) s where "st = Some s" "even (length (other_ops ops))"
    by (cases st) auto
  then show ?thesis
  proof cases
    case none
    then show ?thesis using r p Inr by (simp add: Verify_def completion_panics_def)
  next
    case odd
    then have "ConvertOperationsToEvents cops = Inl HistoryNotComplete" using odd_rejected [OF Inr] by simp
    then show ?thesis using r p Inr odd by (simp add: Verify_def completion_panics_def Porcupine_Check_def)
  next
    case even
    have r': "ReadHistory unmarshal nemesis p file = Inr (ops, Some s)" using r even(1) by simp
    from verify_decides [OF dec r' t Inr p even(2) m(1,2)] m(3) [OF even(1)] show ?thesis using Inr even by simp
  qed
qed

end

text \<open>Reading a file yields calls with requests and returns with responses.\<close>

lemma ReadHistory_loop_typed:
  "\<lbrakk>ReadHistory_loop unmarshal nemesis p ls ops st = Inr (ops', st'); typed_ops (\<lambda>_. True) ops\<rbrakk> \<Longrightarrow> typed_ops (\<lambda>_. True) ops'"
proof (induction ls arbitrary: ops st)
  case (Cons l ls)
  then show ?case
    by (fastforce simp: record_data_def typed_ops_def typed_data_def split: option.splits if_splits)
qed simp

lemma ReadHistory_typed: "ReadHistory unmarshal nemesis p file = Inr (ops, st) \<Longrightarrow> typed_ops (\<lambda>_. True) ops"
  by (auto simp: ReadHistory_def split: option.splits prod.splits sum.splits if_splits dest!: ReadHistory_loop_typed)
    (simp add: typed_ops_def)

end
