(* ===== verification/Object_Models.thy ===== *)
theory Object_Models
  imports Linearizability "HOL-Library.Word"
begin

text \<open>
  The sequential models of the client tests: the register and the compare-and-set register of
  \<open>pkg/model\<close> and the bank of \<open>db/tidb/bank.go\<close>, with the laws that make the completion of their
  histories sound. Register values are integers of the requests, which are only compared and
  stored; balances are 64-bit words.
\<close>

section \<open>Register\<close>

record RegisterRequest =
  rreq_Op :: bool
  rreq_Value :: int

record RegisterResponse =
  rresp_Unknown :: bool
  rresp_Value :: int

definition RegisterRead :: bool where "RegisterRead = False"
definition RegisterWrite :: bool where "RegisterWrite = True"

definition register_IsUnknown :: "RegisterResponse \<Rightarrow> bool" where
  "register_IsUnknown r = rresp_Unknown r"

definition register_Init :: "int option \<Rightarrow> int" where
  "register_Init perparedState = (case perparedState of Some s \<Rightarrow> s | None \<Rightarrow> 0)"

definition register_Step :: "int \<Rightarrow> RegisterRequest \<Rightarrow> RegisterResponse \<Rightarrow> (bool \<times> int) option" where
  "register_Step st inp out =
     (if rreq_Op inp = RegisterRead then Some (rresp_Value out = st \<or> rresp_Unknown out, st)
      else Some (True, rreq_Value inp))"

definition register_Equal :: "int \<Rightarrow> int \<Rightarrow> bool" where
  "register_Equal st1 st2 = (st1 = st2)"

definition RegisterModel :: "(int, RegisterRequest, RegisterResponse) Model" where
  "RegisterModel = \<lparr>Model_Init = register_Init, Model_Step = register_Step, Model_Equal = register_Equal,
     Model_Name = ''register''\<rparr>"

definition register_OnNoopResponse :: RegisterResponse where
  "register_OnNoopResponse = \<lparr>rresp_Unknown = True, rresp_Value = 0\<rparr>"

interpretation register: object_model register_Step register_OnNoopResponse "\<lambda>_. True" "\<lambda>_. True"
  by unfold_locales (auto simp: register_Step_def register_OnNoopResponse_def split: if_splits)

section \<open>Compare-and-set register\<close>

text \<open>An operation code outside the enumeration is treated as compare-and-set by the code.\<close>

datatype CasOp = CasRegisterRead | CasRegisterWrite | CasRegisterCAS

record CasRegisterRequest =
  creq_Op :: CasOp
  creq_Arg1 :: int
  creq_Arg2 :: int

record CasRegisterResponse =
  cresp_Ok :: bool
  cresp_Exists :: bool
  cresp_Value :: int
  cresp_Unknown :: bool

definition cas_IsUnknown :: "CasRegisterResponse \<Rightarrow> bool" where
  "cas_IsUnknown r = cresp_Unknown r"

definition cas_Init :: "int option \<Rightarrow> int" where
  "cas_Init perparedState = (case perparedState of Some s \<Rightarrow> s | None \<Rightarrow> -1)"

definition cas_Step :: "int \<Rightarrow> CasRegisterRequest \<Rightarrow> CasRegisterResponse \<Rightarrow> (bool \<times> int) option" where
  "cas_Step st inp out =
     (if creq_Op inp = CasRegisterRead
      then (let ok = (cresp_Exists out = False \<and> st = -1) \<or> (cresp_Exists out = True \<and> st = cresp_Value out) \<or> cresp_Unknown out
            in Some (ok, st))
      else if creq_Op inp = CasRegisterWrite then Some (True, creq_Arg1 inp)
      else (let ok = (creq_Arg1 inp = st \<and> cresp_Ok out) \<or> (creq_Arg1 inp \<noteq> st \<and> \<not> cresp_Ok out) \<or> cresp_Unknown out;
                result = (if creq_Arg1 inp = st then creq_Arg2 inp else st)
            in Some (ok, result)))"

definition cas_Equal :: "int \<Rightarrow> int \<Rightarrow> bool" where
  "cas_Equal st1 st2 = (st1 = st2)"

definition CasRegisterModel :: "(int, CasRegisterRequest, CasRegisterResponse) Model" where
  "CasRegisterModel = \<lparr>Model_Init = cas_Init, Model_Step = cas_Step, Model_Equal = cas_Equal,
     Model_Name = ''cas_register''\<rparr>"

definition cas_OnNoopResponse :: CasRegisterResponse where
  "cas_OnNoopResponse = \<lparr>cresp_Ok = False, cresp_Exists = False, cresp_Value = 0, cresp_Unknown = True\<rparr>"

interpretation cas: object_model cas_Step cas_OnNoopResponse "\<lambda>_. True" "\<lambda>_. True"
  by unfold_locales (auto simp: cas_Step_def cas_OnNoopResponse_def Let_def split: if_splits)

text \<open>C22. What the verifier says of every compare-and-set history file that can be read, given that porcupine decides
  linearizability of complete histories. If the calls and returns do not match up, so that the history cannot be completed, it
  ends with that error; if no state was dumped, it panics; with an odd number of nemesis records it ends with the
  error that the history is not complete, whatever the operations did. In all other cases the history is
  valid exactly if it is linearizable from the dumped state in the presence of operations without a response and with
  unknown responses, each of which may have taken effect after its call, with any result, or not at all, and
  otherwise it is reported as invalid.\<close>

theorem cas_history_verdict:
  assumes "porcupine_decides CheckEvents cas_Step (\<lambda>_. True) (\<lambda>_. True)"
    and "ReadHistory unmarshal nemesis p file = Inr (ops, state)" "OnNoopResponse p = Some cas_OnNoopResponse"
  shows "Verify \<rho> unmarshal nemesis cas_IsUnknown (Porcupine_Check CheckEvents) (Some CasRegisterModel) p file =
    (case CompleteOperations \<rho> cas_IsUnknown cas_OnNoopResponse ops of
       Inl e \<Rightarrow> VerifyFatal e
     | Inr _ \<Rightarrow>
         (case state of
            None \<Rightarrow> VerifyPanic
          | Some s \<Rightarrow>
              if odd (length (filter (\<lambda>op. \<not> is_call op \<and> \<not> is_return op) ops)) then VerifyFatal HistoryNotComplete
              else if pending_linearizable cas_Step s (history_events cas_IsUnknown ops) then HistoryValid else HistoryInvalid))"
  by (rule cas.verify_verdict [OF assms(1,2) ReadHistory_typed [OF assms(2)] assms(3)])
    (simp_all add: CasRegisterModel_def cas_Init_def cas_Equal_def fun_eq_iff)

text \<open>A write that never returned, a read that saw it, and the records of a nemesis.\<close>

type_synonym cas_record = "(CasRegisterRequest + CasRegisterResponse) opRecord"

definition cas_parser :: "(CasRegisterRequest + CasRegisterResponse, int, CasRegisterRequest, CasRegisterResponse) RecordParser" where
  "cas_parser = \<lparr>OnRequest = (\<lambda>r. case r of Inl x \<Rightarrow> Some x | _ \<Rightarrow> None), OnResponse = (\<lambda>r. case r of Inr y \<Rightarrow> Some y | _ \<Rightarrow> None),
     OnNoopResponse = Some cas_OnNoopResponse, OnState = (\<lambda>r. case r of Inl x \<Rightarrow> Some (creq_Arg1 x) | _ \<Rightarrow> None)\<rparr>"

definition cas_file :: "cas_record list" where
  "cas_file =
     (let req = (\<lambda>a p c v. \<lparr>rec_Action = a, rec_Proc = p, rec_Time = None, rec_Data = Inl \<lparr>creq_Op = c, creq_Arg1 = v, creq_Arg2 = 0\<rparr>\<rparr>)
      in [req dumpOperation 0 CasRegisterWrite (-1), req InvokeOperation 1 CasRegisterWrite 7, req InvokeNemesis (-1) CasRegisterRead 0,
          req InvokeOperation 2 CasRegisterRead 0,
          \<lparr>rec_Action = ReturnOperation, rec_Proc = 2, rec_Time = None,
           rec_Data = Inr \<lparr>cresp_Ok = True, cresp_Exists = True, cresp_Value = 7, cresp_Unknown = False\<rparr>\<rparr>,
          req RecoverNemesis (-1) CasRegisterRead 0])"

theorem cas_history_verdict_witness:
  "Verify fifo Some (\<lambda>_. Some \<lparr>nr_Name = [], nr_Ops = []\<rparr>, \<lambda>_. Some []) cas_IsUnknown (Porcupine_Check (\<lambda>s Step eq evs. linearizable Step s evs)) (Some CasRegisterModel)
     cas_parser (Some (cas_file, False)) = HistoryValid"
proof -
  let ?read = "ReadHistory Some (\<lambda>_. Some \<lparr>nr_Name = [], nr_Ops = []\<rparr>, \<lambda>_. Some []) cas_parser (Some (cas_file, False))"
  let ?ops = "fst (projr ?read)"
  let ?evs = "history_events cas_IsUnknown ?ops"
  have r: "?read = Inr (?ops, Some (-1))" by code_simp
  have n: "OnNoopResponse cas_parser = Some cas_OnNoopResponse" by (simp add: cas_parser_def)
  obtain cops where c: "CompleteOperations fifo cas_IsUnknown cas_OnNoopResponse ?ops = Inr cops"
  proof -
    have "isl (CompleteOperations fifo cas_IsUnknown cas_OnNoopResponse ?ops) = False" by code_simp
    then show ?thesis using that by (cases "CompleteOperations fifo cas_IsUnknown cas_OnNoopResponse ?ops") auto
  qed
  have e: "\<not> odd (length (filter (\<lambda>op. \<not> is_call op \<and> \<not> is_return op) ?ops))" by code_simp
  have "linearization cas_Step (-1) ?evs (\<lambda>i. if i = 0 then cas_OnNoopResponse else output_of ?evs i) [0, 1]" by code_simp
  moreover have "returned ?evs = {1}" by code_simp
  moreover have "calls ?evs = {0, 1}" by code_simp
  ultimately have l: "pending_linearizable cas_Step (-1) ?evs"
    unfolding pending_linearizable_def by (intro exI [of _ "[0, 1]"] exI [of _ "\<lambda>i. if i = 0 then cas_OnNoopResponse else output_of ?evs i"]) auto
  have d: "porcupine_decides (\<lambda>s Step eq evs. linearizable Step s evs) cas_Step (\<lambda>_. True) (\<lambda>_. True)"
    by (simp add: porcupine_decides_def)
  show ?thesis using cas_history_verdict [OF d r n, of fifo] l e by (simp add: c)
qed

section \<open>Bank\<close>

definition accountNum :: nat where "accountNum = 5"
definition initBalance :: "64 word" where "initBalance = 1000"

record bankRequest =
  breq_Op :: int
  breq_From :: int
  breq_To :: int
  breq_Amount :: "64 word"

record bankResponse =
  bresp_Tso :: "64 word"
  bresp_Balances :: "64 word list"
  bresp_Ok :: bool
  bresp_FromBalance :: "64 word"
  bresp_ToBalance :: "64 word"
  bresp_Unknown :: bool
  bresp_Error :: string

definition bank_IsUnknown :: "bankResponse \<Rightarrow> bool" where
  "bank_IsUnknown r = bresp_Unknown r"

definition balancesEqual :: "64 word list \<Rightarrow> 64 word list \<Rightarrow> bool" where
  "balancesEqual a b = (if length a \<noteq> length b then False else list_all (\<lambda>(x, y). x = y) (zip a b))"

definition bank_Init :: "64 word list option \<Rightarrow> 64 word list" where
  "bank_Init perparedState = (case perparedState of Some s \<Rightarrow> s | None \<Rightarrow> replicate accountNum initBalance)"

text \<open>\<open>xs[i] = f(xs[i])\<close>, which panics out of range.\<close>

definition update_at :: "int \<Rightarrow> ('a \<Rightarrow> 'a) \<Rightarrow> 'a list \<Rightarrow> 'a list option" where
  "update_at i f xs = (if 0 \<le> i \<and> i < int (length xs) then Some (xs[nat i := f (xs ! nat i)]) else None)"

definition bank_Step :: "64 word list \<Rightarrow> bankRequest \<Rightarrow> bankResponse \<Rightarrow> (bool \<times> 64 word list) option" where
  "bank_Step st inp out =
     (if breq_Op inp = 0 then Some (bresp_Unknown out \<or> balancesEqual st (bresp_Balances out), st)
      else if \<not> bresp_Ok out \<and> \<not> bresp_Unknown out then Some (True, st)
      else do {
        newSt \<leftarrow> update_at (breq_From inp) (\<lambda>b. b - breq_Amount inp) st;
        newSt \<leftarrow> update_at (breq_To inp) (\<lambda>b. b + breq_Amount inp) newSt;
        Some (bresp_Ok out \<or> bresp_Unknown out, newSt) })"

definition bank_Equal :: "64 word list \<Rightarrow> 64 word list \<Rightarrow> bool" where
  "bank_Equal st1 st2 = balancesEqual st1 st2"

definition BankModel :: "(64 word list, bankRequest, bankResponse) Model" where
  "BankModel = \<lparr>Model_Init = bank_Init, Model_Step = bank_Step, Model_Equal = bank_Equal, Model_Name = ''tidb_bank''\<rparr>"

definition bank_OnNoopResponse :: bankResponse where
  "bank_OnNoopResponse = \<lparr>bresp_Tso = 0, bresp_Balances = [], bresp_Ok = False, bresp_FromBalance = 0,
     bresp_ToBalance = 0, bresp_Unknown = True, bresp_Error = []\<rparr>"

text \<open>Requests name accounts of the bank.\<close>

definition bank_input :: "bankRequest \<Rightarrow> bool" where
  "bank_input inp \<longleftrightarrow> breq_Op inp = 0 \<or>
     0 \<le> breq_From inp \<and> breq_From inp < int accountNum \<and> 0 \<le> breq_To inp \<and> breq_To inp < int accountNum"

definition bank_state :: "64 word list \<Rightarrow> bool" where
  "bank_state st \<longleftrightarrow> length st = accountNum"

lemma balancesEqual_iff [simp]: "balancesEqual a b \<longleftrightarrow> a = b"
  by (auto simp: balancesEqual_def list_eq_iff_zip_eq list_all_iff)

interpretation bank: object_model bank_Step bank_OnNoopResponse bank_state bank_input
  by unfold_locales
    (auto simp: bank_Step_def bank_OnNoopResponse_def bank_state_def bank_input_def update_at_def split: if_splits)

lemma sum_list_update_word: "i < length xs \<Longrightarrow> sum_list (xs[i := y]) = sum_list xs - xs ! i + (y :: 64 word)"
  by (induction xs arbitrary: i) (auto split: nat.split simp: algebra_simps)

lemma sum_update_at: "update_at i f xs = Some ys \<Longrightarrow> sum_list ys = sum_list xs - xs ! nat i + f (xs ! nat i :: 64 word)"
  by (auto simp: update_at_def sum_list_update_word split: if_splits)

lemma bank_step_total: "bank_Step st inp out = Some (ok, st') \<Longrightarrow> sum_list st' = sum_list st"
  by (auto simp: bank_Step_def split: if_splits Option.bind_splits dest!: sum_update_at)

lemma exec_bank_total: "exec_model bank_Step st ios = Some st' \<Longrightarrow> sum_list st' = sum_list st"
  by (induction bank_Step st ios rule: exec_model.induct) (auto split: Option.bind_splits if_splits dest: bank_step_total)

lemma bank_read_total:
  assumes l: "pending_linearizable bank_Step s evs" and i: "i \<in> returned evs" "breq_Op (input_of evs i) = 0"
    and known: "\<not> bresp_Unknown (output_of evs i)"
  shows "sum_list (bresp_Balances (output_of evs i)) = sum_list s"
proof -
  from l i(1) obtain lin out where lin: "i \<in> set lin" "out i = output_of evs i"
    "exec_model bank_Step s (map (\<lambda>i. (input_of evs i, out i)) lin) \<noteq> None"
    unfolding pending_linearizable_def linearization_def by blast
  from lin(1) obtain xs ys where "lin = xs @ i # ys" by (meson split_list)
  with lin(2,3) obtain s1 s2 where s: "exec_model bank_Step s (map (\<lambda>i. (input_of evs i, out i)) xs) = Some s1"
    "bank_Step s1 (input_of evs i) (output_of evs i) = Some (True, s2)"
    by (auto simp: exec_model_append split: Option.bind_splits if_splits)
  from s(2) i(2) known have "bresp_Balances (output_of evs i) = s1" by (auto simp: bank_Step_def)
  with exec_bank_total [OF s(1)] show ?thesis by simp
qed

text \<open>C23. A recorded bank history that the verifier accepts conserves money: in it every read with a known
  response returned balances whose total is that of the initial state, in 64-bit arithmetic,
  whatever transfers failed, are unknown or never returned.\<close>

theorem bank_valid_conserves:
  assumes "porcupine_decides CheckEvents bank_Step bank_state bank_input"
    and "ReadHistory unmarshal nemesis p file = Inr (ops, Some s)" "OnNoopResponse p = Some bank_OnNoopResponse"
    and "typed_ops bank_input ops" "bank_state s"
    and "CompleteOperations \<rho> bank_IsUnknown bank_OnNoopResponse ops = Inr cops"
    and "even (length (filter (\<lambda>op. \<not> is_call op \<and> \<not> is_return op) ops))"
    and "Verify \<rho> unmarshal nemesis bank_IsUnknown (Porcupine_Check CheckEvents) (Some BankModel) p file = HistoryValid"
    and "i \<in> returned (history_events bank_IsUnknown ops)"
    and "breq_Op (input_of (history_events bank_IsUnknown ops) i) = 0"
    and "\<not> bresp_Unknown (output_of (history_events bank_IsUnknown ops) i)"
  shows "sum_list (bresp_Balances (output_of (history_events bank_IsUnknown ops) i)) = sum_list s"
proof -
  have "Verify \<rho> unmarshal nemesis bank_IsUnknown (Porcupine_Check CheckEvents) (Some BankModel) p file =
    (if pending_linearizable bank_Step s (history_events bank_IsUnknown ops) then HistoryValid else HistoryInvalid)"
    by (rule bank.verify_decides [OF assms(1,2,4,6,3,7)])
      (use assms(5) in \<open>simp_all add: BankModel_def bank_Init_def bank_Equal_def fun_eq_iff\<close>)
  with assms(8) have "pending_linearizable bank_Step s (history_events bank_IsUnknown ops)" by (auto split: if_splits)
  from bank_read_total [OF this assms(9-11)] show ?thesis .
qed

type_synonym bank_record = "(bankRequest + bankResponse) opRecord"

definition bank_parser :: "(bankRequest + bankResponse, 64 word list, bankRequest, bankResponse) RecordParser" where
  "bank_parser = \<lparr>OnRequest = (\<lambda>r. case r of Inl x \<Rightarrow> Some x | _ \<Rightarrow> None), OnResponse = (\<lambda>r. case r of Inr y \<Rightarrow> Some y | _ \<Rightarrow> None),
     OnNoopResponse = Some bank_OnNoopResponse, OnState = (\<lambda>r. case r of Inr y \<Rightarrow> Some (bresp_Balances y) | _ \<Rightarrow> None)\<rparr>"

definition bank_file :: "bank_record list" where
  "bank_file =
     (let req = (\<lambda>a p c. \<lparr>rec_Action = a, rec_Proc = p, rec_Time = None, rec_Data = Inl \<lparr>breq_Op = c, breq_From = 0, breq_To = 1, breq_Amount = 100\<rparr>\<rparr>);
          resp = (\<lambda>a p bs. \<lparr>rec_Action = a, rec_Proc = p, rec_Time = None, rec_Data = Inr (bank_OnNoopResponse\<lparr>bresp_Unknown := False, bresp_Balances := bs\<rparr>)\<rparr>)
      in [resp dumpOperation 0 [1000, 1000, 1000, 1000, 1000], req InvokeOperation 1 1, req InvokeOperation 2 0,
          resp ReturnOperation 2 [900, 1100, 1000, 1000, 1000]])"

theorem bank_valid_conserves_witness:
  "sum_list (bresp_Balances (output_of (history_events bank_IsUnknown
     (fst (projr (ReadHistory Some (\<lambda>_. Some \<lparr>nr_Name = [], nr_Ops = []\<rparr>, \<lambda>_. Some []) bank_parser (Some (bank_file, False)))))) 1)) = 5000"
proof -
  let ?read = "ReadHistory Some (\<lambda>_. Some \<lparr>nr_Name = [], nr_Ops = []\<rparr>, \<lambda>_. Some []) bank_parser (Some (bank_file, False))"
  let ?ops = "fst (projr ?read)" let ?s = "[1000, 1000, 1000, 1000, 1000] :: 64 word list"
  let ?evs = "history_events bank_IsUnknown ?ops"
  let ?C = "\<lambda>s Step eq evs. linearizable Step s evs"
  have r: "?read = Inr (?ops, Some ?s)" by code_simp
  have n: "OnNoopResponse bank_parser = Some bank_OnNoopResponse" by (simp add: bank_parser_def)
  have t: "typed_ops bank_input ?ops" "bank_state ?s" by code_simp+
  obtain cops where c: "CompleteOperations fifo bank_IsUnknown bank_OnNoopResponse ?ops = Inr cops"
  proof -
    have "isl (CompleteOperations fifo bank_IsUnknown bank_OnNoopResponse ?ops) = False" by code_simp
    then show ?thesis using that by (cases "CompleteOperations fifo bank_IsUnknown bank_OnNoopResponse ?ops") auto
  qed
  have e: "even (length (filter (\<lambda>op. \<not> is_call op \<and> \<not> is_return op) ?ops))" by code_simp
  have "linearization bank_Step ?s ?evs (\<lambda>i. if i = 0 then bank_OnNoopResponse else output_of ?evs i) [0, 1]" by code_simp
  moreover have "returned ?evs = {1}" by code_simp
  moreover have "calls ?evs = {0, 1}" by code_simp
  ultimately have l: "pending_linearizable bank_Step ?s ?evs"
    unfolding pending_linearizable_def by (intro exI [of _ "[0, 1]"] exI [of _ "\<lambda>i. if i = 0 then bank_OnNoopResponse else output_of ?evs i"]) auto
  have i: "1 \<in> returned ?evs" by code_simp
  have d: "porcupine_decides ?C bank_Step bank_state bank_input" by (simp add: porcupine_decides_def)
  have v: "Verify fifo Some (\<lambda>_. Some \<lparr>nr_Name = [], nr_Ops = []\<rparr>, \<lambda>_. Some []) bank_IsUnknown (Porcupine_Check ?C) (Some BankModel) bank_parser (Some (bank_file, False)) = HistoryValid"
    using bank.verify_decides [OF d r t(1) c n e, of BankModel] t(2) l
    by (simp add: BankModel_def bank_Init_def bank_Equal_def fun_eq_iff)
  have x: "breq_Op (input_of ?evs 1) = 0" "\<not> bresp_Unknown (output_of ?evs 1)" by code_simp+
  show ?thesis using bank_valid_conserves [OF d r n t c e v i x] by simp
qed

end
