(* ===== verification/Rawkv.thy ===== *)
theory Rawkv
  imports Object_Models
begin

text \<open>
  The key-value model of \<open>testcase/rawkv-linearizability\<close>. Its state is a persistent treap and a
  64-bit hash of the contents, updated with every insertion and removal; two states are compared
  by their hashes first. The treap is a package of its own and a parameter here.
\<close>

section \<open>The treap\<close>

record 't Treap =
  NewPersistentTreap :: 't
  GetValue_of :: "'t \<Rightarrow> int \<Rightarrow> 32 word option"
  Insert_in :: "'t \<Rightarrow> int \<Rightarrow> 32 word \<Rightarrow> 't"
  Remove_from :: "'t \<Rightarrow> int \<Rightarrow> 't"
  IsSameTreap :: "'t \<Rightarrow> 't \<Rightarrow> bool"
  Same_struct :: "'t \<Rightarrow> 't \<Rightarrow> bool"

text \<open>Lookups after an update, comparison of the contents, and comparison with \<open>==\<close>, which may tell
  treaps with the same contents apart but not the other way round.\<close>

definition treap_laws :: "'t Treap \<Rightarrow> bool" where
  "treap_laws T \<longleftrightarrow>
     (\<forall>k. GetValue_of T (NewPersistentTreap T) k = None) \<and>
     (\<forall>t k v. GetValue_of T (Insert_in T t k v) = (GetValue_of T t)(k \<mapsto> v)) \<and>
     (\<forall>t k. GetValue_of T (Remove_from T t k) = (GetValue_of T t)(k := None)) \<and>
     (\<forall>t u. IsSameTreap T t u = (GetValue_of T t = GetValue_of T u)) \<and>
     (\<forall>t u. Same_struct T t u \<longrightarrow> GetValue_of T t = GetValue_of T u)"

section \<open>States\<close>

record 't stateType =
  st_treap :: 't
  st_hash :: "64 word"

definition newState :: "'t Treap \<Rightarrow> 't stateType" where
  "newState T = \<lparr>st_treap = NewPersistentTreap T, st_hash = 0\<rparr>"

definition magicNumberKey :: "64 word" where
  "magicNumberKey = 6364136223846793005"

definition magicNumberValue :: "64 word" where
  "magicNumberValue = 1103515245"

definition state_Insert :: "'t Treap \<Rightarrow> 't stateType \<Rightarrow> int \<Rightarrow> 32 word \<Rightarrow> 't stateType" where
  "state_Insert T s k v =
     \<lparr>st_treap = Insert_in T (st_treap s) k v,
      st_hash = (case GetValue_of T (st_treap s) k of
                   Some val \<Rightarrow> st_hash s + (ucast v - ucast val) * magicNumberValue
                 | None \<Rightarrow> st_hash s + word_of_int k * magicNumberKey + ucast v * magicNumberValue + 12345)\<rparr>"

definition state_Remove :: "'t Treap \<Rightarrow> 't stateType \<Rightarrow> int \<Rightarrow> 't stateType" where
  "state_Remove T s k =
     (case GetValue_of T (st_treap s) k of
        Some val \<Rightarrow> \<lparr>st_treap = Remove_from T (st_treap s) k,
                     st_hash = st_hash s - (word_of_int k * magicNumberKey + ucast val * magicNumberValue + 12345)\<rparr>
      | None \<Rightarrow> s)"

section \<open>The model\<close>

record rawkvRequest =
  kreq_Op :: int
  kreq_Key :: int
  kreq_Val :: "32 word"

record rawkvResponse =
  kresp_Val :: "32 word"
  kresp_Unknown :: bool
  kresp_Error :: string

definition rawkv_IsUnknown :: "rawkvResponse \<Rightarrow> bool" where
  "rawkv_IsUnknown r = kresp_Unknown r"

definition rawkv_OnNoopResponse :: rawkvResponse where
  "rawkv_OnNoopResponse = \<lparr>kresp_Val = 0, kresp_Unknown = True, kresp_Error = []\<rparr>"

text \<open>The state that was dumped, as a list of pairs.\<close>

definition rawkv_OnState :: "'t Treap \<Rightarrow> (int \<times> 32 word) list \<Rightarrow> 't stateType" where
  "rawkv_OnState T dump = fold (\<lambda>(k, v) st. state_Insert T st k v) dump (newState T)"

definition rawkv_Init :: "'t Treap \<Rightarrow> 't stateType option \<Rightarrow> 't stateType" where
  "rawkv_Init T preparedState = (case preparedState of Some s \<Rightarrow> s | None \<Rightarrow> newState T)"

definition rawkv_Step :: "'t Treap \<Rightarrow> 't stateType \<Rightarrow> rawkvRequest \<Rightarrow> rawkvResponse \<Rightarrow> (bool \<times> 't stateType) option" where
  "rawkv_Step T st request response =
     (if kreq_Op request = 0
      then (if kresp_Unknown response then Some (True, st)
            else (let val = (case GetValue_of T (st_treap st) (kreq_Key request) of Some v \<Rightarrow> v | None \<Rightarrow> 0)
                  in if val = kresp_Val response then Some (True, st) else Some (False, st)))
      else if kreq_Op request = 1 then Some (True, state_Insert T st (kreq_Key request) (kreq_Val request))
      else if kreq_Op request = 2 then Some (True, state_Remove T st (kreq_Key request))
      else None)"

definition rawkv_Equal :: "'t Treap \<Rightarrow> 't stateType \<Rightarrow> 't stateType \<Rightarrow> bool" where
  "rawkv_Equal T st1 st2 =
     (if Same_struct T (st_treap st1) (st_treap st2) \<and> st_hash st1 = st_hash st2 then True
      else if st_hash st1 \<noteq> st_hash st2 then False
      else IsSameTreap T (st_treap st1) (st_treap st2))"

definition RawkvModel :: "'t Treap \<Rightarrow> ('t stateType, rawkvRequest, rawkvResponse) Model" where
  "RawkvModel T = \<lparr>Model_Init = rawkv_Init T, Model_Step = rawkv_Step T, Model_Equal = rawkv_Equal T,
     Model_Name = ''rawkv-linearizability''\<rparr>"

definition rawkv_input :: "rawkvRequest \<Rightarrow> bool" where
  "rawkv_input request \<longleftrightarrow> kreq_Op request \<in> {0, 1, 2}"

interpretation rawkv: object_model "rawkv_Step T" rawkv_OnNoopResponse "\<lambda>_. True" rawkv_input for T
  by unfold_locales (auto simp: rawkv_Step_def rawkv_OnNoopResponse_def rawkv_input_def Let_def split: if_splits)

section \<open>The hash\<close>

definition entry_hash :: "int \<Rightarrow> 32 word \<Rightarrow> 64 word" where
  "entry_hash k v = word_of_int k * magicNumberKey + ucast v * magicNumberValue + 12345"

text \<open>The hash of a state is the sum of the hashes of its entries.\<close>

definition hash_inv :: "'t Treap \<Rightarrow> 't stateType \<Rightarrow> bool" where
  "hash_inv T s \<longleftrightarrow> finite (dom (GetValue_of T (st_treap s))) \<and>
     st_hash s = (\<Sum>k \<in> dom (GetValue_of T (st_treap s)). entry_hash k (the (GetValue_of T (st_treap s) k)))"

lemma sum_entry_upd:
  assumes "finite (dom m)"
  shows "(\<Sum>k' \<in> dom (m(k \<mapsto> v)). entry_hash k' (the ((m(k \<mapsto> v)) k'))) =
    (\<Sum>k' \<in> dom m - {k}. entry_hash k' (the (m k'))) + entry_hash k v"
proof -
  have d: "dom (m(k \<mapsto> v)) = insert k (dom m - {k})" by auto
  have "(\<Sum>k' \<in> dom m - {k}. entry_hash k' (the ((m(k \<mapsto> v)) k'))) = (\<Sum>k' \<in> dom m - {k}. entry_hash k' (the (m k')))"
    by (rule sum.cong) auto
  moreover have "(\<Sum>k' \<in> insert k (dom m - {k}). entry_hash k' (the ((m(k \<mapsto> v)) k'))) =
      entry_hash k v + (\<Sum>k' \<in> dom m - {k}. entry_hash k' (the ((m(k \<mapsto> v)) k')))"
    using assms by (subst sum.insert) auto
  ultimately show ?thesis unfolding d by (simp only: add.commute)
qed

lemma sum_entry_remove:
  assumes "finite (dom m)" "m k = Some w"
  shows "(\<Sum>k' \<in> dom m - {k}. entry_hash k' (the (m k'))) = (\<Sum>k' \<in> dom m. entry_hash k' (the (m k'))) - entry_hash k w"
  using assms by (subst (2) sum.remove [of _ k]) auto

lemma hash_new: "treap_laws T \<Longrightarrow> hash_inv T (newState T)"
  by (simp add: treap_laws_def hash_inv_def newState_def dom_def)

lemma hash_insert:
  assumes T: "treap_laws T" and s: "hash_inv T s" shows "hash_inv T (state_Insert T s k v)"
proof -
  let ?m = "GetValue_of T (st_treap s)"
  have m: "GetValue_of T (Insert_in T (st_treap s) k v) = ?m(k \<mapsto> v)" using T by (simp add: treap_laws_def del: fun_upd_apply)
  have fin: "finite (dom ?m)" using s by (simp add: hash_inv_def)
  show ?thesis
  proof (cases "?m k")
    case None
    then have "dom ?m - {k} = dom ?m" by auto
    with None s sum_entry_upd [OF fin, of k v] show ?thesis
      by (simp add: hash_inv_def state_Insert_def m entry_hash_def add.assoc del: fun_upd_apply)
  next
    case (Some w)
    with s sum_entry_upd [OF fin, of k v] sum_entry_remove [OF fin Some] show ?thesis
      by (simp add: hash_inv_def state_Insert_def m entry_hash_def algebra_simps del: fun_upd_apply)
  qed
qed

lemma hash_remove:
  assumes T: "treap_laws T" and s: "hash_inv T s" shows "hash_inv T (state_Remove T s k)"
proof (cases "GetValue_of T (st_treap s) k")
  case None
  with s show ?thesis by (simp add: state_Remove_def)
next
  case (Some w)
  let ?m = "GetValue_of T (st_treap s)"
  have m: "GetValue_of T (Remove_from T (st_treap s) k) = ?m(k := None)" using T by (simp add: treap_laws_def del: fun_upd_apply)
  have fin: "finite (dom ?m)" using s by (simp add: hash_inv_def)
  have "(\<Sum>k' \<in> dom (?m(k := None)). entry_hash k' (the ((?m(k := None)) k'))) = (\<Sum>k' \<in> dom ?m - {k}. entry_hash k' (the (?m k')))"
    by (rule sum.cong) auto
  with Some s sum_entry_remove [OF fin Some] show ?thesis
    by (simp add: hash_inv_def state_Remove_def m entry_hash_def del: fun_upd_apply)
qed

lemma hash_step: "\<lbrakk>treap_laws T; hash_inv T s; rawkv_Step T s x y = Some (ok, s')\<rbrakk> \<Longrightarrow> hash_inv T s'"
  by (auto simp: rawkv_Step_def Let_def hash_insert hash_remove split: if_splits)

lemma hash_exec: "\<lbrakk>treap_laws T; hash_inv T s; exec_model (rawkv_Step T) s ios = Some s'\<rbrakk> \<Longrightarrow> hash_inv T s'"
  by (induction "rawkv_Step T" s ios rule: exec_model.induct) (auto split: Option.bind_splits if_splits dest: hash_step)

lemma hash_dump: "treap_laws T \<Longrightarrow> hash_inv T (rawkv_OnState T dump)"
  unfolding rawkv_OnState_def
  by (rule fold_invariant [where I = "hash_inv T"]) (auto simp: hash_new hash_insert)

lemma Equal_contents:
  assumes T: "treap_laws T" and s: "hash_inv T s1" "hash_inv T s2"
  shows "rawkv_Equal T s1 s2 \<longleftrightarrow> GetValue_of T (st_treap s1) = GetValue_of T (st_treap s2)"
proof -
  have "st_hash s1 = st_hash s2" if "GetValue_of T (st_treap s1) = GetValue_of T (st_treap s2)"
    using s that by (simp add: hash_inv_def)
  with T show ?thesis unfolding rawkv_Equal_def treap_laws_def by auto
qed

text \<open>C26. The incrementally updated hash never makes equal states look different: for any two states that
  the model reaches from dumped states, \<open>Equal\<close> says exactly whether they hold the same values
  under the same keys, whatever the order of the insertions and removals that led there. The
  treap is assumed to behave as a map.\<close>

theorem rawkv_Equal_exact:
  assumes "treap_laws T"
    and "exec_model (rawkv_Step T) (rawkv_OnState T dump1) ios1 = Some s1"
    and "exec_model (rawkv_Step T) (rawkv_OnState T dump2) ios2 = Some s2"
  shows "rawkv_Equal T s1 s2 \<longleftrightarrow> GetValue_of T (st_treap s1) = GetValue_of T (st_treap s2)"
  by (rule Equal_contents [OF assms(1) hash_exec [OF assms(1) hash_dump [OF assms(1)] assms(2)]
        hash_exec [OF assms(1) hash_dump [OF assms(1)] assms(3)]])

definition alist_treap :: "(int, 32 word) gomap Treap" where
  "alist_treap = \<lparr>NewPersistentTreap = [], GetValue_of = map_of, Insert_in = (\<lambda>t k v. AList.update k v t),
     Remove_from = (\<lambda>t k. AList.delete k t), IsSameTreap = (\<lambda>t u. list_all (\<lambda>k. map_of t k = map_of u k) (map fst t @ map fst u)),
     Same_struct = (=)\<rparr>"

theorem rawkv_Equal_exact_witness:
  "let put = (\<lambda>k v. (\<lparr>kreq_Op = 1, kreq_Key = k, kreq_Val = v\<rparr>, rawkv_OnNoopResponse));
       run = exec_model (rawkv_Step alist_treap)
   in rawkv_Equal alist_treap (the (run (rawkv_OnState alist_treap [(1, 5)]) [put 2 7, put 1 9]))
        (the (run (rawkv_OnState alist_treap [(2, 7)]) [put 3 1, put 1 9, (\<lparr>kreq_Op = 2, kreq_Key = 3, kreq_Val = 0\<rparr>, rawkv_OnNoopResponse)]))"
proof -
  let ?put = "\<lambda>k v. (\<lparr>kreq_Op = 1, kreq_Key = k, kreq_Val = v\<rparr>, rawkv_OnNoopResponse)"
  let ?s1 = "exec_model (rawkv_Step alist_treap) (rawkv_OnState alist_treap [(1, 5)]) [?put 2 7, ?put 1 9]"
  let ?s2 = "exec_model (rawkv_Step alist_treap) (rawkv_OnState alist_treap [(2, 7)])
    [?put 3 1, ?put 1 9, (\<lparr>kreq_Op = 2, kreq_Key = 3, kreq_Val = 0\<rparr>, rawkv_OnNoopResponse)]"
  have same: "list_all (\<lambda>k. map_of t k = map_of u k) (map fst t @ map fst u) \<longleftrightarrow> map_of t = map_of u" for t u :: "(int, 32 word) gomap"
  proof
    assume *: "list_all (\<lambda>k. map_of t k = map_of u k) (map fst t @ map fst u)"
    show "map_of t = map_of u"
    proof
      fix k show "map_of t k = map_of u k"
        using * by (cases "k \<in> keys t \<union> keys u") (auto simp: list_all_iff map_of_None_keys [THEN iffD2])
    qed
  qed (simp add: list_all_iff)
  have T: "treap_laws alist_treap"
    unfolding treap_laws_def alist_treap_def by (simp add: update_conv' delete_conv' same del: list_all_append map_of_update map_of_delete)
  have s: "?s1 = Some (the ?s1)" "?s2 = Some (the ?s2)" by code_simp+
  have "st_treap (the ?s1) = [(1, 9), (2, 7)]" "st_treap (the ?s2) = [(2, 7), (1, 9)]" by code_simp+
  then have "GetValue_of alist_treap (st_treap (the ?s1)) = GetValue_of alist_treap (st_treap (the ?s2))"
    by (auto simp: alist_treap_def fun_eq_iff)
  with rawkv_Equal_exact [OF T s] show ?thesis unfolding Let_def by blast
qed

end
