(* ===== verification/Long_Fork.thy ===== *)
theory Long_Fork
  imports Operations Rendering "HOL-Library.Word"
begin

text \<open>
  The long-fork test of \<open>db/tidb/long_fork.go\<close>: its requests, which write every key at most once and
  read groups of keys, and its checker, which looks for two reads of a group that saw two
  writes in opposite orders. The random source is a parameter; a panic is \<^const>\<open>None\<close>.
\<close>

section \<open>Requests and responses\<close>

definition lfRead :: string where "lfRead = ''read''"
definition lfWrite :: string where "lfWrite = ''write''"
definition lfGroupSize :: nat where "lfGroupSize = 10"

record lfRequest =
  lfreq_Kind :: string
  lfreq_Keys :: "64 word list"

record NullInt64 =
  ni_Int64 :: "64 word"
  ni_Valid :: bool

record lfResponse =
  lfresp_Ok :: bool
  lfresp_Unknown :: bool
  lfresp_Keys :: "64 word list"
  lfresp_Values :: "NullInt64 list"

type_synonym lfOperation = "(lfRequest, lfResponse) Operation"

datatype lf_error =
    BadReadSize nat nat
  | TwoValues "64 word" NullInt64 NullInt64
  | WrittenTwice "64 word"

section \<open>Generating requests\<close>

text \<open>\<open>Perm\<close> is the result of \<open>r.Perm(groupSize)\<close>, a permutation of the numbers below \<open>groupSize\<close>.\<close>

definition makeKeysInGroup :: "nat list \<Rightarrow> 64 word \<Rightarrow> 64 word \<Rightarrow> 64 word list" where
  "makeKeysInGroup Perm groupSize key =
     (let lower = key - key mod groupSize in map (\<lambda>num. of_nat num + lower) Perm)"

text \<open>The state shared by the clients: the next key, and for a client the key it wrote and has not read.\<close>

record lfState =
  lf_nextKey :: "64 word"
  lf_workers :: "(nat, 64 word) gomap"

text \<open>What a client draws: \<open>r.Int()\<close>, \<open>r.Intn(size)\<close> and a permutation.\<close>

record lf_random =
  rnd_Int :: nat
  rnd_Intn :: nat
  rnd_Perm :: "nat list"

definition NextRequest :: "range_order \<Rightarrow> lf_random \<Rightarrow> nat \<Rightarrow> lfState \<Rightarrow> (lfRequest \<times> lfState) option" where
  "NextRequest \<rho> r node st =
     (let group = (\<lambda>key. \<lparr>lfreq_Kind = lfRead, lfreq_Keys = makeKeysInGroup (rnd_Perm r) (of_nat lfGroupSize) key\<rparr>);
          fresh = (\<lparr>lfreq_Kind = lfWrite, lfreq_Keys = [lf_nextKey st]\<rparr>,
                   \<lparr>lf_nextKey = lf_nextKey st + 1, lf_workers = AList.update node (lf_nextKey st) (lf_workers st)\<rparr>)
      in case map_of (lf_workers st) node of
           Some key \<Rightarrow> Some (group key, st\<lparr>lf_workers := AList.delete node (lf_workers st)\<rparr>)
         | None \<Rightarrow>
             if rnd_Int r mod 2 = 0 \<and> length (lf_workers st) > 0
             then (let others = map (\<lambda>c. get_or 0 (lf_workers st) c) (go_range \<rho> (map fst (lf_workers st)))
                   in if rnd_Intn r < length others then Some (group (others ! rnd_Intn r), st) else None)
             else Some fresh)"

section \<open>The checker\<close>

definition sprint_keys :: "64 word list \<Rightarrow> string" where
  "sprint_keys ks = ''['' @ Join (map (\<lambda>k. utoa (unat k)) ks) '' '' @ '']''"

text \<open>The keys and values of a read, ordered by key; \<open>sort.Slice\<close> is not stable.\<close>

definition sorted_pairs :: "range_order \<Rightarrow> lfResponse \<Rightarrow> (64 word \<times> NullInt64) list" where
  "sorted_pairs \<rho> res = sort_key fst (go_range \<rho> (zip (lfresp_Keys res) (lfresp_Values res)))"

definition is_read_result :: "lfResponse \<Rightarrow> bool" where
  "is_read_result res \<longleftrightarrow> length (lfresp_Values res) \<noteq> 0 \<and> \<not> (\<not> lfresp_Ok res \<or> lfresp_Unknown res)"

type_synonym lf_groups = "(string, 64 word list) gomap \<times> (string, NullInt64 list list) gomap"

definition add_read :: "range_order \<Rightarrow> lfResponse \<Rightarrow> lf_groups \<Rightarrow> lf_groups" where
  "add_read \<rho> res = (\<lambda>(keyset, groups).
     let pairs = sorted_pairs \<rho> res; ks = map fst pairs; values = map snd pairs; str = sprint_keys ks
     in (AList.update str ks keyset, AList.update str (get_or [] groups str @ [values]) groups))"

fun collect_groups :: "range_order \<Rightarrow> nat \<Rightarrow> nat \<Rightarrow> lfOperation list \<Rightarrow> lf_groups \<Rightarrow> (lf_error + lf_groups) option" where
  "collect_groups \<rho> i groupSize [] gs = Some (Inr gs)"
| "collect_groups \<rho> i groupSize (op # ops) gs =
     (if o_Action op \<noteq> ReturnOperation then collect_groups \<rho> (i + 1) groupSize ops gs
      else (case o_Data op of
              Response res \<Rightarrow>
                if \<not> is_read_result res then collect_groups \<rho> (i + 1) groupSize ops gs
                else if length (lfresp_Keys res) \<noteq> groupSize \<or> length (lfresp_Values res) \<noteq> groupSize
                then Some (Inl (BadReadSize (length (lfresp_Keys res)) (length (lfresp_Values res))))
                else collect_groups \<rho> (i + 1) groupSize ops (add_read (sub \<rho> i) res gs)
            | _ \<Rightarrow> None))"

text \<open>The comparison of two reads; \<open>result\<close> remembers which of them was ahead.\<close>

fun compare_reads :: "(64 word \<times> NullInt64 \<times> NullInt64) list \<Rightarrow> int \<Rightarrow> lf_error + bool" where
  "compare_reads [] result = Inr True"
| "compare_reads ((k, v1, v2) # rest) result =
     (if ni_Valid v1 \<and> \<not> ni_Valid v2
      then (if result > 0 then Inr False else compare_reads rest (-1))
      else if \<not> ni_Valid v1 \<and> ni_Valid v2
      then (if result < 0 then Inr False else compare_reads rest 1)
      else if ni_Valid v1 \<and> ni_Valid v2 \<and> v1 \<noteq> v2 then Inl (TwoValues k v1 v2)
      else compare_reads rest result)"

fun pairs_of :: "'a list \<Rightarrow> ('a \<times> 'a) list" where
  "pairs_of [] = []"
| "pairs_of (x # xs) = map (Pair x) xs @ pairs_of xs"

text \<open>The first result that is not \<open>true, nil\<close>.\<close>

fun first_failure :: "(lf_error + bool) list \<Rightarrow> lf_error + bool" where
  "first_failure [] = Inr True"
| "first_failure (r # rs) = (if r = Inr True then first_failure rs else r)"

definition ensureNoLongForks :: "range_order \<Rightarrow> lfOperation list \<Rightarrow> nat \<Rightarrow> (lf_error + bool) option" where
  "ensureNoLongForks \<rho> ops groupSize = do {
     res \<leftarrow> collect_groups (sub \<rho> 0) 0 groupSize ops ([], []);
     (case res of
        Inl e \<Rightarrow> Some (Inl e)
      | Inr (keyset, groups) \<Rightarrow>
          Some (first_failure (concat (map (\<lambda>str. map (\<lambda>(values1, values2).
              compare_reads (zip (get_or [] keyset str) (zip values1 values2)) 0) (pairs_of (get_or [] groups str)))
            (go_range (sub \<rho> 1) (map fst groups)))))) }"

fun written_keys :: "64 word list \<Rightarrow> (64 word, bool) gomap \<Rightarrow> lf_error + (64 word, bool) gomap" where
  "written_keys [] keySet = Inr keySet"
| "written_keys (key # ks) keySet =
     (if key \<in> keys keySet then Inl (WrittenTwice key) else written_keys ks (AList.update key True keySet))"

fun single_writes :: "lfOperation list \<Rightarrow> (64 word, bool) gomap \<Rightarrow> (lf_error + bool) option" where
  "single_writes [] keySet = Some (Inr True)"
| "single_writes (op # ops) keySet =
     (if o_Action op \<noteq> InvokeOperation then single_writes ops keySet
      else (case o_Data op of
              Request req \<Rightarrow>
                if lfreq_Kind req \<noteq> lfWrite then single_writes ops keySet
                else (case written_keys (lfreq_Keys req) keySet of
                        Inl e \<Rightarrow> Some (Inl e)
                      | Inr keySet' \<Rightarrow> single_writes ops keySet')
            | _ \<Rightarrow> None))"

definition ensureNoMultipleWritesToOneKey :: "lfOperation list \<Rightarrow> (lf_error + bool) option" where
  "ensureNoMultipleWritesToOneKey ops = single_writes ops []"

definition LongFork_Check :: "range_order \<Rightarrow> lfOperation list \<Rightarrow> (lf_error + bool) option" where
  "LongFork_Check \<rho> ops = do {
     r1 \<leftarrow> ensureNoMultipleWritesToOneKey ops;
     (case r1 of
        Inl e \<Rightarrow> Some (Inl e)
      | Inr ok \<Rightarrow>
          if \<not> ok then Some (Inr False)
          else do {
            r2 \<leftarrow> ensureNoLongForks \<rho> ops lfGroupSize;
            (case r2 of
               Inl e \<Rightarrow> Some (Inl e)
             | Inr ok \<Rightarrow> Some (Inr ok)) }) }"

section \<open>Long forks\<close>

text \<open>What a read saw of the keys it asked for.\<close>

definition read_view :: "lfResponse \<Rightarrow> 64 word \<rightharpoonup> 64 word" where
  "read_view res k = (case map_of (zip (lfresp_Keys res) (lfresp_Values res)) k of
     Some v \<Rightarrow> if ni_Valid v then Some (ni_Int64 v) else None | None \<Rightarrow> None)"

lemma compare_reads_True:
  "compare_reads xs r = Inr True \<longleftrightarrow>
     (\<forall>(k, v1, v2) \<in> set xs. ni_Valid v1 \<and> ni_Valid v2 \<longrightarrow> v1 = v2) \<and>
     ((\<forall>(k, v1, v2) \<in> set xs. ni_Valid v1 \<longrightarrow> ni_Valid v2) \<and> 0 \<le> r \<or>
      (\<forall>(k, v1, v2) \<in> set xs. ni_Valid v2 \<longrightarrow> ni_Valid v1) \<and> r \<le> 0)"
  by (induction xs r rule: compare_reads.induct) (auto split: if_splits)

text \<open>Printed key lists tell key lists apart.\<close>

lemma utoa_no_space: "CHR '' '' \<notin> set (utoa n)"
proof (induction n rule: utoa.induct)
  case (1 n)
  have c: "char_of (48 + k :: nat) \<noteq> CHR '' ''" if "k < 10" for k
  proof
    assume "char_of (48 + k) = CHR '' ''"
    then have "of_char (char_of (48 + k :: nat) :: char) = (of_char (CHR '' '') :: nat)" by (rule arg_cong)
    then show False using that by (simp add: of_char_of)
  qed
  show ?case
  proof (cases "n < 10")
    case True
    with c [of n] show ?thesis by (subst utoa.simps) auto
  next
    case False
    with 1 [OF False] c [of "n mod 10"] show ?thesis by (subst utoa.simps) auto
  qed
qed

lemma Join_inject:
  assumes "\<And>s. s \<in> set xs \<union> set ys \<Longrightarrow> s \<noteq> [] \<and> sep \<notin> set s" "Join xs [sep] = Join ys [sep]"
  shows "xs = ys"
  using assms
proof (induction xs "[sep]" arbitrary: ys rule: Join.induct)
  case 1
  then show ?case by (cases "(ys, [sep])" rule: Join.cases) auto
next
  case (2 s)
  then have "sep \<notin> set s" "s \<noteq> []" by auto
  with "2.prems"(2) show ?case by (cases "(ys, [sep])" rule: Join.cases) auto
next
  case (3 s t ss)
  have split: "a @ sep # b = c @ sep # d \<Longrightarrow> sep \<notin> set a \<Longrightarrow> sep \<notin> set c \<Longrightarrow> a = c \<and> b = d" for a b c d
    by (induction a arbitrary: c) (auto simp: Cons_eq_append_conv append_eq_Cons_conv)
  show ?case
  proof (cases "(ys, [sep])" rule: Join.cases)
    case (1 sep')
    with "3.prems"(2) show ?thesis by simp
  next
    case (2 u sep')
    have "sep \<notin> set u" using "3.prems"(1) [of u] 2 by simp
    moreover have "u = s @ [sep] @ Join (t # ss) [sep]" using "3.prems"(2) 2 by auto
    ultimately show ?thesis by simp
  next
    case (3 u v us sep')
    with split [of s "Join (t # ss) [sep]" u "Join (v # us) [sep]"] "3.prems"(2) "3.prems"(1) [of s] "3.prems"(1) [of u] have "s = u" "Join (t # ss) [sep] = Join (v # us) [sep]" by auto
    moreover from this(2) have "t # ss = v # us" by (rule "3.hyps" [rotated]) (use "3.prems"(1) 3 in auto)
    ultimately show ?thesis using 3 by simp
  qed
qed

lemma sprint_keys_inject: "sprint_keys ks = sprint_keys ls \<longleftrightarrow> ks = ls"
proof
  assume "sprint_keys ks = sprint_keys ls"
  then have "Join (map (\<lambda>k. utoa (unat k)) ks) [CHR '' ''] = Join (map (\<lambda>k. utoa (unat k)) ls) [CHR '' '']"
    by (simp add: sprint_keys_def)
  from Join_inject [OF _ this] have "map (\<lambda>k. utoa (unat k)) ks = map (\<lambda>k. utoa (unat k)) ls"
    using utoa_no_space utoa_head by force
  moreover have "inj (\<lambda>k :: 64 word. utoa (unat k))" by (auto simp: inj_def utoa_inject word_unat_eq_iff)
  ultimately show "ks = ls" by (simp add: inj_map_eq_map)
qed simp

section \<open>The groups\<close>

text \<open>The reads of a history, and the lists of pairs they are kept as.\<close>

definition read_results :: "lfOperation list \<Rightarrow> lfResponse list" where
  "read_results ops = concat (map (\<lambda>op. case o_Data op of
     Response res \<Rightarrow> if is_return op \<and> is_read_result res then [res] else [] | _ \<Rightarrow> []) ops)"

definition pairs_for :: "lfResponse \<Rightarrow> (64 word \<times> NullInt64) list \<Rightarrow> bool" where
  "pairs_for res ps \<longleftrightarrow> (\<exists>\<rho>. ps = sorted_pairs \<rho> res)"

definition grouped :: "(64 word \<times> NullInt64) list list \<Rightarrow> lf_groups \<Rightarrow> bool" where
  "grouped PS gs \<longleftrightarrow>
     (\<forall>str. get_or [] (snd gs) str = map (map snd) (filter (\<lambda>ps. sprint_keys (map fst ps) = str) PS)) \<and>
     (\<forall>ps \<in> set PS. get_or [] (fst gs) (sprint_keys (map fst ps)) = map fst ps) \<and>
     keys (snd gs) = (\<lambda>ps. sprint_keys (map fst ps)) ` set PS"

lemma grouped_add:
  assumes "grouped PS gs"
  shows "grouped (PS @ [sorted_pairs \<rho> res]) (add_read \<rho> res gs)"
  using assms unfolding grouped_def add_read_def
  by (cases gs) (auto simp: Let_def sprint_keys_inject)

definition lf_typed :: "nat \<Rightarrow> lfOperation list \<Rightarrow> bool" where
  "lf_typed groupSize ops \<longleftrightarrow>
     list_all (\<lambda>op. is_return op \<longrightarrow> (case o_Data op of Response _ \<Rightarrow> True | _ \<Rightarrow> False)) ops \<and>
     list_all (\<lambda>res. length (lfresp_Keys res) = groupSize \<and> length (lfresp_Values res) = groupSize \<and> distinct (lfresp_Keys res))
       (read_results ops)"

lemma collect_groups_spec:
  assumes "lf_typed groupSize ops" "grouped PS gs"
  shows "\<exists>gs' PS'. collect_groups \<rho> i groupSize ops gs = Some (Inr gs') \<and> grouped (PS @ PS') gs' \<and>
    list_all2 pairs_for (read_results ops) PS'"
  using assms
proof (induction ops arbitrary: i gs PS)
  case Nil
  then show ?case by (auto simp: read_results_def)
next
  case (Cons op ops)
  have t: "lf_typed groupSize ops" using Cons.prems(1) by (simp add: lf_typed_def read_results_def)
  show ?case
  proof (cases "is_return op \<and> (\<exists>res. o_Data op = Response res \<and> is_read_result res)")
    case True
    then obtain res where res: "is_return op" "o_Data op = Response res" "is_read_result res" by blast
    then have "length (lfresp_Keys res) = groupSize" "length (lfresp_Values res) = groupSize"
      using Cons.prems(1) by (auto simp: lf_typed_def read_results_def)
    moreover from Cons.IH [OF t grouped_add [OF Cons.prems(2)], of "i + 1" "sub \<rho> i" res] obtain gs' PS' where
      "collect_groups \<rho> (i + 1) groupSize ops (add_read (sub \<rho> i) res gs) = Some (Inr gs')"
      "grouped (PS @ sorted_pairs (sub \<rho> i) res # PS') gs'" "list_all2 pairs_for (read_results ops) PS'" by auto
    moreover have "pairs_for res (sorted_pairs (sub \<rho> i) res)" by (auto simp: pairs_for_def)
    moreover have "read_results (op # ops) = res # read_results ops" using res by (simp add: read_results_def)
    ultimately show ?thesis using res
      by (intro exI [of _ gs'] exI [of _ "sorted_pairs (sub \<rho> i) res # PS'"]) simp
  next
    case False
    then have "read_results (op # ops) = read_results ops" by (auto simp: read_results_def split: OpData.splits)
    moreover have "collect_groups \<rho> i groupSize (op # ops) gs = collect_groups \<rho> (i + 1) groupSize ops gs"
      using False Cons.prems(1) by (auto simp: lf_typed_def split: OpData.splits)
    ultimately show ?thesis using Cons.IH [OF t Cons.prems(2), of "i + 1"] by simp
  qed
qed

section \<open>Exactness\<close>

lemma first_failure_True: "first_failure rs = Inr True \<longleftrightarrow> (\<forall>r \<in> set rs. r = Inr True)"
  by (induction rs) auto

lemma pairs_of_map: "pairs_of (map f xs) = map (\<lambda>(x, y). (f x, f y)) (pairs_of xs)"
  by (induction xs) auto

lemma pairs_of_filter: "set (pairs_of (filter P xs)) = {(x, y) \<in> set (pairs_of xs). P x \<and> P y}"
  by (induction xs) auto

lemma pairs_of_all:
  assumes "\<And>x. x \<in> set xs \<Longrightarrow> R x x" "\<And>x y. \<lbrakk>x \<in> set xs; y \<in> set xs; R x y\<rbrakk> \<Longrightarrow> R y x"
  shows "(\<forall>(x, y) \<in> set (pairs_of xs). R x y) \<longleftrightarrow> (\<forall>x \<in> set xs. \<forall>y \<in> set xs. R x y)"
  using assms
proof (induction xs)
  case (Cons a xs)
  have IH: "(\<forall>(x, y) \<in> set (pairs_of xs). R x y) \<longleftrightarrow> (\<forall>x \<in> set xs. \<forall>y \<in> set xs. R x y)"
    by (rule Cons.IH) (use Cons.prems in auto)
  have "(\<forall>(x, y) \<in> set (pairs_of (a # xs)). R x y) \<longleftrightarrow> (\<forall>y \<in> set xs. R a y) \<and> (\<forall>(x, y) \<in> set (pairs_of xs). R x y)"
    by (simp add: ball_Un)
  moreover have "R a a" by (rule Cons.prems(1)) simp
  moreover have "R y a" if "y \<in> set xs" "R a y" for y by (rule Cons.prems(2)) (use that in auto)
  ultimately show ?case unfolding IH by simp blast
qed simp

lemma pairs_for_distinct:
  assumes "pairs_for res ps" "distinct (lfresp_Keys res)" "length (lfresp_Keys res) = length (lfresp_Values res)"
  shows "distinct (map fst ps)" "sorted (map fst ps)" "set ps = set (zip (lfresp_Keys res) (lfresp_Values res))"
    "set (map fst ps) = set (lfresp_Keys res)"
proof -
  obtain \<rho> where ps: "ps = sorted_pairs \<rho> res" using assms(1) by (auto simp: pairs_for_def)
  have ms: "mset ps = mset (zip (lfresp_Keys res) (lfresp_Values res))" by (simp add: ps sorted_pairs_def)
  then have "mset (map fst ps) = mset (lfresp_Keys res)" using assms(3) by (metis map_fst_zip mset_map)
  then show "distinct (map fst ps)" "set (map fst ps) = set (lfresp_Keys res)"
    using assms(2) mset_eq_imp_distinct_iff mset_eq_setD by blast+
  show "sorted (map fst ps)" by (simp add: ps sorted_pairs_def)
  show "set ps = set (zip (lfresp_Keys res) (lfresp_Values res))" using ms mset_eq_setD by blast
qed

lemma read_view_map:
  assumes "pairs_for res ps" "distinct (lfresp_Keys res)" "length (lfresp_Keys res) = length (lfresp_Values res)"
  shows "read_view res k = (case map_of ps k of Some v \<Rightarrow> if ni_Valid v then Some (ni_Int64 v) else None | None \<Rightarrow> None)"
proof -
  have "map_of (zip (lfresp_Keys res) (lfresp_Values res)) = map_of ps"
    using assms(2,3) pairs_for_distinct(1,3) [OF assms] by (subst map_of_inject_set) auto
  then show ?thesis by (simp add: read_view_def)
qed

text \<open>Two reads of the same keys, as they are compared.\<close>

lemma zip_pairs:
  assumes "map fst ps = map fst qs" "distinct (map fst ps)"
  shows "(k, v1, v2) \<in> set (zip (map fst ps) (zip (map snd ps) (map snd qs))) \<longleftrightarrow> (k, v1) \<in> set ps \<and> (k, v2) \<in> set qs"
proof -
  have len: "length ps = length qs" using assms(1) by (metis length_map)
  have "(\<exists>i < length ps. fst (ps ! i) = k \<and> snd (ps ! i) = v1 \<and> snd (qs ! i) = v2) \<longleftrightarrow>
      (\<exists>i < length ps. ps ! i = (k, v1)) \<and> (\<exists>j < length qs. qs ! j = (k, v2))" (is "?l \<longleftrightarrow> ?r")
  proof
    assume ?l then show ?r using len assms(1) by (metis nth_map prod.collapse)
  next
    assume ?r
    then obtain i j where ij: "i < length ps" "ps ! i = (k, v1)" "j < length qs" "qs ! j = (k, v2)" by blast
    then have "map fst ps ! i = map fst ps ! j" using len assms(1) by (metis fst_conv nth_map)
    with ij(1,3) len assms(2) have "i = j" by (metis length_map nth_eq_iff_index_eq)
    with ij show ?l by auto
  qed
  moreover have "(k, v1, v2) \<in> set (zip (map fst ps) (zip (map snd ps) (map snd qs))) \<longleftrightarrow>
      (\<exists>i < length ps. fst (ps ! i) = k \<and> snd (ps ! i) = v1 \<and> snd (qs ! i) = v2)"
    unfolding in_set_zip using len by (safe; force)
  ultimately show ?thesis by (simp add: in_set_conv_nth)
qed

lemma view_le:
  fixes m n :: "'k \<Rightarrow> NullInt64 option"
  assumes "\<And>k. f k = (case m k of Some v \<Rightarrow> if ni_Valid v then Some (ni_Int64 v) else None | None \<Rightarrow> None)"
    and "\<And>k. g k = (case n k of Some v \<Rightarrow> if ni_Valid v then Some (ni_Int64 v) else None | None \<Rightarrow> None)"
    and "\<And>k. m k = None \<longleftrightarrow> n k = None"
  shows "f \<subseteq>\<^sub>m g \<longleftrightarrow> (\<forall>k v w. m k = Some v \<and> n k = Some w \<and> ni_Valid v \<longrightarrow> ni_Valid w \<and> v = w)"
proof -
  have eq: "v = w" if "ni_Int64 v = ni_Int64 w" "ni_Valid v" "ni_Valid w" for v w :: NullInt64
    using that by (intro NullInt64.equality) auto
  have "(f k \<noteq> None \<longrightarrow> f k = g k) \<longleftrightarrow> (\<forall>v w. m k = Some v \<and> n k = Some w \<and> ni_Valid v \<longrightarrow> ni_Valid w \<and> v = w)" for k
    using assms(3) [of k] unfolding assms(1,2) by (auto split: option.splits)
  then show ?thesis unfolding map_le_def dom_def by blast
qed

definition comparable :: "lfResponse \<Rightarrow> lfResponse \<Rightarrow> bool" where
  "comparable a b \<longleftrightarrow> read_view a \<subseteq>\<^sub>m read_view b \<or> read_view b \<subseteq>\<^sub>m read_view a"

lemma compare_comparable:
  assumes a: "pairs_for a ps" "distinct (lfresp_Keys a)" "length (lfresp_Keys a) = length (lfresp_Values a)"
    and b: "pairs_for b qs" "distinct (lfresp_Keys b)" "length (lfresp_Keys b) = length (lfresp_Values b)"
    and same: "map fst ps = map fst qs"
  shows "compare_reads (zip (map fst ps) (zip (map snd ps) (map snd qs))) 0 = Inr True \<longleftrightarrow> comparable a b"
proof -
  note z = zip_pairs [OF same pairs_for_distinct(1) [OF a]]
  have da: "(k, v) \<in> set ps \<longleftrightarrow> map_of ps k = Some v" and db: "(k, v) \<in> set qs \<longleftrightarrow> map_of qs k = Some v" for k v
    using pairs_for_distinct(1) [OF a] pairs_for_distinct(1) [OF b] by (simp_all add: map_of_eq_Some_iff)
  have dom: "map_of ps k = None \<longleftrightarrow> map_of qs k = None" for k
    using same unfolding map_of_eq_None_iff by (metis list.set_map)
  have z': "(\<forall>(k, v1, v2) \<in> set (zip (map fst ps) (zip (map snd ps) (map snd qs))). Q v1 v2) \<longleftrightarrow>
      (\<forall>k v w. map_of ps k = Some v \<and> map_of qs k = Some w \<longrightarrow> Q v w)" for Q
    using z da db by (auto simp: Ball_def)
  note va = read_view_map [OF a] and vb = read_view_map [OF b]
  have "comparable a b \<longleftrightarrow>
      (\<forall>k v w. map_of ps k = Some v \<and> map_of qs k = Some w \<and> ni_Valid v \<longrightarrow> ni_Valid w \<and> v = w) \<or>
      (\<forall>k w v. map_of qs k = Some w \<and> map_of ps k = Some v \<and> ni_Valid w \<longrightarrow> ni_Valid v \<and> w = v)"
    unfolding comparable_def view_le [OF va vb dom] view_le [OF vb va dom [symmetric]] by blast
  also have "\<dots> \<longleftrightarrow> compare_reads (zip (map fst ps) (zip (map snd ps) (map snd qs))) 0 = Inr True"
    unfolding compare_reads_True z' by blast
  finally show ?thesis by blast
qed

lemma group_keys:
  assumes "pairs_for a ps" "distinct (lfresp_Keys a)" "length (lfresp_Keys a) = length (lfresp_Values a)"
    and "pairs_for b qs" "distinct (lfresp_Keys b)" "length (lfresp_Keys b) = length (lfresp_Values b)"
  shows "map fst ps = map fst qs \<longleftrightarrow> set (lfresp_Keys a) = set (lfresp_Keys b)"
  using pairs_for_distinct [OF assms(1-3)] pairs_for_distinct [OF assms(4-6)]
  by (metis sorted_distinct_set_unique)

text \<open>The checks of all groups are the checks of all pairs of reads with the same keys.\<close>

lemma grouped_checks:
  assumes g: "grouped PS (keyset, groups)"
  shows "(\<forall>str \<in> keys groups. \<forall>(v1, v2) \<in> set (pairs_of (get_or [] groups str)). compare_reads (zip (get_or [] keyset str) (zip v1 v2)) 0 = Inr True) \<longleftrightarrow>
    (\<forall>(ps, qs) \<in> set (pairs_of PS). map fst ps = map fst qs \<longrightarrow>
       compare_reads (zip (map fst ps) (zip (map snd ps) (map snd qs))) 0 = Inr True)"
proof -
  let ?str = "\<lambda>ps. sprint_keys (map fst ps)"
  have ks: "keys groups = ?str ` set PS" and gr: "\<And>str. get_or [] groups str = map (map snd) (filter (\<lambda>ps. ?str ps = str) PS)"
    and kset: "\<And>ps. ps \<in> set PS \<Longrightarrow> get_or [] keyset (?str ps) = map fst ps"
    using g by (auto simp: grouped_def)
  have mem: "set (pairs_of PS) \<subseteq> set PS \<times> set PS" by (induction PS) auto
  have "(\<forall>(v1, v2) \<in> set (pairs_of (get_or [] groups str)). C v1 v2) \<longleftrightarrow>
      (\<forall>(ps, qs) \<in> set (pairs_of PS). ?str ps = str \<and> ?str qs = str \<longrightarrow> C (map snd ps) (map snd qs))" for str C
    unfolding gr pairs_of_map set_map pairs_of_filter by auto
  then have "?thesis \<longleftrightarrow> (\<forall>str \<in> keys groups. \<forall>(ps, qs) \<in> set (pairs_of PS). ?str ps = str \<and> ?str qs = str \<longrightarrow>
        compare_reads (zip (get_or [] keyset str) (zip (map snd ps) (map snd qs))) 0 = Inr True) =
     (\<forall>(ps, qs) \<in> set (pairs_of PS). map fst ps = map fst qs \<longrightarrow>
       compare_reads (zip (map fst ps) (zip (map snd ps) (map snd qs))) 0 = Inr True)" by simp
  also have "\<dots> \<longleftrightarrow> True"
    unfolding ks using kset mem by (fastforce simp: sprint_keys_inject)
  finally show ?thesis by simp
qed

lemma list_all2_partner:
  assumes "list_all2 R xs ys"
  shows "x \<in> set xs \<Longrightarrow> \<exists>y \<in> set ys. R x y" "y \<in> set ys \<Longrightarrow> \<exists>x \<in> set xs. R x y"
  using assms by (induction rule: list_all2_induct) auto

text \<open>C25. The long-fork checker finds exactly the long forks: for a history whose reads have the right size
  and ask for distinct keys it returns without a panic, and it returns \<open>true\<close> if and only if any two
  successful reads of the same keys are comparable, one having seen everything that the other saw
  with the same values. This holds for any iteration order of maps and any unstable sorting.\<close>

theorem long_fork_exact:
  assumes "lf_typed groupSize ops"
  shows "\<exists>r. ensureNoLongForks \<rho> ops groupSize = Some r \<and>
    (r = Inr True \<longleftrightarrow> (\<forall>a \<in> set (read_results ops). \<forall>b \<in> set (read_results ops).
       set (lfresp_Keys a) = set (lfresp_Keys b) \<longrightarrow> comparable a b))"
proof -
  have "grouped [] ([], [])" by (simp add: grouped_def)
  from collect_groups_spec [OF assms this, of "sub \<rho> 0" 0] obtain keyset groups PS where
    c: "collect_groups (sub \<rho> 0) 0 groupSize ops ([], []) = Some (Inr (keyset, groups))" "grouped PS (keyset, groups)"
      "list_all2 pairs_for (read_results ops) PS" by auto
  have sizes: "distinct (lfresp_Keys a)" "length (lfresp_Keys a) = length (lfresp_Values a)" if "a \<in> set (read_results ops)" for a
    using assms that by (auto simp: lf_typed_def list_all_iff)
  let ?Q = "\<lambda>ps qs. map fst ps = map fst qs \<longrightarrow> compare_reads (zip (map fst ps) (zip (map snd ps) (map snd qs))) 0 = Inr True"
  have t: "(set (lfresp_Keys a) = set (lfresp_Keys b) \<longrightarrow> comparable a b) \<longleftrightarrow> ?Q ps qs"
    if "pairs_for a ps" "pairs_for b qs" "a \<in> set (read_results ops)" "b \<in> set (read_results ops)" for a b ps qs
    using compare_comparable [OF that(1) sizes [OF that(3)] that(2) sizes [OF that(4)]]
      group_keys [OF that(1) sizes [OF that(3)] that(2) sizes [OF that(4)]] by blast
  have partner: "\<exists>a \<in> set (read_results ops). pairs_for a ps" if "ps \<in> set PS" for ps
    using list_all2_partner(2) [OF c(3) that] .
  have refl: "?Q ps ps" if "ps \<in> set PS" for ps
    using partner [OF that] t by (metis comparable_def map_le_refl)
  have sym: "?Q qs ps" if p: "ps \<in> set PS" and q: "qs \<in> set PS" and pq: "?Q ps qs" for ps qs
  proof -
    obtain a b where "a \<in> set (read_results ops)" "pairs_for a ps" "b \<in> set (read_results ops)" "pairs_for b qs"
      using partner [OF p] partner [OF q] by blast
    with t [of a ps b qs] t [of b qs a ps] pq show ?thesis unfolding comparable_def by blast
  qed
  have "first_failure (concat (map (\<lambda>str. map (\<lambda>(values1, values2).
              compare_reads (zip (get_or [] keyset str) (zip values1 values2)) 0) (pairs_of (get_or [] groups str)))
            (go_range (sub \<rho> 1) (map fst groups)))) = Inr True \<longleftrightarrow> (\<forall>(ps, qs) \<in> set (pairs_of PS). ?Q ps qs)"
    unfolding first_failure_True grouped_checks [OF c(2), symmetric] by (fastforce simp: Ball_def)
  also have "\<dots> \<longleftrightarrow> (\<forall>ps \<in> set PS. \<forall>qs \<in> set PS. ?Q ps qs)" by (rule pairs_of_all) (use refl sym in blast)+
  also have "\<dots> \<longleftrightarrow> (\<forall>a \<in> set (read_results ops). \<forall>b \<in> set (read_results ops).
       set (lfresp_Keys a) = set (lfresp_Keys b) \<longrightarrow> comparable a b)"
    (is "?l \<longleftrightarrow> ?r")
  proof
    assume l: ?l
    show ?r
    proof (intro ballI)
      fix a b assume ab: "a \<in> set (read_results ops)" "b \<in> set (read_results ops)"
      obtain ps qs where "ps \<in> set PS" "pairs_for a ps" "qs \<in> set PS" "pairs_for b qs"
        using list_all2_partner(1) [OF c(3)] ab by meson
      with t [OF _ _ ab] l show "set (lfresp_Keys a) = set (lfresp_Keys b) \<longrightarrow> comparable a b" by blast
    qed
  next
    assume r: ?r
    show ?l
    proof (intro ballI)
      fix ps qs assume "ps \<in> set PS" "qs \<in> set PS"
      then obtain a b where "a \<in> set (read_results ops)" "pairs_for a ps" "b \<in> set (read_results ops)" "pairs_for b qs"
        using partner by meson
      with t [of a ps b qs] r show "?Q ps qs" by blast
    qed
  qed
  finally show ?thesis using c(1) by (simp add: ensureNoLongForks_def)
qed

theorem long_fork_exact_witness:
  "let v = (\<lambda>x. \<lparr>ni_Int64 = x, ni_Valid = True\<rparr>); n = \<lparr>ni_Int64 = 0, ni_Valid = False\<rparr>;
       read = (\<lambda>p ks vs. \<lparr>o_Action = ReturnOperation, o_Proc = p,
         o_Data = Response \<lparr>lfresp_Ok = True, lfresp_Unknown = False, lfresp_Keys = ks, lfresp_Values = vs\<rparr>, o_Time = None\<rparr>);
       fork = [read 1 [3, 4] [v 1, n], read 2 [4, 3] [v 1, n]]
   in \<exists>r. ensureNoLongForks fifo fork 2 = Some r \<and> r \<noteq> Inr True"
proof -
  let ?v = "\<lambda>x. \<lparr>ni_Int64 = x, ni_Valid = True\<rparr>" let ?n = "\<lparr>ni_Int64 = 0, ni_Valid = False\<rparr>"
  let ?res = "\<lambda>ks vs. \<lparr>lfresp_Ok = True, lfresp_Unknown = False, lfresp_Keys = ks, lfresp_Values = vs\<rparr>"
  let ?read = "\<lambda>p ks vs. \<lparr>o_Action = ReturnOperation, o_Proc = p, o_Data = Response (?res ks vs), o_Time = None\<rparr>"
  let ?a = "?res [3, 4] [?v 1, ?n]" let ?b = "?res [4, 3] [?v 1, ?n]"
  let ?fork = "[?read 1 [3, 4] [?v 1, ?n], ?read 2 [4, 3] [?v 1, ?n]]"
  have t: "lf_typed 2 ?fork" by (simp add: lf_typed_def read_results_def is_read_result_def)
  have r: "read_results ?fork = [?a, ?b]" by (simp add: read_results_def is_read_result_def)
  have "\<not> comparable ?a ?b"
  proof -
    have "read_view ?a 3 = Some 1" "read_view ?a 4 = None" "read_view ?b 3 = None" "read_view ?b 4 = Some 1"
      by (simp_all add: read_view_def)
    then show ?thesis unfolding comparable_def map_le_def by (metis domI option.distinct(1))
  qed
  moreover have "set (lfresp_Keys ?a) = set (lfresp_Keys ?b)" by auto
  ultimately show ?thesis using long_fork_exact [OF t, of fifo] r unfolding Let_def by auto
qed

section \<open>Generated requests\<close>

definition request_writes :: "lfRequest \<Rightarrow> 64 word list" where
  "request_writes req = (if lfreq_Kind req = lfWrite then lfreq_Keys req else [])"

definition op_writes :: "lfOperation \<Rightarrow> 64 word list" where
  "op_writes op = (if is_call op then (case o_Data op of Request req \<Rightarrow> request_writes req | _ \<Rightarrow> []) else [])"

text \<open>A run of the generators of all clients: who asks next, and what is drawn.\<close>

fun generate :: "(range_order \<times> lf_random \<times> nat) list \<Rightarrow> lfState \<Rightarrow> (lfRequest list \<times> lfState) option" where
  "generate [] st = Some ([], st)"
| "generate ((\<rho>, r, node) # steps) st = do {
     (req, st') \<leftarrow> NextRequest \<rho> r node st;
     (reqs, st'') \<leftarrow> generate steps st';
     Some (req # reqs, st'') }"

lemma written_keys_spec:
  "written_keys ks m = Inr m' \<Longrightarrow> distinct ks \<and> set ks \<inter> keys m = {} \<and> keys m' = set ks \<union> keys m"
proof (induction ks arbitrary: m)
  case (Cons k ks)
  from Cons.prems have k: "k \<notin> keys m" "written_keys ks (AList.update k True m) = Inr m'" by (auto split: if_splits)
  from Cons.IH [OF k(2)] k(1) show ?case by auto
qed simp

lemma written_keys_total: "\<lbrakk>distinct ks; set ks \<inter> keys m = {}\<rbrakk> \<Longrightarrow> \<exists>m'. written_keys ks m = Inr m'"
  by (induction ks arbitrary: m) auto

lemma single_writes_spec:
  assumes "\<And>op. op \<in> set ops \<Longrightarrow> is_call op \<Longrightarrow> \<exists>req. o_Data op = Request req"
  shows "\<exists>r. single_writes ops m = Some r \<and>
    (r = Inr True \<longleftrightarrow> distinct (concat (map op_writes ops)) \<and> set (concat (map op_writes ops)) \<inter> keys m = {})"
  using assms
proof (induction ops arbitrary: m)
  case (Cons op ops)
  have typed: "\<And>op. op \<in> set ops \<Longrightarrow> is_call op \<Longrightarrow> \<exists>req. o_Data op = Request req" using Cons.prems by simp
  note IH = Cons.IH [OF typed]
  show ?case
  proof (cases "is_call op")
    case False
    with IH [of m] show ?thesis by (simp add: op_writes_def)
  next
    case True
    with Cons.prems [of op] obtain req where req: "o_Data op = Request req" by auto
    show ?thesis
    proof (cases "lfreq_Kind req = lfWrite")
      case False
      with True req IH [of m] show ?thesis by (simp add: op_writes_def request_writes_def)
    next
      case w: True
      let ?ks = "lfreq_Keys req"
      have ow: "op_writes op = ?ks" using True req w by (simp add: op_writes_def request_writes_def)
      show ?thesis
      proof (cases "written_keys ?ks m")
        case (Inl e)
        with written_keys_total [of ?ks m] have "\<not> (distinct ?ks \<and> set ?ks \<inter> keys m = {})" by auto
        with Inl True req w ow show ?thesis by auto
      next
        case (Inr m')
        from IH [of m'] obtain r where "single_writes ops m' = Some r" "r = Inr True \<longleftrightarrow> distinct (concat (map op_writes ops)) \<and>
          set (concat (map op_writes ops)) \<inter> keys m' = {}" by blast
        with written_keys_spec [OF Inr] Inr True req w ow show ?thesis by auto
      qed
    qed
  qed
qed simp

text \<open>A request writes nothing or the next key, which is then consumed.\<close>

lemma NextRequest_writes:
  assumes "NextRequest \<rho> r node st = Some (req, st')"
  shows "request_writes req = [] \<and> lf_nextKey st' = lf_nextKey st \<or>
    request_writes req = [lf_nextKey st] \<and> lf_nextKey st' = lf_nextKey st + 1"
  using assms
  by (auto simp: NextRequest_def Let_def request_writes_def lfRead_def lfWrite_def split: option.splits if_splits)

lemma generate_writes:
  assumes "generate steps st = Some (reqs, st')" "unat (lf_nextKey st) + length steps < 2 ^ 64"
  shows "distinct (concat (map request_writes reqs)) \<and>
    (\<forall>k \<in> set (concat (map request_writes reqs)). lf_nextKey st \<le> k)"
  using assms
proof (induction steps st arbitrary: reqs rule: generate.induct)
  case (2 \<rho> r node steps st)
  from "2.prems"(1) obtain req st1 reqs' where g: "NextRequest \<rho> r node st = Some (req, st1)"
    "generate steps st1 = Some (reqs', st')" "reqs = req # reqs'" by (auto split: Option.bind_splits)
  note n = NextRequest_writes [OF g(1)]
  have "unat (lf_nextKey st1) \<le> unat (lf_nextKey st) + 1" using n by (auto simp: unat_plus_if')
  then have len: "unat (lf_nextKey st1) + length steps < 2 ^ 64" using "2.prems"(2) by simp
  have suc: "lf_nextKey st < lf_nextKey st + 1" using "2.prems"(2) by (simp add: word_less_nat_alt unat_plus_if')
  from "2.IH" [OF g(1) refl g(2) len] n suc g(3) show ?case by force
qed simp

text \<open>C40. The histories of the test can pass its first check: the requests that the clients generate, in
  whatever order they ask and whatever they draw, never write a key twice, so
  \<open>ensureNoMultipleWritesToOneKey\<close> accepts every history with these calls as long as fewer than
  \<open>2 ^ 64\<close> requests are made, after which keys would repeat.\<close>

theorem generated_writes_unique:
  assumes "generate steps \<lparr>lf_nextKey = 0, lf_workers = []\<rparr> = Some (reqs, st')" "length steps < 2 ^ 64"
    and "map o_Data (filter is_call ops) = map Request reqs"
  shows "ensureNoMultipleWritesToOneKey ops = Some (Inr True)"
proof -
  have "concat (map op_writes ops) = concat (map (\<lambda>d. case d of Request req \<Rightarrow> request_writes req | _ \<Rightarrow> []) (map o_Data (filter is_call ops)))"
    by (induction ops) (auto simp: op_writes_def)
  then have w: "concat (map op_writes ops) = concat (map request_writes reqs)" unfolding assms(3) by (simp add: comp_def)
  have typed: "\<exists>req. o_Data op = Request req" if "op \<in> set ops" "is_call op" for op
  proof -
    have "o_Data op \<in> set (map o_Data (filter is_call ops))" using that by simp
    then show ?thesis unfolding assms(3) by auto
  qed
  obtain r where "single_writes ops [] = Some r" "r = Inr True \<longleftrightarrow> distinct (concat (map request_writes reqs))"
    using single_writes_spec [OF typed, of ops "[]"] unfolding w by auto
  with generate_writes [OF assms(1)] assms(2) show ?thesis by (simp add: ensureNoMultipleWritesToOneKey_def)
qed

theorem generated_writes_unique_witness:
  "let r = \<lparr>rnd_Int = 1, rnd_Intn = 0, rnd_Perm = [0..<10]\<rparr>;
       steps = [(fifo, r, 0), (fifo, r, 1), (fifo, r, 0), (fifo, r, 0)];
       reqs = fst (the (generate steps \<lparr>lf_nextKey = 0, lf_workers = []\<rparr>));
       ops = map (\<lambda>req. \<lparr>o_Action = InvokeOperation, o_Proc = 0, o_Data = Request req, o_Time = None\<rparr>) reqs
   in map lfreq_Kind reqs = [lfWrite, lfWrite, lfRead, lfWrite] \<and> ensureNoMultipleWritesToOneKey ops = Some (Inr True)"
proof -
  let ?r = "\<lparr>rnd_Int = 1, rnd_Intn = 0, rnd_Perm = [0..<10]\<rparr>"
  let ?steps = "[(fifo, ?r, 0), (fifo, ?r, 1), (fifo, ?r, 0), (fifo, ?r, 0)]"
  let ?g = "generate ?steps \<lparr>lf_nextKey = 0, lf_workers = []\<rparr>"
  let ?ops = "map (\<lambda>req. \<lparr>o_Action = InvokeOperation, o_Proc = 0, o_Data = Request req, o_Time = None\<rparr> :: lfOperation) (fst (the ?g))"
  have g: "?g = Some (fst (the ?g), snd (the ?g))" by code_simp
  have k: "map lfreq_Kind (fst (the ?g)) = [lfWrite, lfWrite, lfRead, lfWrite]" by code_simp
  have "map o_Data (filter is_call ?ops) = map Request (fst (the ?g))" by (simp add: filter_map comp_def)
  from generated_writes_unique [OF g _ this] k show ?thesis unfolding Let_def by simp
qed

end
