(* ===== verification/Sql_Logic.thy ===== *)
theory Sql_Logic
  imports History_Parser "HOL-Library.List_Lexorder" "HOL-Library.Char_ord"
begin

text \<open>
  The SQL logic test (\<open>testcase/sqllogictest/sqllogic.go\<close> and \<open>pkg/util\<close> there): a tester reads a script of
  statements and queries line by line, runs them, renders and sorts the rows of a query and compares
  them, or their hash, with what the script expects.

  The database, the context, floating-point conversions and MD5 are parameters. Text is ASCII, except in the
  values that \<open>renderString\<close> receives, which are bytes. \<^const>\<open>None\<close> is the end of the process by \<open>log.Fatalf\<close>.
\<close>

section \<open>Text\<close>

text \<open>\<open>strings.Fields\<close> and \<open>strings.ToTitle\<close> on ASCII.\<close>

function Fields :: "string \<Rightarrow> string list" where
  "Fields s =
     (let t = dropWhile is_space s
      in if t = [] then [] else takeWhile (Not \<circ> is_space) t # Fields (dropWhile (Not \<circ> is_space) t))"
  by pat_completeness auto
termination
proof (relation "measure length", goal_cases)
  case (2 s t)
  then obtain x u where t: "t = x # u" "\<not> is_space x" by (metis hd_dropWhile list.exhaust_sel)
  have "length (dropWhile (Not \<circ> is_space) t) \<le> length u" using t by (simp add: length_dropWhile_le)
  also have "\<dots> < length t" using t by simp
  also have "\<dots> \<le> length s" using 2(1) length_dropWhile_le [of is_space s] by simp
  finally show ?case by simp
qed simp

declare Fields.simps [simp del]

definition ToTitle :: "string \<Rightarrow> string" where
  "ToTitle = map (\<lambda>x. let n = of_char x :: nat in if 97 \<le> n \<and> n \<le> 122 then char_of (n - 32) else x)"

definition HasPrefix :: "string \<Rightarrow> string \<Rightarrow> bool" where
  "HasPrefix s w \<longleftrightarrow> take (length w) s = w"

text \<open>The lines of a \<open>bufio.Scanner\<close>: a final line may lack its break, a carriage return at the end is dropped, and
  a line that fills the buffer of 64 KB ends the scan with an error.\<close>

definition drop_cr :: "string \<Rightarrow> string" where
  "drop_cr s = (if s \<noteq> [] \<and> last s = CHR 0x0D then butlast s else s)"

definition logic_lines :: "string \<Rightarrow> string list \<times> bool" where
  "logic_lines content =
     (let ls = split_on (CHR 0x0A) content;
          ls = (if last ls = [] then butlast ls else ls);
          ok = takeWhile (\<lambda>l. length l < 65536) ls
      in (map drop_cr ok, length ok < length ls))"

text \<open>\<open>range\<close> over a string decodes UTF-8; a byte that starts no valid sequence is the rune \<open>0xFFFD\<close>.\<close>

definition is_cont :: "nat \<Rightarrow> bool" where
  "is_cont b \<longleftrightarrow> 0x80 \<le> b \<and> b \<le> 0xBF"

text \<open>The range of the second byte, and the number of bytes, by the first byte.\<close>

definition utf8_lead :: "nat \<Rightarrow> (nat \<times> nat \<times> nat) option" where
  "utf8_lead b =
     (if 0xC2 \<le> b \<and> b \<le> 0xDF then Some (2, 0x80, 0xBF)
      else if b = 0xE0 then Some (3, 0xA0, 0xBF)
      else if b = 0xED then Some (3, 0x80, 0x9F)
      else if 0xE1 \<le> b \<and> b \<le> 0xEF then Some (3, 0x80, 0xBF)
      else if b = 0xF0 then Some (4, 0x90, 0xBF)
      else if 0xF1 \<le> b \<and> b \<le> 0xF3 then Some (4, 0x80, 0xBF)
      else if b = 0xF4 then Some (4, 0x80, 0x8F)
      else None)"

definition decode_rune :: "nat list \<Rightarrow> nat \<times> nat" where
  "decode_rune bs =
     (let b = hd bs
      in if b < 0x80 then (b, 1)
         else (case utf8_lead b of
                 None \<Rightarrow> (0xFFFD, 1)
               | Some (n, lo, hi) \<Rightarrow>
                   let rest = take (n - 1) (tl bs)
                   in if length rest = n - 1 \<and> lo \<le> hd rest \<and> hd rest \<le> hi \<and> list_all is_cont (tl rest)
                      then (foldl (\<lambda>r c. r * 64 + c mod 64) (b mod 2 ^ (7 - n)) rest, n)
                      else (0xFFFD, 1)))"

lemma decode_rune_pos: "0 < snd (decode_rune bs)"
  by (auto simp: decode_rune_def Let_def utf8_lead_def split: option.splits)

function runes :: "nat list \<Rightarrow> nat list" where
  "runes bs = (if bs = [] then [] else fst (decode_rune bs) # runes (drop (snd (decode_rune bs)) bs))"
  by pat_completeness auto
termination
  by (relation "measure length") (auto simp: decode_rune_pos)

declare runes.simps [simp del]

section \<open>Values\<close>

text \<open>The operations on \<open>float64\<close>: \<open>strconv.ParseFloat\<close> without its error, the conversion to \<open>int64\<close>, and \<open>%.3f\<close>.\<close>

record 'f Floats =
  fl_Parse :: "string \<Rightarrow> 'f"
  fl_Int64 :: "'f \<Rightarrow> int"
  fl_Fixed3 :: "'f \<Rightarrow> string"

text \<open>What the driver hands to \<open>Scan\<close>.\<close>

datatype 'f Src = SrcNil | SrcBool bool | SrcInt int | SrcUint nat | SrcFloat 'f | SrcBytes string | SrcOther

definition intType :: char where "intType = CHR ''I''"
definition floatType :: char where "floatType = CHR ''R''"
definition stringType :: char where "stringType = CHR ''T''"

lemmas type_chars = intType_def floatType_def stringType_def

definition renderString :: "string \<Rightarrow> string" where
  "renderString str = map (\<lambda>v. if v < 32 \<or> v = 126 then CHR ''@'' else char_of (v mod 256)) (runes (map of_char str))"

definition handleFloat :: "'f Floats \<Rightarrow> char \<Rightarrow> 'f \<Rightarrow> string" where
  "handleFloat F tp f = (if tp = intType then Itoa (fl_Int64 F f) else fl_Fixed3 F f)"

text \<open>The string of a type that is none of the three stays what it was.\<close>

definition handleString :: "'f Floats \<Rightarrow> char \<Rightarrow> string \<Rightarrow> string \<Rightarrow> string" where
  "handleString F tp v str =
     (if tp = stringType then (if length str = 0 then ''(empty)'' else renderString str)
      else if tp = intType then Itoa (fl_Int64 F (fl_Parse F str))
      else if tp = floatType then fl_Fixed3 F (fl_Parse F str)
      else v)"

text \<open>The result is the new text of the value; a source of another type is an error.\<close>

fun value_Scan :: "'f Floats \<Rightarrow> char \<Rightarrow> string \<Rightarrow> 'f Src \<Rightarrow> string option" where
  "value_Scan F tp v SrcNil = Some ''NULL''"
| "value_Scan F tp v (SrcBool b) = Some (if b then ''1'' else ''0'')"
| "value_Scan F tp v (SrcInt i) = Some (Itoa i)"
| "value_Scan F tp v (SrcUint n) = Some (utoa n)"
| "value_Scan F tp v (SrcFloat f) = Some (handleFloat F tp f)"
| "value_Scan F tp v (SrcBytes s) = Some (handleString F tp v s)"
| "value_Scan F tp v SrcOther = None"

section \<open>The database\<close>

text \<open>An error of the server has a number.\<close>

datatype SqlErr = MySQLError nat string | OtherErr string

text \<open>The rows of a query: the number of columns, or the error of \<open>Columns\<close>; the rows, and the error of \<open>Err\<close>.\<close>

record 'f Rows =
  rw_Columns :: "SqlErr + nat"
  rw_Rows :: "'f Src list list"
  rw_Err :: "SqlErr option"

text \<open>The last fields are what the tester uses besides the database: \<open>lg_Done\<close> tells whether the context is done,
  \<open>lg_md5\<close> is the sum in hexadecimal digits, and \<open>lg_ignoreErrs\<close> holds the numbers that the parser package
  gives to \<open>ErrUnknown\<close>, \<open>ErrDupEntry\<close>, \<open>ErrTableExists\<close> and \<open>ErrIndexRebuild\<close>.\<close>

record ('d, 'f) LogicDb =
  lg_Exec :: "string \<Rightarrow> 'd \<Rightarrow> SqlErr option \<times> 'd"
  lg_Query :: "string \<Rightarrow> 'd \<Rightarrow> (SqlErr + 'f Rows) \<times> 'd"
  lg_QueryString :: "string \<Rightarrow> 'd \<Rightarrow> (SqlErr + string) \<times> 'd"
  lg_QueryInt :: "string \<Rightarrow> 'd \<Rightarrow> (SqlErr + int) \<times> 'd"
  lg_Done :: "'d \<Rightarrow> bool"
  lg_Floats :: "'f Floats"
  lg_md5 :: "string \<Rightarrow> string"
  lg_ignoreErrs :: "nat list"

text \<open>\<open>util.RunWithRetry\<close> with a count; \<open>err\<close> is the error of the attempt before. A context that is done returns nil.\<close>

fun RunWithRetry :: "('d, 'f) LogicDb \<Rightarrow> nat \<Rightarrow> ('d \<Rightarrow> SqlErr option \<times> 'd) \<Rightarrow> SqlErr option \<Rightarrow> 'd \<Rightarrow> SqlErr option \<times> 'd" where
  "RunWithRetry D 0 f err d = (err, d)"
| "RunWithRetry D (Suc n) f err d =
     (case f d of
        (None, d) \<Rightarrow> (None, d)
      | (Some e, d) \<Rightarrow> if lg_Done D d then (None, d) else RunWithRetry D n f (Some e) d)"

definition IgnoreErrors :: "SqlErr \<Rightarrow> nat list \<Rightarrow> bool" where
  "IgnoreErrors err ignoreErrs = (case err of MySQLError n _ \<Rightarrow> n \<in> set ignoreErrs | OtherErr _ \<Rightarrow> False)"

definition dbTryNumber :: nat where "dbTryNumber = 100"

text \<open>\<open>prepare\<close>: dropping, creating and using the database, each with retries.\<close>

fun exec_all :: "('d, 'f) LogicDb \<Rightarrow> string list \<Rightarrow> 'd \<Rightarrow> 'd option" where
  "exec_all D [] d = Some d"
| "exec_all D (stmt # stmts) d =
     (case RunWithRetry D dbTryNumber (lg_Exec D stmt) None d of (Some _, _) \<Rightarrow> None | (None, d) \<Rightarrow> exec_all D stmts d)"

definition prepare :: "('d, 'f) LogicDb \<Rightarrow> nat \<Rightarrow> 'd \<Rightarrow> 'd option" where
  "prepare D runid d = exec_all D
     [''drop database if exists sqllogic_test_'' @ utoa runid @ '';'', ''create database sqllogic_test_'' @ utoa runid @ '';'',
      ''USE sqllogic_test_'' @ utoa runid @ '';''] d"

text \<open>The wait for a replica: the error of the last attempt, if none succeeded.\<close>

definition replica_attempt :: "('d, 'f) LogicDb \<Rightarrow> string \<Rightarrow> string \<Rightarrow> 'd \<Rightarrow> SqlErr option \<times> 'd" where
  "replica_attempt D dbName tableName d =
     (case lg_QueryString D (''select INSTANCE FROM information_schema.cluster_info where type='' @ [CHR 0x27] @ ''tidb'' @ [CHR 0x27]) d of
        (Inl e, d) \<Rightarrow> (Some e, d)
      | (Inr _, d) \<Rightarrow>
          (case lg_QueryInt D (''select AVAILABLE from information_schema.tiflash_replica where TABLE_SCHEMA='' @ [CHR 0x27] @ dbName @ [CHR 0x27]
                  @ '' and TABLE_NAME='' @ [CHR 0x27] @ tableName @ [CHR 0x27]) d of
             (Inl e, d) \<Rightarrow> (Some e, d)
           | (Inr available, d) \<Rightarrow>
               if available = 0 then (Some (OtherErr ''TiFlash replica not available''), d)
               else if available = -1 then (Some (OtherErr ''query TiFlash replica status failed.''), d)
               else (None, d)))"

definition SetAndWaitTiFlashReplica ::
  "('d, 'f) LogicDb \<Rightarrow> string \<Rightarrow> string \<Rightarrow> int \<Rightarrow> nat \<Rightarrow> 'd \<Rightarrow> (SqlErr option \<times> 'd) option" where
  "SetAndWaitTiFlashReplica D dbName tableName replicaCount retryCount d =
     (case lg_Exec D (''alter table '' @ dbName @ ''.'' @ tableName @ '' set tiflash replica '' @ Itoa replicaCount) d of
        (Some _, _) \<Rightarrow> None
      | (None, d) \<Rightarrow> Some (RunWithRetry D retryCount (replica_attempt D dbName tableName) None d))"


section \<open>Statements\<close>

type_synonym Pos = "string \<times> nat"

datatype LogicError =
    OpenErr string | InvalidStatement Pos string | InvalidTypes Pos string | InvalidSortMode Pos string | InvalidResult Pos string
  | InvalidCondition string string | ScannerErr
  | ExpectedErr Pos | ExpectedOk Pos SqlErr | ReplicaErr string SqlErr
  | QueryErr Pos SqlErr | ColumnsErr Pos SqlErr | ScanErr Pos | RowsErr Pos SqlErr
  | WrongCount Pos nat nat | WrongHash Pos string string | WrongResults Pos "string list" "string list" | WrongLabel Pos string string

record statement =
  st_pos :: Pos
  st_sql :: string
  st_expectErr :: bool

text \<open>The patterns: \<open>^\s*CREATE\s+(UNIQUE\s+)?INDEX\<close> and \<open>^CREATE TABLE (\w+)\(.+\<close>, matched at the start of the text.\<close>

definition match_start :: "Pat \<Rightarrow> string \<Rightarrow> Submatches option" where
  "match_start p s = (case run p s (\<lambda>_. None) of [] \<Rightarrow> None | (_, c) # _ \<Rightarrow> Some c)"

definition createIndexRE :: Pat where
  "createIndexRE = Cat (Many True (Cls is_blank)) (Lit ''CREATE'' (Cat (Some_of (Cls is_blank))
     (Alt (Grp 1 (Lit ''UNIQUE'' (Cat (Some_of (Cls is_blank)) (Lit ''INDE'' (Chr (CHR ''X'')))))) (Lit ''INDE'' (Chr (CHR ''X''))))))"

definition createTableRE :: Pat where
  "createTableRE = Lit ''CREATE TABLE '' (Cat (Grp 1 (Some_of (Cls is_word))) (Cat (Chr (CHR ''('')) (Some_of (Cls is_dot))))"

definition execStatement :: "('d, 'f) LogicDb \<Rightarrow> statement \<Rightarrow> string \<Rightarrow> int \<Rightarrow> 'd \<Rightarrow> (LogicError option \<times> 'd) option" where
  "execStatement D stmt dbName replicas d =
     (if 0 < replicas \<and> match_start createIndexRE (ToTitle (st_sql stmt)) \<noteq> None then Some (None, d)
      else (case RunWithRetry D dbTryNumber (lg_Exec D (st_sql stmt)) None d of (err, d) \<Rightarrow>
        let wait = (if 0 < replicas
              then (case match_start createTableRE (map (\<lambda>x. if x = CHR 0x0A then CHR '' '' else x) (st_sql stmt)) of
                      None \<Rightarrow> Some (None, d)
                    | Some m \<Rightarrow> map_option (\<lambda>(e, d). (map_option (ReplicaErr (submatch m 1)) e, d))
                        (SetAndWaitTiFlashReplica D dbName (submatch m 1) replicas (3 * dbTryNumber) d))
              else Some (None, d))
        in if st_expectErr stmt
           then (if err = None then Some (Some (ExpectedErr (st_pos stmt)), d) else wait)
           else (case err of
                   None \<Rightarrow> wait
                 | Some e \<Rightarrow> if IgnoreErrors e (lg_ignoreErrs D) then Some (None, d) else Some (Some (ExpectedOk (st_pos stmt) e), d))))"

section \<open>Queries\<close>

record query =
  q_pos :: Pos
  q_sql :: string
  q_colTypes :: string
  q_sortMode :: string
  q_label :: string
  q_expectedValues :: int
  q_expectedHash :: string
  q_expectedResults :: "string list"

fun query_retry :: "('d, 'f) LogicDb \<Rightarrow> nat \<Rightarrow> string \<Rightarrow> SqlErr \<Rightarrow> 'd \<Rightarrow> (SqlErr + 'f Rows) \<times> 'd" where
  "query_retry D 0 sql err d = (Inl err, d)"
| "query_retry D (Suc n) sql err d = (case lg_Query D sql d of (Inr rows, d) \<Rightarrow> (Inr rows, d) | (Inl e, d) \<Rightarrow> query_retry D n sql e d)"

text \<open>The loop over the rows: each cell is scanned into the value of its column.\<close>

fun scan_row :: "'f Floats \<Rightarrow> string \<Rightarrow> string list \<Rightarrow> 'f Src list \<Rightarrow> string list option" where
  "scan_row F (tp # tps) (v # vs) (c # cs) = do { v \<leftarrow> value_Scan F tp v c; vs \<leftarrow> scan_row F tps vs cs; Some (v # vs) }"
| "scan_row F _ _ _ = Some []"

fun scan_rows :: "'f Floats \<Rightarrow> string \<Rightarrow> string list \<Rightarrow> 'f Src list list \<Rightarrow> string list \<Rightarrow> string list option" where
  "scan_rows F tps vals [] results = Some results"
| "scan_rows F tps vals (row # rows) results = do {
     vals \<leftarrow> scan_row F tps vals row;
     scan_rows F tps vals rows (results @ vals) }"

text \<open>\<open>rowSlice.Less\<close>, on rows of one length; \<open>sort.Sort\<close> yields a sorted permutation, and rows that compare equal are equal.\<close>

fun row_Less :: "string list \<Rightarrow> string list \<Rightarrow> bool" where
  "row_Less [] rj = False"
| "row_Less (x # ri) (y # rj) = (if x < y then True else if y < x then False else row_Less ri rj)"
| "row_Less (x # ri) [] = False"

definition chop_rows :: "nat \<Rightarrow> string list \<Rightarrow> string list list" where
  "chop_rows n results = map (\<lambda>i. take n (drop (i * n) results)) [0..<length results div n]"

definition sort_results :: "query \<Rightarrow> string list \<Rightarrow> string list" where
  "sort_results q results =
     (if q_sortMode q = ''rowsort'' then concat (sort (chop_rows (length (q_colTypes q)) results))
      else if q_sortMode q = ''valuesort'' then sort results
      else results)"

definition hash_results :: "('d, 'f) LogicDb \<Rightarrow> string list \<Rightarrow> string" where
  "hash_results D results = lg_md5 D (concat (map (\<lambda>v. v @ [CHR 0x0A]) results))"

text \<open>The comparison of the sorted results with the expected ones, and the label.\<close>

type_synonym labels = "(string, string) gomap"

definition check_results :: "('d, 'f) LogicDb \<Rightarrow> query \<Rightarrow> string list \<Rightarrow> labels \<Rightarrow> LogicError option \<times> labels" where
  "check_results D q results lbl =
     (let hash = hash_results D results;
          n = length results;
          labelled = (if q_label q \<noteq> ''''
            then (case map_of lbl (q_label q) of
                    Some lastHash \<Rightarrow> (if hash \<noteq> lastHash then Some (WrongLabel (q_pos q) lastHash hash) else None, lbl)
                  | None \<Rightarrow> (None, AList.update (q_label q) hash lbl))
            else (None, lbl))
      in if q_expectedHash q \<noteq> ''''
         then (if q_expectedValues q \<noteq> int n then (Some (WrongCount (q_pos q) (nat (q_expectedValues q)) n), lbl)
               else if q_expectedHash q \<noteq> hash then (Some (WrongHash (q_pos q) (q_expectedHash q) hash), lbl)
               else labelled)
         else if Join (q_expectedResults q) '' '' \<noteq> Join results '' '' then (Some (WrongResults (q_pos q) (q_expectedResults q) results), lbl)
         else labelled)"

text \<open>More columns than types index the type string out of range; the panic is recovered, and the result of the
  function is then its zero value: no error.\<close>

definition execQuery :: "('d, 'f) LogicDb \<Rightarrow> query \<Rightarrow> labels \<Rightarrow> 'd \<Rightarrow> LogicError option \<times> labels \<times> 'd" where
  "execQuery D q lbl d =
     (case query_retry D dbTryNumber (q_sql q) (OtherErr '''') d of
        (Inl e, d) \<Rightarrow> (Some (QueryErr (q_pos q) e), lbl, d)
      | (Inr rows, d) \<Rightarrow>
          (case rw_Columns rows of
             Inl e \<Rightarrow> (Some (ColumnsErr (q_pos q) e), lbl, d)
           | Inr cols \<Rightarrow>
               if length (q_colTypes q) < cols then (None, lbl, d)
               else (case scan_rows (lg_Floats D) (take cols (q_colTypes q)) (replicate cols '''') (rw_Rows rows) [] of
                       None \<Rightarrow> (Some (ScanErr (q_pos q)), lbl, d)
                     | Some results \<Rightarrow>
                         (case rw_Err rows of
                            Some e \<Rightarrow> (Some (RowsErr (q_pos q) e), lbl, d)
                          | None \<Rightarrow> (case check_results D q (sort_results q results) lbl of (e, lbl) \<Rightarrow> (e, lbl, d))))))"

section \<open>The script\<close>

text \<open>\<open>^(\d+)\s+values?\s+hashing\s+to\s+([0-9A-Fa-f]+)$\<close>: the first way to match that leaves nothing.\<close>

definition is_hex :: "char \<Rightarrow> bool" where
  "is_hex x \<longleftrightarrow> is_digit x \<or> 65 \<le> (of_char x :: nat) \<and> (of_char x :: nat) \<le> 70 \<or> 97 \<le> (of_char x :: nat) \<and> (of_char x :: nat) \<le> 102"

definition resultHashRE :: Pat where
  "resultHashRE = (let ws = Some_of (Cls is_blank); hashing = Cat ws (Lit ''hashing'' (Cat ws (Lit ''to'' (Cat ws (Grp 2 (Some_of (Cls is_hex)))))))
     in Cat (Grp 1 (Some_of (Cls is_digit))) (Cat ws (Lit ''value'' (Alt (Cat (Chr (CHR ''s'')) hashing) hashing))))"

definition match_full :: "Pat \<Rightarrow> string \<Rightarrow> Submatches option" where
  "match_full p s = map_option snd (List.find (\<lambda>(t, _). t = []) (run p s (\<lambda>_. None)))"

text \<open>The lines before the first that satisfies \<open>P\<close>, and those after it; the line itself is consumed.\<close>

definition until :: "(string \<Rightarrow> bool) \<Rightarrow> string list \<Rightarrow> string list \<times> string list" where
  "until P ls = (takeWhile (Not \<circ> P) ls, tl (dropWhile (Not \<circ> P) ls))"

text \<open>Every line is followed by a break in the buffer.\<close>

definition buffer :: "string list \<Rightarrow> string" where
  "buffer ls = TrimSpace (concat (map (\<lambda>l. l @ [CHR 0x0A]) ls))"

datatype Message = InfoMsg | ErrorMsg LogicError | FatalMsg LogicError

text \<open>The header of a query, and its expected results; \<^const>\<open>Inl\<close> is an error.\<close>

definition parse_header :: "Pos \<Rightarrow> string \<Rightarrow> string list \<Rightarrow> LogicError + query" where
  "parse_header pos line fs =
     (let q = \<lparr>q_pos = pos, q_sql = '''', q_colTypes = fs ! 1, q_sortMode = ''nosort'', q_label = '''', q_expectedValues = 0,
               q_expectedHash = '''', q_expectedResults = []\<rparr>
      in if \<not> list_all (\<lambda>v. v = intType \<or> v = floatType \<or> v = stringType) (fs ! 1) then Inl (InvalidTypes pos line)
         else if 3 \<le> length fs \<and> fs ! 2 \<notin> {''nosort'', ''rowsort'', ''valuesort''} then Inl (InvalidSortMode pos line)
         else Inr (q\<lparr>q_sortMode := (if 3 \<le> length fs then fs ! 2 else ''nosort''),
                     q_label := (if length fs = 4 then fs ! 3 else '''')\<rparr>))"

definition parse_expected :: "query \<Rightarrow> string list \<Rightarrow> (LogicError + query) \<times> string list" where
  "parse_expected q ls =
     (case ls of
        [] \<Rightarrow> (Inr q, [])
      | l # ls' \<Rightarrow>
          (case match_full resultHashRE l of
             Some m \<Rightarrow>
               (case Atoi (submatch m 1) of
                  Inl _ \<Rightarrow> (Inl (InvalidResult (q_pos q) l), ls')
                | Inr n \<Rightarrow> (Inr (q\<lparr>q_expectedValues := n, q_expectedHash := submatch m 2\<rparr>), ls'))
           | None \<Rightarrow>
               (let (body, rest) = until (\<lambda>l. Fields l = []) ls; results = concat (map Fields body)
                in (Inr (q\<lparr>q_expectedResults := results, q_expectedValues := int (length results)\<rparr>), rest))))"

lemma until_length: "length (snd (until P ls)) \<le> length ls"
  using length_dropWhile_le [of "Not \<circ> P" ls] by (simp add: until_def)

lemma parse_expected_length: "length (snd (parse_expected q ls)) \<le> length ls"
  using until_length [of "\<lambda>l. Fields l = []" ls]
  by (auto simp: parse_expected_def Let_def case_prod_beta split: list.splits option.splits sum.splits)


definition run_query :: "('d, 'f) LogicDb \<Rightarrow> query \<Rightarrow> int \<Rightarrow> bool \<Rightarrow> labels \<Rightarrow> 'd \<Rightarrow> Message list \<times> bool \<times> labels \<times> 'd" where
  "run_query D q replicas skipError lbl d =
     (let engines = (\<lambda>e. if 0 < replicas then lg_Exec D (''set @@session.tidb_isolation_read_engines='' @ [CHR 0x27] @ e @ [CHR 0x27])
                        else (\<lambda>d. (None, d)))
      in case engines ''tiflash'' d of
           (Some _, d) \<Rightarrow> ([], False, lbl, d)
         | (None, d) \<Rightarrow>
             (case execQuery D q lbl d of (e, lbl, d) \<Rightarrow>
                (case e of
                   Some err \<Rightarrow>
                     if \<not> skipError then ([FatalMsg err], False, lbl, d)
                     else (case engines ''tikv,tiflash'' d of
                             (Some _, d) \<Rightarrow> ([ErrorMsg err], False, lbl, d)
                           | (None, d) \<Rightarrow> ([ErrorMsg err, InfoMsg], True, lbl, d))
                 | None \<Rightarrow>
                     (case engines ''tikv,tiflash'' d of
                        (Some _, d) \<Rightarrow> ([], False, lbl, d)
                      | (None, d) \<Rightarrow> ([InfoMsg], True, lbl, d)))))"

text \<open>What one iteration over the lines comes to: the process ends, \<open>run\<close> returns, or it goes on with the lines that
  are left. The loop also ends at \<open>halt\<close>.\<close>

datatype 'd Progress = Exits | Returns "Message list" labels 'd | Goes_on "string list" "Message list" labels 'd

record ('d, 'f) Tester =
  tt_db :: "('d, 'f) LogicDb"
  tt_path :: string
  tt_runid :: nat
  tt_replicas :: int
  tt_skipError :: bool

definition statement_step :: "('d, 'f) Tester \<Rightarrow> Pos \<Rightarrow> string \<Rightarrow> string list \<Rightarrow> string list \<Rightarrow> labels \<Rightarrow> 'd \<Rightarrow> 'd Progress" where
  "statement_step T pos l fs ls lbl d =
     (if length fs \<noteq> 2 then Returns [FatalMsg (InvalidStatement pos l)] lbl d
      else (let (body, rest) = until (\<lambda>l. l = '''') ls
            in case execStatement (tt_db T) \<lparr>st_pos = pos, st_sql = buffer body, st_expectErr = (fs ! 1 = ''error'')\<rparr>
                      (''sqllogic_test_'' @ utoa (tt_runid T)) (tt_replicas T) d of
                 None \<Rightarrow> Exits
               | Some (Some err, d) \<Rightarrow> Returns [FatalMsg err] lbl d
               | Some (None, d) \<Rightarrow> Goes_on rest [InfoMsg] lbl d))"

definition query_step :: "('d, 'f) Tester \<Rightarrow> Pos \<Rightarrow> string \<Rightarrow> string list \<Rightarrow> string list \<Rightarrow> labels \<Rightarrow> 'd \<Rightarrow> 'd Progress" where
  "query_step T pos l fs ls lbl d =
     (if length fs < 2 then Exits
      else (case parse_header pos l fs of
              Inl err \<Rightarrow> Returns [FatalMsg err] lbl d
            | Inr q \<Rightarrow>
                (let (body, rest) = until (\<lambda>l. l = ''----'') ls
                 in case parse_expected (q\<lparr>q_sql := buffer body\<rparr>) rest of
                      (Inl err, _) \<Rightarrow> Returns [FatalMsg err] lbl d
                    | (Inr q, rest) \<Rightarrow>
                        (case run_query (tt_db T) q (tt_replicas T) (tt_skipError T) lbl d of (ms, go, lbl, d) \<Rightarrow>
                           if go then Goes_on rest ms lbl d else Returns ms lbl d))))"

definition condition_step :: "string \<Rightarrow> string list \<Rightarrow> string list \<Rightarrow> labels \<Rightarrow> 'd \<Rightarrow> 'd Progress" where
  "condition_step l fs ls lbl d =
     (if length fs < 2 then Returns [FatalMsg (InvalidCondition (hd fs) l)] lbl d
      else if hd fs = ''onlyif'' \<and> fs ! 1 \<noteq> ''mysql'' \<or> hd fs = ''skipif'' \<and> fs ! 1 = ''mysql''
      then Goes_on (snd (until (\<lambda>l. l = '''') ls)) [InfoMsg] lbl d
      else Goes_on ls [InfoMsg] lbl d)"

definition tester_step :: "('d, 'f) Tester \<Rightarrow> Pos \<Rightarrow> string \<Rightarrow> string list \<Rightarrow> labels \<Rightarrow> 'd \<Rightarrow> 'd Progress" where
  "tester_step T pos l ls lbl d =
     (let fs = Fields l
      in if fs = [] \<or> HasPrefix (hd fs) ''#'' then Goes_on ls [] lbl d
         else if hd fs = ''statement'' then statement_step T pos l fs ls lbl d
         else if hd fs = ''query'' then query_step T pos l fs ls lbl d
         else if hd fs = ''halt'' then Returns [] lbl d
         else if hd fs = ''onlyif'' \<or> hd fs = ''skipif'' then condition_step l fs ls lbl d
         else Goes_on ls [InfoMsg] lbl d)"

lemma statement_step_length: "statement_step T pos l fs ls lbl d = Goes_on rest ms lbl' d' \<Longrightarrow> length rest \<le> length ls"
  using until_length [of "\<lambda>l. l = []" ls]
  by (auto simp: statement_step_def Let_def case_prod_beta split: if_splits option.splits)

lemma query_step_length:
  assumes "query_step T pos l fs ls lbl d = Goes_on rest ms lbl' d'" shows "length rest \<le> length ls"
proof -
  obtain q where q: "parse_header pos l fs = Inr q" using assms by (auto simp: query_step_def split: if_splits sum.splits)
  obtain body rest1 where u: "until (\<lambda>l. l = ''----'') ls = (body, rest1)" by fastforce
  obtain r rest2 where e: "parse_expected (q\<lparr>q_sql := buffer body\<rparr>) rest1 = (r, rest2)" by fastforce
  have "rest = rest2" using assms q u e by (auto simp: query_step_def case_prod_beta split: if_splits sum.splits)
  then show ?thesis
    using parse_expected_length [of "q\<lparr>q_sql := buffer body\<rparr>" rest1] until_length [of "\<lambda>l. l = ''----''" ls] u e by simp
qed

lemma tester_step_length: "tester_step T pos l ls lbl d = Goes_on rest ms lbl' d' \<Longrightarrow> length rest \<le> length ls"
  by (auto simp: tester_step_def condition_step_def Let_def until_length dest: statement_step_length query_step_length split: if_splits)

text \<open>\<open>N\<close> is the number of all lines, from which the position of a record follows; \<open>tooLong\<close> tells whether the
  scanner fails after the last of them.\<close>

function tester_loop :: "('d, 'f) Tester \<Rightarrow> nat \<Rightarrow> bool \<Rightarrow> string list \<Rightarrow> labels \<Rightarrow> 'd \<Rightarrow> (Message list \<times> labels \<times> 'd) option" where
  "tester_loop T N tooLong [] lbl d = Some (if tooLong then [FatalMsg ScannerErr] else [], lbl, d)"
| "tester_loop T N tooLong (l # ls) lbl d =
     (if lg_Done (tt_db T) d then Some ([], lbl, d)
      else (case tester_step T (tt_path T, N - length ls) l ls lbl d of
              Exits \<Rightarrow> None
            | Returns ms lbl d \<Rightarrow> Some (ms, lbl, d)
            | Goes_on rest ms lbl d \<Rightarrow> map_option (\<lambda>(ms', r). (ms @ ms', r)) (tester_loop T N tooLong rest lbl d)))"
  by pat_completeness auto
termination
  by (relation "measure (\<lambda>(T, N, tooLong, ls, lbl, d). length ls)") (auto dest!: tester_step_length)

text \<open>The file is \<^const>\<open>None\<close> when it cannot be opened.\<close>

definition tester_run :: "('d, 'f) Tester \<Rightarrow> string option \<Rightarrow> 'd \<Rightarrow> (Message list \<times> labels \<times> 'd) option" where
  "tester_run T file d =
     (case file of
        None \<Rightarrow> Some ([FatalMsg (OpenErr (tt_path T))], [], d)
      | Some content \<Rightarrow> do {
          d \<leftarrow> prepare (tt_db T) (tt_runid T) d;
          let (ls, tooLong) = logic_lines content;
          tester_loop T (length ls) tooLong ls [] d })"

text \<open>\<open>doResult\<close> on the messages it receives: the number of cases and of errors. A fatal message ends the process.\<close>

fun doResult :: "Message list \<Rightarrow> nat \<Rightarrow> nat \<Rightarrow> LogicError list \<Rightarrow> (nat \<times> nat \<times> LogicError list) option" where
  "doResult [] totalCount errCount errMsg = Some (totalCount, errCount, errMsg)"
| "doResult (InfoMsg # ms) totalCount errCount errMsg = doResult ms (totalCount + 1) errCount errMsg"
| "doResult (ErrorMsg e # ms) totalCount errCount errMsg = doResult ms totalCount (errCount + 1) (errMsg @ [e])"
| "doResult (FatalMsg e # ms) totalCount errCount errMsg = None"


section \<open>Rows in order\<close>

text \<open>On rows of one length, \<open>Less\<close> is the lexicographic order.\<close>

lemma row_Less_lexorder: "length ri = length rj \<Longrightarrow> row_Less ri rj \<longleftrightarrow> ri < rj"
  by (induction ri rj rule: row_Less.induct) auto

definition cell_text :: "'f Floats \<Rightarrow> char \<Rightarrow> 'f Src \<Rightarrow> string" where
  "cell_text F tp c = (case value_Scan F tp '''' c of Some v \<Rightarrow> v | None \<Rightarrow> '''')"

definition render_rows :: "'f Floats \<Rightarrow> string \<Rightarrow> 'f Src list list \<Rightarrow> string list list" where
  "render_rows F tps rows = map (map2 (cell_text F) tps) rows"

definition arrange :: "string \<Rightarrow> string list list \<Rightarrow> string list" where
  "arrange mode rows =
     (if mode = ''rowsort'' then concat (sort rows) else if mode = ''valuesort'' then sort (concat rows) else concat rows)"

text \<open>An answer that fits the types of the query: as many columns, no value of a foreign type.\<close>

definition fitting :: "string \<Rightarrow> 'f Rows \<Rightarrow> bool" where
  "fitting tps rows \<longleftrightarrow> tps \<noteq> [] \<and> list_all (\<lambda>tp. tp \<in> {intType, floatType, stringType}) tps \<and> rw_Columns rows = Inr (length tps) \<and> rw_Err rows = None \<and>
     list_all (\<lambda>row. length row = length tps \<and> SrcOther \<notin> set row) (rw_Rows rows)"

lemma cell_text_Scan:
  "\<lbrakk>tp \<in> {intType, floatType, stringType}; c \<noteq> SrcOther\<rbrakk> \<Longrightarrow> value_Scan F tp v c = Some (cell_text F tp c)"
  by (cases c) (auto simp: cell_text_def handleString_def)

lemma scan_row_fits:
  "\<lbrakk>list_all (\<lambda>tp. tp \<in> {intType, floatType, stringType}) tps; length vs = length tps; length row = length tps; SrcOther \<notin> set row\<rbrakk> \<Longrightarrow>
    scan_row F tps vs row = Some (map2 (cell_text F) tps row)"
proof (induction F tps vs row rule: scan_row.induct)
  case (1 F tp tps v vs c cs)
  then show ?case using cell_text_Scan [of tp c F v] by auto
qed auto

lemma scan_rows_fits:
  "\<lbrakk>list_all (\<lambda>tp. tp \<in> {intType, floatType, stringType}) tps; length vals = length tps;
     list_all (\<lambda>row. length row = length tps \<and> SrcOther \<notin> set row) rows\<rbrakk> \<Longrightarrow>
    scan_rows F tps vals rows results = Some (results @ concat (render_rows F tps rows))"
  by (induction rows arbitrary: vals results) (simp_all add: scan_row_fits render_rows_def)

lemma chop_rows_concat:
  assumes "0 < n" "list_all (\<lambda>row. length row = n) rows"
  shows "chop_rows n (concat rows) = rows"
proof -
  have len: "length (concat rows) = length rows * n" using assms(2) by (induction rows) auto
  have "take n (drop (i * n) (concat rows)) = rows ! i" if "i < length rows" for i
    using that assms(2)
  proof (induction rows arbitrary: i)
    case (Cons row rows)
    then show ?case by (cases i) auto
  qed simp
  then show ?thesis using assms(1) by (auto simp: chop_rows_def len intro!: nth_equalityI)
qed

lemma sort_results_arrange:
  assumes "q_colTypes q \<noteq> []" "list_all (\<lambda>row. length row = length (q_colTypes q)) rows"
  shows "sort_results q (concat rows) = arrange (q_sortMode q) rows"
  using chop_rows_concat [of "length (q_colTypes q)" rows] assms by (simp add: sort_results_def arrange_def)

lemma execQuery_fitting:
  assumes "lg_Query D (q_sql q) d = (Inr rows, d')" "fitting (q_colTypes q) rows"
  shows "execQuery D q lbl d =
    (let (e, lbl) = check_results D q (arrange (q_sortMode q) (render_rows (lg_Floats D) (q_colTypes q) (rw_Rows rows))) lbl in (e, lbl, d'))"
proof -
  have q: "query_retry D dbTryNumber (q_sql q) (OtherErr []) d = (Inr rows, d')" using assms(1) by (simp add: dbTryNumber_def numeral_eq_Suc)
  let ?tps = "q_colTypes q" let ?rows = "render_rows (lg_Floats D) ?tps (rw_Rows rows)"
  have s: "scan_rows (lg_Floats D) ?tps (replicate (length ?tps) []) (rw_Rows rows) [] = Some (concat ?rows)"
    using assms(2) scan_rows_fits [of ?tps "replicate (length ?tps) []" "rw_Rows rows" "lg_Floats D" "[]"] by (simp add: fitting_def)
  have "list_all (\<lambda>row. length row = length ?tps) ?rows" using assms(2) by (auto simp: fitting_def render_rows_def list_all_iff)
  then have "sort_results q (concat ?rows) = arrange (q_sortMode q) ?rows" using assms(2) by (intro sort_results_arrange) (simp_all add: fitting_def)
  with s assms(2) show ?thesis by (simp add: execQuery_def q fitting_def case_prod_beta Let_def)
qed

lemma sort_mset: "mset xs = mset ys \<Longrightarrow> sort xs = sort ys"
  by (metis properties_for_sort mset_sort sorted_sort)

lemma mset_concat_sum: "mset (concat xss) = sum_mset (image_mset mset (mset xss))"
  by (induction xss) auto

lemma arrange_mset:
  assumes "mode \<in> {''rowsort'', ''valuesort''}" "mset rows = mset rows'"
  shows "arrange mode (render_rows F tps rows) = arrange mode (render_rows F tps rows')"
proof -
  have m: "mset (render_rows F tps rows) = mset (render_rows F tps rows')" using assms(2) by (simp add: render_rows_def)
  then have "mset (concat (render_rows F tps rows)) = mset (concat (render_rows F tps rows'))"
    by (simp only: mset_concat_sum)
  with sort_mset [OF m] sort_mset [OF this] assms(1) show ?thesis by (auto simp: arrange_def)
qed

text \<open>C21. A query with \<open>rowsort\<close> or \<open>valuesort\<close> does not depend on the order in which the database returns the rows: two
  answers with the same rows, of as many columns as the query has types, get the same verdict and leave the
  same hash under the label; the verdict is that on the rendered rows, sorted as the mode says.\<close>

theorem query_order_irrelevant:
  assumes "lg_Query D (q_sql q) d1 = (Inr rows1, d1')" "lg_Query D (q_sql q) d2 = (Inr rows2, d2')"
    and "fitting (q_colTypes q) rows1" "fitting (q_colTypes q) rows2" "mset (rw_Rows rows1) = mset (rw_Rows rows2)"
    and "q_sortMode q \<in> {''rowsort'', ''valuesort''}"
  shows "\<exists>verdict lbl'. execQuery D q lbl d1 = (verdict, lbl', d1') \<and> execQuery D q lbl d2 = (verdict, lbl', d2') \<and>
    (verdict, lbl') = check_results D q (arrange (q_sortMode q) (render_rows (lg_Floats D) (q_colTypes q) (rw_Rows rows1))) lbl"
proof -
  have "arrange (q_sortMode q) (render_rows (lg_Floats D) (q_colTypes q) (rw_Rows rows1)) =
      arrange (q_sortMode q) (render_rows (lg_Floats D) (q_colTypes q) (rw_Rows rows2))"
    using arrange_mset [OF assms(6,5)] .
  then show ?thesis
    unfolding execQuery_fitting [OF assms(1,3)] execQuery_fitting [OF assms(2,4)] by (simp add: case_prod_beta Let_def)
qed


text \<open>Answers in opposite orders, from a database that reads its answers off its state.\<close>

definition sample_floats :: "int Floats" where
  "sample_floats = \<lparr>fl_Parse = (\<lambda>s. case Atoi s of Inr i \<Rightarrow> i | Inl _ \<Rightarrow> 0), fl_Int64 = (\<lambda>i. i), fl_Fixed3 = (\<lambda>i. Itoa i @ ''.000'')\<rparr>"

definition answer :: "int Src list list \<Rightarrow> int Rows" where
  "answer rows = \<lparr>rw_Columns = Inr 2, rw_Rows = rows, rw_Err = None\<rparr>"

definition sample_db :: "(int Src list list, int) LogicDb" where
  "sample_db = \<lparr>lg_Exec = (\<lambda>_ d. (None, d)), lg_Query = (\<lambda>_ d. (Inr (answer d), d)), lg_QueryString = (\<lambda>_ d. (Inr [], d)), lg_QueryInt = (\<lambda>_ d. (Inr 1, d)),
     lg_Done = (\<lambda>_. False), lg_Floats = sample_floats, lg_md5 = (\<lambda>s. s), lg_ignoreErrs = []\<rparr>"

definition sample_query :: query where
  "sample_query = \<lparr>q_pos = (''t'', 1), q_sql = ''select'', q_colTypes = ''IT'', q_sortMode = ''rowsort'', q_label = [], q_expectedValues = 4,
     q_expectedHash = [], q_expectedResults = [''1'', ''b'', ''2'', ''a'']\<rparr>"

theorem query_order_irrelevant_witness:
  "\<exists>verdict lbl'. execQuery sample_db sample_query [] [[SrcInt 1, SrcBytes ''b''], [SrcInt 2, SrcBytes ''a'']] =
      (verdict, lbl', [[SrcInt 1, SrcBytes ''b''], [SrcInt 2, SrcBytes ''a'']]) \<and>
    execQuery sample_db sample_query [] [[SrcInt 2, SrcBytes ''a''], [SrcInt 1, SrcBytes ''b'']] =
      (verdict, lbl', [[SrcInt 2, SrcBytes ''a''], [SrcInt 1, SrcBytes ''b'']]) \<and> verdict = None"
proof -
  let ?r1 = "[[SrcInt 1, SrcBytes ''b''], [SrcInt 2, SrcBytes ''a'']]" let ?r2 = "[[SrcInt 2, SrcBytes ''a''], [SrcInt 1, SrcBytes ''b'']]"
  have f: "fitting (q_colTypes sample_query) (answer ?r1)" "fitting (q_colTypes sample_query) (answer ?r2)"
    by (simp_all add: fitting_def sample_query_def answer_def type_chars)
  have m: "mset (rw_Rows (answer ?r1)) = mset (rw_Rows (answer ?r2))" "q_sortMode sample_query \<in> {''rowsort'', ''valuesort''}"
    by (simp_all add: answer_def sample_query_def)
  have "lg_Query sample_db (q_sql sample_query) d = (Inr (answer d), d)" for d by (simp add: sample_db_def)
  from query_order_irrelevant [OF this this f m, of "[]"] obtain verdict lbl' where
    "execQuery sample_db sample_query [] ?r1 = (verdict, lbl', ?r1)" "execQuery sample_db sample_query [] ?r2 = (verdict, lbl', ?r2)"
    by blast
  moreover have "fst (execQuery sample_db sample_query [] ?r1) = None" by code_simp
  ultimately show ?thesis by auto
qed

section \<open>Scripts\<close>

text \<open>A script as its author sees it: statements, with whether an error is expected, and queries.\<close>

datatype Expected = Hashed nat string | Listed "string list"

datatype Record = Stmt bool "string list" | Query string string string "string list" Expected

text \<open>Its text.\<close>

definition header_line :: "string list \<Rightarrow> string" where
  "header_line ws = Join ws '' ''"

fun expected_lines :: "Expected \<Rightarrow> string list" where
  "expected_lines (Hashed n h) = [utoa n @ '' values hashing to '' @ h]"
| "expected_lines (Listed vs) = vs"

fun record_lines :: "Record \<Rightarrow> string list" where
  "record_lines (Stmt err sql) = header_line [''statement'', if err then ''error'' else ''ok''] # sql @ [[]]"
| "record_lines (Query tps mode label sql e) =
     header_line ([''query'', tps, mode] @ (if label = [] then [] else [label])) # sql @ [''----''] @ expected_lines e @ [[]]"

definition is_a_word :: "string \<Rightarrow> bool" where
  "is_a_word w \<longleftrightarrow> w \<noteq> [] \<and> list_all (Not \<circ> is_space) w"

fun wf_expected :: "Expected \<Rightarrow> bool" where
  "wf_expected (Hashed n h) \<longleftrightarrow> n < 2 ^ 63 \<and> h \<noteq> [] \<and> list_all is_hex h"
| "wf_expected (Listed vs) \<longleftrightarrow> list_all (\<lambda>v. Fields v \<noteq> []) vs \<and> (vs \<noteq> [] \<longrightarrow> match_full resultHashRE (hd vs) = None)"

fun wf_record :: "Record \<Rightarrow> bool" where
  "wf_record (Stmt err sql) \<longleftrightarrow> [] \<notin> set sql"
| "wf_record (Query tps mode label sql e) \<longleftrightarrow> tps \<noteq> [] \<and> list_all (\<lambda>v. v \<in> {intType, floatType, stringType}) tps \<and>
     mode \<in> {''nosort'', ''rowsort'', ''valuesort''} \<and> (label = [] \<or> is_a_word label) \<and> ''----'' \<notin> set sql \<and> wf_expected e"

text \<open>What the script means, record by record. The position of a record is the number of its first line.\<close>

fun expect :: "Expected \<Rightarrow> query \<Rightarrow> query" where
  "expect (Hashed n h) q = q\<lparr>q_expectedValues := int n, q_expectedHash := h\<rparr>"
| "expect (Listed vs) q = q\<lparr>q_expectedResults := concat (map Fields vs), q_expectedValues := int (length (concat (map Fields vs)))\<rparr>"

fun record_step :: "('d, 'f) Tester \<Rightarrow> Pos \<Rightarrow> Record \<Rightarrow> labels \<Rightarrow> 'd \<Rightarrow> 'd Progress" where
  "record_step T pos (Stmt err sql) lbl d =
     (case execStatement (tt_db T) \<lparr>st_pos = pos, st_sql = buffer sql, st_expectErr = err\<rparr> (''sqllogic_test_'' @ utoa (tt_runid T)) (tt_replicas T) d of
        None \<Rightarrow> Exits
      | Some (Some e, d) \<Rightarrow> Returns [FatalMsg e] lbl d
      | Some (None, d) \<Rightarrow> Goes_on [] [InfoMsg] lbl d)"
| "record_step T pos (Query tps mode label sql e) lbl d =
     (case run_query (tt_db T) (expect e \<lparr>q_pos = pos, q_sql = buffer sql, q_colTypes = tps, q_sortMode = mode, q_label = label, q_expectedValues = 0,
               q_expectedHash = [], q_expectedResults = []\<rparr>) (tt_replicas T) (tt_skipError T) lbl d of
        (ms, go, lbl, d) \<Rightarrow> if go then Goes_on [] ms lbl d else Returns ms lbl d)"

fun script_run :: "('d, 'f) Tester \<Rightarrow> nat \<Rightarrow> Record list \<Rightarrow> labels \<Rightarrow> 'd \<Rightarrow> (Message list \<times> labels \<times> 'd) option" where
  "script_run T i [] lbl d = Some ([], lbl, d)"
| "script_run T i (r # rs) lbl d =
     (if lg_Done (tt_db T) d then Some ([], lbl, d)
      else (case record_step T (tt_path T, i + 1) r lbl d of
              Exits \<Rightarrow> None
            | Returns ms lbl d \<Rightarrow> Some (ms, lbl, d)
            | Goes_on _ ms lbl d \<Rightarrow> map_option (\<lambda>(ms', r). (ms @ ms', r)) (script_run T (i + length (record_lines r)) rs lbl d)))"

section \<open>Reading a script back\<close>

lemma Fields_space: "is_space x \<Longrightarrow> Fields (x # s) = Fields s"
  by (subst Fields.simps, subst (2) Fields.simps) simp

lemma Fields_Nil [simp]: "Fields [] = []"
  by (subst Fields.simps) simp

lemma Fields_word: "is_a_word w \<Longrightarrow> t = [] \<or> is_space (hd t) \<Longrightarrow> Fields (w @ t) = w # Fields t"
proof -
  assume w: "is_a_word w" and t: "t = [] \<or> is_space (hd t)"
  then obtain x u where x: "w = x # u" "\<not> is_space x" by (cases w) (auto simp: is_a_word_def)
  have d: "dropWhile is_space (w @ t) = w @ t" using x by simp
  have a: "list_all (Not \<circ> is_space) w" using w by (simp add: is_a_word_def)
  have "takeWhile (Not \<circ> is_space) (w @ t) = w" "dropWhile (Not \<circ> is_space) (w @ t) = t"
    using a t by (cases t; auto simp: list_all_iff takeWhile_append dropWhile_append)+
  then show ?thesis using x by (subst Fields.simps) (simp add: d Let_def)
qed

lemma Fields_header: "list_all is_a_word ws \<Longrightarrow> Fields (header_line ws) = ws"
proof (induction ws)
  case (Cons w ws)
  have sp: "is_space (CHR '' '')" by (simp add: is_space_def)
  show ?case
  proof (cases ws)
    case Nil
    then show ?thesis using Cons.prems Fields_word [of w "[]"] by (simp add: header_line_def)
  next
    case (Cons w2 ws2)
    then have "header_line (w # ws) = w @ CHR '' '' # header_line ws" by (simp add: header_line_def)
    then show ?thesis using Cons.IH Cons.prems Fields_word [of w "CHR '' '' # header_line ws"] sp by (simp add: Fields_space)
  qed
qed (simp add: header_line_def)

lemma until_stop: "\<lbrakk>\<And>l. l \<in> set body \<Longrightarrow> \<not> P l; P x\<rbrakk> \<Longrightarrow> until P (body @ x # rest) = (body, rest)"
  by (simp add: until_def takeWhile_append dropWhile_append)

lemma match_full_first: "first_match p s (\<lambda>_. None) [] c \<Longrightarrow> match_full p s = Some c"
  by (auto simp: first_match_def match_full_def)

lemma is_blank_not: "\<not> is_digit (CHR '' '')" "is_blank (CHR '' '')" "\<not> is_blank (CHR ''v'')" "\<not> is_blank (CHR ''h'')" "\<not> is_blank (CHR ''t'')"
  by code_simp+

lemma hex_not_blank: "is_hex x \<Longrightarrow> \<not> is_blank x"
  by (auto simp: is_hex_def is_blank_def is_digit_def)

lemma hash_line:
  assumes "h \<noteq> []" "list_all is_hex h"
  shows "match_full resultHashRE (utoa n @ '' values hashing to '' @ h) = Some ((\<lambda>_. None)(1 := Some (utoa n), 2 := Some h))"
proof (rule match_full_first)
  let ?ws = "Some_of (Cls is_blank)"
  have blank: "first_match ?ws ('' '' @ t) c t c" if "t \<noteq> []" "\<not> is_blank (hd t)" for t c
    using that is_blank_not by (intro first_Some_Cls) auto
  let ?c1 = "(\<lambda>_. None)(1 := Some (utoa n))"
  have hx: "first_match (Grp 2 (Some_of (Cls is_hex))) h ?c1 [] (?c1(2 := Some h))"
    using first_Grp [of "Some_of (Cls is_hex)" h "[]" ?c1 ?c1 2] first_Some_Cls [of is_hex h "[]"] assms by simp
  have "\<not> is_blank (hd h)" using assms hex_not_blank by (cases h) auto
  with hx blank [of h] assms(1) have "first_match (Cat ?ws (Grp 2 (Some_of (Cls is_hex)))) ('' '' @ h) ?c1 [] (?c1(2 := Some h))"
    by (intro first_Cat) auto
  then have "first_match (Lit ''to'' (Cat ?ws (Grp 2 (Some_of (Cls is_hex))))) (''to'' @ '' '' @ h) ?c1 [] (?c1(2 := Some h))"
    by (rule first_Lit)
  then have "first_match (Cat ?ws (Lit ''to'' (Cat ?ws (Grp 2 (Some_of (Cls is_hex)))))) ('' '' @ ''to'' @ '' '' @ h) ?c1 [] (?c1(2 := Some h))"
    using blank [of "''to'' @ '' '' @ h"] is_blank_not by (intro first_Cat) auto
  then have "first_match (Lit ''hashing'' (Cat ?ws (Lit ''to'' (Cat ?ws (Grp 2 (Some_of (Cls is_hex)))))))
      (''hashing'' @ '' '' @ ''to'' @ '' '' @ h) ?c1 [] (?c1(2 := Some h))" by (rule first_Lit)
  then have hashing: "first_match (Cat ?ws (Lit ''hashing'' (Cat ?ws (Lit ''to'' (Cat ?ws (Grp 2 (Some_of (Cls is_hex))))))))
      ('' '' @ ''hashing'' @ '' '' @ ''to'' @ '' '' @ h) ?c1 [] (?c1(2 := Some h))" (is "first_match ?hashing ?rest _ _ _")
    using blank [of "''hashing'' @ '' '' @ ''to'' @ '' '' @ h"] is_blank_not by (intro first_Cat) auto
  have "first_match (Cat (Chr (CHR ''s'')) ?hashing) (CHR ''s'' # ?rest) ?c1 [] (?c1(2 := Some h))"
    using first_Cat [OF first_Chr hashing] .
  then have "first_match (Lit ''value'' (Alt (Cat (Chr (CHR ''s'')) ?hashing) ?hashing)) (''value'' @ CHR ''s'' # ?rest) ?c1 [] (?c1(2 := Some h))"
    by (intro first_Lit first_Alt)
  then have B: "first_match (Cat ?ws (Lit ''value'' (Alt (Cat (Chr (CHR ''s'')) ?hashing) ?hashing))) ('' '' @ ''value'' @ CHR ''s'' # ?rest) ?c1 [] (?c1(2 := Some h))"
    using blank [of "''value'' @ CHR ''s'' # ?rest"] is_blank_not by (intro first_Cat) auto
  have A: "first_match (Grp 1 (Some_of (Cls is_digit))) (utoa n @ '' '' @ ''value'' @ CHR ''s'' # ?rest) (\<lambda>_. None) ('' '' @ ''value'' @ CHR ''s'' # ?rest) ?c1"
    using utoa_digits [of n] is_blank_not by (intro first_Grp first_Some_Cls) auto
  from first_Cat [OF A B] have "first_match resultHashRE (utoa n @ '' '' @ ''value'' @ CHR ''s'' # ?rest) (\<lambda>_. None) [] (?c1(2 := Some h))"
    unfolding resultHashRE_def Let_def .
  then show "first_match resultHashRE (utoa n @ '' values hashing to '' @ h) (\<lambda>_. None) [] ((\<lambda>_. None)(1 := Some (utoa n), 2 := Some h))"
    by simp
qed


lemma parse_expected_Hashed:
  assumes "wf_expected (Hashed n h)"
  shows "parse_expected q (expected_lines (Hashed n h) @ rest) = (Inr (expect (Hashed n h) q), rest)"
proof -
  have "Itoa (int n) = utoa n" by (simp add: Itoa_def)
  moreover have "int64 (int n)" using assms by (simp add: int64_def)
  ultimately have "Atoi (utoa n) = Inr (int n)" by (metis Atoi_Itoa)
  with assms hash_line [of h n] show ?thesis by (simp add: parse_expected_def submatch_def)
qed

lemma parse_expected_Listed:
  assumes "wf_expected (Listed vs)"
  shows "parse_expected q (expected_lines (Listed vs) @ [] # rest) = (Inr (expect (Listed vs) q), rest)"
proof -
  have u: "until (\<lambda>l. Fields l = []) (vs @ [] # rest) = (vs, rest)" using assms by (intro until_stop) (auto simp: list_all_iff)
  have "match_full resultHashRE [] = None" by code_simp
  then have "match_full resultHashRE (hd (vs @ [] # rest)) = None" using assms by (cases vs) auto
  then show ?thesis using u by (cases "vs @ [] # rest") (auto simp: parse_expected_def Let_def)
qed

text \<open>What is left of a record after its step: the blank line after a hash.\<close>

fun left_over :: "Record \<Rightarrow> string list" where
  "left_over (Query tps mode label sql (Hashed n h)) = [[]]"
| "left_over _ = []"

lemma parse_expected_record:
  assumes "wf_expected e"
  shows "parse_expected q (expected_lines e @ [] # rest) = (Inr (expect e q), left_over (Query tps mode label sql e) @ rest)"
proof (cases e)
  case (Hashed n h)
  with parse_expected_Hashed [of n h q "[] # rest"] assms show ?thesis by simp
next
  case (Listed vs)
  with parse_expected_Listed [of vs q rest] assms show ?thesis by simp
qed

lemma words: "is_a_word ''statement''" "is_a_word ''query''" "is_a_word ''ok''" "is_a_word ''error''" "is_a_word ''nosort''" "is_a_word ''rowsort''" "is_a_word ''valuesort''"
  by code_simp+

lemma type_not_space: "v \<in> {intType, floatType, stringType} \<Longrightarrow> \<not> is_space v"
  by (elim insertE emptyE) (simp_all add: type_chars is_space_def)

lemma types_word: "tps \<noteq> [] \<Longrightarrow> list_all (\<lambda>v. v \<in> {intType, floatType, stringType}) tps \<Longrightarrow> is_a_word tps"
  using type_not_space by (auto simp: is_a_word_def list_all_iff)

definition relay :: "string list \<Rightarrow> 'd Progress \<Rightarrow> 'd Progress" where
  "relay rest s = (case s of Goes_on _ ms lbl d \<Rightarrow> Goes_on rest ms lbl d | _ \<Rightarrow> s)"

lemma step_Stmt:
  assumes "wf_record (Stmt err sql)"
  shows "tester_step T pos (header_line [''statement'', if err then ''error'' else ''ok'']) (sql @ [] # rest) lbl d =
    relay rest (record_step T pos (Stmt err sql) lbl d)"
proof -
  have f: "Fields (header_line [''statement'', if err then ''error'' else ''ok'']) = [''statement'', if err then ''error'' else ''ok'']"
    using words by (intro Fields_header) auto
  have u: "until (\<lambda>l. l = []) (sql @ [] # rest) = (sql, rest)" using assms by (intro until_stop) auto
  have e: "(if err then ''error'' else ''ok'') = ''error'' \<longleftrightarrow> err" by simp
  have "tester_step T pos (header_line [''statement'', if err then ''error'' else ''ok'']) (sql @ [] # rest) lbl d =
      statement_step T pos (header_line [''statement'', if err then ''error'' else ''ok'']) [''statement'', if err then ''error'' else ''ok''] (sql @ [] # rest) lbl d"
    unfolding tester_step_def f Let_def by (simp add: HasPrefix_def)
  also have "\<dots> = (case execStatement (tt_db T) \<lparr>st_pos = pos, st_sql = buffer sql, st_expectErr = err\<rparr> (''sqllogic_test_'' @ utoa (tt_runid T)) (tt_replicas T) d of
        None \<Rightarrow> Exits
      | Some (Some e, d) \<Rightarrow> Returns [FatalMsg e] lbl d
      | Some (None, d) \<Rightarrow> Goes_on rest [InfoMsg] lbl d)"
    unfolding statement_step_def u Let_def by (simp add: e)
  also have "\<dots> = relay rest (record_step T pos (Stmt err sql) lbl d)"
    unfolding record_step.simps relay_def by (auto split: option.splits)
  finally show ?thesis .
qed

lemma step_Query:
  assumes wf: "wf_record (Query tps mode label sql e)"
  shows "tester_step T pos (header_line ([''query'', tps, mode] @ (if label = [] then [] else [label]))) (sql @ ''----'' # expected_lines e @ [] # rest) lbl d =
    relay (left_over (Query tps mode label sql e) @ rest) (record_step T pos (Query tps mode label sql e) lbl d)"
proof -
  let ?fs = "[''query'', tps, mode] @ (if label = [] then [] else [label])"
  have "list_all is_a_word ?fs" using wf words types_word [of tps] by auto
  then have f: "Fields (header_line ?fs) = ?fs" by (rule Fields_header)
  have u: "until (\<lambda>l. l = ''----'') (sql @ ''----'' # expected_lines e @ [] # rest) = (sql, expected_lines e @ [] # rest)"
    using wf by (intro until_stop) auto
  let ?q = "\<lparr>q_pos = pos, q_sql = [], q_colTypes = tps, q_sortMode = mode, q_label = label, q_expectedValues = 0, q_expectedHash = [], q_expectedResults = []\<rparr>"
  have h: "parse_header pos (header_line ?fs) ?fs = Inr ?q"
    using wf by (auto simp: parse_header_def list_all_iff)
  have p: "parse_expected (?q\<lparr>q_sql := buffer sql\<rparr>) (expected_lines e @ [] # rest) =
      (Inr (expect e (?q\<lparr>q_sql := buffer sql\<rparr>)), left_over (Query tps mode label sql e) @ rest)"
    using wf by (intro parse_expected_record) simp
  have "tester_step T pos (header_line ?fs) (sql @ ''----'' # expected_lines e @ [] # rest) lbl d =
      query_step T pos (header_line ?fs) ?fs (sql @ ''----'' # expected_lines e @ [] # rest) lbl d"
    unfolding tester_step_def f Let_def by (simp add: HasPrefix_def)
  also have "\<dots> = relay (left_over (Query tps mode label sql e) @ rest) (record_step T pos (Query tps mode label sql e) lbl d)"
    unfolding query_step_def h u using p by (simp add: relay_def case_prod_beta)
  finally show ?thesis .
qed

lemma loop_blank: "tester_loop T N False ([] # rest) lbl d = tester_loop T N False rest lbl d"
  by (cases rest) (simp_all add: tester_step_def option.map_ident case_prod_unfold split: option.splits)

lemma loop_left_over: "tester_loop T N False (left_over r @ rest) lbl d = tester_loop T N False rest lbl d"
  by (cases r rule: left_over.cases) (simp_all add: loop_blank del: tester_loop.simps)

lemma loop_script:
  "\<lbrakk>list_all wf_record rs; N = i + length (concat (map record_lines rs))\<rbrakk> \<Longrightarrow>
    tester_loop T N False (concat (map record_lines rs)) lbl d = script_run T i rs lbl d"
proof (induction rs arbitrary: i lbl d)
  case (Cons r rs)
  let ?rest = "concat (map record_lines rs)"
  obtain l ls where r: "record_lines r = l # ls" by (cases r) auto
  have step: "tester_step T pos l (ls @ ?rest) lbl d = relay (left_over r @ ?rest) (record_step T pos r lbl d)" for pos
  proof (cases r)
    case (Stmt err sql)
    with r Cons.prems(1) step_Stmt [of err sql T pos ?rest lbl d] show ?thesis by auto
  next
    case (Query tps mode label sql e)
    with r Cons.prems(1) step_Query [of tps mode label sql e T pos ?rest lbl d] show ?thesis by auto
  qed
  have pos: "N - length (ls @ ?rest) = i + 1" using Cons.prems(2) r by simp
  have IH: "tester_loop T N False (left_over r @ ?rest) lbl d = script_run T (i + length (record_lines r)) rs lbl d" for lbl d
    unfolding loop_left_over using Cons.IH [of "i + length (record_lines r)" lbl d] Cons.prems by simp
  have "tester_loop T N False (l # ls @ ?rest) lbl d = script_run T i (r # rs) lbl d"
    unfolding tester_loop.simps(2) script_run.simps(2) step pos by (auto simp: relay_def IH split: Progress.splits)
  then show ?case by (simp add: r)
qed simp

definition plain_line :: "string \<Rightarrow> bool" where
  "plain_line l \<longleftrightarrow> CHR 0x0A \<notin> set l \<and> (l = [] \<or> last l \<noteq> CHR 0x0D) \<and> length l < 65536"

definition script_text :: "Record list \<Rightarrow> string" where
  "script_text rs = concat (map (\<lambda>l. l @ [CHR 0x0A]) (concat (map record_lines rs)))"

lemma scan_text: "list_all plain_line ls \<Longrightarrow> logic_lines (concat (map (\<lambda>l. l @ [CHR 0x0A]) ls)) = (ls, False)"
proof -
  assume ls: "list_all plain_line ls"
  have "split_on (CHR 0x0A) (concat (map (\<lambda>l. l @ [CHR 0x0A]) ls)) = ls @ [[]]"
    using ls by (induction ls) (simp_all add: plain_line_def split_on_append)
  moreover have "takeWhile (\<lambda>l. length l < 65536) ls = ls" using ls by (intro takeWhile_eq_all_conv [THEN iffD2]) (auto simp: list_all_iff plain_line_def)
  moreover have "map drop_cr ls = ls" using ls by (intro map_idI) (auto simp: list_all_iff plain_line_def drop_cr_def)
  ultimately show ?thesis by (simp add: logic_lines_def Let_def del: takeWhile_eq_all_conv)
qed

text \<open>C10. The tester does what a script says. From the text of a script of statements and queries it prepares its
  database and then runs the records in their order, each at the position of its first line, with the sort
  mode, label and expected results or hash that the record gives; nothing is skipped, run twice or
  run with a part of another record, and the messages are those of the records.\<close>

theorem tester_runs_script:
  assumes "list_all wf_record rs" "list_all plain_line (concat (map record_lines rs))"
  shows "tester_run T (Some (script_text rs)) d = do { d \<leftarrow> prepare (tt_db T) (tt_runid T) d; script_run T 0 rs [] d }"
proof -
  have "logic_lines (script_text rs) = (concat (map record_lines rs), False)"
    unfolding script_text_def by (rule scan_text) (rule assms(2))
  then show ?thesis
    using loop_script [OF assms(1), of "length (concat (map record_lines rs))" 0 T] by (simp add: tester_run_def)
qed

definition sample_script :: "Record list" where
  "sample_script = [Stmt False [''create table t (a int)''], Query ''IT'' ''rowsort'' ''l1'' [''select a,'', ''b from t''] (Listed [''1 b'', ''2'', ''a'']),
     Query ''IT'' ''nosort'' [] [''select a, b from t''] (Hashed 4 ''0a'')]"

definition sample_tester :: "(int Src list list, int) Tester" where
  "sample_tester = \<lparr>tt_db = sample_db, tt_path = ''a.test'', tt_runid = 0, tt_replicas = 0, tt_skipError = True\<rparr>"

lemma sample_script_wf: "list_all wf_record sample_script"
proof -
  have "is_a_word ''l1''" "list_all (\<lambda>v. Fields v \<noteq> []) [''1 b'', ''2'', ''a'']" "match_full resultHashRE ''1 b'' = None" "list_all is_hex ''0a''"
    by code_simp+
  then show ?thesis by (simp add: sample_script_def type_chars)
qed

lemma sample_script_plain: "list_all plain_line (concat (map record_lines sample_script))"
proof -
  have "utoa 4 = ''4''" by code_simp
  then show ?thesis by (simp add: sample_script_def plain_line_def header_line_def)
qed

theorem tester_runs_script_witness:
  "\<exists>e r. tester_run sample_tester (Some (script_text sample_script)) [[SrcInt 2, SrcBytes ''a''], [SrcInt 1, SrcBytes ''b'']] =
    Some ([InfoMsg, InfoMsg, ErrorMsg (WrongHash (''a.test'', 12) ''0a'' e), InfoMsg], r)"
proof -
  have "list_all wf_record sample_script" "list_all plain_line (concat (map record_lines sample_script))"
    by (rule sample_script_wf sample_script_plain)+
  note run = tester_runs_script [OF this, of sample_tester "[[SrcInt 2, SrcBytes ''a''], [SrcInt 1, SrcBytes ''b'']]"]
  have "map_option fst (do { d \<leftarrow> prepare (tt_db sample_tester) (tt_runid sample_tester) [[SrcInt 2, SrcBytes ''a''], [SrcInt 1, SrcBytes ''b'']];
      script_run sample_tester 0 sample_script [] d }) =
    Some [InfoMsg, InfoMsg, ErrorMsg (WrongHash (''a.test'', 12) ''0a'' (concat [''2'', [CHR 0x0A], ''a'', [CHR 0x0A], ''1'', [CHR 0x0A], ''b'', [CHR 0x0A]])), InfoMsg]"
    by code_simp
  then show ?thesis unfolding run by (auto simp: map_option_case split: option.splits)
qed

section \<open>Where the tester errs\<close>

text \<open>A query that answers more columns than the script declares passes, whatever its rows are: the panic at the
  type of the first column too many is recovered, and the function then returns no error.\<close>

theorem too_many_columns_pass:
  assumes "lg_Query D (q_sql q) d = (Inr rows, d')" "rw_Columns rows = Inr cols" "length (q_colTypes q) < cols"
  shows "execQuery D q lbl d = (None, lbl, d')"
proof -
  have "query_retry D dbTryNumber (q_sql q) (OtherErr []) d = (Inr rows, d')" using assms(1) by (simp add: dbTryNumber_def numeral_eq_Suc)
  with assms(2, 3) show ?thesis by (simp add: execQuery_def)
qed

text \<open>The tilde, a printable character, is masked; the control character after it is not, and a character of
  more than one byte becomes its last eight bits.\<close>

theorem renderString_masks_tilde:
  "renderString ''a~b'' = ''a@b'' \<and> renderString [CHR 0x7F] = [CHR 0x7F] \<and> renderString [CHR 0xC4, CHR 0x80] = [CHR 0x00]"
  by code_simp

text \<open>A value with a space equals the two values that it separates.\<close>

theorem split_values_pass:
  assumes "q_expectedHash q = []" "q_expectedResults q = [''a'', ''b'']" "q_label q = []"
  shows "check_results D q [''a b''] lbl = (None, lbl)" "check_results D q [''a'', ''b''] lbl = (None, lbl)"
  using assms by (simp_all add: check_results_def Let_def)

end
