(* ===== verification/Recording.thy ===== *)
theory Recording
  imports Linearizability Nemesis_Types History_Parser
begin

text \<open>
  The recorder of \<open>pkg/history/history.go\<close> and the bytes of the history file: every record is a
  line, a mutex makes the writing of a line atomic, and \<open>ReadHistory\<close> scans the lines back with
  \<open>bufio.Scanner\<close>. The JSON encoding of the values is a parameter; what the operating system does
  with a write is an argument. The main result is the round trip: what was recorded is read back, as far as the parser
  of the workload decodes it.
\<close>

section \<open>Writing\<close>

datatype ('s, 'i, 'o) Payload = StatePayload 's | RequestPayload 'i | ResponsePayload 'o
  | InjectPayload NemesisGeneratorRecord | RecoverPayload string

text \<open>A write either stores all bytes or stops with an error after some of them.\<close>

fun f_Write :: "nat option \<Rightarrow> string \<Rightarrow> string \<Rightarrow> string \<times> bool" where
  "f_Write None data f = (f @ data, True)"
| "f_Write (Some n) data f = (f @ take n data, False)"

text \<open>What a call of \<open>record\<close> meets: the clock and the two writes.\<close>

record write_env =
  now :: int
  data_write :: "nat option"
  newline_write :: "nat option"

text \<open>The new file and whether the call returns nil.\<close>

definition Recorder_record :: "('p \<Rightarrow> 'r option) \<Rightarrow> ('r opRecord \<Rightarrow> string option) \<Rightarrow> write_env \<Rightarrow>
    int \<Rightarrow> string \<Rightarrow> 'p \<Rightarrow> string \<Rightarrow> string \<times> bool" where
  "Recorder_record marshal marshal_record env proc action op f =
     (case marshal op of
        None \<Rightarrow> (f, False)
      | Some data \<Rightarrow>
          (case marshal_record \<lparr>rec_Action = action, rec_Proc = proc, rec_Time = Some (now env), rec_Data = data\<rparr> of
             None \<Rightarrow> (f, False)
           | Some line \<Rightarrow>
               (case f_Write (data_write env) line f of
                  (f, ok) \<Rightarrow> if \<not> ok then (f, False)
                    else (case f_Write (newline_write env) [CHR 0x0A] f of (f, ok) \<Rightarrow> (f, ok)))))"

text \<open>The exported methods. \<open>marshal\<close> encodes the value, \<open>marshal_record\<close> the line.\<close>

type_synonym ('s, 'i, 'o, 'r) marshaller = "(('s, 'i, 'o) Payload \<Rightarrow> 'r option) \<times> ('r opRecord \<Rightarrow> string option)"

definition RecordState :: "('s, 'i, 'o, 'r) marshaller \<Rightarrow> write_env \<Rightarrow> 's \<Rightarrow> string \<Rightarrow> string \<times> bool" where
  "RecordState enc env state f = Recorder_record (fst enc) (snd enc) env 0 dumpOperation (StatePayload state) f"

definition RecordRequest :: "('s, 'i, 'o, 'r) marshaller \<Rightarrow> write_env \<Rightarrow> int \<Rightarrow> 'i \<Rightarrow> string \<Rightarrow> string \<times> bool" where
  "RecordRequest enc env proc op f = Recorder_record (fst enc) (snd enc) env proc InvokeOperation (RequestPayload op) f"

definition RecordResponse :: "('s, 'i, 'o, 'r) marshaller \<Rightarrow> write_env \<Rightarrow> int \<Rightarrow> 'o \<Rightarrow> string \<Rightarrow> string \<times> bool" where
  "RecordResponse enc env proc op f = Recorder_record (fst enc) (snd enc) env proc ReturnOperation (ResponsePayload op) f"

definition RecordInvokeNemesis :: "('s, 'i, 'o, 'r) marshaller \<Rightarrow> write_env \<Rightarrow> NemesisGeneratorRecord \<Rightarrow> string \<Rightarrow> string \<times> bool" where
  "RecordInvokeNemesis enc env nemesisRecord f =
     Recorder_record (fst enc) (snd enc) env (-1) InvokeNemesis (InjectPayload nemesisRecord) f"

definition RecordRecoverNemesis :: "('s, 'i, 'o, 'r) marshaller \<Rightarrow> write_env \<Rightarrow> string \<Rightarrow> string \<Rightarrow> string \<times> bool" where
  "RecordRecoverNemesis enc env op f =
     Recorder_record (fst enc) (snd enc) env (-1) RecoverNemesis (RecoverPayload op) f"

lemmas recorder_defs = RecordState_def RecordRequest_def RecordResponse_def RecordInvokeNemesis_def RecordRecoverNemesis_def

text \<open>A sequence of calls, each with what it meets.\<close>

datatype ('s, 'i, 'o) RecorderCall =
    CallState 's
  | CallRequest int 'i
  | CallResponse int 'o
  | CallInvokeNemesis NemesisGeneratorRecord
  | CallRecoverNemesis string

fun record_one :: "('s, 'i, 'o, 'r) marshaller \<Rightarrow> write_env \<times> ('s, 'i, 'o) RecorderCall \<Rightarrow> string \<Rightarrow> string \<times> bool" where
  "record_one enc (env, CallState s) f = RecordState enc env s f"
| "record_one enc (env, CallRequest proc x) f = RecordRequest enc env proc x f"
| "record_one enc (env, CallResponse proc y) f = RecordResponse enc env proc y f"
| "record_one enc (env, CallInvokeNemesis n) f = RecordInvokeNemesis enc env n f"
| "record_one enc (env, CallRecoverNemesis n) f = RecordRecoverNemesis enc env n f"

text \<open>All calls return nil, or the first error ends the run.\<close>

fun record_all :: "('s, 'i, 'o, 'r) marshaller \<Rightarrow> (write_env \<times> ('s, 'i, 'o) RecorderCall) list \<Rightarrow> string \<Rightarrow> string option" where
  "record_all enc [] f = Some f"
| "record_all enc (c # cs) f = (case record_one enc c f of (f', ok) \<Rightarrow> if ok then record_all enc cs f' else None)"

section \<open>Scanning lines\<close>

text \<open>\<open>bufio.ScanLines\<close> with a largest token size: the tokens, and whether the scanner stopped because
  a line did not fit its buffer.\<close>

definition dropCR :: "string \<Rightarrow> string" where
  "dropCR line = (if line \<noteq> [] \<and> last line = CHR 0x0D then butlast line else line)"

function scan_lines :: "nat \<Rightarrow> string \<Rightarrow> string list \<times> bool" where
  "scan_lines limit bs =
     (if bs = [] then ([], False)
      else let line = takeWhile (\<lambda>c. c \<noteq> CHR 0x0A) bs
           in if limit \<le> length line then ([], True)
              else case scan_lines limit (drop (Suc (length line)) bs) of
                     (lines, err) \<Rightarrow> (dropCR line # lines, err))"
  by pat_completeness auto
termination
  by (relation "measure (length \<circ> snd)") (auto simp: Let_def)

declare scan_lines.simps [simp del]

definition maxTokenSize :: nat where
  "maxTokenSize = 50 * 1024 * 1024"

lemma scan_lines_Nil [simp]: "scan_lines limit [] = ([], False)"
  by (subst scan_lines.simps) simp

lemma scan_lines_line:
  assumes "CHR 0x0A \<notin> set line" "CHR 0x0D \<notin> set line" "length line < limit"
  shows "scan_lines limit (line @ CHR 0x0A # rest) =
    (case scan_lines limit rest of (lines, err) \<Rightarrow> (line # lines, err))"
proof -
  have "takeWhile (\<lambda>c. c \<noteq> CHR 0x0A) (line @ CHR 0x0A # rest) = line"
    using assms(1) by (simp add: takeWhile_tail) (metis (mono_tags, lifting) takeWhile_eq_all_conv)
  moreover have "dropCR line = line" using assms(2) by (metis dropCR_def last_in_set)
  ultimately show ?thesis using assms(3) by (subst scan_lines.simps) (simp add: Let_def)
qed

section \<open>The round trip\<close>

fun call_args :: "('s, 'i, 'o) RecorderCall \<Rightarrow> int \<times> string \<times> ('s, 'i, 'o) Payload" where
  "call_args (CallState s) = (0, dumpOperation, StatePayload s)"
| "call_args (CallRequest proc x) = (proc, InvokeOperation, RequestPayload x)"
| "call_args (CallResponse proc y) = (proc, ReturnOperation, ResponsePayload y)"
| "call_args (CallInvokeNemesis n) = (-1, InvokeNemesis, InjectPayload n)"
| "call_args (CallRecoverNemesis n) = (-1, RecoverNemesis, RecoverPayload n)"

lemma record_one_args:
  "record_one enc (env, call) f =
     (case call_args call of (proc, action, op) \<Rightarrow> Recorder_record (fst enc) (snd enc) env proc action op f)"
  by (cases call) (simp_all add: recorder_defs)

text \<open>The record and the line that a call stands for.\<close>

definition encoded_record :: "('s, 'i, 'o, 'r) marshaller \<Rightarrow> write_env \<times> ('s, 'i, 'o) RecorderCall \<Rightarrow> 'r opRecord option" where
  "encoded_record enc = (\<lambda>(env, call). case call_args call of (proc, action, op) \<Rightarrow> map_option
     (\<lambda>d. \<lparr>rec_Action = action, rec_Proc = proc, rec_Time = Some (now env), rec_Data = d\<rparr>) (fst enc op))"

definition encoded_line :: "('s, 'i, 'o, 'r) marshaller \<Rightarrow> write_env \<times> ('s, 'i, 'o) RecorderCall \<Rightarrow> string option" where
  "encoded_line enc c = do { r \<leftarrow> encoded_record enc c; snd enc r }"

text \<open>What is documented of \<open>encoding/json\<close> for the records of a history: decoding a line gives the record back, with its
  data still raw, and an encoded record is one line.\<close>

definition json_records :: "('s, 'i, 'o, 'r) marshaller \<Rightarrow> (string \<Rightarrow> 'r opRecord option) \<Rightarrow> bool" where
  "json_records enc unmarshal \<longleftrightarrow> (\<forall>op r line. fst enc op = Some (rec_Data r) \<longrightarrow> snd enc r = Some line \<longrightarrow>
     unmarshal line = Some r \<and> CHR 0x0A \<notin> set line \<and> CHR 0x0D \<notin> set line)"

text \<open>What the parser of the workload and the decoder of nemeses make of the encoded data of the calls, in their order; the first
  error ends the reading.\<close>

fun read_calls :: "('s, 'i, 'o, 'r) marshaller \<Rightarrow> 'r nemesis_decoder \<Rightarrow> ('r, 's, 'i, 'o) RecordParser \<Rightarrow>
    (write_env \<times> ('s, 'i, 'o) RecorderCall) list \<Rightarrow> ('i, 'o) Operation list \<Rightarrow> 's option \<Rightarrow> ('i, 'o) history_error + ('i, 'o) Operation list \<times> 's option" where
  "read_calls enc nemesis p [] ops st = Inr (ops, st)"
| "read_calls enc nemesis p ((env, call) # cs) ops st =
     (case call_args call of (proc, action, op) \<Rightarrow>
        let data = the (fst enc op);
            read = (\<lambda>d. read_calls enc nemesis p cs (ops @ [\<lparr>o_Action = action, o_Proc = proc, o_Data = d, o_Time = Some (now env)\<rparr>]) st)
        in case call of
             CallState _ \<Rightarrow> (case OnState p data of None \<Rightarrow> Inl ReadError | Some s \<Rightarrow> read_calls enc nemesis p cs ops (Some s))
           | CallRequest _ _ \<Rightarrow> (case OnRequest p data of None \<Rightarrow> Inl ReadError | Some x \<Rightarrow> read (Request x))
           | CallResponse _ _ \<Rightarrow> (case OnResponse p data of None \<Rightarrow> Inl ReadError | Some y \<Rightarrow> read (Response y))
           | CallInvokeNemesis _ \<Rightarrow> (case fst nemesis data of None \<Rightarrow> Inl ReadError | Some n \<Rightarrow> read (NemesisData (Injected n)))
           | CallRecoverNemesis _ \<Rightarrow> (case snd nemesis data of None \<Rightarrow> Inl ReadError | Some n \<Rightarrow> read (NemesisData (Recovered n))))"

lemma Recorder_recordD:
  assumes "Recorder_record marshal marshal_record env proc action op f = (f', True)"
  obtains d line where "marshal op = Some d"
    "marshal_record \<lparr>rec_Action = action, rec_Proc = proc, rec_Time = Some (now env), rec_Data = d\<rparr> = Some line"
    "f' = f @ line @ [CHR 0x0A]"
  using assms
  by (cases "data_write env"; cases "newline_write env")
     (auto simp: Recorder_record_def split: option.splits if_splits)

lemma record_all_lines:
  "record_all enc cs f = Some f' \<Longrightarrow>
    \<exists>ls. list_all2 (\<lambda>c l. encoded_line enc c = Some l) cs ls \<and> f' = f @ concat (map (\<lambda>l. l @ [CHR 0x0A]) ls)"
proof (induction cs arbitrary: f)
  case (Cons c cs)
  obtain env call where c: "c = (env, call)" by (cases c)
  obtain proc action op where args: "call_args call = (proc, action, op)" by (cases "call_args call")
  from Cons.prems obtain f1 where f1: "record_one enc c f = (f1, True)" "record_all enc cs f1 = Some f'"
    by (auto split: prod.splits if_splits)
  from f1(1) have "Recorder_record (fst enc) (snd enc) env proc action op f = (f1, True)"
    by (simp add: c record_one_args args)
  from this obtain d line where "fst enc op = Some d" "f1 = f @ line @ [CHR 0x0A]"
    "snd enc \<lparr>rec_Action = action, rec_Proc = proc, rec_Time = Some (now env), rec_Data = d\<rparr> = Some line"
    by (rule Recorder_recordD)
  moreover from Cons.IH [OF f1(2)] obtain ls where "list_all2 (\<lambda>c l. encoded_line enc c = Some l) cs ls" "f' = f1 @ concat (map (\<lambda>l. l @ [CHR 0x0A]) ls)"
    by blast
  ultimately show ?case by (intro exI [of _ "line # ls"]) (simp add: encoded_line_def encoded_record_def c args)
qed simp

lemma list_all2_left: "list_all2 P xs ys \<Longrightarrow> y \<in> set ys \<Longrightarrow> \<exists>x \<in> set xs. P x y"
  by (induction rule: list_all2_induct) auto

lemma list_all2_right: "list_all2 P xs ys \<Longrightarrow> x \<in> set xs \<Longrightarrow> \<exists>y \<in> set ys. P x y"
  by (induction rule: list_all2_induct) auto

lemma scan_text_lines:
  assumes "\<And>l. l \<in> set ls \<Longrightarrow> CHR 0x0A \<notin> set l \<and> CHR 0x0D \<notin> set l"
  shows "scan_lines limit (concat (map (\<lambda>l. l @ [CHR 0x0A]) ls)) = (takeWhile (\<lambda>l. length l < limit) ls, \<not> list_all (\<lambda>l. length l < limit) ls)"
  using assms
proof (induction ls)
  case (Cons l ls)
  show ?case
  proof (cases "length l < limit")
    case True
    with Cons scan_lines_line [of l limit "concat (map (\<lambda>l. l @ [CHR 0x0A]) ls)"] show ?thesis by simp
  next
    case False
    have "takeWhile (\<lambda>c. c \<noteq> CHR 0x0A) (l @ CHR 0x0A # rest) = l" for rest
      using Cons.prems [of l] by (simp add: takeWhile_tail) (metis (mono_tags, lifting) takeWhile_eq_all_conv)
    with False show ?thesis by (subst scan_lines.simps) (simp add: Let_def)
  qed
qed simp

lemma read_encoded:
  assumes J: "json_records enc unmarshal" and "list_all2 (\<lambda>c l. encoded_line enc c = Some l) cs ls"
  shows "ReadHistory_loop unmarshal nemesis p ls ops st = read_calls enc nemesis p cs ops st"
  using assms(2)
proof (induction arbitrary: ops st rule: list_all2_induct)
  case (Cons c cs l ls)
  obtain env call where c: "c = (env, call)" by (cases c)
  obtain proc action op where args: "call_args call = (proc, action, op)" by (cases "call_args call")
  from Cons.hyps(1) obtain d where d: "fst enc op = Some d" "snd enc \<lparr>rec_Action = action, rec_Proc = proc, rec_Time = Some (now env), rec_Data = d\<rparr> = Some l"
    by (auto simp: encoded_line_def encoded_record_def c args split: Option.bind_splits)
  then have u: "unmarshal l = Some \<lparr>rec_Action = action, rec_Proc = proc, rec_Time = Some (now env), rec_Data = d\<rparr>"
    using J unfolding json_records_def by fastforce
  show ?case using args
    by (cases call) (auto simp: c u d(1) Let_def record_data_def action_defs Cons.IH split: option.splits)
qed simp

lemma ReadHistory_loop_error: "ReadHistory_loop unmarshal nemesis p ls ops st = Inl e \<Longrightarrow> e = ReadError"
  by (induction ls arbitrary: ops st) (auto split: option.splits if_splits)

text \<open>Whether the scanner's buffer can hold the line of a call.\<close>

definition fits :: "('s, 'i, 'o, 'r) marshaller \<Rightarrow> nat \<Rightarrow> write_env \<times> ('s, 'i, 'o) RecorderCall \<Rightarrow> bool" where
  "fits enc limit c \<longleftrightarrow> (case encoded_line enc c of None \<Rightarrow> True | Some l \<Rightarrow> length l < limit)"

lemma fits_mono: "fits enc n c \<Longrightarrow> n \<le> m \<Longrightarrow> fits enc m c"
  by (auto simp: fits_def split: option.splits)

lemma recorded_reads:
  assumes "record_all enc cs [] = Some f" and J: "json_records enc unmarshal"
  shows "ReadHistory unmarshal nemesis p (Some (scan_lines limit f)) =
    (if \<forall>c \<in> set cs. fits enc limit c then read_calls enc nemesis p cs [] None else Inl ReadError)" (is ?read)
    and "snd (scan_lines limit f) \<longleftrightarrow> \<not> (\<forall>c \<in> set cs. fits enc limit c)"
proof -
  obtain ls where ls: "list_all2 (\<lambda>c l. encoded_line enc c = Some l) cs ls" "f = concat (map (\<lambda>l. l @ [CHR 0x0A]) ls)"
    using record_all_lines [OF assms(1)] by auto
  have "CHR 0x0A \<notin> set l \<and> CHR 0x0D \<notin> set l" if "l \<in> set ls" for l
  proof -
    from list_all2_left [OF ls(1) that] obtain c where "encoded_line enc c = Some l" by blast
    then obtain r where r: "encoded_record enc c = Some r" "snd enc r = Some l"
      by (auto simp: encoded_line_def split: Option.bind_splits)
    from r(1) have "\<exists>op. fst enc op = Some (rec_Data r)"
      by (cases c; cases "call_args (snd c)") (auto simp: encoded_record_def)
    then show ?thesis using J r(2) unfolding json_records_def by blast
  qed
  from scan_text_lines [of ls limit, OF this] ls(2)
  have scan: "scan_lines limit f = (takeWhile (\<lambda>l. length l < limit) ls, \<not> list_all (\<lambda>l. length l < limit) ls)" by simp
  have fits: "list_all (\<lambda>l. length l < limit) ls \<longleftrightarrow> (\<forall>c \<in> set cs. fits enc limit c)"
    using ls(1) by (induction rule: list_all2_induct) (simp_all add: fits_def)
  show "snd (scan_lines limit f) \<longleftrightarrow> \<not> (\<forall>c \<in> set cs. fits enc limit c)" using scan fits by simp
  show ?read
  proof (cases "list_all (\<lambda>l. length l < limit) ls")
    case True
    then have "takeWhile (\<lambda>l. length l < limit) ls = ls" by (simp add: list_all_iff)
    with True fits scan read_encoded [OF J ls(1), of nemesis p "[]" None] show ?thesis by (simp add: ReadHistory_def split: sum.splits)
  next
    case False
    then show ?thesis using scan fits
      by (auto simp: ReadHistory_def dest: ReadHistory_loop_error split: sum.splits)
  qed
qed

text \<open>The operations and the state of calls that record no nemesis.\<close>

fun recorded_op :: "write_env \<times> ('s, 'i, 'o) RecorderCall \<Rightarrow> ('i, 'o) Operation option" where
  "recorded_op (env, CallRequest proc x) =
     Some \<lparr>o_Action = InvokeOperation, o_Proc = proc, o_Data = Request x, o_Time = Some (now env)\<rparr>"
| "recorded_op (env, CallResponse proc y) =
     Some \<lparr>o_Action = ReturnOperation, o_Proc = proc, o_Data = Response y, o_Time = Some (now env)\<rparr>"
| "recorded_op _ = None"

fun recorded_state :: "'s option \<Rightarrow> (write_env \<times> ('s, 'i, 'o) RecorderCall) list \<Rightarrow> 's option" where
  "recorded_state st [] = st"
| "recorded_state st ((env, CallState s) # cs) = recorded_state (Some s) cs"
| "recorded_state st (c # cs) = recorded_state st cs"

fun nemesis_call :: "write_env \<times> ('s, 'i, 'o) RecorderCall \<Rightarrow> bool" where
  "nemesis_call (env, CallInvokeNemesis n) \<longleftrightarrow> True"
| "nemesis_call (env, CallRecoverNemesis n) \<longleftrightarrow> True"
| "nemesis_call _ \<longleftrightarrow> False"

text \<open>A parser that gives back the states, requests and responses that were encoded.\<close>

definition parser_decodes :: "('s, 'i, 'o, 'r) marshaller \<Rightarrow> ('r, 's, 'i, 'o) RecordParser \<Rightarrow> bool" where
  "parser_decodes enc p \<longleftrightarrow>
     (\<forall>s d. fst enc (StatePayload s) = Some d \<longrightarrow> OnState p d = Some s) \<and>
     (\<forall>x d. fst enc (RequestPayload x) = Some d \<longrightarrow> OnRequest p d = Some x) \<and>
     (\<forall>y d. fst enc (ResponsePayload y) = Some d \<longrightarrow> OnResponse p d = Some y)"

lemma parser_decodesD:
  assumes "parser_decodes enc p"
  shows "fst enc (StatePayload s) = Some d \<Longrightarrow> OnState p d = Some s"
    "fst enc (RequestPayload x) = Some d \<Longrightarrow> OnRequest p d = Some x"
    "fst enc (ResponsePayload y) = Some d \<Longrightarrow> OnResponse p d = Some y"
  using assms unfolding parser_decodes_def by blast+

lemma read_calls_recorded:
  assumes D: "parser_decodes enc p"
  shows "\<lbrakk>\<forall>c \<in> set cs. encoded_line enc c \<noteq> None \<and> \<not> nemesis_call c\<rbrakk> \<Longrightarrow>
    read_calls enc nemesis p cs ops st = Inr (ops @ List.map_filter recorded_op cs, recorded_state st cs)"
proof (induction cs arbitrary: ops st)
  case (Cons c cs)
  obtain env call where c: "c = (env, call)" by (cases c)
  have e: "encoded_line enc (env, call) \<noteq> None" "\<not> nemesis_call (env, call)" using Cons.prems c by auto
  show ?case
  proof (cases call)
    case (CallState s)
    then obtain d where "fst enc (StatePayload s) = Some d" using e by (auto simp: encoded_line_def encoded_record_def split: Option.bind_splits)
    then show ?thesis using Cons CallState c parser_decodesD(1) [OF D] by (simp add: map_filter_simps)
  next
    case (CallRequest q x)
    then obtain d where "fst enc (RequestPayload x) = Some d" using e by (auto simp: encoded_line_def encoded_record_def split: Option.bind_splits)
    then show ?thesis using Cons CallRequest c parser_decodesD(2) [OF D] by (simp add: map_filter_simps)
  next
    case (CallResponse q y)
    then obtain d where "fst enc (ResponsePayload y) = Some d" using e by (auto simp: encoded_line_def encoded_record_def split: Option.bind_splits)
    then show ?thesis using Cons CallResponse c parser_decodesD(3) [OF D] by (simp add: map_filter_simps)
  qed (use e in auto)
qed (simp add: map_filter_simps)

lemma record_all_encoded: "record_all enc cs f = Some f' \<Longrightarrow> \<forall>c \<in> set cs. encoded_line enc c \<noteq> None"
  using record_all_lines [of enc cs f f'] list_all2_right [of _ cs] by fastforce

lemma record_all_reads:
  assumes "record_all enc cs [] = Some f" "json_records enc unmarshal" "parser_decodes enc p"
    and "\<forall>c \<in> set cs. fits enc limit c \<and> \<not> nemesis_call c"
  shows "ReadHistory unmarshal nemesis p (Some (scan_lines limit f)) = Inr (List.map_filter recorded_op cs, recorded_state None cs)"
  using recorded_reads(1) [OF assms(1,2), of nemesis p limit] read_calls_recorded [OF assms(3), of cs nemesis "[]" None]
    record_all_encoded [OF assms(1)] assms(4) by auto

text \<open>C17. Reading back a history file. A recorder was asked to record a sequence of states, requests, responses and
  nemesis events, and every call succeeded; of JSON it is assumed that decoding the line of a record gives the record, its data still
  raw, and that a record is encoded without line breaks. If some line reaches the 50 MB of the scanner's buffer,
  reading fails. Otherwise scanning the bytes of the file into lines and decoding them gives one operation per
  call, in the order of the calls, with its action, process and time and with what the parser of the workload (for nemesis events the
  decoder of the record) makes of the encoded data, and the state recorded last; a datum that it cannot decode is an error.
  In particular, without nemesis events and with a parser that inverts the encoding of states, requests and
  responses, exactly the recorded operations and the last state are read.\<close>

theorem recorded_history_reads_back:
  assumes "record_all enc cs [] = Some f" and "json_records enc unmarshal"
  shows "ReadHistory unmarshal nemesis p (Some (scan_lines maxTokenSize f)) =
      (if \<forall>c \<in> set cs. fits enc maxTokenSize c then read_calls enc nemesis p cs [] None else Inl ReadError) \<and>
    (parser_decodes enc p \<and> (\<forall>c \<in> set cs. fits enc maxTokenSize c \<and> \<not> nemesis_call c) \<longrightarrow>
      ReadHistory unmarshal nemesis p (Some (scan_lines maxTokenSize f)) = Inr (List.map_filter recorded_op cs, recorded_state None cs))"
  using recorded_reads(1) [OF assms] record_all_reads [OF assms] by blast

text \<open>JSON text for records whose data are integers; the time is a number of nanoseconds. Numbers beyond 64 bits and other
  actions cannot be encoded.\<close>

definition json_number :: "int \<Rightarrow> string option" where
  "json_number i = (if int64 i then Some (Itoa i) else None)"

definition sample_data :: "(int, int, int) Payload \<Rightarrow> string option" where
  "sample_data op = (case op of StatePayload s \<Rightarrow> json_number s | RequestPayload x \<Rightarrow> json_number x | ResponsePayload y \<Rightarrow> json_number y | _ \<Rightarrow> None)"

definition json_text :: "string opRecord \<Rightarrow> int \<Rightarrow> string" where
  "json_text r t = ''{\"action\":\"'' @ rec_Action r @ ''\",\"proc\":'' @ Itoa (rec_Proc r) @ '',\"time\":'' @ Itoa t @ '',\"data\":'' @ rec_Data r @ ''}''"

definition sample_line :: "string opRecord \<Rightarrow> string option" where
  "sample_line r =
     (case rec_Time r of
        None \<Rightarrow> None
      | Some t \<Rightarrow> if rec_Action r \<in> {dumpOperation, InvokeOperation, ReturnOperation, InvokeNemesis, RecoverNemesis} \<and> int64 (rec_Proc r) \<and> int64 t
                  then Some (json_text r t) else None)"

definition sample_encoder :: "(int, int, int, string) marshaller" where
  "sample_encoder = (sample_data, sample_line)"

definition json_int :: "string \<Rightarrow> (int \<times> string) option" where
  "json_int s = (case Atoi (takeWhile (\<lambda>c. c \<noteq> CHR '','') s) of Inl _ \<Rightarrow> None | Inr i \<Rightarrow> Some (i, dropWhile (\<lambda>c. c \<noteq> CHR '','') s))"

definition sample_decode :: "string \<Rightarrow> string opRecord option" where
  "sample_decode l = do {
     let s = drop 11 l;
     let action = takeWhile (\<lambda>c. c \<noteq> CHR 0x22) s;
     (proc, s) \<leftarrow> json_int (drop (length action + 9) s);
     (t, s) \<leftarrow> json_int (drop 8 s);
     Some \<lparr>rec_Action = action, rec_Proc = proc, rec_Time = Some t, rec_Data = butlast (drop 8 s)\<rparr> }"

definition sample_int :: "string \<Rightarrow> int option" where
  "sample_int s = (case Atoi s of Inl _ \<Rightarrow> None | Inr i \<Rightarrow> Some i)"

definition sample_record_parser :: "(string, int, int, int) RecordParser" where
  "sample_record_parser = \<lparr>OnRequest = sample_int, OnResponse = sample_int, OnNoopResponse = Some 0, OnState = sample_int\<rparr>"

definition sample_calls :: "(write_env \<times> (int, int, int) RecorderCall) list" where
  "sample_calls = (let env = (\<lambda>t. \<lparr>now = t, data_write = None, newline_write = None\<rparr>)
     in [(env 1, CallState 5), (env 2, CallRequest 3 7), (env 4, CallResponse 3 8)])"

lemma json_int_Itoa: "int64 i \<Longrightarrow> json_int (Itoa i @ CHR '','' # rest) = Some (i, CHR '','' # rest)"
proof -
  have "\<forall>c \<in> set (Itoa i). c \<noteq> CHR '',''" using Itoa_num [of i] by (auto simp: list_all_iff num_char_def is_digit_def)
  then have "takeWhile (\<lambda>c. c \<noteq> CHR '','') (Itoa i @ CHR '','' # rest) = Itoa i"
    "dropWhile (\<lambda>c. c \<noteq> CHR '','') (Itoa i @ CHR '','' # rest) = CHR '','' # rest"
    by (simp_all add: takeWhile_append2 dropWhile_append2)
  then show "int64 i \<Longrightarrow> ?thesis" by (simp add: json_int_def)
qed

lemma sample_decode_text:
  assumes "rec_Time r = Some t" "int64 t" "int64 (rec_Proc r)" "CHR 0x22 \<notin> set (rec_Action r)"
  shows "sample_decode (json_text r t) = Some r"
proof -
  have "takeWhile (\<lambda>c. c \<noteq> CHR 0x22) (rec_Action r @ CHR 0x22 # rest) = rec_Action r" for rest
    using assms(4) by (subst takeWhile_append2) auto
  then show ?thesis using assms(1-3) by (simp add: sample_decode_def json_text_def json_int_Itoa)
qed

lemma sample_json: "json_records sample_encoder sample_decode"
  unfolding json_records_def
proof (intro allI impI)
  fix op and r :: "string opRecord" and line
  assume "fst sample_encoder op = Some (rec_Data r)" "snd sample_encoder r = Some line"
  then have "\<exists>i. Itoa i = rec_Data r" and line: "sample_line r = Some line"
    by (auto simp: sample_encoder_def sample_data_def json_number_def split: Payload.splits if_splits)
  then obtain i where "rec_Data r = Itoa i" by metis
  moreover from line obtain t where "rec_Time r = Some t" by (cases "rec_Time r") (simp_all add: sample_line_def)
  ultimately have *: "rec_Data r = Itoa i" "rec_Time r = Some t" "int64 (rec_Proc r)" "int64 t" "line = json_text r t"
    "rec_Action r \<in> {dumpOperation, InvokeOperation, ReturnOperation, InvokeNemesis, RecoverNemesis}"
    using line by (auto simp: sample_line_def split: if_splits)
  then have "sample_decode line = Some r" by (auto intro!: sample_decode_text simp: action_defs)
  moreover have "CHR 0x0A \<notin> set (Itoa j)" "CHR 0x0D \<notin> set (Itoa j)" for j
    using Itoa_num [of j] by (auto simp: list_all_iff num_char_def is_digit_def)
  ultimately show "sample_decode line = Some r \<and> CHR 0x0A \<notin> set line \<and> CHR 0x0D \<notin> set line"
    using * by (auto simp: json_text_def action_defs)
qed

lemma sample_parser_decodes: "parser_decodes sample_encoder sample_record_parser"
  by (auto simp: parser_decodes_def sample_encoder_def sample_data_def json_number_def sample_record_parser_def sample_int_def
      split: if_splits)

theorem recorded_history_reads_back_witness:
  "\<exists>f. record_all sample_encoder sample_calls [] = Some f \<and>
     ReadHistory sample_decode (\<lambda>_. None, \<lambda>_. None) sample_record_parser (Some (scan_lines maxTokenSize f)) =
     Inr ([\<lparr>o_Action = ''call'', o_Proc = 3, o_Data = Request 7, o_Time = Some 2\<rparr>,
           \<lparr>o_Action = ''return'', o_Proc = 3, o_Data = Response 8, o_Time = Some 4\<rparr>], Some 5)"
proof -
  have "record_all sample_encoder sample_calls [] \<noteq> None" by code_simp
  then obtain f where f: "record_all sample_encoder sample_calls [] = Some f" by blast
  have "\<forall>c \<in> set sample_calls. fits sample_encoder 60 c \<and> \<not> nemesis_call c" by code_simp
  then have "\<forall>c \<in> set sample_calls. fits sample_encoder maxTokenSize c \<and> \<not> nemesis_call c"
    by (auto simp: maxTokenSize_def intro: fits_mono)
  with recorded_history_reads_back [OF f sample_json] sample_parser_decodes
  have "ReadHistory sample_decode (\<lambda>_. None, \<lambda>_. None) sample_record_parser (Some (scan_lines maxTokenSize f)) =
    Inr (List.map_filter recorded_op sample_calls, recorded_state None sample_calls)" by blast
  with f show ?thesis by (intro exI [of _ f]) (simp add: sample_calls_def map_filter_simps action_defs)
qed

end
