(* ===== verification/Client_Loop.thy ===== *)
theory Client_Loop
  imports Recording "HOL-Library.Word"
begin

text \<open>
  The loops in which the clients of a round emit requests: \<open>OnClientLoop\<close> and the loop of
  \<open>BuildClientLoopThrottle\<close> in \<open>cmd/util/suit.go\<close>, run concurrently by \<open>RunClientOnSchedule\<close> and
  \<open>RunWithNemesisSequential\<close> of \<open>pkg/control/control.go\<close> on two shared counters and one recorder.

  A client is a program counter over the statements of the loop; a step of the round is a step of one
  client, so every interleaving of the atomic operations is a run. The counters are 64 bit words, as
  \<open>atomic.AddInt64\<close> has them; a process identifier is the signed value of such a word. What
  \<open>NextRequest\<close> and \<open>Invoke\<close> return is arbitrary. A record that cannot be written ends the process.
\<close>

section \<open>The state of a round\<close>

datatype ('i, 'o) pc =
    Begin
  | Test "64 word"
  | Token "64 word"
  | Next "64 word"
  | Invoking "64 word" 'i
  | Responded "64 word" 'o
  | Recorded "64 word" bool
  | Select "64 word"
  | Exited

text \<open>The goroutine that hands out tokens: it sleeps, waits for the next tick or the end of the context,
  offers a token, or has closed the channel. \<open>OnClientLoop\<close> has none.\<close>

datatype ticker = NoTicker | Sleeping | Ticking | Sending | Closed

record ('i, 'o) client =
  cl_pc :: "('i, 'o) pc"
  cl_ticker :: ticker

record shared =
  sh_proc :: "64 word"
  sh_requestCount :: "64 word"
  sh_file :: string
  sh_fatal :: bool

definition AddInt64 :: "64 word \<Rightarrow> 64 word \<Rightarrow> 64 word" where
  "AddInt64 addr delta = addr + delta"

section \<open>The steps of a client\<close>

text \<open>The rules follow the statements of the two loops, which differ in the token that the throttled one
  receives before a request. \<open>ctx_done\<close> is the context of the round; the context of a throttled client
  is also done once its loop has returned.\<close>

inductive client_step :: "('s, 'i, 'o, 'r) marshaller \<Rightarrow> ('o \<Rightarrow> bool) \<Rightarrow> bool \<Rightarrow>
    ('i, 'o) client \<times> shared \<Rightarrow> ('i, 'o) client \<times> shared \<Rightarrow> bool"
  for enc :: "('s, 'i, 'o, 'r) marshaller" and IsUnknown :: "'o \<Rightarrow> bool" and ctx_done :: bool where
  first_proc: "cl_pc c = Begin \<Longrightarrow> p = AddInt64 (sh_proc sh) 1 \<Longrightarrow>
    client_step enc IsUnknown ctx_done (c, sh) (c\<lparr>cl_pc := Test p\<rparr>, sh\<lparr>sh_proc := p\<rparr>)"
| take_request: "cl_pc c = Test p \<Longrightarrow> r = AddInt64 (sh_requestCount sh) (- 1) \<Longrightarrow> 0 \<le> sint r \<Longrightarrow>
    client_step enc IsUnknown ctx_done (c, sh)
      (c\<lparr>cl_pc := if cl_ticker c = NoTicker then Next p else Token p\<rparr>, sh\<lparr>sh_requestCount := r\<rparr>)"
| used_up: "cl_pc c = Test p \<Longrightarrow> r = AddInt64 (sh_requestCount sh) (- 1) \<Longrightarrow> sint r < 0 \<Longrightarrow>
    client_step enc IsUnknown ctx_done (c, sh) (c\<lparr>cl_pc := Exited\<rparr>, sh\<lparr>sh_requestCount := r\<rparr>)"
| receive_token: "cl_pc c = Token p \<Longrightarrow> cl_ticker c = Sending \<Longrightarrow>
    client_step enc IsUnknown ctx_done (c, sh) (c\<lparr>cl_pc := Next p, cl_ticker := Ticking\<rparr>, sh)"
| no_token: "cl_pc c = Token p \<Longrightarrow> cl_ticker c = Closed \<Longrightarrow>
    client_step enc IsUnknown ctx_done (c, sh) (c\<lparr>cl_pc := Exited\<rparr>, sh)"
| record_request: "cl_pc c = Next p \<Longrightarrow> RecordRequest enc env (sint p) request (sh_file sh) = (f, True) \<Longrightarrow>
    client_step enc IsUnknown ctx_done (c, sh) (c\<lparr>cl_pc := Invoking p request\<rparr>, sh\<lparr>sh_file := f\<rparr>)"
| request_fatal: "cl_pc c = Next p \<Longrightarrow> RecordRequest enc env (sint p) request (sh_file sh) = (f, False) \<Longrightarrow>
    client_step enc IsUnknown ctx_done (c, sh) (c, sh\<lparr>sh_file := f, sh_fatal := True\<rparr>)"
| invoke: "cl_pc c = Invoking p request \<Longrightarrow>
    client_step enc IsUnknown ctx_done (c, sh) (c\<lparr>cl_pc := Responded p response\<rparr>, sh)"
| record_response: "cl_pc c = Responded p response \<Longrightarrow> RecordResponse enc env (sint p) response (sh_file sh) = (f, True) \<Longrightarrow>
    client_step enc IsUnknown ctx_done (c, sh) (c\<lparr>cl_pc := Recorded p (IsUnknown response)\<rparr>, sh\<lparr>sh_file := f\<rparr>)"
| response_fatal: "cl_pc c = Responded p response \<Longrightarrow> RecordResponse enc env (sint p) response (sh_file sh) = (f, False) \<Longrightarrow>
    client_step enc IsUnknown ctx_done (c, sh) (c, sh\<lparr>sh_file := f, sh_fatal := True\<rparr>)"
| new_proc: "cl_pc c = Recorded p True \<Longrightarrow> q = AddInt64 (sh_proc sh) 1 \<Longrightarrow>
    client_step enc IsUnknown ctx_done (c, sh) (c\<lparr>cl_pc := Select q\<rparr>, sh\<lparr>sh_proc := q\<rparr>)"
| same_proc: "cl_pc c = Recorded p False \<Longrightarrow>
    client_step enc IsUnknown ctx_done (c, sh) (c\<lparr>cl_pc := Select p\<rparr>, sh)"
| select_done: "cl_pc c = Select p \<Longrightarrow> ctx_done \<Longrightarrow>
    client_step enc IsUnknown ctx_done (c, sh) (c\<lparr>cl_pc := Exited\<rparr>, sh)"
| select_default: "cl_pc c = Select p \<Longrightarrow> \<not> ctx_done \<Longrightarrow>
    client_step enc IsUnknown ctx_done (c, sh) (c\<lparr>cl_pc := Test p\<rparr>, sh)"
| ticker_wakes: "cl_ticker c = Sleeping \<Longrightarrow>
    client_step enc IsUnknown ctx_done (c, sh) (c\<lparr>cl_ticker := Ticking\<rparr>, sh)"
| ticker_ticks: "cl_ticker c = Ticking \<Longrightarrow>
    client_step enc IsUnknown ctx_done (c, sh) (c\<lparr>cl_ticker := Sending\<rparr>, sh)"
| ticker_stops: "cl_ticker c = Ticking \<Longrightarrow> ctx_done \<or> cl_pc c = Exited \<Longrightarrow>
    client_step enc IsUnknown ctx_done (c, sh) (c\<lparr>cl_ticker := Closed\<rparr>, sh)"

inductive_cases client_stepE: "client_step enc IsUnknown ctx_done (c, sh) (c', sh')"

section \<open>A round\<close>

record ('i, 'o) round =
  rd_clients :: "('i, 'o) client list"
  rd_shared :: shared
  rd_done :: bool

definition start_round :: "bool \<Rightarrow> nat \<Rightarrow> 64 word \<Rightarrow> 64 word \<Rightarrow> string \<Rightarrow> ('i, 'o) round" where
  "start_round throttled n proc requestCount file =
     \<lparr>rd_clients = replicate n \<lparr>cl_pc = Begin, cl_ticker = if throttled then Sleeping else NoTicker\<rparr>,
      rd_shared = \<lparr>sh_proc = proc, sh_requestCount = requestCount, sh_file = file, sh_fatal = False\<rparr>,
      rd_done = False\<rparr>"

text \<open>\<open>log.Fatalf\<close> ends the process.\<close>

inductive client_moves :: "('s, 'i, 'o, 'r) marshaller \<Rightarrow> ('o \<Rightarrow> bool) \<Rightarrow> ('i, 'o) round \<Rightarrow> ('i, 'o) round \<Rightarrow> bool"
  for enc :: "('s, 'i, 'o, 'r) marshaller" and IsUnknown :: "'o \<Rightarrow> bool" where
  client: "i < length (rd_clients s) \<Longrightarrow> \<not> sh_fatal (rd_shared s) \<Longrightarrow>
    client_step enc IsUnknown (rd_done s) (rd_clients s ! i, rd_shared s) (c', sh') \<Longrightarrow>
    client_moves enc IsUnknown s (s\<lparr>rd_clients := (rd_clients s)[i := c'], rd_shared := sh'\<rparr>)"

text \<open>The context may be done at any moment, by its time limit or by a cancellation.\<close>

inductive round_step :: "('s, 'i, 'o, 'r) marshaller \<Rightarrow> ('o \<Rightarrow> bool) \<Rightarrow> ('i, 'o) round \<Rightarrow> ('i, 'o) round \<Rightarrow> bool"
  for enc :: "('s, 'i, 'o, 'r) marshaller" and IsUnknown :: "'o \<Rightarrow> bool" where
  moves: "client_moves enc IsUnknown s s' \<Longrightarrow> round_step enc IsUnknown s s'"
| ends: "\<not> rd_done s \<Longrightarrow> \<not> sh_fatal (rd_shared s) \<Longrightarrow> round_step enc IsUnknown s (s\<lparr>rd_done := True\<rparr>)"

abbreviation reachable :: "('s, 'i, 'o, 'r) marshaller \<Rightarrow> ('o \<Rightarrow> bool) \<Rightarrow> ('i, 'o) round \<Rightarrow> ('i, 'o) round \<Rightarrow> bool" where
  "reachable enc IsUnknown \<equiv> (round_step enc IsUnknown)\<^sup>*\<^sup>*"

section \<open>Process identifiers\<close>

text \<open>The process a client will use or uses, and whether its request is recorded and its response not.\<close>

fun live :: "('i, 'o) pc \<Rightarrow> 64 word option" where
  "live Begin = None"
| "live (Test p) = Some p"
| "live (Token p) = Some p"
| "live (Next p) = Some p"
| "live (Invoking p x) = Some p"
| "live (Responded p y) = Some p"
| "live (Recorded p u) = (if u then None else Some p)"
| "live (Select p) = Some p"
| "live Exited = None"

fun inflight :: "('i, 'o) pc \<Rightarrow> bool" where
  "inflight (Invoking p x) = True"
| "inflight (Responded p y) = True"
| "inflight _ = False"

text \<open>The discipline that keeps the histories of the processes apart: \<open>L\<close> and \<open>F\<close> give the process of a
  client and whether it is in flight, \<open>U\<close> are the identifiers handed out, \<open>K\<close> those with an open call.\<close>

definition disciplined :: "(nat \<Rightarrow> 'p option) \<Rightarrow> (nat \<Rightarrow> bool) \<Rightarrow> 'p set \<Rightarrow> 'p set \<Rightarrow> bool" where
  "disciplined L F U K \<longleftrightarrow> (\<forall>i p. L i = Some p \<longrightarrow> p \<in> U \<and> (p \<in> K \<longleftrightarrow> F i)) \<and>
     (\<forall>i j p. L i = Some p \<longrightarrow> L j = Some p \<longrightarrow> i = j) \<and> K \<subseteq> U"

lemma disciplined_drop: "disciplined L F U K \<Longrightarrow> disciplined (L(i := None)) (F(i := b)) U K"
  by (auto simp: disciplined_def)

lemma disciplined_new:
  "disciplined L F U K \<Longrightarrow> q \<notin> U \<Longrightarrow> disciplined (L(i := Some q)) (F(i := False)) (insert q U) K"
  by (auto simp: disciplined_def)

lemma disciplined_call:
  "disciplined L F U K \<Longrightarrow> L i = Some p \<Longrightarrow> \<not> F i \<Longrightarrow> p \<notin> K \<and> disciplined L (F(i := True)) U (insert p K)"
  by (auto simp: disciplined_def)

lemma disciplined_return:
  "disciplined L F U K \<Longrightarrow> L i = Some p \<Longrightarrow> F i \<Longrightarrow> p \<in> K \<and> disciplined L (F(i := False)) U (K - {p})"
  by (auto simp: disciplined_def)

text \<open>Identifiers are numbered from the value the counter had at the start.\<close>

definition ids :: "64 word \<Rightarrow> 64 word \<Rightarrow> 64 word set" where
  "ids p0 q = {p. 1 \<le> unat (p - p0) \<and> unat (p - p0) \<le> unat (q - p0)}"

lemma unat_add_one: "unat (x :: 64 word) < 2 ^ 64 - 1 \<Longrightarrow> unat (x + 1) = Suc (unat x)"
  by (subst unat_word_ariths) simp

lemma ids_AddInt64:
  assumes "unat (q - p0) < 2 ^ 64 - 1"
  shows "unat (AddInt64 q 1 - p0) = Suc (unat (q - p0))" "ids p0 (AddInt64 q 1) = insert (AddInt64 q 1) (ids p0 q)"
    "AddInt64 q 1 \<notin> ids p0 q"
proof -
  have "AddInt64 q 1 - p0 = (q - p0) + 1" by (simp add: AddInt64_def)
  then show u: "unat (AddInt64 q 1 - p0) = Suc (unat (q - p0))" using assms by (simp only: unat_add_one)
  then show "AddInt64 q 1 \<notin> ids p0 q" by (simp add: ids_def)
  have "p = AddInt64 q 1" if "unat (p - p0) = Suc (unat (q - p0))" for p
    using that u by (metis unsigned_word_eqI diff_add_cancel)
  then have "unat (p - p0) = Suc (unat (q - p0)) \<longleftrightarrow> p = AddInt64 q 1" for p using u by blast
  then show "ids p0 (AddInt64 q 1) = insert (AddInt64 q 1) (ids p0 q)"
    unfolding ids_def u le_Suc_eq by (auto simp: u)
qed

lemma sint_inject [simp]: "sint (p :: 64 word) = sint q \<longleftrightarrow> p = q"
  by (metis signed_word_eqI)

lemma sint_dec:
  assumes "- (2 ^ 63) < sint (w :: 64 word)" shows "sint (AddInt64 w (- 1)) = sint w - 1"
proof -
  have "sint w < 2 ^ 63" using sint_lt [of w] by simp
  with assms show ?thesis
    by (simp add: AddInt64_def sint_word_ariths signed_take_bit_int_eq_self)
qed

section \<open>The invariant of a round\<close>

text \<open>How many more identifiers a client may take before it tests the request counter again, and whether
  it holds a request that is not recorded.\<close>

fun owes :: "('i, 'o) pc \<Rightarrow> nat" where
  "owes (Test p) = 0"
| "owes (Recorded p u) = (if u then 1 else 0)"
| "owes (Select p) = 0"
| "owes Exited = 0"
| "owes _ = 1"

fun holds_request :: "('i, 'o) pc \<Rightarrow> nat" where
  "holds_request (Token p) = 1"
| "holds_request (Next p) = 1"
| "holds_request _ = 0"

definition has_exited :: "('i, 'o) pc \<Rightarrow> nat" where
  "has_exited p = (if p = Exited then 1 else 0)"

definition total :: "(('i, 'o) pc \<Rightarrow> nat) \<Rightarrow> ('i, 'o) client list \<Rightarrow> nat" where
  "total w cs = sum_list (map (\<lambda>c. w (cl_pc c)) cs)"

lemma total_update:
  "i < length cs \<Longrightarrow> total w (cs[i := c]) + w (cl_pc (cs ! i)) = total w cs + w (cl_pc c)"
  by (induction cs arbitrary: i) (auto simp: total_def nth_Cons split: nat.splits)

definition recorded_ops :: "(write_env \<times> ('s, 'i, 'o) RecorderCall) list \<Rightarrow> ('i, 'o) Operation list" where
  "recorded_ops cs = List.map_filter recorded_op cs"

text \<open>The counters: identifiers do not run out, and the request counter does not underflow. No request is
  lost unless the context is done.\<close>

definition counters_ok :: "nat \<Rightarrow> 64 word \<Rightarrow> nat \<Rightarrow> ('i, 'o) round \<Rightarrow> nat \<Rightarrow> bool" where
  "counters_ok n p0 budget s requests \<longleftrightarrow>
     (let sh = rd_shared s; r = sint (sh_requestCount sh); left = nat (max 0 r)
      in length (rd_clients s) = n \<and>
         unat (sh_proc sh - p0) + total owes (rd_clients s) + left \<le> n + budget \<and>
         - int (total has_exited (rd_clients s)) \<le> r \<and>
         requests + total holds_request (rd_clients s) + left \<le> budget \<and>
         (\<not> rd_done s \<longrightarrow> requests + total holds_request (rd_clients s) + left = budget \<and>
            (0 < total has_exited (rd_clients s) \<longrightarrow> r \<le> 0) \<and>
            (\<forall>c \<in> set (rd_clients s). cl_ticker c = Closed \<longrightarrow> cl_pc c = Exited)))"

definition proc_of :: "('i, 'o) client list \<Rightarrow> nat \<Rightarrow> 64 word option" where
  "proc_of cs i = (if i < length cs then live (cl_pc (cs ! i)) else None)"

definition flies :: "('i, 'o) client list \<Rightarrow> nat \<Rightarrow> bool" where
  "flies cs i = inflight (cl_pc (cs ! i))"

text \<open>The history: the file holds the recorded calls, and completing them succeeds; the open processes are
  those in flight and those given up after an unknown response.\<close>

definition history_ok :: "('s, 'i, 'o, 'r) marshaller \<Rightarrow> ('o \<Rightarrow> bool) \<Rightarrow> 64 word \<Rightarrow> ('i, 'o) round \<Rightarrow>
    (write_env \<times> ('s, 'i, 'o) RecorderCall) list \<Rightarrow> bool" where
  "history_ok enc IsUnknown p0 s recs \<longleftrightarrow> record_all enc recs [] = Some (sh_file (rd_shared s)) \<and>
     (\<exists>pm cops. complete_loop IsUnknown (recorded_ops recs) [] [] = Inr (pm, cops) \<and> keys pm \<subseteq> range (sint :: 64 word \<Rightarrow> int) \<and>
        disciplined (proc_of (rd_clients s)) (flies (rd_clients s)) (ids p0 (sh_proc (rd_shared s))) {p :: 64 word. sint p \<in> keys pm})"

lemma record_all_snoc:
  "record_all enc (cs @ [c]) f = (case record_all enc cs f of None \<Rightarrow> None
     | Some f' \<Rightarrow> (case record_one enc c f' of (f'', ok) \<Rightarrow> if ok then Some f'' else None))"
  by (induction cs arbitrary: f) (auto split: prod.splits option.splits)

lemma recorded_ops_snoc:
  "recorded_ops (cs @ [c]) = recorded_ops cs @ (case recorded_op c of None \<Rightarrow> [] | Some op \<Rightarrow> [op])"
  by (induction cs) (auto simp: recorded_ops_def map_filter_simps split: option.splits)

lemma complete_loop_snoc:
  "complete_loop IsUnknown ops pm cops = Inr (pm', cops') \<Longrightarrow>
   complete_loop IsUnknown (ops @ [op]) pm cops = complete_loop IsUnknown [op] pm' cops'"
  by (induction ops arbitrary: pm cops) (simp_all split: if_splits)

text \<open>What a step of client \<open>i\<close> means for the discipline.\<close>

definition requests_in :: "(write_env \<times> ('s, 'i, 'o) RecorderCall) list \<Rightarrow> nat" where
  "requests_in cs = length (filter (\<lambda>(env, c). \<exists>proc x. c = CallRequest proc x) cs)"

definition responses_in :: "(write_env \<times> ('s, 'i, 'o) RecorderCall) list \<Rightarrow> nat" where
  "responses_in cs = length (filter (\<lambda>(env, c). \<exists>proc y. c = CallResponse proc y) cs)"

definition in_air :: "('i, 'o) pc \<Rightarrow> nat" where
  "in_air p = (if inflight p then 1 else 0)"

fun makes_request :: "('i, 'o) pc \<Rightarrow> ('i, 'o) pc \<Rightarrow> nat" where
  "makes_request (Next p) (Next q) = 0"
| "makes_request (Next p) _ = 1"
| "makes_request _ _ = 0"

lemma makes_no_request [simp]: "(\<And>p. c = Next p \<Longrightarrow> c' = Next p) \<Longrightarrow> makes_request c c' = 0"
  by (cases "(c, c')" rule: makes_request.cases) auto

text \<open>The calls that clients make.\<close>

definition client_call :: "write_env \<times> ('s, 'i, 'o) RecorderCall \<Rightarrow> bool" where
  "client_call c \<longleftrightarrow> (\<exists>proc x. snd c = CallRequest proc x) \<or> (\<exists>proc y. snd c = CallResponse proc y)"

lemma proc_of_update: "i < length cs \<Longrightarrow> proc_of (cs[i := c]) = (proc_of cs)(i := live (cl_pc c))"
  by (auto simp: fun_eq_iff nth_list_update proc_of_def)

lemma flies_update: "i < length cs \<Longrightarrow> flies (cs[i := c]) = (flies cs)(i := inflight (cl_pc c))"
  by (auto simp: fun_eq_iff nth_list_update flies_def)

lemma history_append:
  assumes "history_ok enc IsUnknown p0 s recs" "record_one enc call (sh_file (rd_shared s)) = (f, True)"
    and "recorded_op call = Some op"
    and "\<And>pm cops. \<lbrakk>keys pm \<subseteq> range (sint :: 64 word \<Rightarrow> int);
        disciplined (proc_of (rd_clients s)) (flies (rd_clients s)) (ids p0 (sh_proc (rd_shared s))) {p :: 64 word. sint p \<in> keys pm}\<rbrakk> \<Longrightarrow>
      \<exists>pm' cops'. complete_loop IsUnknown [op] pm cops = Inr (pm', cops') \<and> keys pm' \<subseteq> range (sint :: 64 word \<Rightarrow> int) \<and>
        disciplined (proc_of (rd_clients s')) (flies (rd_clients s')) (ids p0 (sh_proc (rd_shared s'))) {p :: 64 word. sint p \<in> keys pm'}"
    and "sh_file (rd_shared s') = f"
  shows "history_ok enc IsUnknown p0 s' (recs @ [call])"
proof -
  from assms(1) obtain pm cops where h: "record_all enc recs [] = Some (sh_file (rd_shared s))"
    "complete_loop IsUnknown (recorded_ops recs) [] [] = Inr (pm, cops)" "keys pm \<subseteq> range (sint :: 64 word \<Rightarrow> int)"
    "disciplined (proc_of (rd_clients s)) (flies (rd_clients s)) (ids p0 (sh_proc (rd_shared s))) {p :: 64 word. sint p \<in> keys pm}"
    unfolding history_ok_def by blast
  from assms(4) [OF h(3,4), of cops] show ?thesis
    using h(1,2) assms(2,3,5) unfolding history_ok_def
    by (simp add: record_all_snoc recorded_ops_snoc complete_loop_snoc)
qed

text \<open>What a step of client \<open>i\<close> to \<open>c'\<close> adds to the records.\<close>

definition extends :: "('s, 'i, 'o, 'r) marshaller \<Rightarrow> ('o \<Rightarrow> bool) \<Rightarrow> 64 word \<Rightarrow> ('i, 'o) pc \<Rightarrow> ('i, 'o) pc \<Rightarrow> ('i, 'o) round \<Rightarrow>
    (write_env \<times> ('s, 'i, 'o) RecorderCall) list \<Rightarrow> (write_env \<times> ('s, 'i, 'o) RecorderCall) list \<Rightarrow> bool" where
  "extends enc IsUnknown p0 c c' s' recs new \<longleftrightarrow> history_ok enc IsUnknown p0 s' (recs @ new) \<and>
     requests_in new = makes_request c c' \<and> requests_in new + in_air c = responses_in new + in_air c' \<and>
     (\<forall>c \<in> set new. client_call c)"

abbreviation moved :: "('i, 'o) round \<Rightarrow> nat \<Rightarrow> ('i, 'o) client \<Rightarrow> shared \<Rightarrow> ('i, 'o) round" where
  "moved s i c' sh' \<equiv> s\<lparr>rd_clients := (rd_clients s)[i := c'], rd_shared := sh'\<rparr>"

lemma current_process:
  "i < length cs \<Longrightarrow> (proc_of cs)(i := live (cl_pc (cs ! i))) = proc_of cs"
  "i < length cs \<Longrightarrow> (flies cs)(i := inflight (cl_pc (cs ! i))) = flies cs"
  by (auto simp: fun_eq_iff proc_of_def flies_def)

lemma history_silent:
  assumes h: "history_ok enc IsUnknown p0 s recs" and i: "i < length (rd_clients s)"
    and q: "sh_file sh' = sh_file (rd_shared s)" "\<And>p. cl_pc (rd_clients s ! i) = Next p \<Longrightarrow> cl_pc c' = Next p"
      "inflight (cl_pc c') = inflight (cl_pc (rd_clients s ! i))"
    and d: "\<And>K. disciplined (proc_of (rd_clients s)) (flies (rd_clients s)) (ids p0 (sh_proc (rd_shared s))) K \<Longrightarrow>
      disciplined ((proc_of (rd_clients s))(i := live (cl_pc c'))) (flies (rd_clients s)) (ids p0 (sh_proc sh')) K"
  shows "extends enc IsUnknown p0 (cl_pc (rd_clients s ! i)) (cl_pc c') (moved s i c' sh') recs []"
proof -
  have "history_ok enc IsUnknown p0 (moved s i c' sh') recs" using h q(1) d unfolding history_ok_def
    by (auto simp: proc_of_update [OF i] flies_update [OF i] current_process(2) [OF i] q(3))
  then show ?thesis by (simp add: extends_def requests_in_def responses_in_def in_air_def q(2,3))
qed

lemma history_request:
  assumes h: "history_ok enc IsUnknown p0 s recs" and i: "i < length (rd_clients s)"
    and pc: "cl_pc (rd_clients s ! i) = Next p" "cl_pc c' = Invoking p x"
    and r: "RecordRequest enc env (sint p) x (sh_file (rd_shared s)) = (f, True)" "sh' = (rd_shared s)\<lparr>sh_file := f\<rparr>"
  shows "extends enc IsUnknown p0 (cl_pc (rd_clients s ! i)) (cl_pc c') (moved s i c' sh') recs [(env, CallRequest (sint p) x)]"
proof -
  have pi: "proc_of (rd_clients s) i = Some p" "\<not> flies (rd_clients s) i"
    "(proc_of (rd_clients s))(i \<mapsto> p) = proc_of (rd_clients s)"
    using i pc by (auto simp: proc_of_def flies_def)
  have "history_ok enc IsUnknown p0 (moved s i c' sh') (recs @ [(env, CallRequest (sint p) x)])"
  proof (rule history_append [OF h])
    fix pm :: "(int, unit) gomap" and cops
    assume k: "keys pm \<subseteq> range (sint :: 64 word \<Rightarrow> int)"
      and d: "disciplined (proc_of (rd_clients s)) (flies (rd_clients s)) (ids p0 (sh_proc (rd_shared s))) {p. sint p \<in> keys pm}"
    have c: "insert p {q. sint q \<in> keys pm} = {q. q = p \<or> sint q \<in> keys pm}" by auto
    from disciplined_call [OF d pi(1,2)] pi(3)
    show "\<exists>pm' cops'. complete_loop IsUnknown [\<lparr>o_Action = InvokeOperation, o_Proc = sint p, o_Data = Request x, o_Time = Some (now env)\<rparr>] pm cops =
          Inr (pm', cops') \<and> keys pm' \<subseteq> range (sint :: 64 word \<Rightarrow> int) \<and>
        disciplined (proc_of (rd_clients (moved s i c' sh'))) (flies (rd_clients (moved s i c' sh')))
          (ids p0 (sh_proc (rd_shared (moved s i c' sh')))) {p. sint p \<in> keys pm'}"
      using k pc r(2) by (simp add: proc_of_update [OF i] flies_update [OF i] c)
  qed (use r in simp_all)
  then show ?thesis by (simp add: extends_def requests_in_def responses_in_def in_air_def client_call_def pc)
qed

lemma history_response:
  assumes h: "history_ok enc IsUnknown p0 s recs" and i: "i < length (rd_clients s)"
    and pc: "cl_pc (rd_clients s ! i) = Responded p y" "cl_pc c' = Recorded p (IsUnknown y)"
    and r: "RecordResponse enc env (sint p) y (sh_file (rd_shared s)) = (f, True)" "sh' = (rd_shared s)\<lparr>sh_file := f\<rparr>"
  shows "extends enc IsUnknown p0 (cl_pc (rd_clients s ! i)) (cl_pc c') (moved s i c' sh') recs [(env, CallResponse (sint p) y)]"
proof -
  have pi: "proc_of (rd_clients s) i = Some p" "flies (rd_clients s) i"
    "(proc_of (rd_clients s))(i \<mapsto> p) = proc_of (rd_clients s)"
    using i pc by (auto simp: proc_of_def flies_def)
  have "history_ok enc IsUnknown p0 (moved s i c' sh') (recs @ [(env, CallResponse (sint p) y)])"
  proof (rule history_append [OF h])
    fix pm :: "(int, unit) gomap" and cops
    assume k: "keys pm \<subseteq> range (sint :: 64 word \<Rightarrow> int)"
      and d: "disciplined (proc_of (rd_clients s)) (flies (rd_clients s)) (ids p0 (sh_proc (rd_shared s))) {p. sint p \<in> keys pm}"
    have c: "{q. sint q \<in> keys pm} - {p} = {q. sint q \<in> keys pm \<and> q \<noteq> p}" by auto
    from disciplined_return [OF d pi(1,2)] disciplined_drop [OF d, of i False] pi(3)
    show "\<exists>pm' cops'. complete_loop IsUnknown [\<lparr>o_Action = ReturnOperation, o_Proc = sint p, o_Data = Response y, o_Time = Some (now env)\<rparr>] pm cops =
          Inr (pm', cops') \<and> keys pm' \<subseteq> range (sint :: 64 word \<Rightarrow> int) \<and>
        disciplined (proc_of (rd_clients (moved s i c' sh'))) (flies (rd_clients (moved s i c' sh')))
          (ids p0 (sh_proc (rd_shared (moved s i c' sh')))) {p. sint p \<in> keys pm'}"
      using k pc r(2) by (auto simp: proc_of_update [OF i] flies_update [OF i] c)
  qed (use r in simp_all)
  then show ?thesis by (simp add: extends_def requests_in_def responses_in_def in_air_def client_call_def pc)
qed

text \<open>A client that is about to take an identifier finds the counter below its maximum.\<close>

lemma history_step:
  assumes h: "history_ok enc IsUnknown p0 s recs" and i: "i < length (rd_clients s)"
    and step: "client_step enc IsUnknown dn (rd_clients s ! i, rd_shared s) (c', sh')" "\<not> sh_fatal sh'"
    and room: "owes (cl_pc (rd_clients s ! i)) = 1 \<Longrightarrow> unat (sh_proc (rd_shared s) - p0) < 2 ^ 64 - 1"
  shows "\<exists>new. extends enc IsUnknown p0 (cl_pc (rd_clients s ! i)) (cl_pc c') (moved s i c' sh') recs new"
proof -
  let ?c = "rd_clients s ! i" and ?cs = "rd_clients s" and ?sh = "rd_shared s"
  note silent = history_silent [OF h i]
  note cur = current_process [OF i]
  have keep: "disciplined ((proc_of ?cs)(i := live (cl_pc c'))) (flies ?cs) (ids p0 (sh_proc sh')) K"
    if "disciplined (proc_of ?cs) (flies ?cs) (ids p0 (sh_proc ?sh)) K" "live (cl_pc c') = live (cl_pc ?c)" "sh_proc sh' = sh_proc ?sh" for K
    using that cur(1) by simp
  have drop: "disciplined ((proc_of ?cs)(i := live (cl_pc c'))) (flies ?cs) (ids p0 (sh_proc sh')) K"
    if "disciplined (proc_of ?cs) (flies ?cs) (ids p0 (sh_proc ?sh)) K" "live (cl_pc c') = None" "sh_proc sh' = sh_proc ?sh" for K
    using disciplined_drop [OF that(1), of i "inflight (cl_pc ?c)"] that cur(2) by simp
  have new: "disciplined ((proc_of ?cs)(i := live (cl_pc c'))) (flies ?cs) (ids p0 (sh_proc sh')) K"
    if "disciplined (proc_of ?cs) (flies ?cs) (ids p0 (sh_proc ?sh)) K" "live (cl_pc c') = Some (sh_proc sh')"
      "sh_proc sh' = AddInt64 (sh_proc ?sh) 1" "\<not> inflight (cl_pc ?c)" "owes (cl_pc ?c) = 1" for K
    using disciplined_new [OF that(1) ids_AddInt64(3) [OF room [OF that(5)]], of i] ids_AddInt64(2) [OF room [OF that(5)]] that cur(2) by simp
  from step show ?thesis
  proof cases
    case (record_request p env request f)
    then have "extends enc IsUnknown p0 (cl_pc ?c) (cl_pc c') (moved s i c' sh') recs [(env, CallRequest (sint p) request)]"
      by (intro history_request [OF h i]) simp_all
    then show ?thesis ..
  next
    case (record_response p response env f)
    then have "extends enc IsUnknown p0 (cl_pc ?c) (cl_pc c') (moved s i c' sh') recs [(env, CallResponse (sint p) response)]"
      by (intro history_response [OF h i]) simp_all
    then show ?thesis ..
  next
    case (first_proc p)
    then show ?thesis by (intro exI [of _ "[]"] silent new) simp_all
  next
    case (new_proc p q)
    then show ?thesis by (intro exI [of _ "[]"] silent new) simp_all
  next
    case (used_up p r)
    then show ?thesis by (intro exI [of _ "[]"] silent drop) simp_all
  next
    case (no_token p)
    then show ?thesis by (intro exI [of _ "[]"] silent drop) simp_all
  next
    case (select_done p)
    then show ?thesis by (intro exI [of _ "[]"] silent drop) simp_all
  qed (intro exI [of _ "[]"] silent keep; simp)+
qed

lemma total_le: "(\<And>p. w p \<le> 1) \<Longrightarrow> total w cs \<le> length cs"
  by (induction cs) (auto simp: total_def add_le_mono [of _ 1, simplified])

lemma total_ge: "i < length cs \<Longrightarrow> w (cl_pc (cs ! i)) \<le> total w cs"
  using elem_le_sum_list [of i "map (\<lambda>c. w (cl_pc c)) cs"] by (simp add: total_def)

lemma exited_le: "total has_exited cs \<le> length cs"
  by (rule total_le) (simp add: has_exited_def)

lemma exited_less:
  assumes "i < length cs" "cl_pc (cs ! i) \<noteq> Exited" shows "total has_exited cs < length cs"
proof -
  have "total has_exited (cs[i := (cs ! i)\<lparr>cl_pc := Exited\<rparr>]) \<le> length cs"
    using exited_le [of "cs[i := (cs ! i)\<lparr>cl_pc := Exited\<rparr>]"] by simp
  then show ?thesis
    using total_update [OF assms(1), of has_exited "(cs ! i)\<lparr>cl_pc := Exited\<rparr>"] assms by (simp add: has_exited_def)
qed

lemma counters_step:
  assumes inv: "counters_ok n p0 budget s requests" and i: "i < length (rd_clients s)"
    and step: "client_step enc IsUnknown (rd_done s) (rd_clients s ! i, rd_shared s) (c', sh')" "\<not> sh_fatal sh'"
    and size: "n \<le> 2 ^ 63" "n + budget < 2 ^ 64"
  shows "counters_ok n p0 budget (s\<lparr>rd_clients := (rd_clients s)[i := c'], rd_shared := sh'\<rparr>)
    (requests + makes_request (cl_pc (rd_clients s ! i)) (cl_pc c'))"
proof -
  let ?cs = "rd_clients s" and ?sh = "rd_shared s"
  note tu = total_update [OF i, where c = c']
  have room: "owes (cl_pc (?cs ! i)) = 1 \<Longrightarrow> unat (sh_proc ?sh - p0) < 2 ^ 64 - 1"
    using inv size(2) total_ge [OF i, of owes] by (auto simp: counters_ok_def Let_def)
  have dec: "sint (AddInt64 (sh_requestCount ?sh) (- 1)) = sint (sh_requestCount ?sh) - 1" if "cl_pc (?cs ! i) \<noteq> Exited"
    using exited_less [OF i that] inv size(1) by (intro sint_dec) (auto simp: counters_ok_def Let_def)
  have tick: "\<forall>c \<in> set (?cs[i := c']). cl_ticker c = Closed \<longrightarrow> cl_pc c = Exited"
    if "\<forall>c \<in> set ?cs. cl_ticker c = Closed \<longrightarrow> cl_pc c = Exited" "cl_ticker c' = Closed \<longrightarrow> cl_pc c' = Exited"
    using that set_update_subset_insert [of ?cs i c'] by blast
  have ti: "cl_ticker (?cs ! i) = Closed \<longrightarrow> cl_pc (?cs ! i) = Exited" if "\<not> rd_done s"
    using inv that i by (auto simp: counters_ok_def Let_def)
  note tu' = tu [of owes] tu [of has_exited] tu [of holds_request]
  let ?d = "makes_request (cl_pc (?cs ! i)) (cl_pc c')"
  have quiet: ?thesis if q: "sh_proc sh' = sh_proc ?sh" "sh_requestCount sh' = sh_requestCount ?sh"
    "owes (cl_pc c') \<le> owes (cl_pc (?cs ! i))" "has_exited (cl_pc (?cs ! i)) \<le> has_exited (cl_pc c')"
    "?d + holds_request (cl_pc c') \<le> holds_request (cl_pc (?cs ! i))"
    "\<not> rd_done s \<Longrightarrow> ?d + holds_request (cl_pc c') = holds_request (cl_pc (?cs ! i)) \<and>
       has_exited (cl_pc c') = has_exited (cl_pc (?cs ! i)) \<and> (cl_ticker c' = Closed \<longrightarrow> cl_pc c' = Exited)"
  proof -
    have "length (?cs[i := c']) = n" "unat (sh_proc sh' - p0) + total owes (?cs[i := c']) + nat (max 0 (sint (sh_requestCount sh'))) \<le> n + budget"
      "- int (total has_exited (?cs[i := c'])) \<le> sint (sh_requestCount sh')"
      "requests + ?d + total holds_request (?cs[i := c']) + nat (max 0 (sint (sh_requestCount sh'))) \<le> budget"
      using inv tu' q(1-5) unfolding counters_ok_def Let_def by simp_all
    moreover have "requests + ?d + total holds_request (?cs[i := c']) + nat (max 0 (sint (sh_requestCount sh'))) = budget \<and>
      (0 < total has_exited (?cs[i := c']) \<longrightarrow> sint (sh_requestCount sh') \<le> 0) \<and>
      (\<forall>c \<in> set (?cs[i := c']). cl_ticker c = Closed \<longrightarrow> cl_pc c = Exited)" if d: "\<not> rd_done s"
    proof -
      from inv d have e: "requests + total holds_request ?cs + nat (max 0 (sint (sh_requestCount ?sh))) = budget"
        "0 < total has_exited ?cs \<longrightarrow> sint (sh_requestCount ?sh) \<le> 0"
        "\<forall>c \<in> set ?cs. cl_ticker c = Closed \<longrightarrow> cl_pc c = Exited"
        unfolding counters_ok_def Let_def by blast+
      have "total has_exited (?cs[i := c']) = total has_exited ?cs"
        "?d + total holds_request (?cs[i := c']) = total holds_request ?cs"
        using tu'(2,3) q(6) [OF d] by linarith+
      with e(1,2) q(2) tick [OF e(3)] q(6) [OF d] show ?thesis by simp
    qed
    ultimately show ?thesis unfolding counters_ok_def Let_def by simp
  qed
  from step show ?thesis
  proof cases
    case (first_proc p)
    then show ?thesis using inv tu' room tick ids_AddInt64(1) [OF room] ti
      by (auto simp: counters_ok_def Let_def has_exited_def)
  next
    case (take_request p r)
    then show ?thesis using inv tu' tick ti dec
      by (auto simp: counters_ok_def Let_def has_exited_def max_def split: if_splits)
  next
    case (used_up p r)
    then show ?thesis using inv tu' tick ti dec
      by (auto simp: counters_ok_def Let_def has_exited_def max_def split: if_splits)
  next
    case (new_proc p q)
    then show ?thesis using inv tu' room tick ids_AddInt64(1) [OF room] ti
      by (auto simp: counters_ok_def Let_def has_exited_def)
  next
    case (no_token p)
    then show ?thesis using ti by (intro quiet) (auto simp: has_exited_def)
  next
    case (select_done p)
    then show ?thesis using ti by (intro quiet) (auto simp: has_exited_def)
  next
    case ticker_stops
    then show ?thesis using ti by (intro quiet) (auto simp: has_exited_def split: pc.splits)
  next
    case (same_proc p)
    then show ?thesis using ti by (intro quiet) (simp_all add: has_exited_def)
  next
    case (record_response p response env f)
    then show ?thesis using ti by (intro quiet) (simp_all add: has_exited_def)
  qed (use ti step(2) in \<open>(intro quiet; simp add: has_exited_def split: pc.splits)+\<close>)
qed

section \<open>Rounds\<close>

definition round_ok :: "('s, 'i, 'o, 'r) marshaller \<Rightarrow> ('o \<Rightarrow> bool) \<Rightarrow> nat \<Rightarrow> 64 word \<Rightarrow> nat \<Rightarrow>
    write_env \<times> ('s, 'i, 'o) RecorderCall \<Rightarrow> ('i, 'o) round \<Rightarrow> (write_env \<times> ('s, 'i, 'o) RecorderCall) list \<Rightarrow> bool" where
  "round_ok enc IsUnknown n p0 budget dump s recs \<longleftrightarrow>
     counters_ok n p0 budget s (requests_in recs) \<and> history_ok enc IsUnknown p0 s (dump # recs) \<and>
     requests_in recs = responses_in recs + total in_air (rd_clients s) \<and> (\<forall>c \<in> set recs. client_call c)"

lemma requests_in_append [simp]: "requests_in (xs @ ys) = requests_in xs + requests_in ys"
  "responses_in (xs @ ys) = responses_in xs + responses_in ys"
  by (simp_all add: requests_in_def responses_in_def)

lemma round_ok_start:
  assumes "record_all enc [(env, CallState st)] [] = Some f0" "0 \<le> sint c"
  shows "round_ok enc IsUnknown n p0 (nat (sint c)) (env, CallState st) (start_round throttled n p0 c f0) []"
proof -
  have "total w (replicate n cl) = n * w (cl_pc cl)" for w and cl :: "('b, 'c) client"
    by (simp add: total_def sum_list_replicate)
  then show ?thesis using assms
    by (auto simp: round_ok_def counters_ok_def history_ok_def start_round_def Let_def requests_in_def recorded_ops_def
          map_filter_simps disciplined_def proc_of_def has_exited_def responses_in_def in_air_def)
qed

lemma round_ok_moves:
  assumes "round_ok enc IsUnknown n p0 budget dump s recs" "client_moves enc IsUnknown s s'" "\<not> sh_fatal (rd_shared s')"
    and "n < 2 ^ 63" "n + budget < 2 ^ 64"
  shows "\<exists>recs'. round_ok enc IsUnknown n p0 budget dump s' recs'"
  using assms(2)
proof cases
  case (client i c' sh')
  from assms(1) have ok: "counters_ok n p0 budget s (requests_in recs)" "history_ok enc IsUnknown p0 s (dump # recs)"
    "requests_in recs = responses_in recs + total in_air (rd_clients s)" "\<forall>c \<in> set recs. client_call c" by (auto simp: round_ok_def)
  have "unat (sh_proc (rd_shared s) - p0) < 2 ^ 64 - 1" if "owes (cl_pc (rd_clients s ! i)) = 1"
    using ok(1) assms(5) total_ge [OF client(2), of owes] that by (auto simp: counters_ok_def Let_def)
  from history_step [OF ok(2) client(2,4) _ this] assms(3) client(1) obtain new where ext:
    "extends enc IsUnknown p0 (cl_pc (rd_clients s ! i)) (cl_pc c') s' (dump # recs) new" by auto
  then have
    h: "history_ok enc IsUnknown p0 s' (dump # recs @ new)" and new: "\<forall>c \<in> set new. client_call c"
    "requests_in new = makes_request (cl_pc (rd_clients s ! i)) (cl_pc c')"
    "requests_in new + in_air (cl_pc (rd_clients s ! i)) = responses_in new + in_air (cl_pc c')" by (auto simp: extends_def)
  have "requests_in (recs @ new) = responses_in (recs @ new) + total in_air (rd_clients s')"
    using ok(3) new(3) total_update [OF client(2), of in_air c'] client(1) by simp
  then show ?thesis using h new(1,2) counters_step [OF ok(1) client(2,4) _ _ assms(5)] ok(4) assms(3,4) client(1)
    by (intro exI [of _ "recs @ new"]) (auto simp: round_ok_def)
qed

lemma round_ok_step:
  assumes "round_ok enc IsUnknown n p0 budget dump s recs" "round_step enc IsUnknown s s'" "\<not> sh_fatal (rd_shared s')"
    and "n < 2 ^ 63" "n + budget < 2 ^ 64"
  shows "\<exists>recs'. round_ok enc IsUnknown n p0 budget dump s' recs'"
  using assms(2)
proof cases
  case moves
  then show ?thesis using round_ok_moves assms by blast
next
  case ends
  then show ?thesis using assms(1)
    by (intro exI [of _ recs]) (auto simp: round_ok_def counters_ok_def history_ok_def Let_def)
qed

lemma reachable_round_ok:
  assumes "reachable enc IsUnknown (start_round throttled n p0 c f0) s" "\<not> sh_fatal (rd_shared s)"
    and "record_all enc [(env, CallState st)] [] = Some f0" "0 \<le> sint c" "n < 2 ^ 63"
  shows "\<exists>recs. round_ok enc IsUnknown n p0 (nat (sint c)) (env, CallState st) s recs"
  using assms(1,2)
proof (induction rule: rtranclp_induct)
  case base
  then show ?case using round_ok_start [OF assms(3,4)] by blast
next
  case (step s s')
  have "sint c < 2 ^ 63" using sint_lt [of c] by simp
  then have "n + nat (sint c) < 2 ^ 64" using assms(4,5) by simp
  moreover have "\<not> sh_fatal (rd_shared s)" using step.hyps(2) by (auto elim: round_step.cases client_moves.cases)
  ultimately show ?case using step round_ok_step assms(5) by blast
qed

lemma client_calls_recorded:
  assumes "\<forall>c \<in> set recs. client_call c"
  shows "recorded_state st recs = st" "length (filter is_call (recorded_ops recs)) = requests_in recs"
    "op \<in> set (recorded_ops recs) \<Longrightarrow> (is_call op \<or> is_return op) \<and> o_Data op \<noteq> NilData"
proof -
  have "recorded_state st recs = st \<and> length (filter is_call (recorded_ops recs)) = requests_in recs \<and>
    (\<forall>op \<in> set (recorded_ops recs). (is_call op \<or> is_return op) \<and> o_Data op \<noteq> NilData)"
    using assms
  proof (induction recs)
    case (Cons c recs)
    then show ?case
      by (cases c; cases "snd c") (auto simp: client_call_def recorded_ops_def requests_in_def map_filter_simps)
  qed (simp add: recorded_ops_def requests_in_def map_filter_simps)
  then show "recorded_state st recs = st" "length (filter is_call (recorded_ops recs)) = requests_in recs"
    "op \<in> set (recorded_ops recs) \<Longrightarrow> (is_call op \<or> is_return op) \<and> o_Data op \<noteq> NilData" by auto
qed

lemma round_history_spec:
  assumes "reachable enc IsUnknown (start_round throttled n p0 c f0) s" "\<not> sh_fatal (rd_shared s)"
    and "record_all enc [(env, CallState st)] [] = Some f0" "0 \<le> sint c" "n < 2 ^ 63"
    and json: "json_records enc unmarshal" "parser_decodes enc p" and fit: "\<not> snd (scan_lines maxTokenSize (sh_file (rd_shared s)))"
  obtains ops cops evs k where
    "ReadHistory unmarshal nemesis p (Some (scan_lines maxTokenSize (sh_file (rd_shared s)))) = Inr (ops, Some st)"
    "int (length (filter is_call ops)) \<le> sint c"
    "CompleteOperations \<rho> IsUnknown noop ops = Inr cops" "ConvertOperationsToEvents cops = Inr evs"
    "ev_run (Map.empty, 0) evs (Map.empty, k)"
proof -
  from reachable_round_ok [OF assms(1-5)] obtain recs where
    ok: "round_ok enc IsUnknown n p0 (nat (sint c)) (env, CallState st) s recs" by blast
  let ?all = "(env, CallState st) # recs"
  from ok have cc: "\<forall>c \<in> set recs. client_call c" by (simp add: round_ok_def)
  note cr = client_calls_recorded [OF cc]
  have ops: "recorded_ops ?all = recorded_ops recs" by (simp add: recorded_ops_def map_filter_simps)
  from ok obtain pm cops where h: "record_all enc ?all [] = Some (sh_file (rd_shared s))"
    "complete_loop IsUnknown (recorded_ops recs) [] [] = Inr (pm, cops)"
    by (auto simp: round_ok_def history_ok_def ops)
  have "\<forall>c \<in> set ?all. \<not> nemesis_call c" using cc by (auto simp: client_call_def elim!: nemesis_call.elims)
  then have "\<forall>c \<in> set ?all. fits enc maxTokenSize c \<and> \<not> nemesis_call c"
    using recorded_reads(2) [OF h(1) json(1), of maxTokenSize] fit by blast
  moreover have "List.map_filter recorded_op ?all = recorded_ops recs" by (simp add: recorded_ops_def map_filter_simps)
  ultimately have r:
    "ReadHistory unmarshal nemesis p (Some (scan_lines maxTokenSize (sh_file (rd_shared s)))) = Inr (recorded_ops recs, Some st)"
    using record_all_reads [OF h(1) json, of maxTokenSize nemesis] by (simp add: cr(1))
  have comp: "CompleteOperations \<rho> IsUnknown noop (recorded_ops recs) =
      Inr (cops @ map (noop_return noop) (sort (go_range \<rho> (map fst pm))))" by (simp add: CompleteOperations_def h(2))
  have none: "filter (\<lambda>op. \<not> is_call op \<and> \<not> is_return op) (recorded_ops recs) = []" using cr(3) by (auto simp: filter_empty_conv)
  have conv: "\<exists>evs k. ConvertOperationsToEvents (cops @ map (noop_return noop) (sort (go_range \<rho> (map fst pm)))) = Inr evs \<and>
      ev_run (Map.empty, 0) evs (Map.empty, k)"
    using converts_spec [OF comp] cr(3) none by simp
  have "requests_in recs \<le> nat (sint c)" using ok by (simp add: round_ok_def counters_ok_def Let_def)
  then have "int (length (filter is_call (recorded_ops recs))) \<le> sint c" using assms(4) by (simp add: cr(2))
  then show thesis using that r comp conv by blast
qed

lemma round_history_too_long:
  fixes p :: "('r, 's, 'i, 'o) RecordParser" and enc :: "('s, 'i, 'o, 'r) marshaller"
  assumes "reachable enc IsUnknown (start_round throttled n p0 c f0) s" "\<not> sh_fatal (rd_shared s)"
    and "record_all enc [(env, CallState st)] [] = Some f0" "0 \<le> sint c" "n < 2 ^ 63"
    and "json_records enc unmarshal" "snd (scan_lines maxTokenSize (sh_file (rd_shared s)))"
  shows "ReadHistory unmarshal nemesis p (Some (scan_lines maxTokenSize (sh_file (rd_shared s)))) = Inl ReadError"
proof -
  from reachable_round_ok [OF assms(1-5)] obtain recs where
    r: "record_all enc ((env, CallState st) # recs) [] = Some (sh_file (rd_shared s))"
    by (auto simp: round_ok_def history_ok_def)
  show ?thesis using recorded_reads(1) [OF r assms(6), of nemesis p maxTokenSize] recorded_reads(2) [OF r assms(6), of maxTokenSize] assms(7)
    by auto
qed

text \<open>C11. The history of a round is always accepted. The file starts with the dump of a state, \<open>requestCount\<close> is not
  negative and there are fewer than \<open>2 ^ 63\<close> clients, throttled or not, which emit requests on the shared
  counters in any interleaving; the context may end at any moment, and no nemesis is recorded. Of JSON it is assumed that
  decoding the line of a record gives the record with its data still raw and that a record is encoded without line breaks; of
  the parser of the workload, that it inverts the encoding of states, requests and responses and that its
  \<open>OnNoopResponse\<close> does not panic. Then at every moment of every run (unless a record could not be written, which
  ends the process): if some line of the history file reaches the 50 MB of the scanner's buffer, \<open>Verify\<close> ends
  with the error of reading. Otherwise the bytes of the file decode to a history with at most \<open>requestCount\<close>
  calls that \<open>CompleteOperations\<close> accepts, that is no process calls twice without a return and none returns without a
  call, although a process that got an unknown response is abandoned; the completed history converts to
  events in which every call has one return; and \<open>Verify\<close> reports the verdict of the checker, never a
  fatal error.\<close>

theorem round_history_accepted:
  assumes "reachable enc IsUnknown (start_round throttled n p0 c f0) s" "\<not> sh_fatal (rd_shared s)"
    and "record_all enc [(env, CallState st)] [] = Some f0" "0 \<le> sint c" "n < 2 ^ 63"
    and "json_records enc unmarshal" "parser_decodes enc p" "OnNoopResponse p = Some noop"
  shows "if snd (scan_lines maxTokenSize (sh_file (rd_shared s)))
    then Verify \<rho> unmarshal nemesis IsUnknown (Porcupine_Check CheckEvents) (Some m) p
        (Some (scan_lines maxTokenSize (sh_file (rd_shared s)))) = VerifyFatal ReadError
    else \<exists>ops cops evs k.
      ReadHistory unmarshal nemesis p (Some (scan_lines maxTokenSize (sh_file (rd_shared s)))) = Inr (ops, Some st) \<and>
      int (length (filter is_call ops)) \<le> sint c \<and>
      CompleteOperations \<rho> IsUnknown noop ops = Inr cops \<and>
      ConvertOperationsToEvents cops = Inr evs \<and> ev_run (Map.empty, 0) evs (Map.empty, k) \<and>
      Verify \<rho> unmarshal nemesis IsUnknown (Porcupine_Check CheckEvents) (Some m) p
          (Some (scan_lines maxTokenSize (sh_file (rd_shared s)))) =
        (if CheckEvents (Model_Init m (Some st)) (Model_Step m) (Model_Equal m) evs then HistoryValid else HistoryInvalid)"
proof (cases "snd (scan_lines maxTokenSize (sh_file (rd_shared s)))")
  case True
  then show ?thesis using round_history_too_long [OF assms(1-6) True, of nemesis p] by (simp add: Verify_def)
next
  case False
  from round_history_spec [OF assms(1-7) False, of nemesis \<rho> noop] obtain ops cops evs k where
    h: "ReadHistory unmarshal nemesis p (Some (scan_lines maxTokenSize (sh_file (rd_shared s)))) = Inr (ops, Some st)"
    "int (length (filter is_call ops)) \<le> sint c" "CompleteOperations \<rho> IsUnknown noop ops = Inr cops"
    "ConvertOperationsToEvents cops = Inr evs" "ev_run (Map.empty, 0) evs (Map.empty, k)" by blast
  moreover have "Verify \<rho> unmarshal nemesis IsUnknown (Porcupine_Check CheckEvents) (Some m) p
        (Some (scan_lines maxTokenSize (sh_file (rd_shared s)))) =
      (if CheckEvents (Model_Init m (Some st)) (Model_Step m) (Model_Equal m) evs then HistoryValid else HistoryInvalid)"
    by (simp add: Verify_def h(1,3,4) Porcupine_Check_def completion_panics_def assms(8))
  ultimately show ?thesis using False by auto
qed

section \<open>Every round ends\<close>

text \<open>The steps that are left to a client in its iteration, and to its ticker.\<close>

fun weight :: "('i, 'o) pc \<Rightarrow> nat" where
  "weight Exited = 0"
| "weight (Test p) = 1"
| "weight Begin = 2"
| "weight (Select p) = 2"
| "weight (Recorded p u) = 3"
| "weight (Responded p y) = 4"
| "weight (Invoking p x) = 5"
| "weight (Next p) = 6"
| "weight (Token p) = 8"

fun ticker_weight :: "ticker \<Rightarrow> nat" where
  "ticker_weight NoTicker = 0"
| "ticker_weight Closed = 0"
| "ticker_weight Sending = 1"
| "ticker_weight Ticking = 2"
| "ticker_weight Sleeping = 3"

definition remaining :: "('i, 'o) round \<Rightarrow> nat" where
  "remaining s = sum_list (map (\<lambda>c. weight (cl_pc c) + ticker_weight (cl_ticker c)) (rd_clients s)) +
     8 * nat (max 0 (sint (sh_requestCount (rd_shared s)))) + (if rd_done s then 0 else 1) +
     (if sh_fatal (rd_shared s) then 0 else 1)"

lemma sum_list_map_update:
  fixes w :: "'a \<Rightarrow> nat"
  shows "i < length xs \<Longrightarrow> sum_list (map w (xs[i := x])) + w (xs ! i) = sum_list (map w xs) + w x"
  by (induction xs arbitrary: i) (auto simp: nth_Cons split: nat.splits)

lemma client_step_weight:
  assumes "client_step enc IsUnknown dn (c, sh) (c', sh')" "- (2 ^ 63) < sint (sh_requestCount sh)" "\<not> sh_fatal sh"
  shows "weight (cl_pc c') + ticker_weight (cl_ticker c') + 8 * nat (max 0 (sint (sh_requestCount sh'))) + (if sh_fatal sh' then 0 else 1) <
    weight (cl_pc c) + ticker_weight (cl_ticker c) + 8 * nat (max 0 (sint (sh_requestCount sh))) + 1"
  using assms(1)
proof cases
  case (take_request p r)
  moreover from this have "nat (sint (sh_requestCount sh)) = Suc (nat (sint (sh_requestCount sh) - 1))"
    using sint_dec [OF assms(2)] by simp
  ultimately show ?thesis using assms(3) sint_dec [OF assms(2)] by (simp add: max_def)
next
  case (used_up p r)
  then show ?thesis using assms(3) sint_dec [OF assms(2)] by (simp add: max_def)
qed (use assms(3) in simp_all)



lemma remaining_decreases:
  assumes "round_step enc IsUnknown s s'" "- (2 ^ 63) < sint (sh_requestCount (rd_shared s))"
  shows "remaining s' < remaining s"
  using assms(1)
proof cases
  case moves
  then show ?thesis
  proof cases
    case (client i c' sh')
    from client_step_weight [OF client(4) assms(2) client(3)]
      sum_list_map_update [OF client(2), of "\<lambda>c. weight (cl_pc c) + ticker_weight (cl_ticker c)" c'] client(1,3)
    show ?thesis by (simp add: remaining_def)
  qed
qed (simp add: remaining_def)

text \<open>A client waits for a token only where there is a ticker.\<close>

definition tokens_ok :: "('i, 'o) round \<Rightarrow> bool" where
  "tokens_ok s \<longleftrightarrow> (\<forall>c \<in> set (rd_clients s). \<forall>p. cl_pc c = Token p \<longrightarrow> cl_ticker c \<noteq> NoTicker)"

lemma tokens_ok_step:
  assumes "tokens_ok s" "round_step enc IsUnknown s s'" shows "tokens_ok s'"
  using assms(2)
proof cases
  case moves
  then show ?thesis
  proof cases
    case (client i c' sh')
    have "\<forall>p. cl_pc (rd_clients s ! i) = Token p \<longrightarrow> cl_ticker (rd_clients s ! i) \<noteq> NoTicker"
      using client(2) assms(1) by (simp add: tokens_ok_def)
    with client(4) have "\<forall>p. cl_pc c' = Token p \<longrightarrow> cl_ticker c' \<noteq> NoTicker"
      by cases (auto split: if_splits)
    then show ?thesis using assms(1) set_update_subset_insert [of "rd_clients s" i c'] client(1)
      unfolding tokens_ok_def by auto
  qed
qed (use assms(1) in \<open>simp add: tokens_ok_def\<close>)

lemma reachable_tokens_ok: "reachable enc IsUnknown (start_round throttled n p0 c f0) s \<Longrightarrow> tokens_ok s"
  proof (induction rule: rtranclp_induct)
  case base
  then show ?case by (simp add: tokens_ok_def start_round_def)
qed (rule tokens_ok_step)

text \<open>No client is stuck before it has returned.\<close>

lemma client_progress:
  assumes "cl_pc c \<noteq> Exited" "\<And>p. cl_pc c = Token p \<Longrightarrow> cl_ticker c \<noteq> NoTicker"
  shows "\<exists>c' sh'. client_step enc IsUnknown dn (c, sh) (c', sh')"
proof (cases "cl_pc c")
  case (Test p)
  then show ?thesis using client_step.take_request client_step.used_up by (metis not_le)
next
  case (Token p)
  with assms(2) have "cl_ticker c \<noteq> NoTicker" by simp
  with Token show ?thesis
    by (cases "cl_ticker c") (blast intro: client_step.intros)+
next
  case (Next p)
  then show ?thesis using client_step.record_request client_step.request_fatal by (metis (full_types) surj_pair)
next
  case (Responded p y)
  then show ?thesis using client_step.record_response client_step.response_fatal by (metis (full_types) surj_pair)
next
  case (Recorded p u)
  then consider "cl_pc c = Recorded p True" | "cl_pc c = Recorded p False" by (cases u) auto
  then show ?thesis by cases (blast intro: client_step.intros)+
next
  case (Select p)
  then show ?thesis by (cases dn) (blast intro: client_step.intros)+
qed (use assms(1) in \<open>blast intro: client_step.intros\<close>)+

lemma stuck_exited:
  assumes "\<not> (\<exists>s'. client_moves enc IsUnknown s s')" "\<not> sh_fatal (rd_shared s)" "tokens_ok s"
  shows "\<forall>c \<in> set (rd_clients s). cl_pc c = Exited"
proof (rule ballI, rule ccontr)
  fix c assume c: "c \<in> set (rd_clients s)" "cl_pc c \<noteq> Exited"
  then obtain i where "i < length (rd_clients s)" "c = rd_clients s ! i" by (metis in_set_conv_nth)
  moreover have "cl_ticker c \<noteq> NoTicker" if "cl_pc c = Token p" for p using that assms(3) c(1) by (auto simp: tokens_ok_def)
  then obtain c' sh' where "client_step enc IsUnknown (rd_done s) (c, rd_shared s) (c', sh')"
    using client_progress [OF c(2)] by blast
  ultimately show False using assms(1,2) client_moves.client by blast
qed

text \<open>A run in which clients keep moving as long as one of them can.\<close>

definition maximal_run :: "('s, 'i, 'o, 'r) marshaller \<Rightarrow> ('o \<Rightarrow> bool) \<Rightarrow> (nat \<Rightarrow> ('i, 'o) round) \<Rightarrow> bool" where
  "maximal_run enc IsUnknown f \<longleftrightarrow> (\<forall>k. round_step enc IsUnknown (f k) (f (Suc k)) \<or>
     (f (Suc k) = f k \<and> \<not> (\<exists>s. client_moves enc IsUnknown (f k) s)))"

lemma maximal_run_reachable:
  assumes "maximal_run enc IsUnknown f" shows "reachable enc IsUnknown (f 0) (f k)"
proof (induction k)
  case (Suc k)
  from assms have "f (Suc k) = f k \<or> round_step enc IsUnknown (f k) (f (Suc k))" by (auto simp: maximal_run_def)
  with Suc show ?case by (auto intro: rtranclp.rtrancl_into_rtrancl)
qed simp

lemma run_gets_stuck:
  assumes run: "maximal_run enc IsUnknown f" "f 0 = start_round throttled n p0 c f0"
    and "record_all enc [(env, CallState st)] [] = Some f0" "0 \<le> sint c" "n < 2 ^ 63"
  shows "\<exists>k \<le> remaining (f 0). \<not> (\<exists>s. client_moves enc IsUnknown (f k) s)"
proof (rule ccontr)
  assume "\<not> ?thesis"
  then have mv: "\<exists>s. client_moves enc IsUnknown (f k) s" if "k \<le> remaining (f 0)" for k using that by blast
  have "remaining (f k) + k \<le> remaining (f 0)" if "k \<le> Suc (remaining (f 0))" for k
    using that
  proof (induction k)
    case (Suc k)
    then have m: "\<exists>s. client_moves enc IsUnknown (f k) s" using mv by simp
    then have nf: "\<not> sh_fatal (rd_shared (f k))" by (auto elim: client_moves.cases)
    have "reachable enc IsUnknown (start_round throttled n p0 c f0) (f k)" using maximal_run_reachable [OF run(1)] run(2) by metis
    from reachable_round_ok [OF this nf assms(3-5)] obtain r where
      "counters_ok n p0 (nat (sint c)) (f k) r" unfolding round_ok_def by blast
    then have "- (2 ^ 63) < sint (sh_requestCount (rd_shared (f k)))"
      using exited_le [of "rd_clients (f k)"] assms(5) by (auto simp: counters_ok_def Let_def has_exited_def)
    moreover have "round_step enc IsUnknown (f k) (f (Suc k))" using m run(1) by (auto simp: maximal_run_def)
    ultimately show ?case using remaining_decreases Suc by fastforce
  qed simp
  from this [of "Suc (remaining (f 0))"] show False by simp
qed

lemma remaining_start: "0 \<le> sint c \<Longrightarrow> remaining (start_round throttled n p0 c f0) \<le> 5 * n + 8 * nat (sint c) + 2"
  by (simp add: remaining_def start_round_def sum_list_replicate)

text \<open>C12. Every round ends. In every run of a round in which clients keep moving as long as one of them can,
  whatever the interleaving, the responses and the moment the context ends, all clients have returned
  after at most \<open>5 n + 8 requestCount + 2\<close> steps, unless a record could not be written. Then every
  recorded request has its response; and when the context was not done, exactly \<open>requestCount\<close>
  requests have been made.\<close>

theorem round_ends:
  assumes "maximal_run enc IsUnknown f" "f 0 = start_round throttled n p0 c f0"
    and "record_all enc [(env, CallState st)] [] = Some f0" "0 \<le> sint c" "n < 2 ^ 63"
  shows "\<exists>k \<le> 5 * n + 8 * nat (sint c) + 2. sh_fatal (rd_shared (f k)) \<or>
    (\<forall>cl \<in> set (rd_clients (f k)). cl_pc cl = Exited) \<and>
    (\<exists>recs. record_all enc ((env, CallState st) # recs) [] = Some (sh_file (rd_shared (f k))) \<and>
       requests_in recs = responses_in recs \<and> int (requests_in recs) \<le> sint c \<and>
       (0 < n \<and> \<not> rd_done (f k) \<longrightarrow> int (requests_in recs) = sint c))"
proof -
  from run_gets_stuck [OF assms] remaining_start [OF assms(4)] assms(2) obtain k where
    k: "k \<le> 5 * n + 8 * nat (sint c) + 2" "\<not> (\<exists>s. client_moves enc IsUnknown (f k) s)" by (metis le_trans)
  show ?thesis
  proof (cases "sh_fatal (rd_shared (f k))")
    case False
    have reach: "reachable enc IsUnknown (start_round throttled n p0 c f0) (f k)"
      using maximal_run_reachable [OF assms(1)] assms(2) by metis
    from stuck_exited [OF k(2) False reachable_tokens_ok [OF reach]]
    have ex: "\<forall>cl \<in> set (rd_clients (f k)). cl_pc cl = Exited" .
    then have t: "total w (rd_clients (f k)) = length (rd_clients (f k)) * w Exited" for w
      unfolding total_def by (induction "rd_clients (f k)" arbitrary: k) (auto simp: sum_list_triv cong: map_cong)
    from reachable_round_ok [OF reach False assms(3-5)] obtain recs where
      ok: "counters_ok n p0 (nat (sint c)) (f k) (requests_in recs)"
        "history_ok enc IsUnknown p0 (f k) ((env, CallState st) # recs)"
        "requests_in recs = responses_in recs + total in_air (rd_clients (f k))" unfolding round_ok_def by blast
    have "record_all enc ((env, CallState st) # recs) [] = Some (sh_file (rd_shared (f k)))"
      using ok(2) by (simp only: history_ok_def)
    moreover have "requests_in recs = responses_in recs" using ok(3) t [of in_air] by (simp add: in_air_def)
    moreover have "int (requests_in recs) \<le> sint c"  "0 < n \<and> \<not> rd_done (f k) \<longrightarrow> int (requests_in recs) = sint c"
      using ok(1) t [of has_exited] t [of holds_request] assms(4) by (auto simp: counters_ok_def Let_def has_exited_def)
    ultimately show ?thesis using k(1) ex by blast
  qed (use k(1) in blast)
qed

text \<open>The ticker of a throttled client that returns while a token is offered stays blocked for ever: nobody
  receives from the channel any more, and the goroutine does not look at the context.\<close>

lemma exited_sending_stays:
  assumes "round_step enc IsUnknown s s'" "i < length (rd_clients s)"
    "rd_clients s ! i = \<lparr>cl_pc = Exited, cl_ticker = Sending\<rparr>"
  shows "i < length (rd_clients s') \<and> rd_clients s' ! i = \<lparr>cl_pc = Exited, cl_ticker = Sending\<rparr>"
  using assms(1)
proof cases
  case moves
  then show ?thesis
  proof cases
    case (client j c' sh')
    then show ?thesis using assms(2,3) by (cases "i = j") (auto elim: client_stepE)
  qed
qed (use assms(2,3) in simp)

lemma exited_sending_forever:
  assumes "reachable enc IsUnknown s s'" "i < length (rd_clients s)"
    "rd_clients s ! i = \<lparr>cl_pc = Exited, cl_ticker = Sending\<rparr>"
  shows "i < length (rd_clients s') \<and> rd_clients s' ! i = \<lparr>cl_pc = Exited, cl_ticker = Sending\<rparr>"
  using assms(1)
proof (induction rule: rtranclp_induct)
  case (step s1 s2)
  then show ?case using exited_sending_stays [OF step.hyps(2)] by blast
qed (use assms(2,3) in simp)

lemma client_step_eq:
  "client_step enc IsUnknown dn x y \<Longrightarrow> y = z \<Longrightarrow> client_step enc IsUnknown dn x z"
  by simp

theorem throttle_ticker_leaks:
  "\<exists>s. reachable enc IsUnknown (start_round True 1 p0 0 f0) s \<and> rd_clients s = [\<lparr>cl_pc = Exited, cl_ticker = Sending\<rparr>] \<and>
     (\<forall>s'. reachable enc IsUnknown s s' \<longrightarrow> rd_clients s' ! 0 = \<lparr>cl_pc = Exited, cl_ticker = Sending\<rparr>)"
proof -
  let ?st = "\<lambda>pc t q r. \<lparr>rd_clients = [\<lparr>cl_pc = pc, cl_ticker = t\<rparr>],
    rd_shared = \<lparr>sh_proc = q, sh_requestCount = r, sh_file = f0, sh_fatal = False\<rparr>, rd_done = False\<rparr>"
  let ?R = "reachable enc IsUnknown"
  have st: "round_step enc IsUnknown (?st pc t q r) (?st pc' t' q' r')"
    if "client_step enc IsUnknown False (\<lparr>cl_pc = pc, cl_ticker = t\<rparr>, \<lparr>sh_proc = q, sh_requestCount = r, sh_file = f0, sh_fatal = False\<rparr>)
      (\<lparr>cl_pc = pc', cl_ticker = t'\<rparr>, \<lparr>sh_proc = q', sh_requestCount = r', sh_file = f0, sh_fatal = False\<rparr>)" for pc t q r pc' t' q' r'
    using round_step.moves [OF client_moves.client [of 0 "?st pc t q r"]] that by simp
  note step = rtranclp.rtrancl_into_rtrancl [of "round_step enc IsUnknown", OF _ st]
  have "?R (?st Begin Sleeping p0 0) (?st Begin Sleeping p0 0)" by simp
  then have "?R (?st Begin Sleeping p0 0) (?st (Test (AddInt64 p0 1)) Sleeping (AddInt64 p0 1) 0)"
    by (rule step) (rule client_step_eq, rule client_step.first_proc, simp_all)
  then have "?R (?st Begin Sleeping p0 0) (?st (Test (AddInt64 p0 1)) Ticking (AddInt64 p0 1) 0)"
    by (rule step) (rule client_step_eq, rule client_step.ticker_wakes, simp_all)
  then have "?R (?st Begin Sleeping p0 0) (?st (Test (AddInt64 p0 1)) Sending (AddInt64 p0 1) 0)"
    by (rule step) (rule client_step_eq, rule client_step.ticker_ticks, simp_all)
  then have "?R (?st Begin Sleeping p0 0) (?st Exited Sending (AddInt64 p0 1) (- 1))"
    by (rule step) (rule client_step_eq, rule client_step.used_up, simp_all add: AddInt64_def)
  then show ?thesis
    using exited_sending_forever [of enc IsUnknown "?st Exited Sending (AddInt64 p0 1) (- 1)" _ 0]
    by (intro exI [of _ "?st Exited Sending (AddInt64 p0 1) (- 1)"]) (simp add: start_round_def)
qed


section \<open>A sample run\<close>

text \<open>One client, one request, on the encoder of the sample history.\<close>

definition sample_round :: "(int, int) pc \<Rightarrow> 64 word \<Rightarrow> 64 word \<Rightarrow> string \<Rightarrow> (int, int) round" where
  "sample_round pc q r file = \<lparr>rd_clients = [\<lparr>cl_pc = pc, cl_ticker = NoTicker\<rparr>],
     rd_shared = \<lparr>sh_proc = q, sh_requestCount = r, sh_file = file, sh_fatal = False\<rparr>, rd_done = False\<rparr>"

definition sample_lines :: "nat \<Rightarrow> string" where
  "sample_lines k = the (record_all sample_encoder (take k sample_calls) [])"

definition sample_run :: "nat \<Rightarrow> (int, int) round" where
  "sample_run k = [sample_round Begin 2 1 (sample_lines 1), sample_round (Test 3) 3 1 (sample_lines 1),
     sample_round (Next 3) 3 0 (sample_lines 1), sample_round (Invoking 3 7) 3 0 (sample_lines 2),
     sample_round (Responded 3 8) 3 0 (sample_lines 2), sample_round (Recorded 3 False) 3 0 (sample_lines 3),
     sample_round (Select 3) 3 0 (sample_lines 3), sample_round (Test 3) 3 0 (sample_lines 3),
     sample_round Exited 3 (- 1) (sample_lines 3)] ! min k 8"

lemma sample_round_step:
  "client_step sample_encoder (\<lambda>_. False) False
     (\<lparr>cl_pc = pc, cl_ticker = NoTicker\<rparr>, \<lparr>sh_proc = q, sh_requestCount = r, sh_file = f, sh_fatal = False\<rparr>)
     (\<lparr>cl_pc = pc', cl_ticker = NoTicker\<rparr>, \<lparr>sh_proc = q', sh_requestCount = r', sh_file = f', sh_fatal = False\<rparr>) \<Longrightarrow>
   round_step sample_encoder (\<lambda>_. False) (sample_round pc q r f) (sample_round pc' q' r' f')"
  using round_step.moves [OF client_moves.client [of 0 "sample_round pc q r f"]] by (simp add: sample_round_def)

lemma sample_records:
  "RecordState sample_encoder \<lparr>now = 1, data_write = None, newline_write = None\<rparr> 5 [] = (sample_lines 1, True)"
  "RecordRequest sample_encoder \<lparr>now = 2, data_write = None, newline_write = None\<rparr> 3 7 (sample_lines 1) = (sample_lines 2, True)"
  "RecordResponse sample_encoder \<lparr>now = 4, data_write = None, newline_write = None\<rparr> 3 8 (sample_lines 2) = (sample_lines 3, True)"
  by code_simp+

lemma sample_run_steps: "k < 8 \<Longrightarrow> round_step sample_encoder (\<lambda>_. False) (sample_run k) (sample_run (Suc k))"
proof -
  note step = sample_round_step [OF client_step_eq]
  have 0: "round_step sample_encoder (\<lambda>_. False) (sample_run 0) (sample_run 1)"
    unfolding sample_run_def by simp (rule step, rule client_step.first_proc, simp_all add: AddInt64_def)
  have 1: "round_step sample_encoder (\<lambda>_. False) (sample_run 1) (sample_run 2)"
    unfolding sample_run_def by simp (rule step, rule client_step.take_request, simp_all add: AddInt64_def)
  have 2: "round_step sample_encoder (\<lambda>_. False) (sample_run 2) (sample_run 3)"
    unfolding sample_run_def using sample_records(2)
    by (simp add: numeral_2_eq_2 numeral_3_eq_3) (rule step, rule client_step.record_request, simp_all)
  have 3: "round_step sample_encoder (\<lambda>_. False) (sample_run 3) (sample_run 4)"
    unfolding sample_run_def by simp (rule step, rule client_step.invoke, simp_all)
  have 4: "round_step sample_encoder (\<lambda>_. False) (sample_run 4) (sample_run 5)"
    unfolding sample_run_def using sample_records(3) by simp (rule step, rule client_step.record_response, simp_all)
  have 5: "round_step sample_encoder (\<lambda>_. False) (sample_run 5) (sample_run 6)"
    unfolding sample_run_def by simp (rule step, rule client_step.same_proc, simp_all)
  have 6: "round_step sample_encoder (\<lambda>_. False) (sample_run 6) (sample_run 7)"
    unfolding sample_run_def by simp (rule step, rule client_step.select_default, simp_all)
  have 7: "round_step sample_encoder (\<lambda>_. False) (sample_run 7) (sample_run 8)"
    unfolding sample_run_def by simp (rule step, rule client_step.used_up, simp_all add: AddInt64_def)
  assume "k < 8"
  then have "k \<in> {0, 1, 2, 3, 4, 5, 6, 7}" by auto
  then show ?thesis using 0 1 2 3 4 5 6 7 by (auto simp: numeral_eq_Suc)
qed

lemma sample_start: "sample_run 0 = start_round False 1 2 1 (sample_lines 1)"
  by (simp add: sample_run_def sample_round_def start_round_def)

lemma sample_dump: "record_all sample_encoder [(\<lparr>now = 1, data_write = None, newline_write = None\<rparr>, CallState 5)] [] = Some (sample_lines 1)"
  by (simp add: sample_records)

lemma sample_maximal: "maximal_run sample_encoder (\<lambda>_. False) sample_run"
  unfolding maximal_run_def
proof (rule allI)
  fix k show "round_step sample_encoder (\<lambda>_. False) (sample_run k) (sample_run (Suc k)) \<or>
     (sample_run (Suc k) = sample_run k \<and> \<not> (\<exists>s. client_moves sample_encoder (\<lambda>_. False) (sample_run k) s))"
  proof (cases "k < 8")
    case False
    then have r: "sample_run (Suc k) = sample_round Exited 3 (- 1) (sample_lines 3)"
      "sample_run k = sample_round Exited 3 (- 1) (sample_lines 3)" by (simp_all add: sample_run_def min_def)
    have "\<not> client_moves sample_encoder (\<lambda>_. False) (sample_round Exited 3 (- 1) (sample_lines 3)) s" for s
      by (auto simp: sample_round_def elim!: client_moves.cases client_stepE)
    then show ?thesis using r by simp
  qed (simp add: sample_run_steps)
qed

theorem round_ends_witness:
  "\<exists>k \<le> 15. sh_fatal (rd_shared (sample_run k)) \<or> (\<forall>cl \<in> set (rd_clients (sample_run k)). cl_pc cl = Exited) \<and>
     (\<exists>recs. record_all sample_encoder ((\<lparr>now = 1, data_write = None, newline_write = None\<rparr>, CallState 5) # recs) [] =
        Some (sh_file (rd_shared (sample_run k))) \<and> requests_in recs = responses_in recs \<and> int (requests_in recs) \<le> 1 \<and>
        (\<not> rd_done (sample_run k) \<longrightarrow> int (requests_in recs) = 1))"
  using round_ends [OF sample_maximal sample_start sample_dump] by simp

lemma sample_two: "record_all sample_encoder (take 2 sample_calls) [] = Some (sample_lines 2)"
  by code_simp

lemma sample_not_too_long: "\<not> snd (scan_lines maxTokenSize (sample_lines 2))"
proof -
  have "\<forall>c \<in> set (take 2 sample_calls). fits sample_encoder 60 c" by code_simp
  then have "\<forall>c \<in> set (take 2 sample_calls). fits sample_encoder maxTokenSize c"
    by (auto simp: maxTokenSize_def intro: fits_mono)
  then show ?thesis using recorded_reads(2) [OF sample_two sample_json] by blast
qed

theorem round_history_accepted_witness:
  "\<exists>ops cops evs k.
    ReadHistory sample_decode (\<lambda>_. None, \<lambda>_. None) sample_record_parser
      (Some (scan_lines maxTokenSize (sample_lines 2))) = Inr (ops, Some 5) \<and>
    int (length (filter is_call ops)) \<le> 1 \<and>
    CompleteOperations fifo (\<lambda>_. False) 0 ops = Inr cops \<and>
    ConvertOperationsToEvents cops = Inr evs \<and> ev_run (Map.empty, 0) evs (Map.empty, k) \<and>
    Verify fifo sample_decode (\<lambda>_. None, \<lambda>_. None) (\<lambda>_. False)
      (Porcupine_Check (\<lambda>_ _ _ es. length es = 2))
      (Some \<lparr>Model_Init = \<lambda>_. 0, Model_Step = \<lambda>s x y. Some (True, s), Model_Equal = (=), Model_Name = ''sample''\<rparr>)
      sample_record_parser (Some (scan_lines maxTokenSize (sample_lines 2))) =
      (if length evs = 2 then HistoryValid else HistoryInvalid)"
proof -
  have reach: "reachable sample_encoder (\<lambda>_. False) (start_round False 1 2 1 (sample_lines 1)) (sample_run 3)"
    using maximal_run_reachable [OF sample_maximal, of 3] by (simp add: sample_start)
  have run: "sample_run 3 = sample_round (Invoking 3 7) 3 0 (sample_lines 2)" by (simp add: sample_run_def)
  have noop: "OnNoopResponse sample_record_parser = Some 0" by (simp add: sample_record_parser_def)
  show ?thesis
    using round_history_accepted [OF reach _ sample_dump _ _ sample_json sample_parser_decodes noop,
      of fifo "(\<lambda>_. None, \<lambda>_. None)" "\<lambda>_ _ _ es. length es = 2"
      "\<lparr>Model_Init = \<lambda>_. 0, Model_Step = \<lambda>s x y. Some (True, s), Model_Equal = (=), Model_Name = ''sample''\<rparr>"] sample_not_too_long
    unfolding run by (simp add: sample_round_def)
qed

end
