(* ===== verification/Nemesis_Generators.thy ===== *)
theory Nemesis_Generators
  imports Wr_Txn Nemesis_Types
begin

text \<open>
  The generators of nemesis operations, \<open>pkg/nemesis\<close>, and the parser of generator names in
  \<open>cmd/util/suit.go\<close>.

  The random source is a parameter; \<open>rand.Intn\<close> panics on a bound that is not positive. A panic, an
  index out of range and \<open>log.Fatal\<close> are \<^const>\<open>None\<close>. A duration is its number of nanoseconds.
  What PD answers about its members is a parameter.
\<close>

section \<open>Durations\<close>

definition Second :: int where "Second = 1000000000"
definition Minute :: int where "Minute = 60 * Second"

section \<open>Random choices\<close>

record 'g MathRand = "'g Rand" +
  rand_Int :: "'g \<Rightarrow> int \<times> 'g"

definition math_rand_laws :: "'g MathRand \<Rightarrow> bool" where
  "math_rand_laws R \<longleftrightarrow> (\<forall>g n. 0 < n \<longrightarrow> (\<exists>x g'. Intn R g n = Some (x, g') \<and> 0 \<le> x \<and> x < n))"

lemma math_rand_Intn: "math_rand_laws R \<Longrightarrow> 0 < n \<Longrightarrow> \<exists>x g'. Intn R g n = Some (x, g') \<and> 0 \<le> x \<and> x < n"
  by (simp add: math_rand_laws_def)

definition swap :: "nat \<Rightarrow> nat \<Rightarrow> 'a list \<Rightarrow> 'a list" where
  "swap i j xs = xs[i := xs ! j, j := xs ! i]"

text \<open>The loop \<open>for i := len(indices) - 1; i > 0; i--\<close>.\<close>

fun shuffle_loop :: "'g MathRand \<Rightarrow> 'g \<Rightarrow> nat \<Rightarrow> nat list \<Rightarrow> (nat list \<times> 'g) option" where
  "shuffle_loop R g 0 indices = Some (indices, g)"
| "shuffle_loop R g (Suc i) indices = do {
     (j, g) \<leftarrow> Intn R g (int (Suc i) + 1);
     shuffle_loop R g i (swap (Suc i) (nat j) indices) }"

definition shuffleIndices :: "'g MathRand \<Rightarrow> 'g \<Rightarrow> nat \<Rightarrow> (nat list \<times> 'g) option" where
  "shuffleIndices R g n = shuffle_loop R g (n - 1) [0..<n]"

lemma mset_swap: "i < length xs \<Longrightarrow> j < length xs \<Longrightarrow> mset (swap i j xs) = mset xs"
  by (simp add: swap_def mset_swap)

lemma length_swap [simp]: "length (swap i j xs) = length xs"
  by (simp add: swap_def)

lemma shuffle_loop_perm:
  assumes "math_rand_laws R" "i < length xs \<or> i = 0"
  shows "\<exists>ys g'. shuffle_loop R g i xs = Some (ys, g') \<and> mset ys = mset xs"
  using assms(2)
proof (induction i arbitrary: xs g)
  case (Suc i)
  obtain j g' where j: "Intn R g (int (Suc i) + 1) = Some (j, g')" "0 \<le> j" "j < int (Suc i) + 1"
    using math_rand_Intn [OF assms(1), of "int (Suc i) + 1" g] by auto
  then have "mset (swap (Suc i) (nat j) xs) = mset xs" using Suc.prems by (intro mset_swap) auto
  with Suc.IH [of "swap (Suc i) (nat j) xs" g'] Suc.prems j(1) show ?case by auto
qed simp

text \<open>A source that takes its choices from a list.\<close>

definition list_rand :: "nat list MathRand" where
  "list_rand = \<lparr>Int63nRange = (\<lambda>g lo hi. None),
     Intn = (\<lambda>g n. case g of [] \<Rightarrow> None | c # cs \<Rightarrow> if 0 < n then Some (int c mod n, cs) else None),
     rand_Int = (\<lambda>g. case g of [] \<Rightarrow> (0, []) | c # cs \<Rightarrow> (int c, cs))\<rparr>"

lemma swap_swap: "i < length xs \<Longrightarrow> j < length xs \<Longrightarrow> swap i j (swap i j xs) = xs"
  by (auto simp: swap_def list_eq_iff_nth_eq nth_list_update)

text \<open>Every order of the entries up to position \<open>i\<close> is the result of some choices.\<close>

lemma shuffle_loop_onto:
  assumes "i < length xs" "mset ys = mset xs" "drop (Suc i) ys = drop (Suc i) xs"
  shows "\<exists>cs. shuffle_loop list_rand cs i xs = Some (ys, [])"
  using assms
proof (induction i arbitrary: xs)
  case 0
  then have len: "length ys = length xs" using mset_eq_length by blast
  from 0 obtain x xs' y ys' where e: "xs = x # xs'" "ys = y # ys'" by (cases xs; cases ys) (auto simp: len)
  with 0 have "xs = ys" by simp
  then show ?case by (intro exI [of _ "[]"]) simp
next
  case (Suc i)
  have len: "length ys = length xs" using Suc.prems(2) mset_eq_length by blast
  have "mset (take (Suc (Suc i)) ys) + mset (drop (Suc (Suc i)) ys) = mset (take (Suc (Suc i)) xs) + mset (drop (Suc (Suc i)) xs)"
    using Suc.prems(2) by (metis append_take_drop_id mset_append)
  then have m: "mset (take (Suc (Suc i)) ys) = mset (take (Suc (Suc i)) xs)" using Suc.prems(3) by simp
  have "ys ! Suc i \<in> set (take (Suc (Suc i)) ys)" using Suc.prems(1) len by (auto simp: in_set_conv_nth)
  then have "ys ! Suc i \<in> set (take (Suc (Suc i)) xs)" using m mset_eq_setD by blast
  then obtain j where j: "j \<le> Suc i" "xs ! j = ys ! Suc i" using Suc.prems(1) by (fastforce simp: in_set_conv_nth less_Suc_eq_le)
  let ?xs = "swap (Suc i) j xs"
  have ms: "mset ys = mset ?xs" using Suc.prems(1,2) j(1) by (simp add: mset_swap)
  have "drop (Suc i) ?xs = drop (Suc i) ys"
  proof (rule nth_equalityI)
    fix k assume k: "k < length (drop (Suc i) ?xs)"
    have "xs ! (Suc (Suc i) + m) = ys ! (Suc (Suc i) + m)" if "Suc (Suc i) + m < length xs" for m
      using Suc.prems(3) that len by (metis nth_drop add_leE less_or_eq_imp_le)
    then show "drop (Suc i) ?xs ! k = drop (Suc i) ys ! k"
      using k j Suc.prems(1) len by (cases k) (auto simp: swap_def nth_list_update)
  qed (simp add: len)
  with Suc.IH [of ?xs] ms Suc.prems(1) obtain cs where "shuffle_loop list_rand cs i ?xs = Some (ys, [])" by auto
  then show ?case using j(1) by (intro exI [of _ "j # cs"]) (simp add: list_rand_def)
qed

lemma shuffleIndices_perm:
  "math_rand_laws R \<Longrightarrow> \<exists>ys g'. shuffleIndices R g n = Some (ys, g') \<and> mset ys = mset [0..<n]"
  unfolding shuffleIndices_def by (rule shuffle_loop_perm) auto

section \<open>The generators\<close>

text \<open>The time an operation runs: \<open>time.Second * time.Duration(rand.Intn(120)+60)\<close>.\<close>

definition random_duration :: "'g MathRand \<Rightarrow> 'g \<Rightarrow> (int \<times> 'g) option" where
  "random_duration R g = do { (k, g) \<leftarrow> Intn R g 120; Some (Second * (k + 60), g) }"

definition filterComponent :: "Node list \<Rightarrow> Component \<Rightarrow> Node list" where
  "filterComponent nodes cmp = filter (\<lambda>node. nd_Component node = cmp) nodes"

text \<open>\<open>PDMember\<close> is the answer of PD for a node: its leader, or an error, which is fatal.\<close>

fun findPDMember_loop :: "(Node \<Rightarrow> string option) \<Rightarrow> bool \<Rightarrow> Node list \<Rightarrow> string \<Rightarrow> Node list \<Rightarrow> Node list option" where
  "findPDMember_loop PDMember ifLeader [] leader result = Some result"
| "findPDMember_loop PDMember ifLeader (node # nodes) leader result =
     (if nd_Component node = PD
      then do {
        leader \<leftarrow> (if leader = [] \<and> nd_HasClient node then PDMember node else Some leader);
        (if ifLeader \<and> nd_PodName node = leader then Some [node]
         else if \<not> ifLeader \<and> nd_PodName node \<noteq> leader then findPDMember_loop PDMember ifLeader nodes leader (result @ [node])
         else findPDMember_loop PDMember ifLeader nodes leader result) }
      else findPDMember_loop PDMember ifLeader nodes leader result)"

definition findPDMember :: "(Node \<Rightarrow> string option) \<Rightarrow> Node list \<Rightarrow> bool \<Rightarrow> Node list option" where
  "findPDMember PDMember nodes ifLeader = findPDMember_loop PDMember ifLeader nodes [] []"

definition node_op :: "ChaosKind \<Rightarrow> int \<Rightarrow> Node \<Rightarrow> NemesisOperation" where
  "node_op kind runTime node = \<lparr>no_Type = kind, no_Node = Some node, no_InvokeArgs = [], no_RecoverArgs = [],
     no_RunTime = runTime, no_Control = False\<rparr>"

text \<open>The first \<open>n\<close> of the shuffled nodes; \<open>n\<close> is an int and may be negative.\<close>

definition killNodes :: "'g MathRand \<Rightarrow> 'g \<Rightarrow> Node list \<Rightarrow> int \<Rightarrow> Component option \<Rightarrow> int \<Rightarrow> (NemesisOperation option list \<times> 'g) option" where
  "killNodes R g nodes n cmp duration =
     (let nodes = (case cmp of None \<Rightarrow> nodes | Some c \<Rightarrow> filterComponent nodes c)
      in do {
        (indices, g) \<leftarrow> shuffleIndices R g (length nodes);
        let n = (if int (length indices) < n then int (length indices) else n);
        Some (map (\<lambda>i. Some (node_op PodFailure duration (nodes ! (indices ! i)))) [0..<nat n], g) })"

definition chaosDurationFiveMin :: int where "chaosDurationFiveMin = Minute * 5"

text \<open>Go's integer division truncates; the length is not negative, so \<^term>\<open>(div)\<close> agrees.\<close>

definition kill_Generate :: "(Node \<Rightarrow> string option) \<Rightarrow> 'g MathRand \<Rightarrow> 'g \<Rightarrow> string \<Rightarrow> Node list \<Rightarrow> (NemesisOperation option list \<times> 'g) option" where
  "kill_Generate PDMember R g name nodes = do {
     (duration, g) \<leftarrow> random_duration R g;
     (if name = ''minor_kill'' then killNodes R g nodes (int (length nodes) div 2 - 1) None duration
      else if name = ''major_kill'' then killNodes R g nodes (int (length nodes) div 2 + 1) None duration
      else if name = ''all_kill'' then killNodes R g nodes (int (length nodes)) None duration
      else if name = ''kill_tikv_1node_5min'' then killNodes R g nodes 1 (Some TiKV) chaosDurationFiveMin
      else if name = ''kill_tikv_2node_5min'' then killNodes R g nodes 2 (Some TiKV) chaosDurationFiveMin
      else if name = ''kill_pd_leader_5min'' then do {
        nodes \<leftarrow> findPDMember PDMember nodes True; killNodes R g nodes 1 (Some PD) chaosDurationFiveMin }
      else if name = ''kill_pd_non_leader_5min'' then do {
        nodes \<leftarrow> findPDMember PDMember nodes False; killNodes R g nodes 1 (Some PD) chaosDurationFiveMin }
      else if name = ''kill_tiflash_1node_5min'' then killNodes R g nodes 1 (Some TiFlash) chaosDurationFiveMin
      else if name = ''kill_dm_1node'' then killNodes R g nodes 1 (Some DM) duration
      else killNodes R g nodes 1 None duration) }"

definition containerKillNodes :: "'g MathRand \<Rightarrow> 'g \<Rightarrow> Node list \<Rightarrow> int \<Rightarrow> Component option \<Rightarrow> int \<Rightarrow> (NemesisOperation option list \<times> 'g) option" where
  "containerKillNodes R g nodes n cmp freq =
     (let nodes = (case cmp of None \<Rightarrow> nodes | Some c \<Rightarrow> filterComponent nodes c)
      in do {
        (indices, g) \<leftarrow> shuffleIndices R g (length nodes);
        let n = (if int (length nodes) < n then int (length nodes) else n);
        Some (map (\<lambda>i. Some (node_op ContainerKill freq (nodes ! (indices ! i)))) [0..<nat n], g) })"

definition containerKill_Generate :: "(Node \<Rightarrow> string option) \<Rightarrow> 'g MathRand \<Rightarrow> 'g \<Rightarrow> string \<Rightarrow> Node list \<Rightarrow> (NemesisOperation option list \<times> 'g) option" where
  "containerKill_Generate PDMember R g name nodes = do {
     (freq, g) \<leftarrow> random_duration R g;
     (if name = ''short_kill_tikv_1node'' then containerKillNodes R g nodes 1 (Some TiKV) freq
      else if name = ''short_kill_pd_leader'' then do {
        nodes \<leftarrow> findPDMember PDMember nodes True; containerKillNodes R g nodes 1 (Some PD) freq }
      else if name = ''short_kill_tiflash_1node'' then containerKillNodes R g nodes 1 (Some TiFlash) freq
      else containerKillNodes R g nodes 0 None freq) }"

text \<open>\<open>podKillNodes\<close> is called with \<open>n = len(nodes)\<close>; the slice is filled at the shuffled positions.\<close>

definition podKillNodes :: "'g MathRand \<Rightarrow> 'g \<Rightarrow> Node list \<Rightarrow> nat \<Rightarrow> int \<Rightarrow> (NemesisOperation option list \<times> 'g) option" where
  "podKillNodes R g nodes n freq = do {
     (indices, g) \<leftarrow> shuffleIndices R g (length nodes);
     ops \<leftarrow> foldM (\<lambda>i ops. if i < length indices
         then Some (ops[indices ! i := Some (node_op PodKill freq (nodes ! (indices ! i)))]) else None)
       [0..<n] (replicate (length nodes) None);
     Some (ops, g) }"

definition podKill_Generate :: "'g MathRand \<Rightarrow> 'g \<Rightarrow> string \<Rightarrow> Node list \<Rightarrow> (NemesisOperation option list \<times> 'g) option" where
  "podKill_Generate R g name nodes = do {
     (freq, g) \<leftarrow> random_duration R g;
     podKillNodes R g nodes (length nodes) freq }"

text \<open>\<open>randK8sObjectName\<close>: seven random letters.\<close>

definition letterRunes :: string where "letterRunes = ''abcdefghijklmnopqrstuvwxyz''"

fun randK8sObjectName :: "'g MathRand \<Rightarrow> 'g \<Rightarrow> nat \<Rightarrow> (string \<times> 'g) option" where
  "randK8sObjectName R g 0 = Some ([], g)"
| "randK8sObjectName R g (Suc k) = do {
     (i, g) \<leftarrow> Intn R g (int (length letterRunes));
     (cs, g) \<leftarrow> randK8sObjectName R g k;
     Some (letterRunes ! nat i # cs, g) }"

text \<open>The two sources \<open>rand\<close> and \<open>r\<close> of the package are one here. An empty cluster is an index out of range.\<close>

definition partitionNodes :: "'g MathRand \<Rightarrow> 'g \<Rightarrow> Node list \<Rightarrow> nat \<Rightarrow> int \<Rightarrow> (NemesisOperation option list \<times> 'g) option" where
  "partitionNodes R g nodes n duration =
     (if n < 1 then None
      else do {
        (indices, g) \<leftarrow> shuffleIndices R g (length nodes);
        (if length nodes < n then None
         else let onePart = map (\<lambda>i. nodes ! (indices ! i)) [0..<n];
                  anotherPart = map (\<lambda>i. nodes ! (indices ! i)) [n..<length nodes]
              in do {
                (suffix, g) \<leftarrow> randK8sObjectName R g 7;
                let name = nd_Namespace (onePart ! 0) @ ''-'' @ NetworkPartition @ ''-'' @ suffix;
                Some ([Some \<lparr>no_Type = NetworkPartition, no_Node = None,
                         no_InvokeArgs = [ArgString name, ArgNodes onePart, ArgNodes anotherPart],
                         no_RecoverArgs = [ArgString name, ArgNodes onePart, ArgNodes anotherPart],
                         no_RunTime = duration, no_Control = False\<rparr>], g) }) })"

definition networkPartition_Generate :: "'g MathRand \<Rightarrow> 'g \<Rightarrow> string \<Rightarrow> Node list \<Rightarrow> (NemesisOperation option list \<times> 'g) option" where
  "networkPartition_Generate R g name nodes = do {
     (duration, g) \<leftarrow> random_duration R g;
     partitionNodes R g nodes 1 duration }"

subsection \<open>Clock skews\<close>

definition strobeSkews :: nat where "strobeSkews = 5"
definition strobeSkewsBios :: int where "strobeSkewsBios = 200"

definition skewTimeMap :: "64 word list" where "skewTimeMap = [0, 100, 200, 250, 500, 5000]"

definition skewTimeStrMap :: "(string, nat) gomap" where
  "skewTimeStrMap = [(''small_skews'', 0), (''subcritical_skews'', 1), (''critical_skews'', 2), (''big_skews'', 3),
     (''huge_skews'', 4), (''strobe-skews'', strobeSkews)]"

definition timeChaosLevel :: "string \<Rightarrow> nat option" where
  "timeChaosLevel chaos = map_of skewTimeStrMap chaos"

definition Millisecond :: int where "Millisecond = 1000000"

text \<open>The offset in nanoseconds: \<open>deltaMs\<close> is a \<open>uint\<close>, negated by wrap-around and read back as a signed
  \<open>Duration\<close>, whose product wraps too. The string of the duration is left to its printer. An index
  out of range is \<^const>\<open>None\<close>.\<close>

definition selectChaosDuration :: "'g MathRand \<Rightarrow> 'g \<Rightarrow> nat \<Rightarrow> bool \<Rightarrow> (64 word \<times> 'g) option" where
  "selectChaosDuration R g levels fromLast = do {
     (deltaMs, g) \<leftarrow>
       (if levels = strobeSkews then do { (k, g) \<leftarrow> Intn R g strobeSkewsBios; Some (word_of_int k, g) }
        else if length skewTimeMap \<le> levels + 1 then None
        else do {
          let lastVal = (if fromLast then skewTimeMap ! levels else 0);
          (k, g) \<leftarrow> Intn R g (sint (skewTimeMap ! (levels + 1) - lastVal));
          let deltaMs = word_of_int k + lastVal;
          let (b, g) = rand_Int R g;
          Some (if b mod 2 = 1 then - deltaMs else deltaMs, g) });
     Some (deltaMs * word_of_int Millisecond, g) }"

text \<open>\<open>offset_string\<close> is \<open>Duration.String\<close>.\<close>

fun timeChaos_loop :: "(int \<Rightarrow> string) \<Rightarrow> 'g MathRand \<Rightarrow> 'g \<Rightarrow> string \<Rightarrow> Node list \<Rightarrow> (NemesisOperation option list \<times> 'g) option" where
  "timeChaos_loop offset_string R g name [] = Some ([], g)"
| "timeChaos_loop offset_string R g name (node # nodes) = do {
     level \<leftarrow> timeChaosLevel name;
     (timeOffset, g) \<leftarrow> selectChaosDuration R g level True;
     (runTime, g) \<leftarrow> random_duration R g;
     (ops, g) \<leftarrow> timeChaos_loop offset_string R g name nodes;
     Some (Some \<lparr>no_Type = TimeChaos, no_Node = Some node, no_InvokeArgs = [ArgString (offset_string (sint timeOffset))],
             no_RecoverArgs = [ArgString (offset_string (sint timeOffset))], no_RunTime = runTime, no_Control = False\<rparr> # ops, g) }"

subsection \<open>The other generators\<close>

definition selectNetem :: "string \<Rightarrow> netemChaos option" where
  "selectNetem name =
     (if name = ''loss'' then Some Loss else if name = ''delay'' then Some Delay
      else if name = ''duplicate'' then Some Duplicate else if name = ''corrupt'' then Some Corrupt else None)"

text \<open>The slice is made with one nil entry per node, then one operation per node is appended.\<close>

fun netem_loop :: "'g MathRand \<Rightarrow> 'g \<Rightarrow> netemChaos \<Rightarrow> Node list \<Rightarrow> NemesisOperation option list \<Rightarrow> (NemesisOperation option list \<times> 'g) option" where
  "netem_loop R g nChaos [] ops = Some (ops, g)"
| "netem_loop R g nChaos (node # nodes) ops = do {
     (runTime, g) \<leftarrow> random_duration R g;
     netem_loop R g nChaos nodes (ops @ [Some \<lparr>no_Type = NetemChaos, no_Node = Some node, no_InvokeArgs = [ArgNetem nChaos],
       no_RecoverArgs = [ArgNetem nChaos], no_RunTime = runTime, no_Control = False\<rparr>]) }"

definition netem_Generate :: "'g MathRand \<Rightarrow> 'g \<Rightarrow> string \<Rightarrow> Node list \<Rightarrow> (NemesisOperation option list \<times> 'g) option" where
  "netem_Generate R g name nodes = do {
     nChaos \<leftarrow> selectNetem name;
     netem_loop R g nChaos nodes (replicate (length nodes) None) }"

definition scaling_Generate :: "'g MathRand \<Rightarrow> 'g \<Rightarrow> string \<Rightarrow> Node list \<Rightarrow> (NemesisOperation option list \<times> 'g) option" where
  "scaling_Generate R g name nodes =
     (case nodes of [] \<Rightarrow> None
      | node # _ \<Rightarrow> do { (runTime, g) \<leftarrow> random_duration R g; Some ([Some (node_op Scaling runTime node)], g) })"

definition scheduler_Generate :: "string \<Rightarrow> Node list \<Rightarrow> NemesisOperation option list option" where
  "scheduler_Generate name nodes =
     (case filterComponent nodes PD of [] \<Rightarrow> None
      | node # _ \<Rightarrow> Some [Some \<lparr>no_Type = PDScheduler, no_Node = Some node, no_InvokeArgs = [ArgString name],
          no_RecoverArgs = [ArgString name], no_RunTime = 5 * Minute, no_Control = False\<rparr>])"

definition leaderShuffle_Generate :: "string \<Rightarrow> Node list \<Rightarrow> NemesisOperation option list option" where
  "leaderShuffle_Generate name nodes =
     (case filterComponent nodes PD of [] \<Rightarrow> None
      | node # _ \<Rightarrow> Some [Some (node_op PDLeaderShuffler (10 * Second) node)])"

text \<open>The generator of a coordinated test kills the nodes it was made with; before it returns it waits for
  the client (\<open>WaitForStart\<close>, in the theory of the control).\<close>

definition coordinationKill_Generate :: "Node list \<Rightarrow> NemesisOperation option list" where
  "coordinationKill_Generate nodes = map (\<lambda>node. Some ((node_op PodFailure 0 node)\<lparr>no_Control := True\<rparr>)) nodes"

section \<open>Names of generators\<close>

datatype NemesisGenerator =
    KillGenerator string
  | ContainerKillGenerator string
  | TimeChaosGenerator string
  | NetworkPartitionGenerator string
  | NetemChaosGenerator string
  | PodKillGenerator string
  | SchedulerGenerator string
  | ScalingGenerator string
  | LeaderShuffleGenerator string

fun Generator_Name :: "NemesisGenerator \<Rightarrow> string" where
  "Generator_Name (KillGenerator name) = name"
| "Generator_Name (ContainerKillGenerator name) = name"
| "Generator_Name (TimeChaosGenerator name) = name"
| "Generator_Name (NetworkPartitionGenerator name) = name"
| "Generator_Name (NetemChaosGenerator name) = name"
| "Generator_Name (PodKillGenerator name) = name"
| "Generator_Name (SchedulerGenerator name) = name"
| "Generator_Name (ScalingGenerator name) = name"
| "Generator_Name (LeaderShuffleGenerator name) = name"

text \<open>A dynamic call of \<open>Generate\<close>.\<close>

fun Generate :: "(Node \<Rightarrow> string option) \<Rightarrow> (int \<Rightarrow> string) \<Rightarrow> 'g MathRand \<Rightarrow> 'g \<Rightarrow> NemesisGenerator \<Rightarrow> Node list \<Rightarrow>
    (NemesisOperation option list \<times> 'g) option" where
  "Generate PDMember offset_string R g (KillGenerator name) nodes = kill_Generate PDMember R g name nodes"
| "Generate PDMember offset_string R g (ContainerKillGenerator name) nodes = containerKill_Generate PDMember R g name nodes"
| "Generate PDMember offset_string R g (TimeChaosGenerator name) nodes = timeChaos_loop offset_string R g name nodes"
| "Generate PDMember offset_string R g (NetworkPartitionGenerator name) nodes = networkPartition_Generate R g name nodes"
| "Generate PDMember offset_string R g (NetemChaosGenerator name) nodes = netem_Generate R g name nodes"
| "Generate PDMember offset_string R g (PodKillGenerator name) nodes = podKill_Generate R g name nodes"
| "Generate PDMember offset_string R g (SchedulerGenerator name) nodes = map_option (\<lambda>ops. (ops, g)) (scheduler_Generate name nodes)"
| "Generate PDMember offset_string R g (ScalingGenerator name) nodes = scaling_Generate R g name nodes"
| "Generate PDMember offset_string R g (LeaderShuffleGenerator name) nodes = map_option (\<lambda>ops. (ops, g)) (leaderShuffle_Generate name nodes)"

definition parseNemesisGenerator :: "string \<Rightarrow> NemesisGenerator option" where
  "parseNemesisGenerator name =
     (if name \<in> set [''random_kill'', ''all_kill'', ''minor_kill'', ''major_kill'', ''kill_tikv_1node_5min'', ''kill_tikv_2node_5min'',
        ''kill_pd_leader_5min'', ''kill_pd_nonleader_5min'', ''kill_dm_1node''] then Some (KillGenerator name)
      else if name \<in> set [''short_kill_tikv_1node'', ''short_kill_pd_leader'', ''short_kill_tiflash_1node'']
      then Some (ContainerKillGenerator name)
      else if name \<in> set [''random_drop'', ''all_drop'', ''minor_drop'', ''major_drop''] then None
      else if name \<in> set [''small_skews'', ''subcritical_skews'', ''critical_skews'', ''big_skews'', ''huge_skews'', ''strobe_skews'']
      then Some (TimeChaosGenerator name)
      else if name = ''partition_one'' then Some (NetworkPartitionGenerator name)
      else if name \<in> set [''loss'', ''delay'', ''duplicate'', ''corrupt''] then Some (NetemChaosGenerator name)
      else if name = ''pod_kill'' then Some (PodKillGenerator name)
      else if name \<in> set [''shuffle-leader-scheduler'', ''shuffle-region-scheduler'', ''random-merge-scheduler'']
      then Some (SchedulerGenerator name)
      else if name = ''scaling'' then Some (ScalingGenerator name)
      else if name = ''leader-shuffle'' then Some (LeaderShuffleGenerator name)
      else None)"

fun ParseNemesisGenerators_loop :: "string list \<Rightarrow> NemesisGenerator list option" where
  "ParseNemesisGenerators_loop [] = Some []"
| "ParseNemesisGenerators_loop (name # names) =
     (let name = TrimSpace name
      in if length name = 0 then ParseNemesisGenerators_loop names
         else do { gen \<leftarrow> parseNemesisGenerator name; gens \<leftarrow> ParseNemesisGenerators_loop names; Some (gen # gens) })"

definition ParseNemesisGenerators :: "string \<Rightarrow> NemesisGenerator list option" where
  "ParseNemesisGenerators names = ParseNemesisGenerators_loop (split_on (CHR '','') names)"

text \<open>Shuffling the indices of the nodes: whatever the random source returns, \<open>shuffleIndices n\<close>
  terminates without a panic with a permutation of \<open>0..n-1\<close>, so the first \<open>k\<close> indices are \<open>k\<close>
  different nodes; and every permutation is the result of some sequence of choices, so every set of
  nodes can be hit.\<close>

theorem shuffleIndices_permutes:
  assumes "math_rand_laws R"
  shows "(\<exists>ys g'. shuffleIndices R g n = Some (ys, g') \<and> mset ys = mset [0..<n]) \<and>
    (\<forall>ys. mset ys = mset [0..<n] \<longrightarrow> (\<exists>cs. shuffleIndices list_rand cs n = Some (ys, [])))"
proof (intro conjI allI impI)
  show "\<exists>ys g'. shuffleIndices R g n = Some (ys, g') \<and> mset ys = mset [0..<n]"
    unfolding shuffleIndices_def by (rule shuffle_loop_perm [OF assms]) auto
  fix ys assume ys: "mset ys = mset [0..<n]"
  show "\<exists>cs. shuffleIndices list_rand cs n = Some (ys, [])"
  proof (cases n)
    case 0
    with ys show ?thesis by (simp add: shuffleIndices_def)
  next
    case (Suc m)
    from ys have "length ys = n" using mset_eq_length by fastforce
    with Suc ys shuffle_loop_onto [of m "[0..<n]" ys] show ?thesis by (simp add: shuffleIndices_def)
  qed
qed


section \<open>What the generators promise\<close>

text \<open>The nodes an operation is applied to.\<close>

fun arg_nodes :: "nemesis_arg \<Rightarrow> Node list" where
  "arg_nodes (ArgNodes nodes) = nodes"
| "arg_nodes _ = []"

definition op_nodes :: "NemesisOperation \<Rightarrow> Node list" where
  "op_nodes op = (case no_Node op of Some node \<Rightarrow> [node] | None \<Rightarrow> concat (map arg_nodes (no_InvokeArgs op)))"

definition all_targets :: "NemesisOperation option list \<Rightarrow> Node list" where
  "all_targets ops = concat (map op_nodes (List.map_filter id ops))"

text \<open>The arguments that the nemesis of the kind of an operation expects: with others it panics.\<close>

definition well_formed_op :: "NemesisOperation \<Rightarrow> bool" where
  "well_formed_op op \<longleftrightarrow>
     (if no_Type op = NetworkPartition
      then (\<exists>name one another. no_InvokeArgs op = [ArgString name, ArgNodes one, ArgNodes another] \<and> one \<noteq> [] \<and> another \<noteq> [])
      else no_Node op \<noteq> None \<and>
        (if no_Type op \<in> set [PodFailure, PodKill, ContainerKill, Scaling, PDLeaderShuffler] then True
         else if no_Type op \<in> set [TimeChaos, PDScheduler] then (\<exists>x. no_InvokeArgs op = [ArgString x])
         else no_Type op = NetemChaos \<and> (\<exists>x. no_InvokeArgs op = [ArgNetem x]))) \<and>
     no_RecoverArgs op = no_InvokeArgs op \<and> 10 * Second \<le> no_RunTime op \<and> no_RunTime op \<le> 5 * Minute"

definition generated_ok :: "Node list \<Rightarrow> NemesisOperation option list \<Rightarrow> bool" where
  "generated_ok nodes ops \<longleftrightarrow> mset (all_targets ops) \<subseteq># mset nodes \<and> (\<forall>op. Some op \<in> set ops \<longrightarrow> well_formed_op op)"

text \<open>A generator returns, with operations that are as they should be.\<close>

definition yields :: "(NemesisOperation option list \<times> 'g) option \<Rightarrow> Node list \<Rightarrow> bool" where
  "yields x nodes \<longleftrightarrow> (\<exists>ops g'. x = Some (ops, g') \<and> generated_ok nodes ops)"

lemma yields_if: "\<lbrakk>b \<Longrightarrow> yields x nodes; \<not> b \<Longrightarrow> yields y nodes\<rbrakk> \<Longrightarrow> yields (if b then x else y) nodes"
  by simp

lemma random_duration_total:
  assumes "math_rand_laws R"
  shows "\<exists>d g'. random_duration R g = Some (d, g') \<and> 60 * Second \<le> d \<and> d < 180 * Second"
proof -
  obtain k g' where "Intn R g 120 = Some (k, g')" "0 \<le> k" "k < 120"
    using math_rand_Intn [OF assms, of 120 g] by auto
  then show ?thesis by (simp add: random_duration_def Second_def)
qed

lemma mset_pick:
  assumes "mset indices = mset [0..<length nodes]" "k \<le> length nodes"
  shows "mset (map (\<lambda>i. nodes ! (indices ! i)) [0..<length nodes]) = mset nodes"
    "mset (map (\<lambda>i. nodes ! (indices ! i)) [0..<k]) \<subseteq># mset nodes"
proof -
  have len: "length indices = length nodes" using assms(1) mset_eq_length by fastforce
  have "map (\<lambda>i. nodes ! (indices ! i)) [0..<length nodes] = map ((!) nodes) indices"
    by (rule nth_equalityI) (simp_all add: len)
  moreover have "mset (map ((!) nodes) indices) = mset nodes"
  proof -
    have "mset (map ((!) nodes) indices) = image_mset ((!) nodes) (mset indices)" by simp
    also have "\<dots> = mset (map ((!) nodes) [0..<length nodes])" unfolding assms(1) mset_map ..
    also have "\<dots> = mset nodes" by (simp only: map_nth)
    finally show ?thesis .
  qed
  ultimately show m: "mset (map (\<lambda>i. nodes ! (indices ! i)) [0..<length nodes]) = mset nodes" by simp
  have "map (\<lambda>i. nodes ! (indices ! i)) [0..<k] = take k (map (\<lambda>i. nodes ! (indices ! i)) [0..<length nodes])"
    using assms(2) by (simp add: take_map)
  then show "mset (map (\<lambda>i. nodes ! (indices ! i)) [0..<k]) \<subseteq># mset nodes"
    using m by (metis append_take_drop_id mset_append mset_subset_eq_add_left)
qed

lemma all_targets_map [simp]: "(\<And>x. x \<in> set xs \<Longrightarrow> no_Node (f x) = Some (h x)) \<Longrightarrow> all_targets (map (\<lambda>x. Some (f x)) xs) = map h xs"
  by (induction xs) (auto simp: all_targets_def op_nodes_def map_filter_simps)

lemma all_targets_simps [simp]: "all_targets [] = []" "all_targets (None # ops) = all_targets ops"
  "all_targets (Some op # ops) = op_nodes op @ all_targets ops" "all_targets (xs @ ys) = all_targets xs @ all_targets ys"
  by (auto simp: all_targets_def map_filter_simps List.map_filter_def)

lemma node_op_simps [simp]: "no_Node (node_op kind d node) = Some node" "op_nodes (node_op kind d node) = [node]"
  by (simp_all add: node_op_def op_nodes_def)

lemma node_op_ok:
  "\<lbrakk>kind \<in> set [PodFailure, PodKill, ContainerKill, Scaling, PDLeaderShuffler]; 10 * Second \<le> d; d \<le> 5 * Minute\<rbrakk> \<Longrightarrow> well_formed_op (node_op kind d node)"
  by (auto simp: well_formed_op_def node_op_def kind_defs)

lemma filterComponent_subset: "mset (filterComponent nodes c) \<subseteq># mset nodes"
  by (simp add: filterComponent_def multiset_filter_subset)

text \<open>The nodes of one component, or all of them.\<close>

abbreviation selected :: "Component option \<Rightarrow> Node list \<Rightarrow> Node list" where
  "selected cmp nodes \<equiv> (case cmp of None \<Rightarrow> nodes | Some c \<Rightarrow> filterComponent nodes c)"

lemma shuffled_targets:
  assumes "math_rand_laws R"
  obtains ix g' where "shuffleIndices R g (length (selected cmp nodes)) = Some (ix, g')" "length ix = length (selected cmp nodes)"
    "\<And>k. k \<le> length ix \<Longrightarrow> mset (map (\<lambda>i. selected cmp nodes ! (ix ! i)) [0..<k]) \<subseteq># mset nodes"
proof -
  have sub: "mset (selected cmp nodes) \<subseteq># mset nodes" by (cases cmp) (simp_all add: filterComponent_subset)
  obtain ix g' where ix: "shuffleIndices R g (length (selected cmp nodes)) = Some (ix, g')"
    "mset ix = mset [0..<length (selected cmp nodes)]" using shuffleIndices_perm [OF assms] by blast
  have len: "length ix = length (selected cmp nodes)" using ix(2) mset_eq_length by fastforce
  show thesis using that [OF ix(1) len] mset_pick(2) [OF ix(2)] sub subset_mset.order_trans by (metis len)
qed

lemma killNodes_ok:
  assumes "math_rand_laws R" "10 * Second \<le> d" "d \<le> 5 * Minute"
  shows "yields (killNodes R g nodes n cmp d) nodes"
proof -
  obtain ix g' where ix: "shuffleIndices R g (length (selected cmp nodes)) = Some (ix, g')"
    "\<And>k. k \<le> length ix \<Longrightarrow> mset (map (\<lambda>i. selected cmp nodes ! (ix ! i)) [0..<k]) \<subseteq># mset nodes"
    using shuffled_targets [OF assms(1)] by blast
  have "nat (if int (length ix) < n then int (length ix) else n) \<le> length ix" by (cases "int (length ix) < n") auto
  from ix(2) [OF this] show ?thesis
    using ix(1) assms(2,3) by (auto simp: killNodes_def yields_def generated_ok_def Let_def intro!: node_op_ok)
qed

lemma containerKillNodes_ok:
  assumes "math_rand_laws R" "10 * Second \<le> d" "d \<le> 5 * Minute"
  shows "yields (containerKillNodes R g nodes n cmp d) nodes"
proof -
  obtain ix g' where ix: "shuffleIndices R g (length (selected cmp nodes)) = Some (ix, g')" "length ix = length (selected cmp nodes)"
    "\<And>k. k \<le> length ix \<Longrightarrow> mset (map (\<lambda>i. selected cmp nodes ! (ix ! i)) [0..<k]) \<subseteq># mset nodes"
    using shuffled_targets [OF assms(1)] by blast
  have "nat (if int (length ix) < n then int (length ix) else n) \<le> length ix" by (cases "int (length ix) < n") auto
  from ix(3) [OF this] show ?thesis
    using ix(1,2) assms(2,3) by (auto simp: containerKillNodes_def yields_def generated_ok_def Let_def intro!: node_op_ok)
qed

text \<open>PD answers every node that has a client.\<close>

definition pd_answers :: "(Node \<Rightarrow> string option) \<Rightarrow> bool" where
  "pd_answers PDMember \<longleftrightarrow> (\<forall>node. nd_HasClient node \<longrightarrow> PDMember node \<noteq> None)"

lemma findPDMember_loop_ok:
  assumes "pd_answers PDMember"
  shows "\<exists>r. findPDMember_loop PDMember ifLeader nodes leader result = Some r \<and> (mset r \<subseteq># mset result + mset nodes)"
proof (induction nodes arbitrary: leader result)
  case (Cons node nodes)
  obtain leader' where l: "(if leader = [] \<and> nd_HasClient node then PDMember node else Some leader) = Some leader'"
    using assms unfolding pd_answers_def by (cases "leader = [] \<and> nd_HasClient node") auto
  have up: "A \<subseteq># add_mset node (mset result + mset nodes)" if "A \<subseteq># mset result + mset nodes" for A
    using that by (metis add_mset_add_single mset_subset_eq_add_left subset_mset.order_trans)
  from Cons.IH [of leader result] Cons.IH [of leader' result] Cons.IH [of leader' "result @ [node]"] l show ?case
    by (auto intro: up)
qed simp

lemma findPDMember_ok:
  assumes "pd_answers PDMember"
  obtains r where "findPDMember PDMember nodes ifLeader = Some r" "mset r \<subseteq># mset nodes"
  using findPDMember_loop_ok [OF assms, of ifLeader nodes "[]" "[]"] by (auto simp: findPDMember_def)

lemma yields_mono: "yields x nodes' \<Longrightarrow> mset nodes' \<subseteq># mset nodes \<Longrightarrow> yields x nodes"
  by (auto simp: yields_def generated_ok_def intro: subset_mset.order_trans)

lemma duration_bounds: "60 * Second \<le> d \<Longrightarrow> d < 180 * Second \<Longrightarrow> 10 * Second \<le> d \<and> d \<le> 5 * Minute"
  "10 * Second \<le> chaosDurationFiveMin" "chaosDurationFiveMin \<le> 5 * Minute"
  by (simp_all add: Minute_def Second_def chaosDurationFiveMin_def)

lemma kill_Generate_ok:
  assumes R: "math_rand_laws R" and PD: "pd_answers PDMember"
  shows "yields (kill_Generate PDMember R g name nodes) nodes"
proof -
  obtain d g' where d: "random_duration R g = Some (d, g')" "60 * Second \<le> d" "d < 180 * Second"
    using random_duration_total [OF R] by blast
  note b = duration_bounds(1) [OF d(2,3), THEN conjunct1] duration_bounds(1) [OF d(2,3), THEN conjunct2]
  note k = killNodes_ok [OF R b] killNodes_ok [OF R duration_bounds(2,3)]
  have pd: "yields (do { nodes \<leftarrow> findPDMember PDMember nodes l; killNodes R g' nodes 1 (Some PD) chaosDurationFiveMin }) nodes" for l
  proof -
    obtain r where r: "findPDMember PDMember nodes l = Some r" "mset r \<subseteq># mset nodes" using findPDMember_ok [OF PD] by blast
    then show ?thesis using yields_mono [OF k(2)] by simp
  qed
  show ?thesis unfolding kill_Generate_def d(1) bind.simps prod.case by (intro yields_if k pd)
qed

lemma containerKill_Generate_ok:
  assumes R: "math_rand_laws R" and PD: "pd_answers PDMember"
  shows "yields (containerKill_Generate PDMember R g name nodes) nodes"
proof -
  obtain d g' where d: "random_duration R g = Some (d, g')" "60 * Second \<le> d" "d < 180 * Second"
    using random_duration_total [OF R] by blast
  note b = duration_bounds(1) [OF d(2,3), THEN conjunct1] duration_bounds(1) [OF d(2,3), THEN conjunct2]
  note k = containerKillNodes_ok [OF R b]
  have pd: "yields (do { nodes \<leftarrow> findPDMember PDMember nodes True; containerKillNodes R g' nodes 1 (Some PD) d }) nodes"
  proof -
    obtain r where r: "findPDMember PDMember nodes True = Some r" "mset r \<subseteq># mset nodes" using findPDMember_ok [OF PD] by blast
    then show ?thesis using yields_mono [OF k] by simp
  qed
  show ?thesis unfolding containerKill_Generate_def d(1) bind.simps prod.case by (intro yields_if k pd)
qed

text \<open>The slice of \<open>podKillNodes\<close> ends up full.\<close>

lemma podKill_fill:
  assumes "distinct ix" "set ix = {..<length nodes}" "k \<le> length ix"
  shows "foldM (\<lambda>i ops. if i < length ix then Some (ops[ix ! i := Some (f (nodes ! (ix ! i)))]) else None)
      [0..<k] (replicate (length nodes) None) =
    Some (map (\<lambda>j. if j \<in> set (take k ix) then Some (f (nodes ! j)) else None) [0..<length nodes])"
  using assms(3)
proof (induction k)
  case 0
  show ?case by (simp add: map_replicate_const)
next
  case (Suc k)
  have "ix ! k < length nodes" using Suc.prems assms(2) by (metis Suc_le_eq lessThan_iff nth_mem)
  moreover have "take (Suc k) ix = take k ix @ [ix ! k]" using Suc.prems by (simp add: take_Suc_conv_app_nth)
  ultimately show ?case using Suc
    by (auto simp: foldM_append nth_list_update intro!: nth_equalityI)
qed

lemma podKill_Generate_ok:
  assumes R: "math_rand_laws R"
  shows "yields (podKill_Generate R g name nodes) nodes"
proof -
  obtain d g' where d: "random_duration R g = Some (d, g')" "60 * Second \<le> d" "d < 180 * Second"
    using random_duration_total [OF R] by blast
  obtain ix g2 where ix: "shuffleIndices R g' (length nodes) = Some (ix, g2)" "mset ix = mset [0..<length nodes]"
    using shuffleIndices_perm [OF R] by blast
  have st: "distinct ix" "set ix = {..<length nodes}" "length ix = length nodes"
    using ix(2) mset_eq_imp_distinct_iff [OF ix(2)] mset_eq_setD [OF ix(2)] mset_eq_length [OF ix(2)] by (auto simp: atLeast0LessThan)
  have "map (\<lambda>j. if j \<in> set (take (length nodes) ix) then Some (node_op PodKill d (nodes ! j)) else None) [0..<length nodes] =
      map (\<lambda>node. Some (node_op PodKill d node)) nodes"
    using st by (intro nth_equalityI) auto
  with podKill_fill [OF st(1,2), of "length nodes" "node_op PodKill d"] st(3) d(1) ix(1)
  have "podKill_Generate R g name nodes = Some (map (\<lambda>node. Some (node_op PodKill d node)) nodes, g2)"
    by (simp add: podKill_Generate_def podKillNodes_def)
  moreover have "generated_ok nodes (map (\<lambda>node. Some (node_op PodKill d node)) nodes)"
    using duration_bounds(1) [OF d(2,3)] by (auto simp: generated_ok_def all_targets_map [of nodes _ id] intro!: node_op_ok)
  ultimately show ?thesis by (auto simp: yields_def)
qed

lemma randK8sObjectName_total: "math_rand_laws R \<Longrightarrow> \<exists>cs g'. randK8sObjectName R g k = Some (cs, g')"
proof (induction k arbitrary: g)
  case (Suc k)
  obtain i g' where "Intn R g (int (length letterRunes)) = Some (i, g')"
    using math_rand_Intn [OF Suc.prems, of "int (length letterRunes)" g] by (auto simp: letterRunes_def)
  then show ?case using Suc.IH [OF Suc.prems, of g'] by auto
qed simp

lemma networkPartition_Generate_ok:
  assumes R: "math_rand_laws R" and two: "2 \<le> length nodes"
  shows "yields (networkPartition_Generate R g name nodes) nodes"
proof -
  obtain d g' where d: "random_duration R g = Some (d, g')" "60 * Second \<le> d" "d < 180 * Second"
    using random_duration_total [OF R] by blast
  obtain ix g2 where ix: "shuffleIndices R g' (length nodes) = Some (ix, g2)" "mset ix = mset [0..<length nodes]"
    using shuffleIndices_perm [OF R] by blast
  obtain cs g3 where cs: "randK8sObjectName R g2 7 = Some (cs, g3)" using randK8sObjectName_total [OF R] by blast
  let ?pick = "\<lambda>xs. map (\<lambda>i. nodes ! (ix ! i)) xs"
  have "[0..<1] @ [1..<length nodes] = [0..<length nodes]" using two upt_conv_Cons [of 0 "length nodes"] by force
  then have "mset (?pick [0..<1] @ ?pick [1..<length nodes]) = mset nodes"
    using mset_pick(1) [OF ix(2)] by (metis map_append order_refl)
  then show ?thesis using two duration_bounds(1) [OF d(2,3)] d(1) ix(1) cs
    by (auto simp: networkPartition_Generate_def partitionNodes_def yields_def generated_ok_def Let_def op_nodes_def well_formed_op_def)
qed

lemma sint_of_int: "- (2 ^ 63) \<le> v \<Longrightarrow> v < 2 ^ 63 \<Longrightarrow> sint (of_int v :: 64 word) = v"
  by (simp add: signed_of_int signed_take_bit_int_eq_self)

lemma skew_table:
  assumes "level < 5"
  obtains lo hi where "skewTimeMap ! level = of_int lo" "skewTimeMap ! (level + 1) = of_int hi" "0 \<le> lo" "lo < hi" "hi \<le> 5000"
proof -
  from assms have "level \<in> {0, 1, 2, 3, 4}" by auto
  then show thesis
    using that [of 0 100] that [of 100 200] that [of 200 250] that [of 250 500] that [of 500 5000]
    by (auto simp: skewTimeMap_def)
qed

lemma skew_spec:
  assumes "math_rand_laws R" "level \<le> 5"
  shows "\<exists>d g'. selectChaosDuration R g level True = Some (d, g') \<and>
    (if level = strobeSkews then 0 \<le> sint d \<and> sint d < 200 * Millisecond
     else sint (skewTimeMap ! level) * Millisecond \<le> \<bar>sint d\<bar> \<and> \<bar>sint d\<bar> < sint (skewTimeMap ! (level + 1)) * Millisecond)"
proof (cases "level = strobeSkews")
  case True
  obtain k g' where k: "Intn R g strobeSkewsBios = Some (k, g')" "0 \<le> k" "k < 200"
    using math_rand_Intn [OF assms(1), of strobeSkewsBios g] by (auto simp: strobeSkewsBios_def)
  have "sint (of_int k * of_int Millisecond :: 64 word) = k * Millisecond"
    unfolding of_int_mult [symmetric] using k(2,3) by (intro sint_of_int) (simp_all add: Millisecond_def)
  then show ?thesis using True k by (simp add: selectChaosDuration_def Millisecond_def)
next
  case False
  then have "level < 5" using assms(2) by (simp add: strobeSkews_def)
  then obtain lo hi where t: "skewTimeMap ! level = of_int lo" "skewTimeMap ! (level + 1) = of_int hi" "0 \<le> lo" "lo < hi" "hi \<le> 5000"
    by (rule skew_table)
  have s: "sint (of_int lo :: 64 word) = lo" "sint (of_int hi :: 64 word) = hi" "sint (of_int hi - of_int lo :: 64 word) = hi - lo"
    using t(3-5) sint_of_int [of "hi - lo"] by (auto intro: sint_of_int)
  obtain k g' where k: "Intn R g (hi - lo) = Some (k, g')" "0 \<le> k" "k < hi - lo"
    using math_rand_Intn [OF assms(1), of "hi - lo" g] t(4) by auto
  obtain b g2 where b: "rand_Int R g' = (b, g2)" by (cases "rand_Int R g'")
  let ?v = "if b mod 2 = 1 then - (k + lo) else k + lo"
  have "(if b mod 2 = 1 then - (of_int k + of_int lo) else of_int k + of_int lo) * of_int Millisecond = (of_int (?v * Millisecond) :: 64 word)"
    by simp
  moreover have "sint (of_int (?v * Millisecond) :: 64 word) = ?v * Millisecond"
    using k t(3,5) by (intro sint_of_int) (auto simp: Millisecond_def)
  moreover have "level + 1 < length skewTimeMap" using \<open>level < 5\<close> by (simp add: skewTimeMap_def)
  ultimately show ?thesis using False k t b s by (auto simp: selectChaosDuration_def Millisecond_def Let_def)
qed

text \<open>The clock skew of a time chaos: when \<open>selectChaosDuration\<close> starts from the last level it returns an
  offset whose absolute value lies between the bound of its level and the bound of the next one,
  although the negative offset is made by negating an unsigned number; the strobe level gives an
  offset between 0 and 200 ms. No level of the table is out of range.\<close>

theorem skew_bounds:
  assumes "math_rand_laws R" "level \<le> 5"
  shows "\<exists>d g'. selectChaosDuration R g level True = Some (d, g') \<and>
    (if level = strobeSkews then 0 \<le> sint d \<and> sint d < 200 * Millisecond
     else sint (skewTimeMap ! level) * Millisecond \<le> \<bar>sint d\<bar> \<and> \<bar>sint d\<bar> < sint (skewTimeMap ! (level + 1)) * Millisecond)"
  using assms by (rule skew_spec)

lemma skew_total:
  assumes "math_rand_laws R" "level \<le> 5" shows "\<exists>d g'. selectChaosDuration R g level True = Some (d, g')"
  using skew_spec [OF assms] by blast

lemma time_op_ok:
  "\<lbrakk>10 * Second \<le> d; d \<le> 5 * Minute\<rbrakk> \<Longrightarrow> well_formed_op \<lparr>no_Type = TimeChaos, no_Node = Some node, no_InvokeArgs = [ArgString x],
     no_RecoverArgs = [ArgString x], no_RunTime = d, no_Control = False\<rparr>"
  "\<lbrakk>10 * Second \<le> d; d \<le> 5 * Minute\<rbrakk> \<Longrightarrow> well_formed_op \<lparr>no_Type = PDScheduler, no_Node = Some node, no_InvokeArgs = [ArgString x],
     no_RecoverArgs = [ArgString x], no_RunTime = d, no_Control = False\<rparr>"
  "\<lbrakk>10 * Second \<le> d; d \<le> 5 * Minute\<rbrakk> \<Longrightarrow> well_formed_op \<lparr>no_Type = NetemChaos, no_Node = Some node, no_InvokeArgs = [ArgNetem y],
     no_RecoverArgs = [ArgNetem y], no_RunTime = d, no_Control = False\<rparr>"
  by (simp_all add: well_formed_op_def kind_defs)

lemma timeChaos_loop_ok:
  assumes R: "math_rand_laws R" and "timeChaosLevel name = Some level" "level \<le> 5"
  shows "yields (timeChaos_loop offset_string R g name nodes) nodes"
proof (induction nodes arbitrary: g)
  case (Cons node nodes)
  obtain t g1 where t: "selectChaosDuration R g level True = Some (t, g1)" using skew_total [OF R assms(3)] by blast
  obtain d g2 where d: "random_duration R g1 = Some (d, g2)" "60 * Second \<le> d" "d < 180 * Second"
    using random_duration_total [OF R] by blast
  from Cons [of g2] show ?case using t d(1) assms(2) duration_bounds(1) [OF d(2,3)]
    by (auto simp: yields_def generated_ok_def op_nodes_def intro!: time_op_ok)
qed (simp add: yields_def generated_ok_def)

lemma netem_loop_ok:
  assumes R: "math_rand_laws R" and "generated_ok done_nodes ops"
  shows "yields (netem_loop R g nChaos nodes ops) (done_nodes @ nodes)"
  using assms(2)
proof (induction nodes arbitrary: g ops done_nodes)
  case (Cons node nodes)
  obtain d g1 where d: "random_duration R g = Some (d, g1)" "60 * Second \<le> d" "d < 180 * Second"
    using random_duration_total [OF R] by blast
  let ?op = "\<lparr>no_Type = NetemChaos, no_Node = Some node, no_InvokeArgs = [ArgNetem nChaos],
       no_RecoverArgs = [ArgNetem nChaos], no_RunTime = d, no_Control = False\<rparr>"
  have "generated_ok (done_nodes @ [node]) (ops @ [Some ?op])"
    using Cons.prems duration_bounds(1) [OF d(2,3)]
    by (auto simp: generated_ok_def op_nodes_def intro!: time_op_ok)
  from Cons.IH [OF this, of g1] show ?case using d(1) by simp
qed (auto simp: yields_def)

lemma nil_entries_ok: "generated_ok [] (replicate n None)"
  by (induction n) (auto simp: generated_ok_def)

lemma if_SomeE: "(if b then Some x else r) = Some y \<Longrightarrow> (b \<Longrightarrow> x = y \<Longrightarrow> P) \<Longrightarrow> (r = Some y \<Longrightarrow> P) \<Longrightarrow> P"
  by (cases b) auto

lemma if_NoneE: "(if b then None else r) = Some y \<Longrightarrow> (r = Some y \<Longrightarrow> P) \<Longrightarrow> P"
  by (cases b) auto

lemma parse_name: "parseNemesisGenerator name = Some gen \<Longrightarrow> Generator_Name gen = name"
  unfolding parseNemesisGenerator_def by (elim if_SomeE if_NoneE) auto

lemma parse_time:
  assumes "parseNemesisGenerator name = Some (TimeChaosGenerator n)" "name \<noteq> ''strobe_skews''"
  shows "\<exists>level \<le> 5. timeChaosLevel n = Some level"
proof -
  from assms have "n \<in> set [''small_skews'', ''subcritical_skews'', ''critical_skews'', ''big_skews'', ''huge_skews'', ''strobe_skews'']" "n \<noteq> ''strobe_skews''"
    unfolding parseNemesisGenerator_def by (elim if_SomeE if_NoneE; simp only: NemesisGenerator.inject NemesisGenerator.distinct option.distinct)+
  then show ?thesis by (auto simp: timeChaosLevel_def skewTimeStrMap_def strobeSkews_def)
qed

lemma parse_netem:
  assumes "parseNemesisGenerator name = Some (NetemChaosGenerator n)" shows "\<exists>x. selectNetem n = Some x"
proof -
  from assms have "n \<in> set [''loss'', ''delay'', ''duplicate'', ''corrupt'']"
    unfolding parseNemesisGenerator_def by (elim if_SomeE if_NoneE; simp only: NemesisGenerator.inject NemesisGenerator.distinct option.distinct)+
  then show ?thesis by (auto simp: selectNetem_def)
qed

lemma Generate_yields:
  assumes R: "math_rand_laws R" "pd_answers PDMember"
    and "parseNemesisGenerator name = Some gen" "name \<noteq> ''strobe_skews''"
    and "2 \<le> length nodes" "PD \<in> nd_Component ` set nodes"
  shows "yields (Generate PDMember offset_string R g gen nodes) nodes"
proof -
  obtain d g1 where d: "random_duration R g = Some (d, g1)" "60 * Second \<le> d" "d < 180 * Second"
    using random_duration_total [OF R(1)] by blast
  note b = duration_bounds(1) [OF d(2,3)]
  obtain first others where n: "nodes = first # others" using assms(5) by (cases nodes) auto
  obtain pd pds where pd: "filterComponent nodes PD = pd # pds" "pd \<in> set nodes"
    using assms(6) unfolding filterComponent_def by (cases "filter (\<lambda>node. nd_Component node = PD) nodes")
      (auto simp: filter_empty_conv dest!: filter_eq_ConsD)
  show ?thesis
  proof (cases gen)
    case (TimeChaosGenerator n)
    then show ?thesis using parse_time assms(3,4) timeChaos_loop_ok [OF R(1)] by fastforce
  next
    case (NetemChaosGenerator n)
    then obtain x where "selectNetem n = Some x" using parse_netem assms(3) by blast
    then show ?thesis using NetemChaosGenerator netem_loop_ok [OF R(1) nil_entries_ok] by (simp add: netem_Generate_def)
  next
    case (SchedulerGenerator n)
    then show ?thesis using pd by (auto simp: scheduler_Generate_def yields_def generated_ok_def op_nodes_def Minute_def Second_def intro!: time_op_ok)
  next
    case (ScalingGenerator n)
    then show ?thesis using d(1) b n by (auto simp: scaling_Generate_def yields_def generated_ok_def intro!: node_op_ok)
  next
    case (LeaderShuffleGenerator n)
    then show ?thesis using pd by (auto simp: leaderShuffle_Generate_def yields_def generated_ok_def Minute_def Second_def intro!: node_op_ok)
  qed (simp_all add: kill_Generate_ok [OF R] containerKill_Generate_ok [OF R] podKill_Generate_ok [OF R(1)]
      networkPartition_Generate_ok [OF R(1) assms(5)])
qed

text \<open>C29. What the generators promise, as long as PD answers. Hypotheses: every PD client that \<open>findPDMember\<close> asks names a leader (an
  error there is a \<open>log.Fatalf\<close>, which ends the process and counts as a panic here), and \<open>Intn n\<close>
  draws from the numbers below a positive \<open>n\<close>. Then every name the parser accepts, except \<open>strobe_skews\<close>, gives a generator of
  that name that on a cluster of at least two nodes, one of them of PD, generates without a panic. The operations are
  applied to nodes of the cluster and to no node twice, run between ten seconds and five minutes,
  carry the arguments that the nemesis of their kind expects, a network partition two non-empty
  parts, and recovery gets the arguments of the injection.\<close>

theorem generators_sound:
  assumes "math_rand_laws R" "pd_answers PDMember"
    and "parseNemesisGenerator name = Some gen" "name \<noteq> ''strobe_skews''"
    and "2 \<le> length nodes" "PD \<in> nd_Component ` set nodes"
  shows "\<exists>ops g'. Generate PDMember offset_string R g gen nodes = Some (ops, g') \<and> Generator_Name gen = name \<and>
    mset (all_targets ops) \<subseteq># mset nodes \<and> (\<forall>op. Some op \<in> set ops \<longrightarrow> well_formed_op op)"
  using Generate_yields [OF assms] parse_name [OF assms(3)] unfolding yields_def generated_ok_def by blast

section \<open>Names that do not work\<close>

text \<open>The parser and the generators disagree on three names: the parser accepts \<open>strobe_skews\<close>, which the table of
  skews spells with a hyphen, so generating it is fatal; it accepts \<open>kill_pd_nonleader_5min\<close>, which
  the generator spells differently, so it behaves as \<open>random_kill\<close>; and it rejects
  \<open>kill_tiflash_1node_5min\<close>, which the generator knows.\<close>

lemma strobe_skews_fatal:
  "parseNemesisGenerator ''strobe_skews'' = Some (TimeChaosGenerator ''strobe_skews'') \<and>
   Generate PDMember offset_string R g (TimeChaosGenerator ''strobe_skews'') (node # nodes) = None"
  by (simp add: parseNemesisGenerator_def timeChaosLevel_def skewTimeStrMap_def)

lemma pd_nonleader_is_random_kill:
  "parseNemesisGenerator ''kill_pd_nonleader_5min'' = Some (KillGenerator ''kill_pd_nonleader_5min'') \<and>
   Generate PDMember offset_string R g (KillGenerator ''kill_pd_nonleader_5min'') nodes =
   Generate PDMember offset_string R g (KillGenerator ''random_kill'') nodes \<and>
   parseNemesisGenerator ''kill_tiflash_1node_5min'' = None"
  by (simp add: parseNemesisGenerator_def kill_Generate_def)

section \<open>Examples\<close>

definition counter_math :: "nat MathRand" where
  "counter_math = \<lparr>Int63nRange = (\<lambda>g lo hi. None),
     Intn = (\<lambda>g n. if 0 < n then Some (int g mod n, Suc g) else None), rand_Int = (\<lambda>g. (int g, Suc g))\<rparr>"

lemma counter_math_laws: "math_rand_laws counter_math"
  by (simp add: math_rand_laws_def counter_math_def)

definition sample_nodes :: "Node list" where
  "sample_nodes = map (\<lambda>(c, pod). \<lparr>nd_Namespace = ''ns'', nd_Component = c, nd_PodName = pod, nd_IP = ''10.0.0.1'', nd_Port = 2379, nd_HasClient = True\<rparr>)
     [(PD, ''pd-0''), (TiKV, ''tikv-0''), (TiKV, ''tikv-1'')]"

theorem shuffleIndices_permutes_witness:
  "(\<exists>ys g'. shuffleIndices counter_math 2 3 = Some (ys, g') \<and> mset ys = mset [0..<3]) \<and>
   (\<exists>cs. shuffleIndices list_rand cs 3 = Some ([2, 0, 1], []))"
proof -
  have "mset [2, 0, 1] = mset [0..<(3::nat)]" by (simp add: numeral_eq_Suc)
  with shuffleIndices_permutes [OF counter_math_laws, of 2 3] show ?thesis by blast
qed

theorem skew_bounds_witness:
  "\<exists>d g'. selectChaosDuration counter_math 7 2 True = Some (d, g') \<and> 200 * Millisecond \<le> \<bar>sint d\<bar> \<and> \<bar>sint d\<bar> < 250 * Millisecond"
  using skew_bounds [OF counter_math_laws, of 2 7] by (simp add: strobeSkews_def skewTimeMap_def)

theorem generators_sound_witness:
  "\<exists>ops g'. Generate (\<lambda>_. Some ''pd-0'') (\<lambda>_. []) counter_math 5 (NetworkPartitionGenerator ''partition_one'') sample_nodes = Some (ops, g') \<and>
     mset (all_targets ops) \<subseteq># mset sample_nodes \<and> (\<forall>op. Some op \<in> set ops \<longrightarrow> well_formed_op op)"
proof -
  have "pd_answers (\<lambda>_. Some ''pd-0'')" "parseNemesisGenerator ''partition_one'' = Some (NetworkPartitionGenerator ''partition_one'')"
    "2 \<le> length sample_nodes" "PD \<in> nd_Component ` set sample_nodes"
    by (simp_all add: pd_answers_def parseNemesisGenerator_def sample_nodes_def)
  from generators_sound [OF counter_math_laws this(1,2) _ this(3,4), of "\<lambda>_. []" 5] show ?thesis by auto
qed

end
