(* ===== verification/Pd_Client.thy ===== *)
theory Pd_Client
  imports Nemesis_Generators
begin

text \<open>
  The clients of PD's interface: \<open>pkg/util/http\<close> over \<open>net/http\<close>, \<open>pdutil.Client\<close> of
  \<open>pkg/util/pdutil/client.go\<close>, and the leader shuffler of \<open>pkg/nemesis/leader_shuffle.go\<close>, which asks PD
  for regions and stores and posts an operator that moves, merges or splits the region of a key.

  The network, the JSON decoding of answers and encoding of requests, and the random source act on a
  world and are parameters. A panic is \<^const>\<open>None\<close>. The main result: the shuffler never panics on what a
  cluster answers, posts at most one operator, and the operator it posts is one that PD can carry out.
\<close>

section \<open>The HTTP client\<close>

text \<open>An answer: the status and the body, if it can be read to its end.\<close>

record http_response =
  StatusCode :: int
  Body :: "string option"

record Peer =
  StoreId :: "64 word"

record RegionInfo =
  ri_ID :: "64 word"
  ri_StartKey :: string
  ri_EndKey :: string
  ri_Peers :: "Peer option list"
  ri_Leader :: "Peer option"

datatype StoreState = Up | Offline | Tombstone

record Store =
  st_Id :: "64 word"
  st_State :: StoreState

record Member =
  mb_Name :: string
  mb_MemberID :: "64 word"
  mb_DcLocation :: string

record MembersInfo =
  mi_Members :: "Member list"
  mi_Leader :: "Member option"
  mi_EtcdLeader :: "Member option"
  mi_TsoAllocatorLeaders :: "(string, Member) gomap"

text \<open>The bodies that are posted.\<close>

datatype operator_body =
    TransferLeader "64 word" "64 word"
  | TransferRegion "64 word" "64 word list" "string list"
  | MergeRegion "64 word" "64 word"
  | SplitRegion "64 word" string

datatype request_body = SchedulerBody string | OperatorBody operator_body | LabelsBody "(string, string) gomap"

record 'w Net =
  net_Do :: "string \<Rightarrow> string \<Rightarrow> string \<Rightarrow> string \<Rightarrow> 'w \<Rightarrow> http_response option \<times> 'w"
  net_Intn :: "int \<Rightarrow> 'w \<Rightarrow> (int \<times> 'w) option"
  enc_body :: "request_body \<Rightarrow> string option"
  dec_region :: "string \<Rightarrow> RegionInfo option"
  dec_regions :: "string \<Rightarrow> RegionInfo option list option"
  dec_stores :: "string \<Rightarrow> Store list option"
  dec_members :: "string \<Rightarrow> MembersInfo option"

text \<open>The methods return the body or an error, and the new world.\<close>

definition http_Get :: "('w, 'z) Net_scheme \<Rightarrow> string \<Rightarrow> 'w \<Rightarrow> string option \<times> 'w" where
  "http_Get N url w =
     (case net_Do N ''GET'' url [] [] w of
        (None, w) \<Rightarrow> (None, w)
      | (Some resp, w) \<Rightarrow>
          (case Body resp of
             None \<Rightarrow> (None, w)
           | Some res \<Rightarrow> if StatusCode resp \<noteq> 200 then (None, w) else (Some res, w)))"

definition http_Post :: "('w, 'z) Net_scheme \<Rightarrow> string \<Rightarrow> string \<Rightarrow> string \<Rightarrow> 'w \<Rightarrow> bool \<times> 'w" where
  "http_Post N url bodyType body w =
     (case net_Do N ''POST'' url bodyType body w of
        (None, w) \<Rightarrow> (False, w)
      | (Some resp, w) \<Rightarrow> if StatusCode resp \<noteq> 200 then (False, w) else (True, w))"

definition http_Put :: "('w, 'z) Net_scheme \<Rightarrow> string \<Rightarrow> string \<Rightarrow> string \<Rightarrow> 'w \<Rightarrow> string option \<times> 'w" where
  "http_Put N url bodyType body w =
     (case net_Do N ''PUT'' url bodyType body w of
        (None, w) \<Rightarrow> (None, w)
      | (Some resp, w) \<Rightarrow>
          (case Body resp of
             None \<Rightarrow> (None, w)
           | Some res \<Rightarrow> if StatusCode resp \<noteq> 200 then (None, w) else (Some res, w)))"

definition http_Delete :: "('w, 'z) Net_scheme \<Rightarrow> string \<Rightarrow> 'w \<Rightarrow> bool \<times> 'w" where
  "http_Delete N url w =
     (case net_Do N ''DELETE'' url [] [] w of
        (None, w) \<Rightarrow> (False, w)
      | (Some resp, w) \<Rightarrow> if StatusCode resp \<noteq> 200 then (False, w) else (True, w))"

section \<open>The client of PD\<close>

definition schedulersPrefix :: string where "schedulersPrefix = ''/pd/api/v1/schedulers''"
definition regionKeyPrefix :: string where "regionKeyPrefix = ''/pd/api/v1/region/key/''"
definition regionsSiblingPrefix :: string where "regionsSiblingPrefix = ''/pd/api/v1/regions/sibling/''"
definition operatorsPrefix :: string where "operatorsPrefix = ''/pd/api/v1/operators''"
definition storesPrefix :: string where "storesPrefix = ''/pd/api/v1/stores''"
definition regionsPrefix :: string where "regionsPrefix = ''/pd/api/v1/regions''"
definition pdLeaderTransferPrefix :: string where "pdLeaderTransferPrefix = ''/pd/api/v1/leader/transfer''"
definition membersPrefix :: string where "membersPrefix = ''/pd/api/v1/members''"
definition transferAllocatorPrefix :: string where "transferAllocatorPrefix = ''/pd/api/v1/tso/allocator/transfer''"
definition storePrefix :: string where "storePrefix = ''/pd/api/v1/store''"
definition contentJSON :: string where "contentJSON = ''application/json''"

text \<open>\<open>url.QueryEscape\<close> on bytes.\<close>

definition hex_digit :: "nat \<Rightarrow> char" where
  "hex_digit n = ''0123456789ABCDEF'' ! n"

definition escape_char :: "char \<Rightarrow> string" where
  "escape_char c =
     (if c \<in> set ''abcdefghijklmnopqrstuvwxyzABCDEFGHIJKLMNOPQRSTUVWXYZ0123456789-_.~'' then [c]
      else if c = CHR '' '' then ''+''
      else [CHR ''%'', hex_digit (of_char c div 16), hex_digit (of_char c mod 16)])"

definition QueryEscape :: "string \<Rightarrow> string" where
  "QueryEscape s = concat (map escape_char s)"

definition post_body :: "('w, 'z) Net_scheme \<Rightarrow> string \<Rightarrow> request_body \<Rightarrow> 'w \<Rightarrow> bool \<times> 'w" where
  "post_body N url body w = (case enc_body N body of None \<Rightarrow> (False, w) | Some data \<Rightarrow> http_Post N url contentJSON data w)"

definition get_decoded :: "('w, 'z) Net_scheme \<Rightarrow> (string \<Rightarrow> 'a option) \<Rightarrow> string \<Rightarrow> 'w \<Rightarrow> 'a option \<times> 'w" where
  "get_decoded N dec url w = (case http_Get N url w of (None, w) \<Rightarrow> (None, w) | (Some resp, w) \<Rightarrow> (dec resp, w))"

definition AddScheduler :: "('w, 'z) Net_scheme \<Rightarrow> string \<Rightarrow> string \<Rightarrow> 'w \<Rightarrow> bool \<times> 'w" where
  "AddScheduler N pdAddr schedulerName w = post_body N (pdAddr @ schedulersPrefix) (SchedulerBody schedulerName) w"

definition RemoveScheduler :: "('w, 'z) Net_scheme \<Rightarrow> string \<Rightarrow> string \<Rightarrow> 'w \<Rightarrow> bool \<times> 'w" where
  "RemoveScheduler N pdAddr schedulerName w = http_Delete N (pdAddr @ schedulersPrefix @ ''/'' @ schedulerName) w"

definition ListRegions :: "('w, 'z) Net_scheme \<Rightarrow> string \<Rightarrow> 'w \<Rightarrow> RegionInfo option list option \<times> 'w" where
  "ListRegions N pdAddr w = get_decoded N (dec_regions N) (pdAddr @ regionsPrefix) w"

definition GetStores :: "('w, 'z) Net_scheme \<Rightarrow> string \<Rightarrow> 'w \<Rightarrow> Store list option \<times> 'w" where
  "GetStores N pdAddr w = get_decoded N (dec_stores N) (pdAddr @ storesPrefix) w"

definition GetRegionByKey :: "('w, 'z) Net_scheme \<Rightarrow> string \<Rightarrow> string \<Rightarrow> 'w \<Rightarrow> RegionInfo option \<times> 'w" where
  "GetRegionByKey N pdAddr key w = get_decoded N (dec_region N) (pdAddr @ regionKeyPrefix @ QueryEscape key) w"

definition Operators :: "('w, 'z) Net_scheme \<Rightarrow> string \<Rightarrow> operator_body \<Rightarrow> 'w \<Rightarrow> bool \<times> 'w" where
  "Operators N pdAddr input w = post_body N (pdAddr @ operatorsPrefix) (OperatorBody input) w"

definition GetSiblingRegions :: "('w, 'z) Net_scheme \<Rightarrow> string \<Rightarrow> 64 word \<Rightarrow> 'w \<Rightarrow> RegionInfo option list option \<times> 'w" where
  "GetSiblingRegions N pdAddr i w = get_decoded N (dec_regions N) (pdAddr @ regionsSiblingPrefix @ Itoa (uint i)) w"

definition TransferPDLeader :: "('w, 'z) Net_scheme \<Rightarrow> string \<Rightarrow> string \<Rightarrow> 'w \<Rightarrow> bool \<times> 'w" where
  "TransferPDLeader N pdAddr memberName w = http_Post N (pdAddr @ pdLeaderTransferPrefix @ ''/'' @ memberName) contentJSON [] w"

definition GetMembers :: "('w, 'z) Net_scheme \<Rightarrow> string \<Rightarrow> 'w \<Rightarrow> MembersInfo option \<times> 'w" where
  "GetMembers N pdAddr w = get_decoded N (dec_members N) (pdAddr @ membersPrefix) w"

definition TransferAllocator :: "('w, 'z) Net_scheme \<Rightarrow> string \<Rightarrow> string \<Rightarrow> string \<Rightarrow> 'w \<Rightarrow> bool \<times> 'w" where
  "TransferAllocator N pdAddr name dclocation w =
     http_Post N (pdAddr @ transferAllocatorPrefix @ ''/'' @ name @ ''?dcLocation='' @ dclocation) contentJSON [] w"

definition SetStoreLabels :: "('w, 'z) Net_scheme \<Rightarrow> string \<Rightarrow> 64 word \<Rightarrow> (string, string) gomap \<Rightarrow> 'w \<Rightarrow> bool \<times> 'w" where
  "SetStoreLabels N pdAddr storeID labels w =
     post_body N (pdAddr @ storePrefix @ ''/'' @ Itoa (uint storeID) @ ''/label'') (LabelsBody labels) w"

section \<open>The leader shuffler\<close>

text \<open>\<open>peer.GetStoreId()\<close> is 0 on a nil peer; \<open>p.StoreId\<close> panics.\<close>

definition GetStoreId :: "Peer option \<Rightarrow> 64 word" where
  "GetStoreId p = (case p of Some p \<Rightarrow> StoreId p | None \<Rightarrow> 0)"

text \<open>The functions return whether the error is nil and the new world.\<close>

definition transferLeader :: "('w, 'z) Net_scheme \<Rightarrow> string \<Rightarrow> string \<Rightarrow> 'w \<Rightarrow> (bool \<times> 'w) option" where
  "transferLeader N pdAddr regionKey w =
     (case GetRegionByKey N pdAddr regionKey w of
        (None, w) \<Rightarrow> Some (False, w)
      | (Some region, w) \<Rightarrow>
          if ri_Leader region = None then Some (True, w)
          else let followerIds = filter (\<lambda>i. i \<noteq> GetStoreId (ri_Leader region)) (map GetStoreId (ri_Peers region))
               in if followerIds = [] then Some (True, w)
                  else do {
                    (k, w) \<leftarrow> net_Intn N (int (length followerIds)) w;
                    Some (Operators N pdAddr (TransferLeader (ri_ID region) (followerIds ! nat k)) w) })"

definition up_stores :: "Store list \<Rightarrow> 64 word list" where
  "up_stores stores = map st_Id (filter (\<lambda>s. st_State s = Up) stores)"

definition transferRegion :: "('w, 'z) Net_scheme \<Rightarrow> string \<Rightarrow> string \<Rightarrow> 'w \<Rightarrow> (bool \<times> 'w) option" where
  "transferRegion N pdAddr regionKey w =
     (case GetStores N pdAddr w of
        (None, w) \<Rightarrow> Some (False, w)
      | (Some stores, w) \<Rightarrow>
          (case GetRegionByKey N pdAddr regionKey w of
             (None, w) \<Rightarrow> Some (False, w)
           | (Some region, w) \<Rightarrow>
               if ri_Leader region = None then Some (True, w)
               else let onlineStores = remove1 (GetStoreId (ri_Leader region)) (up_stores stores)
                    in if length onlineStores < length (ri_Peers region) then Some (True, w)
                       else let target = take (length (ri_Peers region)) onlineStores
                            in Some (Operators N pdAddr (TransferRegion (ri_ID region) target (replicate (length target) ''voter'')) w)))"

text \<open>\<open>r\<close> is dereferenced, so a nil region before the one that is found panics, as does a nil peer of the
  region that is moved, other than its first one.\<close>

fun find_other :: "64 word \<Rightarrow> RegionInfo option list \<Rightarrow> RegionInfo option option" where
  "find_other leader [] = Some None"
| "find_other leader (None # rs) = None"
| "find_other leader (Some r # rs) =
     (if list_ex (\<lambda>p. p \<noteq> None \<and> GetStoreId p = leader) (ri_Peers r) then find_other leader rs else Some (Some r))"

definition other_targets :: "64 word \<Rightarrow> Peer option list \<Rightarrow> 64 word list option" where
  "other_targets leader ps =
     (case ps of [] \<Rightarrow> Some [] | p # ps \<Rightarrow> if None \<in> set ps then None else Some (leader # map GetStoreId ps))"

definition transferOtherRegionToLeader :: "('w, 'z) Net_scheme \<Rightarrow> string \<Rightarrow> string \<Rightarrow> 'w \<Rightarrow> (bool \<times> 'w) option" where
  "transferOtherRegionToLeader N pdAddr regionKey w =
     (case GetRegionByKey N pdAddr regionKey w of
        (None, w) \<Rightarrow> Some (False, w)
      | (Some region, w) \<Rightarrow>
          if ri_Leader region = None then Some (True, w)
          else let leader = GetStoreId (ri_Leader region)
               in (case ListRegions N pdAddr w of
                     (None, w) \<Rightarrow> Some (False, w)
                   | (Some regions, w) \<Rightarrow> do {
                       ri \<leftarrow> find_other leader regions;
                       (case ri of
                          None \<Rightarrow>
                            (case GetStores N pdAddr w of
                               (None, w) \<Rightarrow> Some (False, w)
                             | (Some stores, w) \<Rightarrow> do {
                                 (k, w) \<leftarrow> net_Intn N (int (length regions)) w;
                                 ri \<leftarrow> regions ! nat k;
                                 let toStores = take 1 (filter (\<lambda>i. i \<noteq> leader) (up_stores stores));
                                 Some (Operators N pdAddr (TransferRegion (ri_ID ri) toStores (replicate (length toStores) ''voter'')) w) })
                        | Some ri \<Rightarrow> do {
                            toStores \<leftarrow> other_targets leader (ri_Peers ri);
                            Some (Operators N pdAddr (TransferRegion (ri_ID ri) toStores (replicate (length toStores) ''voter'')) w) }) }))"

definition mergeRegion :: "('w, 'z) Net_scheme \<Rightarrow> string \<Rightarrow> string \<Rightarrow> 'w \<Rightarrow> (bool \<times> 'w) option" where
  "mergeRegion N pdAddr regionKey w =
     (case GetRegionByKey N pdAddr regionKey w of
        (None, w) \<Rightarrow> Some (False, w)
      | (Some region, w) \<Rightarrow>
          if ri_StartKey region = ri_EndKey region then Some (True, w)
          else (case GetSiblingRegions N pdAddr (ri_ID region) w of
                  (None, w) \<Rightarrow> Some (False, w)
                | (Some siblings, w) \<Rightarrow>
                    (case List.find (\<lambda>s. s \<noteq> None) siblings of
                       Some (Some target) \<Rightarrow> do {
                         (k, w) \<leftarrow> net_Intn N 2 w;
                         let (region, target) = (if k = 0 then (target, region) else (region, target));
                         Some (Operators N pdAddr (MergeRegion (ri_ID region) (ri_ID target)) w) }
                     | _ \<Rightarrow> Some (False, w))))"

definition splitRegion :: "('w, 'z) Net_scheme \<Rightarrow> string \<Rightarrow> string \<Rightarrow> 'w \<Rightarrow> (bool \<times> 'w) option" where
  "splitRegion N pdAddr regionKey w =
     (case GetRegionByKey N pdAddr regionKey w of
        (None, w) \<Rightarrow> Some (False, w)
      | (Some region, w) \<Rightarrow> Some (Operators N pdAddr (SplitRegion (ri_ID region) ''approximate'') w))"

definition shuffleFuncs :: "(('w, 'z) Net_scheme \<Rightarrow> string \<Rightarrow> string \<Rightarrow> 'w \<Rightarrow> (bool \<times> 'w) option) list" where
  "shuffleFuncs = [transferLeader, transferRegion, transferOtherRegionToLeader, mergeRegion, splitRegion]"

definition ShuffleLeader :: "('w, 'z) Net_scheme \<Rightarrow> string \<Rightarrow> string \<Rightarrow> 'w \<Rightarrow> (bool \<times> 'w) option" where
  "ShuffleLeader N pdAddr regionKey w = do {
     (k, w) \<leftarrow> net_Intn N 5 w;
     (shuffleFuncs ! nat k) N pdAddr regionKey w }"

section \<open>What PD answers\<close>

text \<open>The state of the cluster that PD reports: the region of the key, all regions, the stores and the
  siblings of a region.\<close>

record pd_view =
  pv_region :: RegionInfo
  pv_regions :: "RegionInfo option list"
  pv_stores :: "Store list"
  pv_siblings :: "64 word \<Rightarrow> RegionInfo option list"

text \<open>A \<open>GET\<close> changes nothing, and an answer that decodes is what the state says.\<close>

definition get_law :: "('w, 'z) Net_scheme \<Rightarrow> ('w \<Rightarrow> pd_view) \<Rightarrow> ('w \<Rightarrow> operator_body list) \<Rightarrow> string \<Rightarrow> (string \<Rightarrow> 'a option) \<Rightarrow>
    (pd_view \<Rightarrow> 'a) \<Rightarrow> bool" where
  "get_law N view posted url dec f \<longleftrightarrow> (\<forall>w r w'. net_Do N ''GET'' url [] [] w = (r, w') \<longrightarrow> view w' = view w \<and> posted w' = posted w \<and>
     (\<forall>resp b. r = Some resp \<longrightarrow> StatusCode resp = 200 \<longrightarrow> Body resp = Some b \<longrightarrow> dec b = None \<or> dec b = Some (f (view w))))"

definition pd_laws :: "('w, 'z) Net_scheme \<Rightarrow> string \<Rightarrow> string \<Rightarrow> ('w \<Rightarrow> pd_view) \<Rightarrow> ('w \<Rightarrow> operator_body list) \<Rightarrow> bool" where
  "pd_laws N pdAddr key view posted \<longleftrightarrow>
     get_law N view posted (pdAddr @ regionKeyPrefix @ QueryEscape key) (dec_region N) pv_region \<and>
     get_law N view posted (pdAddr @ regionsPrefix) (dec_regions N) pv_regions \<and>
     get_law N view posted (pdAddr @ storesPrefix) (dec_stores N) pv_stores \<and>
     (\<forall>i. get_law N view posted (pdAddr @ regionsSiblingPrefix @ Itoa (uint i)) (dec_regions N) (\<lambda>v. pv_siblings v i)) \<and>
     (\<forall>body data w r w'. enc_body N (OperatorBody body) = Some data \<longrightarrow> net_Do N ''POST'' (pdAddr @ operatorsPrefix) contentJSON data w = (r, w') \<longrightarrow>
        posted w' = posted w \<or> posted w' = posted w @ [body]) \<and>
     (\<forall>n w. 0 < n \<longrightarrow> (\<exists>x w'. net_Intn N n w = Some (x, w') \<and> 0 \<le> x \<and> x < n \<and> view w' = view w \<and> posted w' = posted w))"

text \<open>A cluster: there are regions, each with peers on different stores, stores are listed once, and a sibling
  is another region.\<close>

definition peer_stores :: "RegionInfo \<Rightarrow> 64 word list" where
  "peer_stores r = map GetStoreId (ri_Peers r)"

definition healthy :: "pd_view \<Rightarrow> bool" where
  "healthy v \<longleftrightarrow> pv_regions v \<noteq> [] \<and> None \<notin> set (pv_regions v) \<and>
     (\<forall>r. Some r \<in> set (pv_regions v) \<longrightarrow> None \<notin> set (ri_Peers r) \<and> distinct (peer_stores r) \<and> ri_Peers r \<noteq> []) \<and>
     distinct (map st_Id (pv_stores v)) \<and>
     (\<forall>s. Some s \<in> set (pv_siblings v (ri_ID (pv_region v))) \<longrightarrow> ri_ID s \<noteq> ri_ID (pv_region v))"

text \<open>The operators that the shuffler may post. The last kind of transfer is the one of \<open>region_loses_replicas\<close> below.\<close>

fun sound_operator :: "pd_view \<Rightarrow> operator_body \<Rightarrow> bool" where
  "sound_operator v (TransferLeader i to) \<longleftrightarrow>
     i = ri_ID (pv_region v) \<and> to \<in> set (peer_stores (pv_region v)) \<and> to \<noteq> GetStoreId (ri_Leader (pv_region v))"
| "sound_operator v (TransferRegion i to roles) \<longleftrightarrow> (let leader = GetStoreId (ri_Leader (pv_region v)) in
     roles = replicate (length to) ''voter'' \<and> distinct to \<and>
     (i = ri_ID (pv_region v) \<and> leader \<notin> set to \<and> set to \<subseteq> set (up_stores (pv_stores v)) \<and> length to = length (ri_Peers (pv_region v)) \<or>
      (\<exists>ri. Some ri \<in> set (pv_regions v) \<and> i = ri_ID ri \<and> leader \<notin> set (peer_stores ri) \<and> to = leader # tl (peer_stores ri)) \<or>
      ((\<forall>ri. Some ri \<in> set (pv_regions v) \<longrightarrow> leader \<in> set (peer_stores ri)) \<and>
       (\<exists>ri. Some ri \<in> set (pv_regions v) \<and> i = ri_ID ri \<and> to = take 1 (filter (\<lambda>x. x \<noteq> leader) (up_stores (pv_stores v)))))))"
| "sound_operator v (MergeRegion a b) \<longleftrightarrow> a \<noteq> b \<and>
     (\<exists>s. Some s \<in> set (pv_siblings v (ri_ID (pv_region v))) \<and> {a, b} = {ri_ID (pv_region v), ri_ID s})"
| "sound_operator v (SplitRegion i policy) \<longleftrightarrow> i = ri_ID (pv_region v) \<and> policy = ''approximate''"

lemma get_decoded_law:
  assumes "get_law N view posted url dec f" "get_decoded N dec url w = (r, w')"
  shows "view w' = view w \<and> posted w' = posted w \<and> (r = None \<or> r = Some (f (view w)))"
proof -
  obtain a w1 where d: "net_Do N ''GET'' url [] [] w = (a, w1)" by force
  note l = assms(1) [unfolded get_law_def, rule_format, OF d]
  from assms(2) l show ?thesis
    by (auto simp: get_decoded_def http_Get_def d split: option.splits if_splits)
qed

lemma Operators_law:
  assumes "pd_laws N pdAddr key view posted" "Operators N pdAddr body w = (ok, w')"
  shows "posted w' = posted w \<or> posted w' = posted w @ [body]"
proof (cases "enc_body N (OperatorBody body)")
  case (Some data)
  obtain r w1 where d: "net_Do N ''POST'' (pdAddr @ operatorsPrefix) contentJSON data w = (r, w1)" by force
  have "posted w1 = posted w \<or> posted w1 = posted w @ [body]" using assms(1) Some d unfolding pd_laws_def by blast
  moreover have "w' = w1" using assms(2) Some d by (auto simp: Operators_def post_body_def http_Post_def split: option.splits if_splits)
  ultimately show ?thesis by simp
qed (use assms(2) in \<open>simp add: Operators_def post_body_def\<close>)

text \<open>What a function of the shuffler does: it returns, and posts nothing or one sound operator.\<close>

definition posts_sound :: "('w \<Rightarrow> pd_view) \<Rightarrow> ('w \<Rightarrow> operator_body list) \<Rightarrow> 'w \<Rightarrow> (bool \<times> 'w) option \<Rightarrow> bool" where
  "posts_sound view posted w r \<longleftrightarrow> (\<exists>ok w'. r = Some (ok, w') \<and>
     (posted w' = posted w \<or> (\<exists>op. posted w' = posted w @ [op] \<and> sound_operator (view w) op)))"

lemma posts_nothing: "posted w' = posted w \<Longrightarrow> posts_sound view posted w (Some (ok, w'))"
  by (simp add: posts_sound_def)

lemma posts_operator:
  assumes "pd_laws N pdAddr key view posted" "posted w' = posted w" "sound_operator (view w) body"
  shows "posts_sound view posted w (Some (Operators N pdAddr body w'))"
proof -
  obtain ok w2 where o: "Operators N pdAddr body w' = (ok, w2)" by force
  from Operators_law [OF assms(1) o] assms(2,3) show ?thesis by (auto simp: posts_sound_def o)
qed

lemma pd_Intn:
  assumes "pd_laws N pdAddr key view posted" "0 < n"
  shows "\<exists>x w'. net_Intn N n w = Some (x, w') \<and> 0 \<le> x \<and> x < n \<and> view w' = view w \<and> posted w' = posted w"
  using assms by (simp add: pd_laws_def)

lemma pd_gets:
  assumes "pd_laws N pdAddr key view posted"
  shows pd_region: "GetRegionByKey N pdAddr key w = (r1, w') \<Longrightarrow> view w' = view w \<and> posted w' = posted w \<and> (r1 = None \<or> r1 = Some (pv_region (view w)))"
    and pd_regions: "ListRegions N pdAddr w = (r2, w') \<Longrightarrow> view w' = view w \<and> posted w' = posted w \<and> (r2 = None \<or> r2 = Some (pv_regions (view w)))"
    and pd_stores: "GetStores N pdAddr w = (r3, w') \<Longrightarrow> view w' = view w \<and> posted w' = posted w \<and> (r3 = None \<or> r3 = Some (pv_stores (view w)))"
    and pd_siblings: "GetSiblingRegions N pdAddr i w = (r2, w') \<Longrightarrow>
      view w' = view w \<and> posted w' = posted w \<and> (r2 = None \<or> r2 = Some (pv_siblings (view w) i))"
proof -
  note l = assms [unfolded pd_laws_def]
  show "GetRegionByKey N pdAddr key w = (r1, w') \<Longrightarrow> view w' = view w \<and> posted w' = posted w \<and> (r1 = None \<or> r1 = Some (pv_region (view w)))"
    using l unfolding GetRegionByKey_def by (blast dest: get_decoded_law)
  show "ListRegions N pdAddr w = (r2, w') \<Longrightarrow> view w' = view w \<and> posted w' = posted w \<and> (r2 = None \<or> r2 = Some (pv_regions (view w)))"
    using l unfolding ListRegions_def by (blast dest: get_decoded_law)
  show "GetStores N pdAddr w = (r3, w') \<Longrightarrow> view w' = view w \<and> posted w' = posted w \<and> (r3 = None \<or> r3 = Some (pv_stores (view w)))"
    using l unfolding GetStores_def by (blast dest: get_decoded_law)
  have "get_law N view posted (pdAddr @ regionsSiblingPrefix @ Itoa (uint i)) (dec_regions N) (\<lambda>v. pv_siblings v i)" using l by blast
  from get_decoded_law [OF this] show "GetSiblingRegions N pdAddr i w = (r2, w') \<Longrightarrow>
      view w' = view w \<and> posted w' = posted w \<and> (r2 = None \<or> r2 = Some (pv_siblings (view w) i))"
    unfolding GetSiblingRegions_def by blast
qed

lemma transferLeader_sound:
  assumes laws: "pd_laws N pdAddr key view posted"
  shows "posts_sound view posted w (transferLeader N pdAddr key w)"
proof -
  obtain r w1 where g: "GetRegionByKey N pdAddr key w = (r, w1)" by force
  note g' = pd_region [OF laws g]
  let ?region = "pv_region (view w)"
  let ?f = "filter (\<lambda>i. i \<noteq> GetStoreId (ri_Leader ?region)) (map GetStoreId (ri_Peers ?region))"
  show ?thesis
  proof (cases "r = None \<or> ri_Leader ?region = None \<or> ?f = []")
    case True
    then show ?thesis using g' by (auto simp: transferLeader_def g Let_def intro: posts_nothing)
  next
    case False
    have e: "r = Some ?region" using False g' by auto
    from False have "0 < int (length ?f)" by (metis length_greater_0_conv of_nat_0_less_iff)
    from pd_Intn [OF laws this, of w1] obtain k w2 where k: "net_Intn N (int (length ?f)) w1 = Some (k, w2)" "0 \<le> k" "k < int (length ?f)"
      "posted w2 = posted w1" by blast
    then have "?f ! nat k \<in> set ?f" by (intro nth_mem) auto
    then have "sound_operator (view w) (TransferLeader (ri_ID ?region) (?f ! nat k))" by (auto simp: peer_stores_def)
    moreover have "transferLeader N pdAddr key w = Some (Operators N pdAddr (TransferLeader (ri_ID ?region) (?f ! nat k)) w2)"
      using False k(1) by (simp add: transferLeader_def g Let_def e del: not_None_eq)
    ultimately show ?thesis using posts_operator [OF laws] k(4) g' by metis
  qed
qed

lemma up_stores_distinct: "distinct (map st_Id stores) \<Longrightarrow> distinct (up_stores stores)"
  by (simp add: up_stores_def distinct_map_filter)

lemma transferRegion_sound:
  assumes laws: "pd_laws N pdAddr key view posted" and h: "healthy (view w)"
  shows "posts_sound view posted w (transferRegion N pdAddr key w)"
proof -
  obtain r w1 where s: "GetStores N pdAddr w = (r, w1)" by force
  note s' = pd_stores [OF laws s]
  obtain r2 w2 where g: "GetRegionByKey N pdAddr key w1 = (r2, w2)" by force
  note g' = pd_region [OF laws g]
  let ?region = "pv_region (view w)"
  let ?on = "remove1 (GetStoreId (ri_Leader ?region)) (up_stores (pv_stores (view w)))"
  let ?t = "take (length (ri_Peers ?region)) ?on"
  show ?thesis
  proof (cases "r = None \<or> r2 = None \<or> ri_Leader ?region = None \<or> length ?on < length (ri_Peers ?region)")
    case True
    then show ?thesis using g' s' by (auto simp: transferRegion_def g s Let_def intro: posts_nothing)
  next
    case False
    have e: "r = Some (pv_stores (view w))" "r2 = Some ?region" using False g' s' by auto
    have "distinct (up_stores (pv_stores (view w)))" using h by (auto simp: healthy_def intro: up_stores_distinct)
    then have "distinct ?on" "GetStoreId (ri_Leader ?region) \<notin> set ?on" "set ?on \<subseteq> set (up_stores (pv_stores (view w)))" by auto
    moreover have "set ?t \<subseteq> set ?on" by (rule set_take_subset)
    ultimately have "sound_operator (view w) (TransferRegion (ri_ID ?region) ?t (replicate (length ?t) ''voter''))"
      using False by (auto simp: Let_def)
    moreover have "transferRegion N pdAddr key w = Some (Operators N pdAddr (TransferRegion (ri_ID ?region) ?t (replicate (length ?t) ''voter'')) w2)"
      using False by (auto simp: transferRegion_def g s Let_def e)
    ultimately show ?thesis using posts_operator [OF laws] g' s' by metis
  qed
qed

lemma find_other_spec:
  assumes "None \<notin> set rs"
  shows "\<exists>ri. find_other leader rs = Some ri \<and> (\<forall>r. ri = Some r \<longrightarrow> Some r \<in> set rs \<and>
    (\<forall>p \<in> set (ri_Peers r). p \<noteq> None \<longrightarrow> GetStoreId p \<noteq> leader)) \<and>
    (ri = None \<longrightarrow> (\<forall>r. Some r \<in> set rs \<longrightarrow> leader \<in> set (peer_stores r)))"
  using assms
proof (induction leader rs rule: find_other.induct)
  case (3 leader r rs)
  show ?case
  proof (cases "list_ex (\<lambda>p. p \<noteq> None \<and> GetStoreId p = leader) (ri_Peers r)")
    case True
    obtain ri where "find_other leader rs = Some ri" "\<forall>x. ri = Some x \<longrightarrow> Some x \<in> set rs \<and> (\<forall>p \<in> set (ri_Peers x). p \<noteq> None \<longrightarrow> GetStoreId p \<noteq> leader)"
      "ri = None \<longrightarrow> (\<forall>r. Some r \<in> set rs \<longrightarrow> leader \<in> set (peer_stores r))"
      using "3.IH" [OF True] "3.prems" by auto
    moreover have "leader \<in> set (peer_stores r)" using True by (auto simp: peer_stores_def list_ex_iff)
    ultimately show ?thesis using True by (intro exI [of _ ri]) simp
  next
    case False
    then show ?thesis by (auto simp: list_ex_iff)
  qed
qed simp_all

lemma transferOther_sound:
  assumes laws: "pd_laws N pdAddr key view posted" and h: "healthy (view w)"
  shows "posts_sound view posted w (transferOtherRegionToLeader N pdAddr key w)"
proof -
  obtain r w1 where g: "GetRegionByKey N pdAddr key w = (r, w1)" by force
  note g' = pd_region [OF laws g]
  obtain r2 w2 where l: "ListRegions N pdAddr w1 = (r2, w2)" by force
  note l' = pd_regions [OF laws l]
  let ?region = "pv_region (view w)" let ?regions = "pv_regions (view w)"
  let ?leader = "GetStoreId (ri_Leader ?region)"
  have hr: "?regions \<noteq> []" "None \<notin> set ?regions"
    "\<And>x. Some x \<in> set ?regions \<Longrightarrow> None \<notin> set (ri_Peers x) \<and> distinct (peer_stores x) \<and> ri_Peers x \<noteq> []" using h by (auto simp: healthy_def)
  show ?thesis
  proof (cases "r = None \<or> r2 = None \<or> ri_Leader ?region = None")
    case True
    then show ?thesis using g' l' by (auto simp: transferOtherRegionToLeader_def g l Let_def intro: posts_nothing)
  next
    case False
    then have e: "r = Some ?region" "r2 = Some ?regions" "ri_Leader ?region \<noteq> None" using g' l' by auto
    obtain ri where f: "find_other ?leader ?regions = Some ri" "\<And>x. ri = Some x \<Longrightarrow> Some x \<in> set ?regions \<and>
      (\<forall>p \<in> set (ri_Peers x). p \<noteq> None \<longrightarrow> GetStoreId p \<noteq> ?leader)"
      "ri = None \<Longrightarrow> \<forall>x. Some x \<in> set ?regions \<longrightarrow> ?leader \<in> set (peer_stores x)" using find_other_spec [OF hr(2)] by blast
    show ?thesis
    proof (cases ri)
      case (Some x)
      note x = f(2) [OF Some] and hx = hr(3) [of x]
      obtain p ps where ps: "ri_Peers x = p # ps" using x hx by (cases "ri_Peers x") auto
      have t: "other_targets ?leader (ri_Peers x) = Some (?leader # tl (peer_stores x))"
        using x hx ps by (auto simp: other_targets_def peer_stores_def)
      have nl: "?leader \<notin> set (peer_stores x)" using x hx by (auto simp: peer_stores_def)
      then have "distinct (?leader # tl (peer_stores x))" using x hx ps by (auto simp: peer_stores_def)
      then have "sound_operator (view w) (TransferRegion (ri_ID x) (?leader # tl (peer_stores x)) (replicate (length (?leader # tl (peer_stores x))) ''voter''))"
        using x nl by (auto simp: Let_def)
      moreover have "transferOtherRegionToLeader N pdAddr key w = Some (Operators N pdAddr
          (TransferRegion (ri_ID x) (?leader # tl (peer_stores x)) (replicate (length (?leader # tl (peer_stores x))) ''voter'')) w2)"
        using e(3) f(1) Some by (simp add: transferOtherRegionToLeader_def g l Let_def t e(1,2) del: not_None_eq)
      ultimately show ?thesis using posts_operator [OF laws] g' l' by metis
    next
      case None
      obtain r3 w3 where s: "GetStores N pdAddr w2 = (r3, w3)" by force
      note s' = pd_stores [OF laws s]
      show ?thesis
      proof (cases "r3 = None")
        case True
        then show ?thesis using g' l' s' e f(1) None by (auto simp: transferOtherRegionToLeader_def g l s Let_def intro: posts_nothing)
      next
        case False
        then have e3: "r3 = Some (pv_stores (view w))" using g' l' s' by auto
        obtain k w4 where k: "net_Intn N (int (length ?regions)) w3 = Some (k, w4)" "0 \<le> k" "k < int (length ?regions)" "posted w4 = posted w3"
          using pd_Intn [OF laws, of "int (length ?regions)" w3] hr(1) by auto
        then have "?regions ! nat k \<in> set ?regions" by (intro nth_mem) auto
        with hr(2) obtain x where x: "?regions ! nat k = Some x" "Some x \<in> set ?regions" by (metis option.exhaust)
        let ?t = "take 1 (filter (\<lambda>i. i \<noteq> ?leader) (up_stores (pv_stores (view w))))"
        have "distinct ?t"
          using h by (auto simp: healthy_def intro!: distinct_take distinct_filter up_stores_distinct)
        with x(2) f(3) [OF None] have "sound_operator (view w) (TransferRegion (ri_ID x) ?t (replicate (length ?t) ''voter''))"
          unfolding sound_operator.simps Let_def by blast
        moreover have "transferOtherRegionToLeader N pdAddr key w =
          Some (Operators N pdAddr (TransferRegion (ri_ID x) ?t (replicate (length ?t) ''voter'')) w4)"
          using e(3) f(1) None k(1) x(1) by (simp add: transferOtherRegionToLeader_def g l s Let_def e(1,2) e3 del: not_None_eq)
        ultimately show ?thesis using posts_operator [OF laws] g' l' s' k(4) by metis
      qed
    qed
  qed
qed

lemma mergeRegion_sound:
  assumes laws: "pd_laws N pdAddr key view posted" and h: "healthy (view w)"
  shows "posts_sound view posted w (mergeRegion N pdAddr key w)"
proof -
  obtain r w1 where g: "GetRegionByKey N pdAddr key w = (r, w1)" by force
  note g' = pd_region [OF laws g]
  let ?region = "pv_region (view w)" let ?sib = "pv_siblings (view w) (ri_ID ?region)"
  obtain r2 w2 where s: "GetSiblingRegions N pdAddr (ri_ID ?region) w1 = (r2, w2)" by force
  note s' = pd_siblings [OF laws s]
  let ?find = "List.find (\<lambda>s. s \<noteq> None) ?sib"
  show ?thesis
  proof (cases "r = None \<or> ri_StartKey ?region = ri_EndKey ?region \<or> r2 = None \<or> ?find = None \<or> ?find = Some None")
    case True
    then have "\<exists>ok. mergeRegion N pdAddr key w = Some (ok, w1) \<or> mergeRegion N pdAddr key w = Some (ok, w2)"
      using g' s' by (auto simp: mergeRegion_def g s simp del: not_None_eq)
    then show ?thesis using g' s' by (metis posts_nothing)
  next
    case False
    then obtain x where e: "r = Some ?region" "r2 = Some ?sib" "?find = Some (Some x)" using g' s' by auto
    have x: "Some x \<in> set ?sib" using e(3) by (metis find_Some_iff nth_mem)
    obtain k w3 where k: "net_Intn N 2 w2 = Some (k, w3)" "posted w3 = posted w2" using pd_Intn [OF laws, of 2 w2] by auto
    let ?op = "if k = 0 then MergeRegion (ri_ID x) (ri_ID ?region) else MergeRegion (ri_ID ?region) (ri_ID x)"
    have "ri_ID x \<noteq> ri_ID ?region" using h x by (auto simp: healthy_def)
    then have "sound_operator (view w) ?op" using x by auto
    moreover have "mergeRegion N pdAddr key w = Some (Operators N pdAddr ?op w3)"
      using False k(1) by (auto simp: mergeRegion_def g s e simp del: not_None_eq)
    ultimately show ?thesis using posts_operator [OF laws, of w3 w ?op] g' s' k(2) by simp
  qed
qed

lemma splitRegion_sound:
  assumes laws: "pd_laws N pdAddr key view posted"
  shows "posts_sound view posted w (splitRegion N pdAddr key w)"
proof -
  obtain r w1 where g: "GetRegionByKey N pdAddr key w = (r, w1)" by force
  note g' = pd_region [OF laws g]
  show ?thesis using g' posts_operator [OF laws, of w1 w "SplitRegion (ri_ID (pv_region (view w))) ''approximate''"]
    by (auto simp: splitRegion_def g intro: posts_nothing)
qed

text \<open>C20. What the leader shuffler posts. Hypotheses on PD: a \<open>GET\<close> changes nothing, and an answer with
  status 200 that decodes is the state of the cluster (requests, statuses and decoding may fail at any time); a \<open>POST\<close> of an
  operator adds that operator or none; \<open>Intn n\<close> draws from the numbers below a positive \<open>n\<close>. On the cluster: there are
  regions, each with peers on different stores, the stores are listed once, and a sibling of the region is another region.
  Then any of the five functions of the shuffler returns without a panic and posts at most one operator. A transfer of the
  leader goes to another peer of the region. A transfer of a region has distinct target stores, all voters, and is one of three: the
  region of the key goes to stores that are up and do not hold its leader, as many as it has peers; a region
  without a peer on the leader's store gets that store in place of its first peer; or, when every
  listed region has a peer on the leader's store, some listed region goes to the first store that is up and is not the leader's, and
  to no other, so that it loses replicas (\<open>region_loses_replicas\<close>). A merge joins the region with a different sibling, and a
  split is of the region itself.\<close>

theorem shuffler_operators_sound:
  assumes "pd_laws N pdAddr key view posted" "healthy (view w)"
  shows "\<exists>ok w'. ShuffleLeader N pdAddr key w = Some (ok, w') \<and>
    (posted w' = posted w \<or> (\<exists>op. posted w' = posted w @ [op] \<and> sound_operator (view w) op))"
proof -
  obtain k w1 where k: "net_Intn N 5 w = Some (k, w1)" "0 \<le> k" "k < 5" "view w1 = view w" "posted w1 = posted w"
    using pd_Intn [OF assms(1), of 5 w] by auto
  have h: "healthy (view w1)" using assms(2) k(4) by simp
  from k(2,3) have "k = 0 \<or> k = 1 \<or> k = 2 \<or> k = 3 \<or> k = 4" by auto
  then have "posts_sound view posted w1 ((shuffleFuncs ! nat k) N pdAddr key w1)"
    using transferLeader_sound [OF assms(1)] transferRegion_sound [OF assms(1) h] transferOther_sound [OF assms(1) h]
      mergeRegion_sound [OF assms(1) h] splitRegion_sound [OF assms(1)]
    by (elim disjE) (simp_all add: shuffleFuncs_def)
  with k show ?thesis by (simp add: ShuffleLeader_def posts_sound_def)
qed

text \<open>A cluster of one region with three peers; the world is what was posted and the random choices.\<close>

definition sample_region :: RegionInfo where
  "sample_region = \<lparr>ri_ID = 7, ri_StartKey = [], ri_EndKey = ''z'', ri_Peers = map (\<lambda>i. Some \<lparr>StoreId = i\<rparr>) [1, 2, 3],
     ri_Leader = Some \<lparr>StoreId = 1\<rparr>\<rparr>"

definition sample_view :: pd_view where
  "sample_view = \<lparr>pv_region = sample_region, pv_regions = [Some sample_region],
     pv_stores = map (\<lambda>i. \<lparr>st_Id = i, st_State = Up\<rparr>) [1, 2, 3, 4], pv_siblings = (\<lambda>i. [])\<rparr>"

definition sample_net :: "operator_body \<Rightarrow> (operator_body list \<times> nat list) Net" where
  "sample_net body = \<lparr>net_Do = (\<lambda>method url t data (posted, g). (Some \<lparr>StatusCode = 200, Body = Some []\<rparr>,
       (if method = ''POST'' then posted @ [body] else posted, g))),
     net_Intn = (\<lambda>n (posted, g). if 0 < n then Some (int (if g = [] then 0 else hd g) mod n, (posted, tl g)) else None),
     enc_body = (\<lambda>b. if b = OperatorBody body then Some [] else None), dec_region = (\<lambda>_. Some sample_region),
     dec_regions = (\<lambda>b. Some [Some sample_region]), dec_stores = (\<lambda>_. Some (pv_stores sample_view)), dec_members = (\<lambda>_. None)\<rparr>"

lemma sample_laws: "pd_laws ((sample_net body)\<lparr>dec_regions := (\<lambda>_. None)\<rparr>) pdAddr key (\<lambda>_. sample_view) fst"
  by (auto simp: pd_laws_def get_law_def sample_net_def sample_view_def split: prod.splits)

theorem shuffler_operators_sound_witness:
  "\<exists>ok g. ShuffleLeader ((sample_net (TransferLeader 7 2))\<lparr>dec_regions := (\<lambda>_. None)\<rparr>) ''pd'' ''0'' ([], []) = Some (ok, ([TransferLeader 7 2], g)) \<and>
    sound_operator sample_view (TransferLeader 7 2)"
proof -
  let ?N = "(sample_net (TransferLeader 7 2))\<lparr>dec_regions := (\<lambda>_. None)\<rparr>"
  have "healthy sample_view" by (simp add: healthy_def sample_view_def sample_region_def peer_stores_def GetStoreId_def)
  from shuffler_operators_sound [where w = "([], [])", OF sample_laws this, of "TransferLeader 7 2" "''pd''" "''0''"]
  obtain ok w' where r: "ShuffleLeader ?N ''pd'' ''0'' ([], []) = Some (ok, w')"
    "fst w' = [] \<or> (\<exists>op. fst w' = [op] \<and> sound_operator sample_view op)" by auto
  have "map_option (fst \<circ> snd) (ShuffleLeader ?N ''pd'' ''0'' ([], [])) = Some [TransferLeader 7 2]" by code_simp
  with r show ?thesis by (cases w') auto
qed

text \<open>When every region has a peer on the leader's store, the shuffler takes one of them and posts a single
  store as its new place: a region of three replicas is left with one.\<close>

theorem region_loses_replicas:
  "map_option (fst \<circ> snd) (transferOtherRegionToLeader (sample_net (TransferRegion 7 [2] [''voter''])) ''pd'' ''0'' ([], [])) =
     Some [TransferRegion 7 [2] [''voter'']] \<and> length (ri_Peers sample_region) = 3"
  by code_simp

end
