(* ===== verification/Chaos_Objects.thy ===== *)
theory Chaos_Objects
  imports Pd_Client Rendering
begin

text \<open>
  Injecting and recovering a nemesis: the chaos-mesh objects that \<open>pkg/nemesis\<close> builds, its client
  (\<open>client.go\<close>), and \<open>Invoke\<close> and \<open>Recover\<close> of every nemesis, with the registry of
  \<open>pkg/core/nemesis.go\<close>.

  The Kubernetes client, the network of the PD client and the world they act on are parameters. A call
  returns the new world and whether it succeeded; a panic is \<^const>\<open>None\<close>. The main result is that
  recovery deletes exactly the object that the injection created.
\<close>

section \<open>Objects\<close>

datatype PodMode = OnePodMode | AllPodMode

record SelectorSpec =
  sel_Namespaces :: "string list"
  sel_Pods :: "(string, string list) gomap"

datatype TcParameter =
    NoTc
  | LossSpec string string
  | DelaySpec string string string
  | DuplicateSpec string string
  | CorruptSpec string string

datatype ChaosSpec =
    PodChaosSpec SelectorSpec string PodMode string "string option"
    \<comment> \<open>selector, action, mode, container name, cron of the scheduler\<close>
  | NetworkChaosSpec SelectorSpec string PodMode TcParameter "(SelectorSpec \<times> PodMode) option"
    \<comment> \<open>selector, action, mode, parameters, target of both directions\<close>
  | TimeChaosSpec SelectorSpec PodMode string
    \<comment> \<open>selector, mode, offset\<close>

datatype ChaosResource = PodChaosResource | NetworkChaosResource | TimeChaosResource

record ChaosObject =
  co_Resource :: ChaosResource
  co_Name :: string
  co_Namespace :: string
  co_Spec :: ChaosSpec

text \<open>What identifies an object.\<close>

definition co_key :: "ChaosObject \<Rightarrow> ChaosResource \<times> string \<times> string" where
  "co_key obj = (co_Resource obj, co_Namespace obj, co_Name obj)"

definition pod_selector :: "string \<Rightarrow> string list \<Rightarrow> SelectorSpec" where
  "pod_selector ns pods = \<lparr>sel_Namespaces = [], sel_Pods = [(ns, pods)]\<rparr>"

definition buildPodFailureChaos :: "string \<Rightarrow> string \<Rightarrow> string \<Rightarrow> ChaosObject" where
  "buildPodFailureChaos ns chaosNs name =
     \<lparr>co_Resource = PodChaosResource, co_Name = Join [name, ''pod-failure''] ''-'', co_Namespace = chaosNs,
      co_Spec = PodChaosSpec (pod_selector ns [name]) ''pod-failure'' OnePodMode [] None\<rparr>"

definition everyLong :: string where "everyLong = ''@every 1000000s''"

definition buildPodKillChaos :: "string \<Rightarrow> string \<Rightarrow> string \<Rightarrow> ChaosObject" where
  "buildPodKillChaos ns chaosNs podName =
     \<lparr>co_Resource = PodChaosResource, co_Name = Join [podName, ''pod-kill''] ''-'', co_Namespace = chaosNs,
      co_Spec = PodChaosSpec (pod_selector ns [podName]) ''pod-kill'' OnePodMode [] (Some everyLong)\<rparr>"

definition buildContainerKillChaos :: "string \<Rightarrow> string \<Rightarrow> string \<Rightarrow> string \<Rightarrow> ChaosObject" where
  "buildContainerKillChaos ns chaosNs podName containerName =
     \<lparr>co_Resource = PodChaosResource, co_Name = Join [podName, ''container-kill''] ''-'', co_Namespace = chaosNs,
      co_Spec = PodChaosSpec (pod_selector ns [podName]) ''container-kill'' OnePodMode containerName (Some everyLong)\<rparr>"

definition buildTimeChaos :: "string \<Rightarrow> string \<Rightarrow> string \<Rightarrow> string \<Rightarrow> ChaosObject" where
  "buildTimeChaos ns chaosNs podName offset =
     \<lparr>co_Resource = TimeChaosResource, co_Name = Join [ns, podName, ''time-chaos''] ''-'', co_Namespace = chaosNs,
      co_Spec = TimeChaosSpec (pod_selector ns [podName]) OnePodMode offset\<rparr>"

subsection \<open>Network emulation\<close>

fun netemType :: "netemChaos \<Rightarrow> string" where
  "netemType Loss = ''loss''"
| "netemType Delay = ''delay''"
| "netemType Duplicate = ''duplicate''"
| "netemType Corrupt = ''corrupt''"

definition netem_selector :: "string \<Rightarrow> string list \<Rightarrow> SelectorSpec" where
  "netem_selector ns pods = \<lparr>sel_Namespaces = [ns], sel_Pods = [(ns, pods)]\<rparr>"

definition loss_template :: "string \<Rightarrow> string list \<Rightarrow> PodMode \<Rightarrow> string list \<Rightarrow> ChaosSpec option" where
  "loss_template ns pods podMode args =
     (if length args \<noteq> 2 then None
      else Some (NetworkChaosSpec (netem_selector ns pods) ''loss'' podMode (LossSpec (args ! 0) (args ! 1)) None))"

definition delay_template :: "string \<Rightarrow> string list \<Rightarrow> PodMode \<Rightarrow> string list \<Rightarrow> ChaosSpec option" where
  "delay_template ns pods podMode args =
     (if length args \<noteq> 3 then None
      else Some (NetworkChaosSpec (netem_selector ns pods) ''delay'' podMode (DelaySpec (args ! 0) (args ! 1) (args ! 2)) None))"

definition duplicate_template :: "string \<Rightarrow> string list \<Rightarrow> PodMode \<Rightarrow> string list \<Rightarrow> ChaosSpec option" where
  "duplicate_template ns pods podMode args =
     (if length args \<noteq> 2 then None
      else Some (NetworkChaosSpec (netem_selector ns pods) ''duplicate'' podMode (DuplicateSpec (args ! 0) (args ! 1)) None))"

definition corrupt_template :: "string \<Rightarrow> string list \<Rightarrow> PodMode \<Rightarrow> string list \<Rightarrow> ChaosSpec option" where
  "corrupt_template ns pods podMode args =
     (if length args \<noteq> 2 then None
      else Some (NetworkChaosSpec (netem_selector ns pods) ''corrupt'' podMode (CorruptSpec (args ! 0) (args ! 1)) None))"

fun defaultTemplate :: "netemChaos \<Rightarrow> string \<Rightarrow> string list \<Rightarrow> ChaosSpec option" where
  "defaultTemplate Loss ns pods = loss_template ns pods OnePodMode [''25'', ''25'']"
| "defaultTemplate Delay ns pods = delay_template ns pods OnePodMode [''90ms'', ''25'', ''90ms'']"
| "defaultTemplate Duplicate ns pods = duplicate_template ns pods OnePodMode [''40'', ''25'']"
| "defaultTemplate Corrupt ns pods = corrupt_template ns pods OnePodMode [''40'', ''25'']"

definition extractChaos :: "Node \<Rightarrow> nemesis_arg list \<Rightarrow> ChaosObject option" where
  "extractChaos node args =
     (case args of
        [ArgNetem nChaos] \<Rightarrow> do {
          spec \<leftarrow> defaultTemplate nChaos (nd_Namespace node) [nd_PodName node];
          Some \<lparr>co_Resource = NetworkChaosResource,
                co_Name = netemType nChaos @ ''-'' @ nd_Namespace node @ ''-'' @ nd_PodName node,
                co_Namespace = nd_Namespace node, co_Spec = spec\<rparr> }
      | _ \<Rightarrow> None)"

subsection \<open>Network partition\<close>

definition extractPodNames :: "Node list \<Rightarrow> string list" where
  "extractPodNames nodes = map nd_PodName nodes"

definition networkChaosSpecTemplate :: "string \<Rightarrow> string \<Rightarrow> Node list \<Rightarrow> Node list \<Rightarrow> ChaosSpec" where
  "networkChaosSpecTemplate partOneNs partTwoNs partOne partTwo =
     NetworkChaosSpec (pod_selector partOneNs (extractPodNames partOne)) ''partition'' AllPodMode NoTc
       (Some (pod_selector partTwoNs (extractPodNames partTwo), AllPodMode))"

definition extractArgs :: "nemesis_arg list \<Rightarrow> (string \<times> Node list \<times> Node list) option" where
  "extractArgs args =
     (case args of
        [ArgString name, ArgNodes onePart, ArgNodes anotherPart] \<Rightarrow>
          if length onePart < 1 \<or> length anotherPart < 1 then None else Some (name, onePart, anotherPart)
      | _ \<Rightarrow> None)"

definition partition_object :: "nemesis_arg list \<Rightarrow> ChaosObject option" where
  "partition_object args = do {
     (name, onePart, anotherPart) \<leftarrow> extractArgs args;
     Some \<lparr>co_Resource = NetworkChaosResource, co_Name = name, co_Namespace = nd_Namespace (onePart ! 0),
           co_Spec = networkChaosSpecTemplate (nd_Namespace (onePart ! 0)) (nd_Namespace (anotherPart ! 0)) onePart anotherPart\<rparr> }"

section \<open>The clients\<close>

text \<open>\<open>CreateOrUpdate\<close> and \<open>Delete\<close> of the Kubernetes client, beside the network that the client of PD
  uses. \<open>GetCluster\<close> and \<open>UpdateCluster\<close> read and write the replicas of TiDB, PD and TiKV in the
  spec of a cluster.\<close>

record 'w API = "'w Net" +
  CreateOrUpdate :: "ChaosObject \<Rightarrow> 'w \<Rightarrow> 'w \<times> bool"
  Delete :: "ChaosResource \<times> string \<times> string \<Rightarrow> 'w \<Rightarrow> 'w \<times> bool"
  GetCluster :: "string \<Rightarrow> string \<Rightarrow> 'w \<Rightarrow> (32 word \<times> 32 word \<times> 32 word) option"
  UpdateCluster :: "string \<Rightarrow> string \<Rightarrow> 32 word \<times> 32 word \<times> 32 word \<Rightarrow> 'w \<Rightarrow> 'w \<times> bool"

text \<open>The methods of \<open>Chaos\<close>: the mutation given to \<open>CreateOrUpdate\<close> sets the spec to the desired one.\<close>

definition ApplyPodChaos :: "'w API \<Rightarrow> ChaosObject \<Rightarrow> 'w \<Rightarrow> 'w \<times> bool" where
  "ApplyPodChaos api pc w = CreateOrUpdate api pc w"

definition CancelPodChaos :: "'w API \<Rightarrow> ChaosObject \<Rightarrow> 'w \<Rightarrow> 'w \<times> bool" where
  "CancelPodChaos api pc w = Delete api (co_key pc) w"

definition ApplyNetChaos :: "'w API \<Rightarrow> ChaosObject \<Rightarrow> 'w \<Rightarrow> 'w \<times> bool" where
  "ApplyNetChaos api nc w = CreateOrUpdate api nc w"

definition CancelNetChaos :: "'w API \<Rightarrow> ChaosObject \<Rightarrow> 'w \<Rightarrow> 'w \<times> bool" where
  "CancelNetChaos api nc w = Delete api (co_key nc) w"

definition ApplyTimeChaos :: "'w API \<Rightarrow> ChaosObject \<Rightarrow> 'w \<Rightarrow> 'w \<times> bool" where
  "ApplyTimeChaos api tc w = CreateOrUpdate api tc w"

definition CancelTimeChaos :: "'w API \<Rightarrow> ChaosObject \<Rightarrow> 'w \<Rightarrow> 'w \<times> bool" where
  "CancelTimeChaos api tc w = Delete api (co_key tc) w"

lemmas chaos_client_defs = ApplyPodChaos_def CancelPodChaos_def ApplyNetChaos_def CancelNetChaos_def
  ApplyTimeChaos_def CancelTimeChaos_def

section \<open>The nemeses\<close>

text \<open>A nil node that is dereferenced is a panic.\<close>

definition kill_Invoke :: "'w API \<Rightarrow> Node option \<Rightarrow> nemesis_arg list \<Rightarrow> 'w \<Rightarrow> ('w \<times> bool) option" where
  "kill_Invoke api node args w = do { node \<leftarrow> node; Some (ApplyPodChaos api (buildPodFailureChaos (nd_Namespace node) (nd_Namespace node) (nd_PodName node)) w) }"

definition kill_Recover :: "'w API \<Rightarrow> Node option \<Rightarrow> nemesis_arg list \<Rightarrow> 'w \<Rightarrow> ('w \<times> bool) option" where
  "kill_Recover api node args w = do { node \<leftarrow> node; Some (CancelPodChaos api (buildPodFailureChaos (nd_Namespace node) (nd_Namespace node) (nd_PodName node)) w) }"

definition podKill_Invoke :: "'w API \<Rightarrow> Node option \<Rightarrow> nemesis_arg list \<Rightarrow> 'w \<Rightarrow> ('w \<times> bool) option" where
  "podKill_Invoke api node args w = do { node \<leftarrow> node; Some (ApplyPodChaos api (buildPodKillChaos (nd_Namespace node) (nd_Namespace node) (nd_PodName node)) w) }"

definition podKill_Recover :: "'w API \<Rightarrow> Node option \<Rightarrow> nemesis_arg list \<Rightarrow> 'w \<Rightarrow> ('w \<times> bool) option" where
  "podKill_Recover api node args w = do { node \<leftarrow> node; Some (CancelPodChaos api (buildPodKillChaos (nd_Namespace node) (nd_Namespace node) (nd_PodName node)) w) }"

definition containerKill_Invoke :: "'w API \<Rightarrow> Node option \<Rightarrow> nemesis_arg list \<Rightarrow> 'w \<Rightarrow> ('w \<times> bool) option" where
  "containerKill_Invoke api node args w = do { node \<leftarrow> node; Some (ApplyPodChaos api (buildContainerKillChaos (nd_Namespace node) (nd_Namespace node) (nd_PodName node) (nd_Component node)) w) }"

definition containerKill_Recover :: "'w API \<Rightarrow> Node option \<Rightarrow> nemesis_arg list \<Rightarrow> 'w \<Rightarrow> ('w \<times> bool) option" where
  "containerKill_Recover api node args w = do { node \<leftarrow> node; Some (CancelPodChaos api (buildContainerKillChaos (nd_Namespace node) (nd_Namespace node) (nd_PodName node) (nd_Component node)) w) }"

definition networkPartition_Invoke :: "'w API \<Rightarrow> Node option \<Rightarrow> nemesis_arg list \<Rightarrow> 'w \<Rightarrow> ('w \<times> bool) option" where
  "networkPartition_Invoke api node args w = do { obj \<leftarrow> partition_object args; Some (ApplyNetChaos api obj w) }"

definition networkPartition_Recover :: "'w API \<Rightarrow> Node option \<Rightarrow> nemesis_arg list \<Rightarrow> 'w \<Rightarrow> ('w \<times> bool) option" where
  "networkPartition_Recover api node args w = do { obj \<leftarrow> partition_object args; Some (CancelNetChaos api obj w) }"

definition netem_Invoke :: "'w API \<Rightarrow> Node option \<Rightarrow> nemesis_arg list \<Rightarrow> 'w \<Rightarrow> ('w \<times> bool) option" where
  "netem_Invoke api node args w = do { node \<leftarrow> node; obj \<leftarrow> extractChaos node args; Some (ApplyNetChaos api obj w) }"

definition netem_Recover :: "'w API \<Rightarrow> Node option \<Rightarrow> nemesis_arg list \<Rightarrow> 'w \<Rightarrow> ('w \<times> bool) option" where
  "netem_Recover api node args w = do { node \<leftarrow> node; obj \<leftarrow> extractChaos node args; Some (CancelNetChaos api obj w) }"

definition timeChaos_Invoke :: "'w API \<Rightarrow> Node option \<Rightarrow> nemesis_arg list \<Rightarrow> 'w \<Rightarrow> ('w \<times> bool) option" where
  "timeChaos_Invoke api node args w =
     (case args of
        [ArgString offset] \<Rightarrow> do { node \<leftarrow> node;
          Some (ApplyTimeChaos api (buildTimeChaos (nd_Namespace node) (nd_Namespace node) (nd_PodName node) offset) w) }
      | [_] \<Rightarrow> Some (w, False)
      | _ \<Rightarrow> None)"

definition timeChaos_Recover :: "'w API \<Rightarrow> Node option \<Rightarrow> nemesis_arg list \<Rightarrow> 'w \<Rightarrow> ('w \<times> bool) option" where
  "timeChaos_Recover api node args w =
     (case args of
        [ArgString offset] \<Rightarrow> do { node \<leftarrow> node;
          Some (CancelTimeChaos api (buildTimeChaos (nd_Namespace node) (nd_Namespace node) (nd_PodName node) offset) w) }
      | [_] \<Rightarrow> Some (w, False)
      | _ \<Rightarrow> None)"

text \<open>The replicas are \<open>int32\<close>.\<close>

definition scaleCluster :: "'w API \<Rightarrow> string \<Rightarrow> string \<Rightarrow> 32 word \<Rightarrow> 'w \<Rightarrow> 'w \<times> bool" where
  "scaleCluster api ns name n w =
     (case GetCluster api ns name w of
        None \<Rightarrow> (w, False)
      | Some (tidb, pd, tikv) \<Rightarrow> UpdateCluster api ns name (tidb + n, pd + n, tikv + n) w)"

definition scaling_Invoke :: "'w API \<Rightarrow> Node option \<Rightarrow> nemesis_arg list \<Rightarrow> 'w \<Rightarrow> ('w \<times> bool) option" where
  "scaling_Invoke api node args w = do { node \<leftarrow> node; Some (scaleCluster api (nd_Namespace node) (nd_Namespace node) 2 w) }"

definition scaling_Recover :: "'w API \<Rightarrow> Node option \<Rightarrow> nemesis_arg list \<Rightarrow> 'w \<Rightarrow> ('w \<times> bool) option" where
  "scaling_Recover api node args w = do { node \<leftarrow> node; Some (scaleCluster api (nd_Namespace node) (nd_Namespace node) (- 2) w) }"

definition pd_address :: "Node \<Rightarrow> string" where
  "pd_address node = ''http://'' @ nd_IP node @ '':'' @ Itoa (nd_Port node)"

definition extractSchedulerArgs :: "nemesis_arg list \<Rightarrow> string option" where
  "extractSchedulerArgs args = (case args of ArgString name # _ \<Rightarrow> Some name | _ \<Rightarrow> None)"

text \<open>An error of PD is only logged.\<close>

definition scheduler_Invoke :: "'w API \<Rightarrow> Node option \<Rightarrow> nemesis_arg list \<Rightarrow> 'w \<Rightarrow> ('w \<times> bool) option" where
  "scheduler_Invoke api node args w = do {
     schedulerName \<leftarrow> extractSchedulerArgs args; node \<leftarrow> node;
     Some (snd (AddScheduler api (pd_address node) schedulerName w), True) }"

definition scheduler_Recover :: "'w API \<Rightarrow> Node option \<Rightarrow> nemesis_arg list \<Rightarrow> 'w \<Rightarrow> ('w \<times> bool) option" where
  "scheduler_Recover api node args w = do {
     schedulerName \<leftarrow> extractSchedulerArgs args; node \<leftarrow> node;
     Some (snd (RemoveScheduler api (pd_address node) schedulerName w), True) }"

text \<open>The shuffler that is registered, \<open>NewLeaderShuffler("", "0")\<close>, works on the region of the key \<open>0\<close>.\<close>

definition registeredKey :: string where "registeredKey = ''0''"

definition LeaderShuffler_Invoke :: "'w API \<Rightarrow> Node option \<Rightarrow> nemesis_arg list \<Rightarrow> 'w \<Rightarrow> ('w \<times> bool) option" where
  "LeaderShuffler_Invoke api node args w = do {
     node \<leftarrow> node;
     (ok, w) \<leftarrow> ShuffleLeader api (pd_address node) registeredKey w;
     Some (w, ok) }"

definition LeaderShuffler_Recover :: "'w API \<Rightarrow> Node option \<Rightarrow> nemesis_arg list \<Rightarrow> 'w \<Rightarrow> ('w \<times> bool) option" where
  "LeaderShuffler_Recover api node args w = Some (w, True)"

subsection \<open>The registry\<close>

datatype NemesisImpl = KillNemesis | PodKillNemesis | ContainerKillNemesis | NetworkPartitionNemesis | NetemNemesis
  | TimeChaosNemesis | ScalingNemesis | SchedulerNemesis | LeaderShufflerNemesis

fun Nemesis_Name :: "NemesisImpl \<Rightarrow> string" where
  "Nemesis_Name KillNemesis = PodFailure"
| "Nemesis_Name PodKillNemesis = PodKill"
| "Nemesis_Name ContainerKillNemesis = ContainerKill"
| "Nemesis_Name NetworkPartitionNemesis = NetworkPartition"
| "Nemesis_Name NetemNemesis = NetemChaos"
| "Nemesis_Name TimeChaosNemesis = TimeChaos"
| "Nemesis_Name ScalingNemesis = Scaling"
| "Nemesis_Name SchedulerNemesis = PDScheduler"
| "Nemesis_Name LeaderShufflerNemesis = PDLeaderShuffler"

definition RegisterNemesis :: "NemesisImpl \<Rightarrow> (string, NemesisImpl) gomap \<Rightarrow> (string, NemesisImpl) gomap option" where
  "RegisterNemesis n nemesises =
     (if Nemesis_Name n \<in> keys nemesises then None else Some (AList.update (Nemesis_Name n) n nemesises))"

definition GetNemesis :: "(string, NemesisImpl) gomap \<Rightarrow> string \<Rightarrow> NemesisImpl option" where
  "GetNemesis nemesises name = map_of nemesises name"

text \<open>The package's \<open>init\<close>: most kinds need a Kubernetes client.\<close>

definition init_nemesises :: "bool \<Rightarrow> (string, NemesisImpl) gomap option" where
  "init_nemesises k8s = foldM RegisterNemesis
     ((if k8s then [KillNemesis, PodKillNemesis, ContainerKillNemesis, NetworkPartitionNemesis, NetemNemesis, TimeChaosNemesis, ScalingNemesis] else []) @
      [SchedulerNemesis, LeaderShufflerNemesis]) []"

fun Nemesis_Invoke :: "'w API \<Rightarrow> NemesisImpl \<Rightarrow> Node option \<Rightarrow> nemesis_arg list \<Rightarrow> 'w \<Rightarrow> ('w \<times> bool) option" where
  "Nemesis_Invoke api KillNemesis = kill_Invoke api"
| "Nemesis_Invoke api PodKillNemesis = podKill_Invoke api"
| "Nemesis_Invoke api ContainerKillNemesis = containerKill_Invoke api"
| "Nemesis_Invoke api NetworkPartitionNemesis = networkPartition_Invoke api"
| "Nemesis_Invoke api NetemNemesis = netem_Invoke api"
| "Nemesis_Invoke api TimeChaosNemesis = timeChaos_Invoke api"
| "Nemesis_Invoke api ScalingNemesis = scaling_Invoke api"
| "Nemesis_Invoke api SchedulerNemesis = scheduler_Invoke api"
| "Nemesis_Invoke api LeaderShufflerNemesis = LeaderShuffler_Invoke api"

fun Nemesis_Recover :: "'w API \<Rightarrow> NemesisImpl \<Rightarrow> Node option \<Rightarrow> nemesis_arg list \<Rightarrow> 'w \<Rightarrow> ('w \<times> bool) option" where
  "Nemesis_Recover api KillNemesis = kill_Recover api"
| "Nemesis_Recover api PodKillNemesis = podKill_Recover api"
| "Nemesis_Recover api ContainerKillNemesis = containerKill_Recover api"
| "Nemesis_Recover api NetworkPartitionNemesis = networkPartition_Recover api"
| "Nemesis_Recover api NetemNemesis = netem_Recover api"
| "Nemesis_Recover api TimeChaosNemesis = timeChaos_Recover api"
| "Nemesis_Recover api ScalingNemesis = scaling_Recover api"
| "Nemesis_Recover api SchedulerNemesis = scheduler_Recover api"
| "Nemesis_Recover api LeaderShufflerNemesis = LeaderShuffler_Recover api"

section \<open>The object of an operation\<close>

definition chaos_kinds :: "ChaosKind list" where
  "chaos_kinds = [PodFailure, PodKill, ContainerKill, NetworkPartition, NetemChaos, TimeChaos]"

text \<open>The object that an operation of one of these kinds creates.\<close>

definition op_object :: "NemesisOperation \<Rightarrow> ChaosObject option" where
  "op_object op =
     (if no_Type op = NetworkPartition then partition_object (no_InvokeArgs op)
      else do {
        node \<leftarrow> no_Node op;
        (if no_Type op = PodFailure then Some (buildPodFailureChaos (nd_Namespace node) (nd_Namespace node) (nd_PodName node))
         else if no_Type op = PodKill then Some (buildPodKillChaos (nd_Namespace node) (nd_Namespace node) (nd_PodName node))
         else if no_Type op = ContainerKill
         then Some (buildContainerKillChaos (nd_Namespace node) (nd_Namespace node) (nd_PodName node) (nd_Component node))
         else if no_Type op = NetemChaos then extractChaos node (no_InvokeArgs op)
         else (case no_InvokeArgs op of
                 [ArgString offset] \<Rightarrow> Some (buildTimeChaos (nd_Namespace node) (nd_Namespace node) (nd_PodName node) offset)
               | _ \<Rightarrow> None)) })"

lemma init_nemesises_total:
  "\<exists>nemesises. init_nemesises True = Some nemesises \<and> (\<forall>n. GetNemesis nemesises (Nemesis_Name n) = Some n)"
proof -
  have d: "Nemesis_Name n = Nemesis_Name m \<longleftrightarrow> n = m" for n m by (cases n; cases m) (simp_all add: kind_defs)
  let ?all = "[KillNemesis, PodKillNemesis, ContainerKillNemesis, NetworkPartitionNemesis, NetemNemesis, TimeChaosNemesis, ScalingNemesis,
    SchedulerNemesis, LeaderShufflerNemesis]"
  have reg: "\<exists>m. foldM RegisterNemesis ns m0 = Some m \<and> (\<forall>n \<in> set ns. map_of m (Nemesis_Name n) = Some n) \<and>
      (\<forall>k. k \<notin> Nemesis_Name ` set ns \<longrightarrow> map_of m k = map_of m0 k)"
    if "distinct ns" "\<forall>n \<in> set ns. Nemesis_Name n \<notin> keys m0" for ns m0
    using that
  proof (induction ns arbitrary: m0)
    case (Cons n ns)
    let ?m = "AList.update (Nemesis_Name n) n m0"
    have "\<forall>k \<in> set ns. Nemesis_Name k \<notin> keys ?m" using Cons.prems by (auto simp: d)
    from Cons.IH [OF _ this] Cons.prems(1) obtain m where m: "foldM RegisterNemesis ns ?m = Some m"
      "\<forall>n \<in> set ns. map_of m (Nemesis_Name n) = Some n" "\<forall>k. k \<notin> Nemesis_Name ` set ns \<longrightarrow> map_of m k = map_of ?m k" by auto
    have "Nemesis_Name n \<notin> Nemesis_Name ` set ns" using Cons.prems(1) by (auto simp: d)
    moreover have "RegisterNemesis n m0 = Some ?m" using Cons.prems(2) by (simp add: RegisterNemesis_def)
    ultimately show ?case using m Cons.prems(2) by (intro exI [of _ m]) simp
  qed simp
  have "distinct ?all" "\<forall>n \<in> set ?all. Nemesis_Name n \<notin> keys []" by simp_all
  from reg [OF this] obtain m where m: "foldM RegisterNemesis ?all [] = Some m" "\<forall>n \<in> set ?all. map_of m (Nemesis_Name n) = Some n" by blast
  have "n \<in> set ?all" for n by (cases n) simp_all
  then have "\<forall>n. map_of m (Nemesis_Name n) = Some n" using m(2) by blast
  moreover have "init_nemesises True = Some m" using m(1) by (simp add: init_nemesises_def)
  ultimately show ?thesis by (auto simp: GetNemesis_def)
qed

lemma well_formed_object:
  assumes "well_formed_op op" "no_Type op \<in> set chaos_kinds"
  obtains obj n where "op_object op = Some obj" "Nemesis_Name n = no_Type op"
    "\<And>api w. Nemesis_Invoke api n (no_Node op) (no_InvokeArgs op) w = Some (CreateOrUpdate api obj w)"
    "\<And>api w. Nemesis_Recover api n (no_Node op) (no_RecoverArgs op) w = Some (Delete api (co_key obj) w)"
proof -
  note defs = well_formed_op_def op_object_def chaos_client_defs kind_defs
  from assms(2) consider "no_Type op = PodFailure" | "no_Type op = PodKill" | "no_Type op = ContainerKill"
    | "no_Type op = NetworkPartition" | "no_Type op = NetemChaos" | "no_Type op = TimeChaos" by (auto simp: chaos_kinds_def)
  then show thesis
  proof cases
    case 1
    then show thesis using assms(1) that [where n = KillNemesis]
      by (auto simp: defs kill_Invoke_def kill_Recover_def)
  next
    case 2
    then show thesis using assms(1) that [where n = PodKillNemesis]
      by (auto simp: defs podKill_Invoke_def podKill_Recover_def)
  next
    case 3
    then show thesis using assms(1) that [where n = ContainerKillNemesis]
      by (auto simp: defs containerKill_Invoke_def containerKill_Recover_def)
  next
    case 4
    then obtain name one another where "no_InvokeArgs op = [ArgString name, ArgNodes one, ArgNodes another]" "one \<noteq> []" "another \<noteq> []"
      "no_RecoverArgs op = no_InvokeArgs op" using assms(1) by (auto simp: well_formed_op_def)
    then show thesis using 4 that [where n = NetworkPartitionNemesis]
      by (auto simp: defs networkPartition_Invoke_def networkPartition_Recover_def partition_object_def extractArgs_def)
  next
    case 5
    then obtain node x where "no_Node op = Some node" "no_InvokeArgs op = [ArgNetem x]" "no_RecoverArgs op = no_InvokeArgs op"
      using assms(1) by (auto simp: well_formed_op_def kind_defs)
    moreover obtain obj where "extractChaos node [ArgNetem x] = Some obj"
      by (cases x) (auto simp: extractChaos_def loss_template_def delay_template_def duplicate_template_def corrupt_template_def)
    ultimately show thesis using 5 that [where n = NetemNemesis and obj = obj]
      by (auto simp: defs netem_Invoke_def netem_Recover_def)
  next
    case 6
    then obtain node x where "no_Node op = Some node" "no_InvokeArgs op = [ArgString x]" "no_RecoverArgs op = no_InvokeArgs op"
      using assms(1) by (auto simp: well_formed_op_def kind_defs)
    then show thesis using 6 that [where n = TimeChaosNemesis]
      by (auto simp: defs timeChaos_Invoke_def timeChaos_Recover_def)
  qed
qed

section \<open>Different operations have different objects\<close>

text \<open>The operations of one generator are of one kind, and of one kind of network emulation.\<close>

definition uniform :: "ChaosKind \<Rightarrow> nemesis_arg list \<Rightarrow> NemesisOperation option list \<Rightarrow> bool" where
  "uniform kind args ops \<longleftrightarrow> (\<forall>op. Some op \<in> set ops \<longrightarrow> no_Type op = kind \<and> (kind = NetemChaos \<longrightarrow> no_InvokeArgs op = args)) \<and>
     (kind = NetworkPartition \<longrightarrow> length ops = 1)"

lemma node_op_fields [simp]: "no_Type (node_op kind d node) = kind" "no_InvokeArgs (node_op kind d node) = []"
  by (simp_all add: node_op_def)

definition uniform_result :: "ChaosKind \<Rightarrow> nemesis_arg list \<Rightarrow> (NemesisOperation option list \<times> 'g) option \<Rightarrow> bool" where
  "uniform_result kind args x \<longleftrightarrow> (\<forall>ops g'. x = Some (ops, g') \<longrightarrow> uniform kind args ops)"

lemma uniform_intros:
  "uniform_result kind args x \<Longrightarrow> uniform_result kind args y \<Longrightarrow> uniform_result kind args (if b then x else y)"
  "(\<And>a. uniform_result kind args (f a)) \<Longrightarrow> uniform_result kind args (Option.bind m f)"
  "(\<And>a b. uniform_result kind args (h a b)) \<Longrightarrow> uniform_result kind args (case p of (a, b) \<Rightarrow> h a b)"
  by (auto simp: uniform_result_def bind_eq_Some_conv split: prod.splits)

lemma kill_uniform:
  "uniform_result PodFailure [] (killNodes R g nodes n cmp d)"
  "uniform_result ContainerKill [] (containerKillNodes R g nodes n cmp d)"
  by (auto simp: killNodes_def containerKillNodes_def uniform_result_def uniform_def kind_defs Let_def bind_eq_Some_conv)

lemma uniform_update:
  "uniform PodKill [] xs \<Longrightarrow> uniform PodKill [] (xs[i := Some (node_op PodKill d node)])"
  unfolding uniform_def using set_update_subset_insert [of xs i "Some (node_op PodKill d node)"] by (auto simp: kind_defs)

lemma podKill_uniform: "uniform_result PodKill [] (podKill_Generate R g name nodes)"
proof -
  have "foldM (\<lambda>i ops. if i < length ix then Some (ops[ix ! i := Some (node_op PodKill d (nodes ! (ix ! i)))]) else None) js xs = Some ys \<Longrightarrow>
       uniform PodKill [] xs \<Longrightarrow> uniform PodKill [] ys" for d ix js xs ys
    by (induction js arbitrary: xs) (auto simp: uniform_update split: if_splits)
  moreover have "uniform PodKill [] (replicate (length nodes) None)" by (simp add: uniform_def kind_defs)
  ultimately show ?thesis by (auto simp: uniform_result_def podKill_Generate_def podKillNodes_def bind_eq_Some_conv)
qed

lemma time_uniform:
  "timeChaos_loop offset_string R g name nodes = Some (ops, g') \<Longrightarrow> uniform TimeChaos [] ops"
  by (induction nodes arbitrary: g ops) (auto simp: uniform_def kind_defs bind_eq_Some_conv)

lemma netem_uniform:
  "netem_loop R g nChaos nodes ops = Some (ops', g') \<Longrightarrow> uniform NetemChaos [ArgNetem nChaos] ops \<Longrightarrow> uniform NetemChaos [ArgNetem nChaos] ops'"
proof (induction nodes arbitrary: g ops)
  case (Cons node nodes)
  from Cons.prems(1) obtain d g1 where n: "netem_loop R g1 nChaos nodes (ops @ [Some \<lparr>no_Type = NetemChaos, no_Node = Some node,
      no_InvokeArgs = [ArgNetem nChaos], no_RecoverArgs = [ArgNetem nChaos], no_RunTime = d, no_Control = False\<rparr>]) = Some (ops', g')"
    by (auto simp: bind_eq_Some_conv)
  show ?case by (rule Cons.IH [OF n]) (use Cons.prems(2) in \<open>auto simp: uniform_def kind_defs\<close>)
qed simp

lemma Generate_uniform:
  assumes "Generate PDMember offset_string R g gen nodes = Some (ops, g')"
  obtains kind args where "uniform kind args ops"
proof (cases gen)
  case (KillGenerator name)
  have "uniform_result PodFailure [] (kill_Generate PDMember R g name nodes)"
    unfolding kill_Generate_def by (intro uniform_intros kill_uniform(1))
  with assms KillGenerator show thesis using that by (simp add: uniform_result_def)
next
  case (ContainerKillGenerator name)
  have "uniform_result ContainerKill [] (containerKill_Generate PDMember R g name nodes)"
    unfolding containerKill_Generate_def by (intro uniform_intros kill_uniform(2))
  with assms ContainerKillGenerator show thesis using that by (simp add: uniform_result_def)
next
  case (NetworkPartitionGenerator name)
  with assms show thesis using that [of NetworkPartition "[]"]
    by (auto simp: networkPartition_Generate_def partitionNodes_def bind_eq_Some_conv uniform_def kind_defs Let_def split: if_splits)
next
  case (NetemChaosGenerator name)
  from assms NetemChaosGenerator obtain x where n: "netem_loop R g x nodes (replicate (length nodes) None) = Some (ops, g')"
    by (auto simp: netem_Generate_def bind_eq_Some_conv)
  have "uniform NetemChaos [ArgNetem x] (replicate (length nodes) None)" by (simp add: uniform_def kind_defs)
  with n have "uniform NetemChaos [ArgNetem x] ops" by (rule netem_uniform)
  then show thesis by (rule that)
next
  case (SchedulerGenerator name)
  with assms show thesis using that [of PDScheduler "[]"]
    by (auto simp: scheduler_Generate_def uniform_def kind_defs split: list.splits)
next
  case (ScalingGenerator name)
  with assms show thesis using that [of Scaling "[]"]
    by (auto simp: scaling_Generate_def uniform_def kind_defs bind_eq_Some_conv split: list.splits)
next
  case (LeaderShuffleGenerator name)
  with assms show thesis using that [of PDLeaderShuffler "[]"]
    by (auto simp: leaderShuffle_Generate_def uniform_def kind_defs split: list.splits)
next
  case (TimeChaosGenerator name)
  with assms have "timeChaos_loop offset_string R g name nodes = Some (ops, g')" by simp
  from that [OF time_uniform [OF this]] show thesis .
next
  case (PodKillGenerator name)
  with assms podKill_uniform [of R g name nodes] show thesis by (intro that [of PodKill "[]"]) (simp add: uniform_result_def)
qed

text \<open>The object of an operation on a node determines the node's pod.\<close>

lemma Join_two: "Join [a, b] sep = a @ sep @ b" "Join [a, b, c] sep = a @ sep @ b @ sep @ c"
  by simp_all

lemma object_pod:
  assumes "no_Type op = no_Type op'" "no_Type op \<noteq> NetworkPartition" "no_Type op = NetemChaos \<Longrightarrow> no_InvokeArgs op = no_InvokeArgs op'"
    and "op_object op = Some obj" "op_object op' = Some obj'" "co_key obj = co_key obj'"
    and "no_Node op = Some node" "no_Node op' = Some node'"
  shows "nd_Namespace node = nd_Namespace node' \<and> nd_PodName node = nd_PodName node'"
proof -
  have "nd_Namespace node = nd_Namespace node' \<and> nd_PodName node = nd_PodName node'" if "no_Type op = NetemChaos"
  proof -
    from that assms obtain x where "extractChaos node [ArgNetem x] = Some obj" "extractChaos node' [ArgNetem x] = Some obj'"
      by (auto simp: op_object_def kind_defs extractChaos_def split: list.splits nemesis_arg.splits)
    then show ?thesis using assms(6) by (auto simp: extractChaos_def co_key_def bind_eq_Some_conv)
  qed
  then show ?thesis using assms
    by (auto simp: op_object_def co_key_def buildPodFailureChaos_def buildPodKillChaos_def buildContainerKillChaos_def buildTimeChaos_def
          Join_two split: if_splits list.splits nemesis_arg.splits)
qed

definition pod_of :: "Node \<Rightarrow> string \<times> string" where
  "pod_of node = (nd_Namespace node, nd_PodName node)"

lemma distinct_subset_mset: "mset xs \<subseteq># mset ys \<Longrightarrow> distinct (map f ys) \<Longrightarrow> distinct (map f xs)"
  by (metis distinct_append image_mset_subseteq_mono mset_append mset_eq_imp_distinct_iff mset_map mset_subset_eq_exists_conv ex_mset)

text \<open>Two operations of one generator have different objects when the pods of the cluster are different.\<close>

lemma objects_distinct:
  assumes ok: "generated_ok nodes ops" and pods: "distinct (map pod_of nodes)" and u: "uniform kind args ops"
    and ij: "i < j" "j < length ops" "ops ! i = Some op" "ops ! j = Some op'"
    and obj: "op_object op = Some obj" "op_object op' = Some obj'"
  shows "co_key obj \<noteq> co_key obj'"
proof
  assume key: "co_key obj = co_key obj'"
  have mem: "Some op \<in> set ops" "Some op' \<in> set ops" using ij nth_mem by (metis less_trans)+
  then have t: "no_Type op = kind" "no_Type op' = kind" "kind = NetemChaos \<longrightarrow> no_InvokeArgs op = no_InvokeArgs op'"
    "kind \<noteq> NetworkPartition" using u ij(1,2) by (auto simp: uniform_def)
  obtain node node' where n: "no_Node op = Some node" "no_Node op' = Some node'"
    using obj t by (cases "no_Node op"; cases "no_Node op'") (auto simp: op_object_def)
  have same: "pod_of node = pod_of node'"
    using object_pod [OF _ _ _ obj key n] t by (auto simp: pod_of_def)
  have "ops = take i ops @ Some op # drop (Suc i) ops" using ij by (metis id_take_nth_drop less_trans)
  moreover have "drop (Suc i) ops = take (j - Suc i) (drop (Suc i) ops) @ Some op' # drop (Suc j) ops"
    using id_take_nth_drop [of "j - Suc i" "drop (Suc i) ops"] ij by simp
  ultimately have "all_targets ops = all_targets (take i ops) @ node # all_targets (take (j - Suc i) (drop (Suc i) ops)) @ node' # all_targets (drop (Suc j) ops)"
    using n by (metis all_targets_simps(3,4) append_Cons append_Nil op_nodes_def option.simps(5))
  moreover have "distinct (map pod_of (all_targets ops))"
    using distinct_subset_mset [OF _ pods] ok by (simp add: generated_ok_def)
  ultimately show False using same by simp
qed

end
