(* ===== verification/Nemesis_Run.thy ===== *)
theory Nemesis_Run
  imports Chaos_Objects
begin

text \<open>
  How the controller runs nemesis operations: \<open>onNemesis\<close> and the dispatchers of
  \<open>pkg/control/control.go\<close>, and \<open>RunWithRetry\<close> of \<open>util/util.go\<close>.

  The operations of a dispatch run in goroutines of their own; a step of the group is a step of one
  of them. The main result: however they interleave, an operation whose recovery succeeded has left
  no chaos object behind.
\<close>

section \<open>Retrying\<close>

text \<open>\<open>f\<close> acts on the world and says whether it returned nil; \<open>stop i\<close> says whether the \<open>select\<close> after
  attempt \<open>i\<close> sees the context done. The result is the world and whether nil is returned.\<close>

partial_function (option) RunWithRetry_loop :: "int \<Rightarrow> nat \<Rightarrow> (nat \<Rightarrow> bool) \<Rightarrow> ('w \<Rightarrow> 'w \<times> bool) \<Rightarrow> 'w \<Rightarrow> ('w \<times> bool) option" where
  "RunWithRetry_loop retryCnt i stop f w =
     (if retryCnt < 0 \<or> int i < retryCnt
      then (case f w of (w', ok) \<Rightarrow>
        if ok then Some (w', True)
        else if stop i then Some (w', True)
        else RunWithRetry_loop retryCnt (Suc i) stop f w')
      else Some (w, i = 0))"

definition RunWithRetry :: "int \<Rightarrow> (nat \<Rightarrow> bool) \<Rightarrow> ('w \<Rightarrow> 'w \<times> bool) \<Rightarrow> 'w \<Rightarrow> ('w \<times> bool) option" where
  "RunWithRetry retryCnt stop f w = RunWithRetry_loop retryCnt 0 stop f w"

text \<open>The world after \<open>n\<close> attempts.\<close>

fun attempts :: "('w \<Rightarrow> 'w \<times> bool) \<Rightarrow> nat \<Rightarrow> 'w \<Rightarrow> 'w" where
  "attempts f 0 w = w"
| "attempts f (Suc n) w = attempts f n (fst (f w))"

lemma RunWithRetry_loop_spec:
  assumes "0 \<le> retryCnt" "int i \<le> retryCnt"
  shows "\<exists>n ok. RunWithRetry_loop retryCnt i stop f w = Some (attempts f n w, ok) \<and> int (i + n) \<le> retryCnt \<and>
    (\<not> ok \<longrightarrow> int (i + n) = retryCnt \<and> (\<forall>k < n. \<not> snd (f (attempts f k w)) \<and> \<not> stop (i + k))) \<and>
    (ok \<longrightarrow> (n = 0 \<and> i = 0 \<and> retryCnt = 0) \<or> (0 < n \<and> (snd (f (attempts f (n - 1) w)) \<or> stop (i + n - 1))))"
  using assms(2)
proof (induction "nat (retryCnt - int i)" arbitrary: i w)
  case 0
  then have "retryCnt = int i" by simp
  then show ?case by (intro exI [of _ 0] exI [of _ "i = 0"]) (subst RunWithRetry_loop.simps, simp)
next
  case (Suc m)
  then have lt: "int i < retryCnt" by simp
  obtain w' ok where f: "f w = (w', ok)" by (cases "f w")
  show ?case
  proof (cases "ok \<or> stop i")
    case True
    then have "RunWithRetry_loop retryCnt i stop f w = Some (attempts f 1 w, True)"
      using lt f by (subst RunWithRetry_loop.simps) auto
    then show ?thesis using True f lt by (intro exI [of _ 1] exI [of _ True]) auto
  next
    case False
    then have e: "RunWithRetry_loop retryCnt i stop f w = RunWithRetry_loop retryCnt (Suc i) stop f w'"
      using lt f by (subst RunWithRetry_loop.simps) auto
    have "m = nat (retryCnt - int (Suc i))" "int (Suc i) \<le> retryCnt" using Suc.hyps(2) lt by auto
    from Suc.hyps(1) [OF this, of w'] obtain n ok' where IH: "RunWithRetry_loop retryCnt (Suc i) stop f w' = Some (attempts f n w', ok')"
      "int (Suc i + n) \<le> retryCnt"
      "\<not> ok' \<longrightarrow> int (Suc i + n) = retryCnt \<and> (\<forall>k < n. \<not> snd (f (attempts f k w')) \<and> \<not> stop (Suc i + k))"
      "ok' \<longrightarrow> (n = 0 \<and> Suc i = 0 \<and> retryCnt = 0) \<or> (0 < n \<and> (snd (f (attempts f (n - 1) w')) \<or> stop (Suc i + n - 1)))" by blast
    have "\<forall>k < Suc n. \<not> snd (f (attempts f k w)) \<and> \<not> stop (i + k)" if "\<not> ok'"
    proof (intro allI impI)
      fix k assume "k < Suc n"
      then show "\<not> snd (f (attempts f k w)) \<and> \<not> stop (i + k)" using that IH(3) False f by (cases k) auto
    qed
    moreover have "snd (f (attempts f (Suc n - 1) w)) \<or> stop (i + Suc n - 1)" if "ok'"
      using that IH(4) f by (cases n) auto
    ultimately show ?thesis using e IH(1-3) f by (intro exI [of _ "Suc n"] exI [of _ ok']) auto
  qed
qed

section \<open>Running one operation\<close>

text \<open>Where a goroutine of \<open>onNemesis\<close> stands; it ends with whether a recovery succeeded.\<close>

datatype nemesis_pc = NStart | NWait | NRecover nat | NDone bool

definition recoverAttempts :: nat where "recoverAttempts = 3"

text \<open>\<open>ctx_done\<close> and \<open>rollback\<close> are the context and whether the control is at \<open>enableRollback\<close>. The recovery
  is the body of \<open>RunWithRetry\<close> with three attempts.\<close>

inductive onNemesis_step :: "'w API \<Rightarrow> (string, NemesisImpl) gomap \<Rightarrow> NemesisOperation option \<Rightarrow> bool \<Rightarrow> bool \<Rightarrow>
    nemesis_pc \<times> 'w \<Rightarrow> nemesis_pc \<times> 'w \<Rightarrow> bool"
  for api :: "'w API" and nemesises :: "(string, NemesisImpl) gomap" and op :: "NemesisOperation option"
    and ctx_done :: bool and rollback :: bool where
  nil_op: "op = None \<Longrightarrow> onNemesis_step api nemesises op ctx_done rollback (NStart, w) (NDone False, w)"
| not_registered: "op = Some o' \<Longrightarrow> GetNemesis nemesises (no_Type o') = None \<Longrightarrow>
    onNemesis_step api nemesises op ctx_done rollback (NStart, w) (NDone False, w)"
| inject: "op = Some o' \<Longrightarrow> GetNemesis nemesises (no_Type o') = Some n \<Longrightarrow>
    Nemesis_Invoke api n (no_Node o') (no_InvokeArgs o') w = Some (w', ok) \<Longrightarrow>
    onNemesis_step api nemesises op ctx_done rollback (NStart, w) (NWait, w')"
| run_time: "op = Some o' \<Longrightarrow> \<not> no_Control o' \<Longrightarrow>
    onNemesis_step api nemesises op ctx_done rollback (NWait, w) (NRecover 0, w)"
| wait_done: "op = Some o' \<Longrightarrow> ctx_done \<Longrightarrow> onNemesis_step api nemesises op ctx_done rollback (NWait, w) (NRecover 0, w)"
| rolled_back: "op = Some o' \<Longrightarrow> no_Control o' \<Longrightarrow> rollback \<Longrightarrow>
    onNemesis_step api nemesises op ctx_done rollback (NWait, w) (NRecover 0, w)"
| recovered: "op = Some o' \<Longrightarrow> k < recoverAttempts \<Longrightarrow> GetNemesis nemesises (no_Type o') = Some n \<Longrightarrow>
    Nemesis_Recover api n (no_Node o') (no_RecoverArgs o') w = Some (w', True) \<Longrightarrow>
    onNemesis_step api nemesises op ctx_done rollback (NRecover k, w) (NDone True, w')"
| recover_again: "op = Some o' \<Longrightarrow> k < recoverAttempts \<Longrightarrow> GetNemesis nemesises (no_Type o') = Some n \<Longrightarrow>
    Nemesis_Recover api n (no_Node o') (no_RecoverArgs o') w = Some (w', False) \<Longrightarrow>
    onNemesis_step api nemesises op ctx_done rollback (NRecover k, w) (NRecover (Suc k), w')"
| recover_stopped: "op = Some o' \<Longrightarrow> k < recoverAttempts \<Longrightarrow> ctx_done \<Longrightarrow> GetNemesis nemesises (no_Type o') = Some n \<Longrightarrow>
    Nemesis_Recover api n (no_Node o') (no_RecoverArgs o') w = Some (w', False) \<Longrightarrow>
    onNemesis_step api nemesises op ctx_done rollback (NRecover k, w) (NDone False, w')"
| recover_failed: "recoverAttempts \<le> k \<Longrightarrow> onNemesis_step api nemesises op ctx_done rollback (NRecover k, w) (NDone False, w)"

section \<open>Running the operations of a generator\<close>

record 'w dispatch =
  dp_pcs :: "nemesis_pc list"
  dp_world :: 'w
  dp_done :: bool
  dp_rollback :: bool

definition start_dispatch :: "NemesisOperation option list \<Rightarrow> 'w \<Rightarrow> bool \<Rightarrow> 'w dispatch" where
  "start_dispatch ops w dn = \<lparr>dp_pcs = replicate (length ops) NStart, dp_world = w, dp_done = dn, dp_rollback = False\<rparr>"

inductive dispatch_step :: "'w API \<Rightarrow> (string, NemesisImpl) gomap \<Rightarrow> NemesisOperation option list \<Rightarrow> 'w dispatch \<Rightarrow> 'w dispatch \<Rightarrow> bool"
  for api :: "'w API" and nemesises :: "(string, NemesisImpl) gomap" and ops :: "NemesisOperation option list" where
  goroutine: "i < length ops \<Longrightarrow>
    onNemesis_step api nemesises (ops ! i) (dp_done s) (dp_rollback s) (dp_pcs s ! i, dp_world s) (pc', w') \<Longrightarrow>
    dispatch_step api nemesises ops s (s\<lparr>dp_pcs := (dp_pcs s)[i := pc'], dp_world := w'\<rparr>)"
| context_done: "dispatch_step api nemesises ops s (s\<lparr>dp_done := True\<rparr>)"
| client_rollback: "dispatch_step api nemesises ops s (s\<lparr>dp_rollback := True\<rparr>)"

text \<open>What is documented of the Kubernetes client: a call touches only the object it names, a create or update
  that succeeds stores the spec, a deletion that succeeds removes the object.\<close>

definition api_laws :: "'w API \<Rightarrow> ('w \<Rightarrow> ChaosResource \<times> string \<times> string \<Rightarrow> ChaosSpec option) \<Rightarrow> bool" where
  "api_laws api lookup \<longleftrightarrow>
     (\<forall>obj w w' ok. CreateOrUpdate api obj w = (w', ok) \<longrightarrow>
        (ok \<longrightarrow> lookup w' (co_key obj) = Some (co_Spec obj)) \<and> (\<forall>k. k \<noteq> co_key obj \<longrightarrow> lookup w' k = lookup w k)) \<and>
     (\<forall>key w w' ok. Delete api key w = (w', ok) \<longrightarrow>
        (ok \<longrightarrow> lookup w' key = None) \<and> (\<forall>k. k \<noteq> key \<longrightarrow> lookup w' k = lookup w k))"

lemma api_lawsD:
  assumes "api_laws api lookup"
  shows "CreateOrUpdate api obj w = (w', ok) \<Longrightarrow> k \<noteq> co_key obj \<Longrightarrow> lookup w' k = lookup w k"
    "Delete api key w = (w', ok) \<Longrightarrow> k \<noteq> key \<Longrightarrow> lookup w' k = lookup w k"
    "Delete api key w = (w', True) \<Longrightarrow> lookup w' key = None"
    "CreateOrUpdate api obj w = (w', True) \<Longrightarrow> lookup w' (co_key obj) = Some (co_Spec obj)"
  using assms unfolding api_laws_def by blast+

text \<open>One step of an operation whose object is \<open>obj\<close>.\<close>

lemma onNemesis_frame:
  assumes step: "onNemesis_step api nemesises (Some op) dn rb (pc, w) (pc', w')"
    and laws: "api_laws api lookup" and wf: "well_formed_op op" "no_Type op \<in> set chaos_kinds"
    and reg: "\<And>n. GetNemesis nemesises (Nemesis_Name n) = Some n" and obj: "op_object op = Some obj"
  shows "(\<forall>k. k \<noteq> co_key obj \<longrightarrow> lookup w' k = lookup w k) \<and> (pc' = NDone True \<longrightarrow> lookup w' (co_key obj) = None)"
proof -
  obtain n where n: "Nemesis_Name n = no_Type op"
    "\<And>w. Nemesis_Invoke api n (no_Node op) (no_InvokeArgs op) w = Some (CreateOrUpdate api obj w)"
    "\<And>w. Nemesis_Recover api n (no_Node op) (no_RecoverArgs op) w = Some (Delete api (co_key obj) w)"
    using well_formed_object [OF wf] obj by (metis option.inject)
  have g: "GetNemesis nemesises (no_Type op) = Some n" using reg [of n] n(1) by simp
  from step show ?thesis
    by cases (use n(2,3) g api_lawsD [OF laws] in \<open>auto\<close>)
qed

text \<open>The objects of the operations.\<close>

definition op_keys :: "NemesisOperation option list \<Rightarrow> (ChaosResource \<times> string \<times> string) set" where
  "op_keys ops = {co_key obj | op obj. Some op \<in> set ops \<and> op_object op = Some obj}"

definition recovered_ok :: "('w \<Rightarrow> ChaosResource \<times> string \<times> string \<Rightarrow> ChaosSpec option) \<Rightarrow> NemesisOperation option list \<Rightarrow> 'w \<Rightarrow> 'w dispatch \<Rightarrow> bool" where
  "recovered_ok lookup ops w0 s \<longleftrightarrow> length (dp_pcs s) = length ops \<and>
     (\<forall>i < length ops. dp_pcs s ! i = NDone True \<longrightarrow>
        (\<exists>op obj. ops ! i = Some op \<and> op_object op = Some obj \<and> lookup (dp_world s) (co_key obj) = None)) \<and>
     (\<forall>k. k \<notin> op_keys ops \<longrightarrow> lookup (dp_world s) k = lookup w0 k)"

lemma recovered_ok_goroutine:
  assumes inv: "recovered_ok lookup ops w0 s" and i: "i < length ops"
    and step: "onNemesis_step api nemesises (ops ! i) dn rb (dp_pcs s ! i, dp_world s) (pc', w')"
    and laws: "api_laws api lookup" and wf: "\<forall>op. Some op \<in> set ops \<longrightarrow> well_formed_op op \<and> no_Type op \<in> set chaos_kinds"
    and reg: "\<And>n. GetNemesis nemesises (Nemesis_Name n) = Some n"
    and diff: "\<And>i j op op' obj obj'. \<lbrakk>i < length ops; j < length ops; i \<noteq> j; ops ! i = Some op; ops ! j = Some op';
      op_object op = Some obj; op_object op' = Some obj'\<rbrakk> \<Longrightarrow> co_key obj \<noteq> co_key obj'"
  shows "recovered_ok lookup ops w0 (s\<lparr>dp_pcs := (dp_pcs s)[i := pc'], dp_world := w'\<rparr>)"
proof (cases "ops ! i")
  case None
  from step have "w' = dp_world s" "pc' \<noteq> NDone True" unfolding None by (cases; simp)+
  then show ?thesis using inv i by (auto simp: recovered_ok_def nth_list_update)
next
  case (Some op)
  then have mem: "Some op \<in> set ops" using i by (metis nth_mem)
  with wf have w: "well_formed_op op" "no_Type op \<in> set chaos_kinds" by auto
  obtain obj where obj: "op_object op = Some obj" using well_formed_object [OF w] by metis
  note frame = onNemesis_frame [OF step [unfolded Some] laws w reg obj]
  have key: "co_key obj \<in> op_keys ops" using mem obj by (auto simp: op_keys_def)
  have len: "length (dp_pcs s) = length ops" using inv by (simp add: recovered_ok_def)
  have "\<exists>op obj. ops ! j = Some op \<and> op_object op = Some obj \<and> lookup w' (co_key obj) = None"
    if j: "j < length ops" "(dp_pcs s)[i := pc'] ! j = NDone True" for j
  proof (cases "j = i")
    case True
    then show ?thesis using j frame Some obj len by auto
  next
    case False
    with j(2) have "dp_pcs s ! j = NDone True" by simp
    then obtain op' obj' where o: "ops ! j = Some op'" "op_object op' = Some obj'" "lookup (dp_world s) (co_key obj') = None"
      using inv j(1) unfolding recovered_ok_def by blast
    then have "co_key obj' \<noteq> co_key obj" using diff [OF j(1) i False o(1) Some o(2) obj] by simp
    then have "lookup w' (co_key obj') = None" using frame o(3) by metis
    then show ?thesis using o(1,2) by blast
  qed
  moreover have "lookup w' k = lookup w0 k" if "k \<notin> op_keys ops" for k
  proof -
    have "k \<noteq> co_key obj" using that key by blast
    then have "lookup w' k = lookup (dp_world s) k" using frame by metis
    also have "\<dots> = lookup w0 k" using inv that unfolding recovered_ok_def by blast
    finally show ?thesis .
  qed
  ultimately show ?thesis using len by (simp add: recovered_ok_def)
qed

lemma chaos_recovered_spec:
  assumes R: "math_rand_laws R" "pd_answers PDMember" "parseNemesisGenerator name = Some gen" "name \<noteq> ''strobe_skews''"
      "2 \<le> length nodes" "PD \<in> nd_Component ` set nodes"
    and pods: "distinct (map pod_of nodes)" and gen: "Generate PDMember offset_string R g gen nodes = Some (ops, g')"
    and kinds: "\<forall>op. Some op \<in> set ops \<longrightarrow> no_Type op \<in> set chaos_kinds"
    and reg: "init_nemesises True = Some nemesises" and laws: "api_laws api lookup"
    and run: "(dispatch_step api nemesises ops)\<^sup>*\<^sup>* (start_dispatch ops w0 dn) s"
  shows "recovered_ok lookup ops w0 s"
proof -
  from Generate_yields [OF R, of offset_string g] gen have ok: "generated_ok nodes ops" by (auto simp: yields_def)
  from Generate_uniform [OF gen] obtain kind args where u: "uniform kind args ops" by blast
  from init_nemesises_total reg have n: "\<And>n. GetNemesis nemesises (Nemesis_Name n) = Some n" by auto
  have wf: "\<forall>op. Some op \<in> set ops \<longrightarrow> well_formed_op op \<and> no_Type op \<in> set chaos_kinds"
    using ok kinds by (auto simp: generated_ok_def)
  have diff: "co_key obj \<noteq> co_key obj'" if "i < length ops" "j < length ops" "i \<noteq> j" "ops ! i = Some op" "ops ! j = Some op'"
    "op_object op = Some obj" "op_object op' = Some obj'" for i j op op' obj obj'
    using objects_distinct [OF ok pods u] that by (metis nat_neq_iff)
  from run show ?thesis
  proof (induction rule: rtranclp_induct)
    case base
    show ?case by (simp add: recovered_ok_def start_dispatch_def)
  next
    case (step s s')
    from step.hyps(2) show ?case
    proof cases
      case (goroutine i pc' w')
      show ?thesis unfolding goroutine(1) by (rule recovered_ok_goroutine [OF step.IH goroutine(2,3) laws wf n diff])
    qed (use step.IH in \<open>auto simp: recovered_ok_def\<close>)
  qed
qed

text \<open>C16. Chaos is cleaned up: take the operations that an accepted generator makes for a cluster of different
  pods, of any kind that creates chaos-mesh objects, and run them in parallel the way the controller
  does, in any interleaving, with the context done and the rollback asked for at any moment. Then
  the object of every operation whose recovery returned without an error is gone, whatever the other
  operations did meanwhile, and no object is touched that the operations did not name: recovery
  deletes exactly what the injection created.\<close>

theorem chaos_recovered:
  assumes "math_rand_laws R" "pd_answers PDMember" "parseNemesisGenerator name = Some gen" "name \<noteq> ''strobe_skews''"
      "2 \<le> length nodes" "PD \<in> nd_Component ` set nodes"
    and "distinct (map pod_of nodes)" "Generate PDMember offset_string R g gen nodes = Some (ops, g')"
    and "\<forall>op. Some op \<in> set ops \<longrightarrow> no_Type op \<in> set chaos_kinds"
    and "init_nemesises True = Some nemesises" "api_laws api lookup"
    and "(dispatch_step api nemesises ops)\<^sup>*\<^sup>* (start_dispatch ops w0 dn) s"
  shows "(\<forall>i < length ops. dp_pcs s ! i = NDone True \<longrightarrow>
      (\<exists>op obj. ops ! i = Some op \<and> op_object op = Some obj \<and> lookup (dp_world s) (co_key obj) = None)) \<and>
    (\<forall>k. k \<notin> op_keys ops \<longrightarrow> lookup (dp_world s) k = lookup w0 k)"
  using chaos_recovered_spec [OF assms] by (simp add: recovered_ok_def)

text \<open>A world of objects, and the API on it.\<close>

definition map_api :: "(ChaosResource \<times> string \<times> string \<Rightarrow> ChaosSpec option) API" where
  "map_api = \<lparr>net_Do = (\<lambda>_ _ _ _ w. (None, w)), net_Intn = (\<lambda>n w. Some (0, w)), enc_body = (\<lambda>_. None), dec_region = (\<lambda>_. None),
     dec_regions = (\<lambda>_. None), dec_stores = (\<lambda>_. None), dec_members = (\<lambda>_. None), CreateOrUpdate = (\<lambda>obj w. (w(co_key obj \<mapsto> co_Spec obj), True)), Delete = (\<lambda>key w. (w(key := None), True)),
     GetCluster = (\<lambda>ns name w. None), UpdateCluster = (\<lambda>ns name r w. (w, False))\<rparr>"

lemma map_api_laws: "api_laws map_api (\<lambda>w. w)"
  by (auto simp: api_laws_def map_api_def)

theorem chaos_recovered_witness:
  "\<exists>ops g' nemesises s. Generate (\<lambda>_. Some ''pd-0'') (\<lambda>_. []) counter_math 5 (NetworkPartitionGenerator ''partition_one'') sample_nodes = Some (ops, g') \<and>
     init_nemesises True = Some nemesises \<and> length ops = 1 \<and>
     (dispatch_step map_api nemesises ops)\<^sup>*\<^sup>* (start_dispatch ops Map.empty False) s \<and> dp_pcs s = [NDone True] \<and>
     (\<exists>op obj. ops ! 0 = Some op \<and> op_object op = Some obj \<and> dp_world s (co_key obj) = None) \<and>
     (\<forall>k. k \<notin> op_keys ops \<longrightarrow> dp_world s k = None)"
proof -
  have hyps: "pd_answers (\<lambda>_. Some ''pd-0'')" "parseNemesisGenerator ''partition_one'' = Some (NetworkPartitionGenerator ''partition_one'')"
    "''partition_one'' \<noteq> ''strobe_skews''" "2 \<le> length sample_nodes" "PD \<in> nd_Component ` set sample_nodes" "distinct (map pod_of sample_nodes)"
    by (simp_all add: pd_answers_def parseNemesisGenerator_def sample_nodes_def pod_of_def)
  note y = Generate_yields [OF counter_math_laws hyps(1-5), of "\<lambda>_. []" 5]
  then obtain ops g' where gen: "Generate (\<lambda>_. Some ''pd-0'') (\<lambda>_. []) counter_math 5 (NetworkPartitionGenerator ''partition_one'') sample_nodes = Some (ops, g')"
    and ok: "generated_ok sample_nodes ops" by (auto simp: yields_def)
  from gen obtain op where ops: "ops = [Some op]" and op: "no_Type op = NetworkPartition" "\<not> no_Control op"
    by (auto simp: networkPartition_Generate_def partitionNodes_def bind_eq_Some_conv Let_def split: if_splits)
  obtain nemesises where reg: "init_nemesises True = Some nemesises" "\<And>n. GetNemesis nemesises (Nemesis_Name n) = Some n"
    using init_nemesises_total by auto
  have wf: "well_formed_op op" "no_Type op \<in> set chaos_kinds" using ok op by (auto simp: generated_ok_def ops chaos_kinds_def)
  obtain obj n where o: "op_object op = Some obj" "Nemesis_Name n = no_Type op"
    "\<And>w. Nemesis_Invoke map_api n (no_Node op) (no_InvokeArgs op) w = Some (CreateOrUpdate map_api obj w)"
    "\<And>w. Nemesis_Recover map_api n (no_Node op) (no_RecoverArgs op) w = Some (Delete map_api (co_key obj) w)"
    using well_formed_object [OF wf] by metis
  have g: "GetNemesis nemesises (no_Type op) = Some n" using reg(2) [of n] o(2) by simp
  let ?st = "\<lambda>pc w. \<lparr>dp_pcs = [pc], dp_world = w, dp_done = False, dp_rollback = False\<rparr>"
  have step: "dispatch_step map_api nemesises ops (?st pc w) (?st pc' w')"
    if "onNemesis_step map_api nemesises (Some op) False False (pc, w) (pc', w')" for pc w pc' w'
    using dispatch_step.goroutine [of 0 ops map_api nemesises "?st pc w"] that by (simp add: ops)
  let ?w = "Map.empty(co_key obj \<mapsto> co_Spec obj)"
  have "dispatch_step map_api nemesises ops (?st NStart Map.empty) (?st NWait ?w)"
    by (rule step, rule onNemesis_step.inject [OF refl g]) (simp add: o(3), simp add: map_api_def)
  moreover have "dispatch_step map_api nemesises ops (?st NWait ?w) (?st (NRecover 0) ?w)"
    by (rule step, rule onNemesis_step.run_time [OF refl op(2)])
  moreover have "dispatch_step map_api nemesises ops (?st (NRecover 0) ?w) (?st (NDone True) (?w(co_key obj := None)))"
    by (rule step, rule onNemesis_step.recovered [OF refl _ g]) (simp_all add: o(4) recoverAttempts_def, simp_all add: map_api_def)
  ultimately have run: "(dispatch_step map_api nemesises ops)\<^sup>*\<^sup>* (start_dispatch ops Map.empty False) (?st (NDone True) (?w(co_key obj := None)))"
    by (simp add: start_dispatch_def ops)
  from chaos_recovered [OF counter_math_laws hyps gen _ reg(1) map_api_laws run] wf(2)
  show ?thesis using gen reg(1) run
    by (intro exI [of _ ops] exI [of _ g'] exI [of _ nemesises] exI [of _ "?st (NDone True) (?w(co_key obj := None))"]) (auto simp: ops)
qed

end
