(* ===== verification/Nemesis_Control.thy ===== *)
theory Nemesis_Control
  imports Prelude
begin

text \<open>
  The handshake \<open>NemesisControl\<close> of \<open>pkg/core/nemesis.go\<close> between the controller, which injects the
  operations of a coordinated generator, and a test client, which says when to start and when to
  roll back; and the iterators over nemesis generators of the same file.

  The shared state is one atomic integer. A loop that polls it with a failing compare-and-swap does
  nothing but wait, so the steps are the successful ones.
\<close>

section \<open>The control\<close>

definition waitForStart :: int where "waitForStart = 1"
definition enableStart :: int where "enableStart = 2"
definition starting :: int where "starting = 3"
definition enableRollback :: int where "enableRollback = 4"

lemmas control_states = waitForStart_def enableStart_def starting_def enableRollback_def

definition CAS :: "int \<Rightarrow> int \<Rightarrow> int \<Rightarrow> int \<times> bool" where
  "CAS old new s = (if s = old then (new, True) else (s, False))"

text \<open>One iteration of the loop of each method: \<^const>\<open>None\<close> when the loop goes on. \<open>WaitForStart\<close> first stores its
  initial state and never looks at a context.\<close>

definition WaitForStart_init :: int where "WaitForStart_init = waitForStart"

definition WaitForStart :: "int \<Rightarrow> int option" where
  "WaitForStart s = (case CAS enableStart starting s of (s', ok) \<Rightarrow> if ok then Some s' else None)"

definition WaitForRollback :: "bool \<Rightarrow> int \<Rightarrow> int option" where
  "WaitForRollback ctx_done s = (if ctx_done then Some s else if s = enableRollback then Some s else None)"

definition control_Start :: "bool \<Rightarrow> int \<Rightarrow> int option" where
  "control_Start ctx_done s =
     (if ctx_done then Some s else case CAS waitForStart enableStart s of (s', ok) \<Rightarrow> if ok then Some s' else None)"

definition control_Rollback :: "bool \<Rightarrow> int \<Rightarrow> int option" where
  "control_Rollback ctx_done s =
     (if ctx_done then Some s else case CAS starting enableRollback s of (s', ok) \<Rightarrow> if ok then Some s' else None)"

lemmas control_method_defs = WaitForStart_def WaitForRollback_def control_Start_def control_Rollback_def CAS_def WaitForStart_init_def

section \<open>The two sides\<close>

text \<open>A goroutine of the controller, in \<open>onNemesis\<close>: before the return of \<open>Invoke\<close>, in
  \<open>WaitForRollback\<close>, before the return of \<open>Recover\<close>, or finished. The controller: between rounds, in \<open>WaitForStart\<close>,
  or waiting for its goroutines. The client: between rounds, in \<open>Start\<close>, working under the nemesis, in
  \<open>Rollback\<close>.\<close>

datatype op_pc = OpInvoking | OpWaiting | OpRecovering | OpDone
datatype control_pc = CIdle | CWaitStart | CRunning "op_pc list"
datatype client_pc = KIdle | KStart | KWorking | KRollback

text \<open>\<open>hs_rounds\<close> counts the rounds that were started.\<close>

record handshake =
  hs_s :: int
  hs_control :: control_pc
  hs_client :: client_pc
  hs_rounds :: nat

definition handshake_init :: handshake where
  "handshake_init = \<lparr>hs_s = 0, hs_control = CIdle, hs_client = KIdle, hs_rounds = 0\<rparr>"

text \<open>\<open>n\<close> is the number of operations of the generator, \<open>dn\<close> whether the context is done. A step is one
  of the controller, of one of its goroutines, or of the client.\<close>

inductive handshake_step :: "nat \<Rightarrow> bool \<Rightarrow> handshake \<Rightarrow> handshake \<Rightarrow> bool" for n :: nat and dn :: bool where
  generate: "hs_control s = CIdle \<Longrightarrow> \<not> dn \<Longrightarrow>
    handshake_step n dn s (s\<lparr>hs_control := CWaitStart, hs_s := WaitForStart_init\<rparr>)"
| spawn: "hs_control s = CWaitStart \<Longrightarrow> WaitForStart (hs_s s) = Some v \<Longrightarrow>
    handshake_step n dn s (s\<lparr>hs_control := CRunning (replicate n OpInvoking), hs_s := v, hs_rounds := Suc (hs_rounds s)\<rparr>)"
| invoked: "hs_control s = CRunning ops \<Longrightarrow> i < length ops \<Longrightarrow> ops ! i = OpInvoking \<Longrightarrow>
    handshake_step n dn s (s\<lparr>hs_control := CRunning (ops[i := OpWaiting])\<rparr>)"
| released: "hs_control s = CRunning ops \<Longrightarrow> i < length ops \<Longrightarrow> ops ! i = OpWaiting \<Longrightarrow> WaitForRollback dn (hs_s s) = Some v \<Longrightarrow>
    handshake_step n dn s (s\<lparr>hs_control := CRunning (ops[i := OpRecovering]), hs_s := v\<rparr>)"
| recovered: "hs_control s = CRunning ops \<Longrightarrow> i < length ops \<Longrightarrow> ops ! i = OpRecovering \<Longrightarrow>
    handshake_step n dn s (s\<lparr>hs_control := CRunning (ops[i := OpDone])\<rparr>)"
| all_done: "hs_control s = CRunning ops \<Longrightarrow> list_all (\<lambda>op. op = OpDone) ops \<Longrightarrow> handshake_step n dn s (s\<lparr>hs_control := CIdle\<rparr>)"
| call_start: "hs_client s = KIdle \<Longrightarrow> \<not> dn \<Longrightarrow> handshake_step n dn s (s\<lparr>hs_client := KStart\<rparr>)"
| started: "hs_client s = KStart \<Longrightarrow> control_Start dn (hs_s s) = Some v \<Longrightarrow>
    handshake_step n dn s (s\<lparr>hs_client := KWorking, hs_s := v\<rparr>)"
| call_rollback: "hs_client s = KWorking \<Longrightarrow> handshake_step n dn s (s\<lparr>hs_client := KRollback\<rparr>)"
| rolled_back: "hs_client s = KRollback \<Longrightarrow> control_Rollback dn (hs_s s) = Some v \<Longrightarrow>
    handshake_step n dn s (s\<lparr>hs_client := KIdle, hs_s := v\<rparr>)"

inductive_cases handshake_stepE: "handshake_step n dn s s'"

text \<open>Which sides can be where, as long as the context is not done.\<close>

definition not_recovering :: "op_pc list \<Rightarrow> bool" where
  "not_recovering ops \<longleftrightarrow> set ops \<subseteq> {OpInvoking, OpWaiting}"

definition handshake_ok :: "nat \<Rightarrow> handshake \<Rightarrow> bool" where
  "handshake_ok n s \<longleftrightarrow>
     (hs_s s = 0 \<and> hs_control s = CIdle \<and> hs_client s \<in> {KIdle, KStart}) \<or>
     (hs_s s = waitForStart \<and> hs_control s = CWaitStart \<and> hs_client s \<in> {KIdle, KStart}) \<or>
     (hs_s s = enableStart \<and> hs_control s = CWaitStart \<and> hs_client s \<in> {KWorking, KRollback}) \<or>
     (hs_s s = starting \<and> hs_client s \<in> {KWorking, KRollback} \<and> (\<exists>ops. hs_control s = CRunning ops \<and> length ops = n \<and> not_recovering ops)) \<or>
     (hs_s s = enableRollback \<and> hs_client s \<in> {KIdle, KStart} \<and> (hs_control s = CIdle \<or> (\<exists>ops. hs_control s = CRunning ops \<and> length ops = n)))"

lemma handshake_ok_starting:
  "hs_s s = starting \<Longrightarrow> handshake_ok n s \<longleftrightarrow>
     hs_client s \<in> {KWorking, KRollback} \<and> (\<exists>ops. hs_control s = CRunning ops \<and> length ops = n \<and> not_recovering ops)"
  by (auto simp: handshake_ok_def control_states)

lemma not_recovering_update: "not_recovering ops \<Longrightarrow> not_recovering (ops[i := OpWaiting])"
  using set_update_subset_insert [of ops i OpWaiting] by (auto simp: not_recovering_def)

lemma not_recovering_nth:
  assumes "not_recovering ops" "i < length ops" shows "ops ! i \<noteq> OpRecovering" "ops ! i \<noteq> OpDone"
  using assms nth_mem [of i ops] unfolding not_recovering_def by force+

lemma handshake_ok_step:
  assumes "handshake_ok n s" "handshake_step n False s s'" "0 < n" shows "handshake_ok n s'"
  using assms(2)
proof cases
  case (invoked ops i)
  then show ?thesis using assms(1) not_recovering_update [of ops i] by (auto simp: handshake_ok_def control_states)
next
  case (recovered ops i)
  then show ?thesis using assms(1) not_recovering_nth(1) [of ops i] by (auto simp: handshake_ok_def control_states)
next
  case (all_done ops)
  then have "\<not> not_recovering ops \<or> ops = []" by (cases ops) (auto simp: not_recovering_def)
  then show ?thesis using all_done assms(1,3) by (auto simp: handshake_ok_def control_states)
next
  case (spawn v)
  then show ?thesis using assms(1) by (auto simp: handshake_ok_def control_method_defs control_states not_recovering_def split: if_splits)
qed (use assms(1) in \<open>auto simp: handshake_ok_def control_method_defs control_states split: if_splits\<close>)

lemma reachable_handshake_ok:
  assumes "(handshake_step n False)\<^sup>*\<^sup>* handshake_init s" "0 < n" shows "handshake_ok n s"
  using assms(1)
proof (induction rule: rtranclp_induct)
  case base
  show ?case by (simp add: handshake_ok_def handshake_init_def)
next
  case (step s s')
  then show ?case using handshake_ok_step assms(2) by blast
qed

lemma goroutines_progress:
  assumes "hs_control s = CRunning ops" "hs_s s = enableRollback" shows "\<exists>s'. handshake_step n False s s'"
proof (cases "list_all (\<lambda>op. op = OpDone) ops")
  case True
  then show ?thesis using assms handshake_step.all_done by blast
next
  case False
  then obtain i where i: "i < length ops" "ops ! i \<noteq> OpDone" by (auto simp: list_all_length)
  have r: "WaitForRollback False (hs_s s) = Some enableRollback" by (simp add: WaitForRollback_def assms(2))
  from i(2) show ?thesis
    by (cases "ops ! i") (use assms(1) i(1) r handshake_step.invoked handshake_step.released handshake_step.recovered in blast)+
qed

lemma handshake_progress:
  assumes "handshake_ok n s" shows "\<exists>s'. handshake_step n False s s'"
proof -
  note unfold_control = control_method_defs control_states
  from assms consider "hs_control s = CIdle" | "hs_s s = waitForStart" "hs_client s = KIdle" | "hs_s s = waitForStart" "hs_client s = KStart"
    | "hs_s s = enableStart" "hs_control s = CWaitStart" | "hs_s s = starting" "hs_client s = KWorking"
    | "hs_s s = starting" "hs_client s = KRollback" | ops where "hs_s s = enableRollback" "hs_control s = CRunning ops"
    by (auto simp: handshake_ok_def)
  then show ?thesis
  proof cases
    case 1
    then show ?thesis using handshake_step.generate by blast
  next
    case 2
    then show ?thesis using handshake_step.call_start by blast
  next
    case 3
    then have "control_Start False (hs_s s) = Some enableStart" by (simp add: unfold_control)
    then show ?thesis using 3 handshake_step.started by blast
  next
    case 4
    then have "WaitForStart (hs_s s) = Some starting" by (simp add: unfold_control)
    then show ?thesis using 4 handshake_step.spawn by blast
  next
    case 5
    then show ?thesis using handshake_step.call_rollback by blast
  next
    case 6
    then have "control_Rollback False (hs_s s) = Some enableRollback" by (simp add: unfold_control)
    then show ?thesis using 6 handshake_step.rolled_back by blast
  next
    case (7 ops)
    then show ?thesis by (intro goroutines_progress)
  qed
qed

text \<open>The number of steps that both sides can still take before the next round.\<close>

fun op_left :: "op_pc \<Rightarrow> nat" where
  "op_left OpInvoking = 3" | "op_left OpWaiting = 2" | "op_left OpRecovering = 1" | "op_left OpDone = 0"

definition steps_left :: "handshake \<Rightarrow> nat" where
  "steps_left s = (case hs_control s of CIdle \<Rightarrow> 2 | CWaitStart \<Rightarrow> 1 | CRunning ops \<Rightarrow> sum_list (map op_left ops) + 3) +
     (case hs_client s of KIdle \<Rightarrow> 3 | KStart \<Rightarrow> 2
      | KWorking \<Rightarrow> if hs_s s = enableStart then 1 else 5
      | KRollback \<Rightarrow> if hs_s s = enableStart then 0 else 4)"

lemma op_left_update:
  assumes "i < length ops" "op_left op < op_left (ops ! i)"
  shows "sum_list (map op_left (ops[i := op])) < sum_list (map op_left ops)"
  using assms
proof (induction ops arbitrary: i)
  case (Cons a ops)
  then show ?case by (cases i) auto
qed simp

lemma steps_left_decreases:
  assumes "handshake_ok n s" "handshake_step n False s s'" "0 < n"
  shows "hs_rounds s' = Suc (hs_rounds s) \<or> (hs_rounds s' = hs_rounds s \<and> steps_left s' < steps_left s)"
  using assms(2)
proof cases
  case (invoked ops i)
  then show ?thesis using op_left_update [of i ops OpWaiting] by (simp add: steps_left_def)
next
  case (released ops i v)
  then show ?thesis using op_left_update [of i ops OpRecovering] by (simp add: steps_left_def WaitForRollback_def split: if_splits)
next
  case (recovered ops i)
  then show ?thesis using op_left_update [of i ops OpDone] by (simp add: steps_left_def)
qed (use assms(1,3) in \<open>auto simp: handshake_ok_def steps_left_def control_method_defs control_states split: if_splits\<close>)

lemma next_round:
  assumes run: "\<And>k. handshake_step n False (f k) (f (Suc k))" and ok: "\<And>k. handshake_ok n (f k)" and "0 < n"
  shows "\<exists>j \<le> steps_left (f k) + 1. hs_rounds (f (k + j)) = Suc (hs_rounds (f k))"
proof (induction "steps_left (f k)" arbitrary: k rule: less_induct)
  case less
  from steps_left_decreases [OF ok run assms(3), of k] show ?case
  proof
    assume "hs_rounds (f (Suc k)) = Suc (hs_rounds (f k))"
    then show ?thesis by (intro exI [of _ 1]) simp
  next
    assume d: "hs_rounds (f (Suc k)) = hs_rounds (f k) \<and> steps_left (f (Suc k)) < steps_left (f k)"
    with less [of "Suc k"] obtain j where "j \<le> steps_left (f (Suc k)) + 1" "hs_rounds (f (Suc k + j)) = Suc (hs_rounds (f k))" by auto
    then show ?thesis using d by (intro exI [of _ "Suc j"]) auto
  qed
qed

lemma op_left_bound: "sum_list (map op_left ops) \<le> 3 * length ops"
proof (induction ops)
  case (Cons op ops)
  moreover have "op_left op \<le> 3" by (cases op) auto
  ultimately show ?case by simp
qed simp

lemma steps_left_bound:
  assumes "handshake_ok n s" shows "steps_left s \<le> 3 * n + 8"
proof -
  have "(case hs_control s of CIdle \<Rightarrow> 2 | CWaitStart \<Rightarrow> 1 | CRunning ops \<Rightarrow> sum_list (map op_left ops) + 3) \<le> 3 * n + 3"
  proof (cases "hs_control s")
    case (CRunning ops)
    then have "length ops = n" using assms by (auto simp: handshake_ok_def)
    then show ?thesis using op_left_bound [of ops] CRunning by simp
  qed simp_all
  moreover have "(case hs_client s of KIdle \<Rightarrow> 3 | KStart \<Rightarrow> 2 | KWorking \<Rightarrow> if hs_s s = enableStart then 1 else 5
      | KRollback \<Rightarrow> if hs_s s = enableStart then 0 else 4) \<le> (5 :: nat)" by (cases "hs_client s") auto
  ultimately show ?thesis unfolding steps_left_def by linarith
qed

text \<open>C19. The handshake between the controller, whose generator has at least one operation, and a client that
  alternates \<open>Start\<close> and \<open>Rollback\<close>, as long as the context is not done. The controller runs every operation in a goroutine
  of its own, which invokes it, polls for the rollback and recovers it, in any interleaving with the others and with the
  client. In every state that they can reach some side can move; no operation of a round recovers before the
  client's call of \<open>Rollback\<close> has set the state to \<open>enableRollback\<close>, and the client cannot get past its next
  \<open>Start\<close> before all of them have recovered; while the state is \<open>starting\<close>, all operations are invoked or being
  invoked, none recovers, and the client is working or in \<open>Rollback\<close>. And in every run round follows upon round: from any point
  the next one is started after at most \<open>3 * n + 9\<close> steps.\<close>

theorem handshake_alternates:
  assumes "0 < n"
  shows "(\<forall>s. (handshake_step n False)\<^sup>*\<^sup>* handshake_init s \<longrightarrow> (\<exists>s'. handshake_step n False s s') \<and>
      (\<forall>ops. hs_control s = CRunning ops \<and> (OpRecovering \<in> set ops \<or> OpDone \<in> set ops) \<longrightarrow>
        hs_s s = enableRollback \<and> hs_client s \<in> {KIdle, KStart}) \<and>
      (hs_client s = KStart \<and> (\<exists>s'. handshake_step n False s s' \<and> hs_client s' = KWorking) \<longrightarrow> hs_control s = CWaitStart) \<and>
      (hs_s s = starting \<longrightarrow> hs_client s \<in> {KWorking, KRollback} \<and>
        (\<exists>ops. hs_control s = CRunning ops \<and> length ops = n \<and> set ops \<subseteq> {OpInvoking, OpWaiting}))) \<and>
    (\<forall>f. f 0 = handshake_init \<and> (\<forall>k. handshake_step n False (f k) (f (Suc k))) \<longrightarrow>
      (\<forall>k. \<exists>j \<le> 3 * n + 9. hs_rounds (f (k + j)) = Suc (hs_rounds (f k))))"
proof (intro conjI allI impI)
  fix s assume "(handshake_step n False)\<^sup>*\<^sup>* handshake_init s"
  then have ok: "handshake_ok n s" using reachable_handshake_ok assms by blast
  then show "\<exists>s'. handshake_step n False s s'" by (rule handshake_progress)
  show "hs_s s = enableRollback" "hs_client s \<in> {KIdle, KStart}"
    if "hs_control s = CRunning ops \<and> (OpRecovering \<in> set ops \<or> OpDone \<in> set ops)" for ops
    using ok that by (auto simp: handshake_ok_def not_recovering_def)
  show "hs_control s = CWaitStart" if "hs_client s = KStart \<and> (\<exists>s'. handshake_step n False s s' \<and> hs_client s' = KWorking)"
    using ok that by (auto simp: handshake_ok_def control_method_defs control_states split: if_splits elim!: handshake_stepE)
  show "hs_client s \<in> {KWorking, KRollback}"
    "\<exists>ops. hs_control s = CRunning ops \<and> length ops = n \<and> set ops \<subseteq> {OpInvoking, OpWaiting}" if "hs_s s = starting"
    using ok handshake_ok_starting [OF that, of n] by (auto simp: not_recovering_def)
next
  fix f k assume f: "f 0 = handshake_init \<and> (\<forall>k. handshake_step n False (f k) (f (Suc k)))"
  have "(handshake_step n False)\<^sup>*\<^sup>* handshake_init (f k)" for k
    using f by (induction k) (auto intro: rtranclp.rtrancl_into_rtrancl)
  then have ok: "handshake_ok n (f k)" for k using reachable_handshake_ok assms by blast
  have "handshake_step n False (f k) (f (Suc k))" for k using f by blast
  then obtain j where "j \<le> steps_left (f k) + 1" "hs_rounds (f (k + j)) = Suc (hs_rounds (f k))"
    using next_round [of n f k] ok assms by blast
  moreover have "steps_left (f k) \<le> 3 * n + 8" using steps_left_bound [OF ok] .
  ultimately show "\<exists>j \<le> 3 * n + 9. hs_rounds (f (k + j)) = Suc (hs_rounds (f k))" by (intro exI [of _ j]) simp
qed

text \<open>With a generator of no nodes the operations are over at once, and the two sides can wait for each other: the
  controller for a start, the client for the state \<open>starting\<close> that its rollback needs.\<close>

theorem handshake_without_operations_deadlocks:
  "\<exists>s. (handshake_step 0 False)\<^sup>*\<^sup>* handshake_init s \<and> hs_control s = CWaitStart \<and> hs_client s = KRollback \<and>
     (\<forall>s'. \<not> handshake_step 0 False s s')"
proof -
  let ?st = "\<lambda>v c k i. \<lparr>hs_s = v, hs_control = c, hs_client = k, hs_rounds = i\<rparr>"
  have step: "(handshake_step 0 False)\<^sup>*\<^sup>* handshake_init t" if "(handshake_step 0 False)\<^sup>*\<^sup>* handshake_init s" "handshake_step 0 False s s'" "s' = t" for s s' t
    using that by auto
  have "(handshake_step 0 False)\<^sup>*\<^sup>* handshake_init (?st 0 CIdle KIdle 0)" by (simp add: handshake_init_def)
  then have "(handshake_step 0 False)\<^sup>*\<^sup>* handshake_init (?st 0 CIdle KStart 0)"
    by (rule step) (rule handshake_step.call_start, simp_all)
  then have "(handshake_step 0 False)\<^sup>*\<^sup>* handshake_init (?st 1 CWaitStart KStart 0)"
    by (rule step) (rule handshake_step.generate, simp_all add: control_method_defs control_states)
  then have "(handshake_step 0 False)\<^sup>*\<^sup>* handshake_init (?st 2 CWaitStart KWorking 0)"
    by (rule step) (rule handshake_step.started [where v = 2], simp_all add: control_method_defs control_states)
  then have "(handshake_step 0 False)\<^sup>*\<^sup>* handshake_init (?st 3 (CRunning []) KWorking 1)"
    by (rule step) (rule handshake_step.spawn [where v = 3], simp_all add: control_method_defs control_states)
  then have "(handshake_step 0 False)\<^sup>*\<^sup>* handshake_init (?st 3 CIdle KWorking 1)"
    by (rule step) (rule handshake_step.all_done [where ops = "[]"], simp_all)
  then have "(handshake_step 0 False)\<^sup>*\<^sup>* handshake_init (?st 1 CWaitStart KWorking 1)"
    by (rule step) (rule handshake_step.generate, simp_all add: control_method_defs control_states)
  then have "(handshake_step 0 False)\<^sup>*\<^sup>* handshake_init (?st 1 CWaitStart KRollback 1)"
    by (rule step) (rule handshake_step.call_rollback, simp_all)
  moreover have "\<not> handshake_step 0 False (?st 1 CWaitStart KRollback 1) s'" for s'
    by (auto simp: control_method_defs control_states elim: handshake_step.cases)
  ultimately show ?thesis by (intro exI [of _ "?st 1 CWaitStart KRollback 1"]) simp
qed

text \<open>A controller in \<open>WaitForStart\<close> does not notice that the context is done: once the client has stopped calling,
  it waits for ever, and so does whoever waits for the dispatcher.\<close>

theorem WaitForStart_ignores_context:
  assumes "hs_control s = CWaitStart" "hs_s s = waitForStart" "hs_client s = KIdle"
  shows "\<not> handshake_step n True s s'"
  using assms by (auto simp: control_method_defs control_states elim: handshake_step.cases)

theorem handshake_alternates_witness:
  "\<exists>f. f 0 = handshake_init \<and> (\<forall>k. handshake_step 2 False (f k) (f (Suc k))) \<and>
     (\<exists>j \<le> 15. hs_rounds (f j) = 1) \<and> (\<exists>j \<le> 30. hs_rounds (f j) = 2)"
proof -
  let ?R = "(handshake_step 2 False)\<^sup>*\<^sup>* handshake_init"
  have two: "0 < (2 :: nat)" by simp
  note h = handshake_alternates [OF two]
  have "\<exists>f. \<forall>k. (?R (f k) \<and> (k = 0 \<longrightarrow> f k = handshake_init)) \<and> handshake_step 2 False (f k) (f (Suc k))"
  proof (rule dependent_nat_choice)
    fix x and k :: nat assume "?R x \<and> (k = 0 \<longrightarrow> x = handshake_init)"
    moreover from this h obtain y where "handshake_step 2 False x y" by blast
    ultimately show "\<exists>y. (?R y \<and> (Suc k = 0 \<longrightarrow> y = handshake_init)) \<and> handshake_step 2 False x y"
      by (intro exI [of _ y]) (auto intro: rtranclp.rtrancl_into_rtrancl)
  qed auto
  then obtain f where f: "f 0 = handshake_init" "\<forall>k. handshake_step 2 False (f k) (f (Suc k))" by auto
  with h have "\<forall>k. \<exists>j \<le> 3 * 2 + 9. hs_rounds (f (k + j)) = Suc (hs_rounds (f k))" by blast
  then have j: "\<forall>k. \<exists>j \<le> 15. hs_rounds (f (k + j)) = Suc (hs_rounds (f k))" by simp
  from j [rule_format, of 0] f(1) obtain i where i: "i \<le> 15" "hs_rounds (f i) = 1" by (auto simp: handshake_init_def)
  from j [rule_format, of i] i obtain j where "j \<le> 15" "hs_rounds (f (i + j)) = 2" by auto
  then have "i + j \<le> 30 \<and> hs_rounds (f (i + j)) = 2" using i(1) by simp
  with i f show ?thesis by blast
qed

section \<open>Iterators of generators\<close>

text \<open>\<open>nemesisGenerators\<close> can be reset, \<open>OneRoundNemesisGenerators\<close> cannot. \<open>Next\<close> panics past the end of the
  slice.\<close>

datatype 'gen NemesisGenerators = SliceGenerators nat "'gen list" | OneRound 'gen bool

definition NewNemesisGenerators :: "'gen list \<Rightarrow> 'gen NemesisGenerators" where
  "NewNemesisGenerators gens = SliceGenerators 0 gens"

definition NewOneRoundNemesisGenerators :: "'gen \<Rightarrow> 'gen NemesisGenerators" where
  "NewOneRoundNemesisGenerators gen = OneRound gen True"

fun HasNext :: "'gen NemesisGenerators \<Rightarrow> bool" where
  "HasNext (SliceGenerators idx generators) = (idx < length generators)"
| "HasNext (OneRound gen hasNext) = hasNext"

fun Generators_Next :: "'gen NemesisGenerators \<Rightarrow> ('gen \<times> 'gen NemesisGenerators) option" where
  "Generators_Next (SliceGenerators idx generators) =
     (if idx < length generators then Some (generators ! idx, SliceGenerators (idx + 1) generators) else None)"
| "Generators_Next (OneRound gen hasNext) = Some (gen, OneRound gen False)"

fun Generators_Reset :: "'gen NemesisGenerators \<Rightarrow> bool \<times> 'gen NemesisGenerators" where
  "Generators_Reset (SliceGenerators idx generators) = (True, SliceGenerators 0 generators)"
| "Generators_Reset (OneRound gen hasNext) = (False, OneRound gen hasNext)"

text \<open>The loop of \<open>dispatchNemesis\<close> over the iterator, for so many iterations before the context is done: the
  generators it runs. An iteration that finds nothing resets the iterator or sleeps.\<close>

fun dispatch_order :: "nat \<Rightarrow> 'gen NemesisGenerators \<Rightarrow> 'gen list option" where
  "dispatch_order 0 gens = Some []"
| "dispatch_order (Suc k) gens =
     (if \<not> HasNext gens then dispatch_order k (snd (Generators_Reset gens))
      else do { (gen, gens') \<leftarrow> Generators_Next gens; order \<leftarrow> dispatch_order k gens'; Some (gen # order) })"

text \<open>The loop of \<open>RunWithNemesisSequential\<close>: until there is no next one.\<close>

fun sequential_order :: "nat \<Rightarrow> 'gen NemesisGenerators \<Rightarrow> 'gen list option" where
  "sequential_order 0 gens = None"
| "sequential_order (Suc fuel) gens =
     (if \<not> HasNext gens then Some []
      else do { (gen, gens') \<leftarrow> Generators_Next gens; order \<leftarrow> sequential_order fuel gens'; Some (gen # order) })"

lemma sequential_order_slice:
  "idx \<le> length gens \<Longrightarrow> length gens - idx < fuel \<Longrightarrow> sequential_order fuel (SliceGenerators idx gens) = Some (drop idx gens)"
proof (induction "length gens - idx" arbitrary: idx fuel)
  case 0
  then show ?case by (cases fuel) auto
next
  case (Suc m)
  then obtain fuel' where "fuel = Suc fuel'" by (cases fuel) auto
  moreover have "idx < length gens" using Suc.hyps(2) by simp
  ultimately show ?case using Suc.hyps(1) [of "Suc idx" fuel'] Suc.hyps(2) Suc.prems by (simp add: Cons_nth_drop_Suc)
qed

text \<open>Every nemesis runs once, in order, in the sequential mode; in the other modes they run round robin.\<close>

lemma sequential_order_all: "length gens < fuel \<Longrightarrow> sequential_order fuel (NewNemesisGenerators gens) = Some gens"
  using sequential_order_slice [of 0 gens fuel] by (simp add: NewNemesisGenerators_def)

lemma dispatch_order_slice:
  "idx \<le> length gens \<Longrightarrow> dispatch_order (length gens - idx + k) (SliceGenerators idx gens) =
     map_option ((@) (drop idx gens)) (dispatch_order k (SliceGenerators (length gens) gens))"
proof (induction "length gens - idx" arbitrary: idx)
  case 0
  then show ?case by (cases "dispatch_order k (SliceGenerators (length gens) gens)") auto
next
  case (Suc m)
  then have idx: "idx < length gens" by simp
  moreover have "length gens - idx + k = Suc (length gens - Suc idx + k)" using idx by simp
  ultimately show ?case using Suc.hyps(1) [of "Suc idx"] Suc.hyps(2)
    by (cases "dispatch_order k (SliceGenerators (length gens) gens)") (simp_all add: Cons_nth_drop_Suc)
qed

lemma dispatch_round_robin:
  "dispatch_order (r * Suc (length gens)) (NewNemesisGenerators gens) = Some (concat (replicate r gens))"
proof (induction r)
  case (Suc r)
  have e: "Suc r * Suc (length gens) = length gens - 0 + Suc (r * Suc (length gens))" by simp
  have "dispatch_order (Suc (r * Suc (length gens))) (SliceGenerators (length gens) gens) = Some (concat (replicate r gens))"
    using Suc by (simp add: NewNemesisGenerators_def)
  then show ?case unfolding e NewNemesisGenerators_def dispatch_order_slice [of 0 gens, OF le0] by simp
qed (simp add: NewNemesisGenerators_def)

end
