(* ===== verification/Bank_Tso.thy ===== *)
theory Bank_Tso
  imports Object_Models
begin

text \<open>
  The second checker of the bank workload (\<open>db/tidb/bank.go\<close>): every transaction carries its start
  timestamp, so \<open>bankTsoChecker\<close> orders them by it and replays them. Transfer events are heap objects
  in the code: \<open>possibleEvents\<close> keeps, for every account, a slice of pointers, the same event stands in
  the slices of its two accounts, and \<open>checkBalance\<close> clears its \<open>Unknown\<close> flag through the pointer.
  The sorted events are therefore the store and a pointer is a position in it.

  Shown here: the verdict on a history without unknown responses is that of a replay of the
  transfers; a serial history in timestamp order is never rejected, whichever of its unknown
  transfers took effect; and three inputs on which the checker errs.
\<close>

section \<open>Events with timestamps\<close>

record tsoEvent =
  te_Tso :: "64 word"
  te_Op :: int
  te_From :: int
  te_To :: int
  te_FromBalance :: "64 word"
  te_ToBalance :: "64 word"
  te_Amount :: "64 word"
  te_Balances :: "64 word list"
  te_Unknown :: bool

text \<open>The balances of an account before and after the transfer.\<close>

definition GetBalances :: "tsoEvent \<Rightarrow> int \<Rightarrow> 64 word \<times> 64 word" where
  "GetBalances e index =
     (if index = te_From e then (te_FromBalance e, te_FromBalance e - te_Amount e)
      else (te_ToBalance e, te_ToBalance e + te_Amount e))"

definition new_tsoEvent :: "bankRequest \<Rightarrow> bankResponse \<Rightarrow> tsoEvent" where
  "new_tsoEvent request response =
     (let tEvent = \<lparr>te_Tso = bresp_Tso response, te_Op = breq_Op request, te_From = 0, te_To = 0, te_FromBalance = 0,
                    te_ToBalance = 0, te_Amount = 0, te_Balances = [], te_Unknown = bresp_Unknown response\<rparr>
      in if breq_Op request = 0 then tEvent\<lparr>te_Balances := bresp_Balances response\<rparr>
         else tEvent\<lparr>te_From := breq_From request, te_To := breq_To request, te_Amount := breq_Amount request,
                     te_FromBalance := bresp_FromBalance response, te_ToBalance := bresp_ToBalance response\<rparr>)"

text \<open>The loop over the events; a value of another type fails the type assertion and panics.\<close>

fun generate_loop :: "(bankRequest, bankResponse) Event list \<Rightarrow> (nat, (bankRequest, bankResponse) Event) gomap \<Rightarrow>
    tsoEvent list \<Rightarrow> tsoEvent list option" where
  "generate_loop [] mapEvents tEvents = Some tEvents"
| "generate_loop (event # events) mapEvents tEvents =
     (if ev_Kind event = CallEvent then generate_loop events (AList.update (ev_Id event) event mapEvents) tEvents
      else (case map_of mapEvents (ev_Id event) of
              None \<Rightarrow> generate_loop events mapEvents tEvents
            | Some callEvent \<Rightarrow>
                (case (ev_Value callEvent, ev_Value event) of
                   (Request request, Response response) \<Rightarrow>
                     generate_loop events (AList.delete (ev_Id event) mapEvents)
                       (if bresp_Tso response = 0 then tEvents else tEvents @ [new_tsoEvent request response])
                 | _ \<Rightarrow> None)))"

text \<open>\<open>sort.Sort\<close> is not stable: events of the same timestamp come out in any order, here that of \<open>\<rho>\<close>.\<close>

definition generateTsoEvents :: "range_order \<Rightarrow> (bankRequest, bankResponse) Event list \<Rightarrow> tsoEvent list option" where
  "generateTsoEvents \<rho> events = map_option (\<lambda>tEvents. sort_key te_Tso (go_range \<rho> tEvents)) (generate_loop events [] [])"

section \<open>Replaying the events\<close>

text \<open>The loop of \<open>checkBalance\<close> from the last event down.\<close>

fun checkBalance_loop :: "int \<Rightarrow> tsoEvent list \<Rightarrow> nat list \<Rightarrow> 64 word \<Rightarrow> bool \<times> tsoEvent list" where
  "checkBalance_loop index h [] curBalance = (False, h)"
| "checkBalance_loop index h (lastEvent # earlier) curBalance =
     (let (cur, nxt) = GetBalances (h ! lastEvent) index
      in if nxt = curBalance then (True, h[lastEvent := (h ! lastEvent)\<lparr>te_Unknown := False\<rparr>])
         else if cur = curBalance then (True, h)
         else checkBalance_loop index h earlier curBalance)"

definition checkBalance :: "int \<Rightarrow> tsoEvent list \<Rightarrow> nat list \<Rightarrow> 64 word \<Rightarrow> bool \<times> tsoEvent list" where
  "checkBalance index h events curBalance =
     (if events = [] then (curBalance = initBalance, h) else checkBalance_loop index h (rev events) curBalance)"

text \<open>\<open>None\<close> is the error of an invalid chain.\<close>

fun checkTransfer_loop :: "int \<Rightarrow> tsoEvent list \<Rightarrow> nat list \<Rightarrow> nat \<Rightarrow> tsoEvent option \<Rightarrow> nat \<Rightarrow> nat option" where
  "checkTransfer_loop index h [] i lastEvent lastIndex = Some lastIndex"
| "checkTransfer_loop index h (p # ps) i lastEvent lastIndex =
     (let e = h ! p
      in if te_Unknown e then checkTransfer_loop index h ps (i + 1) lastEvent lastIndex
         else if (case lastEvent of Some l \<Rightarrow> snd (GetBalances l index) \<noteq> fst (GetBalances e index) | None \<Rightarrow> False) then None
         else checkTransfer_loop index h ps (i + 1) (Some e) i)"

definition checkTransferEvents :: "int \<Rightarrow> tsoEvent list \<Rightarrow> nat list \<Rightarrow> nat option" where
  "checkTransferEvents index h events = checkTransfer_loop index h events 0 None 0"

definition mergeTransferEvents :: "int \<Rightarrow> tsoEvent list \<Rightarrow> nat list \<Rightarrow> nat \<Rightarrow> (tsoEvent list \<times> nat list) option" where
  "mergeTransferEvents index h events e =
     (let (curBalance, _) = GetBalances (h ! e) index;
          (ok, h) = checkBalance index h events curBalance
      in if \<not> ok then None
         else do {
           lastIdx \<leftarrow> checkTransferEvents index h (events @ [e]);
           Some (h, drop lastIdx (events @ [e])) })"

text \<open>In the loops below an outer \<open>None\<close> is the panic of an index out of range.\<close>

fun verifyRead_loop :: "nat list list \<Rightarrow> tsoEvent list \<Rightarrow> nat \<Rightarrow> 64 word list \<Rightarrow> 64 word \<Rightarrow>
    (64 word option \<times> tsoEvent list) option" where
  "verifyRead_loop possibleEvents h i [] total_sum = Some (Some total_sum, h)"
| "verifyRead_loop possibleEvents h i (balance # balances) total_sum =
     (if i < length possibleEvents
      then (let (ok, h) = checkBalance (int i) h (possibleEvents ! i) balance
            in if ok then verifyRead_loop possibleEvents h (i + 1) balances (total_sum + balance) else Some (None, h))
      else None)"

definition verifyReadEvent :: "nat list list \<Rightarrow> tsoEvent list \<Rightarrow> nat \<Rightarrow> (bool \<times> tsoEvent list) option" where
  "verifyReadEvent possibleEvents h e =
     (if te_Unknown (h ! e) then Some (True, h)
      else do {
        (total_sum, h') \<leftarrow> verifyRead_loop possibleEvents h 0 (te_Balances (h ! e)) 0;
        Some (case total_sum of
                None \<Rightarrow> (False, h')
              | Some total_sum \<Rightarrow> (total_sum = of_nat (length (te_Balances (h ! e))) * initBalance, h')) })"

definition merge_at :: "int \<Rightarrow> nat list list \<Rightarrow> tsoEvent list \<Rightarrow> nat \<Rightarrow> (tsoEvent list \<times> nat list list) option option" where
  "merge_at index possibleEvents h e =
     (if 0 \<le> index \<and> index < int (length possibleEvents)
      then Some (case mergeTransferEvents index h (possibleEvents ! nat index) e of
                   None \<Rightarrow> None
                 | Some (h, events) \<Rightarrow> Some (h, possibleEvents[nat index := events]))
      else None)"

fun verifyTso_loop :: "nat list list \<Rightarrow> tsoEvent list \<Rightarrow> nat list \<Rightarrow> bool option" where
  "verifyTso_loop possibleEvents h [] = Some True"
| "verifyTso_loop possibleEvents h (e # events) =
     (if te_Op (h ! e) = 0
      then do {
        (ok, h) \<leftarrow> verifyReadEvent possibleEvents h e;
        if \<not> ok then Some False else verifyTso_loop possibleEvents h events }
      else if te_Op (h ! e) = 1
      then do {
        r \<leftarrow> merge_at (te_From (h ! e)) possibleEvents h e;
        (case r of
           None \<Rightarrow> Some False
         | Some (h, possibleEvents) \<Rightarrow> do {
             r \<leftarrow> merge_at (te_To (h ! e)) possibleEvents h e;
             (case r of
                None \<Rightarrow> Some False
              | Some (h, possibleEvents) \<Rightarrow> verifyTso_loop possibleEvents h events) }) }
      else verifyTso_loop possibleEvents h events)"

definition verifyTsoEvents :: "tsoEvent list \<Rightarrow> bool option" where
  "verifyTsoEvents events = verifyTso_loop (replicate accountNum []) events [0..<length events]"

definition bankTsoChecker_Check :: "range_order \<Rightarrow> (64 word list, bankRequest, bankResponse) Checker" where
  "bankTsoChecker_Check \<rho> m prepared ops =
     (case ConvertOperationsToEvents ops of
        Inl err \<Rightarrow> Some (Inl err)
      | Inr events \<Rightarrow> do {
          tEvents \<leftarrow> generateTsoEvents \<rho> events;
          ok \<leftarrow> verifyTsoEvents tEvents;
          Some (Inr ok) })"

section \<open>Histories without unknown responses\<close>

text \<open>The reference: for every account the balances before and after its last transfer.\<close>

definition replay_step :: "(64 word \<times> 64 word) list \<Rightarrow> tsoEvent \<Rightarrow> (64 word \<times> 64 word) list option" where
  "replay_step acct e =
     (if te_Op e = 0
      then (if list_all (\<lambda>(b, before, after). b = after \<or> b = before) (zip (te_Balances e) acct) \<and>
               sum_list (te_Balances e) = of_nat (length (te_Balances e)) * initBalance
            then Some acct else None)
      else if te_Op e = 1
      then (let f = nat (te_From e); t = nat (te_To e)
            in if te_FromBalance e = snd (acct ! f) \<and> te_ToBalance e = snd (acct ! t)
               then Some (acct[f := (te_FromBalance e, te_FromBalance e - te_Amount e), t := (te_ToBalance e, te_ToBalance e + te_Amount e)])
               else None)
      else Some acct)"

fun replay :: "(64 word \<times> 64 word) list \<Rightarrow> tsoEvent list \<Rightarrow> bool" where
  "replay acct [] = True"
| "replay acct (e # es) = (case replay_step acct e of None \<Rightarrow> False | Some acct \<Rightarrow> replay acct es)"

definition account :: "int \<Rightarrow> bool" where
  "account i \<longleftrightarrow> 0 \<le> i \<and> i < int accountNum"

definition proper_event :: "tsoEvent \<Rightarrow> bool" where
  "proper_event e \<longleftrightarrow> (te_Op e = 0 \<longrightarrow> length (te_Balances e) \<le> accountNum) \<and>
     (te_Op e = 1 \<longrightarrow> account (te_From e) \<and> account (te_To e) \<and> te_From e \<noteq> te_To e)"

text \<open>What the slice of an account is while every response is known: its last transfer.\<close>

definition last_known :: "tsoEvent list \<Rightarrow> int \<Rightarrow> nat list \<Rightarrow> 64 word \<times> 64 word \<Rightarrow> bool" where
  "last_known h index events ba \<longleftrightarrow> events = [] \<and> ba = (initBalance, initBalance) \<or>
     (\<exists>p < length h. events = [p] \<and> GetBalances (h ! p) index = ba)"

lemma known_mark: "p < length h \<Longrightarrow> list_all (\<lambda>e. \<not> te_Unknown e) h \<Longrightarrow> h[p := (h ! p)\<lparr>te_Unknown := False\<rparr>] = h"
  by (rule nth_equalityI) (auto simp: nth_list_update list_all_length)

lemma checkBalance_known:
  assumes "last_known h index events (b, a)" "list_all (\<lambda>e. \<not> te_Unknown e) h"
  shows "checkBalance index h events v = (v = a \<or> v = b, h)"
  using assms by (auto simp: last_known_def checkBalance_def known_mark)

lemma merge_known:
  assumes l: "last_known h index events (b, a)" and k: "list_all (\<lambda>e. \<not> te_Unknown e) h" and e: "e < length h"
  shows "mergeTransferEvents index h events e = (if fst (GetBalances (h ! e) index) = a then Some (h, [e]) else None)"
proof -
  have "\<not> te_Unknown (h ! e)" "\<And>p. p < length h \<Longrightarrow> \<not> te_Unknown (h ! p)" using k e by (auto simp: list_all_length)
  with l show ?thesis
    by (auto simp: mergeTransferEvents_def checkBalance_known [OF l k] checkTransferEvents_def last_known_def
        split: prod.splits)
qed

definition tracks :: "tsoEvent list \<Rightarrow> nat list list \<Rightarrow> (64 word \<times> 64 word) list \<Rightarrow> bool" where
  "tracks h poss acct \<longleftrightarrow> length poss = accountNum \<and> length acct = accountNum \<and>
     (\<forall>i < accountNum. last_known h (int i) (poss ! i) (acct ! i))"

lemma merge_at_known:
  assumes r: "tracks h poss acct" and k: "list_all (\<lambda>e. \<not> te_Unknown e) h" and e: "e < length h" and i: "account index"
  shows "merge_at index poss h e = Some
    (if fst (GetBalances (h ! e) index) = snd (acct ! nat index) then Some (h, poss[nat index := [e]]) else None)"
proof -
  have i': "nat index < accountNum" "index = int (nat index)" "0 \<le> index" using i by (auto simp: account_def)
  with r have "last_known h index (poss ! nat index) (fst (acct ! nat index), snd (acct ! nat index))"
    unfolding tracks_def by (metis prod.collapse)
  from merge_known [OF this k e] i' r show ?thesis by (auto simp: merge_at_def tracks_def)
qed

lemma tracks_update:
  assumes "tracks h poss acct" "e < length h" "account index"
  shows "tracks h (poss[nat index := [e]]) (acct[nat index := GetBalances (h ! e) index])"
proof -
  have "last_known h index [e] (GetBalances (h ! e) index)" using assms(2) by (auto simp: last_known_def)
  with assms(1,3) show ?thesis by (auto simp: tracks_def account_def nth_list_update)
qed

lemma verifyRead_known:
  assumes r: "tracks h poss acct" and k: "list_all (\<lambda>e. \<not> te_Unknown e) h"
  shows "i + length bs \<le> accountNum \<Longrightarrow> verifyRead_loop poss h i bs s = Some
    (if list_all (\<lambda>(b, before, after). b = after \<or> b = before) (zip bs (drop i acct)) then Some (s + sum_list bs) else None, h)"
proof (induction bs arbitrary: i s)
  case (Cons b bs)
  then have i: "i < accountNum" by simp
  with r have l: "last_known h (int i) (poss ! i) (fst (acct ! i), snd (acct ! i))" by (simp add: tracks_def)
  have d: "drop i acct = acct ! i # drop (Suc i) acct" using i r by (simp add: tracks_def Cons_nth_drop_Suc)
  from Cons.IH [of "Suc i" "s + b"] Cons.prems i r show ?case
    by (auto simp: checkBalance_known [OF l k] d tracks_def add.assoc split: prod.splits)
qed simp

lemma verifyTso_known:
  assumes k: "list_all (\<lambda>e. \<not> te_Unknown e) h" and p: "list_all proper_event h"
  shows "tracks h poss acct \<Longrightarrow> n + m = length h \<Longrightarrow>
    verifyTso_loop poss h [n..<length h] = Some (replay acct (drop n h))"
proof (induction m arbitrary: n poss acct)
  case (Suc m)
  let ?e = "h ! n"
  have n: "n < length h" using Suc.prems(2) by simp
  then have split: "[n..<length h] = n # [Suc n..<length h]" "drop n h = ?e # drop (Suc n) h"
    by (simp_all add: upt_conv_Cons Cons_nth_drop_Suc)
  have e: "\<not> te_Unknown ?e" "proper_event ?e" using k p n by (auto simp: list_all_length)
  note IH = Suc.IH [of _ _ "Suc n"]
  have m: "Suc n + m = length h" using Suc.prems(2) by simp
  consider (read) "te_Op ?e = 0" | (transfer) "te_Op ?e = 1" | (other) "te_Op ?e \<noteq> 0" "te_Op ?e \<noteq> 1" by blast
  then show ?case
  proof cases
    case read
    with e(2) have "length (te_Balances ?e) \<le> accountNum" by (simp add: proper_event_def)
    then have "verifyRead_loop poss h 0 (te_Balances ?e) 0 = Some
      (if list_all (\<lambda>(b, before, after). b = after \<or> b = before) (zip (te_Balances ?e) acct) then Some (sum_list (te_Balances ?e)) else None, h)"
      using verifyRead_known [OF Suc.prems(1) k, of 0] by simp
    then show ?thesis using read e(1) IH [OF Suc.prems(1) m]
      by (auto simp: split verifyReadEvent_def replay_step_def)
  next
    case transfer
    let ?f = "te_From ?e" and ?t = "te_To ?e"
    have ft: "account ?f" "account ?t" "?f \<noteq> ?t" "nat ?f \<noteq> nat ?t" using e(2) transfer by (auto simp: proper_event_def account_def)
    have r1: "tracks h (poss[nat ?f := [n]]) (acct[nat ?f := GetBalances ?e ?f])"
      by (rule tracks_update [OF Suc.prems(1) n ft(1)])
    have r2: "tracks h (poss[nat ?f := [n], nat ?t := [n]]) (acct[nat ?f := GetBalances ?e ?f, nat ?t := GetBalances ?e ?t])"
      by (rule tracks_update [OF r1 n ft(2)])
    show ?thesis using transfer ft(3,4) IH [OF r2 m]
      by (auto simp: split merge_at_known [OF Suc.prems(1) k n ft(1)] merge_at_known [OF r1 k n ft(2)] replay_step_def GetBalances_def Let_def)
  next
    case other
    then show ?thesis using IH [OF Suc.prems(1) m] by (simp add: split replay_step_def)
  qed
qed simp

text \<open>C15. On a history without unknown responses the timestamp checker decides the following: in
  the order of the timestamps every transfer reads, on both of its accounts, the balance that the
  last transfer on that account left, or 1000 if there is none; every read returns for each account
  the balance after or before the last transfer on it; and the balances of a read add up to 1000 for
  each of them. The checker does not panic. It is assumed that a read returns at most five balances
  and that a transfer is between two different accounts of the bank.\<close>

theorem tso_checker_exact:
  assumes "list_all (\<lambda>e. \<not> te_Unknown e) h" "list_all proper_event h"
  shows "verifyTsoEvents h = Some (replay (replicate accountNum (initBalance, initBalance)) h)"
  unfolding verifyTsoEvents_def
  using verifyTso_known [OF assms, of "replicate accountNum []" "replicate accountNum (initBalance, initBalance)" 0 "length h"]
  by (simp add: tracks_def last_known_def)

definition transfer_event :: "64 word \<Rightarrow> int \<Rightarrow> int \<Rightarrow> 64 word \<Rightarrow> 64 word \<Rightarrow> 64 word \<Rightarrow> bool \<Rightarrow> tsoEvent" where
  "transfer_event tso f t fb tb amount u = \<lparr>te_Tso = tso, te_Op = 1, te_From = f, te_To = t, te_FromBalance = fb, te_ToBalance = tb,
     te_Amount = amount, te_Balances = [], te_Unknown = u\<rparr>"

definition read_event :: "64 word \<Rightarrow> 64 word list \<Rightarrow> tsoEvent" where
  "read_event tso bs = \<lparr>te_Tso = tso, te_Op = 0, te_From = 0, te_To = 0, te_FromBalance = 0, te_ToBalance = 0,
     te_Amount = 0, te_Balances = bs, te_Unknown = False\<rparr>"

theorem tso_checker_exact_witness:
  "verifyTsoEvents [transfer_event 1 0 1 1000 1000 5 False, read_event 2 [995, 1005, 1000, 1000, 1000], transfer_event 3 1 2 1005 1000 5 False] = Some True \<and>
   verifyTsoEvents [transfer_event 1 0 1 1000 1000 5 False, transfer_event 2 0 1 1000 1000 5 False] = Some False"
proof -
  let ?h1 = "[transfer_event 1 0 1 1000 1000 5 False, read_event 2 [995, 1005, 1000, 1000, 1000], transfer_event 3 1 2 1005 1000 5 False]"
  let ?h2 = "[transfer_event 1 0 1 1000 1000 5 False, transfer_event 2 0 1 1000 1000 5 False]"
  let ?a = "replicate accountNum (initBalance, initBalance)"
  have "list_all (\<lambda>e. \<not> te_Unknown e) ?h1" "list_all proper_event ?h1" "replay ?a ?h1"
    "list_all (\<lambda>e. \<not> te_Unknown e) ?h2" "list_all proper_event ?h2" "\<not> replay ?a ?h2" by code_simp+
  then show ?thesis using tso_checker_exact [of ?h1] tso_checker_exact [of ?h2] by simp
qed

section \<open>Serial histories with unknown responses\<close>

text \<open>A serial execution in the order of the timestamps: the flag of an event says whether it took
  effect, which a transfer with a known response always did; a read with a known response returns
  the balances.\<close>

definition transfer_effect :: "tsoEvent \<Rightarrow> 64 word list \<Rightarrow> 64 word list" where
  "transfer_effect e bal =
     (let f = nat (te_From e); t = nat (te_To e) in bal[f := bal ! f - te_Amount e, t := bal ! t + te_Amount e])"

fun serial_tso :: "64 word list \<Rightarrow> (tsoEvent \<times> bool) list \<Rightarrow> bool" where
  "serial_tso bal [] = True"
| "serial_tso bal ((e, eff) # es) =
     (if te_Op e = 0 then (te_Unknown e \<or> te_Balances e = bal) \<and> serial_tso bal es
      else if te_Op e = 1
      then proper_event e \<and> te_Amount e \<noteq> 0 \<and> te_FromBalance e = bal ! nat (te_From e) \<and> te_ToBalance e = bal ! nat (te_To e) \<and>
        (eff \<or> te_Unknown e) \<and> serial_tso (if eff then transfer_effect e bal else bal) es
      else serial_tso bal es)"

text \<open>The heap while the checker runs: only flags of transfers that took effect have been cleared.\<close>

definition marked :: "bool list \<Rightarrow> tsoEvent list \<Rightarrow> tsoEvent list \<Rightarrow> bool" where
  "marked eff h h' \<longleftrightarrow> length h' = length h \<and>
     (\<forall>p < length h. h' ! p = h ! p \<or> eff ! p \<and> te_Op (h ! p) = 1 \<and> h' ! p = (h ! p)\<lparr>te_Unknown := False\<rparr>)"

definition moved :: "int \<Rightarrow> tsoEvent list \<Rightarrow> nat \<Rightarrow> bool" where
  "moved i h p \<longleftrightarrow> fst (GetBalances (h ! p) i) \<noteq> snd (GetBalances (h ! p) i)"

text \<open>The balance of account \<open>i\<close> that the event at \<open>p\<close> left.\<close>

definition left_by :: "bool list \<Rightarrow> int \<Rightarrow> tsoEvent list \<Rightarrow> nat \<Rightarrow> 64 word" where
  "left_by eff i h p = (if eff ! p then snd else fst) (GetBalances (h ! p) i)"

text \<open>The slice of an account: every event reads what the one before left, the last one left the
  balance, and of the earlier ones those that took effect have been recognised.\<close>

definition slice_ok :: "bool list \<Rightarrow> int \<Rightarrow> tsoEvent list \<Rightarrow> nat list \<Rightarrow> 64 word \<Rightarrow> bool" where
  "slice_ok eff i h ps b \<longleftrightarrow> (\<forall>p \<in> set ps. p < length h \<and> te_Op (h ! p) = 1 \<and> moved i h p \<and> (eff ! p \<or> te_Unknown (h ! p))) \<and>
     successively (\<lambda>p q. fst (GetBalances (h ! q) i) = left_by eff i h p) ps \<and>
     b = (if ps = [] then initBalance else left_by eff i h (last ps)) \<and>
     (\<forall>p \<in> set (butlast ps). eff ! p \<longrightarrow> \<not> te_Unknown (h ! p))"

lemma GetBalances_mark [simp]: "GetBalances (e\<lparr>te_Unknown := u\<rparr>) i = GetBalances e i"
  by (simp add: GetBalances_def)

lemma marked_refl: "marked eff h h"
  by (simp add: marked_def)

lemma marked_cases:
  assumes "marked eff h h'" "p < length h"
  shows "h' ! p = h ! p \<or> eff ! p \<and> te_Op (h ! p) = 1 \<and> h' ! p = (h ! p)\<lparr>te_Unknown := False\<rparr>"
  using assms by (simp add: marked_def)

lemma marked_GetBalances: "marked eff h h' \<Longrightarrow> p < length h \<Longrightarrow> GetBalances (h' ! p) i = GetBalances (h ! p) i"
  unfolding marked_def by (metis GetBalances_mark)

lemma marked_known: "marked eff h h' \<Longrightarrow> p < length h \<Longrightarrow> \<not> te_Unknown (h ! p) \<Longrightarrow> \<not> te_Unknown (h' ! p)"
  unfolding marked_def by (metis tsoEvent.select_convs(9) tsoEvent.surjective tsoEvent.update_convs(9))

lemma marked_unknown: "marked eff h h' \<Longrightarrow> p < length h \<Longrightarrow> eff ! p \<or> te_Unknown (h ! p) \<Longrightarrow> eff ! p \<or> te_Unknown (h' ! p)"
  unfolding marked_def by metis

lemma marked_trans:
  assumes "marked eff h h'" "marked eff h' h''" shows "marked eff h h''"
proof -
  have l: "length h' = length h" "length h'' = length h" using assms by (simp_all add: marked_def)
  have "h'' ! p = h ! p \<or> eff ! p \<and> te_Op (h ! p) = 1 \<and> h'' ! p = (h ! p)\<lparr>te_Unknown := False\<rparr>" if "p < length h" for p
    using marked_cases [OF assms(1) that] marked_cases [OF assms(2), of p] that l by auto
  with l show ?thesis by (simp add: marked_def)
qed

lemma marked_fields:
  assumes "marked eff h h'" "p < length h"
  shows "te_Op (h' ! p) = te_Op (h ! p)" "te_From (h' ! p) = te_From (h ! p)" "te_To (h' ! p) = te_To (h ! p)"
    "te_Balances (h' ! p) = te_Balances (h ! p)"
  using marked_cases [OF assms] by auto

lemma slice_ok_marked:
  assumes "slice_ok eff i h ps b" "marked eff h h'" shows "slice_ok eff i h' ps b"
proof -
  have l: "\<forall>p \<in> set ps. p < length h" using assms(1) by (simp add: slice_ok_def)
  have "length h' = length h" using assms(2) by (simp add: marked_def)
  moreover have g: "GetBalances (h' ! p) j = GetBalances (h ! p) j" if "p \<in> set ps" for p j
    using marked_GetBalances [OF assms(2)] l that by blast
  moreover have "successively (\<lambda>p q. fst (GetBalances (h' ! q) i) = left_by eff i h' p) ps"
    using assms(1) g unfolding slice_ok_def by (auto simp: left_by_def intro: successively_mono elim!: successively_cong [THEN iffD1, rotated -1])
  moreover have "\<forall>p \<in> set (butlast ps). eff ! p \<longrightarrow> \<not> te_Unknown (h' ! p)"
    using assms(1) l marked_known [OF assms(2)] by (auto simp: slice_ok_def dest: in_set_butlastD)
  ultimately show ?thesis using assms l marked_unknown [OF assms(2)] marked_fields(1) [OF assms(2)]
    by (auto simp: slice_ok_def moved_def left_by_def)
qed

text \<open>Asking for the current balance succeeds and recognises the last event if it took effect.\<close>

lemma checkBalance_serial:
  assumes s: "slice_ok eff i h ps b"
  shows "\<exists>h'. checkBalance i h ps b = (True, h') \<and> marked eff h h' \<and> slice_ok eff i h' ps b \<and>
    (\<forall>p \<in> set ps. eff ! p \<longrightarrow> \<not> te_Unknown (h' ! p))"
proof (cases ps rule: rev_cases)
  case Nil
  with s show ?thesis by (auto simp: checkBalance_def slice_ok_def marked_refl)
next
  case (snoc qs p)
  have p: "p < length h" "te_Op (h ! p) = 1" "moved i h p" "b = left_by eff i h p" and q: "\<forall>q \<in> set qs. q < length h \<and> (eff ! q \<longrightarrow> \<not> te_Unknown (h ! q))"
    using s snoc by (auto simp: slice_ok_def)
  show ?thesis
  proof (cases "eff ! p")
    case True
    let ?h = "h[p := (h ! p)\<lparr>te_Unknown := False\<rparr>]"
    have m: "marked eff h ?h" using True p(1,2) by (simp add: marked_def nth_list_update)
    have "\<forall>q \<in> set ps. eff ! q \<longrightarrow> \<not> te_Unknown (?h ! q)" using p(1) q snoc by (auto simp: nth_list_update)
    then show ?thesis using True p slice_ok_marked [OF s m] m
      by (auto simp: checkBalance_def snoc left_by_def split: prod.splits)
  next
    case False
    then show ?thesis using p q s by (auto simp: checkBalance_def snoc left_by_def moved_def marked_refl Let_def split_beta)
  qed
qed

lemma checkTransfer_serial:
  assumes "\<forall>p \<in> set ps. eff ! p \<or> te_Unknown (h ! p)" "\<forall>p \<in> set (butlast ps). eff ! p \<longrightarrow> \<not> te_Unknown (h ! p)"
    "successively (\<lambda>p q. fst (GetBalances (h ! q) i) = left_by eff i h p) ps"
    "\<forall>l. lastEvent = Some l \<longrightarrow> ps \<noteq> [] \<longrightarrow> fst (GetBalances (h ! hd ps) i) = snd (GetBalances l i)"
  shows "\<exists>k. checkTransfer_loop i h ps n lastEvent lastIndex = Some k \<and> (k = lastIndex \<or> n \<le> k \<and> k < n + length ps)"
  using assms
proof (induction ps arbitrary: n lastEvent lastIndex)
  case (Cons p ps)
  show ?case
  proof (cases "te_Unknown (h ! p)")
    case True
    have "\<exists>k. checkTransfer_loop i h ps (n + 1) lastEvent lastIndex = Some k \<and> (k = lastIndex \<or> n + 1 \<le> k \<and> k < n + 1 + length ps)"
      by (rule Cons.IH) (use Cons.prems True in \<open>auto simp: successively_Cons left_by_def split: if_splits\<close>)
    with True show ?thesis by auto
  next
    case False
    have "\<exists>k. checkTransfer_loop i h ps (n + 1) (Some (h ! p)) n = Some k \<and> (k = n \<or> n + 1 \<le> k \<and> k < n + 1 + length ps)"
      by (rule Cons.IH) (use Cons.prems False in \<open>auto simp: successively_Cons left_by_def split: if_splits\<close>)
    with False Cons.prems(4) show ?thesis by (auto simp: Let_def split: option.split)
  qed
qed simp

lemma successively_drop: "successively P xs \<Longrightarrow> successively P (drop k xs)"
  by (induction xs arbitrary: k) (auto simp: drop_Cons successively_Cons split: nat.split)

lemma merge_serial:
  assumes s: "slice_ok eff i h ps b" and op: "te_Op (h ! e) = 1" and e: "e < length h" "fst (GetBalances (h ! e) i) = b" "moved i h e" "eff ! e \<or> te_Unknown (h ! e)"
  shows "\<exists>h' qs. mergeTransferEvents i h ps e = Some (h', qs) \<and> marked eff h h' \<and> slice_ok eff i h' qs (left_by eff i h e)"
proof -
  obtain h' where h': "checkBalance i h ps b = (True, h')" "marked eff h h'" "slice_ok eff i h' ps b"
    "\<forall>p \<in> set ps. eff ! p \<longrightarrow> \<not> te_Unknown (h' ! p)" using checkBalance_serial [OF s] by blast
  have e': "e < length h'" "fst (GetBalances (h' ! e) i) = b" "moved i h' e" "eff ! e \<or> te_Unknown (h' ! e)"
    "left_by eff i h' e = left_by eff i h e"
    using e h'(2) marked_unknown [OF h'(2) e(1,4)] by (auto simp: moved_def left_by_def marked_GetBalances [OF h'(2) e(1)] marked_def)
  have ok: "slice_ok eff i h' (ps @ [e]) (left_by eff i h e)"
    using h'(3,4) e' op marked_fields(1) [OF h'(2) e(1)] by (cases "ps = []") (auto simp: slice_ok_def successively_append_iff)
  obtain k where k: "checkTransferEvents i h' (ps @ [e]) = Some k" "k \<le> length ps"
    using checkTransfer_serial [of "ps @ [e]" eff h' i None 0 0] ok unfolding checkTransferEvents_def
    by (auto simp: slice_ok_def)
  have "slice_ok eff i h' (drop k (ps @ [e])) (left_by eff i h e)"
    using ok k(2) successively_drop [of _ "ps @ [e]" k]
    by (auto simp: slice_ok_def dest: in_set_dropD)
  then show ?thesis using h'(1,2) k e(2) by (auto simp: mergeTransferEvents_def split: prod.splits)
qed

definition bank_ok :: "bool list \<Rightarrow> tsoEvent list \<Rightarrow> nat list list \<Rightarrow> 64 word list \<Rightarrow> bool" where
  "bank_ok eff h poss bal \<longleftrightarrow> length poss = accountNum \<and> length bal = accountNum \<and>
     (\<forall>i < accountNum. slice_ok eff (int i) h (poss ! i) (bal ! i))"

lemma bank_ok_marked: "bank_ok eff h poss bal \<Longrightarrow> marked eff h h' \<Longrightarrow> bank_ok eff h' poss bal"
  by (auto simp: bank_ok_def intro: slice_ok_marked)

lemma verifyRead_serial:
  "bank_ok eff h poss bal \<Longrightarrow> i + length bs = accountNum \<Longrightarrow> bs = drop i bal \<Longrightarrow>
    \<exists>h'. verifyRead_loop poss h i bs s = Some (Some (s + sum_list bs), h') \<and> marked eff h h'"
proof (induction bs arbitrary: i s h)
  case (Cons b bs)
  have i: "i < accountNum" "i < length bal" "i < length poss" using Cons.prems(1,2) by (auto simp: bank_ok_def)
  with Cons.prems(3) have b: "b = bal ! i" "bs = drop (Suc i) bal" by (metis Cons_nth_drop_Suc list.inject)+
  with i Cons.prems(1) obtain h1 where h1: "checkBalance (int i) h (poss ! i) b = (True, h1)" "marked eff h h1"
    using checkBalance_serial by (auto simp: bank_ok_def) blast
  obtain h2 where "verifyRead_loop poss h1 (Suc i) bs (s + b) = Some (Some (s + b + sum_list bs), h2)" "marked eff h1 h2"
    using Cons.IH [OF bank_ok_marked [OF Cons.prems(1) h1(2)], of "Suc i" "s + b"] Cons.prems(2) b by auto
  with h1 i show ?case using marked_trans [OF h1(2)] by (auto simp: add.assoc)
qed (auto simp: marked_refl)

lemma merge_at_serial:
  assumes ok: "bank_ok eff h poss bal" and i: "account i" and op: "te_Op (h ! e) = 1"
    and e: "e < length h" "fst (GetBalances (h ! e) i) = bal ! nat i" "moved i h e" "eff ! e \<or> te_Unknown (h ! e)"
  shows "\<exists>h' poss'. merge_at i poss h e = Some (Some (h', poss')) \<and> marked eff h h' \<and>
    bank_ok eff h' poss' (bal[nat i := left_by eff i h e])"
proof -
  have i': "nat i < accountNum" "int (nat i) = i" "0 \<le> i" using i by (auto simp: account_def)
  then have "slice_ok eff i h (poss ! nat i) (bal ! nat i)" using ok unfolding bank_ok_def by metis
  from merge_serial [OF this op e] obtain h' qs where m: "mergeTransferEvents i h (poss ! nat i) e = Some (h', qs)"
    "marked eff h h'" "slice_ok eff i h' qs (left_by eff i h e)" by blast
  have "bank_ok eff h' (poss[nat i := qs]) (bal[nat i := left_by eff i h e])"
    using bank_ok_marked [OF ok m(2)] m(3) i' by (auto simp: bank_ok_def nth_list_update)
  with m i' ok show ?thesis by (auto simp: merge_at_def bank_ok_def)
qed

text \<open>Both merges of a transfer.\<close>

lemma transfer_serial:
  assumes ok: "bank_ok eff h poss bal" and n: "n < length h" and op: "te_Op (h ! n) = 1" "proper_event (h ! n)" "te_Amount (h ! n) \<noteq> 0"
    and b: "te_FromBalance (h ! n) = bal ! nat (te_From (h ! n))" "te_ToBalance (h ! n) = bal ! nat (te_To (h ! n))"
    and u: "eff ! n \<or> te_Unknown (h ! n)"
  shows "\<exists>h' poss'. verifyTso_loop poss h (n # ns) = verifyTso_loop poss' h' ns \<and> marked eff h h' \<and>
    bank_ok eff h' poss' (if eff ! n then transfer_effect (h ! n) bal else bal)"
proof -
  let ?e = "h ! n" let ?f = "te_From ?e" and ?t = "te_To ?e"
  have ft: "account ?f" "account ?t" "?f \<noteq> ?t" "nat ?f \<noteq> nat ?t" using op by (auto simp: proper_event_def account_def)
  have mv: "moved i h n" for i using op(3) by (simp add: moved_def GetBalances_def)
  obtain h1 p1 where m1: "merge_at ?f poss h n = Some (Some (h1, p1))" "marked eff h h1"
    "bank_ok eff h1 p1 (bal[nat ?f := left_by eff ?f h n])"
    using merge_at_serial [OF ok ft(1) op(1) n _ mv u] b by (auto simp: GetBalances_def)
  have n1: "n < length h1" using m1(2) n by (simp add: marked_def)
  note g1 = marked_GetBalances [OF m1(2) n] and f1 = marked_fields [OF m1(2) n]
  have l1: "left_by eff ?t h1 n = left_by eff ?t h n" by (simp only: left_by_def g1)
  have "fst (GetBalances (h1 ! n) ?t) = bal[nat ?f := left_by eff ?f h n] ! nat ?t"
    using b ft(3,4) unfolding g1 by (simp add: GetBalances_def)
  moreover have "moved ?t h1 n" using mv by (simp add: moved_def g1)
  ultimately obtain h2 p2 where m2: "merge_at ?t p1 h1 n = Some (Some (h2, p2))" "marked eff h1 h2"
    "bank_ok eff h2 p2 (bal[nat ?f := left_by eff ?f h n, nat ?t := left_by eff ?t h1 n])"
    using merge_at_serial [OF m1(3) ft(2) f1(1) [unfolded op(1)] n1 _ _ marked_unknown [OF m1(2) n u]] by blast
  have "bal[nat ?f := left_by eff ?f h n, nat ?t := left_by eff ?t h1 n] = (if eff ! n then transfer_effect ?e bal else bal)"
    using b ft(3,4) unfolding l1 by (auto simp: left_by_def GetBalances_def transfer_effect_def Let_def)
  with m2(3) have "bank_ok eff h2 p2 (if eff ! n then transfer_effect ?e bal else bal)" by simp
  with m1(1) m2(1) op(1) f1 marked_trans [OF m1(2) m2(2)] show ?thesis by (auto intro!: exI [of _ h2] exI [of _ p2])
qed

lemma sum_transfer_effect:
  assumes "proper_event e" "te_Op e = 1" "length bal = accountNum" shows "sum_list (transfer_effect e bal) = sum_list bal"
proof -
  have "nat (te_From e) < length bal" "nat (te_To e) < length bal" "nat (te_From e) \<noteq> nat (te_To e)"
    using assms by (auto simp: proper_event_def account_def)
  then show ?thesis by (simp add: transfer_effect_def Let_def sum_list_update_word)
qed

lemma verifyTso_serial:
  assumes l: "length eff = length h"
  shows "marked eff h h' \<Longrightarrow> n + m = length h \<Longrightarrow> bank_ok eff h' poss bal \<Longrightarrow>
    sum_list bal = of_nat accountNum * initBalance \<Longrightarrow> serial_tso bal (drop n (zip h eff)) \<Longrightarrow>
    verifyTso_loop poss h' [n..<length h] = Some True"
proof (induction m arbitrary: n h' poss bal)
  case (Suc m)
  let ?e = "h ! n"
  have n: "n < length h" "n < length h'" using Suc.prems(1,2) by (simp_all add: marked_def)
  then have split: "[n..<length h] = n # [Suc n..<length h]" "drop n (zip h eff) = (?e, eff ! n) # drop (Suc n) (zip h eff)"
    using l by (simp_all add: upt_conv_Cons Cons_nth_drop_Suc [symmetric])
  note IH = Suc.IH [of _ "Suc n"]
  have m: "Suc n + m = length h" using Suc.prems(2) by simp
  note f = marked_fields [OF Suc.prems(1) n(1)]
  consider (read) "te_Op ?e = 0" | (transfer) "te_Op ?e = 1" | (other) "te_Op ?e \<noteq> 0" "te_Op ?e \<noteq> 1" by blast
  then show ?case
  proof cases
    case read
    then have h': "h' ! n = ?e" and r: "te_Unknown ?e \<or> te_Balances ?e = bal" and s: "serial_tso bal (drop (Suc n) (zip h eff))"
      using marked_cases [OF Suc.prems(1) n(1)] Suc.prems(5) by (auto simp: split)
    from r obtain h2 where "verifyReadEvent poss h' n = Some (True, h2)" "marked eff h' h2"
    proof
      assume "te_Balances ?e = bal"
      then obtain h2 where "verifyRead_loop poss h' 0 (te_Balances ?e) 0 = Some (Some (sum_list (te_Balances ?e)), h2)" "marked eff h' h2"
        using verifyRead_serial [OF Suc.prems(3), of 0 bal 0] Suc.prems(3) by (auto simp: bank_ok_def)
      moreover have "sum_list (te_Balances ?e) = of_nat (length (te_Balances ?e)) * initBalance"
        using \<open>te_Balances ?e = bal\<close> Suc.prems(3,4) by (simp add: bank_ok_def)
      ultimately show ?thesis using that [of "if te_Unknown ?e then h' else h2"] by (simp add: verifyReadEvent_def h' marked_refl)
    qed (use that [of h'] in \<open>simp add: verifyReadEvent_def h' marked_refl\<close>)
    then show ?thesis using read h' IH [OF marked_trans [OF Suc.prems(1)] m bank_ok_marked [OF Suc.prems(3)] Suc.prems(4) s]
      by (simp add: split)
  next
    case transfer
    have g: "te_Amount (h' ! n) = te_Amount ?e" "te_FromBalance (h' ! n) = te_FromBalance ?e" "te_ToBalance (h' ! n) = te_ToBalance ?e"
      "proper_event (h' ! n) = proper_event ?e" "transfer_effect (h' ! n) bal = transfer_effect ?e bal"
      using marked_cases [OF Suc.prems(1) n(1)] by (auto simp: proper_event_def transfer_effect_def)
    let ?bal = "if eff ! n then transfer_effect ?e bal else bal"
    from transfer Suc.prems(5) have t: "proper_event ?e" "te_Amount ?e \<noteq> 0" "te_FromBalance ?e = bal ! nat (te_From ?e)"
      "te_ToBalance ?e = bal ! nat (te_To ?e)" "eff ! n \<or> te_Unknown ?e" "serial_tso ?bal (drop (Suc n) (zip h eff))"
      by (auto simp: split)
    obtain h2 p2 where v: "verifyTso_loop poss h' (n # [Suc n..<length h]) = verifyTso_loop p2 h2 [Suc n..<length h]"
      "marked eff h' h2" "bank_ok eff h2 p2 ?bal"
      using transfer_serial [OF Suc.prems(3) n(2), unfolded f g, OF transfer t(1-4) marked_unknown [OF Suc.prems(1) n(1) t(5)]]
      by blast
    have "sum_list ?bal = of_nat accountNum * initBalance"
      using sum_transfer_effect [OF t(1) transfer] Suc.prems(3,4) by (simp add: bank_ok_def)
    then show ?thesis unfolding split v(1) by (intro IH [OF marked_trans [OF Suc.prems(1) v(2)] m v(3)] t(6))
  next
    case other
    then show ?thesis using f IH [OF Suc.prems(1) m Suc.prems(3,4)] Suc.prems(5) by (simp add: split)
  qed
qed simp

lemma serial_accepted:
  assumes "length eff = length h" "serial_tso (replicate accountNum initBalance) (zip h eff)"
  shows "verifyTsoEvents h = Some True"
  unfolding verifyTsoEvents_def
  by (rule verifyTso_serial [OF assms(1) marked_refl, of 0 "length h" _ "replicate accountNum initBalance"])
    (use assms(2) in \<open>auto simp: bank_ok_def slice_ok_def sum_list_replicate\<close>)

text \<open>C14. The timestamp checker raises no false alarm on a serial execution: whenever the transactions, in the
  order of their timestamps, ran one after the other on five accounts of 1000, each transfer moving
  a non-zero amount between two accounts whose balances it read, each known read returning the
  balances, and some of the transfers with an unknown response took effect and the others did not,
  the checker accepts, for every choice of which ones did.\<close>

theorem tso_checker_accepts_serial:
  assumes "length eff = length h" "serial_tso (replicate accountNum initBalance) (zip h eff)"
  shows "verifyTsoEvents h = Some True"
  using assms by (rule serial_accepted)

theorem tso_checker_accepts_serial_witness:
  "verifyTsoEvents [transfer_event 1 0 1 1000 1000 5 True, transfer_event 2 0 2 1000 1000 5 True, transfer_event 3 0 1 995 1000 5 False,
     read_event 4 [990, 1005, 1005, 1000, 1000]] = Some True"
  by (rule tso_checker_accepts_serial [of "[False, True, True, False]"]) code_simp+

section \<open>Where the checker errs\<close>

text \<open>A read that misses a transfer which had succeeded before it started is accepted, since the balance
  before the last transfer is: \<open>TestBankVerifyNoLinerizable\<close> expects the opposite in a comment.\<close>

theorem stale_read_accepted:
  "verifyTsoEvents [read_event 1 [1000, 1000, 1000, 1000, 1000], transfer_event 2 0 1 1000 1000 500 False,
     read_event 3 [1000, 1000, 1000, 1000, 1000]] = Some True"
  by code_simp

text \<open>Two concurrent transfers of 5 from account 0, of which the second, by start, read 1000 as well and
  failed on the conflict, reported as unknown. The third starts later and reads 995, which the first one
  left; the checker credits the second one with it, finds two successful transfers from the same
  balance and rejects a history of snapshot isolation.\<close>

theorem failed_transfer_credited:
  "verifyTsoEvents [transfer_event 1 0 1 1000 1000 5 False, transfer_event 2 0 2 1000 1000 5 True,
     transfer_event 3 0 1 995 1005 5 False] = Some False"
  by code_simp

text \<open>\<open>Verify\<close> completes the history first, which replaces the unknown response of a transfer by the no-op
  response without a timestamp; the checker then ignores the transfer and rejects a history of one
  transfer that took effect and one read, although it accepts the same history as recorded.\<close>

definition tso_file :: "bank_record list" where
  "tso_file =
     (let req = (\<lambda>p c. \<lparr>rec_Action = InvokeOperation, rec_Proc = p, rec_Time = None,
                       rec_Data = Inl \<lparr>breq_Op = c, breq_From = 0, breq_To = 1, breq_Amount = 5\<rparr>\<rparr>);
          resp = (\<lambda>a p r. \<lparr>rec_Action = a, rec_Proc = p, rec_Time = None, rec_Data = Inr r\<rparr>)
      in [resp dumpOperation 0 (bank_OnNoopResponse\<lparr>bresp_Balances := [1000, 1000, 1000, 1000, 1000]\<rparr>),
          req 1 1, resp ReturnOperation 1 (bank_OnNoopResponse\<lparr>bresp_Tso := 1, bresp_FromBalance := 1000, bresp_ToBalance := 1000\<rparr>),
          req 2 0, resp ReturnOperation 2 (bank_OnNoopResponse\<lparr>bresp_Tso := 2, bresp_Unknown := False,
                     bresp_Balances := [995, 1005, 1000, 1000, 1000]\<rparr>)])"

definition tso_ops :: "(bankRequest, bankResponse) Operation list" where
  "tso_ops = fst (projr (ReadHistory Some (\<lambda>_. Some \<lparr>nr_Name = [], nr_Ops = []\<rparr>, \<lambda>_. Some []) bank_parser (Some (tso_file, False))))"

theorem unknown_transfer_loses_timestamp:
  "Verify fifo Some (\<lambda>_. Some \<lparr>nr_Name = [], nr_Ops = []\<rparr>, \<lambda>_. Some []) bank_IsUnknown (bankTsoChecker_Check fifo) (Some BankModel) bank_parser (Some (tso_file, False)) = HistoryInvalid"
  "bankTsoChecker_Check fifo (Some BankModel) None tso_ops = Some (Inr True)"
  by code_simp+

end
