(* ===== verification/Bank_Client.thy ===== *)
theory Bank_Client
  imports Bank_Tso Nemesis_Generators
begin

text \<open>
  The clients of the bank workload: \<open>bankClient\<close> (\<open>db/tidb/bank.go\<close>), one table of accounts, and
  \<open>multiBankClient\<close> (\<open>db/tidb/multi_bank.go\<close>), a table for each account. The connection to the database
  is a parameter, one function for every method of \<open>database/sql\<close> that the clients call, with the text of
  the statement and its arguments; an error is its message. What the clients rely on is stated as
  laws of a database that runs one transaction at a time. Under them both clients keep the contract
  of a bank (the locale \<open>bank_client\<close>), and from the contract alone follows that the histories of either
  are accepted by the timestamp checker and are runs of the bank model.
\<close>

section \<open>The connection\<close>

text \<open>The rows of a query are what \<open>Scan\<close> gives for each of them, and whether the iteration ended with an
  error, which only \<open>rows.Err\<close> would tell.\<close>

record 'd Sql =
  sql_Begin :: "'d \<Rightarrow> string option \<times> 'd"
  sql_QueryRow :: "string \<Rightarrow> int list \<Rightarrow> 'd \<Rightarrow> (string + 64 word) \<times> 'd"
  sql_Query :: "string \<Rightarrow> 'd \<Rightarrow> (string + (string + 64 word) list \<times> bool) \<times> 'd"
  sql_Exec :: "string \<Rightarrow> int list \<Rightarrow> 'd \<Rightarrow> string option \<times> 'd"
  sql_Commit :: "'d \<Rightarrow> string option \<times> 'd"
  sql_Rollback :: "'d \<Rightarrow> 'd"
  sql_DbExec :: "string \<Rightarrow> int list \<Rightarrow> 'd \<Rightarrow> string option \<times> 'd"

definition noResponse :: bankResponse where
  "noResponse = \<lparr>bresp_Tso = 0, bresp_Balances = [], bresp_Ok = False, bresp_FromBalance = 0, bresp_ToBalance = 0,
     bresp_Unknown = False, bresp_Error = []\<rparr>"

section \<open>The client of one table\<close>

text \<open>The loop over the rows: the first \<open>Scan\<close> that fails ends it with an error.\<close>

fun scan_rows :: "(string + 64 word) list \<Rightarrow> string + 64 word list" where
  "scan_rows [] = Inr []"
| "scan_rows (Inl err # rows) = Inl err"
| "scan_rows (Inr v # rows) = (case scan_rows rows of Inl err \<Rightarrow> Inl err | Inr balances \<Rightarrow> Inr (v # balances))"

definition bank_invokeRead :: "('d, 'z) Sql_scheme \<Rightarrow> 'd \<Rightarrow> bankResponse \<times> 'd" where
  "bank_invokeRead D d =
     (let (err, d) = sql_Begin D d
      in if err \<noteq> None then (noResponse\<lparr>bresp_Unknown := True\<rparr>, d)
         else (case sql_QueryRow D ''select @@tidb_current_ts'' [] d of
                 (Inl err, d) \<Rightarrow> (noResponse\<lparr>bresp_Unknown := True\<rparr>, sql_Rollback D d)
               | (Inr tso, d) \<Rightarrow>
                   (case sql_Query D ''select balance from accounts'' d of
                      (Inl err, d) \<Rightarrow> (noResponse\<lparr>bresp_Unknown := True, bresp_Error := err\<rparr>, sql_Rollback D d)
                    | (Inr (rows, rows_err), d) \<Rightarrow>
                        (case scan_rows rows of
                           Inl err \<Rightarrow> (noResponse\<lparr>bresp_Unknown := True, bresp_Error := err\<rparr>, sql_Rollback D d)
                         | Inr balances \<Rightarrow> (noResponse\<lparr>bresp_Balances := balances, bresp_Tso := tso\<rparr>, sql_Rollback D d)))))"

text \<open>\<open>fromBalance < arg.Amount\<close> compares signed numbers.\<close>

definition bank_Invoke :: "('d, 'z) Sql_scheme \<Rightarrow> 'd \<Rightarrow> bankRequest \<Rightarrow> bankResponse \<times> 'd" where
  "bank_Invoke D d arg =
     (if breq_Op arg = 0 then bank_invokeRead D d
      else (let (err, d) = sql_Begin D d; failed = (\<lambda>d. (noResponse, sql_Rollback D d))
            in if err \<noteq> None then (noResponse, d)
            else (case sql_QueryRow D ''select @@tidb_current_ts'' [] d of (Inl err, d) \<Rightarrow> failed d | (Inr tso, d) \<Rightarrow>
                 (case sql_QueryRow D ''select balance from accounts where id = ? for update'' [breq_From arg] d of
                    (Inl err, d) \<Rightarrow> failed d | (Inr fromBalance, d) \<Rightarrow>
                 (case sql_QueryRow D ''select balance from accounts where id = ? for update'' [breq_To arg] d of
                    (Inl err, d) \<Rightarrow> failed d | (Inr toBalance, d) \<Rightarrow>
                 if fromBalance <s breq_Amount arg then failed d
                 else (case sql_Exec D ''update accounts set balance = balance - ? where id = ?'' [sint (breq_Amount arg), breq_From arg] d of
                    (Some err, d) \<Rightarrow> failed d | (None, d) \<Rightarrow>
                 (case sql_Exec D ''update accounts set balance = balance + ? where id = ?'' [sint (breq_Amount arg), breq_To arg] d of
                    (Some err, d) \<Rightarrow> failed d | (None, d) \<Rightarrow>
                 (case sql_Commit D d of
                    (Some err, d) \<Rightarrow> (noResponse\<lparr>bresp_Unknown := True, bresp_Tso := tso, bresp_FromBalance := fromBalance,
                                                bresp_ToBalance := toBalance, bresp_Error := err\<rparr>, sql_Rollback D d)
                  | (None, d) \<Rightarrow> (noResponse\<lparr>bresp_Ok := True, bresp_Tso := tso, bresp_FromBalance := fromBalance,
                                           bresp_ToBalance := toBalance\<rparr>, sql_Rollback D d)))))))))"

text \<open>\<open>Int\<close> returns a number that is not negative.\<close>

definition bank_NextRequest :: "'g MathRand \<Rightarrow> 'g \<Rightarrow> (bankRequest \<times> 'g) option" where
  "bank_NextRequest R g =
     (let (i, g) = rand_Int R g; r = \<lparr>breq_Op = i mod 2, breq_From = 0, breq_To = 0, breq_Amount = 0\<rparr>
      in if breq_Op r = 0 then Some (r, g)
         else do {
           (from, g) \<leftarrow> Intn R g (int accountNum);
           (to, g) \<leftarrow> Intn R g (int accountNum);
           let to = (if from = to then (to + 1) mod int accountNum else to);
           Some (r\<lparr>breq_From := from, breq_To := to, breq_Amount := 5\<rparr>, g) })"

definition bank_DumpState :: "('d, 'z) Sql_scheme \<Rightarrow> 'd \<Rightarrow> (string + 64 word list) \<times> 'd" where
  "bank_DumpState D d =
     (case sql_Begin D d of
        (Some err, d) \<Rightarrow> (Inl err, d)
      | (None, d) \<Rightarrow>
          (case sql_Query D ''select balance from accounts'' d of
             (Inl err, d) \<Rightarrow> (Inl err, sql_Rollback D d)
           | (Inr (rows, rows_err), d) \<Rightarrow> (scan_rows rows, sql_Rollback D d)))"

fun insert_loop :: "('d, 'z) Sql_scheme \<Rightarrow> nat \<Rightarrow> nat \<Rightarrow> 'd \<Rightarrow> string option \<times> 'd" where
  "insert_loop D i 0 d = (None, d)"
| "insert_loop D i (Suc n) d =
     (case sql_DbExec D ''insert into accounts values (?, ?)'' [int i, sint initBalance] d of
        (Some err, d) \<Rightarrow> (Some err, d)
      | (None, d) \<Rightarrow> insert_loop D (i + 1) n d)"

text \<open>After the connection has been opened; only the first client creates the table.\<close>

definition bank_SetUp :: "('d, 'z) Sql_scheme \<Rightarrow> nat \<Rightarrow> 'd \<Rightarrow> string option \<times> 'd" where
  "bank_SetUp D idx d =
     (if idx \<noteq> 0 then (None, d)
      else (case sql_DbExec D ''drop table if exists accounts'' [] d of (Some err, d) \<Rightarrow> (Some err, d) | (None, d) \<Rightarrow>
           (case sql_DbExec D ''create table if not exists accounts (id int not null primary key, balance bigint not null)'' [] d of
              (Some err, d) \<Rightarrow> (Some err, d) | (None, d) \<Rightarrow> insert_loop D 0 accountNum d)))"

section \<open>The client of a table for each account\<close>

definition multi_balance :: "int \<Rightarrow> string" where
  "multi_balance i = ''select balance from accounts_'' @ Itoa i"

fun multi_rows :: "('d, 'z) Sql_scheme \<Rightarrow> nat \<Rightarrow> nat \<Rightarrow> 'd \<Rightarrow> (string + 64 word list) \<times> 'd" where
  "multi_rows D i 0 d = (Inr [], d)"
| "multi_rows D i (Suc n) d =
     (case sql_QueryRow D (multi_balance (int i)) [] d of
        (Inl err, d) \<Rightarrow> (Inl err, d)
      | (Inr balance, d) \<Rightarrow>
          (case multi_rows D (i + 1) n d of (Inl err, d) \<Rightarrow> (Inl err, d) | (Inr balances, d) \<Rightarrow> (Inr (balance # balances), d)))"

definition multiBank_invokeRead :: "('d, 'z) Sql_scheme \<Rightarrow> 'd \<Rightarrow> bankResponse \<times> 'd" where
  "multiBank_invokeRead D d =
     (let (err, d) = sql_Begin D d
      in if err \<noteq> None then (noResponse\<lparr>bresp_Unknown := True\<rparr>, d)
         else (case sql_QueryRow D ''select @@tidb_current_ts'' [] d of
                 (Inl err, d) \<Rightarrow> (noResponse\<lparr>bresp_Unknown := True\<rparr>, sql_Rollback D d)
               | (Inr tso, d) \<Rightarrow>
                   (case multi_rows D 0 accountNum d of
                      (Inl err, d) \<Rightarrow> (noResponse\<lparr>bresp_Unknown := True\<rparr>, sql_Rollback D d)
                    | (Inr balances, d) \<Rightarrow> (noResponse\<lparr>bresp_Balances := balances, bresp_Tso := tso\<rparr>, sql_Rollback D d))))"

definition multi_select :: "int \<Rightarrow> string" where
  "multi_select i = ''select balance from accounts_'' @ Itoa i @ '' where id = ? for update''"

definition multi_sub :: "int \<Rightarrow> string" where
  "multi_sub i = ''update accounts_'' @ Itoa i @ '' set balance = balance - ? where id = ?''"

definition multi_add :: "int \<Rightarrow> string" where
  "multi_add i = ''update accounts_'' @ Itoa i @ '' set balance = balance + ? where id = ?''"

definition multiBank_Invoke :: "('d, 'z) Sql_scheme \<Rightarrow> 'd \<Rightarrow> bankRequest \<Rightarrow> bankResponse \<times> 'd" where
  "multiBank_Invoke D d arg =
     (if breq_Op arg = 0 then multiBank_invokeRead D d
      else (let (err, d) = sql_Begin D d; failed = (\<lambda>d. (noResponse, sql_Rollback D d))
            in if err \<noteq> None then (noResponse, d)
            else (case sql_QueryRow D ''select @@tidb_current_ts'' [] d of (Inl err, d) \<Rightarrow> failed d | (Inr tso, d) \<Rightarrow>
                 (case sql_QueryRow D (multi_select (breq_From arg)) [breq_From arg] d of
                    (Inl err, d) \<Rightarrow> failed d | (Inr fromBalance, d) \<Rightarrow>
                 (case sql_QueryRow D (multi_select (breq_To arg)) [breq_To arg] d of
                    (Inl err, d) \<Rightarrow> failed d | (Inr toBalance, d) \<Rightarrow>
                 if fromBalance <s breq_Amount arg then failed d
                 else (case sql_Exec D (multi_sub (breq_From arg)) [sint (breq_Amount arg), breq_From arg] d of
                    (Some err, d) \<Rightarrow> failed d | (None, d) \<Rightarrow>
                 (case sql_Exec D (multi_add (breq_To arg)) [sint (breq_Amount arg), breq_To arg] d of
                    (Some err, d) \<Rightarrow> failed d | (None, d) \<Rightarrow>
                 (case sql_Commit D d of
                    (Some err, d) \<Rightarrow> (noResponse\<lparr>bresp_Unknown := True, bresp_Tso := tso, bresp_FromBalance := fromBalance,
                                                bresp_ToBalance := toBalance\<rparr>, sql_Rollback D d)
                  | (None, d) \<Rightarrow> (noResponse\<lparr>bresp_Ok := True, bresp_Tso := tso, bresp_FromBalance := fromBalance,
                                           bresp_ToBalance := toBalance\<rparr>, sql_Rollback D d)))))))))"

definition multiBank_NextRequest :: "'g MathRand \<Rightarrow> 'g \<Rightarrow> (bankRequest \<times> 'g) option" where
  "multiBank_NextRequest R g =
     (let (i, g) = rand_Int R g; r = \<lparr>breq_Op = i mod 2, breq_From = 0, breq_To = 0, breq_Amount = 0\<rparr>
      in if breq_Op r = 0 then Some (r, g)
         else do {
           (from, g) \<leftarrow> Intn R g (int accountNum);
           (to, g) \<leftarrow> Intn R g (int accountNum);
           let to = (if from = to then (to + 1) mod int accountNum else to);
           Some (r\<lparr>breq_From := from, breq_To := to, breq_Amount := 5\<rparr>, g) })"

definition multiBank_DumpState :: "('d, 'z) Sql_scheme \<Rightarrow> 'd \<Rightarrow> (string + 64 word list) \<times> 'd" where
  "multiBank_DumpState D d =
     (case sql_Begin D d of
        (Some err, d) \<Rightarrow> (Inl err, d)
      | (None, d) \<Rightarrow> (case multi_rows D 0 accountNum d of (res, d) \<Rightarrow> (res, sql_Rollback D d)))"

section \<open>What the clients rely on\<close>

text \<open>Behind a connection: the committed balances, those the open transaction sees, and the last
  timestamp.\<close>

record 'd SqlView = "'d Sql" +
  v_committed :: "'d \<Rightarrow> 64 word list"
  v_view :: "'d \<Rightarrow> 64 word list"
  v_clock :: "'d \<Rightarrow> 64 word"

definition reads_only :: "'d SqlView \<Rightarrow> 'd \<Rightarrow> 'd \<Rightarrow> bool" where
  "reads_only D d d' \<longleftrightarrow> v_committed D d' = v_committed D d \<and> v_view D d' = v_view D d \<and> v_clock D d' = v_clock D d"

definition txn_laws :: "'d SqlView \<Rightarrow> bool" where
  "txn_laws D \<longleftrightarrow>
     (\<forall>d err d'. sql_Begin D d = (err, d') \<longrightarrow> v_committed D d' = v_committed D d \<and> v_clock D d' = v_clock D d \<and>
        (err = None \<longrightarrow> v_view D d' = v_committed D d)) \<and>
     (\<forall>d r d'. sql_QueryRow D ''select @@tidb_current_ts'' [] d = (r, d') \<longrightarrow> v_committed D d' = v_committed D d \<and> v_view D d' = v_view D d \<and>
        (case r of Inl _ \<Rightarrow> v_clock D d' = v_clock D d | Inr tso \<Rightarrow> v_clock D d < tso \<and> v_clock D d' = tso)) \<and>
     (\<forall>d err d'. sql_Commit D d = (err, d') \<longrightarrow> v_clock D d' = v_clock D d \<and>
        (v_committed D d' = v_view D d \<or> err \<noteq> None \<and> v_committed D d' = v_committed D d)) \<and>
     (\<forall>d. v_committed D (sql_Rollback D d) = v_committed D d \<and> v_clock D (sql_Rollback D d) = v_clock D d)"

definition select_law :: "'d SqlView \<Rightarrow> string \<Rightarrow> int list \<Rightarrow> nat \<Rightarrow> bool" where
  "select_law D stmt args i \<longleftrightarrow> (\<forall>d r d'. sql_QueryRow D stmt args d = (r, d') \<longrightarrow> reads_only D d d' \<and>
     (\<forall>v. r = Inr v \<longrightarrow> i < length (v_view D d) \<longrightarrow> v = v_view D d ! i))"

definition update_law :: "'d SqlView \<Rightarrow> string \<Rightarrow> nat \<Rightarrow> (64 word \<Rightarrow> 64 word \<Rightarrow> 64 word) \<Rightarrow> bool" where
  "update_law D stmt i f \<longleftrightarrow> (\<forall>d err d' a. sql_Exec D stmt [sint (a :: 64 word), int i] d = (err, d') \<longrightarrow>
     v_committed D d' = v_committed D d \<and> v_clock D d' = v_clock D d \<and>
     (err = None \<longrightarrow> v_view D d' = (v_view D d)[i := f (v_view D d ! i) a]))"

text \<open>A query for all balances gives them in the order of the accounts, unless the iteration ended early,
  which the law excludes; the theorem \<open>rows_error_ignored\<close> below shows why it has to.\<close>

definition bank_laws :: "'d SqlView \<Rightarrow> bool" where
  "bank_laws D \<longleftrightarrow> txn_laws D \<and>
     (\<forall>d r d'. sql_Query D ''select balance from accounts'' d = (r, d') \<longrightarrow> reads_only D d d' \<and>
        (\<forall>rows e bs. r = Inr (rows, e) \<longrightarrow> scan_rows rows = Inr bs \<longrightarrow> bs = v_view D d)) \<and>
     (\<forall>i < accountNum. select_law D ''select balance from accounts where id = ? for update'' [int i] i \<and>
        update_law D ''update accounts set balance = balance - ? where id = ?'' i (\<lambda>b a. b - a) \<and>
        update_law D ''update accounts set balance = balance + ? where id = ?'' i (\<lambda>b a. b + a))"

definition multi_laws :: "'d SqlView \<Rightarrow> bool" where
  "multi_laws D \<longleftrightarrow> txn_laws D \<and>
     (\<forall>i < accountNum. select_law D (multi_balance (int i)) [] i \<and>
        select_law D (multi_select (int i)) [int i] i \<and>
        update_law D (multi_sub (int i)) i (\<lambda>b a. b - a) \<and> update_law D (multi_add (int i)) i (\<lambda>b a. b + a))"

section \<open>The contract of a bank client\<close>

definition bank_request :: "bankRequest \<Rightarrow> bool" where
  "bank_request r \<longleftrightarrow> breq_Op r = 0 \<or> breq_Op r = 1 \<and> account (breq_From r) \<and> account (breq_To r) \<and> breq_From r \<noteq> breq_To r \<and> breq_Amount r \<noteq> 0"

definition paid :: "bankRequest \<Rightarrow> 64 word list \<Rightarrow> 64 word list" where
  "paid r bal = (let f = nat (breq_From r); t = nat (breq_To r) in bal[f := bal ! f - breq_Amount r, t := bal ! t + breq_Amount r])"

text \<open>What a response means: a known read returns the balances; a transfer that is neither known to have
  succeeded nor unknown had no effect and carries no timestamp; the others report the balances they
  read; and a timestamp is later than those given out before.\<close>

definition bank_outcome :: "64 word list \<Rightarrow> 64 word \<Rightarrow> bankRequest \<Rightarrow> bankResponse \<Rightarrow> 64 word list \<Rightarrow> 64 word \<Rightarrow> bool" where
  "bank_outcome bal clock r resp bal' clock' \<longleftrightarrow> clock \<le> clock' \<and>
     (if breq_Op r = 0
      then bal' = bal \<and> (bresp_Unknown resp \<and> bresp_Tso resp = 0 \<or>
        \<not> bresp_Unknown resp \<and> bresp_Balances resp = bal \<and> clock < bresp_Tso resp \<and> bresp_Tso resp = clock')
      else \<not> bresp_Ok resp \<and> \<not> bresp_Unknown resp \<and> bresp_Tso resp = 0 \<and> bal' = bal \<or>
        clock < bresp_Tso resp \<and> bresp_Tso resp = clock' \<and> bresp_FromBalance resp = bal ! nat (breq_From r) \<and>
        bresp_ToBalance resp = bal ! nat (breq_To r) \<and>
        (bresp_Ok resp \<and> \<not> bresp_Unknown resp \<and> bal' = paid r bal \<or>
         \<not> bresp_Ok resp \<and> bresp_Unknown resp \<and> (bal' = bal \<or> bal' = paid r bal)))"

lemma NextRequest_spec:
  assumes "bank_NextRequest R g = Some (r, g')" "math_rand_laws R"
  shows "bank_request r"
proof -
  obtain i g1 where i: "rand_Int R g = (i, g1)" by force
  obtain x g2 y g3 where x: "Intn R g1 5 = Some (x, g2)" "0 \<le> x" "x < 5" "Intn R g2 5 = Some (y, g3)" "0 \<le> y" "y < 5"
    using math_rand_Intn [OF assms(2), of 5] by (metis zero_less_numeral)
  have "(y + 1) mod 5 \<noteq> y" "0 \<le> (y + 1) mod 5" "(y + 1) mod 5 < 5" using x(5,6) by presburger+
  with assms(1) i x show ?thesis
    by (auto simp: bank_NextRequest_def Let_def bank_request_def account_def accountNum_def split: if_splits)
qed

text \<open>The transfer of either client, with its statements and its response to a failed commit.\<close>

definition transfer_txn :: "'d SqlView \<Rightarrow> (int \<Rightarrow> string) \<Rightarrow> (int \<Rightarrow> string) \<Rightarrow> (int \<Rightarrow> string) \<Rightarrow> (string \<Rightarrow> string) \<Rightarrow> 'd \<Rightarrow> bankRequest \<Rightarrow>
    bankResponse \<times> 'd" where
  "transfer_txn D sel dec inc msg d arg =
     (let (err, d) = sql_Begin D d; failed = (\<lambda>d. (noResponse, sql_Rollback D d))
      in if err \<noteq> None then (noResponse, d)
         else (case sql_QueryRow D ''select @@tidb_current_ts'' [] d of (Inl err, d) \<Rightarrow> failed d | (Inr tso, d) \<Rightarrow>
              (case sql_QueryRow D (sel (breq_From arg)) [breq_From arg] d of (Inl err, d) \<Rightarrow> failed d | (Inr fromBalance, d) \<Rightarrow>
              (case sql_QueryRow D (sel (breq_To arg)) [breq_To arg] d of (Inl err, d) \<Rightarrow> failed d | (Inr toBalance, d) \<Rightarrow>
              if fromBalance <s breq_Amount arg then failed d
              else (case sql_Exec D (dec (breq_From arg)) [sint (breq_Amount arg), breq_From arg] d of (Some err, d) \<Rightarrow> failed d | (None, d) \<Rightarrow>
              (case sql_Exec D (inc (breq_To arg)) [sint (breq_Amount arg), breq_To arg] d of (Some err, d) \<Rightarrow> failed d | (None, d) \<Rightarrow>
              (case sql_Commit D d of
                 (Some err, d) \<Rightarrow> (noResponse\<lparr>bresp_Unknown := True, bresp_Tso := tso, bresp_FromBalance := fromBalance,
                                             bresp_ToBalance := toBalance, bresp_Error := msg err\<rparr>, sql_Rollback D d)
               | (None, d) \<Rightarrow> (noResponse\<lparr>bresp_Ok := True, bresp_Tso := tso, bresp_FromBalance := fromBalance,
                                        bresp_ToBalance := toBalance\<rparr>, sql_Rollback D d))))))))"

lemma txn_lawsD:
  assumes "txn_laws D"
  shows txn_Begin: "sql_Begin D d = (err, d') \<Longrightarrow> v_committed D d' = v_committed D d \<and> v_clock D d' = v_clock D d \<and>
      (err = None \<longrightarrow> v_view D d' = v_committed D d)"
    and txn_tso: "sql_QueryRow D ''select @@tidb_current_ts'' [] d = (r, d') \<Longrightarrow> v_committed D d' = v_committed D d \<and>
      v_view D d' = v_view D d \<and> (case r of Inl _ \<Rightarrow> v_clock D d' = v_clock D d | Inr tso \<Rightarrow> v_clock D d < tso \<and> v_clock D d' = tso)"
    and txn_Commit: "sql_Commit D d = (err, d') \<Longrightarrow> v_clock D d' = v_clock D d \<and>
      (v_committed D d' = v_view D d \<or> err \<noteq> None \<and> v_committed D d' = v_committed D d)"
    and txn_Rollback: "v_committed D (sql_Rollback D d) = v_committed D d" "v_clock D (sql_Rollback D d) = v_clock D d"
  using assms unfolding txn_laws_def by blast+

lemma select_lawD:
  "select_law D stmt args i \<Longrightarrow> sql_QueryRow D stmt args d = (r, d') \<Longrightarrow> reads_only D d d' \<and> (\<forall>v. r = Inr v \<longrightarrow> i < length (v_view D d) \<longrightarrow> v = v_view D d ! i)"
  by (simp add: select_law_def)

lemma update_lawD:
  "update_law D stmt i f \<Longrightarrow> sql_Exec D stmt [sint a, int i] d = (err, d') \<Longrightarrow>
    v_committed D d' = v_committed D d \<and> v_clock D d' = v_clock D d \<and> (err = None \<longrightarrow> v_view D d' = (v_view D d)[i := f (v_view D d ! i) a])"
  by (simp add: update_law_def)

lemma transfer_outcome:
  assumes laws: "txn_laws D" and f: "breq_From arg = int f" "f < accountNum" and t: "breq_To arg = int t" "t < accountNum" and ft: "f \<noteq> t"
    and sel: "select_law D (sel (int f)) [int f] f" "select_law D (sel (int t)) [int t] t"
    and upd: "update_law D (dec (int f)) f (\<lambda>b a. b - a)" "update_law D (inc (int t)) t (\<lambda>b a. b + a)"
    and len: "length (v_committed D d) = accountNum" and op: "breq_Op arg \<noteq> 0"
    and r: "transfer_txn D sel dec inc msg d arg = (resp, d')"
  shows "bank_outcome (v_committed D d) (v_clock D d) arg resp (v_committed D d') (v_clock D d')"
proof -
  note rb = txn_Rollback [OF laws]
  obtain e1 d1 where b: "sql_Begin D d = (e1, d1)" by force
  note b' = txn_Begin [OF laws b]
  show ?thesis
  proof (cases e1)
    case None
    obtain r2 d2 where q: "sql_QueryRow D ''select @@tidb_current_ts'' [] d1 = (r2, d2)" by force
    note q' = txn_tso [OF laws q]
    obtain r3 d3 where s: "sql_QueryRow D (sel (int f)) [int f] d2 = (r3, d3)" by force
    note s' = select_lawD [OF sel(1) s, unfolded reads_only_def]
    obtain r4 d4 where s2: "sql_QueryRow D (sel (int t)) [int t] d3 = (r4, d4)" by force
    note s2' = select_lawD [OF sel(2) s2, unfolded reads_only_def]
    obtain e5 d5 where u: "sql_Exec D (dec (int f)) [sint (breq_Amount arg), int f] d4 = (e5, d5)" by force
    note u' = update_lawD [OF upd(1) u]
    obtain e6 d6 where u2: "sql_Exec D (inc (int t)) [sint (breq_Amount arg), int t] d5 = (e6, d6)" by force
    note u2' = update_lawD [OF upd(2) u2]
    obtain e7 d7 where c: "sql_Commit D d6 = (e7, d7)" by force
    note c' = txn_Commit [OF laws c]
    have keep: "v_committed D x = v_committed D d \<and> v_clock D d \<le> v_clock D x" if "x \<in> {d2, d3, d4, d5, d6}" for x
      using that b' q' s' s2' u' u2' by (auto split: sum.splits)
    consider (failed) x where "resp = noResponse" "d' = sql_Rollback D x" "x \<in> {d2, d3, d4, d5, d6}"
      | (committed) tso fb tb where "r2 = Inr tso" "r3 = Inr fb" "r4 = Inr tb" "e5 = None" "e6 = None" "d' = sql_Rollback D d7"
        "resp = (if e7 = None then noResponse\<lparr>bresp_Ok := True, bresp_Tso := tso, bresp_FromBalance := fb, bresp_ToBalance := tb\<rparr>
                else noResponse\<lparr>bresp_Unknown := True, bresp_Tso := tso, bresp_FromBalance := fb, bresp_ToBalance := tb, bresp_Error := msg (the e7)\<rparr>)"
      using r None by (auto simp: transfer_txn_def b q s s2 u u2 c f(1) t(1) split: sum.splits option.splits if_splits)
    then show ?thesis
    proof cases
      case failed
      with keep [OF failed(3)] rb op show ?thesis by (simp add: bank_outcome_def noResponse_def)
    next
      case committed
      have "v_view D d6 = paid arg (v_committed D d)"
        using committed b' q' s' s2' u' u2' ft None by (simp add: paid_def f(1) t(1))
      moreover have "fb = v_committed D d ! f" "tb = v_committed D d ! t"
        using committed b' q' s' s2' f(2) t(2) len None by auto
      moreover have "v_committed D d6 = v_committed D d" using keep by blast
      moreover have "v_clock D d < tso" "v_clock D d7 = tso" using committed b' q' s' s2' u' u2' c' by auto
      ultimately show ?thesis using committed(6,7) c' rb op f(1) t(1)
        by (cases e7) (auto simp: bank_outcome_def noResponse_def)
    qed
  qed (use r b b' op in \<open>auto simp: transfer_txn_def bank_outcome_def noResponse_def\<close>)
qed

lemma bank_Invoke_transfer:
  "breq_Op arg \<noteq> 0 \<Longrightarrow> bank_Invoke D d arg = transfer_txn D (\<lambda>_. ''select balance from accounts where id = ? for update'')
     (\<lambda>_. ''update accounts set balance = balance - ? where id = ?'') (\<lambda>_. ''update accounts set balance = balance + ? where id = ?'') (\<lambda>err. err) d arg"
  by (simp add: bank_Invoke_def transfer_txn_def)

lemma noResponse_no_error:
  "noResponse\<lparr>bresp_Unknown := True, bresp_Tso := tso, bresp_FromBalance := fb, bresp_ToBalance := tb, bresp_Error := []\<rparr> =
   noResponse\<lparr>bresp_Unknown := True, bresp_Tso := tso, bresp_FromBalance := fb, bresp_ToBalance := tb\<rparr>"
  by (simp add: noResponse_def)

lemma multiBank_Invoke_transfer:
  "breq_Op arg \<noteq> 0 \<Longrightarrow> multiBank_Invoke D d arg = transfer_txn D multi_select multi_sub multi_add (\<lambda>_. []) d arg"
  unfolding multiBank_Invoke_def transfer_txn_def noResponse_no_error by simp

lemma bank_request_transfer:
  assumes "bank_request arg" "breq_Op arg \<noteq> 0"
  obtains f t where "breq_From arg = int f" "f < accountNum" "breq_To arg = int t" "t < accountNum" "f \<noteq> t"
  using assms by (auto simp: bank_request_def account_def) (metis nat_less_iff nonneg_int_cases of_nat_less_iff)

text \<open>A read, given what the statements between the timestamp and the rollback return.\<close>

lemma read_outcome:
  assumes laws: "txn_laws D" and b: "sql_Begin D d = (e1, d1)" and op: "breq_Op arg = 0"
    and fail: "e1 \<noteq> None \<Longrightarrow> bresp_Unknown resp \<and> bresp_Tso resp = 0 \<and> d' = d1"
    and q: "e1 = None \<Longrightarrow> sql_QueryRow D ''select @@tidb_current_ts'' [] d1 = (r2, d2)"
    and rest: "e1 = None \<Longrightarrow> \<exists>d3. d' = sql_Rollback D d3 \<and> reads_only D d2 d3 \<and> (bresp_Unknown resp \<and> bresp_Tso resp = 0 \<or>
      \<not> bresp_Unknown resp \<and> r2 = Inr (bresp_Tso resp) \<and> bresp_Balances resp = v_view D d2)"
  shows "bank_outcome (v_committed D d) (v_clock D d) arg resp (v_committed D d') (v_clock D d')"
proof (cases e1)
  case None
  note b' = txn_Begin [OF laws b] and q' = txn_tso [OF laws q [OF None]]
  from rest [OF None] obtain d3 where "d' = sql_Rollback D d3" "reads_only D d2 d3" "bresp_Unknown resp \<and> bresp_Tso resp = 0 \<or>
      \<not> bresp_Unknown resp \<and> r2 = Inr (bresp_Tso resp) \<and> bresp_Balances resp = v_view D d2" by blast
  then show ?thesis using b' q' op None txn_Rollback [OF laws, of d3]
    by (cases r2) (auto simp: bank_outcome_def reads_only_def)
qed (use fail txn_Begin [OF laws b] op in \<open>auto simp: bank_outcome_def\<close>)

lemma bank_read_outcome:
  assumes laws: "bank_laws D" and op: "breq_Op arg = 0" and r: "bank_invokeRead D d = (resp, d')"
  shows "bank_outcome (v_committed D d) (v_clock D d) arg resp (v_committed D d') (v_clock D d')"
proof -
  have t: "txn_laws D" using laws by (simp add: bank_laws_def)
  obtain e1 d1 r2 d2 r3 d3 where b: "sql_Begin D d = (e1, d1)" and q: "sql_QueryRow D ''select @@tidb_current_ts'' [] d1 = (r2, d2)"
    and a: "sql_Query D ''select balance from accounts'' d2 = (r3, d3)" by (metis surj_pair)
  have a': "reads_only D d2 d3" "\<And>rows e bs. r3 = Inr (rows, e) \<Longrightarrow> scan_rows rows = Inr bs \<Longrightarrow> bs = v_view D d2"
    using laws a unfolding bank_laws_def by blast+
  have "reads_only D d2 d2" by (simp add: reads_only_def)
  then show ?thesis using r a a'
    by (intro read_outcome [OF t b op _ q])
      (auto simp: bank_invokeRead_def b q noResponse_def split: sum.splits prod.splits)
qed

lemma multi_rows_spec:
  assumes "\<forall>i < accountNum. select_law D (multi_balance (int i)) [] i"
  shows "i + n \<le> accountNum \<Longrightarrow> accountNum \<le> length (v_view D d) \<Longrightarrow> multi_rows D i n d = (r, d') \<Longrightarrow>
    reads_only D d d' \<and> (\<forall>bs. r = Inr bs \<longrightarrow> bs = take n (drop i (v_view D d)))"
proof (induction n arbitrary: i d r d')
  case (Suc n)
  obtain r1 d1 where q: "sql_QueryRow D (multi_balance (int i)) [] d = (r1, d1)" by force
  have i: "i < accountNum" "i < length (v_view D d)" using Suc.prems(1,2) by auto
  have "select_law D (multi_balance (int i)) [] i" using assms i(1) by blast
  from select_lawD [OF this q] i(2) have q': "reads_only D d d1" "\<And>v. r1 = Inr v \<Longrightarrow> v = v_view D d ! i" by simp_all
  obtain r2 d2 where m: "multi_rows D (i + 1) n d1 = (r2, d2)" by force
  have "reads_only D d1 d2 \<and> (\<forall>bs. r2 = Inr bs \<longrightarrow> bs = take n (drop (i + 1) (v_view D d1)))"
    using Suc.IH [OF _ _ m] Suc.prems(1,2) q'(1) by (auto simp: reads_only_def)
  moreover have "take (Suc n) (drop i (v_view D d)) = v_view D d ! i # take n (drop (i + 1) (v_view D d))"
    using i(2) by (metis Cons_nth_drop_Suc Suc_eq_plus1 take_Suc_Cons)
  ultimately show ?case using Suc.prems(3) q' m
    by (auto simp: q reads_only_def split: sum.splits)
qed (auto simp: reads_only_def)

lemma multi_read_outcome:
  assumes laws: "multi_laws D" and op: "breq_Op arg = 0" and len: "length (v_committed D d) = accountNum"
    and r: "multiBank_invokeRead D d = (resp, d')"
  shows "bank_outcome (v_committed D d) (v_clock D d) arg resp (v_committed D d') (v_clock D d')"
proof -
  have t: "txn_laws D" using laws by (simp add: multi_laws_def)
  obtain e1 d1 r2 d2 r3 d3 where b: "sql_Begin D d = (e1, d1)" and q: "sql_QueryRow D ''select @@tidb_current_ts'' [] d1 = (r2, d2)"
    and a: "multi_rows D 0 accountNum d2 = (r3, d3)" by (metis surj_pair)
  have a': "reads_only D d2 d3" "\<And>bs. r3 = Inr bs \<Longrightarrow> bs = v_view D d2" if "e1 = None"
  proof -
    have "length (v_view D d2) = accountNum" using txn_Begin [OF t b] txn_tso [OF t q] len that by simp
    with multi_rows_spec [OF _ _ _ a] laws show "reads_only D d2 d3" "\<And>bs. r3 = Inr bs \<Longrightarrow> bs = v_view D d2"
      by (auto simp: multi_laws_def)
  qed
  have "reads_only D d2 d2" by (simp add: reads_only_def)
  then show ?thesis using r a a'
    by (intro read_outcome [OF t b op _ q])
      (auto simp: multiBank_invokeRead_def b q noResponse_def split: sum.splits prod.splits)
qed

text \<open>A history of one request after the other, each by some process, as operations.\<close>

fun run_client :: "('s \<Rightarrow> bankRequest \<Rightarrow> bankResponse \<times> 's) \<Rightarrow> 's \<Rightarrow> (int \<times> bankRequest) list \<Rightarrow> (int \<times> bankRequest \<times> bankResponse) list \<times> 's" where
  "run_client Invoke s [] = ([], s)"
| "run_client Invoke s ((p, r) # prs) =
     (let (resp, s) = Invoke s r; (h, s) = run_client Invoke s prs in ((p, r, resp) # h, s))"

fun ops_of :: "(int \<times> bankRequest \<times> bankResponse) list \<Rightarrow> (bankRequest, bankResponse) Operation list" where
  "ops_of [] = []"
| "ops_of ((p, r, resp) # h) =
     \<lparr>o_Action = InvokeOperation, o_Proc = p, o_Data = Request r, o_Time = None\<rparr> #
     \<lparr>o_Action = ReturnOperation, o_Proc = p, o_Data = Response resp, o_Time = None\<rparr> # ops_of h"

fun events_of :: "nat \<Rightarrow> (int \<times> bankRequest \<times> bankResponse) list \<Rightarrow> (bankRequest, bankResponse) Event list" where
  "events_of i [] = []"
| "events_of i ((p, r, resp) # h) =
     \<lparr>ev_ClientId = p, ev_Kind = CallEvent, ev_Value = Request r, ev_Id = i\<rparr> #
     \<lparr>ev_ClientId = p, ev_Kind = ReturnEvent, ev_Value = Response resp, ev_Id = i\<rparr> # events_of (i + 1) h"

definition tso_of :: "(int \<times> bankRequest \<times> bankResponse) list \<Rightarrow> tsoEvent list" where
  "tso_of h = map (\<lambda>(p, r, resp). new_tsoEvent r resp) (filter (\<lambda>(p, r, resp). bresp_Tso resp \<noteq> 0) h)"

lemma convert_ops_of: "convert_loop (ops_of h) [] i evs = ([], i + length h, evs @ events_of i h)"
  by (induction h arbitrary: i evs rule: ops_of.induct) (auto simp: action_defs)

lemma length_ops_of: "length (ops_of h) = 2 * length h"
  by (induction h rule: ops_of.induct) auto

lemma generate_events_of: "generate_loop (events_of i h) [] tes = Some (tes @ tso_of h)"
  by (induction h arbitrary: i tes rule: ops_of.induct) (auto simp: tso_of_def)

lemma te_Tso_new [simp]: "te_Tso (new_tsoEvent r resp) = bresp_Tso resp"
  by (simp add: new_tsoEvent_def Let_def)

lemma check_ops_of:
  assumes "sorted_wrt (<) (map te_Tso (tso_of h))"
  shows "bankTsoChecker_Check \<rho> m prepared (ops_of h) = map_option Inr (verifyTsoEvents (tso_of h))"
proof -
  have "sorted (map te_Tso (tso_of h))" "inj_on te_Tso (set (tso_of h))"
    using assms by (simp_all add: strict_sorted_iff distinct_map)
  then have "sort_key te_Tso (go_range \<rho> (tso_of h)) = tso_of h" by (intro sort_key_inj_key_eq) simp_all
  then show ?thesis
    by (auto simp: bankTsoChecker_Check_def ConvertOperationsToEvents_def convert_ops_of length_ops_of generateTsoEvents_def
      generate_events_of split: option.split Option.bind_split)
qed

text \<open>The requests that took effect, all but some of the unknown ones, run the bank model.\<close>

definition model_runs :: "64 word list \<Rightarrow> (int \<times> bankRequest \<times> bankResponse) list \<Rightarrow> bool list \<Rightarrow> 64 word list \<Rightarrow> bool" where
  "model_runs bal h eff bal' \<longleftrightarrow> list_all2 (\<lambda>(p, r, resp) e. e \<or> bresp_Unknown resp) h eff \<and>
     exec_model bank_Step bal (map (\<lambda>((p, r, resp), e). (r, resp)) (filter snd (zip h eff))) = Some bal'"

lemma bank_outcome_model:
  assumes "bank_outcome bal c r resp bal' c'" "bank_request r" "length bal = accountNum"
  shows "bank_Step bal r resp = Some (True, bal') \<or> bresp_Unknown resp \<and> bal' = bal"
proof (cases "breq_Op r = 0")
  case False
  then obtain f t where ft: "breq_From r = int f" "f < accountNum" "breq_To r = int t" "t < accountNum" "f \<noteq> t"
    using bank_request_transfer [OF assms(2)] by metis
  with False assms(1,3) show ?thesis
    by (auto simp: bank_outcome_def bank_Step_def update_at_def paid_def)
qed (use assms(1) in \<open>auto simp: bank_outcome_def bank_Step_def\<close>)

lemma bank_outcome_serial:
  assumes "bank_outcome bal c r resp bal' c'" "bank_request r" "bresp_Tso resp \<noteq> 0" "serial_tso bal' (zip tes eff)"
  shows "\<exists>e. serial_tso bal (zip (new_tsoEvent r resp # tes) (e # eff))"
proof (cases "breq_Op r = 0")
  case False
  with assms have "bresp_FromBalance resp = bal ! nat (breq_From r)" "bresp_ToBalance resp = bal ! nat (breq_To r)"
    "bal' = paid r bal \<or> bresp_Unknown resp \<and> bal' = bal" by (auto simp: bank_outcome_def)
  with False assms(2,4) show ?thesis
    by (intro exI [of _ "bal' = paid r bal"])
      (auto simp: new_tsoEvent_def Let_def bank_request_def proper_event_def transfer_effect_def paid_def)
qed (use assms in \<open>auto simp: bank_outcome_def new_tsoEvent_def\<close>)

locale bank_client =
  fixes Invoke :: "'s \<Rightarrow> bankRequest \<Rightarrow> bankResponse \<times> 's" and ok :: "'s \<Rightarrow> bool"
    and committed :: "'s \<Rightarrow> 64 word list" and clock :: "'s \<Rightarrow> 64 word"
  assumes accounts: "ok s \<Longrightarrow> length (committed s) = accountNum"
    and outcome: "ok s \<Longrightarrow> bank_request r \<Longrightarrow> Invoke s r = (resp, s') \<Longrightarrow>
      ok s' \<and> bank_outcome (committed s) (clock s) r resp (committed s') (clock s')"
begin

lemma run_model:
  "ok s \<Longrightarrow> \<forall>(p, r) \<in> set prs. bank_request r \<Longrightarrow> run_client Invoke s prs = (h, s') \<Longrightarrow> \<exists>eff. model_runs (committed s) h eff (committed s')"
proof (induction prs arbitrary: s h)
  case (Cons pr prs)
  obtain p r where pr: "pr = (p, r)" by force
  obtain resp s1 h1 where i: "Invoke s r = (resp, s1)" and h: "h = (p, r, resp) # h1" "run_client Invoke s1 prs = (h1, s')"
    using Cons.prems(3) by (auto simp: pr split: prod.splits)
  have o: "ok s1" "bank_outcome (committed s) (clock s) r resp (committed s1) (clock s1)" "bank_request r"
    using outcome [OF Cons.prems(1) _ i] Cons.prems(2) by (auto simp: pr)
  from Cons.IH [OF o(1) _ h(2)] Cons.prems(2) obtain eff where e: "model_runs (committed s1) h1 eff (committed s')" by auto
  from bank_outcome_model [OF o(2,3) accounts [OF Cons.prems(1)]] show ?case
  proof
    assume "bank_Step (committed s) r resp = Some (True, committed s1)"
    with e show ?thesis by (intro exI [of _ "True # eff"]) (simp add: model_runs_def h(1))
  next
    assume "bresp_Unknown resp \<and> committed s1 = committed s"
    with e show ?thesis by (intro exI [of _ "False # eff"]) (simp add: model_runs_def h(1))
  qed
qed (auto simp: model_runs_def)

lemma run_serial:
  "ok s \<Longrightarrow> \<forall>(p, r) \<in> set prs. bank_request r \<Longrightarrow> run_client Invoke s prs = (h, s') \<Longrightarrow>
    (\<exists>eff. length eff = length (tso_of h) \<and> serial_tso (committed s) (zip (tso_of h) eff)) \<and>
    sorted_wrt (<) (map te_Tso (tso_of h)) \<and> (\<forall>e \<in> set (tso_of h). clock s < te_Tso e)"
proof (induction prs arbitrary: s h)
  case (Cons pr prs)
  obtain p r where pr: "pr = (p, r)" by force
  obtain resp s1 h1 where i: "Invoke s r = (resp, s1)" and h: "h = (p, r, resp) # h1" "run_client Invoke s1 prs = (h1, s')"
    using Cons.prems(3) by (auto simp: pr split: prod.splits)
  have o: "ok s1" "bank_outcome (committed s) (clock s) r resp (committed s1) (clock s1)" "bank_request r"
    using outcome [OF Cons.prems(1) _ i] Cons.prems(2) by (auto simp: pr)
  from Cons.IH [OF o(1) _ h(2)] Cons.prems(2) obtain eff where e: "length eff = length (tso_of h1)"
    "serial_tso (committed s1) (zip (tso_of h1) eff)" "sorted_wrt (<) (map te_Tso (tso_of h1))" "\<forall>e \<in> set (tso_of h1). clock s1 < te_Tso e" by auto
  have c: "clock s \<le> clock s1" using o(2) by (simp add: bank_outcome_def)
  show ?case
  proof (cases "bresp_Tso resp = 0")
    case True
    then have "committed s1 = committed s" using o(2) by (auto simp: bank_outcome_def split: if_splits)
    moreover have "tso_of h = tso_of h1" using True by (simp add: tso_of_def h(1))
    ultimately show ?thesis using e c by auto
  next
    case False
    from bank_outcome_serial [OF o(2,3) False e(2)] obtain x
      where "serial_tso (committed s) (zip (new_tsoEvent r resp # tso_of h1) (x # eff))" by blast
    moreover have "clock s < bresp_Tso resp" "bresp_Tso resp = clock s1" using o(2) False by (auto simp: bank_outcome_def split: if_splits)
    moreover have "tso_of h = new_tsoEvent r resp # tso_of h1" using False by (simp add: tso_of_def h(1))
    ultimately show ?thesis using e c by (auto intro!: exI [of _ "x # eff"] less_imp_le)
  qed
qed (simp add: tso_of_def)

lemma history_accepted:
  assumes "ok s" "\<forall>(p, r) \<in> set prs. bank_request r" "run_client Invoke s prs = (h, s')" "committed s = replicate accountNum initBalance"
  shows "bankTsoChecker_Check \<rho> m prepared (ops_of h) = Some (Inr True) \<and> (\<exists>eff. model_runs (committed s) h eff (committed s'))"
proof -
  note r = run_serial [OF assms(1-3)]
  then obtain eff where "length eff = length (tso_of h)" "serial_tso (replicate accountNum initBalance) (zip (tso_of h) eff)"
    unfolding assms(4) by blast
  then have "verifyTsoEvents (tso_of h) = Some True" by (rule serial_accepted)
  with r run_model [OF assms(1-3)] show ?thesis by (simp add: check_ops_of)
qed

end

definition bank_ready :: "('d SqlView \<Rightarrow> bool) \<Rightarrow> 'd SqlView \<times> 'd \<Rightarrow> bool" where
  "bank_ready laws s \<longleftrightarrow> laws (fst s) \<and> length (v_committed (fst s) (snd s)) = accountNum"

lemma bank_outcome_length: "bank_outcome bal c r resp bal' c' \<Longrightarrow> length bal' = length bal"
  by (auto simp: bank_outcome_def paid_def Let_def split: if_splits)

interpretation bankClient: bank_client "\<lambda>(D, d) r. case bank_Invoke D d r of (resp, d') \<Rightarrow> (resp, (D, d'))" "bank_ready bank_laws"
    "\<lambda>(D, d). v_committed D d" "\<lambda>(D, d). v_clock D d"
proof (unfold_locales, goal_cases)
  case (2 s r resp s')
  obtain D d d' where s: "s = (D, d)" "s' = (D, d')" "bank_Invoke D d r = (resp, d')" using 2(3) by (cases s) (auto split: prod.splits)
  have "bank_outcome (v_committed D d) (v_clock D d) r resp (v_committed D d') (v_clock D d')"
  proof (cases "breq_Op r = 0")
    case False
    obtain f t where ft: "breq_From r = int f" "f < accountNum" "breq_To r = int t" "t < accountNum" "f \<noteq> t"
      using bank_request_transfer [OF 2(2) False] by metis
    show ?thesis using 2(1) ft(2,4) s(3) unfolding bank_Invoke_transfer [OF False]
      by (intro transfer_outcome [OF _ ft(1,2,3,4,5) _ _ _ _ _ False]) (auto simp: bank_ready_def bank_laws_def s(1))
  qed (use bank_read_outcome [of D r d resp d'] 2(1) s in \<open>auto simp: bank_ready_def bank_Invoke_def\<close>)
  with 2(1) bank_outcome_length [OF this] show ?case by (simp add: s bank_ready_def)
qed (auto simp: bank_ready_def)

interpretation multiBankClient: bank_client "\<lambda>(D, d) r. case multiBank_Invoke D d r of (resp, d') \<Rightarrow> (resp, (D, d'))" "bank_ready multi_laws"
    "\<lambda>(D, d). v_committed D d" "\<lambda>(D, d). v_clock D d"
proof (unfold_locales, goal_cases)
  case (2 s r resp s')
  obtain D d d' where s: "s = (D, d)" "s' = (D, d')" "multiBank_Invoke D d r = (resp, d')" using 2(3) by (cases s) (auto split: prod.splits)
  have "bank_outcome (v_committed D d) (v_clock D d) r resp (v_committed D d') (v_clock D d')"
  proof (cases "breq_Op r = 0")
    case False
    obtain f t where ft: "breq_From r = int f" "f < accountNum" "breq_To r = int t" "t < accountNum" "f \<noteq> t"
      using bank_request_transfer [OF 2(2) False] by metis
    show ?thesis using 2(1) ft(2,4) s(3) unfolding multiBank_Invoke_transfer [OF False]
      by (intro transfer_outcome [OF _ ft(1,2,3,4,5) _ _ _ _ _ False]) (auto simp: bank_ready_def multi_laws_def s(1))
  qed (use multi_read_outcome [of D r d resp d'] 2(1) s in \<open>auto simp: bank_ready_def multiBank_Invoke_def\<close>)
  with 2(1) bank_outcome_length [OF this] show ?case by (simp add: s bank_ready_def)
qed (auto simp: bank_ready_def)

lemma run_client_pair:
  "run_client (\<lambda>(D, d) r. case Inv D d r of (resp, d') \<Rightarrow> (resp, (D, d'))) (D, d) prs =
     (case run_client (Inv D) d prs of (h, d') \<Rightarrow> (h, (D, d')))"
  by (induction prs arbitrary: d) (auto split: prod.splits)

lemma multiBank_NextRequest_same: "multiBank_NextRequest R g = bank_NextRequest R g"
  by (simp add: multiBank_NextRequest_def bank_NextRequest_def)

text \<open>C13. Both bank clients, run against a database that executes one transaction at a time, produce
  histories that the bank checkers accept. Whatever requests \<open>NextRequest\<close> chooses and whichever statements or
  commits fail, the operations that the client reports for them pass the timestamp checker, and the
  requests, without some of those whose response is unknown, are a run of the bank model from the
  balances before to the balances after. It is assumed that the accounts start with 1000 each, that a
  statement that succeeds does what it says, that a failed commit either took effect or did not, that
  timestamps increase, and that the rows of a read arrive complete and in the order of the accounts.\<close>

theorem bank_clients_accepted:
  assumes "math_rand_laws R" "\<forall>(p, r) \<in> set prs. \<exists>g g'. bank_NextRequest R g = Some (r, g') \<or> multiBank_NextRequest R g = Some (r, g')"
    and "bank_laws D \<and> Inv = bank_Invoke D \<or> multi_laws D \<and> Inv = multiBank_Invoke D"
    and "v_committed D d = replicate accountNum initBalance"
    and "run_client Inv d prs = (h, d')"
  shows "bankTsoChecker_Check \<rho> m prepared (ops_of h) = Some (Inr True) \<and> (\<exists>eff. model_runs (v_committed D d) h eff (v_committed D d'))"
proof -
  have r: "\<forall>(p, r) \<in> set prs. bank_request r" using assms(1,2) NextRequest_spec by (fastforce simp: multiBank_NextRequest_same)
  from assms(3) show ?thesis
  proof
    assume a: "bank_laws D \<and> Inv = bank_Invoke D"
    then show ?thesis using bankClient.history_accepted [of "(D, d)" prs h "(D, d')"] r assms(4,5)
      by (simp add: bank_ready_def run_client_pair [of bank_Invoke])
  next
    assume a: "multi_laws D \<and> Inv = multiBank_Invoke D"
    then show ?thesis using multiBankClient.history_accepted [of "(D, d)" prs h "(D, d')"] r assms(4,5)
      by (simp add: bank_ready_def run_client_pair [of multiBank_Invoke])
  qed
qed

text \<open>A database in memory with both layouts; the last component says what the next commits do: whether
  they take effect and which error they return.\<close>

type_synonym mem_db = "64 word list \<times> 64 word list \<times> 64 word \<times> (bool \<times> string option) list"

definition mem_QueryRow :: "string \<Rightarrow> int list \<Rightarrow> mem_db \<Rightarrow> (string + 64 word) \<times> mem_db" where
  "mem_QueryRow stmt args d = (case d of (c, v, t, os) \<Rightarrow>
     if stmt = ''select @@tidb_current_ts''
     then (if t = - 1 then (Inl ''exhausted'', d) else (Inr (t + 1), (c, v, t + 1, os)))
     else (case args of
             [i] \<Rightarrow> if stmt = ''select balance from accounts where id = ? for update'' \<or> stmt = multi_select i then (Inr (v ! nat i), d) else (Inl ''syntax'', d)
           | [] \<Rightarrow> (case List.find (\<lambda>i. stmt = multi_balance (int i)) [0..<accountNum] of Some i \<Rightarrow> (Inr (v ! i), d) | None \<Rightarrow> (Inl ''syntax'', d))
           | _ \<Rightarrow> (Inl ''syntax'', d)))"

definition mem_Exec :: "string \<Rightarrow> int list \<Rightarrow> mem_db \<Rightarrow> string option \<times> mem_db" where
  "mem_Exec stmt args d = (case (d, args) of ((c, v, t, os), [a, i]) \<Rightarrow>
     if stmt = ''update accounts set balance = balance - ? where id = ?'' \<or> stmt = multi_sub i then (None, (c, v[nat i := v ! nat i - of_int a], t, os))
     else if stmt = ''update accounts set balance = balance + ? where id = ?'' \<or> stmt = multi_add i then (None, (c, v[nat i := v ! nat i + of_int a], t, os))
     else (Some ''syntax'', d) | _ \<Rightarrow> (Some ''syntax'', d))"

definition mem :: "mem_db SqlView" where
  "mem = \<lparr>sql_Begin = (\<lambda>(c, v, t, os). (None, (c, c, t, os))), sql_QueryRow = mem_QueryRow,
     sql_Query = (\<lambda>stmt (c, v, t, os). (Inr (map Inr v, False), (c, v, t, os))), sql_Exec = mem_Exec,
     sql_Commit = (\<lambda>(c, v, t, os). case os of [] \<Rightarrow> (None, (v, v, t, [])) | (eff, err) # os \<Rightarrow>
       if err = None then (None, (v, v, t, os)) else (err, (if eff then v else c, v, t, os))),
     sql_Rollback = (\<lambda>(c, v, t, os). (c, c, t, os)), sql_DbExec = (\<lambda>_ _ d. (None, d)),
     v_committed = (\<lambda>(c, v, t, os). c), v_view = (\<lambda>(c, v, t, os). v), v_clock = (\<lambda>(c, v, t, os). t)\<rparr>"

lemma mem_txn: "txn_laws mem"
proof -
  have "t < t + 1" if "t \<noteq> - 1" for t :: "64 word" 
    using unatSuc [of t] that by (simp add: word_less_nat_alt add.commute eq_neg_iff_add_eq_0)
  then show ?thesis by (auto simp: txn_laws_def mem_def mem_QueryRow_def split: list.splits if_splits)
qed

lemma scan_rows_Inr: "scan_rows (map Inr vs) = Inr vs"
  by (induction vs) auto

lemma mem_bank: "bank_laws mem"
  using mem_txn by (auto simp: bank_laws_def select_law_def update_law_def reads_only_def mem_def mem_QueryRow_def mem_Exec_def
      scan_rows_Inr multi_sub_def split: if_splits)

lemma mem_multi: "multi_laws mem"
proof -
  have i: "i \<in> {0, 1, 2, 3, 4}" if "i < accountNum" for i using that by (auto simp: accountNum_def)
  have f: "List.find (\<lambda>j. multi_balance (int i) = multi_balance (int j)) [0..<accountNum] = Some i" if "i < accountNum" for i
    using i [OF that] by (elim insertE emptyE) (hypsubst, code_simp)+
  have "multi_balance (int i) \<noteq> ''select @@tidb_current_ts''" "multi_select (int i) \<noteq> ''select @@tidb_current_ts''"
    "multi_sub (int i) \<noteq> ''update accounts set balance = balance + ? where id = ?''"
    "multi_add (int i) \<noteq> ''update accounts set balance = balance - ? where id = ?''" "multi_add (int i) \<noteq> multi_sub (int i)" if "i < accountNum" for i
    using i [OF that] by (elim insertE emptyE; hypsubst; code_simp)+
  with f mem_txn show ?thesis by (auto simp: multi_laws_def select_law_def update_law_def reads_only_def mem_def mem_QueryRow_def mem_Exec_def
      split: if_splits)
qed

text \<open>Two transfers, the commit of the second one fails although it took effect, and a read.\<close>

definition mem_requests :: "(int \<times> bankRequest) list" where
  "mem_requests = [(1, \<lparr>breq_Op = 1, breq_From = 0, breq_To = 1, breq_Amount = 5\<rparr>), (1, \<lparr>breq_Op = 1, breq_From = 1, breq_To = 2, breq_Amount = 5\<rparr>),
     (2, \<lparr>breq_Op = 0, breq_From = 0, breq_To = 0, breq_Amount = 0\<rparr>)]"

definition mem_start :: mem_db where
  "mem_start = (replicate accountNum initBalance, [], 0, [(True, None), (True, Some ''timeout'')])"

definition seq_rand :: "nat list MathRand" where
  "seq_rand = \<lparr>Int63nRange = (\<lambda>g lo hi. None), Intn = (\<lambda>g n. Some (int (if g = [] then 0 else hd g) mod n, tl g)),
     rand_Int = (\<lambda>g. (int (if g = [] then 0 else hd g), tl g))\<rparr>"

theorem bank_clients_accepted_witness:
  "bankTsoChecker_Check fifo None None (ops_of (fst (run_client (bank_Invoke mem) mem_start mem_requests))) = Some (Inr True) \<and>
   (\<exists>eff. model_runs (replicate accountNum initBalance) (fst (run_client (bank_Invoke mem) mem_start mem_requests)) eff [995, 1000, 1005, 1000, 1000])"
proof -
  let ?run = "run_client (bank_Invoke mem) mem_start mem_requests"
  have R: "math_rand_laws seq_rand" by (simp add: math_rand_laws_def seq_rand_def)
  have "map (\<lambda>g. map_option fst (bank_NextRequest seq_rand g)) [[1, 0, 1], [1, 1, 2], [0]] = map (\<lambda>(p, r). Some r) mem_requests"
    by code_simp
  then have n: "\<forall>(p, r) \<in> set mem_requests. \<exists>g g'. bank_NextRequest seq_rand g = Some (r, g') \<or> multiBank_NextRequest seq_rand g = Some (r, g')"
    by (auto simp: mem_requests_def)
  have d: "v_committed mem mem_start = replicate accountNum initBalance" by (simp add: mem_def mem_start_def)
  have r: "?run = (fst ?run, snd ?run)" by simp
  have e: "v_committed mem (snd ?run) = [995, 1000, 1005, 1000, 1000]" by code_simp
  show ?thesis
    using bank_clients_accepted [OF R n _ d r, of fifo None None] mem_bank by (simp add: d e)
qed

section \<open>Setting up, dumping and incomplete reads\<close>

text \<open>What the statements of \<open>SetUp\<close> do when they succeed.\<close>

definition setup_laws :: "'d SqlView \<Rightarrow> bool" where
  "setup_laws D \<longleftrightarrow>
     (\<forall>d d'. sql_DbExec D ''drop table if exists accounts'' [] d = (None, d') \<longrightarrow> v_committed D d' = []) \<and>
     (\<forall>d d'. sql_DbExec D ''create table if not exists accounts (id int not null primary key, balance bigint not null)'' [] d = (None, d') \<longrightarrow>
        v_committed D d' = v_committed D d) \<and>
     (\<forall>d d' b. sql_DbExec D ''insert into accounts values (?, ?)'' [int (length (v_committed D d)), sint (b :: 64 word)] d = (None, d') \<longrightarrow>
        v_committed D d' = v_committed D d @ [b])"

lemma insert_loop_spec:
  assumes "setup_laws D"
  shows "length (v_committed D d) = i \<Longrightarrow> insert_loop D i n d = (None, d') \<Longrightarrow> v_committed D d' = v_committed D d @ replicate n initBalance"
proof (induction n arbitrary: i d)
  case (Suc n)
  from Suc.prems(2) obtain d1 where d1: "sql_DbExec D ''insert into accounts values (?, ?)'' [int i, sint initBalance] d = (None, d1)"
    "insert_loop D (i + 1) n d1 = (None, d')" by (auto split: prod.splits option.splits)
  then have "v_committed D d1 = v_committed D d @ [initBalance]"
    using assms Suc.prems(1) unfolding setup_laws_def by blast
  with Suc.IH [OF _ d1(2)] Suc.prems(1) show ?case by simp
qed simp

lemma bank_SetUp_initial:
  assumes "setup_laws D" "bank_SetUp D 0 d = (None, d')"
  shows "v_committed D d' = replicate accountNum initBalance"
proof -
  from assms(2) obtain d1 d2 where d: "sql_DbExec D ''drop table if exists accounts'' [] d = (None, d1)"
    "sql_DbExec D ''create table if not exists accounts (id int not null primary key, balance bigint not null)'' [] d1 = (None, d2)"
    "insert_loop D 0 accountNum d2 = (None, d')" by (auto simp: bank_SetUp_def split: prod.splits option.splits)
  with assms(1) have "v_committed D d2 = []" unfolding setup_laws_def by metis
  with insert_loop_spec [OF assms(1) _ d(3)] show ?thesis by simp
qed

text \<open>The state that the controller dumps before a round, and that prepares the model, is what the
  accounts hold.\<close>

lemma bank_DumpState_committed:
  assumes "bank_laws D" "bank_DumpState D d = (Inr bs, d')"
  shows "bs = v_committed D d \<and> v_committed D d' = v_committed D d"
proof -
  have t: "txn_laws D" using assms(1) by (simp add: bank_laws_def)
  from assms(2) obtain d1 rows e d2 where d: "sql_Begin D d = (None, d1)"
    "sql_Query D ''select balance from accounts'' d1 = (Inr (rows, e), d2)" "scan_rows rows = Inr bs" "d' = sql_Rollback D d2"
    by (auto simp: bank_DumpState_def split: prod.splits option.splits sum.splits)
  have "bs = v_view D d1" "reads_only D d1 d2" using assms(1) d(2,3) unfolding bank_laws_def by blast+
  with txn_Begin [OF t d(1)] txn_Rollback [OF t] d(4) show ?thesis by (simp add: reads_only_def)
qed

lemma multiBank_DumpState_committed:
  assumes "multi_laws D" "length (v_committed D d) = accountNum" "multiBank_DumpState D d = (Inr bs, d')"
  shows "bs = v_committed D d \<and> v_committed D d' = v_committed D d"
proof -
  have t: "txn_laws D" using assms(1) by (simp add: multi_laws_def)
  from assms(3) obtain d1 d2 where d: "sql_Begin D d = (None, d1)" "multi_rows D 0 accountNum d1 = (Inr bs, d2)" "d' = sql_Rollback D d2"
    by (auto simp: multiBank_DumpState_def split: prod.splits option.splits)
  have "v_view D d1 = v_committed D d" using txn_Begin [OF t d(1)] by simp
  then have "bs = v_committed D d" "reads_only D d1 d2" using multi_rows_spec [OF _ _ _ d(2)] assms(1,2) by (auto simp: multi_laws_def)
  with txn_Begin [OF t d(1)] txn_Rollback [OF t] d(3) show ?thesis by (simp add: reads_only_def)
qed

text \<open>\<open>invokeRead\<close> does not ask \<open>rows.Err()\<close>: when the connection fails after some rows, the balances so far are
  returned as a known read, which the bank model rejects.\<close>

definition cut_rows :: "nat \<Rightarrow> mem_db SqlView" where
  "cut_rows n = mem\<lparr>sql_Query := (\<lambda>stmt (c, v, t, os). (Inr (map Inr (take n v), n < length v), (c, v, t, os)))\<rparr>"

theorem rows_error_ignored:
  "let resp = fst (bank_Invoke (cut_rows 2) mem_start \<lparr>breq_Op = 0, breq_From = 0, breq_To = 0, breq_Amount = 0\<rparr>)
   in bresp_Balances resp = [1000, 1000] \<and> \<not> bresp_Unknown resp \<and>
      fst (the (bank_Step (v_committed mem mem_start) \<lparr>breq_Op = 0, breq_From = 0, breq_To = 0, breq_Amount = 0\<rparr> resp)) = False"
  by code_simp

end
