(* ===== verification/Spec2Isabelle.thy ===== *)
theory Spec2Isabelle
  imports Cycle_Laws Components_Laws Consistency_Models Register_Client Rawkv Long_Fork Sql_Logic
    Client_Loop Nemesis_Run Nemesis_Control Bank_Client
begin

text \<open>
  A verification library of TiPocket, the toolkit that tests TiDB clusters by running clients
  against them while faults are injected, recording what the clients see, and checking the record.

  \<^bold>\<open>The parts and how they interact.\<close> The controller (\<open>pkg/control\<close>) runs rounds. In a round the
  clients take requests from a workload (\<open>db/tidb\<close>, \<open>testcase\<close>), invoke them and record calls and
  returns (\<open>cmd/util/suit.go\<close>, \<open>pkg/history\<close>), while nemeses are generated, injected and recovered
  (\<open>pkg/nemesis\<close>, \<open>pkg/core/nemesis.go\<close>). After the round the history is read back, completed and given
  to a checker (\<open>pkg/verify\<close>, \<open>pkg/check\<close>, \<open>pkg/model\<close>): linearizability against a sequential model, the
  checkers of the bank and long-fork workloads, or Elle (\<open>pkg/elle\<close>), which looks for cycles of
  dependencies between transactions.

  \<^bold>\<open>Theories and sources.\<close>
  \<^item> \<open>Prelude\<close>: Go maps, the order of range loops, loops that may panic, shared lemmas.
  \<^item> \<open>Elle_History\<close>, \<open>Rendering\<close>, \<open>Regexp\<close>, \<open>History_Parser\<close>: \<open>pkg/elle/core/history.go\<close>, \<open>optional.go\<close>, \<open>util.go\<close>;
    operations, their strings, and the parser of histories with its regular expressions, run by a
    backtracking matcher in the order of Go's leftmost-first semantics. What is printed is read back, for processes,
    times and indices that are not negative.
  \<^item> \<open>Digraph\<close>, \<open>Digraph_Laws\<close>, \<open>Graph_Search\<close>, \<open>Cycle_Search\<close>, \<open>Cycle_Laws\<close>, \<open>Components\<close>,
    \<open>Components_Laws\<close>: \<open>graph.go\<close> and \<open>bfs.go\<close>. Every update is characterised on the set of labelled edges; the
    searches terminate; \<open>FindCycle\<close> returns a shortest cycle; Tarjan's algorithm with explicit stacks
    returns exactly the strongly connected components of more than one vertex.
  \<^item> \<open>Consistency_Models\<close>: \<open>consistency_model.go\<close>; the queries are closures of the tables' relations.
  \<^item> \<open>Analyzers\<close>, \<open>Analyzer_Laws\<close>: \<open>core.go\<close> and \<open>depend.go\<close>; the real-time and process graphs mean the orders
    they are named after.
  \<^item> \<open>Txn\<close>, \<open>Txn_Laws\<close>: \<open>pkg/elle/txn\<close>; classification of cycles and the verdict.
  \<^item> \<open>List_Append\<close>, \<open>Write_Maps\<close>, \<open>Version_Orders\<close>, \<open>Serial_Semantics\<close>, \<open>Serial_Histories\<close>, \<open>Serial_Graphs\<close>,
    \<open>Serial_Verdict\<close>: \<open>pkg/elle/list_append\<close>; what each check reports, and that a serial history of
    transactions is accepted, unless the searched graph has no vertex, which Elle reports. \<open>Wr_Txn\<close>: the generator of such transactions.
  \<^item> \<open>Rw_Register\<close>, \<open>Register_Laws\<close>: \<open>pkg/elle/rw_register\<close>; a serial history of registers is accepted, on the same
    condition.
  \<^item> \<open>Elle_Db\<close>, \<open>Append_Client\<close>, \<open>Register_Client\<close>: \<open>testcase/list-append/client.go\<close>, \<open>testcase/rw-register/client.go\<close>. The
    clients keep the contracts \<open>append_client\<close> and \<open>register_client\<close> of stores of lists and of registers, and
    from them follows that neither test, from the generator of requests over the client and the
    recorded JSON to the verdict, raises a false alarm on a database that runs one transaction at a time, once a
    transaction has succeeded before the last one.
  \<^item> \<open>Operations\<close>, \<open>Linearizability\<close>: \<open>pkg/core/model.go\<close>, \<open>checker.go\<close>, reading and completing of \<open>pkg/history\<close>,
    \<open>pkg/check/porcupine\<close>, \<open>pkg/verify\<close>; the completion decides linearizability with pending operations,
    for every model that keeps the contract \<open>object_model\<close>, which the models of \<open>Object_Models\<close> and
    \<open>Rawkv\<close> are shown to keep.
  \<^item> \<open>Recording\<close>: the recorder and the bytes of the history file; what is recorded is read back, as far as
    the lines fit the scanner's buffer and the parser of the workload decodes them.
  \<^item> \<open>Client_Loop\<close>: the loops of \<open>cmd/util/suit.go\<close> as steps of concurrent clients on shared counters and one
    file; every reachable history whose lines fit the scanner's buffer is accepted by the verifier, and every round ends.
  \<^item> \<open>Bank_Tso\<close>, \<open>Bank_Client\<close>: the timestamp checker of \<open>db/tidb/bank.go\<close> on a store of shared events, and the
    clients of \<open>bank.go\<close> and \<open>multi_bank.go\<close>. Both clients keep the contract \<open>bank_client\<close>, and from it
    follows that their histories pass the checker and run the model.
  \<^item> \<open>Long_Fork\<close>: \<open>db/tidb/long_fork.go\<close>; the checker finds a fork exactly when there is one.
  \<^item> \<open>Sql_Logic\<close>: \<open>testcase/sqllogictest/sqllogic.go\<close> and \<open>pkg/util\<close> there; the tester runs a script record by
    record as its text says, and the verdict on a sorted query does not depend on the order of the rows.
  \<^item> \<open>Nemesis_Types\<close>: nodes and nemesis operations of \<open>pkg/cluster\<close> and \<open>pkg/core/nemesis.go\<close>.
    \<open>Nemesis_Generators\<close>: the generators of \<open>pkg/nemesis\<close> and the parser of their names.
    \<open>Pd_Client\<close>: \<open>pkg/util/http\<close>, \<open>pkg/util/pdutil\<close> and the leader shuffler. \<open>Chaos_Objects\<close>: the chaos-mesh
    objects, \<open>Invoke\<close> and \<open>Recover\<close> of every nemesis and the registry. \<open>Nemesis_Run\<close>: \<open>onNemesis\<close> and
    the goroutines of a dispatch, \<open>RunWithRetry\<close>; recovery deletes what injection created.
    \<open>Nemesis_Control\<close>: the handshake of \<open>pkg/core/nemesis.go\<close> between a client and the goroutines of \<open>onNemesis\<close>, which
    alternates without getting stuck, and the iterators of generators.

  \<^bold>\<open>Conventions.\<close> A struct is a record, an interface with known implementations a datatype, a Go map an
  association list. A function that ranges over a map takes a \<open>range_order\<close>; every permutation is the
  order of some choice, so a theorem for an arbitrary one covers every run. A panic or a fatal exit
  is \<^const>\<open>None\<close>, or a state of its own in a step relation; an error is a value of a sum or option type, or
  a flag beside the new world where only its presence matters. Integers that can wrap are words of their width.
  Concurrency is a step relation whose steps are the atomic operations of one goroutine.

  \<^bold>\<open>Loops and bounds.\<close> Loops are recursive functions with a termination proof. \<open>RunWithRetry\<close> with a negative
  count may not end and is a partial function; it is shown to return for every other count.
  \<open>sequential_order\<close> has fuel, and returns whenever the fuel exceeds the number of generators left.
  Round and handshake have explicit bounds on the number of steps.

  \<^bold>\<open>Parameters.\<close> The porcupine checker, JSON coding, the treap of the raw key-value model, random
  sources, the SQL connection, the Kubernetes client, the network, floating-point
  conversions and MD5 of the SQL logic test, and the members that PD reports
  are arguments. What the code relies on is stated as a predicate on them (\<open>porcupine_decides\<close>,
  \<open>json_records\<close>, \<open>parser_decodes\<close>, \<open>math_rand_laws\<close>, \<open>bank_laws\<close>, \<open>multi_laws\<close>, \<open>append_db_laws\<close>, \<open>register_db_laws\<close>, \<open>api_laws\<close>, \<open>pd_laws\<close>,
  \<open>pd_answers\<close>), and every theorem
  that assumes one has a witness in which it holds of a concrete function.

  \<^bold>\<open>Where the code errs.\<close> Some theorems show inputs on which the code does not do what it means to:
  \<open>unknown_transfer_loses_timestamp\<close>, \<open>failed_transfer_credited\<close>, \<open>stale_read_accepted\<close>, \<open>rows_error_ignored\<close>,
  \<open>throttle_ticker_leaks\<close>, \<open>strobe_skews_fatal\<close>, \<open>pd_nonleader_is_random_kill\<close>, \<open>region_loses_replicas\<close>,
  \<open>handshake_without_operations_deadlocks\<close>, \<open>WaitForStart_ignores_context\<close>, \<open>powInt_sets_all_bits\<close>,
  \<open>filter_phantom_edges\<close>, \<open>snapshot_isolation_misses_GSIb\<close>, \<open>unknown_unreadable\<close>, \<open>nemesis_record_panics\<close>,
  \<open>undetermined_commit_alarm\<close>, \<open>scan_error_keeps_transaction\<close>, \<open>replica_read_ignored\<close>, \<open>initial_version_misses_skew\<close>,
  \<open>option_rules_out_skew\<close>, \<open>too_many_columns_pass\<close>, \<open>renderString_masks_tilde\<close>, \<open>split_values_pass\<close>,
  \<open>sentinel_hides_conflict\<close> and \<open>nemesis_process_lost\<close>.

  \<^bold>\<open>Not modelled.\<close> The plotting of Elle; deployment of clusters, the copied types of tidb-operator and
  generated code; the SQL and key-value clients of the other workloads and test cases, which consist of
  calls to a live cluster; log search and log plugins;
  commands and scaffolds. In modelled files, what only prints, logs or opens connections is left out.
\<close>

end
